(* ===== verification/Prelude.thy ===== *)
theory Prelude
  imports Main "HOL-Library.Word" "HOL-Library.Multiset" "HOL-Library.Product_Lexorder"
    "HOL-Library.Monad_Syntax"
begin

unbundle bit_operations_syntax

text \<open>
  Shared vocabulary of the development: the machine types of the C sources, pointers that
  may be null, the allocator, and generic facts on arrays held as lists.

  \<^item> \<open>uint64_t\<close>, \<open>uint16_t\<close> and \<open>uint8_t\<close> are words (arithmetic wraps, as in C); an
    \<open>int64_t\<close> is a 64-bit word read by \<open>sint\<close> and compared with the signed orders.
  \<^item> \<open>size_t\<close> values (sizes, indices, capacities) are \<open>nat\<close>, and every place where the C
    text guards against overflow, or could overflow, spells the bound out with
    \<open>SIZE_MAX\<close> or reduces modulo \<open>2 ^ 64\<close>.
  \<^item> A pointer argument that the C code tests against \<open>nullptr\<close> is an \<open>option\<close>.
  \<^item> \<open>malloc\<close> and \<open>realloc\<close> may fail at any call. An operation that allocates takes an
    \<open>allocator\<close>: for each place in the code that allocates, and each number of bytes
    requested there, whether the request is granted. Every theorem holds for every
    allocator.
\<close>

type_synonym u8 = "8 word"
type_synonym u16 = "16 word"
type_synonym u64 = "64 word"
type_synonym i64 = "64 word"

type_synonym 'a ptr = "'a option"

definition SIZE_MAX :: nat where
  "SIZE_MAX = 2 ^ 64 - 1"

definition UINT64_MAX :: u64 where
  "UINT64_MAX = 0xffffffffffffffff"

definition size_mul :: "nat \<Rightarrow> nat \<Rightarrow> nat" where
  "size_mul a b = (a * b) mod 2 ^ 64"

datatype alloc_site =
    Heap_Struct
  | Heap_Data
  | Index_Data
  | Node_Data
  | Grid_Cells
  | Event_Payload
  | Sample_Store

type_synonym allocator = "alloc_site \<Rightarrow> nat \<Rightarrow> bool"

named_theorems core_simps \<open>defining equations unfolded by the component proofs\<close>
named_theorems inv_intros \<open>preservation facts of the component invariants\<close>

section \<open>Sizes\<close>

lemma SIZE_MAX_pos [simp]: "0 < SIZE_MAX"
  by (simp add: SIZE_MAX_def)

lemma unat_lt_2p64 [simp]: "unat (w :: u64) < 18446744073709551616"
proof -
  have "unat w < 2 ^ LENGTH(64)" by (rule unsigned_less)
  then show ?thesis by simp
qed

lemma unat_le_max [simp]: "unat (w :: u64) \<le> 18446744073709551615"
  using unat_lt_2p64 [of w] by (simp only: less_Suc_eq_le [symmetric])

lemma unat_le_SIZE_MAX [simp]: "unat (w :: u64) \<le> SIZE_MAX"
proof -
  have "SIZE_MAX = 18446744073709551615" by (simp add: SIZE_MAX_def)
  moreover have "unat w < Suc 18446744073709551615" using unat_lt_2p64 [of w] by (simp del: unat_lt_2p64)
  ultimately show ?thesis by (simp only: less_Suc_eq_le)
qed

lemma unat_of_nat64: "n < 2 ^ 64 \<Longrightarrow> unat (of_nat n :: u64) = n"
  by (simp add: unsigned_of_nat take_bit_nat_eq_self)

lemma size_mul_exact: "a * b \<le> SIZE_MAX \<Longrightarrow> size_mul a b = a * b"
  by (simp add: size_mul_def SIZE_MAX_def)

lemma size_mul_exact_div: "a \<le> SIZE_MAX div b \<Longrightarrow> size_mul a b = a * b"
proof (rule size_mul_exact)
  assume "a \<le> SIZE_MAX div b"
  then have "a * b \<le> SIZE_MAX div b * b" by (rule mult_le_mono1)
  also have "\<dots> \<le> SIZE_MAX" by (rule div_times_less_eq_dividend)
  finally show "a * b \<le> SIZE_MAX" .
qed

section \<open>Arrays as lists\<close>

text \<open>Exchange of two array slots, as the sources' local \<open>swap\<close> helpers do.\<close>

definition swap_at :: "'a list \<Rightarrow> nat \<Rightarrow> nat \<Rightarrow> 'a list" where
  "swap_at xs i j = xs[i := xs ! j, j := xs ! i]"

lemma length_swap_at [simp]: "length (swap_at xs i j) = length xs"
  by (simp add: swap_at_def)

lemma swap_at_nth:
  "i < length xs \<Longrightarrow> j < length xs \<Longrightarrow> k < length xs \<Longrightarrow>
   swap_at xs i j ! k = (if k = i then xs ! j else if k = j then xs ! i else xs ! k)"
  by (auto simp: swap_at_def nth_list_update)

lemma mset_swap_at [simp]:
  "i < length xs \<Longrightarrow> j < length xs \<Longrightarrow> mset (swap_at xs i j) = mset xs"
  unfolding swap_at_def by (rule mset_swap)

lemma mset_move_last:
  assumes "xs \<noteq> []"
  shows "add_mset (hd xs) (mset (if length xs = 1 then [] else (butlast xs)[0 := last xs])) = mset xs"
proof (cases xs)
  case (Cons x ys)
  show ?thesis
  proof (cases ys rule: rev_cases)
    case Nil
    with Cons show ?thesis by simp
  next
    case (snoc zs z)
    with Cons show ?thesis by (simp add: butlast_append)
  qed
qed (use assms in simp)

lemma in_set_list_updateD: "x \<in> set (xs[i := y]) \<Longrightarrow> x \<in> set xs \<or> x = y"
  using set_update_subset_insert [of xs i y] by blast

lemma find_append_case:
  "find P (xs @ ys) = (case find P xs of None \<Rightarrow> find P ys | Some x \<Rightarrow> Some x)"
  by (induction xs) auto

section \<open>Unordered tables\<close>

text \<open>The index of the first entry that matches, as the sources' linear scans return it.\<close>

fun first_at :: "('a \<Rightarrow> bool) \<Rightarrow> 'a list \<Rightarrow> nat option" where
  "first_at P [] = None"
| "first_at P (x # xs) = (if P x then Some 0 else map_option Suc (first_at P xs))"

text \<open>Removal by moving the last entry into the hole.\<close>

definition swap_remove :: "'a list \<Rightarrow> nat \<Rightarrow> 'a list" where
  "swap_remove xs i = butlast (xs[i := last xs])"

lemma first_at_Some:
  "first_at P xs = Some i \<Longrightarrow> i < length xs \<and> P (xs ! i) \<and> find P xs = Some (xs ! i)"
  by (induction xs arbitrary: i) (auto split: if_splits)

lemma first_at_None: "first_at P xs = None \<longleftrightarrow> (\<forall>x \<in> set xs. \<not> P x)"
  by (induction xs) auto

lemma find_first_at: "find P xs = map_option (nth xs) (first_at P xs)"
  by (induction xs) (auto simp: map_option.compositionality comp_def)

lemma length_swap_remove [simp]: "length (swap_remove xs i) = length xs - 1"
  by (simp add: swap_remove_def)

lemma mset_swap_remove:
  assumes "i < length xs"
  shows "mset (swap_remove xs i) = mset xs - {#xs ! i#}"
proof -
  from assms obtain ys y where "xs = ys @ [y]" by (cases xs rule: rev_cases) auto
  with assms show ?thesis
    by (cases "i = length ys")
      (auto simp: swap_remove_def butlast_append list_update_append mset_update nth_append)
qed

lemma find_keyed:
  "distinct (map key xs) \<Longrightarrow> find (\<lambda>x. key x = k) xs = Some x \<longleftrightarrow> x \<in> set xs \<and> key x = k"
  by (induction xs) (auto simp: rev_image_eqI)

lemma find_keyed_None: "find (\<lambda>x. key x = k) xs = None \<longleftrightarrow> k \<notin> key ` set xs"
  by (auto simp: find_None_iff)

lemma swap_remove_keyed:
  assumes "distinct (map key xs)" "i < length xs"
  shows "distinct (map key (swap_remove xs i))"
    "find (\<lambda>x. key x = k) (swap_remove xs i) = (if k = key (xs ! i) then None else find (\<lambda>x. key x = k) xs)"
proof -
  have m: "mset xs = mset (xs ! i # swap_remove xs i)"
    using assms(2) by (simp add: mset_swap_remove)
  then have "mset (map key xs) = mset (map key (xs ! i # swap_remove xs i))"
    by (metis mset_map)
  then have d: "distinct (map key (xs ! i # swap_remove xs i))"
    using assms(1) by (metis mset_eq_imp_distinct_iff)
  then show d': "distinct (map key (swap_remove xs i))" by simp
  have s: "set xs = insert (xs ! i) (set (swap_remove xs i))" using m by (metis list.set(2) set_mset_mset)
  show "find (\<lambda>x. key x = k) (swap_remove xs i) =
      (if k = key (xs ! i) then None else find (\<lambda>x. key x = k) xs)"
  proof (cases "k = key (xs ! i)")
    case True
    with d show ?thesis by (auto simp: find_keyed_None)
  next
    case False
    show ?thesis
    proof (cases "find (\<lambda>x. key x = k) xs")
      case None
      with s have "find (\<lambda>x. key x = k) (swap_remove xs i) = None" by (auto simp: find_keyed_None)
      with None False show ?thesis by simp
    next
      case (Some x)
      with False s have "x \<in> set (swap_remove xs i)" "key x = k"
        by (auto simp: find_keyed [OF assms(1)])
      with Some False show ?thesis by (simp add: find_keyed [OF d'])
    qed
  qed
qed

end
