(* ===== verification/Rng.thy ===== *)
theory Rng
  imports Prelude
begin

text \<open>
  The random generator \<open>rng/rng.c\<close> (xoshiro256** with a splitmix64 seeder) and the
  variadic minimum \<open>math/math.c\<close>. The lemmas show that both mixing functions are
  injective, so that seeding never needs its all-zero guard and the generator never
  falls into the absorbing all-zero state.
\<close>

section \<open>Definitions\<close>

record rng_state =
  s0 :: u64
  s1 :: u64
  s2 :: u64
  s3 :: u64

definition rotl :: "u64 \<Rightarrow> nat \<Rightarrow> u64" where
  "rotl x k = (push_bit k x) OR (drop_bit (64 - k) x)"

definition splitmix64_next :: "u64 \<Rightarrow> u64 \<times> u64" where
  "splitmix64_next x =
     (let x = x + 0x9e3779b97f4a7c15;
          z = x;
          z = (z XOR drop_bit 30 z) * 0xbf58476d1ce4e5b9;
          z = (z XOR drop_bit 27 z) * 0x94d049bb133111eb
      in (z XOR drop_bit 31 z, x))"

definition rng_seed :: "u64 \<Rightarrow> rng_state" where
  "rng_seed seed =
     (let x = seed;
          (a, x) = splitmix64_next x;
          (b, x) = splitmix64_next x;
          (c, x) = splitmix64_next x;
          (d, x) = splitmix64_next x
      in if a = 0 \<and> b = 0 \<and> c = 0 \<and> d = 0
         then \<lparr>s0 = 1, s1 = b, s2 = c, s3 = d\<rparr>
         else \<lparr>s0 = a, s1 = b, s2 = c, s3 = d\<rparr>)"

definition rng_u64 :: "rng_state \<Rightarrow> u64 \<times> rng_state" where
  "rng_u64 r =
     (let result = rotl (s1 r * 5) 7 * 9;
          t = push_bit 17 (s1 r);
          r = r\<lparr>s2 := s2 r XOR s0 r\<rparr>;
          r = r\<lparr>s3 := s3 r XOR s1 r\<rparr>;
          r = r\<lparr>s1 := s1 r XOR s2 r\<rparr>;
          r = r\<lparr>s0 := s0 r XOR s3 r\<rparr>;
          r = r\<lparr>s2 := s2 r XOR t\<rparr>;
          r = r\<lparr>s3 := rotl (s3 r) 45\<rparr>
      in (result, r))"

text \<open>The stream of the first \<open>n\<close> outputs, and the state after them.\<close>

fun rng_stream :: "nat \<Rightarrow> rng_state \<Rightarrow> u64 list \<times> rng_state" where
  "rng_stream 0 r = ([], r)"
| "rng_stream (Suc n) r =
     (let (v, r) = rng_u64 r; (vs, r) = rng_stream n r in (v # vs, r))"

text \<open>
  \<open>min(count, ...)\<close>: the loop reads one further argument per round. \<open>args\<close> are the
  variadic arguments, and reading more of them than were passed is undefined behaviour in
  C, here \<open>None\<close>.
\<close>

fun min_loop :: "nat \<Rightarrow> u64 list \<Rightarrow> u64 \<Rightarrow> u64 option" where
  "min_loop 0 args m = Some m"
| "min_loop (Suc n) [] m = None"
| "min_loop (Suc n) (a # args) m = min_loop n args (if a < m then a else m)"

definition min_va :: "u64 \<Rightarrow> u64 list \<Rightarrow> u64 option" where
  "min_va cnt args =
     (if cnt = 0 then Some 0
      else case args of [] \<Rightarrow> None | m # rest \<Rightarrow> min_loop (unat cnt - 1) rest m)"

section \<open>Injective mixing steps\<close>

lemma xor_drop_inj:
  fixes x y :: u64
  assumes k: "0 < k" and eq: "x XOR drop_bit k x = y XOR drop_bit k y"
  shows "x = y"
proof (rule bit_eqI)
  fix n
  have eqb: "(bit x n \<noteq> bit x (n + k)) = (bit y n \<noteq> bit y (n + k))" for n
  proof -
    have "bit (x XOR drop_bit k x) n = bit (y XOR drop_bit k y) n" using eq by simp
    then show ?thesis by (simp add: bit_xor_iff bit_drop_bit_eq add.commute)
  qed
  have top: "\<not> bit (w :: u64) n" if "64 \<le> n" for w n
    using that by (auto dest: bit_imp_le_length)
  show "bit x n = bit y n"
  proof (induction "64 - n" arbitrary: n rule: less_induct)
    case less
    show ?case
    proof (cases "64 \<le> n")
      case True
      then show ?thesis by (simp add: top)
    next
      case False
      with k have "64 - (n + k) < 64 - n" by simp
      then have "bit x (n + k) = bit y (n + k)" by (rule less)
      then show ?thesis using eqb [of n] by blast
    qed
  qed
qed

lemma xor_push_inj:
  fixes x y :: u64
  assumes k: "0 < k" and eq: "x XOR push_bit k x = y XOR push_bit k y"
  shows "x = y"
proof (rule bit_word_eqI)
  fix n assume "n < LENGTH(64)"
  then show "bit x n = bit y n"
  proof (induction n rule: less_induct)
    case (less n)
    have "bit (x XOR push_bit k x) n = bit (y XOR push_bit k y) n" using eq by simp
    then have eqb: "(bit x n \<noteq> (k \<le> n \<and> bit x (n - k))) = (bit y n \<noteq> (k \<le> n \<and> bit y (n - k)))"
      using less.prems by (simp add: bit_xor_iff bit_push_bit_iff)
    show ?case
    proof (cases "k \<le> n")
      case True
      with k less have "bit x (n - k) = bit y (n - k)" by simp
      with eqb show ?thesis by blast
    qed (use eqb in simp)
  qed
qed

lemma mult_unit_inj:
  fixes x y :: "'a::comm_ring_1"
  assumes "u * v = 1" and "x * u = y * u"
  shows "x = y"
proof -
  have "x * u * v = y * u * v" using assms(2) by simp
  with assms(1) show ?thesis by (simp add: mult.assoc)
qed

definition splitmix64_mix :: "u64 \<Rightarrow> u64" where
  "splitmix64_mix z =
     (let z = (z XOR drop_bit 30 z) * 0xbf58476d1ce4e5b9;
          z = (z XOR drop_bit 27 z) * 0x94d049bb133111eb
      in z XOR drop_bit 31 z)"

lemma splitmix64_next_mix:
  "splitmix64_next x = (splitmix64_mix (x + 0x9e3779b97f4a7c15), x + 0x9e3779b97f4a7c15)"
  by (simp add: splitmix64_next_def splitmix64_mix_def Let_def)

lemma mult_m1_inj: "x * 0xbf58476d1ce4e5b9 = y * 0xbf58476d1ce4e5b9 \<Longrightarrow> x = (y :: u64)"
  by (rule mult_unit_inj [where v = "0x96de1b173f119089"]) simp_all

lemma mult_m2_inj: "x * 0x94d049bb133111eb = y * 0x94d049bb133111eb \<Longrightarrow> x = (y :: u64)"
  by (rule mult_unit_inj [where v = "0x319642b2d24d8ec3"]) simp_all

lemma splitmix64_mix_inj: "splitmix64_mix x = splitmix64_mix y \<Longrightarrow> x = y"
  unfolding splitmix64_mix_def Let_def
  by (drule xor_drop_inj [rotated], simp, drule mult_m2_inj,
      drule xor_drop_inj [rotated], simp, drule mult_m1_inj,
      drule xor_drop_inj [rotated], simp)

lemma rotl_zero_iff: "0 < k \<Longrightarrow> k < 64 \<Longrightarrow> rotl x k = 0 \<longleftrightarrow> x = 0"
proof
  assume k: "0 < k" "k < 64" and z: "rotl x k = 0"
  show "x = 0"
  proof (rule bit_word_eqI)
    fix n assume n: "n < LENGTH(64)"
    have bits: "\<not> bit (rotl x k) m" for m using z by simp
    show "bit x n = bit 0 n"
    proof (cases "n + k < 64")
      case True
      then show ?thesis using bits [of "n + k"]
        by (simp add: rotl_def bit_or_iff bit_push_bit_iff)
    next
      case False
      then have "64 - k + (n - (64 - k)) = n" by simp
      with bits [of "n - (64 - k)"] show ?thesis
        by (simp add: rotl_def bit_or_iff bit_drop_bit_eq)
    qed
  qed
qed (simp add: rotl_def)

lemma rotl_xor: "rotl (x XOR y) k = rotl x k XOR rotl y k" if "k < 64"
proof (rule bit_word_eqI)
  fix n assume "n < LENGTH(64)"
  with that have "\<not> (k \<le> n \<and> bit x (64 - k + n))" "\<not> (k \<le> n \<and> bit y (64 - k + n))"
    by (auto dest: bit_imp_le_length)
  with \<open>n < LENGTH(64)\<close> show "bit (rotl (x XOR y) k) n = bit (rotl x k XOR rotl y k) n"
    by (auto simp: rotl_def bit_or_iff bit_xor_iff bit_push_bit_iff bit_drop_bit_eq)
qed

lemma xor_self_left: "x XOR (x XOR y) = (y :: u64)"
  by (simp flip: xor.assoc)

lemma xor_left_cancel: "(x :: u64) XOR y = x XOR z \<longleftrightarrow> y = z"
proof
  assume "x XOR y = x XOR z"
  then have "x XOR (x XOR y) = x XOR (x XOR z)" by (rule arg_cong)
  then show "y = z" by (simp only: xor_self_left)
qed simp

lemma xor_right_cancel: "(y :: u64) XOR x = z XOR x \<longleftrightarrow> y = z"
  by (simp only: xor_left_cancel xor.commute [of _ x])

lemma xor_eq_0_iff: "x XOR y = 0 \<longleftrightarrow> x = (y :: u64)"
  using xor_left_cancel [of x y x] by auto

lemma rotl_inj: "0 < k \<Longrightarrow> k < 64 \<Longrightarrow> rotl x k = rotl y k \<Longrightarrow> x = y"
  using rotl_xor [of k x y] rotl_zero_iff [of k "x XOR y"] by (simp add: xor_eq_0_iff)

lemmas rng_inj_rules = xor_left_cancel xor_right_cancel

section \<open>The state of the generator\<close>

lemma rng_u64_state:
  "snd (rng_u64 r) = r\<lparr>s0 := s0 r XOR (s3 r XOR s1 r),
                      s1 := s1 r XOR (s2 r XOR s0 r),
                      s2 := (s2 r XOR s0 r) XOR push_bit 17 (s1 r),
                      s3 := rotl (s3 r XOR s1 r) 45\<rparr>"
  by (simp add: rng_u64_def Let_def)

definition rng_zero :: rng_state where
  "rng_zero = \<lparr>s0 = 0, s1 = 0, s2 = 0, s3 = 0\<rparr>"

lemma rng_u64_zero: "snd (rng_u64 rng_zero) = rng_zero"
  by (simp add: rng_u64_state rng_zero_def rotl_zero_iff)

lemma rng_u64_lanes:
  "s0 (snd (rng_u64 r)) = s0 r XOR (s3 r XOR s1 r)"
  "s1 (snd (rng_u64 r)) = s1 r XOR (s2 r XOR s0 r)"
  "s2 (snd (rng_u64 r)) = (s2 r XOR s0 r) XOR push_bit 17 (s1 r)"
  "s3 (snd (rng_u64 r)) = rotl (s3 r XOR s1 r) 45"
  by (simp_all add: rng_u64_state)

lemma rng_step_injective:
  assumes eq: "snd (rng_u64 r) = snd (rng_u64 q)"
  shows "r = q"
proof -
  note lanes = rng_u64_lanes [of r, unfolded eq, unfolded rng_u64_lanes [of q]]
  have a: "s3 q XOR s1 q = s3 r XOR s1 r"
    by (rule rotl_inj [OF _ _ lanes(4)]) simp_all
  with lanes(1) have lane0: "s0 q = s0 r" by (simp only: rng_inj_rules)
  let ?u = "s2 q XOR s0 q" and ?v = "s2 r XOR s0 r"
  have cancel: "(x XOR u) XOR (u XOR y) = x XOR y" for x u y :: u64
    by (simp only: xor.assoc xor_self_left)
  have "s1 q XOR push_bit 17 (s1 q) = (s1 q XOR ?u) XOR (?u XOR push_bit 17 (s1 q))"
    by (rule cancel [symmetric])
  also have "\<dots> = (s1 r XOR ?v) XOR (?v XOR push_bit 17 (s1 r))"
    by (simp only: lanes(2,3))
  also have "\<dots> = s1 r XOR push_bit 17 (s1 r)"
    by (rule cancel)
  finally have lane1: "s1 q = s1 r" by (rule xor_push_inj [rotated]) simp
  with lanes(2) lane0 have lane2: "s2 q = s2 r" by (simp only: rng_inj_rules)
  from a lane1 have "s3 q = s3 r" by (simp only: rng_inj_rules)
  with lane0 lane1 lane2 show ?thesis by (cases r, cases q) simp
qed

lemma rng_step_nonzero: "r \<noteq> rng_zero \<Longrightarrow> snd (rng_u64 r) \<noteq> rng_zero"
  by (metis rng_step_injective rng_u64_zero)

lemma rng_stream_nonzero: "r \<noteq> rng_zero \<Longrightarrow> snd (rng_stream n r) \<noteq> rng_zero"
  by (induction n arbitrary: r) (auto simp: rng_step_nonzero split_beta Let_def)

text \<open>The four seeder outputs come from four different seeder states.\<close>

lemma rng_seed_first_lanes:
  "\<not> (splitmix64_mix (seed + 0x9e3779b97f4a7c15) = 0 \<and>
      splitmix64_mix (seed + 0x9e3779b97f4a7c15 + 0x9e3779b97f4a7c15) = 0)"
proof
  assume "splitmix64_mix (seed + 0x9e3779b97f4a7c15) = 0 \<and>
      splitmix64_mix (seed + 0x9e3779b97f4a7c15 + 0x9e3779b97f4a7c15) = 0"
  then have "splitmix64_mix (seed + 0x9e3779b97f4a7c15) =
      splitmix64_mix (seed + 0x9e3779b97f4a7c15 + 0x9e3779b97f4a7c15)" by simp
  then have "seed + 0x9e3779b97f4a7c15 = seed + 0x9e3779b97f4a7c15 + 0x9e3779b97f4a7c15"
    by (rule splitmix64_mix_inj)
  then show False by simp
qed

lemma rng_seed_nonzero: "rng_seed seed \<noteq> rng_zero"
  using rng_seed_first_lanes [of seed]
  by (auto simp: rng_seed_def splitmix64_next_mix rng_zero_def Let_def)

text \<open>The repair branch of the seeder (all four lanes zero) is never taken.\<close>

lemma rng_seed_guard_dead:
  "rng_seed seed =
     (let g = 0x9e3779b97f4a7c15 in
      \<lparr>s0 = splitmix64_mix (seed + g), s1 = splitmix64_mix (seed + g + g),
       s2 = splitmix64_mix (seed + g + g + g), s3 = splitmix64_mix (seed + g + g + g + g)\<rparr>)"
  using rng_seed_first_lanes [of seed]
  by (auto simp: rng_seed_def splitmix64_next_mix Let_def)

text \<open>Drawing on later never changes what was drawn before: the stream is a prefix.\<close>

lemma rng_stream_append:
  "rng_stream (m + n) r =
   (let (xs, r1) = rng_stream m r; (ys, r2) = rng_stream n r1 in (xs @ ys, r2))"
  by (induction m arbitrary: r) (auto simp: Let_def split: prod.splits)

section \<open>The variadic minimum\<close>

lemma min_loop_Min:
  "n \<le> length args \<Longrightarrow>
   min_loop n args m = Some (Min (insert m (set (take n args))))"
proof (induction n args m rule: min_loop.induct)
  case (3 n a args m)
  then have "min_loop (Suc n) (a # args) m = Some (Min (insert (min a m) (set (take n args))))"
    by (auto simp: min_def not_less)
  also have "Min (insert (min a m) (set (take n args))) = Min (insert m (set (take (Suc n) (a # args))))"
    by (cases "take n args = []") (auto simp: min.assoc min.left_commute min.commute)
  finally show ?case .
qed auto

lemma min_loop_short: "length args < n \<Longrightarrow> min_loop n args m = None"
  by (induction n args m rule: min_loop.induct) auto

section \<open>Properties\<close>

text \<open>
  The generator never locks up: from any seed, after any number of draws, the state is
  not the all-zero state from which \<open>rng_u64\<close> would return zeros for ever.
\<close>

theorem rng_never_locks_up: "snd (rng_stream n (rng_seed seed)) \<noteq> rng_zero"
  by (rule rng_stream_nonzero) (rule rng_seed_nonzero)

end
