(* ===== verification/Event_Heap.thy ===== *)
theory Event_Heap
  imports Prelude
begin

text \<open>
  The event queue: \<open>shared/events.h\<close> and \<open>heap/heap.c\<close>, a binary min-heap in a growable
  array ordered by (time, sequence number).

  The heap's array is held as the list of its live slots \<open>data[0 .. size)\<close>, so the C field
  \<open>size\<close> is \<open>length (data h)\<close>; \<open>capacity\<close> is the C field and \<open>block\<close> is the number of bytes
  the allocator was last asked for, so that \<open>heap_safe\<close> can say that every slot the code
  writes lies inside the allocated block. The interface \<open>event_queue\<close> states what a client
  of the heap relies on, and is interpreted on this model at the end.
\<close>

section \<open>Events\<close>

text \<open>
  An \<open>EventCallback\<close> is a function pointer. The code compares it with \<open>nullptr\<close> and calls
  it, nothing else, so a callback is a name: the one the repository itself installs
  (\<open>on_udp_datagram\<close> of \<open>udp/udp.c\<close>), or one of the client's handlers.
\<close>

datatype callback = On_Udp_Datagram | Handler nat

record event =
  executed_at :: u64
  callback_func :: callback
  sequence_number :: u64
  payload :: "u8 list ptr"
  payload_len :: u64
  from_id :: u64
  to_id :: u64
  src_port :: u16
  dst_port :: u16

text \<open>\<open>sizeof(Event)\<close> and \<open>sizeof(MinHeap)\<close> under the LP64 layout.\<close>

definition sizeof_Event :: nat where
  "sizeof_Event = 64"

definition sizeof_MinHeap :: nat where
  "sizeof_MinHeap = 24"

definition event_before :: "event \<Rightarrow> event \<Rightarrow> bool" where
  "event_before a b =
     (if executed_at a \<noteq> executed_at b then executed_at a < executed_at b
      else sequence_number a < sequence_number b)"

section \<open>The heap\<close>

record min_heap =
  data :: "event list"
  capacity :: nat
  block :: nat

definition heap_create :: "allocator \<Rightarrow> nat \<Rightarrow> min_heap ptr" where
  "heap_create alloc cap =
     (if \<not> alloc Heap_Struct sizeof_MinHeap then None
      else if cap > 0 then
        (let bytes = size_mul cap sizeof_Event in
         if \<not> alloc Heap_Data bytes then None
         else Some \<lparr>data = [], capacity = cap, block = bytes\<rparr>)
      else Some \<lparr>data = [], capacity = cap, block = 0\<rparr>)"

text \<open>The growth step of \<open>heap_push\<close>: \<open>None\<close> when it refuses.\<close>

definition heap_grow :: "allocator \<Rightarrow> min_heap \<Rightarrow> min_heap option" where
  "heap_grow alloc h =
     (if length (data h) \<ge> capacity h then
        (if capacity h \<noteq> 0 \<and> capacity h > SIZE_MAX div 2 then None
         else
           let new_capacity = (if capacity h = 0 then 1 else capacity h * 2) in
           if new_capacity > SIZE_MAX div sizeof_Event then None
           else
             let bytes = size_mul new_capacity sizeof_Event in
             if \<not> alloc Heap_Data bytes then None
             else Some (h\<lparr>capacity := new_capacity, block := bytes\<rparr>))
      else Some h)"

text \<open>The loop that moves the new slot up towards the root.\<close>

function sift_up :: "event list \<Rightarrow> nat \<Rightarrow> event list" where
  "sift_up d index =
     (if index > 0 then
        (let parent = (index - 1) div 2 in
         if \<not> event_before (d ! index) (d ! parent) then d
         else sift_up (swap_at d index parent) parent)
      else d)"
  by pat_completeness auto
termination
  by (relation "measure (\<lambda>(d, index). index)") auto

definition heap_push :: "allocator \<Rightarrow> min_heap ptr \<Rightarrow> event \<Rightarrow> bool \<times> min_heap ptr" where
  "heap_push alloc hp value =
     (case hp of
        None \<Rightarrow> (False, None)
      | Some h \<Rightarrow>
          (case heap_grow alloc h of
             None \<Rightarrow> (False, Some h)
           | Some h \<Rightarrow>
               (True, Some (h\<lparr>data := sift_up (data h @ [value]) (length (data h))\<rparr>))))"

text \<open>The child that precedes both the slot and the other child, or the slot itself.\<close>

definition smallest_of :: "event list \<Rightarrow> nat \<Rightarrow> nat" where
  "smallest_of d index =
     (let left = 2 * index + 1;
          right = 2 * index + 2;
          smallest = index;
          smallest = (if left < length d \<and> event_before (d ! left) (d ! smallest)
                      then left else smallest);
          smallest = (if right < length d \<and> event_before (d ! right) (d ! smallest)
                      then right else smallest)
      in smallest)"

lemma smallest_of_cases:
  "smallest_of d i = i \<or> smallest_of d i \<in> {2 * i + 1, 2 * i + 2} \<and> smallest_of d i < length d"
  by (auto simp: smallest_of_def Let_def)

function sift_down :: "event list \<Rightarrow> nat \<Rightarrow> event list" where
  "sift_down d index =
     (let smallest = smallest_of d index in
      if smallest = index then d
      else sift_down (swap_at d index smallest) smallest)"
  by pat_completeness auto
termination
proof (relation "measure (\<lambda>(d, index). length d - index)")
  fix d :: "event list" and i s
  assume "s = smallest_of d i" "s \<noteq> i"
  then show "((swap_at d i s, s), d, i) \<in> measure (\<lambda>(d, i). length d - i)"
    using smallest_of_cases [of d i] by auto
qed auto

declare sift_up.simps [simp del] sift_down.simps [simp del]

text \<open>
  \<open>out\<close> is the caller's slot for the event (\<open>None\<close> for \<open>nullptr\<close>); the result holds the
  returned flag, the heap and what the slot holds afterwards.
\<close>

definition heap_pop :: "min_heap ptr \<Rightarrow> event ptr \<Rightarrow> bool \<times> min_heap ptr \<times> event ptr" where
  "heap_pop hp out =
     (case (hp, out) of
        (Some h, Some _) \<Rightarrow>
          (if length (data h) = 0 then (False, hp, out)
           else
             let min_event = data h ! 0;
                 size = length (data h) - 1;
                 d = (if size > 0
                      then sift_down ((take size (data h))[0 := data h ! size]) 0
                      else take size (data h))
             in (True, Some (h\<lparr>data := d\<rparr>), Some min_event))
      | _ \<Rightarrow> (False, hp, out))"

section \<open>The order\<close>

definition event_key :: "event \<Rightarrow> nat \<times> nat" where
  "event_key e = (unat (executed_at e), unat (sequence_number e))"

lemma event_before_key: "event_before a b \<longleftrightarrow> event_key a < event_key b"
  by (auto simp: event_before_def event_key_def less_prod_def word_less_nat_alt
      unsigned_word_eqI word_unat_eq_iff)

abbreviation parent_of :: "nat \<Rightarrow> nat" where
  "parent_of i \<equiv> (i - 1) div 2"

definition is_heap :: "event list \<Rightarrow> bool" where
  "is_heap d = (\<forall>i < length d. 0 < i \<longrightarrow> event_key (d ! parent_of i) \<le> event_key (d ! i))"

text \<open>The heap order except between slot \<open>k\<close> and its parent, or its children.\<close>

definition heap_except_up :: "event list \<Rightarrow> nat \<Rightarrow> bool" where
  "heap_except_up d k =
     ((\<forall>i < length d. 0 < i \<longrightarrow> i \<noteq> k \<longrightarrow> event_key (d ! parent_of i) \<le> event_key (d ! i)) \<and>
      (\<forall>i < length d. 0 < i \<longrightarrow> parent_of i = k \<longrightarrow> 0 < k \<longrightarrow>
         event_key (d ! parent_of k) \<le> event_key (d ! i)))"

definition heap_except_down :: "event list \<Rightarrow> nat \<Rightarrow> bool" where
  "heap_except_down d k =
     ((\<forall>i < length d. 0 < i \<longrightarrow> parent_of i \<noteq> k \<longrightarrow> event_key (d ! parent_of i) \<le> event_key (d ! i)) \<and>
      (\<forall>i < length d. 0 < i \<longrightarrow> parent_of i = k \<longrightarrow> 0 < k \<longrightarrow>
         event_key (d ! parent_of k) \<le> event_key (d ! i)))"

lemma is_heapD: "is_heap d \<Longrightarrow> i < length d \<Longrightarrow> 0 < i \<Longrightarrow> event_key (d ! parent_of i) \<le> event_key (d ! i)"
  by (simp add: is_heap_def)

lemma is_heap_Nil [simp]: "is_heap []"
  by (simp add: is_heap_def)

lemma parent_less: "0 < i \<Longrightarrow> parent_of i < i"
  by simp

lemma is_heap_root: "is_heap d \<Longrightarrow> i < length d \<Longrightarrow> event_key (d ! 0) \<le> event_key (d ! i)"
proof (induction i rule: less_induct)
  case (less i)
  show ?case
  proof (cases "i = 0")
    case False
    then have "parent_of i < i" by simp
    with less have "event_key (d ! 0) \<le> event_key (d ! parent_of i)" by simp
    also have "\<dots> \<le> event_key (d ! i)" using is_heapD [of d i] less.prems False by simp
    finally show ?thesis .
  qed simp
qed

section \<open>Sifting up\<close>

lemma length_sift_up [simp]: "length (sift_up d i) = length d"
  by (induction d i rule: sift_up.induct) (subst sift_up.simps, simp add: Let_def)

lemma mset_sift_up [simp]: "i < length d \<Longrightarrow> mset (sift_up d i) = mset d"
proof (induction d i rule: sift_up.induct)
  case (1 d i)
  then show ?case
    by (subst sift_up.simps) (auto simp: Let_def)
qed

lemma sift_up_heap: "i < length d \<Longrightarrow> heap_except_up d i \<Longrightarrow> is_heap (sift_up d i)"
proof (induction d i rule: sift_up.induct)
  case (1 d i)
  let ?p = "parent_of i"
  show ?case
  proof (cases "0 < i \<and> event_before (d ! i) (d ! ?p)")
    case False
    then have "i = 0 \<or> event_key (d ! ?p) \<le> event_key (d ! i)"
      by (auto simp: event_before_key)
    with "1.prems" have "is_heap d" by (auto simp: is_heap_def heap_except_up_def)
    with False show ?thesis by (subst sift_up.simps) (auto simp: Let_def)
  next
    case True
    then have p: "?p < i" "event_key (d ! i) < event_key (d ! ?p)" by (auto simp: event_before_key)
    have bounds: "?p < length d" "i < length d" using p(1) "1.prems"(1) by auto
    have "heap_except_up (swap_at d i ?p) ?p"
      unfolding heap_except_up_def length_swap_at
    proof (intro conjI allI impI)
      fix j assume j: "j < length d" "0 < j" "j \<noteq> ?p"
      have pj: "parent_of j < j" "parent_of j < length d" using j by auto
      have up: "j \<noteq> i \<Longrightarrow> event_key (d ! parent_of j) \<le> event_key (d ! j)"
        using "1.prems"(2) j by (simp add: heap_except_up_def)
      have down: "parent_of j = i \<Longrightarrow> event_key (d ! ?p) \<le> event_key (d ! j)"
        using "1.prems"(2) j True by (simp add: heap_except_up_def)
      show "event_key (swap_at d i ?p ! parent_of j) \<le> event_key (swap_at d i ?p ! j)"
        using j pj bounds p up down by (auto simp: swap_at_nth)
    next
      fix j assume j: "j < length d" "0 < j" "parent_of j = ?p" "0 < ?p"
      have gp: "parent_of ?p < ?p" using j(4) by (rule parent_less)
      then have gl: "parent_of ?p < length d" using bounds(1) by (rule less_trans)
      have a: "event_key (d ! parent_of ?p) \<le> event_key (d ! ?p)"
        using "1.prems"(2) j(4) bounds p(1) by (simp add: heap_except_up_def)
      have b: "j \<noteq> i \<Longrightarrow> event_key (d ! ?p) \<le> event_key (d ! j)"
        using "1.prems"(2) j by (metis heap_except_up_def)
      have "j \<noteq> ?p" using j by auto
      then show "event_key (swap_at d i ?p ! parent_of ?p) \<le> event_key (swap_at d i ?p ! j)"
        using j gp gl bounds p a b by (auto simp: swap_at_nth)
    qed
    then have "is_heap (sift_up (swap_at d i ?p) ?p)"
      using True bounds by (intro "1.IH") auto
    with True show ?thesis by (subst sift_up.simps) (simp add: Let_def)
  qed
qed

section \<open>Sifting down\<close>

lemma length_sift_down [simp]: "length (sift_down d i) = length d"
  by (induction d i rule: sift_down.induct) (subst sift_down.simps, simp add: Let_def)

lemma mset_sift_down [simp]: "i < length d \<Longrightarrow> mset (sift_down d i) = mset d"
proof (induction d i rule: sift_down.induct)
  case (1 d i)
  then show ?case
    using smallest_of_cases [of d i] by (subst sift_down.simps) (auto simp: Let_def)
qed

text \<open>The chosen slot precedes the slot and both its children.\<close>

lemma smallest_of_le:
  assumes "j < length d" "j = i \<or> (0 < j \<and> parent_of j = i)"
  shows "event_key (d ! smallest_of d i) \<le> event_key (d ! j)"
proof -
  from assms(2) have "j = i \<or> j = 2 * i + 1 \<or> j = 2 * i + 2" by auto
  with assms(1) show ?thesis
    by (auto simp: smallest_of_def Let_def event_before_key not_less)
qed

lemma sift_down_heap: "i < length d \<Longrightarrow> heap_except_down d i \<Longrightarrow> is_heap (sift_down d i)"
proof (induction d i rule: sift_down.induct)
  case (1 d i)
  let ?s = "smallest_of d i"
  show ?case
  proof (cases "?s = i")
    case True
    have "is_heap d"
      unfolding is_heap_def
    proof (intro allI impI)
      fix j assume j: "j < length d" "0 < j"
      show "event_key (d ! parent_of j) \<le> event_key (d ! j)"
        using smallest_of_le [of j d i] "1.prems"(2) True j
        by (cases "parent_of j = i") (auto simp: heap_except_down_def)
    qed
    with True show ?thesis by (subst sift_down.simps) (simp add: Let_def)
  next
    case False
    with smallest_of_cases [of d i] have s: "?s < length d" "i < ?s" "parent_of ?s = i" by auto
    have least: "event_key (d ! ?s) \<le> event_key (d ! j)"
      if "j < length d" "j = i \<or> (0 < j \<and> parent_of j = i)" for j
      using that by (rule smallest_of_le)
    have "heap_except_down (swap_at d i ?s) ?s"
      unfolding heap_except_down_def length_swap_at
    proof (intro conjI allI impI)
      fix j assume j: "j < length d" "0 < j" "parent_of j \<noteq> ?s"
      have pj: "parent_of j < j" "parent_of j < length d" using j by auto
      have keep: "parent_of j \<noteq> i \<Longrightarrow> event_key (d ! parent_of j) \<le> event_key (d ! j)"
        using "1.prems"(2) j by (simp add: heap_except_down_def)
      have above: "parent_of i \<noteq> i \<Longrightarrow> 0 < i \<Longrightarrow> event_key (d ! parent_of i) \<le> event_key (d ! ?s)"
        using "1.prems"(2) s by (metis heap_except_down_def less_nat_zero_code not_gr_zero)
      show "event_key (swap_at d i ?s ! parent_of j) \<le> event_key (swap_at d i ?s ! j)"
        using j pj s keep above least [of j] least [of i] "1.prems"(1)
        by (auto simp: swap_at_nth)
    next
      fix j assume j: "j < length d" "0 < j" "parent_of j = ?s" "0 < ?s"
      have "j \<noteq> i" "j \<noteq> ?s" using j s by auto
      moreover have "event_key (d ! ?s) \<le> event_key (d ! j)"
        using "1.prems"(2) j s by (metis heap_except_down_def less_irrefl)
      ultimately show "event_key (swap_at d i ?s ! parent_of ?s) \<le> event_key (swap_at d i ?s ! j)"
        using j s "1.prems"(1) by (auto simp: swap_at_nth)
    qed
    then have "is_heap (sift_down (swap_at d i ?s) ?s)"
      using False s by (intro "1.IH") auto
    with False show ?thesis by (subst sift_down.simps) (simp add: Let_def)
  qed
qed

section \<open>The operations on a live heap\<close>

text \<open>
  \<open>heap_safe\<close>: the live slots fit the capacity and the allocated block holds that many
  slots, so that no index the code uses, nor the index arithmetic \<open>2 * index + 2\<close>, can
  leave the block or wrap around.
\<close>

definition heap_safe :: "min_heap \<Rightarrow> bool" where
  "heap_safe h =
     (length (data h) \<le> capacity h \<and> capacity h * sizeof_Event \<le> block h \<and>
      capacity h \<le> SIZE_MAX div sizeof_Event)"

definition heap_inv :: "min_heap \<Rightarrow> bool" where
  "heap_inv h = (heap_safe h \<and> is_heap (data h))"

definition pending :: "min_heap \<Rightarrow> event multiset" where
  "pending h = mset (data h)"

lemma heap_create_inv [inv_intros]:
  "heap_create alloc cap = Some h \<Longrightarrow> cap \<le> SIZE_MAX div sizeof_Event \<Longrightarrow>
   heap_inv h \<and> pending h = {#}"
  by (auto simp: heap_create_def heap_inv_def heap_safe_def pending_def is_heap_def Let_def
      size_mul_exact_div split: if_splits)

lemma heap_grow_data: "heap_grow alloc h = Some g \<Longrightarrow> data g = data h"
  by (auto simp: heap_grow_def Let_def split: if_splits)

lemma heap_grow_room: "heap_grow alloc h = Some g \<Longrightarrow> length (data h) < capacity g"
  if "heap_safe h"
  using that by (auto simp: heap_grow_def heap_safe_def Let_def split: if_splits)

lemma heap_grow_safe: "heap_safe h \<Longrightarrow> heap_grow alloc h = Some g \<Longrightarrow> heap_safe g"
  by (auto simp: heap_grow_def heap_safe_def Let_def size_mul_exact_div split: if_splits)

lemma heap_append_except_up: "is_heap d \<Longrightarrow> heap_except_up (d @ [e]) (length d)"
  by (auto simp: is_heap_def heap_except_up_def nth_append)

lemma heap_push_cases:
  "heap_push alloc (Some h) e =
     (case heap_grow alloc h of
        None \<Rightarrow> (False, Some h)
      | Some g \<Rightarrow> (True, Some (g\<lparr>data := sift_up (data h @ [e]) (length (data h))\<rparr>)))"
  by (auto simp: heap_push_def heap_grow_data split: option.splits)

lemma heap_push_inv [inv_intros]:
  assumes "heap_inv h" "heap_push alloc (Some h) e = (ok, Some h')"
  shows "heap_inv h'"
proof (cases "heap_grow alloc h")
  case None
  with assms show ?thesis by (simp add: heap_push_cases)
next
  case (Some g)
  with assms have h': "h' = g\<lparr>data := sift_up (data h @ [e]) (length (data h))\<rparr>"
    by (simp add: heap_push_cases)
  from assms(1) Some have "heap_safe g" "length (data h) < capacity g"
    by (auto simp: heap_inv_def heap_grow_safe heap_grow_room)
  moreover have "is_heap (sift_up (data h @ [e]) (length (data h)))"
    using assms(1) by (intro sift_up_heap heap_append_except_up) (auto simp: heap_inv_def)
  ultimately show ?thesis by (simp add: h' heap_inv_def heap_safe_def)
qed

lemma heap_push_pending:
  "heap_push alloc (Some h) e = (ok, Some h') \<Longrightarrow>
   pending h' = (if ok then add_mset e (pending h) else pending h)"
  by (auto simp: heap_push_cases pending_def split: option.splits)

lemma heap_push_refused: "heap_push alloc (Some h) e = (False, hp) \<Longrightarrow> hp = Some h"
  by (auto simp: heap_push_cases split: option.splits)

lemma heap_push_live: "\<exists>ok h'. heap_push alloc (Some h) e = (ok, Some h')"
  by (auto simp: heap_push_cases split: option.splits)

lemma heap_pop_empty:
  "heap_pop (Some h) (Some out) = (False, Some h, Some out) \<longleftrightarrow> pending h = {#}"
  by (auto simp: heap_pop_def pending_def Let_def)

lemma heap_pop_nonempty:
  assumes "data h \<noteq> []"
  shows "heap_pop (Some h) (Some out) =
    (True, Some (h\<lparr>data := (if length (data h) = 1 then []
                            else sift_down ((butlast (data h))[0 := last (data h)]) 0)\<rparr>),
     Some (hd (data h)))"
  using assms
  by (cases "length (data h) = 1")
    (auto simp: heap_pop_def Let_def hd_conv_nth last_conv_nth butlast_conv_take length_Suc_conv
      neq_Nil_conv)

lemma heap_move_last_except_down:
  assumes "is_heap d" "1 < length d"
  shows "heap_except_down ((butlast d)[0 := last d]) 0"
  using assms
  by (auto simp: is_heap_def heap_except_down_def nth_list_update nth_butlast)

lemma heap_pop_inv [inv_intros]:
  assumes "heap_inv h" "heap_pop (Some h) (Some out) = (True, Some h', Some e)"
  shows "heap_inv h'"
proof -
  have ne: "data h \<noteq> []" using assms(2) by (auto simp: heap_pop_def)
  have down: "is_heap (sift_down ((butlast (data h))[0 := last (data h)]) 0)"
    if "length (data h) \<noteq> 1"
  proof (rule sift_down_heap)
    from ne that have "1 < length (data h)" by (cases "data h") auto
    then show "heap_except_down ((butlast (data h))[0 := last (data h)]) 0"
      and "0 < length ((butlast (data h))[0 := last (data h)])"
      using assms(1) by (auto simp: heap_inv_def heap_move_last_except_down)
  qed
  from assms ne show ?thesis
    by (auto simp: heap_pop_nonempty heap_inv_def heap_safe_def down)
qed

lemma heap_pop_pending:
  assumes "heap_pop (Some h) (Some out) = (True, Some h', Some e)"
  shows "pending h = add_mset e (pending h')"
proof -
  have ne: "data h \<noteq> []" using assms by (auto simp: heap_pop_def)
  have "1 < length (data h)" if "length (data h) \<noteq> 1"
    using ne that by (cases "data h") auto
  with assms ne mset_move_last [OF ne] show ?thesis
    by (auto simp: heap_pop_nonempty pending_def)
qed

lemma heap_pop_least:
  assumes "heap_inv h" "heap_pop (Some h) (Some out) = (True, Some h', Some e)" "x \<in># pending h"
  shows "event_key e \<le> event_key x"
proof -
  have ne: "data h \<noteq> []" using assms(2) by (auto simp: heap_pop_def)
  with assms(2) have e: "e = data h ! 0" by (simp add: heap_pop_nonempty hd_conv_nth)
  from assms(3) obtain i where "i < length (data h)" "x = data h ! i"
    by (auto simp: pending_def in_set_conv_nth)
  with assms(1) e show ?thesis by (auto simp: heap_inv_def intro: is_heap_root)
qed

section \<open>The interface of an event queue\<close>

text \<open>
  What the event loop relies on: pushing adds one event or refuses, popping takes out an
  event of least key, and popping fails only when nothing is pending. \<open>drains\<close> is a whole
  run of pops until the queue is empty.
\<close>

inductive drains :: "('q \<Rightarrow> ('e \<times> 'q) option) \<Rightarrow> 'q \<Rightarrow> 'e list \<Rightarrow> bool" for deq where
  drains_done: "deq q = None \<Longrightarrow> drains deq q []"
| drains_step: "deq q = Some (e, q') \<Longrightarrow> drains deq q' es \<Longrightarrow> drains deq q (e # es)"

inductive_cases drains_NilE: "drains deq q []"
inductive_cases drains_ConsE: "drains deq q (e # es)"

locale event_queue =
  fixes enq :: "'q \<Rightarrow> 'e \<Rightarrow> 'q option"
    and deq :: "'q \<Rightarrow> ('e \<times> 'q) option"
    and inv :: "'q \<Rightarrow> bool"
    and held :: "'q \<Rightarrow> 'e multiset"
    and key :: "'e \<Rightarrow> 'k::linorder"
  assumes enq_inv: "inv q \<Longrightarrow> enq q e = Some q' \<Longrightarrow> inv q'"
    and enq_held: "inv q \<Longrightarrow> enq q e = Some q' \<Longrightarrow> held q' = add_mset e (held q)"
    and deq_none: "inv q \<Longrightarrow> deq q = None \<longleftrightarrow> held q = {#}"
    and deq_inv: "inv q \<Longrightarrow> deq q = Some (e, q') \<Longrightarrow> inv q'"
    and deq_held: "inv q \<Longrightarrow> deq q = Some (e, q') \<Longrightarrow> held q = add_mset e (held q')"
    and deq_least: "inv q \<Longrightarrow> deq q = Some (e, q') \<Longrightarrow> x \<in># held q \<Longrightarrow> key e \<le> key x"
begin

lemma drains_held: "drains deq q es \<Longrightarrow> inv q \<Longrightarrow> mset es = held q"
proof (induction rule: drains.induct)
  case (drains_done q)
  then show ?case by (simp add: deq_none)
next
  case (drains_step q e q' es)
  then show ?case by (simp add: deq_inv deq_held [of q e q'])
qed

lemma drains_sorted: "drains deq q es \<Longrightarrow> inv q \<Longrightarrow> sorted (map key es)"
proof (induction rule: drains.induct)
  case (drains_step q e q' es)
  then have "mset es = held q'" by (auto intro: drains_held deq_inv)
  with drains_step have "\<forall>x \<in> set es. key e \<le> key x"
    by (auto simp flip: set_mset_mset simp: deq_held intro!: deq_least [of q e q'])
  with drains_step show ?case by (auto simp: deq_inv)
qed simp

lemma drains_total: "inv q \<Longrightarrow> \<exists>es. drains deq q es"
proof (induction "size (held q)" arbitrary: q rule: less_induct)
  case less
  show ?case
  proof (cases "deq q")
    case None
    then show ?thesis by (auto intro: drains_done)
  next
    case (Some r)
    obtain e q' where r: "r = (e, q')" by (cases r)
    with Some less have "size (held q') < size (held q)" "inv q'"
      by (auto simp: deq_held [of q e q'] deq_inv)
    then obtain es where "drains deq q' es" using less.hyps by blast
    with Some r show ?thesis by (auto intro: drains_step)
  qed
qed

end

definition blank_event :: event where
  "blank_event = \<lparr>executed_at = 0, callback_func = Handler 0, sequence_number = 0,
     payload = None, payload_len = 0, from_id = 0, to_id = 0, src_port = 0, dst_port = 0\<rparr>"

text \<open>The heap as such a queue.\<close>

definition heap_enq :: "allocator \<Rightarrow> min_heap \<Rightarrow> event \<Rightarrow> min_heap option" where
  "heap_enq alloc h e =
     (case heap_push alloc (Some h) e of (ok, hp) \<Rightarrow> if ok then hp else None)"

definition heap_deq :: "min_heap \<Rightarrow> (event \<times> min_heap) option" where
  "heap_deq h =
     (case heap_pop (Some h) (Some blank_event) of
        (True, Some h', Some e) \<Rightarrow> Some (e, h')
      | _ \<Rightarrow> None)"

lemma heap_enq_Some: "heap_enq alloc h e = Some h' \<longleftrightarrow> heap_push alloc (Some h) e = (True, Some h')"
  by (auto simp: heap_enq_def heap_push_cases split: option.splits)

lemma heap_deq_Some:
  "heap_deq h = Some (e, h') \<longleftrightarrow> heap_pop (Some h) (Some blank_event) = (True, Some h', Some e)"
  by (auto simp: heap_deq_def heap_pop_def Let_def)

lemma heap_deq_None: "heap_deq h = None \<longleftrightarrow> pending h = {#}"
  by (auto simp: heap_deq_def heap_pop_def pending_def Let_def)

interpretation evq: event_queue "heap_enq alloc" heap_deq heap_inv pending event_key
  for alloc
  by unfold_locales
    (auto simp: heap_enq_Some heap_deq_Some heap_deq_None dest: heap_push_inv heap_push_pending
      heap_pop_inv heap_pop_pending heap_pop_least)

text \<open>
  \<open>heap_create\<close> multiplies the capacity by the slot size without the guard \<open>heap_push\<close>
  has: a capacity of \<open>2 ^ 58 + 1\<close> asks the allocator for one slot only, and the heap it
  returns is not memory safe.
\<close>

theorem heap_create_unguarded:
  "heap_create (\<lambda>_ _. True) (2 ^ 58 + 1) =
     Some \<lparr>data = [], capacity = 2 ^ 58 + 1, block = sizeof_Event\<rparr> \<and>
   \<not> heap_safe \<lparr>data = [], capacity = 2 ^ 58 + 1, block = sizeof_Event\<rparr>"
  by (simp add: heap_create_def heap_safe_def size_mul_def sizeof_Event_def Let_def)

section \<open>Properties\<close>

text \<open>
  Emptying the heap by repeated \<open>heap_pop\<close> ends, returns every pending event exactly
  once and returns them in (time, sequence number) order.
\<close>

theorem heap_drain_sorts:
  assumes "heap_inv h"
  shows "\<exists>es. drains heap_deq h es \<and> mset es = pending h \<and> sorted (map event_key es)"
proof -
  obtain es where "drains heap_deq h es" using evq.drains_total [OF assms] by blast
  then show ?thesis using evq.drains_held evq.drains_sorted assms by blast
qed

theorem heap_drain_sorts_witness:
  "\<exists>es. drains heap_deq \<lparr>data = [blank_event], capacity = 8, block = 512\<rparr> es \<and>
     mset es = {#blank_event#} \<and> sorted (map event_key es)"
  using heap_drain_sorts [of "\<lparr>data = [blank_event], capacity = 8, block = 512\<rparr>"]
  by (simp add: heap_inv_def heap_safe_def is_heap_def pending_def SIZE_MAX_def sizeof_Event_def)

text \<open>
  \<open>heap_push\<close> on a sound heap either grows it by exactly that event, or refuses and
  leaves it as it was; in both cases the order and the memory bounds hold afterwards.
\<close>

theorem heap_push_correct:
  assumes "heap_inv h"
  shows "\<exists>ok h'. heap_push alloc (Some h) e = (ok, Some h') \<and> heap_inv h' \<and>
    (if ok then pending h' = add_mset e (pending h) else h' = h)"
proof -
  obtain ok h' where push: "heap_push alloc (Some h) e = (ok, Some h')"
    using heap_push_live by blast
  then have "if ok then pending h' = add_mset e (pending h) else h' = h"
    by (cases ok) (auto dest: heap_push_pending heap_push_refused)
  with push assms show ?thesis by (blast intro: heap_push_inv)
qed

theorem heap_push_correct_witness:
  "\<exists>ok h'. heap_push (\<lambda>_ _. True) (Some \<lparr>data = [], capacity = 0, block = 0\<rparr>) blank_event =
     (ok, Some h') \<and> heap_inv h' \<and>
     (if ok then pending h' = add_mset blank_event (pending \<lparr>data = [], capacity = 0, block = 0\<rparr>)
      else h' = \<lparr>data = [], capacity = 0, block = 0\<rparr>)"
  by (rule heap_push_correct) (simp add: heap_inv_def heap_safe_def)

end
