(* ===== verification/Node_List.thy ===== *)
theory Node_List
  imports Prelude
begin

text \<open>
  The node list \<open>node/node.c\<close>: live nodes packed in an array, and a directory from node id
  to array slot.

  \<open>nodes\<close> holds the live slots \<open>data[0 .. len)\<close>, \<open>ncap\<close> is the field \<open>cap\<close>. \<open>by_id\<close> holds
  \<open>by_id.data[0 .. by_id.cap)\<close>, empty exactly while the C pointer is null. \<open>nblock\<close> and
  \<open>iblock\<close> are the byte counts last requested from the allocator for the two arrays. A
  \<open>Node*\<close> result is the slot it points to.
\<close>

record node =
  nid :: u64
  x_nm :: i64
  y_nm :: i64
  vx_nm_per_ns :: i64
  vy_nm_per_ns :: i64

record node_list =
  nodes :: "node list"
  ncap :: nat
  nblock :: nat
  by_id :: "nat list"
  iblock :: nat

definition sizeof_Node :: nat where
  "sizeof_Node = 40"

definition sizeof_size_t :: nat where
  "sizeof_size_t = 8"

section \<open>Operations\<close>

text \<open>
  The doubling loop of \<open>ensure_index_cap\<close>. From capacity 0 the C loop would not end; its
  caller starts it at 1 or more.
\<close>

function grow_cap :: "nat \<Rightarrow> nat \<Rightarrow> nat option" where
  "grow_cap new_cap ident =
     (if new_cap \<le> ident then
        (if new_cap = 0 \<or> new_cap > SIZE_MAX div 2 then None
         else grow_cap (new_cap * 2) ident)
      else Some new_cap)"
  by pat_completeness auto
termination
  by (relation "measure (\<lambda>(c, ident). Suc ident - c)") auto

declare grow_cap.simps [simp del]

definition ensure_index_cap :: "allocator \<Rightarrow> node_list \<Rightarrow> nat \<Rightarrow> node_list option" where
  "ensure_index_cap alloc l ident =
     (if ident \<ge> SIZE_MAX then None
      else if ident < length (by_id l) then Some l
      else
        let new_cap = (if length (by_id l) = 0 then 1 else length (by_id l)) in
        (case grow_cap new_cap ident of
           None \<Rightarrow> None
         | Some new_cap \<Rightarrow>
             let bytes = size_mul new_cap sizeof_size_t in
             if \<not> alloc Index_Data bytes then None
             else Some (l\<lparr>by_id := by_id l @ replicate (new_cap - length (by_id l)) SIZE_MAX,
                          iblock := bytes\<rparr>)))"

definition nodelist_init :: "allocator \<Rightarrow> node_list ptr \<Rightarrow> nat \<Rightarrow> bool \<times> node_list ptr" where
  "nodelist_init alloc lp initial_cap =
     (case lp of
        None \<Rightarrow> (False, None)
      | Some l \<Rightarrow>
          let initial_cap = (if initial_cap = 0 then 1 else initial_cap);
              bytes = size_mul initial_cap sizeof_Node in
          if \<not> alloc Node_Data bytes then (False, Some (l\<lparr>nodes := [], nblock := 0\<rparr>))
          else (True, Some \<lparr>nodes = [], ncap = initial_cap, nblock = bytes,
                            by_id = [], iblock = 0\<rparr>))"

text \<open>The growth step of \<open>nodelist_push\<close>.\<close>

definition node_grow :: "allocator \<Rightarrow> node_list \<Rightarrow> node_list option" where
  "node_grow alloc l =
     (if length (nodes l) \<ge> ncap l then
        (if ncap l \<noteq> 0 \<and> ncap l > SIZE_MAX div 2 then None
         else
           let new_cap = (if ncap l = 0 then 1 else ncap l * 2) in
           if new_cap > SIZE_MAX div sizeof_Node then None
           else
             let bytes = size_mul new_cap sizeof_Node in
             if \<not> alloc Node_Data bytes then None
             else Some (l\<lparr>ncap := new_cap, nblock := bytes\<rparr>))
      else Some l)"

definition nodelist_push :: "allocator \<Rightarrow> node_list ptr \<Rightarrow> node \<Rightarrow> bool \<times> node_list ptr" where
  "nodelist_push alloc lp n =
     (case lp of
        None \<Rightarrow> (False, None)
      | Some l \<Rightarrow>
          (case ensure_index_cap alloc l (unat (nid n)) of
             None \<Rightarrow> (False, Some l)
           | Some l \<Rightarrow>
               if by_id l ! unat (nid n) \<noteq> SIZE_MAX then (False, Some l)
               else
                 (case node_grow alloc l of
                    None \<Rightarrow> (False, Some l)
                  | Some l \<Rightarrow>
                      let i = length (nodes l) in
                      (True, Some (l\<lparr>nodes := nodes l @ [n],
                                    by_id := (by_id l)[unat (nid n) := i]\<rparr>)))))"

definition nodelist_free :: "node_list ptr \<Rightarrow> bool \<times> node_list ptr" where
  "nodelist_free lp =
     (case lp of
        None \<Rightarrow> (False, None)
      | Some l \<Rightarrow> (True, Some \<lparr>nodes = [], ncap = 0, nblock = 0, by_id = [], iblock = 0\<rparr>))"

definition nodelist_find :: "node_list ptr \<Rightarrow> u64 \<Rightarrow> nat ptr" where
  "nodelist_find lp ident =
     (case lp of
        None \<Rightarrow> None
      | Some l \<Rightarrow>
          if by_id l = [] then None
          else if unat ident \<ge> length (by_id l) then None
          else
            let i = by_id l ! unat ident in
            if i = SIZE_MAX then None else Some i)"

definition nodelist_remove_unordered :: "node_list ptr \<Rightarrow> nat \<Rightarrow> bool \<times> node_list ptr" where
  "nodelist_remove_unordered lp index =
     (case lp of
        None \<Rightarrow> (False, None)
      | Some l \<Rightarrow>
          if index \<ge> length (nodes l) then (False, Some l)
          else
            let gone = unat (nid (nodes l ! index));
                l = l\<lparr>by_id := (by_id l)[gone := SIZE_MAX]\<rparr>;
                last = length (nodes l) - 1;
                l = (if index \<noteq> last
                     then
                       let l = l\<lparr>nodes := (nodes l)[index := nodes l ! last]\<rparr> in
                       l\<lparr>by_id := (by_id l)[unat (nid (nodes l ! index)) := index]\<rparr>
                     else l)
            in (True, Some (l\<lparr>nodes := take last (nodes l)\<rparr>)))"

definition nodelist_remove_by_id :: "node_list ptr \<Rightarrow> u64 \<Rightarrow> bool \<times> node_list ptr" where
  "nodelist_remove_by_id lp ident =
     (case lp of
        None \<Rightarrow> (False, None)
      | Some l \<Rightarrow>
          if by_id l = [] then (False, Some l)
          else if unat ident \<ge> length (by_id l) then (False, Some l)
          else
            let i = by_id l ! unat ident in
            if i = SIZE_MAX then (False, Some l)
            else nodelist_remove_unordered (Some l) i)"

section \<open>Invariant and abstraction\<close>

text \<open>
  Slots and directory agree both ways, the directory has no other entries, and both arrays
  lie inside their blocks.
\<close>

definition nl_safe :: "node_list \<Rightarrow> bool" where
  "nl_safe l =
     (length (nodes l) \<le> ncap l \<and> ncap l * sizeof_Node \<le> nblock l \<and>
      ncap l \<le> SIZE_MAX div sizeof_Node \<and> length (by_id l) * sizeof_size_t \<le> iblock l)"

definition nl_linked :: "node_list \<Rightarrow> bool" where
  "nl_linked l =
     ((\<forall>i < length (nodes l). unat (nid (nodes l ! i)) < length (by_id l) \<and>
          by_id l ! unat (nid (nodes l ! i)) = i) \<and>
      (\<forall>k < length (by_id l). by_id l ! k \<noteq> SIZE_MAX \<longrightarrow>
          by_id l ! k < length (nodes l) \<and> unat (nid (nodes l ! (by_id l ! k))) = k))"

definition nl_inv :: "node_list \<Rightarrow> bool" where
  "nl_inv l = (nl_safe l \<and> nl_linked l)"

text \<open>The list as a finite map from ids to nodes.\<close>

definition node_of :: "node_list \<Rightarrow> u64 \<Rightarrow> node option" where
  "node_of l ident = map_option (\<lambda>i. nodes l ! i) (nodelist_find (Some l) ident)"

lemma sizes_small: "k < SIZE_MAX div sizeof_Node \<Longrightarrow> k < SIZE_MAX"
  by (simp add: SIZE_MAX_def sizeof_Node_def)

lemma nl_slot_small: "nl_safe l \<Longrightarrow> i \<le> length (nodes l) \<Longrightarrow> i \<noteq> SIZE_MAX"
  by (auto simp: nl_safe_def SIZE_MAX_def sizeof_Node_def)

lemma nl_slot_of: "nl_inv l \<Longrightarrow> i < length (nodes l) \<Longrightarrow>
   unat (nid (nodes l ! i)) < length (by_id l) \<and> by_id l ! unat (nid (nodes l ! i)) = i"
  by (simp add: nl_inv_def nl_linked_def)

lemma nl_entry: "nl_inv l \<Longrightarrow> k < length (by_id l) \<Longrightarrow> by_id l ! k \<noteq> SIZE_MAX \<Longrightarrow>
   by_id l ! k < length (nodes l) \<and> unat (nid (nodes l ! (by_id l ! k))) = k"
  by (simp add: nl_inv_def nl_linked_def)

lemma nl_nid_inj:
  "nl_inv l \<Longrightarrow> i < length (nodes l) \<Longrightarrow> j < length (nodes l) \<Longrightarrow>
   nid (nodes l ! i) = nid (nodes l ! j) \<Longrightarrow> i = j"
  by (metis nl_slot_of)

lemma nodelist_find_Some:
  assumes "nl_inv l"
  shows "nodelist_find (Some l) ident = Some i \<longleftrightarrow> i < length (nodes l) \<and> nid (nodes l ! i) = ident"
proof
  assume "nodelist_find (Some l) ident = Some i"
  then have "unat ident < length (by_id l)" "by_id l ! unat ident = i" "i \<noteq> SIZE_MAX"
    by (auto simp: nodelist_find_def Let_def split: if_splits)
  with nl_entry [OF assms, of "unat ident"] show "i < length (nodes l) \<and> nid (nodes l ! i) = ident"
    by (auto simp: word_unat_eq_iff)
next
  assume i: "i < length (nodes l) \<and> nid (nodes l ! i) = ident"
  with nl_slot_of [OF assms, of i] have "unat ident < length (by_id l)" "by_id l ! unat ident = i" by auto
  moreover have "i \<noteq> SIZE_MAX" using assms i by (intro nl_slot_small) (auto simp: nl_inv_def)
  ultimately show "nodelist_find (Some l) ident = Some i"
    by (auto simp: nodelist_find_def Let_def)
qed

lemma node_of_Some:
  "nl_inv l \<Longrightarrow> node_of l ident = Some n \<longleftrightarrow> n \<in> set (nodes l) \<and> nid n = ident"
  by (auto simp: node_of_def nodelist_find_Some in_set_conv_nth)

lemma node_of_None:
  "nl_inv l \<Longrightarrow> node_of l ident = None \<longleftrightarrow> (\<forall>n \<in> set (nodes l). nid n \<noteq> ident)"
  by (metis not_None_eq node_of_Some)

lemma node_of_nth: "nl_inv l \<Longrightarrow> i < length (nodes l) \<Longrightarrow> node_of l (nid (nodes l ! i)) = Some (nodes l ! i)"
  by (simp add: node_of_Some)

section \<open>Growing the directory\<close>

lemma grow_cap_gt: "grow_cap c ident = Some c' \<Longrightarrow> ident < c'"
  by (induction c ident rule: grow_cap.induct)
    (subst (asm) grow_cap.simps, simp split: if_splits)

lemma grow_cap_ge: "grow_cap c ident = Some c' \<Longrightarrow> c \<le> c'"
proof (induction c ident rule: grow_cap.induct)
  case (1 c ident)
  then show ?case
    by (simp add: grow_cap.simps [of c ident] split: if_splits)
qed

lemma grow_cap_le: "grow_cap c ident = Some c' \<Longrightarrow> c' = c \<or> c' \<le> 2 * ident"
proof (induction c ident rule: grow_cap.induct)
  case (1 c ident)
  show ?case
  proof (cases "c \<le> ident \<and> c \<noteq> 0 \<and> \<not> SIZE_MAX div 2 < c")
    case True
    with "1.prems" have "grow_cap (c * 2) ident = Some c'" by (subst (asm) grow_cap.simps) simp
    with "1.IH" True have "c' = c * 2 \<or> c' \<le> 2 * ident" by simp
    with True show ?thesis by auto
  next
    case False
    with "1.prems" show ?thesis by (subst (asm) grow_cap.simps) (auto split: if_splits)
  qed
qed

lemma ensure_index_cap_frame:
  "ensure_index_cap alloc l ident = Some l' \<Longrightarrow>
   nodes l' = nodes l \<and> ncap l' = ncap l \<and> nblock l' = nblock l"
  by (auto simp: ensure_index_cap_def Let_def split: if_splits option.splits)

lemma ensure_index_cap_room: "ensure_index_cap alloc l ident = Some l' \<Longrightarrow> ident < length (by_id l')"
  by (auto simp: ensure_index_cap_def Let_def split: if_splits option.splits dest: grow_cap_gt)

lemma ensure_index_cap_keeps:
  "ensure_index_cap alloc l ident = Some l' \<Longrightarrow>
   length (by_id l) \<le> length (by_id l') \<and>
   (\<forall>k < length (by_id l'). by_id l' ! k = (if k < length (by_id l) then by_id l ! k else SIZE_MAX))"
  by (auto simp: ensure_index_cap_def Let_def nth_append split: if_splits option.splits
      dest: grow_cap_ge)

text \<open>
  The directory's byte count is not guarded: below \<open>2 ^ 60\<close> ids it is exact. The bound on
  the id is what the callers provide (ids are handed out one by one from 0).
\<close>

lemma ensure_index_cap_inv:
  assumes inv: "nl_inv l" and ok: "ensure_index_cap alloc l ident = Some l'" and small: "ident < 2 ^ 60"
  shows "nl_inv l'"
proof -
  note frame = ensure_index_cap_frame [OF ok] and keeps = ensure_index_cap_keeps [OF ok]
  have linked: "nl_linked l'"
    unfolding nl_linked_def
  proof (intro conjI allI impI)
    fix i assume "i < length (nodes l')"
    then show "unat (nid (nodes l' ! i)) < length (by_id l')"
      and "by_id l' ! unat (nid (nodes l' ! i)) = i"
      using nl_slot_of [OF inv, of i] frame keeps by auto
  next
    fix k assume "k < length (by_id l')" "by_id l' ! k \<noteq> SIZE_MAX"
    then show "by_id l' ! k < length (nodes l')" and "unat (nid (nodes l' ! (by_id l' ! k))) = k"
      using nl_entry [OF inv, of k] frame keeps by (auto split: if_splits)
  qed
  have "length (by_id l') * sizeof_size_t \<le> iblock l'"
  proof (cases "ident < length (by_id l)")
    case True
    with ok inv show ?thesis
      by (auto simp: ensure_index_cap_def nl_inv_def nl_safe_def split: if_splits)
  next
    case False
    define c where "c = (if by_id l = [] then 1 else length (by_id l))"
    from False ok obtain c' where c': "grow_cap c ident = Some c'"
      and l': "by_id l' = by_id l @ replicate (c' - length (by_id l)) SIZE_MAX"
      and b: "iblock l' = size_mul c' sizeof_size_t"
      by (auto simp: ensure_index_cap_def c_def Let_def split: if_splits option.splits)
    have "length (by_id l) \<le> c'" using grow_cap_ge [OF c'] by (auto simp: c_def split: if_splits)
    then have len: "length (by_id l') = c'" by (simp add: l')
    have "c' < 2 ^ 61"
      using grow_cap_le [OF c'] small False by (auto simp: c_def split: if_splits)
    then have "c' * sizeof_size_t \<le> SIZE_MAX" by (simp add: sizeof_size_t_def SIZE_MAX_def)
    then show ?thesis by (simp add: len b size_mul_exact)
  qed
  with linked inv frame show ?thesis by (simp add: nl_inv_def nl_safe_def)
qed

section \<open>Pushing and removing\<close>

lemma node_grow_frame: "node_grow alloc l = Some l' \<Longrightarrow> nodes l' = nodes l \<and> by_id l' = by_id l"
  by (auto simp: node_grow_def Let_def split: if_splits)

lemma node_grow_safe: "nl_safe l \<Longrightarrow> node_grow alloc l = Some l' \<Longrightarrow>
   nl_safe l' \<and> length (nodes l') < ncap l'"
  by (auto simp: node_grow_def nl_safe_def Let_def size_mul_exact_div split: if_splits)

lemma nodelist_push_True:
  assumes "nodelist_push alloc (Some l) n = (True, lp)"
  obtains l1 l2 where "ensure_index_cap alloc l (unat (nid n)) = Some l1"
    "by_id l1 ! unat (nid n) = SIZE_MAX" "node_grow alloc l1 = Some l2"
    "lp = Some (l2\<lparr>nodes := nodes l2 @ [n], by_id := (by_id l2)[unat (nid n) := length (nodes l2)]\<rparr>)"
  using assms that by (auto simp: nodelist_push_def Let_def split: option.splits if_splits)

lemma nodelist_push_inv [inv_intros]:
  assumes inv: "nl_inv l" and small: "unat (nid n) < 2 ^ 60"
    and push: "nodelist_push alloc (Some l) n = (True, Some l')"
  shows "nl_inv l'"
proof -
  let ?k = "unat (nid n)"
  from push obtain l1 l2 where
    e: "ensure_index_cap alloc l ?k = Some l1" and free: "by_id l1 ! ?k = SIZE_MAX"
    and g: "node_grow alloc l1 = Some l2"
    and l': "l' = l2\<lparr>nodes := nodes l2 @ [n], by_id := (by_id l2)[?k := length (nodes l2)]\<rparr>"
    by (rule nodelist_push_True) auto
  have inv1: "nl_inv l1" using inv e small by (rule ensure_index_cap_inv)
  note f = node_grow_frame [OF g] and s = node_grow_safe [OF _ g]
  have room: "?k < length (by_id l1)" using e by (rule ensure_index_cap_room)
  have new: "nid m \<noteq> nid n" if "m \<in> set (nodes l1)" for m
  proof
    assume "nid m = nid n"
    with that obtain i where "i < length (nodes l1)" "unat (nid (nodes l1 ! i)) = ?k"
      by (auto simp: in_set_conv_nth)
    with nl_slot_of [OF inv1, of i] free have "i = SIZE_MAX" by simp
    moreover have "i \<noteq> SIZE_MAX"
      using inv1 \<open>i < length (nodes l1)\<close> by (intro nl_slot_small) (auto simp: nl_inv_def)
    ultimately show False by simp
  qed
  have "nl_linked l'"
    unfolding nl_linked_def
  proof (intro conjI allI impI)
    fix i assume i: "i < length (nodes l')"
    show "unat (nid (nodes l' ! i)) < length (by_id l')"
      using nl_slot_of [OF inv1, of i] i room by (cases "i = length (nodes l1)") (auto simp: l' f nth_append)
    show "by_id l' ! unat (nid (nodes l' ! i)) = i"
      using nl_slot_of [OF inv1, of i] i room new [of "nodes l1 ! i"]
      by (cases "i = length (nodes l1)")
        (auto simp: l' f nth_append nth_list_update word_unat_eq_iff)
  next
    fix k assume k: "k < length (by_id l')" "by_id l' ! k \<noteq> SIZE_MAX"
    show "by_id l' ! k < length (nodes l')" and "unat (nid (nodes l' ! (by_id l' ! k))) = k"
      using nl_entry [OF inv1, of k] k room
      by (cases "k = ?k"; auto simp: l' f nth_append)+
  qed
  with s inv1 f show ?thesis by (auto simp: nl_inv_def nl_safe_def l')
qed

lemma nodelist_push_nodes:
  "nodelist_push alloc (Some l) n = (True, Some l') \<Longrightarrow> nodes l' = nodes l @ [n]"
  by (erule nodelist_push_True, drule node_grow_frame, drule ensure_index_cap_frame) simp

lemma nodelist_push_fresh:
  assumes inv: "nl_inv l" and push: "nodelist_push alloc (Some l) n = (True, Some l')"
  shows "node_of l (nid n) = None"
proof -
  from push obtain l1 where e: "ensure_index_cap alloc l (unat (nid n)) = Some l1"
    and free: "by_id l1 ! unat (nid n) = SIZE_MAX"
    by (rule nodelist_push_True)
  have "nodelist_find (Some l) (nid n) = None"
    using ensure_index_cap_keeps [OF e] ensure_index_cap_room [OF e] free
    by (auto simp: nodelist_find_def Let_def split: if_splits)
  then show ?thesis by (simp add: node_of_def)
qed

text \<open>A refused push may still have grown the directory; the map is the same.\<close>

lemma nodelist_push_False:
  assumes inv: "nl_inv l" and small: "unat (nid n) < 2 ^ 60"
    and push: "nodelist_push alloc (Some l) n = (False, Some l')"
  shows "nl_inv l' \<and> nodes l' = nodes l"
proof (cases "ensure_index_cap alloc l (unat (nid n))")
  case None
  with push inv show ?thesis by (simp add: nodelist_push_def)
next
  case (Some l1)
  with push have "l' = l1"
    by (auto simp: nodelist_push_def Let_def split: option.splits if_splits)
  with ensure_index_cap_inv [OF inv Some small] ensure_index_cap_frame [OF Some] show ?thesis by simp
qed

lemma nodelist_push_live: "\<exists>ok l'. nodelist_push alloc (Some l) n = (ok, Some l')"
  by (auto simp: nodelist_push_def Let_def split: option.splits)

lemma remove_unordered_nodes:
  assumes "i < length (nodes l)" "nodelist_remove_unordered (Some l) i = (ok, Some l')"
  shows "nodes l' = butlast ((nodes l)[i := last (nodes l)])"
proof -
  have ne: "nodes l \<noteq> []" using assms(1) by auto
  with assms show ?thesis
    by (auto simp: nodelist_remove_unordered_def Let_def butlast_conv_take last_conv_nth
        split: if_splits)
qed

lemma remove_unordered_mset:
  assumes "i < length (nodes l)" "nodelist_remove_unordered (Some l) i = (ok, Some l')"
  shows "mset (nodes l') = mset (nodes l) - {#nodes l ! i#}"
proof -
  have ne: "nodes l \<noteq> []" using assms(1) by auto
  then obtain xs x where xs: "nodes l = xs @ [x]" by (cases "nodes l" rule: rev_cases) auto
  with assms(1) show ?thesis
    by (cases "i = length xs")
      (auto simp: remove_unordered_nodes [OF assms] butlast_append list_update_append
        mset_update nth_append)
qed

lemma remove_unordered_eq:
  assumes "i < length (nodes l)"
  shows "nodelist_remove_unordered (Some l) i =
    (let m = length (nodes l) - 1;
         dir = (by_id l)[unat (nid (nodes l ! i)) := SIZE_MAX] in
     (True, Some (l\<lparr>nodes := take m ((nodes l)[i := nodes l ! m]),
        by_id := (if i = m then dir else dir[unat (nid (nodes l ! m)) := i])\<rparr>)))"
  using assms by (auto simp: nodelist_remove_unordered_def Let_def list_update_beyond)

lemma nodelist_remove_unordered_inv [inv_intros]:
  assumes inv: "nl_inv l" and i: "i < length (nodes l)"
    and rem: "nodelist_remove_unordered (Some l) i = (ok, Some l')"
  shows "nl_inv l'"
proof -
  define m where "m = length (nodes l) - 1"
  define key where "key = (\<lambda>j. unat (nid (nodes l ! j)))"
  have m: "m < length (nodes l)" using i by (simp add: m_def)
  have inj: "key j = key j' \<longleftrightarrow> j = j'" if "j \<le> m" "j' \<le> m" for j j'
    using that m nl_nid_inj [OF inv, of j j'] by (auto simp: key_def word_unat_eq_iff)
  have i': "i \<le> m" using i by (simp add: m_def)
  have slot: "key j < length (by_id l)" "by_id l ! key j = j" if "j \<le> m" for j
    using nl_slot_of [OF inv, of j] that m by (auto simp: key_def)
  have nodes': "nodes l' = take m ((nodes l)[i := nodes l ! m])"
    and dir': "by_id l' = (if i = m then (by_id l)[key i := SIZE_MAX]
                           else (by_id l)[key i := SIZE_MAX, key m := i])"
    and rest: "ncap l' = ncap l" "nblock l' = nblock l" "iblock l' = iblock l"
    using rem by (auto simp: remove_unordered_eq [OF i] m_def key_def Let_def)
  have len': "length (nodes l') = m" using m by (simp add: nodes')
  have key': "unat (nid (nodes l' ! j)) = (if j = i then key m else key j)" if "j < m" for j
    using that m i by (auto simp: nodes' key_def nth_list_update)
  have linked: "nl_linked l'"
    unfolding nl_linked_def
  proof (intro conjI allI impI)
    fix j assume "j < length (nodes l')"
    then have j: "j < m" by (simp add: len')
    show "unat (nid (nodes l' ! j)) < length (by_id l')"
      using key' [OF j] slot [of j] slot [of m] j by (simp add: dir')
    show "by_id l' ! unat (nid (nodes l' ! j)) = j"
      using key' [OF j] slot [of j] slot [of m] slot [of i] j i' inj [of m i] inj [of j i] inj [of j m]
      by (auto simp: dir' nth_list_update)
  next
    fix k assume k: "k < length (by_id l')" "by_id l' ! k \<noteq> SIZE_MAX"
    have klen: "k < length (by_id l)" using k(1) by (simp add: dir' split: if_splits)
    show "by_id l' ! k < length (nodes l')" and "unat (nid (nodes l' ! (by_id l' ! k))) = k"
    proof -
      consider "i \<noteq> m" "k = key m" | "k \<noteq> key m" "k \<noteq> key i" | "i = m" "k \<noteq> key i"
        using k slot [OF i']
        by (cases "i = m"; cases "k = key i"; cases "k = key m"; simp add: dir')
      then have "by_id l' ! k < m \<and> unat (nid (nodes l' ! (by_id l' ! k))) = k"
      proof cases
        case 1
        with i' slot [of m] have "by_id l' ! k = i" "i < m" by (simp_all add: dir')
        with 1 key' show ?thesis by simp
      next
        case 2
        with k have e: "by_id l' ! k = by_id l ! k" by (auto simp: dir' nth_list_update split: if_splits)
        with k klen nl_entry [OF inv, of k] m
        have "by_id l ! k \<le> m" "key (by_id l ! k) = k" by (auto simp: key_def m_def)
        with 2 have "by_id l ! k < m" "by_id l ! k \<noteq> i" by (auto simp: order.order_iff_strict)
        with e key' \<open>key (by_id l ! k) = k\<close> show ?thesis by simp
      next
        case 3
        with k have e: "by_id l' ! k = by_id l ! k" by (auto simp: dir' nth_list_update split: if_splits)
        with k klen nl_entry [OF inv, of k] m
        have "by_id l ! k \<le> m" "key (by_id l ! k) = k" by (auto simp: key_def m_def)
        with 3 have "by_id l ! k < m" "by_id l ! k \<noteq> i" by (auto simp: order.order_iff_strict)
        with e key' \<open>key (by_id l ! k) = k\<close> show ?thesis by simp
      qed
      then show "by_id l' ! k < length (nodes l')" "unat (nid (nodes l' ! (by_id l' ! k))) = k"
        by (simp_all add: len')
    qed
  qed
  have "nl_safe l'"
    using inv m rest by (auto simp: nl_inv_def nl_safe_def dir' len' m_def)
  with linked show ?thesis by (simp add: nl_inv_def)
qed

section \<open>The interface of a node directory\<close>

text \<open>
  What the context relies on: a directory is a finite map from ids to nodes, adding
  refuses an id that is taken, and removing fails exactly on ids that are not there.
  \<open>ok_id\<close> bounds the ids the representation can index.
\<close>

locale node_directory =
  fixes add :: "'d \<Rightarrow> 'n \<Rightarrow> 'd option"
    and del :: "'d \<Rightarrow> 'k \<Rightarrow> 'd option"
    and at :: "'d \<Rightarrow> 'k \<Rightarrow> 'n option"
    and inv :: "'d \<Rightarrow> bool"
    and key :: "'n \<Rightarrow> 'k"
    and ok_id :: "'k \<Rightarrow> bool"
  assumes add_inv: "inv d \<Longrightarrow> ok_id (key n) \<Longrightarrow> add d n = Some d' \<Longrightarrow> inv d'"
    and add_fresh: "inv d \<Longrightarrow> add d n = Some d' \<Longrightarrow> at d (key n) = None"
    and add_at: "inv d \<Longrightarrow> ok_id (key n) \<Longrightarrow> add d n = Some d' \<Longrightarrow> at d' = (at d)(key n \<mapsto> n)"
    and del_inv: "inv d \<Longrightarrow> del d k = Some d' \<Longrightarrow> inv d'"
    and del_at: "inv d \<Longrightarrow> del d k = Some d' \<Longrightarrow> at d' = (at d)(k := None)"
    and del_none: "inv d \<Longrightarrow> del d k = None \<longleftrightarrow> at d k = None"
begin

lemma add_del_roundtrip:
  assumes "inv d" "ok_id (key n)" "add d n = Some d'"
  shows "\<exists>d''. del d' (key n) = Some d'' \<and> at d'' = at d"
proof -
  have at': "at d' = (at d)(key n \<mapsto> n)" and inv': "inv d'"
    using assms by (auto intro: add_at add_inv)
  then obtain d'' where "del d' (key n) = Some d''"
    using del_none [of d' "key n"] by auto
  moreover from this inv' have "at d'' = (at d')(key n := None)" by (intro del_at)
  ultimately show ?thesis using add_fresh [OF assms(1,3)] at' by auto
qed

lemma add_keeps_others:
  "inv d \<Longrightarrow> ok_id (key n) \<Longrightarrow> add d n = Some d' \<Longrightarrow> k \<noteq> key n \<Longrightarrow> at d' k = at d k"
  by (simp add: add_at)

lemma add_taken: "inv d \<Longrightarrow> at d (key n) = Some m \<Longrightarrow> add d n = None"
  using add_fresh by (cases "add d n") auto

end

definition nl_add :: "allocator \<Rightarrow> node_list \<Rightarrow> node \<Rightarrow> node_list option" where
  "nl_add alloc l n = (case nodelist_push alloc (Some l) n of (ok, lp) \<Rightarrow> if ok then lp else None)"

definition nl_del :: "node_list \<Rightarrow> u64 \<Rightarrow> node_list option" where
  "nl_del l ident = (case nodelist_remove_by_id (Some l) ident of (ok, lp) \<Rightarrow> if ok then lp else None)"

lemma nl_add_Some: "nl_add alloc l n = Some l' \<longleftrightarrow> nodelist_push alloc (Some l) n = (True, Some l')"
  using nodelist_push_live [of alloc l n] by (auto simp: nl_add_def split: prod.splits)

lemma nodelist_remove_by_id_find:
  assumes "nl_inv l"
  shows "nodelist_remove_by_id (Some l) ident =
    (case nodelist_find (Some l) ident of
       None \<Rightarrow> (False, Some l)
     | Some i \<Rightarrow> nodelist_remove_unordered (Some l) i)"
  by (auto simp: nodelist_remove_by_id_def nodelist_find_def Let_def)

lemma nl_del_Some:
  assumes "nl_inv l" "nl_del l ident = Some l'"
  obtains i where "nodelist_find (Some l) ident = Some i" "i < length (nodes l)"
    "nid (nodes l ! i) = ident" "nodelist_remove_unordered (Some l) i = (True, Some l')"
proof -
  from assms obtain i where i: "nodelist_find (Some l) ident = Some i"
    and r: "nodelist_remove_unordered (Some l) i = (True, Some l')"
    by (auto simp: nl_del_def nodelist_remove_by_id_find split: option.splits prod.splits if_splits)
  from i assms(1) have "i < length (nodes l)" "nid (nodes l ! i) = ident"
    by (simp_all add: nodelist_find_Some)
  with i r that show thesis by blast
qed

lemma node_of_eqI:
  assumes "nl_inv l" "\<And>n. f (nid n) = Some n \<longleftrightarrow> n \<in> set (nodes l)"
    "\<And>k n. f k = Some n \<Longrightarrow> nid n = k"
  shows "node_of l = f"
proof
  fix k
  show "node_of l k = f k"
  proof (cases "f k")
    case None
    with assms show ?thesis by (auto simp: node_of_None) (metis option.distinct(1))
  next
    case (Some n)
    with assms show ?thesis by (auto simp: node_of_Some)
  qed
qed

lemma nl_add_at:
  assumes "nl_inv l" "unat (nid n) < 2 ^ 60" "nl_add alloc l n = Some l'"
  shows "node_of l' = (node_of l)(nid n \<mapsto> n)"
proof (rule node_of_eqI)
  from assms show "nl_inv l'" by (auto simp: nl_add_Some intro: nodelist_push_inv)
  have nodes': "nodes l' = nodes l @ [n]" and fresh: "node_of l (nid n) = None"
    using assms by (auto simp: nl_add_Some nodelist_push_nodes dest: nodelist_push_fresh)
  fix m show "((node_of l)(nid n \<mapsto> n)) (nid m) = Some m \<longleftrightarrow> m \<in> set (nodes l')"
    using assms(1) fresh by (auto simp: nodes' node_of_Some node_of_None)
next
  fix k m assume "((node_of l)(nid n \<mapsto> n)) k = Some m"
  then show "nid m = k" using assms(1) by (auto simp: node_of_Some split: if_splits)
qed

lemma nl_del_at:
  assumes inv: "nl_inv l" and del: "nl_del l ident = Some l'"
  shows "node_of l' = (node_of l)(ident := None)"
proof -
  from inv del obtain i where i: "i < length (nodes l)" "nid (nodes l ! i) = ident"
    and r: "nodelist_remove_unordered (Some l) i = (True, Some l')" by (rule nl_del_Some)
  have dist: "distinct (nodes l)"
    using nl_nid_inj [OF inv] by (fastforce simp: distinct_conv_nth)
  have "mset (nodes l') = mset (nodes l) - {#nodes l ! i#}"
    using remove_unordered_mset [OF i(1) r] .
  also have "\<dots> = mset (remove1 (nodes l ! i) (nodes l))" by simp
  finally have set': "set (nodes l') = set (nodes l) - {nodes l ! i}"
    using dist by (metis set_mset_mset set_remove1_eq)
  show ?thesis
  proof (rule node_of_eqI)
    show "nl_inv l'" using inv i(1) r by (rule nodelist_remove_unordered_inv)
  next
    have "node_of l ident = Some (nodes l ! i)" using node_of_nth [OF inv i(1)] i(2) by simp
    then have one: "m \<in> set (nodes l) \<Longrightarrow> nid m = ident \<longleftrightarrow> m = nodes l ! i" for m
      using node_of_Some [OF inv, of ident m] i by auto
    fix m show "((node_of l)(ident := None)) (nid m) = Some m \<longleftrightarrow> m \<in> set (nodes l')"
      using one [of m] by (auto simp: set' node_of_Some [OF inv])
  next
    fix k m assume "((node_of l)(ident := None)) k = Some m"
    then show "nid m = k" using inv by (auto simp: node_of_Some split: if_splits)
  qed
qed

lemma nl_del_None: "nl_inv l \<Longrightarrow> nl_del l ident = None \<longleftrightarrow> node_of l ident = None"
  by (auto simp: nl_del_def nodelist_remove_by_id_find node_of_def remove_unordered_eq
      nodelist_find_Some Let_def split: option.splits prod.splits)

interpretation dir: node_directory "nl_add alloc" nl_del node_of nl_inv nid "\<lambda>k. unat k < 2 ^ 60"
  for alloc
proof unfold_locales
  fix l n l'
  assume "nl_inv l" "nl_add alloc l n = Some l'"
  then show "node_of l (nid n) = None" by (auto simp: nl_add_Some dest: nodelist_push_fresh)
next
  fix l k l' assume "nl_inv l" "nl_del l k = Some l'"
  then show "nl_inv l'" by (metis nl_del_Some nodelist_remove_unordered_inv)
qed (auto simp: nl_add_Some nl_add_at nl_del_at nl_del_None intro: nodelist_push_inv)

lemma ensure_index_cap_unguarded_step: "grow_cap 1 (2 ^ 62) = Some (2 ^ 63)"
  by (simp add: grow_cap.simps SIZE_MAX_def)

text \<open>
  \<open>ensure_index_cap\<close> multiplies the directory capacity by the entry size without a guard:
  for the id \<open>2 ^ 62\<close> the request wraps to zero bytes while the directory is taken to have
  \<open>2 ^ 63\<close> entries.
\<close>

theorem ensure_index_cap_unguarded:
  "\<exists>l. ensure_index_cap (\<lambda>_ _. True) \<lparr>nodes = [], ncap = 8, nblock = 320, by_id = [], iblock = 0\<rparr>
         (2 ^ 62) = Some l \<and> length (by_id l) = 2 ^ 63 \<and> iblock l = 0 \<and> \<not> nl_safe l"
  by (simp add: ensure_index_cap_def ensure_index_cap_unguarded_step [simplified] SIZE_MAX_def size_mul_def
      sizeof_size_t_def nl_safe_def Let_def)

section \<open>Properties\<close>

definition two_nodes :: node_list where
  "two_nodes = \<lparr>nodes = [\<lparr>nid = 0, x_nm = 0, y_nm = 0, vx_nm_per_ns = 0, vy_nm_per_ns = 0\<rparr>,
                         \<lparr>nid = 1, x_nm = 5, y_nm = 5, vx_nm_per_ns = 0, vy_nm_per_ns = 0\<rparr>],
                ncap = 2, nblock = 80, by_id = [0, 1], iblock = 16\<rparr>"

lemma two_nodes_inv: "nl_inv two_nodes"
proof -
  have "nl_linked two_nodes"
    unfolding nl_linked_def two_nodes_def by (auto simp: less_Suc_eq nth_Cons split: nat.splits)
  then show ?thesis
    by (simp add: nl_inv_def nl_safe_def two_nodes_def sizeof_Node_def sizeof_size_t_def SIZE_MAX_def)
qed

text \<open>
  \<open>nodelist_push\<close> refines map update: accepted, it adds exactly the new node under an
  id that was free; refused, the map is unchanged; the links between slots and directory
  hold afterwards either way.
\<close>

theorem nodelist_push_refines:
  assumes "nl_inv l" "unat (nid n) < 2 ^ 60" "nodelist_push alloc (Some l) n = (ok, Some l')"
  shows "nl_inv l' \<and>
    (if ok then node_of l (nid n) = None \<and> node_of l' = (node_of l)(nid n \<mapsto> n)
     else node_of l' = node_of l)"
proof (cases ok)
  case True
  with assms(3) have "nl_add alloc l n = Some l'" by (simp add: nl_add_Some)
  with assms(1,2) True show ?thesis
    by (auto simp: dir.add_at dir.add_fresh intro: dir.add_inv)
next
  case False
  with assms have "nl_inv l'" "nodes l' = nodes l" by (auto dest: nodelist_push_False)
  with assms(1) False show ?thesis by (auto intro!: node_of_eqI [symmetric] simp: node_of_Some)
qed

theorem nodelist_push_refines_witness:
  "\<exists>l'. nodelist_push (\<lambda>_ _. True) (Some two_nodes)
      \<lparr>nid = 2, x_nm = 1, y_nm = 1, vx_nm_per_ns = 0, vy_nm_per_ns = 0\<rparr> = (True, Some l') \<and> nl_inv l'"
proof -
  let ?n = "\<lparr>nid = 2, x_nm = 1, y_nm = 1, vx_nm_per_ns = 0, vy_nm_per_ns = 0\<rparr>"
  obtain l' where push: "nodelist_push (\<lambda>_ _. True) (Some two_nodes) ?n = (True, Some l')"
    by (simp add: nodelist_push_def two_nodes_def ensure_index_cap_def grow_cap.simps node_grow_def
        SIZE_MAX_def sizeof_Node_def Let_def nth_append)
  have "unat (nid ?n) < 2 ^ 60" by simp
  from nodelist_push_refines [OF two_nodes_inv this push] push show ?thesis by blast
qed

text \<open>
  C3. \<open>nodelist_remove_by_id\<close> refines map deletion: it succeeds exactly on ids that are
  present, and afterwards the id is gone and every other id finds the node it found before,
  although the last node has moved to another slot.
\<close>

theorem nodelist_remove_refines:
  assumes "nl_inv l"
  shows "\<exists>l'. nodelist_remove_by_id (Some l) k = (node_of l k \<noteq> None, Some l') \<and>
    nl_inv l' \<and> node_of l' = (node_of l)(k := None)"
proof (cases "nl_del l k")
  case None
  then have "node_of l k = None" using dir.del_none [OF assms] by simp
  moreover from this have "nodelist_find (Some l) k = None" by (simp add: node_of_def)
  ultimately show ?thesis using assms by (auto simp: nodelist_remove_by_id_find)
next
  case (Some l')
  then have "node_of l k \<noteq> None" using dir.del_none [OF assms, of k] by auto
  moreover have "nodelist_remove_by_id (Some l) k = (True, Some l')"
    using Some by (auto simp: nl_del_def split: prod.splits if_splits)
  ultimately show ?thesis
    using dir.del_inv [OF assms Some] dir.del_at [OF assms Some] by auto
qed

theorem nodelist_remove_refines_witness:
  "\<exists>l'. nodelist_remove_by_id (Some two_nodes) 0 = (node_of two_nodes 0 \<noteq> None, Some l') \<and>
     nl_inv l' \<and> node_of l' = (node_of two_nodes)(0 := None)"
  by (rule nodelist_remove_refines) (rule two_nodes_inv)

end
