(* ===== verification/Radio_World.thy ===== *)
theory Radio_World
  imports Prelude
begin

text \<open>
  The radio medium \<open>world/world.c\<close>: a grid of cells, the integer line walk between two
  cells, and \<open>radio_path\<close>, the verdict every packet of the simulation goes through.

  Positions are \<open>int64_t\<close> nanometres (64-bit words compared with the signed orders); the
  128-bit differences of \<open>radio_path\<close> and the cell coordinates of the walk are \<open>int\<close>, and
  lemmas show that they stay inside the C types. The walk is an unbounded loop in the
  source and a \<open>partial_function\<close> here: \<open>None\<close> would be a walk that never ends, and
  \<open>Out_of_bounds\<close> a read outside the cell array. The main lemma, \<open>segment_delay_line\<close>,
  gives its result in closed form, so neither happens between cells of a map.
\<close>

section \<open>Definitions\<close>

datatype material =
    MATERIAL_AIR
  | MATERIAL_ROCK
  | MATERIAL_DIRT
  | MATERIAL_WATER
  | MATERIAL_WOOD
  | Material_beyond_count nat

record medium_grid =
  origin_x_nm :: i64
  origin_y_nm :: i64
  cell_nm :: u64
  nx :: u64
  ny :: u64
  cells :: "material list ptr"

record radio_params =
  range_nm :: u64

record radio_path =
  reachable :: bool
  delay_ns :: u64

definition sizeof_Material :: nat where
  "sizeof_Material = 4"

definition mediumgrid_init ::
  "allocator \<Rightarrow> medium_grid ptr \<Rightarrow> i64 \<Rightarrow> i64 \<Rightarrow> u64 \<Rightarrow> u64 \<Rightarrow> u64 \<Rightarrow> material \<Rightarrow>
   bool \<times> medium_grid ptr" where
  "mediumgrid_init alloc gp ox oy cell x_n y_n fill =
     (case gp of
        None \<Rightarrow> (False, None)
      | Some g \<Rightarrow>
          if cell = 0 \<or> x_n = 0 \<or> y_n = 0 \<or> cells g \<noteq> None then (False, Some g)
          else if x_n > UINT64_MAX div y_n then (False, Some g)
          else
            let n = unat (x_n * y_n) in
            if n > SIZE_MAX div sizeof_Material then (False, Some g)
            else if \<not> alloc Grid_Cells (size_mul n sizeof_Material) then
              (False, Some (g\<lparr>cells := None\<rparr>))
            else (True, Some \<lparr>origin_x_nm = ox, origin_y_nm = oy, cell_nm = cell,
                              nx = x_n, ny = y_n, cells = Some (replicate n fill)\<rparr>))"

definition mediumgrid_free :: "medium_grid ptr \<Rightarrow> bool \<times> medium_grid ptr" where
  "mediumgrid_free gp =
     (case gp of
        None \<Rightarrow> (False, None)
      | Some g \<Rightarrow> (True, Some \<lparr>origin_x_nm = 0, origin_y_nm = 0, cell_nm = 0, nx = 0, ny = 0,
                              cells = None\<rparr>))"

fun k_c_nm_per_ns :: "material \<Rightarrow> u64" where
  "k_c_nm_per_ns MATERIAL_AIR = 300"
| "k_c_nm_per_ns MATERIAL_ROCK = 0"
| "k_c_nm_per_ns MATERIAL_DIRT = 0"
| "k_c_nm_per_ns MATERIAL_WATER = 0"
| "k_c_nm_per_ns MATERIAL_WOOD = 0"
| "k_c_nm_per_ns (Material_beyond_count _) = 0"

definition blocked :: "radio_path ptr \<Rightarrow> bool \<times> radio_path ptr" where
  "blocked rp = (False, map_option (\<lambda>_. \<lparr>reachable = False, delay_ns = 0\<rparr>) rp)"

definition cell_of :: "medium_grid \<Rightarrow> i64 \<Rightarrow> i64 \<Rightarrow> (int \<times> int) option" where
  "cell_of g x y =
     (if x <s origin_x_nm g \<or> y <s origin_y_nm g then None
      else
        let ux = (x - origin_x_nm g) div cell_nm g;
            uy = (y - origin_y_nm g) div cell_nm g in
        if ux \<ge> nx g \<or> uy \<ge> ny g then None
        else Some (sint ux, sint uy))"

datatype walk = Blocked | Reached u64 | Out_of_bounds

text \<open>\<open>(size_t)y0 * (size_t)nx + (size_t)x0\<close>.\<close>

definition cell_index :: "medium_grid \<Rightarrow> int \<Rightarrow> int \<Rightarrow> nat" where
  "cell_index g x y = nat ((y * uint (nx g) + x) mod 2 ^ 64)"

partial_function (option) segment_loop ::
  "medium_grid \<Rightarrow> material list \<Rightarrow> int \<Rightarrow> int \<Rightarrow> int \<Rightarrow> int \<Rightarrow> int \<Rightarrow> int \<Rightarrow> int \<Rightarrow> int \<Rightarrow> int \<Rightarrow>
   u64 \<Rightarrow> walk option" where
  "segment_loop g cs dx dy sx sy x1 y1 x0 y0 err delay =
     (let i = cell_index g x0 y0 in
      if i \<ge> length cs then Some Out_of_bounds
      else
        let mat = cs ! i; c = k_c_nm_per_ns mat in
        if c = 0 then Some Blocked
        else
          let delay = delay + cell_nm g div c in
          if x0 = x1 \<and> y0 = y1 then Some (Reached delay)
          else
            let e2 = err * 2;
                (err', x0') = (if e2 \<ge> dy then (err + dy, x0 + sx) else (err, x0));
                (err'', y0') = (if e2 \<le> dx then (err' + dx, y0 + sy) else (err', y0))
            in segment_loop g cs dx dy sx sy x1 y1 x0' y0' err'' delay)"

definition segment_delay ::
  "medium_grid \<Rightarrow> material list \<Rightarrow> int \<Rightarrow> int \<Rightarrow> int \<Rightarrow> int \<Rightarrow> walk option" where
  "segment_delay g cs x0 y0 x1 y1 =
     (let dx = (if x1 \<ge> x0 then x1 - x0 else x0 - x1);
          dy = (if y1 \<ge> y0 then y0 - y1 else y1 - y0);
          sx = (if x0 < x1 then 1 else -1);
          sy = (if y0 < y1 then 1 else -1);
          err = dx + dy
      in segment_loop g cs dx dy sx sy x1 y1 x0 y0 err 0)"

definition INT64_MAX :: u64 where
  "INT64_MAX = 0x7fffffffffffffff"

text \<open>The result is \<open>None\<close> only where the walk would read outside the map or never end.\<close>

definition radio_path ::
  "medium_grid ptr \<Rightarrow> radio_params ptr \<Rightarrow> i64 \<Rightarrow> i64 \<Rightarrow> i64 \<Rightarrow> i64 \<Rightarrow> radio_path ptr \<Rightarrow>
   (bool \<times> radio_path ptr) option" where
  "radio_path gp pp ax_nm ay_nm bx_nm by_nm rp =
     (case (gp, pp, rp) of
        (Some g, Some p, Some _) \<Rightarrow>
          (case cells g of
             None \<Rightarrow> Some (blocked rp)
           | Some cs \<Rightarrow>
               if cell_nm g = 0 then Some (blocked rp)
               else if range_nm p > INT64_MAX then Some (blocked rp)
               else
                 let dx = sint bx_nm - sint ax_nm;
                     dy = sint by_nm - sint ay_nm;
                     adx = (if dx < 0 then - dx else dx);
                     ady = (if dy < 0 then - dy else dy) in
                 if adx > uint (range_nm p) \<or> ady > uint (range_nm p) then Some (blocked rp)
                 else
                   let d2 = adx * adx + ady * ady;
                       r2 = uint (range_nm p) * uint (range_nm p) in
                   if d2 > r2 then Some (blocked rp)
                   else
                     (case (cell_of g ax_nm ay_nm, cell_of g bx_nm by_nm) of
                        (Some (ax, ay), Some (bx, by')) \<Rightarrow>
                          (case segment_delay g cs ax ay bx by' of
                             None \<Rightarrow> None
                           | Some Out_of_bounds \<Rightarrow> None
                           | Some Blocked \<Rightarrow> Some (blocked rp)
                           | Some (Reached d) \<Rightarrow>
                               Some (True, Some \<lparr>reachable = True,
                                                delay_ns = (if d2 = 0 then 0 else d)\<rparr>))
                      | _ \<Rightarrow> Some (blocked rp)))
      | _ \<Rightarrow> Some (blocked rp))"

section \<open>Maps\<close>

text \<open>A map as \<open>mediumgrid_init\<close> builds it, and as later writes to single cells keep it.\<close>

definition grid_inv :: "medium_grid \<Rightarrow> bool" where
  "grid_inv g =
     (cell_nm g \<noteq> 0 \<and> unat (nx g) * unat (ny g) \<le> SIZE_MAX div sizeof_Material \<and>
      0 < nx g \<and> 0 < ny g \<and>
      (\<exists>cs. cells g = Some cs \<and> length cs = unat (nx g) * unat (ny g)))"

definition on_map :: "medium_grid \<Rightarrow> int \<Rightarrow> int \<Rightarrow> bool" where
  "on_map g x y = (0 \<le> x \<and> x < uint (nx g) \<and> 0 \<le> y \<and> y < uint (ny g))"

definition material_at :: "medium_grid \<Rightarrow> int \<times> int \<Rightarrow> material" where
  "material_at g p =
     (case cells g of None \<Rightarrow> MATERIAL_ROCK
      | Some cs \<Rightarrow> cs ! (nat (snd p) * unat (nx g) + nat (fst p)))"

lemma grid_size_bounds:
  assumes "grid_inv g"
  shows "unat (nx g) \<le> 2 ^ 62" "unat (ny g) \<le> 2 ^ 62"
proof -
  have p: "unat (nx g) * unat (ny g) \<le> 2 ^ 62"
    using assms by (simp add: grid_inv_def SIZE_MAX_def sizeof_Material_def)
  have "0 < unat (nx g)" "0 < unat (ny g)" using assms
    by (auto simp: grid_inv_def word_less_nat_alt)
  then have "unat (nx g) * 1 \<le> unat (nx g) * unat (ny g)" "1 * unat (ny g) \<le> unat (nx g) * unat (ny g)"
    by (intro mult_le_mono; simp)+
  with p show "unat (nx g) \<le> 2 ^ 62" "unat (ny g) \<le> 2 ^ 62" by linarith+
qed

lemma index_bound:
  fixes x y m n :: nat
  assumes "x < m" "y < n"
  shows "y * m + x < m * n"
proof -
  have "y * m + x < y * m + m" using assms(1) by simp
  also have "\<dots> = Suc y * m" by simp
  also have "\<dots> \<le> n * m" using assms(2) by (intro mult_le_mono1) simp
  finally show ?thesis by (simp add: mult.commute)
qed

lemma cell_index_on_map:
  assumes g: "grid_inv g" and xy: "on_map g x y"
  shows "cell_index g x y = nat y * unat (nx g) + nat x"
    and "cell_index g x y < unat (nx g) * unat (ny g)"
proof -
  let ?i = "nat y * unat (nx g) + nat x"
  have "nat x < unat (nx g)" "nat y < unat (ny g)" using xy
    by (auto simp: on_map_def nat_less_iff)
  then have lt: "?i < unat (nx g) * unat (ny g)" by (rule index_bound)
  also have "\<dots> \<le> 2 ^ 62" using g by (simp add: grid_inv_def SIZE_MAX_def sizeof_Material_def)
  finally have small: "?i < 2 ^ 64" by simp
  have "y * uint (nx g) + x = int ?i" using xy by (simp add: on_map_def)
  moreover have "int ?i mod 2 ^ 64 = int ?i"
    using small by (intro mod_pos_pos_trivial) (simp_all flip: of_nat_less_iff [where ?'a = int])
  ultimately show eq: "cell_index g x y = ?i" by (simp only: cell_index_def nat_int)
  show "cell_index g x y < unat (nx g) * unat (ny g)" unfolding eq by (rule lt)
qed

lemma mediumgrid_init_inv:
  assumes "mediumgrid_init alloc (Some g0) ox oy cell x_n y_n fill = (True, Some g)"
  shows "grid_inv g \<and> cells g = Some (replicate (unat (nx g) * unat (ny g)) fill)"
proof -
  have nz: "cell \<noteq> 0" "x_n \<noteq> 0" "y_n \<noteq> 0" and le: "x_n \<le> UINT64_MAX div y_n"
    and sz: "unat (x_n * y_n) \<le> SIZE_MAX div sizeof_Material"
    and g: "g = \<lparr>origin_x_nm = ox, origin_y_nm = oy, cell_nm = cell, nx = x_n, ny = y_n,
                 cells = Some (replicate (unat (x_n * y_n)) fill)\<rparr>"
    using assms by (auto simp: mediumgrid_init_def Let_def not_less split: if_splits)
  have "unat x_n \<le> (2 ^ 64 - 1) div unat y_n"
    using le by (simp add: word_le_nat_alt unat_div UINT64_MAX_def)
  then have "unat x_n * unat y_n \<le> (2 ^ 64 - 1) div unat y_n * unat y_n"
    by (rule mult_le_mono1)
  also have "\<dots> \<le> 2 ^ 64 - 1" by (rule div_times_less_eq_dividend)
  finally have "unat x_n * unat y_n \<le> 2 ^ 64 - 1" .
  then have "unat (x_n * y_n) = unat x_n * unat y_n"
    by (simp add: unat_word_ariths)
  with nz sz show ?thesis by (simp add: g grid_inv_def word_neq_0_conv)
qed

section \<open>The line between two cells\<close>

text \<open>
  The \<open>k\<close>-th cell of the line over \<open>D\<close> columns and \<open>E\<close> rows, as offsets: along the longer
  side one cell per step, along the shorter side the exact position rounded to the nearest
  cell, halves up. This is what the incremental walk of \<open>segment_delay\<close> must visit.
\<close>

definition line_offset :: "int \<Rightarrow> int \<Rightarrow> int \<Rightarrow> int \<times> int" where
  "line_offset D E k =
     (if E \<le> D then (k, if D = 0 then 0 else (2 * k * E + D) div (2 * D))
      else ((2 * k * D + E) div (2 * E), k))"

definition line_err :: "int \<Rightarrow> int \<Rightarrow> int \<Rightarrow> int" where
  "line_err D E k = (snd (line_offset D E k) + 1) * D - (fst (line_offset D E k) + 1) * E"

definition line_point :: "int \<Rightarrow> int \<Rightarrow> int \<Rightarrow> int \<Rightarrow> int \<Rightarrow> int \<times> int" where
  "line_point x0 y0 x1 y1 k =
     (let p = line_offset \<bar>x1 - x0\<bar> \<bar>y1 - y0\<bar> k in
      (x0 + (if x0 < x1 then 1 else -1) * fst p, y0 + (if y0 < y1 then 1 else -1) * snd p))"

definition line_cells :: "int \<Rightarrow> int \<Rightarrow> int \<Rightarrow> int \<Rightarrow> (int \<times> int) list" where
  "line_cells x0 y0 x1 y1 =
     map (line_point x0 y0 x1 y1) [0..max \<bar>x1 - x0\<bar> \<bar>y1 - y0\<bar>]"

lemma div_step:
  fixes a b d r :: int
  assumes "0 \<le> b" "b \<le> d" "0 < d"
  shows "(a + b) div d = a div d + (if a mod d + b \<ge> d then 1 else 0)"
proof -
  have r: "0 \<le> a mod d" "a mod d < d" using assms by simp_all
  have "a + b = d * (a div d) + (a mod d + b)" by (simp add: algebra_simps)
  then have "(a + b) div d = a div d + (a mod d + b) div d"
    using assms(3) by (metis div_mult_self2 add.commute less_irrefl mult.commute)
  moreover have "(a mod d + b) div d = (if a mod d + b \<ge> d then 1 else 0)"
  proof -
    have "a mod d + b < 2 * d" using r(2) assms by linarith
    with r assms show ?thesis
      by (auto simp: div_pos_pos_trivial intro!: int_div_pos_eq [where r = "a mod d + b - d"])
  qed
  ultimately show ?thesis by simp
qed

lemma line_offset_0: "0 \<le> D \<Longrightarrow> 0 \<le> E \<Longrightarrow> line_offset D E 0 = (0, 0)"
  by (auto simp: line_offset_def)

lemma line_offset_end: "0 \<le> D \<Longrightarrow> 0 \<le> E \<Longrightarrow> line_offset D E (max D E) = (D, E)"
proof -
  have half: "(2 * a * b + a) div (2 * a) = b" if "0 < a" for a b :: int
    using that by (intro int_div_pos_eq [where r = a]) auto
  assume "0 \<le> D" "0 \<le> E"
  then show ?thesis using half [of D E] half [of E D]
    by (auto simp: line_offset_def max_def)
qed

text \<open>One step of the walk moves along both axes exactly as the line does.\<close>

lemma line_step_major:
  fixes D E k :: int
  assumes D: "0 < D" "0 \<le> E" "E \<le> D"
  defines "j \<equiv> (2 * k * E + D) div (2 * D)"
  defines "e \<equiv> (j + 1) * D - (k + 1) * E"
  shows "e * 2 \<ge> - E" "e * 2 \<le> D \<longleftrightarrow> (2 * (k + 1) * E + D) div (2 * D) = j + 1"
    "\<not> e * 2 \<le> D \<longleftrightarrow> (2 * (k + 1) * E + D) div (2 * D) = j"
proof -
  define r where "r = (2 * k * E + D) mod (2 * D)"
  have r: "0 \<le> r" "r < 2 * D" using D by (simp_all add: r_def)
  have split: "2 * k * E + D = 2 * D * j + r" by (simp add: j_def r_def)
  have next_num: "2 * (k + 1) * E + D = (2 * k * E + D) + 2 * E" by (simp add: algebra_simps)
  have step: "(2 * (k + 1) * E + D) div (2 * D) = j + (if r + 2 * E \<ge> 2 * D then 1 else 0)"
    unfolding next_num j_def r_def using D by (intro div_step) simp_all
  have e: "e * 2 = 3 * D - r - 2 * E" using split by (simp add: e_def algebra_simps)
  show "e * 2 \<ge> - E" using e r D by linarith
  show "e * 2 \<le> D \<longleftrightarrow> (2 * (k + 1) * E + D) div (2 * D) = j + 1"
    and "\<not> e * 2 \<le> D \<longleftrightarrow> (2 * (k + 1) * E + D) div (2 * D) = j"
    unfolding step using e by auto
qed

lemma line_step_minor:
  fixes D E k :: int
  assumes D: "0 \<le> D" "D < E"
  defines "i \<equiv> (2 * k * D + E) div (2 * E)"
  defines "e \<equiv> (k + 1) * D - (i + 1) * E"
  shows "e * 2 \<le> D" "e * 2 \<ge> - E \<longleftrightarrow> (2 * (k + 1) * D + E) div (2 * E) = i + 1"
    "\<not> e * 2 \<ge> - E \<longleftrightarrow> (2 * (k + 1) * D + E) div (2 * E) = i"
proof -
  define r where "r = (2 * k * D + E) mod (2 * E)"
  have r: "0 \<le> r" "r < 2 * E" using D by (simp_all add: r_def)
  have split: "2 * k * D + E = 2 * E * i + r" by (simp add: i_def r_def)
  have next_num: "2 * (k + 1) * D + E = (2 * k * D + E) + 2 * D" by (simp add: algebra_simps)
  have step: "(2 * (k + 1) * D + E) div (2 * E) = i + (if r + 2 * D \<ge> 2 * E then 1 else 0)"
    unfolding next_num i_def r_def using D by (intro div_step) simp_all
  have e: "e * 2 = r + 2 * D - 3 * E" using split by (simp add: e_def algebra_simps)
  show "e * 2 \<le> D" using e r D by linarith
  show "e * 2 \<ge> - E \<longleftrightarrow> (2 * (k + 1) * D + E) div (2 * E) = i + 1"
    and "\<not> e * 2 \<ge> - E \<longleftrightarrow> (2 * (k + 1) * D + E) div (2 * E) = i"
    unfolding step using e by auto
qed

lemma line_step:
  assumes "0 \<le> D" "0 \<le> E" "0 \<le> k" "k < max D E"
  shows "fst (line_offset D E (k + 1)) =
           (if line_err D E k * 2 \<ge> - E then fst (line_offset D E k) + 1 else fst (line_offset D E k))"
    and "snd (line_offset D E (k + 1)) =
           (if line_err D E k * 2 \<le> D then snd (line_offset D E k) + 1 else snd (line_offset D E k))"
    and "line_err D E (k + 1) = line_err D E k + (if line_err D E k * 2 \<ge> - E then - E else 0)
           + (if line_err D E k * 2 \<le> D then D else 0)"
proof -
  show a: "fst (line_offset D E (k + 1)) =
           (if line_err D E k * 2 \<ge> - E then fst (line_offset D E k) + 1 else fst (line_offset D E k))"
    using assms line_step_major [of D E k] line_step_minor [of D E k]
    by (auto simp: line_offset_def line_err_def max_def split: if_splits)
  show b: "snd (line_offset D E (k + 1)) =
           (if line_err D E k * 2 \<le> D then snd (line_offset D E k) + 1 else snd (line_offset D E k))"
    using assms line_step_major [of D E k] line_step_minor [of D E k]
    by (auto simp: line_offset_def line_err_def max_def split: if_splits)
  show "line_err D E (k + 1) = line_err D E k + (if line_err D E k * 2 \<ge> - E then - E else 0)
           + (if line_err D E k * 2 \<le> D then D else 0)"
    unfolding line_err_def [of D E "k + 1"] a b
    by (auto simp: line_err_def algebra_simps)
qed

lemma line_offset_inj:
  assumes "0 \<le> D" "0 \<le> E" "0 \<le> k" "k \<le> max D E" "line_offset D E k = (D, E)"
  shows "k = max D E"
  using assms by (auto simp: line_offset_def max_def split: if_splits)

lemma line_offset_bounds:
  assumes "0 \<le> D" "0 \<le> E" "0 \<le> k" "k \<le> max D E"
  shows "0 \<le> fst (line_offset D E k)" "fst (line_offset D E k) \<le> D"
    "0 \<le> snd (line_offset D E k)" "snd (line_offset D E k) \<le> E"
proof -
  have low: "0 \<le> (2 * k * b + a) div (2 * a)" if "0 \<le> a" "0 \<le> b" for a b :: int
    using that assms(3) by (cases "a = 0") (auto intro!: pos_imp_zdiv_nonneg_iff [THEN iffD2] add_nonneg_nonneg)
  have high: "(2 * k * b + a) div (2 * a) \<le> b" if "0 < a" "k \<le> a" "0 \<le> b" for a b :: int
  proof -
    have "(2 * k * b + a) div (2 * a) \<le> (2 * a * b + a) div (2 * a)"
      using that by (intro zdiv_mono1) (auto intro: mult_right_mono)
    also have "\<dots> = b" using that(1) by (intro int_div_pos_eq [where r = a]) auto
    finally show ?thesis .
  qed
  show "0 \<le> fst (line_offset D E k)" "fst (line_offset D E k) \<le> D"
    "0 \<le> snd (line_offset D E k)" "snd (line_offset D E k) \<le> E"
    using assms low [of D E] low [of E D] high [of D E] high [of E D]
    by (auto simp: line_offset_def max_def split: if_splits)
qed

text \<open>The walk along a list of cells: every cell must let the wave through.\<close>

fun walk_cells :: "medium_grid \<Rightarrow> (int \<times> int) list \<Rightarrow> u64 \<Rightarrow> walk" where
  "walk_cells g [] delay = Reached delay"
| "walk_cells g (p # ps) delay =
     (if k_c_nm_per_ns (material_at g p) = 0 then Blocked
      else walk_cells g ps (delay + cell_nm g div k_c_nm_per_ns (material_at g p)))"

lemma line_point_on_map:
  assumes "on_map g x0 y0" "on_map g x1 y1" "0 \<le> k" "k \<le> max \<bar>x1 - x0\<bar> \<bar>y1 - y0\<bar>"
  shows "on_map g (fst (line_point x0 y0 x1 y1 k)) (snd (line_point x0 y0 x1 y1 k))"
  using line_offset_bounds [of "\<bar>x1 - x0\<bar>" "\<bar>y1 - y0\<bar>" k] assms
  by (auto simp: line_point_def on_map_def Let_def split: if_splits)

lemma line_point_end:
  "line_point x0 y0 x1 y1 (max \<bar>x1 - x0\<bar> \<bar>y1 - y0\<bar>) = (x1, y1)"
  using line_offset_end [of "\<bar>x1 - x0\<bar>" "\<bar>y1 - y0\<bar>"] by (auto simp: line_point_def)

lemma line_point_0: "line_point x0 y0 x1 y1 0 = (x0, y0)"
  by (simp add: line_point_def line_offset_0)

lemma line_point_not_end:
  assumes "0 \<le> k" "k < max \<bar>x1 - x0\<bar> \<bar>y1 - y0\<bar>"
  shows "line_point x0 y0 x1 y1 k \<noteq> (x1, y1)"
proof
  assume "line_point x0 y0 x1 y1 k = (x1, y1)"
  with line_offset_bounds [of "\<bar>x1 - x0\<bar>" "\<bar>y1 - y0\<bar>" k] assms
  have "line_offset \<bar>x1 - x0\<bar> \<bar>y1 - y0\<bar> k = (\<bar>x1 - x0\<bar>, \<bar>y1 - y0\<bar>)"
    by (auto simp: line_point_def Let_def prod_eq_iff split: if_splits)
  with assms show False by (auto dest: line_offset_inj [rotated 4])
qed

text \<open>
  The loop invariant of the walk: after \<open>k\<close> steps it stands on the \<open>k\<close>-th cell of the line
  with the line's error term.
\<close>

lemma segment_loop_line:
  fixes x0 y0 x1 y1 :: int
  assumes g: "grid_inv g" "cells g = Some cs" and A: "on_map g x0 y0" and B: "on_map g x1 y1"
  defines "D \<equiv> \<bar>x1 - x0\<bar>" and "E \<equiv> \<bar>y1 - y0\<bar>"
  defines "sx \<equiv> (if x0 < x1 then 1 else -1)" and "sy \<equiv> (if y0 < y1 then 1 else -1)"
  assumes k: "0 \<le> k" "k \<le> max D E"
  shows "segment_loop g cs D (- E) sx sy x1 y1 (fst (line_point x0 y0 x1 y1 k))
           (snd (line_point x0 y0 x1 y1 k)) (line_err D E k) delay =
         Some (walk_cells g (map (line_point x0 y0 x1 y1) [k..max D E]) delay)"
  using k
proof (induction "nat (max D E - k)" arbitrary: k delay rule: less_induct)
  case less
  let ?P = "line_point x0 y0 x1 y1"
  let ?p = "?P k" and ?e = "line_err D E k"
  have here: "on_map g (fst ?p) (snd ?p)"
    using line_point_on_map [OF A B] less.prems by (simp add: D_def E_def)
  have idx: "cell_index g (fst ?p) (snd ?p) < length cs"
    using cell_index_on_map(2) [OF g(1) here] g by (auto simp: grid_inv_def)
  have mat: "cs ! cell_index g (fst ?p) (snd ?p) = material_at g ?p"
    using cell_index_on_map(1) [OF g(1) here] g(2) by (simp add: material_at_def)
  have cells: "[k..max D E] = k # [k + 1..max D E]" using less.prems by (simp add: upto_rec1)
  show ?case
  proof (cases "k_c_nm_per_ns (material_at g ?p) = 0")
    case True
    then show ?thesis using idx mat cells by (subst segment_loop.simps) (simp add: Let_def)
  next
    case open_cell: False
    let ?d = "delay + cell_nm g div k_c_nm_per_ns (material_at g ?p)"
    show ?thesis
    proof (cases "k = max D E")
      case True
      then have "?p = (x1, y1)" by (simp add: D_def E_def line_point_end)
      then show ?thesis using idx mat cells open_cell True
        by (subst segment_loop.simps) (simp add: Let_def)
    next
      case False
      with less.prems have k: "k < max D E" "0 \<le> k" by auto
      have DE: "0 \<le> D" "0 \<le> E" by (simp_all add: D_def E_def)
      have "?p \<noteq> (x1, y1)" using line_point_not_end k by (simp add: D_def E_def)
      then have not_end: "\<not> (fst ?p = x1 \<and> snd ?p = y1)" by (auto simp: prod_eq_iff)
      note step = line_step [OF DE k(2) k(1)]
      have fx: "fst (?P (k + 1)) = (if ?e * 2 \<ge> - E then fst ?p + sx else fst ?p)"
        using step(1) by (auto simp: line_point_def D_def E_def sx_def Let_def)
      have fy: "snd (?P (k + 1)) = (if ?e * 2 \<le> D then snd ?p + sy else snd ?p)"
        using step(2) by (auto simp: line_point_def D_def E_def sy_def Let_def)
      have "segment_loop g cs D (- E) sx sy x1 y1 (fst ?p) (snd ?p) ?e delay =
            segment_loop g cs D (- E) sx sy x1 y1 (fst (?P (k + 1))) (snd (?P (k + 1)))
              (line_err D E (k + 1)) ?d"
        unfolding fx fy step(3)
        using idx mat open_cell not_end by (subst segment_loop.simps) (auto simp: Let_def)
      also have "\<dots> = Some (walk_cells g (map ?P [k + 1..max D E]) ?d)"
        using less.prems k by (intro less.hyps) auto
      also have "\<dots> = Some (walk_cells g (map ?P [k..max D E]) delay)"
        using open_cell by (simp add: cells)
      finally show ?thesis .
    qed
  qed
qed

lemma segment_delay_line:
  assumes "grid_inv g" "cells g = Some cs" "on_map g x0 y0" "on_map g x1 y1"
  shows "segment_delay g cs x0 y0 x1 y1 = Some (walk_cells g (line_cells x0 y0 x1 y1) 0)"
proof -
  let ?D = "\<bar>x1 - x0\<bar>" and ?E = "\<bar>y1 - y0\<bar>"
  have err: "line_err ?D ?E 0 = ?D - ?E" by (simp add: line_err_def line_offset_0)
  have "segment_delay g cs x0 y0 x1 y1 =
    segment_loop g cs ?D (- ?E) (if x0 < x1 then 1 else -1) (if y0 < y1 then 1 else -1) x1 y1
      (fst (line_point x0 y0 x1 y1 0)) (snd (line_point x0 y0 x1 y1 0)) (line_err ?D ?E 0) 0"
    by (auto simp: segment_delay_def Let_def err line_point_0 algebra_simps)
  also have "\<dots> = Some (walk_cells g (line_cells x0 y0 x1 y1) 0)"
    unfolding line_cells_def using assms by (intro segment_loop_line) auto
  finally show ?thesis .
qed

lemma speed_air: "k_c_nm_per_ns m = 0 \<longleftrightarrow> m \<noteq> MATERIAL_AIR"
  by (cases m) auto

lemma walk_cells_air:
  "walk_cells g ps delay =
     (if \<forall>p \<in> set ps. material_at g p = MATERIAL_AIR
      then Reached (delay + of_nat (length ps) * (cell_nm g div 300)) else Blocked)"
  by (induction g ps delay rule: walk_cells.induct) (auto simp: speed_air algebra_simps)

lemma length_line_cells:
  "length (line_cells x0 y0 x1 y1) = nat (max \<bar>x1 - x0\<bar> \<bar>y1 - y0\<bar>) + 1"
  by (simp add: line_cells_def)

section \<open>From positions to cells\<close>

lemma word_diff_exact:
  fixes x b :: i64
  assumes "\<not> x <s b"
  shows "uint (x - b) = sint x - sint b"
proof -
  have le: "sint b \<le> sint x" using assms by (simp add: word_sless_alt)
  have bounds: "- (2 ^ 63) \<le> sint b" "sint x < 2 ^ 63"
    using sint_range_size [of b] sint_range_size [of x] by (simp_all add: word_size)
  have "uint (x - b) = (sint x - sint b) mod 2 ^ 64"
  proof -
    have "x - b = word_of_int (sint x - sint b)" by simp
    then have "uint (x - b) = uint (word_of_int (sint x - sint b) :: i64)" by (rule arg_cong)
    then show ?thesis by (simp only: uint_word_of_int) simp
  qed
  with le bounds show ?thesis by (simp add: mod_pos_pos_trivial)
qed

text \<open>The cell of a position, over the integers.\<close>

definition cell_spec :: "medium_grid \<Rightarrow> i64 \<Rightarrow> i64 \<Rightarrow> (int \<times> int) option" where
  "cell_spec g x y =
     (let cx = (sint x - sint (origin_x_nm g)) div uint (cell_nm g);
          cy = (sint y - sint (origin_y_nm g)) div uint (cell_nm g) in
      if sint x < sint (origin_x_nm g) \<or> sint y < sint (origin_y_nm g) \<or>
         cx \<ge> uint (nx g) \<or> cy \<ge> uint (ny g)
      then None else Some (cx, cy))"

lemma sint_small:
  assumes "unat w \<le> 2 ^ 62" "v < w"
  shows "sint v = uint (v :: u64)"
proof -
  have "unat v < 2 ^ 62" using assms by (simp add: word_less_nat_alt)
  moreover have "uint v = int (unat v)" by (rule uint_nat)
  ultimately have "uint v < int (2 ^ 62)" by (simp only: of_nat_less_iff)
  then have "uint v < 2 ^ 63" by simp
  moreover have "0 \<le> uint v" by simp
  ultimately have "- (2 ^ 63) \<le> uint v" "uint v < 2 ^ 63" by linarith+
  then show ?thesis by (simp add: sint_uint signed_take_bit_int_eq_self)
qed

lemma cell_of_spec:
  assumes "grid_inv g"
  shows "cell_of g x y = cell_spec g x y"
proof (cases "x <s origin_x_nm g \<or> y <s origin_y_nm g")
  case True
  then show ?thesis by (auto simp: cell_of_def cell_spec_def Let_def word_sless_alt)
next
  case False
  let ?ux = "(x - origin_x_nm g) div cell_nm g" and ?uy = "(y - origin_y_nm g) div cell_nm g"
  have u: "uint ?ux = (sint x - sint (origin_x_nm g)) div uint (cell_nm g)"
    "uint ?uy = (sint y - sint (origin_y_nm g)) div uint (cell_nm g)"
    using False by (simp_all add: uint_div word_diff_exact)
  have le: "sint (origin_x_nm g) \<le> sint x" "sint (origin_y_nm g) \<le> sint y"
    using False by (simp_all add: word_sless_alt)
  note small = sint_small [OF grid_size_bounds(1) [OF assms]] sint_small [OF grid_size_bounds(2) [OF assms]]
  show ?thesis
    using False le small [of ?ux] small [of ?uy]
    by (auto simp: cell_of_def cell_spec_def Let_def u word_le_def word_less_def not_le)
qed

lemma cell_spec_on_map:
  assumes "cell_spec g x y = Some (cx, cy)" "cell_nm g \<noteq> 0"
  shows "on_map g cx cy"
proof -
  have "0 < uint (cell_nm g)" using assms(2) by (simp add: word_neq_0_conv word_less_def)
  with assms(1) show ?thesis
    by (auto simp: cell_spec_def on_map_def Let_def pos_imp_zdiv_nonneg_iff split: if_splits)
qed

section \<open>The verdict in closed form\<close>

text \<open>
  \<open>a\<close> hears \<open>b\<close>: within range in the Euclidean metric, both on the map, and nothing but air
  on the line of cells from \<open>a\<close> to \<open>b\<close>.
\<close>

definition in_range :: "radio_params \<Rightarrow> i64 \<times> i64 \<Rightarrow> i64 \<times> i64 \<Rightarrow> bool" where
  "in_range p a b =
     (range_nm p \<le> INT64_MAX \<and>
      (sint (fst b) - sint (fst a))\<^sup>2 + (sint (snd b) - sint (snd a))\<^sup>2 \<le> (uint (range_nm p))\<^sup>2)"

definition path_cells :: "medium_grid \<Rightarrow> i64 \<times> i64 \<Rightarrow> i64 \<times> i64 \<Rightarrow> (int \<times> int) list option" where
  "path_cells g a b =
     (case (cell_spec g (fst a) (snd a), cell_spec g (fst b) (snd b)) of
        (Some (ax, ay), Some (bx, by')) \<Rightarrow> Some (line_cells ax ay bx by')
      | _ \<Rightarrow> None)"

definition hears :: "medium_grid \<Rightarrow> radio_params \<Rightarrow> i64 \<times> i64 \<Rightarrow> i64 \<times> i64 \<Rightarrow> bool" where
  "hears g p a b =
     (in_range p a b \<and>
      (case path_cells g a b of
         None \<Rightarrow> False
       | Some ps \<Rightarrow> \<forall>c \<in> set ps. material_at g c = MATERIAL_AIR))"

definition path_delay :: "medium_grid \<Rightarrow> i64 \<times> i64 \<Rightarrow> i64 \<times> i64 \<Rightarrow> u64" where
  "path_delay g a b =
     (if a = b then 0
      else of_nat (length (the (path_cells g a b))) * (cell_nm g div 300))"

lemma range_guard:
  fixes dx dy r :: int
  assumes "0 \<le> r" "dx\<^sup>2 + dy\<^sup>2 \<le> r\<^sup>2"
  shows "\<bar>dx\<bar> \<le> r" "\<bar>dy\<bar> \<le> r"
proof -
  have "dx\<^sup>2 \<le> r\<^sup>2" "dy\<^sup>2 \<le> r\<^sup>2" using assms(2) zero_le_power2 [of dx] zero_le_power2 [of dy] by linarith+
  with assms(1) show "\<bar>dx\<bar> \<le> r" "\<bar>dy\<bar> \<le> r" by (simp_all add: abs_le_square_iff [symmetric])
qed

lemma abs_if_square: "(if d < 0 then - d else d) * (if d < 0 then - d else d) = (d :: int)\<^sup>2"
  by (simp add: power2_eq_square)

lemma abs_if_eq: "(if d < 0 then - d else d) = \<bar>d :: int\<bar>"
  by simp

lemma sint_inj: "sint a = sint b \<Longrightarrow> a = (b :: i64)"
  by (rule signed_word_eqI)

lemma zero_distance:
  "(sint (fst b) - sint (fst a))\<^sup>2 + (sint (snd b) - sint (snd a))\<^sup>2 = 0 \<longleftrightarrow> a = (b :: i64 \<times> i64)"
  by (auto simp: sum_power2_eq_zero_iff prod_eq_iff intro: sint_inj [symmetric])

lemma radio_path_eq:
  assumes g: "grid_inv g"
  shows "radio_path (Some g) (Some p) ax ay bx by' (Some r) =
    Some (if hears g p (ax, ay) (bx, by')
          then (True, Some \<lparr>reachable = True, delay_ns = path_delay g (ax, ay) (bx, by')\<rparr>)
          else (False, Some \<lparr>reachable = False, delay_ns = 0\<rparr>))"
proof -
  obtain cs where cs: "cells g = Some cs" and cell: "cell_nm g \<noteq> 0"
    using g by (auto simp: grid_inv_def)
  let ?dx = "sint bx - sint ax" and ?dy = "sint by' - sint ay" and ?R = "uint (range_nm p)"
  show ?thesis
  proof (cases "in_range p (ax, ay) (bx, by')")
    case False
    then have "range_nm p > INT64_MAX \<or> ?dx\<^sup>2 + ?dy\<^sup>2 > ?R\<^sup>2" by (auto simp: in_range_def not_le)
    then show ?thesis using False cs cell
      by (auto simp: radio_path_def hears_def blocked_def Let_def abs_if_square abs_if_eq power2_eq_square)
  next
    case True
    then have R: "\<not> range_nm p > INT64_MAX" "\<not> ?dx\<^sup>2 + ?dy\<^sup>2 > ?R\<^sup>2"
      by (auto simp: in_range_def not_less)
    then have near: "\<not> (\<bar>?dx\<bar> > ?R \<or> \<bar>?dy\<bar> > ?R)"
      using range_guard [of ?R ?dx ?dy] by auto
    have zero: "?dx\<^sup>2 + ?dy\<^sup>2 = 0 \<longleftrightarrow> (ax, ay) = (bx, by')"
      using zero_distance [where a = "(ax, ay)" and b = "(bx, by')"] by simp
    note simps = radio_path_def Let_def abs_if_square abs_if_eq cell_of_spec [OF g] blocked_def
      hears_def path_delay_def path_cells_def
    have guards: "\<not> \<bar>?dx\<bar> > ?R" "\<not> \<bar>?dy\<bar> > ?R" using near by auto
    show ?thesis
    proof (cases "cell_spec g ax ay")
      case None
      with True cs cell R guards show ?thesis by (simp add: simps flip: power2_eq_square)
    next
      case (Some ca)
      show ?thesis
      proof (cases "cell_spec g bx by'")
        case None
        with Some True cs cell R guards show ?thesis by (cases ca) (simp add: simps flip: power2_eq_square)
      next
        case (Some cb)
        with \<open>cell_spec g ax ay = Some ca\<close> True cs cell R guards zero show ?thesis
          by (cases ca; cases cb)
            (simp add: simps walk_cells_air segment_delay_line [OF g cs] cell_spec_on_map [OF _ cell]
              flip: power2_eq_square)
      qed
    qed
  qed
qed

lemma path_cells_length:
  "path_cells g a b = Some ps \<Longrightarrow> path_cells g b a = Some qs \<Longrightarrow> length ps = length qs"
  by (auto simp: path_cells_def length_line_cells abs_minus_commute split: option.splits)

lemma path_cells_swap: "path_cells g a b = None \<longleftrightarrow> path_cells g b a = None"
  by (auto simp: path_cells_def split: option.splits)

lemma in_range_sym: "in_range p a b \<longleftrightarrow> in_range p b a"
  by (simp add: in_range_def power2_commute)

lemma path_cells_on_map:
  assumes "grid_inv g" "path_cells g a b = Some ps" "c \<in> set ps"
  shows "on_map g (fst c) (snd c)"
proof -
  have cell: "cell_nm g \<noteq> 0" using assms(1) by (simp add: grid_inv_def)
  obtain ax ay bx by' where "cell_spec g (fst a) (snd a) = Some (ax, ay)"
    "cell_spec g (fst b) (snd b) = Some (bx, by')" and ps: "ps = line_cells ax ay bx by'"
    using assms(2) by (auto simp: path_cells_def split: option.splits)
  then have ends: "on_map g ax ay" "on_map g bx by'" using cell by (auto intro: cell_spec_on_map)
  from assms(3) obtain k where "0 \<le> k" "k \<le> max \<bar>bx - ax\<bar> \<bar>by' - ay\<bar>" "c = line_point ax ay bx by' k"
    by (auto simp: ps line_cells_def)
  with line_point_on_map [OF ends] show ?thesis by simp
qed

definition air_map :: "medium_grid \<Rightarrow> bool" where
  "air_map g = (\<forall>x y. on_map g x y \<longrightarrow> material_at g (x, y) = MATERIAL_AIR)"

lemma hears_air:
  assumes "grid_inv g" "air_map g"
  shows "hears g p a b \<longleftrightarrow> in_range p a b \<and> path_cells g a b \<noteq> None"
  using assms path_cells_on_map [OF assms(1), of a b]
  by (fastforce simp: hears_def air_map_def split: option.splits)

lemma radio_squares_fit:
  assumes "range_nm p \<le> INT64_MAX" "\<bar>dx\<bar> \<le> uint (range_nm p)" "\<bar>dy\<bar> \<le> uint (range_nm p)"
  shows "dx * dx + dy * dy < 2 ^ 127"
proof -
  have r: "uint (range_nm p) \<le> 2 ^ 63 - 1" using assms(1) by (simp add: word_le_def INT64_MAX_def)
  have "dx * dx \<le> (2 ^ 63 - 1) * (2 ^ 63 - 1)" if "\<bar>dx\<bar> \<le> uint (range_nm p)" for dx
  proof -
    have "\<bar>dx\<bar> * \<bar>dx\<bar> \<le> (2 ^ 63 - 1) * (2 ^ 63 - 1)" using that r by (intro mult_mono) auto
    then show ?thesis by simp
  qed
  from add_mono [OF this [OF assms(2)] this [OF assms(3)]] show ?thesis by simp
qed

section \<open>Properties\<close>

definition small_grid :: "material list \<Rightarrow> medium_grid" where
  "small_grid cs = \<lparr>origin_x_nm = 0, origin_y_nm = 0, cell_nm = 1000, nx = 3, ny = 2, cells = Some cs\<rparr>"

definition six :: "material \<Rightarrow> material list" where
  "six m = [m, m, m, m, m, m]"

lemma small_grid_inv: "length cs = 6 \<Longrightarrow> grid_inv (small_grid cs)"
  by (simp add: grid_inv_def small_grid_def SIZE_MAX_def sizeof_Material_def)

text \<open>
  C7. On every map the walk between two of its cells ends, reads no cell outside the map, and
  visits exactly the cells of the rounded line between them: the wave arrives exactly when
  all of these are air, after one cell crossing time for each.
\<close>

theorem segment_delay_visits_line:
  assumes "grid_inv g" "cells g = Some cs" "on_map g x0 y0" "on_map g x1 y1"
  shows "segment_delay g cs x0 y0 x1 y1 =
    Some (if \<forall>c \<in> set (line_cells x0 y0 x1 y1). material_at g c = MATERIAL_AIR
          then Reached (of_nat (length (line_cells x0 y0 x1 y1)) * (cell_nm g div 300))
          else Blocked)"
  using segment_delay_line [OF assms] by (simp add: walk_cells_air)

theorem segment_delay_visits_line_witness:
  "segment_delay (small_grid (six MATERIAL_AIR)) (six MATERIAL_AIR) 0 0 2 1 = Some (Reached 9)"
proof -
  have "\<forall>c \<in> set (line_cells 0 0 2 1). material_at (small_grid (six MATERIAL_AIR)) c = MATERIAL_AIR"
    by (simp add: line_cells_def line_point_def line_offset_def material_at_def small_grid_def upto.simps
        six_def)
  then show ?thesis
    using segment_delay_visits_line [OF small_grid_inv [of "six MATERIAL_AIR"], of "six MATERIAL_AIR" 0 0 2 1]
    by (simp add: small_grid_def on_map_def length_line_cells six_def)
qed

text \<open>
  \<open>radio_path\<close> in closed form: on a map it always returns, and its verdict and delay
  are those of the range check and of the line of cells between the two positions.
\<close>

theorem radio_path_verdict:
  assumes "grid_inv g"
  shows "radio_path (Some g) (Some p) ax ay bx by' (Some r) =
    Some (hears g p (ax, ay) (bx, by'),
          Some (if hears g p (ax, ay) (bx, by')
                then \<lparr>reachable = True, delay_ns = path_delay g (ax, ay) (bx, by')\<rparr>
                else \<lparr>reachable = False, delay_ns = 0\<rparr>))"
  using radio_path_eq [OF assms] by simp

theorem radio_path_verdict_witness:
  "radio_path (Some (small_grid (six MATERIAL_ROCK))) (Some \<lparr>range_nm = 5000\<rparr>) 0 0 0 0
     (Some \<lparr>reachable = True, delay_ns = 7\<rparr>) = Some (False, Some \<lparr>reachable = False, delay_ns = 0\<rparr>)"
  using radio_path_verdict [OF small_grid_inv [of "six MATERIAL_ROCK"],
      of "\<lparr>range_nm = 5000\<rparr>" 0 0 0 0 "\<lparr>reachable = True, delay_ns = 7\<rparr>"]
  by (simp add: hears_def path_cells_def cell_spec_def line_cells_def line_point_def line_offset_def
      material_at_def small_grid_def six_def)

text \<open>
  On a map with no obstacle hearing is mutual: both directions give the same verdict
  and the same delay.
\<close>

theorem radio_path_symmetric_air:
  assumes "grid_inv g" "air_map g"
  shows "radio_path (Some g) (Some p) ax ay bx by' (Some r) =
         radio_path (Some g) (Some p) bx by' ax ay (Some r)"
proof -
  let ?a = "(ax, ay)" and ?b = "(bx, by')"
  have same: "hears g p ?a ?b \<longleftrightarrow> hears g p ?b ?a"
    by (simp add: hears_air [OF assms] in_range_sym [of p ?a] path_cells_swap [of g ?a])
  have "path_delay g ?a ?b = path_delay g ?b ?a" if h: "hears g p ?a ?b"
  proof -
    from h same obtain ps qs where "path_cells g ?a ?b = Some ps" "path_cells g ?b ?a = Some qs"
      by (auto simp: hears_air [OF assms])
    with path_cells_length [of g ?a ?b ps qs] show ?thesis by (auto simp: path_delay_def)
  qed
  with same show ?thesis by (simp add: radio_path_eq [OF assms(1)])
qed

theorem radio_path_symmetric_air_witness:
  "radio_path (Some (small_grid (six MATERIAL_AIR))) (Some \<lparr>range_nm = 5000\<rparr>) 0 0 2500 1500
     (Some \<lparr>reachable = False, delay_ns = 0\<rparr>) =
   radio_path (Some (small_grid (six MATERIAL_AIR))) (Some \<lparr>range_nm = 5000\<rparr>) 2500 1500 0 0
     (Some \<lparr>reachable = False, delay_ns = 0\<rparr>)"
proof (rule radio_path_symmetric_air)
  show "air_map (small_grid (six MATERIAL_AIR))"
    unfolding air_map_def
  proof (intro allI impI)
    fix x y assume "on_map (small_grid (six MATERIAL_AIR)) x y"
    then have "nat x < 3" "nat y < 2" by (auto simp: on_map_def small_grid_def)
    then have "nat y * 3 + nat x < 6" by linarith
    moreover have "six MATERIAL_AIR = replicate 6 MATERIAL_AIR" by (simp add: six_def numeral_eq_Suc)
    ultimately show "material_at (small_grid (six MATERIAL_AIR)) (x, y) = MATERIAL_AIR"
      by (simp add: material_at_def small_grid_def)
  qed
qed (simp add: small_grid_inv six_def)

text \<open>
  With an obstacle hearing need not be mutual: the line is rounded from its first cell,
  so a rock in cell (1, 1) of a three by two map blocks the way from (0, 0) to (2, 1) but
  not the way back.
\<close>

theorem radio_path_one_way:
  "\<exists>g p. grid_inv g \<and>
     radio_path (Some g) (Some p) 0 0 2500 1500 (Some \<lparr>reachable = False, delay_ns = 0\<rparr>) =
       Some (False, Some \<lparr>reachable = False, delay_ns = 0\<rparr>) \<and>
     radio_path (Some g) (Some p) 2500 1500 0 0 (Some \<lparr>reachable = False, delay_ns = 0\<rparr>) =
       Some (True, Some \<lparr>reachable = True, delay_ns = 9\<rparr>)"
proof -
  let ?cs = "[MATERIAL_AIR, MATERIAL_AIR, MATERIAL_AIR, MATERIAL_AIR, MATERIAL_ROCK, MATERIAL_AIR]"
  let ?g = "small_grid ?cs" and ?p = "\<lparr>range_nm = 5000\<rparr>"
  have inv: "grid_inv ?g" by (simp add: small_grid_inv)
  note eval = hears_def in_range_def path_cells_def path_delay_def cell_spec_def line_cells_def
    line_point_def line_offset_def material_at_def small_grid_def INT64_MAX_def upto.simps
  have "\<not> hears ?g ?p (0, 0) (2500, 1500)" by (simp add: eval)
  moreover have "hears ?g ?p (2500, 1500) (0, 0)" by (simp add: eval)
  moreover have "path_delay ?g (2500, 1500) (0, 0) = 9" by (simp add: eval)
  ultimately show ?thesis using inv radio_path_eq [OF inv] by fastforce
qed

end
