(* ===== verification/Sim_Context.thy ===== *)
theory Sim_Context
  imports Rng Event_Heap Node_List Radio_World
begin

text \<open>
  The simulation context \<open>shared/context.c\<close>: the clock, the event queue, the generator, the
  node list, the map and the UDP listeners, with the operations on them and the event loop.

  The event loop itself (\<open>context_run\<close>) is in \<open>Event_Loop\<close>, after the UDP layer whose
  dispatcher it can call. An allocation may fail at every call, so the operations return the
  context they leave behind in both cases; \<open>enqueue_spec\<close> and the lemmas on adding and
  removing nodes say what that context is.
\<close>

section \<open>State\<close>

record udp_bind =
  bind_node_id :: u64
  bind_port :: u16
  bind_cb :: nat

record sim_context =
  clock :: u64
  heap :: "min_heap ptr"
  rng :: rng_state
  next_seq :: u64
  next_node_id :: u64
  node_tab :: node_list
  grid :: medium_grid
  radio :: radio_params
  udp_binds :: "udp_bind list"

definition DEFAULT_CELL_NM :: u64 where
  "DEFAULT_CELL_NM = 1000000000"

definition DEFAULT_GRID_N :: u64 where
  "DEFAULT_GRID_N = 8"

definition DEFAULT_RANGE_NM :: u64 where
  "DEFAULT_RANGE_NM = 2500000000"

section \<open>Operations\<close>

definition context_init ::
  "allocator \<Rightarrow> sim_context ptr \<Rightarrow> nat \<Rightarrow> u64 \<Rightarrow> bool \<times> sim_context ptr" where
  "context_init alloc cp heap_capacity seed =
     (case cp of
        None \<Rightarrow> (False, None)
      | Some c \<Rightarrow>
          let c = c\<lparr>clock := 0, next_seq := 0, next_node_id := 0,
                   node_tab := \<lparr>nodes = [], ncap = 0, nblock = 0, by_id = [], iblock = 0\<rparr>,
                   grid := (grid c)\<lparr>cells := None\<rparr>,
                   radio := \<lparr>range_nm = DEFAULT_RANGE_NM\<rparr>, udp_binds := [],
                   heap := heap_create alloc heap_capacity\<rparr> in
          if heap c = None then (False, Some c)
          else
            (case nodelist_init alloc (Some (node_tab c)) 8 of
               (False, _) \<Rightarrow> (False, Some (c\<lparr>heap := None\<rparr>))
             | (True, None) \<Rightarrow> (False, Some c)
             | (True, Some l) \<Rightarrow>
                 let c = c\<lparr>node_tab := l\<rparr> in
                 (case mediumgrid_init alloc (Some (grid c)) 0 0 DEFAULT_CELL_NM
                         DEFAULT_GRID_N DEFAULT_GRID_N MATERIAL_AIR of
                    (True, Some g) \<Rightarrow>
                      let c = c\<lparr>grid := g\<rparr> in
                      (True, Some (c\<lparr>rng := rng_seed seed\<rparr>))
                  | _ \<Rightarrow>
                      (case nodelist_free (Some (node_tab c)) of
                         (_, Some l) \<Rightarrow> (False, Some (c\<lparr>node_tab := l, heap := None\<rparr>))
                       | (_, None) \<Rightarrow> (False, Some c)))))"

text \<open>The emptying loop of \<open>context_free\<close>: the events whose payload it frees, in order.\<close>

function drain_events :: "min_heap \<Rightarrow> event list" where
  "drain_events h =
     (case heap_deq h of None \<Rightarrow> [] | Some (e, h') \<Rightarrow> e # drain_events h')"
  by pat_completeness auto
termination
proof (relation "measure (\<lambda>h. size (pending h))")
  fix h r e h'
  assume "heap_deq h = Some r" "(e, h') = r"
  then show "(h', h) \<in> measure (\<lambda>h. size (pending h))"
    by (auto simp: heap_deq_Some dest!: heap_pop_pending)
qed simp

declare drain_events.simps [simp del]

definition context_free :: "sim_context ptr \<Rightarrow> event list \<times> sim_context ptr" where
  "context_free cp =
     (case cp of
        None \<Rightarrow> ([], None)
      | Some c \<Rightarrow>
          let freed = (case heap c of None \<Rightarrow> [] | Some h \<Rightarrow> drain_events h);
              c = c\<lparr>heap := None\<rparr>;
              c = (case nodelist_free (Some (node_tab c)) of
                     (_, Some l) \<Rightarrow> c\<lparr>node_tab := l\<rparr> | (_, None) \<Rightarrow> c);
              c = (case mediumgrid_free (Some (grid c)) of
                     (_, Some g) \<Rightarrow> c\<lparr>grid := g\<rparr> | (_, None) \<Rightarrow> c)
          in (freed, Some c))"

definition context_add_node ::
  "allocator \<Rightarrow> sim_context ptr \<Rightarrow> i64 \<Rightarrow> i64 \<Rightarrow> i64 \<Rightarrow> i64 \<Rightarrow> u64 ptr \<Rightarrow>
   bool \<times> sim_context ptr \<times> u64 ptr" where
  "context_add_node alloc cp x y vx vy out_id =
     (case cp of
        None \<Rightarrow> (False, None, out_id)
      | Some c \<Rightarrow>
          let n = \<lparr>nid = next_node_id c, x_nm = x, y_nm = y, vx_nm_per_ns = vx, vy_nm_per_ns = vy\<rparr> in
          (case nodelist_push alloc (Some (node_tab c)) n of
             (True, Some l) \<Rightarrow>
               let out_id = map_option (\<lambda>_. nid n) out_id in
               (True, Some (c\<lparr>node_tab := l, next_node_id := next_node_id c + 1\<rparr>), out_id)
           | (_, Some l) \<Rightarrow> (False, Some (c\<lparr>node_tab := l\<rparr>), out_id)
           | (_, None) \<Rightarrow> (False, Some c, out_id)))"

definition context_find_node :: "sim_context ptr \<Rightarrow> u64 \<Rightarrow> nat ptr" where
  "context_find_node cp ident =
     (case cp of None \<Rightarrow> None | Some c \<Rightarrow> nodelist_find (Some (node_tab c)) ident)"

definition context_remove_node :: "sim_context ptr \<Rightarrow> u64 \<Rightarrow> bool \<times> sim_context ptr" where
  "context_remove_node cp ident =
     (case cp of
        None \<Rightarrow> (False, None)
      | Some c \<Rightarrow>
          (case nodelist_remove_by_id (Some (node_tab c)) ident of
             (ok, Some l) \<Rightarrow> (ok, Some (c\<lparr>node_tab := l\<rparr>))
           | (ok, None) \<Rightarrow> (ok, Some c)))"

definition enqueue ::
  "allocator \<Rightarrow> sim_context ptr \<Rightarrow> u64 \<Rightarrow> callback ptr \<Rightarrow> u8 list ptr \<Rightarrow> u64 \<Rightarrow> u64 \<Rightarrow> u64 \<Rightarrow>
   u16 \<Rightarrow> u16 \<Rightarrow> bool \<times> sim_context ptr" where
  "enqueue alloc cp t cb buf len from to sport dport =
     (case cp of
        None \<Rightarrow> (False, None)
      | Some c \<Rightarrow>
          (case (heap c, cb) of
             (Some h, Some f) \<Rightarrow>
               if t < clock c then (False, Some c)
               else if len > 0 \<and> buf = None then (False, Some c)
               else if len > 0 \<and> \<not> alloc Event_Payload (unat len) then (False, Some c)
               else
                 let copy = (if len > 0 then map_option (take (unat len)) buf else None);
                     ev = \<lparr>executed_at = t, callback_func = f, sequence_number = next_seq c,
                           payload = copy, payload_len = len, from_id = from, to_id = to,
                           src_port = sport, dst_port = dport\<rparr> in
                 (case heap_push alloc (Some h) ev of
                    (True, hp) \<Rightarrow> (True, Some (c\<lparr>heap := hp, next_seq := next_seq c + 1\<rparr>))
                  | (False, hp) \<Rightarrow> (False, Some (c\<lparr>heap := hp\<rparr>)))
           | _ \<Rightarrow> (False, Some c)))"

definition context_schedule ::
  "allocator \<Rightarrow> sim_context ptr \<Rightarrow> u64 \<Rightarrow> callback ptr \<Rightarrow> u64 \<Rightarrow> bool \<times> sim_context ptr" where
  "context_schedule alloc cp ns cb to = enqueue alloc cp ns cb None 0 0 to 0 0"

definition context_enqueue ::
  "allocator \<Rightarrow> sim_context ptr \<Rightarrow> u64 \<Rightarrow> callback ptr \<Rightarrow> u8 list ptr \<Rightarrow> u64 \<Rightarrow> u64 \<Rightarrow> u64 \<Rightarrow>
   u16 \<Rightarrow> u16 \<Rightarrow> bool \<times> sim_context ptr" where
  "context_enqueue alloc cp t cb buf len from to sport dport =
     enqueue alloc cp t cb buf len from to sport dport"

text \<open>
  The radio verdict for two node slots, as \<open>context_send\<close> and \<open>udp_send\<close> ask for it
  (\<open>RadioPath path;\<close> on the stack, then \<open>radio_path(...)\<close>). The undefined case is a blocked
  one here; \<open>radio_path_verdict\<close> shows that it never occurs on a map.
\<close>

definition path_between :: "sim_context \<Rightarrow> nat \<Rightarrow> nat \<Rightarrow> u64 option" where
  "path_between c from to =
     (let a = nodes (node_tab c) ! from; b = nodes (node_tab c) ! to in
      case radio_path (Some (grid c)) (Some (radio c)) (x_nm a) (y_nm a) (x_nm b) (y_nm b)
             (Some \<lparr>reachable = False, delay_ns = 0\<rparr>) of
        Some (True, Some path) \<Rightarrow> Some (delay_ns path)
      | _ \<Rightarrow> None)"

definition context_send ::
  "allocator \<Rightarrow> sim_context ptr \<Rightarrow> u64 \<Rightarrow> u64 \<Rightarrow> u8 list ptr \<Rightarrow> u64 \<Rightarrow> callback ptr \<Rightarrow>
   bool \<times> sim_context ptr" where
  "context_send alloc cp from_i to_i buf len on_recv =
     (case (cp, on_recv) of
        (Some c, Some _) \<Rightarrow>
          (case (context_find_node cp from_i, context_find_node cp to_i) of
             (Some from, Some to) \<Rightarrow>
               (case path_between c from to of
                  None \<Rightarrow> (False, cp)
                | Some delay \<Rightarrow>
                    let arrive = clock c + delay in
                    enqueue alloc cp arrive on_recv buf len from_i to_i 0 0)
           | _ \<Rightarrow> (False, cp))
      | _ \<Rightarrow> (False, cp))"

section \<open>Invariant\<close>

definition queue_inv :: "sim_context \<Rightarrow> bool" where
  "queue_inv c =
     (case heap c of
        None \<Rightarrow> False
      | Some h \<Rightarrow>
          heap_inv h \<and> distinct (map sequence_number (data h)) \<and>
          (\<forall>e \<in># pending h. clock c \<le> executed_at e \<and> sequence_number e < next_seq c))"

definition nodes_inv :: "sim_context \<Rightarrow> bool" where
  "nodes_inv c =
     (nl_inv (node_tab c) \<and> (\<forall>n \<in> set (nodes (node_tab c)). nid n < next_node_id c))"

definition binds_inv :: "sim_context \<Rightarrow> bool" where
  "binds_inv c =
     (length (udp_binds c) \<le> 16 \<and>
      distinct (map (\<lambda>b. (bind_node_id b, bind_port b)) (udp_binds c)))"

definition ctx_inv :: "sim_context \<Rightarrow> bool" where
  "ctx_inv c = (queue_inv c \<and> nodes_inv c \<and> grid_inv (grid c) \<and> binds_inv c)"

abbreviation queued :: "sim_context \<Rightarrow> event multiset" where
  "queued c \<equiv> (case heap c of None \<Rightarrow> {#} | Some h \<Rightarrow> pending h)"

lemma queue_invE:
  assumes "queue_inv c"
  obtains h where "heap c = Some h" "heap_inv h" "distinct (map sequence_number (data h))"
    "\<And>e. e \<in># pending h \<Longrightarrow> clock c \<le> executed_at e"
    "\<And>e. e \<in># pending h \<Longrightarrow> sequence_number e < next_seq c"
  using assms by (auto simp: queue_inv_def split: option.splits)

lemma context_init_inv:
  assumes "context_init alloc (Some c0) cap seed = (True, Some c)" "cap \<le> SIZE_MAX div sizeof_Event"
  shows "ctx_inv c \<and> queued c = {#} \<and> nodes (node_tab c) = [] \<and> rng c = rng_seed seed"
proof -
  obtain h where h: "heap_create alloc cap = Some h" and hc: "heap c = Some h"
    using assms(1) by (auto simp: context_init_def Let_def split: if_splits prod.splits bool.splits option.splits)
  obtain l g where l: "nodelist_init alloc (Some \<lparr>nodes = [], ncap = 0, nblock = 0, by_id = [], iblock = 0\<rparr>) 8 = (True, Some l)"
    and g: "mediumgrid_init alloc (Some ((grid c0)\<lparr>cells := None\<rparr>)) 0 0 DEFAULT_CELL_NM
      DEFAULT_GRID_N DEFAULT_GRID_N MATERIAL_AIR = (True, Some g)"
    and c: "node_tab c = l" "grid c = g" "udp_binds c = []" "rng c = rng_seed seed"
    using assms(1) by (auto simp: context_init_def Let_def split: if_splits prod.splits bool.splits option.splits)
  have "heap_inv h \<and> pending h = {#}" using h assms(2) by (rule heap_create_inv)
  moreover have "nl_inv l \<and> nodes l = []"
    using l by (auto simp: nodelist_init_def Let_def nl_inv_def nl_safe_def nl_linked_def size_mul_def
        sizeof_Node_def sizeof_size_t_def SIZE_MAX_def split: if_splits)
  moreover have "grid_inv g" using mediumgrid_init_inv [OF g] by blast
  ultimately show ?thesis
    by (simp add: ctx_inv_def queue_inv_def nodes_inv_def binds_inv_def hc c pending_def)
qed

section \<open>Enqueueing\<close>

text \<open>The event \<open>enqueue\<close> builds, with its own copy of the payload.\<close>

definition event_for ::
  "sim_context \<Rightarrow> u64 \<Rightarrow> callback \<Rightarrow> u8 list ptr \<Rightarrow> u64 \<Rightarrow> u64 \<Rightarrow> u64 \<Rightarrow> u16 \<Rightarrow> u16 \<Rightarrow> event" where
  "event_for c t f buf len from to sport dport =
     \<lparr>executed_at = t, callback_func = f, sequence_number = next_seq c,
      payload = (if len > 0 then map_option (take (unat len)) buf else None),
      payload_len = len, from_id = from, to_id = to, src_port = sport, dst_port = dport\<rparr>"

text \<open>The arguments \<open>enqueue\<close> accepts, memory aside.\<close>

definition may_enqueue :: "sim_context \<Rightarrow> u64 \<Rightarrow> callback ptr \<Rightarrow> u8 list ptr \<Rightarrow> u64 \<Rightarrow> bool" where
  "may_enqueue c t cb buf len =
     (heap c \<noteq> None \<and> cb \<noteq> None \<and> clock c \<le> t \<and> (len > 0 \<longrightarrow> buf \<noteq> None))"

lemma enqueue_cases:
  "enqueue alloc (Some c) t cb buf len from to sport dport =
     (if may_enqueue c t cb buf len \<and> (len > 0 \<longrightarrow> alloc Event_Payload (unat len)) then
        (case heap_push alloc (heap c) (event_for c t (the cb) buf len from to sport dport) of
           (True, hp) \<Rightarrow> (True, Some (c\<lparr>heap := hp, next_seq := next_seq c + 1\<rparr>))
         | (False, hp) \<Rightarrow> (False, Some (c\<lparr>heap := hp\<rparr>)))
      else (False, Some c))"
  by (auto simp: enqueue_def may_enqueue_def event_for_def Let_def split: option.splits)

lemma enqueue_True:
  assumes "enqueue alloc (Some c) t cb buf len from to sport dport = (True, cp)"
  obtains h h' f where "heap c = Some h" "cb = Some f" "may_enqueue c t cb buf len"
    "heap_push alloc (Some h) (event_for c t f buf len from to sport dport) = (True, Some h')"
    "cp = Some (c\<lparr>heap := Some h', next_seq := next_seq c + 1\<rparr>)"
proof -
  from assms have m: "may_enqueue c t cb buf len" by (auto simp: enqueue_cases split: if_splits)
  then obtain h f where hf: "heap c = Some h" "cb = Some f" by (auto simp: may_enqueue_def)
  obtain ok h' where "heap_push alloc (Some h) (event_for c t f buf len from to sport dport) = (ok, Some h')"
    using heap_push_live by blast
  with assms m hf that show thesis by (cases ok) (auto simp: enqueue_cases split: if_splits)
qed

lemma enqueue_False:
  assumes "enqueue alloc (Some c) t cb buf len from to sport dport = (False, cp)"
  shows "cp = Some c"
proof (cases "heap c")
  case None
  with assms show ?thesis by (auto simp: enqueue_cases may_enqueue_def)
next
  case (Some h)
  obtain ok h' where "heap_push alloc (Some h) (event_for c t (the cb) buf len from to sport dport) = (ok, Some h')"
    using heap_push_live by blast
  with assms Some show ?thesis
    by (cases ok) (auto simp: enqueue_cases dest: heap_push_refused split: if_splits)
qed

lemma enqueue_live: "\<exists>ok c'. enqueue alloc (Some c) t cb buf len from to sport dport = (ok, Some c')"
  using enqueue_True enqueue_False
  by (metis (full_types) prod.exhaust)

lemma enqueue_queued:
  assumes "enqueue alloc (Some c) t cb buf len from to sport dport = (True, Some c')"
  shows "queued c' = add_mset (event_for c t (the cb) buf len from to sport dport) (queued c)"
  using assms by (rule enqueue_True) (auto dest: heap_push_pending)

lemma enqueue_frame:
  assumes "enqueue alloc (Some c) t cb buf len from to sport dport = (ok, Some c')"
  shows "clock c' = clock c \<and> node_tab c' = node_tab c \<and> grid c' = grid c \<and> radio c' = radio c \<and>
    udp_binds c' = udp_binds c \<and> rng c' = rng c \<and> next_node_id c' = next_node_id c"
proof (cases ok)
  case True
  with assms have "enqueue alloc (Some c) t cb buf len from to sport dport = (True, Some c')" by simp
  then show ?thesis by (rule enqueue_True) auto
next
  case False
  with assms have "c' = c" by (auto dest: enqueue_False)
  then show ?thesis by simp
qed

lemma seq_less_succ:
  fixes s n :: u64
  assumes "n \<noteq> UINT64_MAX"
  shows "s < n + 1 \<longleftrightarrow> s < n \<or> s = n" "unat (n + 1) = Suc (unat n)"
proof -
  have "(UINT64_MAX :: u64) = - 1" by (simp add: UINT64_MAX_def word_unat_eq_iff unsigned_minus_1_eq_mask mask_eq_exp_minus_1)
  then have "n \<noteq> - 1" using assms by simp
  then show succ: "unat (n + 1) = Suc (unat n)"
    by (metis add.commute add.right_neutral add_diff_cancel_left' diff_0 eq_neg_iff_add_eq_0 unatSuc)
  show "s < n + 1 \<longleftrightarrow> s < n \<or> s = n"
    by (auto simp: word_less_nat_alt succ less_Suc_eq word_unat_eq_iff)
qed

lemma enqueue_queue_inv:
  assumes inv: "queue_inv c" and seq: "next_seq c \<noteq> UINT64_MAX"
    and enq: "enqueue alloc (Some c) t cb buf len from to sport dport = (ok, Some c')"
  shows "queue_inv c'"
proof (cases ok)
  case False
  with enq have "c' = c" by (auto dest: enqueue_False)
  with inv show ?thesis by simp
next
  case True
  with enq have "enqueue alloc (Some c) t cb buf len from to sport dport = (True, Some c')" by simp
  then obtain h h' f where h: "heap c = Some h" and m: "may_enqueue c t cb buf len"
    and push: "heap_push alloc (Some h) (event_for c t f buf len from to sport dport) = (True, Some h')"
    and c': "c' = c\<lparr>heap := Some h', next_seq := next_seq c + 1\<rparr>"
    by (rule enqueue_True) auto
  from inv obtain hh where "heap c = Some hh" and hi: "heap_inv hh"
    and ds: "distinct (map sequence_number (data hh))"
    and le: "\<And>e. e \<in># pending hh \<Longrightarrow> clock c \<le> executed_at e"
    and lt: "\<And>e. e \<in># pending hh \<Longrightarrow> sequence_number e < next_seq c"
    using queue_invE by blast
  with h have hh: "hh = h" by simp
  let ?e = "event_for c t f buf len from to sport dport"
  have pend: "pending h' = add_mset ?e (pending h)" using heap_push_pending [OF push] by simp
  have "mset (map sequence_number (data h')) = mset (map sequence_number (data h @ [?e]))"
    using pend by (simp add: pending_def)
  moreover have "next_seq c \<notin> sequence_number ` set (data h)"
    using lt [unfolded pending_def] hh by (metis imageE less_irrefl set_mset_mset)
  then have "distinct (map sequence_number (data h @ [?e]))"
    using ds hh by (auto simp: event_for_def)
  ultimately have "distinct (map sequence_number (data h'))" by (metis mset_eq_imp_distinct_iff)
  moreover have "heap_inv h'" using hi push hh by (auto intro: heap_push_inv)
  ultimately show ?thesis
    using le lt hh m
    by (auto simp: queue_inv_def c' pend seq_less_succ [OF seq] event_for_def may_enqueue_def)
qed

lemma enqueue_inv [inv_intros]:
  assumes "ctx_inv c" "next_seq c \<noteq> UINT64_MAX"
    "enqueue alloc (Some c) t cb buf len from to sport dport = (ok, Some c')"
  shows "ctx_inv c'"
  using assms enqueue_queue_inv [of c] enqueue_frame [OF assms(3)]
  by (auto simp: ctx_inv_def nodes_inv_def binds_inv_def)

section \<open>Nodes\<close>

lemma context_find_node_Some:
  "ctx_inv c \<Longrightarrow> context_find_node (Some c) ident = Some i \<longleftrightarrow>
     i < length (nodes (node_tab c)) \<and> nid (nodes (node_tab c) ! i) = ident"
  by (simp add: context_find_node_def nodelist_find_Some ctx_inv_def nodes_inv_def)

lemma context_find_node_of:
  "map_option (\<lambda>i. nodes (node_tab c) ! i) (context_find_node (Some c) ident) = node_of (node_tab c) ident"
  by (simp add: context_find_node_def node_of_def)

lemma context_add_node_live:
  "\<exists>ok c' out'. context_add_node alloc (Some c) x y vx vy out = (ok, Some c', out')"
  by (auto simp: context_add_node_def Let_def split: option.splits prod.splits bool.splits)

lemma context_add_node_True:
  assumes "context_add_node alloc (Some c) x y vx vy out = (True, Some c', out')"
  obtains l where "nodelist_push alloc (Some (node_tab c))
      \<lparr>nid = next_node_id c, x_nm = x, y_nm = y, vx_nm_per_ns = vx, vy_nm_per_ns = vy\<rparr> = (True, Some l)"
    "c' = c\<lparr>node_tab := l, next_node_id := next_node_id c + 1\<rparr>"
    "out' = map_option (\<lambda>_. next_node_id c) out"
  using assms by (auto simp: context_add_node_def Let_def split: option.splits prod.splits bool.splits)

lemma context_add_node_False:
  assumes "context_add_node alloc (Some c) x y vx vy out = (False, Some c', out')"
  obtains l where "nodelist_push alloc (Some (node_tab c))
      \<lparr>nid = next_node_id c, x_nm = x, y_nm = y, vx_nm_per_ns = vx, vy_nm_per_ns = vy\<rparr> = (False, Some l)"
    "c' = c\<lparr>node_tab := l\<rparr>" "out' = out"
proof -
  let ?n = "\<lparr>nid = next_node_id c, x_nm = x, y_nm = y, vx_nm_per_ns = vx, vy_nm_per_ns = vy\<rparr>"
  obtain ok l where "nodelist_push alloc (Some (node_tab c)) ?n = (ok, Some l)"
    using nodelist_push_live by blast
  with assms that show thesis
    by (cases ok) (auto simp: context_add_node_def Let_def)
qed

lemma succ_of_small:
  fixes n :: u64
  assumes "unat n < 2 ^ 60"
  shows "n \<noteq> UINT64_MAX"
  using assms by (auto simp: UINT64_MAX_def)

lemma context_add_node_nodes_inv:
  assumes inv: "nodes_inv c" and small: "unat (next_node_id c) < 2 ^ 60"
    and add: "context_add_node alloc (Some c) x y vx vy out = (ok, Some c', out')"
  shows "nodes_inv c'"
proof (cases ok)
  case True
  with add have "context_add_node alloc (Some c) x y vx vy out = (True, Some c', out')" by simp
  then obtain l where p: "nodelist_push alloc (Some (node_tab c))
      \<lparr>nid = next_node_id c, x_nm = x, y_nm = y, vx_nm_per_ns = vx, vy_nm_per_ns = vy\<rparr> = (True, Some l)"
    and c': "c' = c\<lparr>node_tab := l, next_node_id := next_node_id c + 1\<rparr>" by (rule context_add_node_True)
  from inv have "nl_inv l" using nodelist_push_inv [OF _ _ p] small by (simp add: nodes_inv_def)
  with inv show ?thesis
    by (auto simp: nodes_inv_def c' nodelist_push_nodes [OF p] seq_less_succ [OF succ_of_small [OF small]])
next
  case False
  with add have "context_add_node alloc (Some c) x y vx vy out = (False, Some c', out')" by simp
  then obtain l where p: "nodelist_push alloc (Some (node_tab c))
      \<lparr>nid = next_node_id c, x_nm = x, y_nm = y, vx_nm_per_ns = vx, vy_nm_per_ns = vy\<rparr> = (False, Some l)"
    and c': "c' = c\<lparr>node_tab := l\<rparr>" by (rule context_add_node_False)
  from inv have "nl_inv l \<and> nodes l = nodes (node_tab c)"
    using nodelist_push_False [OF _ _ p] small by (simp add: nodes_inv_def)
  with inv show ?thesis by (simp add: nodes_inv_def c')
qed

lemma context_add_node_frame:
  assumes "context_add_node alloc (Some c) x y vx vy out = (ok, Some c', out')"
  shows "clock c' = clock c \<and> heap c' = heap c \<and> next_seq c' = next_seq c \<and> grid c' = grid c \<and>
    radio c' = radio c \<and> udp_binds c' = udp_binds c"
  using assms
  by (auto simp: context_add_node_def Let_def split: option.splits prod.splits bool.splits)

lemma context_add_node_inv [inv_intros]:
  assumes "ctx_inv c" "unat (next_node_id c) < 2 ^ 60"
    "context_add_node alloc (Some c) x y vx vy out = (ok, Some c', out')"
  shows "ctx_inv c'"
  using assms(1,2) context_add_node_nodes_inv [OF _ _ assms(3)] context_add_node_frame [OF assms(3)]
  by (auto simp: ctx_inv_def queue_inv_def binds_inv_def split: option.splits)

lemma context_remove_node_eq:
  "context_remove_node (Some c) ident = (ok, Some c') \<longleftrightarrow>
   (\<exists>l. nodelist_remove_by_id (Some (node_tab c)) ident = (ok, Some l) \<and> c' = c\<lparr>node_tab := l\<rparr>)"
  if "nl_inv (node_tab c)"
proof -
  have "snd (nodelist_remove_by_id (Some (node_tab c)) ident) \<noteq> None"
    by (simp add: nodelist_remove_by_id_def nodelist_remove_unordered_def Let_def)
  then obtain ok l where "nodelist_remove_by_id (Some (node_tab c)) ident = (ok, Some l)"
    by (cases "nodelist_remove_by_id (Some (node_tab c)) ident") auto
  then show ?thesis by (auto simp: context_remove_node_def)
qed

lemma nodelist_remove_by_id_keeps:
  assumes "nl_inv l" "nodelist_remove_by_id (Some l) ident = (ok, Some l')"
  shows "nl_inv l' \<and> set (nodes l') \<subseteq> set (nodes l)"
proof (cases "nodelist_find (Some l) ident")
  case None
  with assms show ?thesis by (auto simp: nodelist_remove_by_id_find)
next
  case (Some i)
  then have i: "i < length (nodes l)" using assms(1) by (simp add: nodelist_find_Some)
  from Some assms have r: "nodelist_remove_unordered (Some l) i = (ok, Some l')"
    by (simp add: nodelist_remove_by_id_find)
  have "set_mset (mset (nodes l')) \<subseteq> set_mset (mset (nodes l))"
    unfolding remove_unordered_mset [OF i r] by (auto dest: in_diffD)
  with nodelist_remove_unordered_inv [OF assms(1) i r] show ?thesis by simp
qed

lemma context_remove_node_inv [inv_intros]:
  assumes "ctx_inv c" "context_remove_node (Some c) ident = (ok, Some c')"
  shows "ctx_inv c'"
proof -
  have nl: "nl_inv (node_tab c)" using assms(1) by (simp add: ctx_inv_def nodes_inv_def)
  with assms(2) obtain l where r: "nodelist_remove_by_id (Some (node_tab c)) ident = (ok, Some l)"
    and c': "c' = c\<lparr>node_tab := l\<rparr>" by (auto simp: context_remove_node_eq)
  with assms(1) nodelist_remove_by_id_keeps [OF nl r] show ?thesis
    by (auto simp: ctx_inv_def nodes_inv_def queue_inv_def binds_inv_def split: option.splits)
qed

section \<open>Teardown\<close>

lemma drain_events_drains: "drains heap_deq h (drain_events h)"
proof (induction h rule: drain_events.induct)
  case (1 h)
  show ?case
    by (subst drain_events.simps) (auto intro: drains.intros 1 split: option.splits prod.splits)
qed

section \<open>Sending\<close>

text \<open>Where a node is.\<close>

definition position :: "node \<Rightarrow> i64 \<times> i64" where
  "position n = (x_nm n, y_nm n)"

lemma path_between_eq:
  assumes "grid_inv (grid c)"
  shows "path_between c i j =
    (let a = position (nodes (node_tab c) ! i); b = position (nodes (node_tab c) ! j) in
     if hears (grid c) (radio c) a b then Some (path_delay (grid c) a b) else None)"
  by (simp add: path_between_def radio_path_eq [OF assms] position_def Let_def)

text \<open>When a radio delivery between two ids can be scheduled, and for when.\<close>

definition link :: "sim_context \<Rightarrow> u64 \<Rightarrow> u64 \<Rightarrow> u64 option" where
  "link c from to =
     (case (node_of (node_tab c) from, node_of (node_tab c) to) of
        (Some a, Some b) \<Rightarrow>
          (if hears (grid c) (radio c) (position a) (position b)
           then Some (path_delay (grid c) (position a) (position b)) else None)
      | _ \<Rightarrow> None)"

lemma link_eq:
  assumes "grid_inv (grid c)"
  shows "link c from to =
    (case (context_find_node (Some c) from, context_find_node (Some c) to) of
       (Some i, Some j) \<Rightarrow> path_between c i j | _ \<Rightarrow> None)"
  by (auto simp: link_def path_between_eq [OF assms] context_find_node_def node_of_def Let_def
      split: option.splits)

text \<open>A link, an arrival time that fits the clock, a callback and a payload.\<close>

definition sendable :: "sim_context \<Rightarrow> u64 \<Rightarrow> u64 \<Rightarrow> u8 list ptr \<Rightarrow> u64 \<Rightarrow> callback ptr \<Rightarrow> bool" where
  "sendable c from to buf len cb =
     (\<exists>d. link c from to = Some d \<and> unat (clock c) + unat d < 2 ^ 64 \<and> cb \<noteq> None \<and> (len > 0 \<longrightarrow> buf \<noteq> None))"

lemma context_send_link:
  assumes "grid_inv (grid c)"
  shows "context_send alloc (Some c) from to buf len cb =
    (case link c from to of
       None \<Rightarrow> (False, Some c)
     | Some d \<Rightarrow>
         (if cb = None then (False, Some c)
          else enqueue alloc (Some c) (clock c + d) cb buf len from to 0 0))"
  by (auto simp: context_send_def link_eq [OF assms] split: option.splits)

text \<open>A sum that wraps is less than its first summand.\<close>

lemma no_wrap: "(a :: u64) \<le> a + b \<longleftrightarrow> unat a + unat b < 2 ^ 64"
  using no_olen_add_nat [of a b] by simp

text \<open>With enough memory an event that may be queued is queued.\<close>

lemma enqueue_accepts:
  assumes "ctx_inv c" "may_enqueue c t cb buf len" "\<forall>site n. alloc site n" "size (queued c) < 2 ^ 57"
  shows "fst (enqueue alloc (Some c) t cb buf len from to sport dport)"
proof -
  from assms(1) obtain h where h: "heap c = Some h" "heap_inv h"
    by (auto simp: ctx_inv_def queue_inv_def split: option.splits)
  have small: "length (data h) < 2 ^ 57" using assms(4) h by (simp add: pending_def)
  have "heap_grow alloc h \<noteq> None"
    using assms(3) h(2) small
    by (auto simp: heap_grow_def heap_inv_def heap_safe_def Let_def SIZE_MAX_def sizeof_Event_def)
  then obtain h' where
    "heap_push alloc (heap c) (event_for c t (the cb) buf len from to sport dport) = (True, Some h')"
    by (auto simp: heap_push_cases h)
  with assms(2,3) show ?thesis by (simp add: enqueue_cases)
qed

section \<open>Properties\<close>

text \<open>
  C4. \<open>enqueue\<close> (behind \<open>context_schedule\<close>, \<open>context_enqueue\<close>, \<open>context_send\<close> and UDP)
  never schedules in the past: accepted, exactly one event is added, at the requested time,
  which is not before the clock, under a sequence number no queued event has, with a copy of
  the first \<open>len\<close> payload bytes; refused, the context is exactly as it was. With enough memory
  it refuses only a past time, a null callback or a null payload of positive length.
\<close>

theorem enqueue_spec:
  assumes "ctx_inv c" "next_seq c \<noteq> UINT64_MAX"
  shows "\<exists>ok c'. enqueue alloc (Some c) t cb buf len from to sport dport = (ok, Some c') \<and> ctx_inv c' \<and>
    (if ok then
       may_enqueue c t cb buf len \<and>
       (\<forall>e \<in># queued c. sequence_number e < next_seq c) \<and>
       queued c' = add_mset (event_for c t (the cb) buf len from to sport dport) (queued c) \<and>
       next_seq c' = next_seq c + 1
     else c' = c) \<and>
    (may_enqueue c t cb buf len \<and> (\<forall>site n. alloc site n) \<and> size (queued c) < 2 ^ 57 \<longrightarrow> ok)"
proof -
  obtain ok c' where enq: "enqueue alloc (Some c) t cb buf len from to sport dport = (ok, Some c')"
    using enqueue_live by blast
  have inv': "ctx_inv c'" using assms enq by (rule enqueue_inv)
  from assms(1) obtain h where h: "heap c = Some h" "heap_inv h"
    and lt: "\<forall>e \<in># queued c. sequence_number e < next_seq c"
    by (auto simp: ctx_inv_def queue_inv_def split: option.splits)
  show ?thesis
  proof (cases ok)
    case True
    with enq have enq': "enqueue alloc (Some c) t cb buf len from to sport dport = (True, Some c')" by simp
    then have "may_enqueue c t cb buf len" "next_seq c' = next_seq c + 1"
      by (rule enqueue_True; auto)+
    with True enq inv' lt enqueue_queued [OF enq'] show ?thesis by auto
  next
    case False
    with enq have enq': "enqueue alloc (Some c) t cb buf len from to sport dport = (False, Some c')" by simp
    have False if ok: "may_enqueue c t cb buf len" "\<forall>site n. alloc site n" "size (queued c) < 2 ^ 57"
      using enqueue_accepts [OF assms(1) ok, of "from" to sport dport] enq' by simp
    with False enq inv' enqueue_False [OF enq'] show ?thesis by auto
  qed
qed

definition fresh_context :: sim_context where
  "fresh_context =
     \<lparr>clock = 0, heap = Some \<lparr>data = [], capacity = 8, block = 512\<rparr>, rng = rng_seed 1,
      next_seq = 0, next_node_id = 0,
      node_tab = \<lparr>nodes = [], ncap = 8, nblock = 320, by_id = [], iblock = 0\<rparr>,
      grid = small_grid (replicate 6 MATERIAL_AIR), radio = \<lparr>range_nm = DEFAULT_RANGE_NM\<rparr>, udp_binds = []\<rparr>"

lemma fresh_context_inv: "ctx_inv fresh_context"
  by (simp add: ctx_inv_def queue_inv_def nodes_inv_def binds_inv_def fresh_context_def heap_inv_def
      heap_safe_def nl_inv_def nl_safe_def nl_linked_def pending_def SIZE_MAX_def sizeof_Event_def
      sizeof_Node_def small_grid_inv)

theorem enqueue_spec_witness:
  "\<exists>c'. enqueue (\<lambda>_ _. True) (Some fresh_context) 5 (Some (Handler 0)) (Some [1, 2, 3]) 2 7 8 0 0 =
      (True, Some c') \<and> ctx_inv c' \<and>
    queued c' = {#\<lparr>executed_at = 5, callback_func = Handler 0, sequence_number = 0,
                   payload = Some [1, 2], payload_len = 2, from_id = 7, to_id = 8,
                   src_port = 0, dst_port = 0\<rparr>#}"
  using enqueue_spec [OF fresh_context_inv, of "\<lambda>_ _. True" 5 "Some (Handler 0)" "Some [1, 2, 3]" 2 7 8 0 0]
  by (auto simp: fresh_context_def may_enqueue_def event_for_def pending_def UINT64_MAX_def)

text \<open>
  C5. \<open>context_send\<close> delivers exactly along radio links. With enough memory it succeeds if and
  only if both nodes are present and the receiver hears the sender, the clock plus the delay of
  the path does not wrap around 64 bits, and a callback and a payload (unless its length is zero)
  are given. A success adds one event, for the receiver, at the clock plus the delay, and takes
  one sequence number; a refusal, for lack of memory too, leaves the context as it was.
\<close>

theorem context_send_delivers:
  assumes "ctx_inv c" "next_seq c \<noteq> UINT64_MAX"
  shows "\<exists>ok c'. context_send alloc (Some c) from to buf len cb = (ok, Some c') \<and> ctx_inv c' \<and>
    (ok \<longrightarrow> sendable c from to buf len cb \<and>
       queued c' = add_mset (event_for c (clock c + the (link c from to)) (the cb) buf len from to 0 0) (queued c) \<and>
       next_seq c' = next_seq c + 1) \<and>
    (\<not> ok \<longrightarrow> c' = c) \<and>
    (sendable c from to buf len cb \<and> (\<forall>site n. alloc site n) \<and> size (queued c) < 2 ^ 57 \<longrightarrow> ok)"
proof (cases "link c from to = None \<or> cb = None")
  case True
  with assms(1) show ?thesis
    by (auto simp: context_send_link ctx_inv_def sendable_def split: option.splits)
next
  case False
  then obtain d where d: "link c from to = Some d" "cb \<noteq> None" by (cases "link c from to") auto
  let ?enq = "enqueue alloc (Some c) (clock c + d) cb buf len from to 0 0"
  have send: "context_send alloc (Some c) from to buf len cb = ?enq"
    using d assms(1) context_send_link [of c alloc "from" to buf len cb] by (auto simp: ctx_inv_def)
  have may: "may_enqueue c (clock c + d) cb buf len = sendable c from to buf len cb"
    using d assms(1) by (auto simp: may_enqueue_def sendable_def no_wrap ctx_inv_def queue_inv_def split: option.splits)
  obtain ok c' where enq: "?enq = (ok, Some c')" using enqueue_live by blast
  have inv': "ctx_inv c'" using assms enq by (rule enqueue_inv)
  have yes: "may_enqueue c (clock c + d) cb buf len" "next_seq c' = next_seq c + 1"
    "queued c' = add_mset (event_for c (clock c + d) (the cb) buf len from to 0 0) (queued c)" if "ok"
  proof -
    have e: "?enq = (True, Some c')" using enq that by simp
    from e show "may_enqueue c (clock c + d) cb buf len" "next_seq c' = next_seq c + 1" by (rule enqueue_True; simp)+
    show "queued c' = add_mset (event_for c (clock c + d) (the cb) buf len from to 0 0) (queued c)"
      by (rule enqueue_queued [OF e])
  qed
  have no: "c' = c" if "\<not> ok" using enq that by (auto dest: enqueue_False)
  have all: ok if "sendable c from to buf len cb" "\<forall>site n. alloc site n" "size (queued c) < 2 ^ 57"
    using enqueue_accepts [OF assms(1) _ that(2,3), of "clock c + d" cb buf len "from" to 0 0] that(1) enq may by simp
  show ?thesis
    unfolding send
  proof (intro exI conjI impI)
    show "?enq = (ok, Some c')" by (rule enq)
  qed (use yes no all inv' may d in simp_all)
qed

definition pair_context :: sim_context where
  "pair_context = fresh_context\<lparr>node_tab := two_nodes, next_node_id := 2\<rparr>"

lemma pair_context_inv: "ctx_inv pair_context"
  using fresh_context_inv two_nodes_inv
  by (simp add: pair_context_def fresh_context_def ctx_inv_def queue_inv_def nodes_inv_def binds_inv_def)
    (simp add: two_nodes_def)

text \<open>The two nodes are in one cell, 3 ns wide, and hear each other.\<close>

lemma pair_link: "link pair_context 0 1 = Some 3"
proof -
  have "node_tab pair_context = two_nodes" by (simp add: pair_context_def)
  moreover have "node_of two_nodes 0 = Some (nodes two_nodes ! 0)" "node_of two_nodes 1 = Some (nodes two_nodes ! 1)"
    by (simp_all only: node_of_Some [OF two_nodes_inv]) (simp_all add: two_nodes_def)
  moreover have "hears (small_grid (replicate 6 MATERIAL_AIR)) \<lparr>range_nm = DEFAULT_RANGE_NM\<rparr> (0, 0) (5, 5)"
    "path_delay (small_grid (replicate 6 MATERIAL_AIR)) (0, 0) (5, 5) = 3"
    by (simp_all add: hears_def in_range_def path_cells_def path_delay_def cell_spec_def line_cells_def
      line_point_def line_offset_def material_at_def small_grid_def INT64_MAX_def upto.simps DEFAULT_RANGE_NM_def)
  ultimately show ?thesis
    by (simp add: link_def position_def pair_context_def fresh_context_def two_nodes_def)
qed

theorem context_send_delivers_witness:
  "\<exists>c'. context_send (\<lambda>_ _. True) (Some pair_context) 0 1 (Some [9]) 1 (Some (Handler 3)) = (True, Some c') \<and>
     ctx_inv c' \<and>
     queued c' = {#\<lparr>executed_at = 3, callback_func = Handler 3, sequence_number = 0, payload = Some [9],
                    payload_len = 1, from_id = 0, to_id = 1, src_port = 0, dst_port = 0\<rparr>#}"
proof -
  have "sendable pair_context 0 1 (Some [9]) 1 (Some (Handler 3))"
    by (simp add: sendable_def pair_link) (simp add: pair_context_def fresh_context_def)
  with context_send_delivers [OF pair_context_inv, of "\<lambda>_ _. True" 0 1 "Some [9]" 1 "Some (Handler 3)"]
  show ?thesis
    by (auto simp: pair_link) (auto simp: pair_context_def fresh_context_def UINT64_MAX_def event_for_def pending_def)
qed

text \<open>
  \<open>context_free\<close> frees the payload of every event still queued exactly once, and leaves
  no queue, no nodes and no map behind.
\<close>

theorem context_free_frees_all:
  assumes "ctx_inv c"
  shows "\<exists>freed c'. context_free (Some c) = (freed, Some c') \<and> mset freed = queued c \<and>
    heap c' = None \<and> nodes (node_tab c') = [] \<and> cells (grid c') = None"
proof -
  from assms obtain h where h: "heap c = Some h" "heap_inv h"
    by (auto simp: ctx_inv_def queue_inv_def split: option.splits)
  then have "mset (drain_events h) = pending h"
    using evq.drains_held [OF drain_events_drains] by blast
  with h show ?thesis
    by (simp add: context_free_def nodelist_free_def mediumgrid_free_def Let_def)
qed

theorem context_free_frees_all_witness:
  "\<exists>freed c'. context_free (Some fresh_context) = (freed, Some c') \<and> mset freed = queued fresh_context \<and>
    heap c' = None \<and> nodes (node_tab c') = [] \<and> cells (grid c') = None"
  by (rule context_free_frees_all) (rule fresh_context_inv)

end
