(* ===== verification/Udp.thy ===== *)
theory Udp
  imports Sim_Context
begin

text \<open>
  In-process UDP, \<open>udp/udp.c\<close>: a table of at most 16 listeners and sends that are a radio
  verdict followed by an enqueue of the dispatcher \<open>on_udp_datagram\<close>. The table is the list
  \<open>udp_binds[0 .. udp_bind_n)\<close>. A multicast makes one send per node, and each send may run
  out of memory on its own, so its allocator is indexed by the node slot.
\<close>

section \<open>Operations\<close>

definition UDP_BIND_MAX :: nat where
  "UDP_BIND_MAX = 16"

definition bind_of :: "sim_context \<Rightarrow> u64 \<Rightarrow> u16 \<Rightarrow> nat ptr" where
  "bind_of c node port =
     map_option bind_cb (find (\<lambda>b. bind_node_id b = node \<and> bind_port b = port) (udp_binds c))"

definition udp_bind_op ::
  "sim_context ptr \<Rightarrow> u64 \<Rightarrow> u16 \<Rightarrow> nat ptr \<Rightarrow> bool \<times> sim_context ptr" where
  "udp_bind_op cp node port cb =
     (case (cp, cb) of
        (Some c, Some f) \<Rightarrow>
          if port = 0 then (False, cp)
          else if context_find_node cp node = None then (False, cp)
          else if bind_of c node port \<noteq> None then (False, cp)
          else if length (udp_binds c) \<ge> UDP_BIND_MAX then (False, cp)
          else (True, Some (c\<lparr>udp_binds := udp_binds c @
                  [\<lparr>bind_node_id = node, bind_port = port, bind_cb = f\<rparr>]\<rparr>))
      | _ \<Rightarrow> (False, cp))"

definition udp_send ::
  "allocator \<Rightarrow> sim_context ptr \<Rightarrow> u64 \<Rightarrow> u16 \<Rightarrow> u64 \<Rightarrow> u16 \<Rightarrow> u8 list ptr \<Rightarrow> u64 \<Rightarrow>
   bool \<times> sim_context ptr" where
  "udp_send alloc cp from_i sport to_i dport buf len =
     (case cp of
        None \<Rightarrow> (False, cp)
      | Some c \<Rightarrow>
          if sport = 0 \<or> dport = 0 then (False, cp)
          else
            (case (context_find_node cp from_i, context_find_node cp to_i) of
               (Some from, Some to) \<Rightarrow>
                 (case path_between c from to of
                    None \<Rightarrow> (False, cp)
                  | Some delay \<Rightarrow>
                      let arrive = clock c + delay in
                      context_enqueue alloc cp arrive (Some On_Udp_Datagram) buf len from_i to_i
                        sport dport)
             | _ \<Rightarrow> (False, cp)))"

lemma udp_send_node_tab:
  assumes "udp_send alloc (Some c) a sp b dp buf len = (ok, Some c')"
  shows "node_tab c' = node_tab c"
  using assms
  by (auto simp: udp_send_def context_enqueue_def Let_def dest: enqueue_frame split: if_splits option.splits)

text \<open>The loop of \<open>udp_mcast\<close> from slot \<open>i\<close> on.\<close>

function mcast_loop ::
  "(nat \<Rightarrow> allocator) \<Rightarrow> sim_context ptr \<Rightarrow> u64 \<Rightarrow> u16 \<Rightarrow> u16 \<Rightarrow> u8 list ptr \<Rightarrow> u64 \<Rightarrow> nat \<Rightarrow>
   sim_context ptr" where
  "mcast_loop alloc cp from_i sport dport buf len i =
     (case cp of
        None \<Rightarrow> None
      | Some c \<Rightarrow>
          if i < length (nodes (node_tab c)) then
            let ident = nid (nodes (node_tab c) ! i) in
            if ident = from_i then mcast_loop alloc cp from_i sport dport buf len (Suc i)
            else mcast_loop alloc (snd (udp_send (alloc i) cp from_i sport ident dport buf len))
                   from_i sport dport buf len (Suc i)
          else cp)"
  by pat_completeness auto
termination
proof (relation "measure (\<lambda>(_, cp, _, _, _, _, _, i).
    case cp of None \<Rightarrow> 0 | Some c \<Rightarrow> length (nodes (node_tab c)) - i)", goal_cases)
  case (3 alloc cp f sp dp buf len i c ident)
  obtain ok cp' where send: "udp_send (alloc i) cp f sp ident dp buf len = (ok, cp')"
    by (cases "udp_send (alloc i) cp f sp ident dp buf len")
  with 3 show ?case
    by (cases cp') (auto dest!: udp_send_node_tab)
qed auto

declare mcast_loop.simps [simp del]

definition udp_mcast ::
  "(nat \<Rightarrow> allocator) \<Rightarrow> sim_context ptr \<Rightarrow> u64 \<Rightarrow> u16 \<Rightarrow> u16 \<Rightarrow> u8 list ptr \<Rightarrow> u64 \<Rightarrow>
   bool \<times> sim_context ptr" where
  "udp_mcast alloc cp from_i sport dport buf len =
     (case cp of
        None \<Rightarrow> (False, cp)
      | Some c \<Rightarrow>
          if sport = 0 \<or> dport = 0 then (False, cp)
          else if context_find_node cp from_i = None then (False, cp)
          else (True, mcast_loop alloc cp from_i sport dport buf len 0))"

section \<open>Listeners\<close>

lemma bind_of_append:
  "bind_of (c\<lparr>udp_binds := udp_binds c @ [b]\<rparr>) node port =
     (case bind_of c node port of
        None \<Rightarrow> (if bind_node_id b = node \<and> bind_port b = port then Some (bind_cb b) else None)
      | Some f \<Rightarrow> Some f)"
  by (auto simp: bind_of_def find_append_case split: option.splits)

lemma bind_of_None:
  "bind_of c node port = None \<longleftrightarrow> (node, port) \<notin> (\<lambda>b. (bind_node_id b, bind_port b)) ` set (udp_binds c)"
  by (auto simp: bind_of_def find_None_iff)

lemma udp_bind_op_inv [inv_intros]:
  assumes "ctx_inv c" "udp_bind_op (Some c) node port cb = (ok, Some c')"
  shows "ctx_inv c'"
proof (cases "c' = c")
  case False
  with assms(2) obtain f where "bind_of c node port = None" "length (udp_binds c) < 16"
    "c' = c\<lparr>udp_binds := udp_binds c @ [\<lparr>bind_node_id = node, bind_port = port, bind_cb = f\<rparr>]\<rparr>"
    by (auto simp: udp_bind_op_def UDP_BIND_MAX_def split: option.splits if_splits)
  with assms(1) show ?thesis
    by (auto simp: ctx_inv_def binds_inv_def queue_inv_def nodes_inv_def bind_of_None split: option.splits)
qed (use assms in simp)

section \<open>Sends\<close>

lemma udp_send_link:
  assumes "grid_inv (grid c)"
  shows "udp_send alloc (Some c) from_i sport to_i dport buf len =
    (case link c from_i to_i of
       None \<Rightarrow> (False, Some c)
     | Some d \<Rightarrow>
         (if sport = 0 \<or> dport = 0 then (False, Some c)
          else enqueue alloc (Some c) (clock c + d) (Some On_Udp_Datagram) buf len from_i to_i sport dport))"
  by (auto simp: udp_send_def link_eq [OF assms] context_enqueue_def Let_def split: option.splits)

definition datagram ::
  "sim_context \<Rightarrow> u64 \<Rightarrow> u64 \<Rightarrow> u64 \<Rightarrow> u16 \<Rightarrow> u16 \<Rightarrow> u8 list ptr \<Rightarrow> u64 \<Rightarrow> event" where
  "datagram c d from_i to_i sport dport buf len =
     event_for c (clock c + d) On_Udp_Datagram buf len from_i to_i sport dport"

text \<open>A link whose arrival time fits the clock, and enough memory for \<open>n\<close> more events.\<close>

definition arrives :: "sim_context \<Rightarrow> u64 \<Rightarrow> u64 \<Rightarrow> bool" where
  "arrives c from_i to_i =
     (case link c from_i to_i of None \<Rightarrow> False | Some d \<Rightarrow> unat (clock c) + unat d < 2 ^ 64)"

definition roomy :: "allocator \<Rightarrow> sim_context \<Rightarrow> nat \<Rightarrow> bool" where
  "roomy alloc c n = ((\<forall>site k. alloc site k) \<and> size (queued c) + n \<le> 2 ^ 57)"

text \<open>Everything a send reads, except the queue and its counter.\<close>

definition same_world :: "sim_context \<Rightarrow> sim_context \<Rightarrow> bool" where
  "same_world c c' =
     (clock c' = clock c \<and> node_tab c' = node_tab c \<and> grid c' = grid c \<and> radio c' = radio c \<and>
      udp_binds c' = udp_binds c)"

lemma same_world_refl [simp]: "same_world c c"
  by (simp add: same_world_def)

lemma same_world_trans: "same_world a b \<Longrightarrow> same_world b c \<Longrightarrow> same_world a c"
  by (simp add: same_world_def)

lemma same_world_link: "same_world c c' \<Longrightarrow> link c' a b = link c a b"
  by (auto simp: same_world_def link_def split: option.splits)

lemma same_world_arrives: "same_world c c' \<Longrightarrow> arrives c' a b = arrives c a b"
  by (simp add: arrives_def same_world_link) (simp add: same_world_def cong: option.case_cong)

lemma udp_send_cases:
  assumes inv: "ctx_inv c" and seq: "next_seq c \<noteq> UINT64_MAX"
    and ports: "sport \<noteq> 0" "dport \<noteq> 0"
  obtains
    (sent) c' d where "udp_send alloc (Some c) from_i sport to_i dport buf len = (True, Some c')"
      "ctx_inv c'" "same_world c c'" "next_seq c' = next_seq c + 1"
      "link c from_i to_i = Some d" "arrives c from_i to_i"
      "queued c' = add_mset (datagram c d from_i to_i sport dport buf len) (queued c)"
  | (lost) "udp_send alloc (Some c) from_i sport to_i dport buf len = (False, Some c)"
      "\<not> (arrives c from_i to_i \<and> roomy alloc c 1 \<and> (len > 0 \<longrightarrow> buf \<noteq> None))"
proof (cases "link c from_i to_i")
  case None
  with inv show thesis by (intro lost) (simp_all add: udp_send_link ctx_inv_def arrives_def)
next
  case (Some d)
  let ?t = "clock c + d" and ?f = "Some On_Udp_Datagram"
  have eq: "udp_send alloc (Some c) from_i sport to_i dport buf len =
      enqueue alloc (Some c) ?t ?f buf len from_i to_i sport dport"
    using Some inv ports by (simp add: udp_send_link ctx_inv_def)
  from inv obtain h where h: "heap c = Some h" by (auto simp: ctx_inv_def queue_inv_def split: option.splits)
  from enqueue_spec [OF inv seq, of alloc ?t ?f buf len from_i to_i sport dport]
  obtain ok c' where enq: "enqueue alloc (Some c) ?t ?f buf len from_i to_i sport dport = (ok, Some c')"
    and inv': "ctx_inv c'"
    and res: "if ok then may_enqueue c ?t ?f buf len \<and>
       queued c' = add_mset (event_for c ?t (the ?f) buf len from_i to_i sport dport) (queued c) \<and>
       next_seq c' = next_seq c + 1 else c' = c"
    and enough: "may_enqueue c ?t ?f buf len \<Longrightarrow> (\<forall>site n. alloc site n) \<Longrightarrow> size (queued c) < 2 ^ 57 \<Longrightarrow> ok"
    by (smt (verit))
  have arr: "may_enqueue c ?t ?f buf len \<longleftrightarrow> arrives c from_i to_i \<and> (len > 0 \<longrightarrow> buf \<noteq> None)"
    using Some h by (simp add: may_enqueue_def arrives_def no_wrap)
  show thesis
  proof (cases ok)
    case True
    with enq enqueue_frame [OF enq] eq inv' res arr Some show thesis
      by (intro sent [of c' d]) (auto simp: same_world_def datagram_def)
  next
    case False
    with res have "c' = c" by simp
    moreover have "\<not> (may_enqueue c ?t ?f buf len \<and> roomy alloc c 1)"
      using enough False by (auto simp: roomy_def)
    ultimately show thesis using enq eq arr False by (intro lost) (simp, blast)
  qed
qed

section \<open>Multicast\<close>

text \<open>The nodes a multicast reaches: those that hear the sender, the sender left out.\<close>

definition mcast_targets :: "sim_context \<Rightarrow> u64 \<Rightarrow> node list \<Rightarrow> u64 list" where
  "mcast_targets c from_i ns = filter (\<lambda>k. k \<noteq> from_i \<and> arrives c from_i k) (map nid ns)"

lemma mcast_targets_Cons:
  "mcast_targets c f (n # ns) =
     (if nid n \<noteq> f \<and> arrives c f (nid n) then [nid n] else []) @ mcast_targets c f ns"
  by (simp add: mcast_targets_def)

lemma same_world_targets: "same_world c c' \<Longrightarrow> mcast_targets c' f ns = mcast_targets c f ns"
  by (simp add: mcast_targets_def same_world_arrives)

text \<open>What a multicast over the slots \<open>ns\<close> adds to the queue.\<close>

definition mcast_new ::
  "(nat \<Rightarrow> allocator) \<Rightarrow> sim_context \<Rightarrow> u64 \<Rightarrow> u16 \<Rightarrow> u16 \<Rightarrow> u8 list ptr \<Rightarrow> u64 \<Rightarrow> node list \<Rightarrow>
   event multiset \<Rightarrow> bool" where
  "mcast_new alloc c from_i sport dport buf len ns new =
     (image_mset to_id new \<subseteq># mset (mcast_targets c from_i ns) \<and>
      (\<forall>e \<in># new. executed_at e = clock c + the (link c from_i (to_id e)) \<and>
         callback_func e = On_Udp_Datagram \<and> from_id e = from_i \<and>
         src_port e = sport \<and> dst_port e = dport) \<and>
      ((\<forall>i. roomy (alloc i) c (length ns)) \<and> (len > 0 \<longrightarrow> buf \<noteq> None) \<longrightarrow>
         image_mset to_id new = mset (mcast_targets c from_i ns)))"

definition mcast_result ::
  "(nat \<Rightarrow> allocator) \<Rightarrow> sim_context \<Rightarrow> u64 \<Rightarrow> u16 \<Rightarrow> u16 \<Rightarrow> u8 list ptr \<Rightarrow> u64 \<Rightarrow> node list \<Rightarrow>
   sim_context \<Rightarrow> bool" where
  "mcast_result alloc c from_i sport dport buf len ns c' =
     (ctx_inv c' \<and> same_world c c' \<and>
      (\<exists>new. queued c' = queued c + new \<and> mcast_new alloc c from_i sport dport buf len ns new))"

lemma mcast_result_Nil: "ctx_inv c \<Longrightarrow> mcast_result alloc c f sp dp buf len [] c"
  by (auto simp: mcast_result_def mcast_new_def mcast_targets_def)

lemma mcast_new_skip:
  assumes new: "mcast_new alloc c f sp dp buf len ns new"
    and n: "nid n = f \<or> \<not> (arrives c f (nid n) \<and> roomy (alloc i) c 1 \<and> (len > 0 \<longrightarrow> buf \<noteq> None))"
  shows "mcast_new alloc c f sp dp buf len (n # ns) new"
proof -
  have "image_mset to_id new \<subseteq># mset (mcast_targets c f (n # ns))"
    using new by (auto simp: mcast_new_def mcast_targets_Cons intro: subset_mset.order_trans)
  moreover have "image_mset to_id new = mset (mcast_targets c f (n # ns))"
    if all: "\<forall>i. roomy (alloc i) c (length (n # ns))" "len > 0 \<longrightarrow> buf \<noteq> None"
  proof -
    have r: "\<forall>i. roomy (alloc i) c (length ns)" "\<forall>i. roomy (alloc i) c 1"
      using all(1) by (auto simp: roomy_def)
    with all(2) n have "mcast_targets c f (n # ns) = mcast_targets c f ns"
      by (auto simp: mcast_targets_Cons)
    moreover have "image_mset to_id new = mset (mcast_targets c f ns)"
      using new r(1) all(2) unfolding mcast_new_def by blast
    ultimately show ?thesis by simp
  qed
  ultimately show ?thesis using new unfolding mcast_new_def by blast
qed

lemma mcast_new_sent:
  assumes new: "mcast_new alloc c1 f sp dp buf len ns new"
    and c1: "same_world c c1" "size (queued c1) = Suc (size (queued c))"
    and n: "nid n \<noteq> f" "arrives c f (nid n)" "link c f (nid n) = Some d"
  shows "mcast_new alloc c f sp dp buf len (n # ns) (add_mset (datagram c d f (nid n) sp dp buf len) new)"
    (is "mcast_new _ _ _ _ _ _ _ _ (add_mset ?e new)")
proof -
  have e: "to_id ?e = nid n" "executed_at ?e = clock c + d" "callback_func ?e = On_Udp_Datagram"
    "from_id ?e = f" "src_port ?e = sp" "dst_port ?e = dp"
    by (simp_all add: datagram_def event_for_def)
  have clk: "clock c1 = clock c" using c1(1) by (simp add: same_world_def)
  have room: "roomy (alloc i) c (length (n # ns)) \<Longrightarrow> roomy (alloc i) c1 (length ns)" for i
    using c1(2) by (simp add: roomy_def)
  note same = same_world_targets [OF c1(1)] same_world_link [OF c1(1)]
  have "image_mset to_id (add_mset ?e new) \<subseteq># mset (mcast_targets c f (n # ns))"
    using new n by (simp add: mcast_new_def e mcast_targets_Cons same)
  moreover have "\<forall>x \<in># add_mset ?e new. executed_at x = clock c + the (link c f (to_id x)) \<and>
       callback_func x = On_Udp_Datagram \<and> from_id x = f \<and> src_port x = sp \<and> dst_port x = dp"
    using new n by (simp add: mcast_new_def e clk same)
  moreover have "image_mset to_id (add_mset ?e new) = mset (mcast_targets c f (n # ns))"
    if all: "\<forall>i. roomy (alloc i) c (length (n # ns))" "len > 0 \<longrightarrow> buf \<noteq> None"
  proof -
    have "image_mset to_id new = mset (mcast_targets c1 f ns)"
      using new all room unfolding mcast_new_def by blast
    with n show ?thesis by (simp add: e mcast_targets_Cons same)
  qed
  ultimately show ?thesis unfolding mcast_new_def by blast
qed

lemma mcast_result_skip:
  assumes "mcast_result alloc c f sp dp buf len ns c'"
    "nid n = f \<or> \<not> (arrives c f (nid n) \<and> roomy (alloc i) c 1 \<and> (len > 0 \<longrightarrow> buf \<noteq> None))"
  shows "mcast_result alloc c f sp dp buf len (n # ns) c'"
  using assms(1) mcast_new_skip [where alloc = alloc and i = i, OF _ assms(2)]
  unfolding mcast_result_def by blast

lemma mcast_result_sent:
  assumes tail: "mcast_result alloc c1 f sp dp buf len ns c'"
    and c1: "same_world c c1" "queued c1 = add_mset (datagram c d f (nid n) sp dp buf len) (queued c)"
    and n: "nid n \<noteq> f" "arrives c f (nid n)" "link c f (nid n) = Some d"
  shows "mcast_result alloc c f sp dp buf len (n # ns) c'"
proof -
  from tail obtain new where new: "queued c' = queued c1 + new" "mcast_new alloc c1 f sp dp buf len ns new"
    and c': "ctx_inv c'" "same_world c1 c'"
    by (auto simp: mcast_result_def)
  let ?new = "add_mset (datagram c d f (nid n) sp dp buf len) new"
  have "queued c' = queued c + ?new" using new(1) c1(2) by simp
  moreover have "mcast_new alloc c f sp dp buf len (n # ns) ?new"
    using new(2) c1 n by (intro mcast_new_sent) auto
  ultimately show ?thesis
    using c' same_world_trans [OF c1(1) c'(2)] unfolding mcast_result_def by blast
qed

lemma mcast_loop_step:
  assumes "i < length (nodes (node_tab c))"
  shows "mcast_loop alloc (Some c) f sp dp buf len i =
    (if nid (nodes (node_tab c) ! i) = f then mcast_loop alloc (Some c) f sp dp buf len (Suc i)
     else mcast_loop alloc (snd (udp_send (alloc i) (Some c) f sp (nid (nodes (node_tab c) ! i)) dp buf len))
            f sp dp buf len (Suc i))"
  using assms by (subst mcast_loop.simps) (simp add: Let_def)

lemma mcast_loop_result:
  assumes "ctx_inv c" "unat (next_seq c) + (length (nodes (node_tab c)) - i) < 2 ^ 64" "sp \<noteq> 0" "dp \<noteq> 0"
  shows "\<exists>c'. mcast_loop alloc (Some c) f sp dp buf len i = Some c' \<and>
    mcast_result alloc c f sp dp buf len (drop i (nodes (node_tab c))) c'"
  using assms
proof (induction "length (nodes (node_tab c)) - i" arbitrary: c i)
  case 0
  then have "mcast_loop alloc (Some c) f sp dp buf len i = Some c" "drop i (nodes (node_tab c)) = []"
    by (simp_all add: mcast_loop.simps)
  with mcast_result_Nil [OF \<open>ctx_inv c\<close>] show ?case by metis
next
  case (Suc m)
  let ?ns = "nodes (node_tab c)"
  from Suc.hyps(2) have i: "i < length ?ns" "length ?ns - Suc i = m" by simp_all
  then have dr: "drop i ?ns = ?ns ! i # drop (Suc i) ?ns" by (simp add: Cons_nth_drop_Suc)
  have room: "unat (next_seq c) + Suc m < 2 ^ 64" using Suc.prems(2) Suc.hyps(2) by simp
  have rest: "\<exists>c'. mcast_loop alloc (Some c) f sp dp buf len (Suc i) = Some c' \<and>
      mcast_result alloc c f sp dp buf len (drop (Suc i) ?ns) c'"
    using Suc.hyps(1) [OF i(2) [symmetric] Suc.prems(1)] Suc.prems(3,4) room i by simp
  show ?case
  proof (cases "nid (?ns ! i) = f")
    case True
    with rest show ?thesis by (simp add: mcast_loop_step [OF i(1)] dr) (blast intro: mcast_result_skip)
  next
    case False
    have seq: "next_seq c \<noteq> UINT64_MAX" using room by (auto simp: UINT64_MAX_def)
    show ?thesis
      using Suc.prems(1) seq Suc.prems(3,4)
    proof (cases rule: udp_send_cases [where alloc = "alloc i" and from_i = f and to_i = "nid (?ns ! i)"
          and buf = buf and len = len])
      case (sent c1 d)
      then have same: "node_tab c1 = node_tab c" by (simp add: same_world_def)
      have "unat (next_seq c1) = Suc (unat (next_seq c))"
        using seq_less_succ(2) [OF seq] sent(4) by simp
      with Suc.hyps(1) [of c1 "Suc i"] sent(2) Suc.prems(3,4) room i same
      obtain c' where "mcast_loop alloc (Some c1) f sp dp buf len (Suc i) = Some c'"
        "mcast_result alloc c1 f sp dp buf len (drop (Suc i) ?ns) c'" by auto
      with sent False show ?thesis
        by (simp add: mcast_loop_step [OF i(1)] dr) (blast intro: mcast_result_sent)
    next
      case lost
      from rest obtain c' where c': "mcast_loop alloc (Some c) f sp dp buf len (Suc i) = Some c'"
        "mcast_result alloc c f sp dp buf len (drop (Suc i) ?ns) c'" by blast
      from c'(2) have "mcast_result alloc c f sp dp buf len (?ns ! i # drop (Suc i) ?ns) c'"
        by (rule mcast_result_skip [where i = i]) (use lost(2) in blast)
      with c'(1) lost(1) False show ?thesis by (simp add: mcast_loop_step [OF i(1)] dr)
    qed
  qed
qed

section \<open>Properties\<close>

text \<open>
  \<open>udp_bind\<close> registers at most one listener per (node, port), never more than 16 in all,
  only for nodes that are present and ports other than 0; a new listener is the one
  \<open>on_udp_datagram\<close> finds, and no other listener changes.
\<close>

theorem udp_bind_registers:
  assumes "ctx_inv c" "udp_bind_op (Some c) node port cb = (ok, Some c')"
  shows "ctx_inv c' \<and>
    (if ok then
       cb \<noteq> None \<and> port \<noteq> 0 \<and> node_of (node_tab c) node \<noteq> None \<and> bind_of c node port = None \<and>
       (\<forall>n p. bind_of c' n p = (if n = node \<and> p = port then cb else bind_of c n p))
     else c' = c)"
proof (cases ok)
  case True
  with assms(2) obtain f where f: "cb = Some f" "port \<noteq> 0" "context_find_node (Some c) node \<noteq> None"
    "bind_of c node port = None"
    "c' = c\<lparr>udp_binds := udp_binds c @ [\<lparr>bind_node_id = node, bind_port = port, bind_cb = f\<rparr>]\<rparr>"
    by (auto simp: udp_bind_op_def split: option.splits if_splits)
  then have "bind_of c' n p = (if n = node \<and> p = port then cb else bind_of c n p)" for n p
    by (auto simp: bind_of_append split: option.splits)
  with True f udp_bind_op_inv [OF assms] show ?thesis by (simp add: context_find_node_def node_of_def)
next
  case False
  with assms(2) have "c' = c" by (auto simp: udp_bind_op_def split: option.splits if_splits)
  with False assms(1) show ?thesis by simp
qed

theorem udp_bind_registers_witness:
  "\<exists>c'. udp_bind_op (Some pair_context) 1 7 (Some 4) = (True, Some c') \<and> bind_of c' 1 7 = Some 4"
proof -
  obtain c' where "udp_bind_op (Some pair_context) 1 7 (Some 4) = (True, Some c')"
    by (simp add: udp_bind_op_def context_find_node_def nodelist_find_def pair_context_def two_nodes_def
        SIZE_MAX_def bind_of_def fresh_context_def UDP_BIND_MAX_def Let_def)
  with udp_bind_registers [OF pair_context_inv this] show ?thesis by simp
qed

text \<open>
  C6. A multicast queues at most one datagram for each node other than the sender that hears
  the sender, each at the clock plus that node's delay and from the same ports, and never one
  for any other node; with enough memory it reaches all of them. It changes nothing but the
  queue, and reports success although single sends may fail.
\<close>

theorem udp_mcast_reaches_hearers:
  assumes "ctx_inv c" "unat (next_seq c) + length (nodes (node_tab c)) < 2 ^ 64"
    "node_of (node_tab c) from_i \<noteq> None" "sport \<noteq> 0" "dport \<noteq> 0"
  shows "\<exists>c'. udp_mcast alloc (Some c) from_i sport dport buf len = (True, Some c') \<and>
    mcast_result alloc c from_i sport dport buf len (nodes (node_tab c)) c'"
proof -
  have "context_find_node (Some c) from_i \<noteq> None"
    using assms(3) by (simp add: context_find_node_def node_of_def)
  moreover obtain c' where "mcast_loop alloc (Some c) from_i sport dport buf len 0 = Some c'"
    "mcast_result alloc c from_i sport dport buf len (nodes (node_tab c)) c'"
    using mcast_loop_result [of c 0 sport dport alloc from_i buf len] assms by auto
  ultimately show ?thesis using assms(4,5) by (auto simp: udp_mcast_def)
qed

theorem udp_mcast_reaches_hearers_witness:
  "\<exists>c'. udp_mcast (\<lambda>_ _ _. True) (Some pair_context) 0 9 9 (Some [1]) 1 = (True, Some c') \<and>
     mcast_result (\<lambda>_ _ _. True) pair_context 0 9 9 (Some [1]) 1 (nodes (node_tab pair_context)) c'"
  by (rule udp_mcast_reaches_hearers)
    (simp_all add: pair_context_inv node_of_Some two_nodes_inv,
     simp_all add: pair_context_def fresh_context_def two_nodes_def node_of_def nodelist_find_def
       SIZE_MAX_def Let_def)

end
