(* ===== verification/Event_Loop.thy ===== *)
theory Event_Loop
  imports Udp "HOL-Library.Multiset_Order"
begin

text \<open>
  The event loop \<open>context_run\<close> of \<open>shared/context.c\<close>, with the dispatcher
  \<open>on_udp_datagram\<close> of \<open>udp/udp.c\<close>.

  A handler is a function on the context: \<open>H n\<close> is the client's \<open>n\<close>-th handler and the event
  carries the arguments of the call. The loop need not end (a handler may always schedule
  more), so it is a \<open>partial_function\<close>. What a well-behaved handler may do is the relation
  \<open>api\<close>, one rule per public operation and per field a handler may write; \<open>runs\<close> lists the
  events of a whole run. The lemmas show that the loop keeps the invariant, that its order is
  strict, and that it ends when handlers only schedule into a bounded future.
\<close>

section \<open>The loop\<close>

type_synonym handlers = "nat \<Rightarrow> sim_context \<Rightarrow> event \<Rightarrow> sim_context"

definition on_udp_datagram :: "handlers \<Rightarrow> sim_context \<Rightarrow> event \<Rightarrow> sim_context" where
  "on_udp_datagram H c ev =
     (case bind_of c (to_id ev) (dst_port ev) of
        None \<Rightarrow> c
      | Some cb \<Rightarrow> H cb c ev)"

fun invoke :: "handlers \<Rightarrow> callback \<Rightarrow> sim_context \<Rightarrow> event \<Rightarrow> sim_context" where
  "invoke H On_Udp_Datagram c ev = on_udp_datagram H c ev"
| "invoke H (Handler n) c ev = H n c ev"

text \<open>The head of the loop: the event taken out, and the context its handler is called on.\<close>

definition next_event :: "sim_context \<Rightarrow> (event \<times> sim_context) option" where
  "next_event c =
     (case heap c of
        None \<Rightarrow> None
      | Some h \<Rightarrow>
          (case heap_pop (Some h) (Some blank_event) of
             (True, hp, Some ev) \<Rightarrow>
               let c = c\<lparr>heap := hp\<rparr>;
                   c = (if executed_at ev > clock c then c\<lparr>clock := executed_at ev\<rparr> else c)
               in Some (ev, c)
           | _ \<Rightarrow> None))"

partial_function (option) context_run :: "handlers \<Rightarrow> sim_context \<Rightarrow> sim_context option" where
  "context_run H c =
     (case next_event c of
        None \<Rightarrow> Some c
      | Some r \<Rightarrow> context_run H (invoke H (callback_func (fst r)) (snd r) (fst r)))"

section \<open>What handlers may do\<close>

inductive api :: "sim_context \<Rightarrow> sim_context \<Rightarrow> bool" where
  api_enqueue: "next_seq c \<noteq> UINT64_MAX \<Longrightarrow>
    enqueue alloc (Some c) t cb buf len from_i to_i sport dport = (ok, Some c') \<Longrightarrow> api c c'"
| api_add_node: "unat (next_node_id c) < 2 ^ 60 \<Longrightarrow>
    context_add_node alloc (Some c) x y vx vy out = (ok, Some c', out') \<Longrightarrow> api c c'"
| api_remove_node: "context_remove_node (Some c) ident = (ok, Some c') \<Longrightarrow> api c c'"
| api_move: "i < length (nodes (node_tab c)) \<Longrightarrow> nid n = nid (nodes (node_tab c) ! i) \<Longrightarrow>
    api c (c\<lparr>node_tab := (node_tab c)\<lparr>nodes := (nodes (node_tab c))[i := n]\<rparr>\<rparr>)"
| api_bind: "udp_bind_op (Some c) node port cb = (ok, Some c') \<Longrightarrow> api c c'"
| api_rng: "api c (c\<lparr>rng := r\<rparr>)"
| api_map: "grid_inv g \<Longrightarrow> api c (c\<lparr>grid := g\<rparr>)"
| api_radio: "api c (c\<lparr>radio := p\<rparr>)"

inductive_cases apiE: "api c c'"

definition handlers_ok :: "handlers \<Rightarrow> bool" where
  "handlers_ok H = (\<forall>n c e. ctx_inv c \<longrightarrow> api\<^sup>*\<^sup>* c (H n c e))"

lemma nodes_inv_move:
  assumes "nodes_inv c" "i < length (nodes (node_tab c))" "nid n = nid (nodes (node_tab c) ! i)"
  shows "nodes_inv (c\<lparr>node_tab := (node_tab c)\<lparr>nodes := (nodes (node_tab c))[i := n]\<rparr>\<rparr>)"
proof -
  have same: "nid ((nodes (node_tab c))[i := n] ! j) = nid (nodes (node_tab c) ! j)"
    if "j < length (nodes (node_tab c))" for j
    using assms(2,3) that by (cases "j = i") auto
  have "nl_inv ((node_tab c)\<lparr>nodes := (nodes (node_tab c))[i := n]\<rparr>)"
    using assms(1) same
    by (simp add: nodes_inv_def nl_inv_def nl_safe_def nl_linked_def)
  moreover have "nid m < next_node_id c" if "m \<in> set ((nodes (node_tab c))[i := n])" for m
    using that assms by (auto simp: nodes_inv_def dest!: in_set_list_updateD)
  ultimately show ?thesis by (simp add: nodes_inv_def)
qed

lemma api_inv: "api c c' \<Longrightarrow> ctx_inv c \<Longrightarrow> ctx_inv c'"
proof (induction rule: api.induct)
  case (api_move i c n)
  then show ?case using nodes_inv_move [of c i n]
    by (auto simp: ctx_inv_def queue_inv_def binds_inv_def split: option.splits)
next
  case api_enqueue
  then show ?case by (blast intro: enqueue_inv)
next
  case api_add_node
  then show ?case by (blast intro: context_add_node_inv)
next
  case api_remove_node
  then show ?case by (blast intro: context_remove_node_inv)
next
  case api_bind
  then show ?case by (blast intro: udp_bind_op_inv)
qed (auto simp: ctx_inv_def queue_inv_def nodes_inv_def binds_inv_def split: option.splits)

text \<open>
  The past: every queued event, and every event that can still be queued, comes after the key
  \<open>k\<close>. A key is a pair (time, sequence number).
\<close>

definition key_floor :: "nat \<times> nat \<Rightarrow> sim_context \<Rightarrow> bool" where
  "key_floor k c =
     ((\<forall>e \<in># queued c. k < event_key e) \<and> fst k \<le> unat (clock c) \<and> snd k < unat (next_seq c))"

lemma key_floor_cong:
  "queued c' = queued c \<Longrightarrow> clock c' = clock c \<Longrightarrow> next_seq c' = next_seq c \<Longrightarrow>
   key_floor k c' = key_floor k c"
  by (simp add: key_floor_def)

lemma enqueue_key_floor:
  assumes "key_floor k c" "next_seq c \<noteq> UINT64_MAX"
    "enqueue alloc (Some c) t cb buf len from_i to_i sport dport = (ok, Some c')"
  shows "key_floor k c'"
proof (cases ok)
  case False
  with assms(3) have "c' = c" by (auto dest: enqueue_False)
  with assms(1) show ?thesis by simp
next
  case True
  with assms(3) have enq: "enqueue alloc (Some c) t cb buf len from_i to_i sport dport = (True, Some c')" by simp
  from enq have "may_enqueue c t cb buf len" "next_seq c' = next_seq c + 1" by (rule enqueue_True; auto)+
  then have t: "clock c \<le> t" and s: "unat (next_seq c') = Suc (unat (next_seq c))"
    using seq_less_succ(2) [OF assms(2)] by (simp_all add: may_enqueue_def)
  have "k < event_key (event_for c t (the cb) buf len from_i to_i sport dport)"
    using assms(1) t by (cases k) (auto simp: key_floor_def event_key_def event_for_def less_prod_def word_le_nat_alt)
  with assms(1) s enqueue_frame [OF assms(3)] show ?thesis
    by (auto simp: key_floor_def enqueue_queued [OF enq])
qed

text \<open>All other operations leave the queue, the clock and the counter alone.\<close>

lemma api_queue_frame:
  assumes "api c c'"
  obtains alloc t cb buf len from_i to_i sport dport ok where "next_seq c \<noteq> UINT64_MAX"
      "enqueue alloc (Some c) t cb buf len from_i to_i sport dport = (ok, Some c')"
  | "queued c' = queued c" "clock c' = clock c" "next_seq c' = next_seq c"
  using assms
proof (induction rule: api.induct)
  case (api_enqueue c alloc t cb buf len from_i to_i sport dport ok c')
  then show ?case by blast
next
  case (api_add_node c alloc x y vx vy out ok c' out')
  then show ?case using context_add_node_frame by (metis (no_types, lifting))
next
  case (api_remove_node c ident ok c')
  have "queued c' = queued c" "clock c' = clock c" "next_seq c' = next_seq c"
    using api_remove_node(1) by (auto simp: context_remove_node_def split: prod.splits option.splits)
  then show ?case using api_remove_node by blast
next
  case (api_bind c node port cb ok c')
  have "queued c' = queued c" "clock c' = clock c" "next_seq c' = next_seq c"
    using api_bind(1) by (auto simp: udp_bind_op_def split: option.splits if_splits)
  then show ?case using api_bind by blast
qed auto

lemma api_key_floor:
  assumes "api c c'" "key_floor k c"
  shows "key_floor k c'"
  using assms(1)
proof (cases rule: api_queue_frame)
  case 1
  with assms(2) show ?thesis by (blast intro: enqueue_key_floor)
next
  case 2
  with assms(2) show ?thesis using key_floor_cong [of c' c k] by simp
qed

lemma api_queued_mono:
  assumes "api c c'"
  shows "queued c \<subseteq># queued c'"
  using assms
proof (cases rule: api_queue_frame)
  case (1 alloc t cb buf len from_i to_i sport dport ok)
  show ?thesis
  proof (cases ok)
    case True
    with 1 enqueue_queued [of alloc c t cb buf len from_i to_i sport dport c'] show ?thesis by simp
  next
    case False
    with 1 have "c' = c" by (auto dest: enqueue_False)
    then show ?thesis by simp
  qed
qed simp

lemma api_clock:
  assumes "api c c'"
  shows "clock c' = clock c"
  using assms by (cases rule: api_queue_frame) (auto dest: enqueue_frame)

lemma api_star:
  assumes "api\<^sup>*\<^sup>* c c'"
  shows "ctx_inv c \<Longrightarrow> ctx_inv c'" "key_floor k c \<Longrightarrow> key_floor k c'" "clock c' = clock c"
    "queued c \<subseteq># queued c'"
  using assms
  by (induction rule: rtranclp_induct)
    (auto intro: api_inv api_key_floor subset_mset.order_trans api_queued_mono dest: api_clock)

lemma invoke_api: "handlers_ok H \<Longrightarrow> ctx_inv c \<Longrightarrow> api\<^sup>*\<^sup>* c (invoke H f c e)"
  by (cases f) (auto simp: handlers_ok_def on_udp_datagram_def split: option.splits)

section \<open>One round\<close>

lemma next_event_None: "queue_inv c \<Longrightarrow> next_event c = None \<longleftrightarrow> queued c = {#}"
  by (auto simp: next_event_def queue_inv_def heap_pop_def pending_def Let_def split: option.splits)

lemma next_event_Some:
  assumes "ctx_inv c" "next_event c = Some (e, c')"
  obtains h h' where "heap c = Some h" "heap_deq h = Some (e, h')"
    "c' = c\<lparr>heap := Some h', clock := executed_at e\<rparr>"
proof -
  from assms obtain h where h: "heap c = Some h" and le: "\<And>x. x \<in># pending h \<Longrightarrow> clock c \<le> executed_at x"
    by (auto simp: ctx_inv_def queue_inv_def split: option.splits)
  from assms(2) h obtain h' where pop: "heap_pop (Some h) (Some blank_event) = (True, Some h', Some e)"
    and c': "c' = (let c = c\<lparr>heap := Some h'\<rparr> in
       if executed_at e > clock c then c\<lparr>clock := executed_at e\<rparr> else c)"
    by (auto simp: next_event_def heap_pop_def Let_def split: if_splits)
  from pop have "clock c \<le> executed_at e" using le heap_pop_pending [OF pop] by simp
  then have "c' = c\<lparr>heap := Some h', clock := executed_at e\<rparr>"
    by (cases "clock c = executed_at e") (auto simp: c' Let_def)
  with h pop that show thesis by (simp add: heap_deq_Some)
qed

lemma next_event_queued:
  assumes "ctx_inv c" "next_event c = Some (e, c')"
  shows "queued c = add_mset e (queued c')"
proof -
  from assms obtain h h' where "heap c = Some h" "heap_deq h = Some (e, h')"
    "c' = c\<lparr>heap := Some h', clock := executed_at e\<rparr>" by (rule next_event_Some)
  then show ?thesis by (simp add: heap_deq_Some heap_pop_pending)
qed

lemma next_event_inv:
  assumes inv: "ctx_inv c" and ev: "next_event c = Some (e, c')"
  shows "ctx_inv c'" "key_floor (event_key e) c'" "clock c \<le> executed_at e" "clock c' = executed_at e"
proof -
  from inv ev obtain h h' where h: "heap c = Some h" and deq: "heap_deq h = Some (e, h')"
    and c': "c' = c\<lparr>heap := Some h', clock := executed_at e\<rparr>" by (rule next_event_Some)
  from inv h have hi: "heap_inv h" and ds: "distinct (map sequence_number (data h))"
    and le: "\<And>x. x \<in># pending h \<Longrightarrow> clock c \<le> executed_at x"
    and lt: "\<And>x. x \<in># pending h \<Longrightarrow> sequence_number x < next_seq c"
    by (auto simp: ctx_inv_def queue_inv_def)
  have pend: "pending h = add_mset e (pending h')" using evq.deq_held [OF hi deq] .
  have hi': "heap_inv h'" using evq.deq_inv [OF hi deq] .
  have "mset (map sequence_number (data h)) = mset (map sequence_number (e # data h'))"
    using pend by (simp add: pending_def)
  then have ds': "distinct (map sequence_number (e # data h'))" using ds by (metis mset_eq_imp_distinct_iff)
  have least: "event_key e \<le> event_key x" if "x \<in># pending h'" for x
    using evq.deq_least [OF hi deq] pend that by simp
  have strict: "event_key e < event_key x" if x: "x \<in># pending h'" for x
  proof -
    have "sequence_number e \<noteq> sequence_number x" using ds' x by (auto simp: pending_def)
    with least [OF x] show ?thesis
      by (auto simp: event_key_def less_prod_def less_eq_prod_def word_unat_eq_iff)
  qed
  have time: "executed_at e \<le> executed_at x" if "x \<in># pending h'" for x
    using least [OF that] by (auto simp: event_key_def less_eq_prod_def word_le_nat_alt)
  show "ctx_inv c'"
    using inv hi' ds' time lt pend h
    by (auto simp: c' ctx_inv_def queue_inv_def nodes_inv_def binds_inv_def)
  show "key_floor (event_key e) c'"
    using strict lt [of e] pend by (auto simp: key_floor_def c' event_key_def word_less_nat_alt)
  show "clock c \<le> executed_at e" using le [of e] pend by simp
  show "clock c' = executed_at e" by (simp add: c')
qed

section \<open>Whole runs\<close>

inductive runs :: "handlers \<Rightarrow> sim_context \<Rightarrow> event list \<Rightarrow> sim_context \<Rightarrow> bool" for H where
  runs_done: "next_event c = None \<Longrightarrow> runs H c [] c"
| runs_event: "next_event c = Some (e, c1) \<Longrightarrow> runs H (invoke H (callback_func e) c1 e) es c' \<Longrightarrow>
    runs H c (e # es) c'"

lemma runs_context_run: "runs H c es c' \<Longrightarrow> context_run H c = Some c'"
  by (induction rule: runs.induct) (subst context_run.simps, simp)+

lemma context_run_runs:
  assumes "context_run H c = Some c'"
  shows "\<exists>es. runs H c es c'"
proof (rule context_run.raw_induct [where P = "\<lambda>H c c'. \<exists>es. runs H c es c'", rotated])
  show "context_run H c = Some c'" by fact
next
  fix run H c r
  assume IH: "\<And>H c r. run H c = Some r \<Longrightarrow> \<exists>es. runs H c es r"
    and step: "(case next_event c of None \<Rightarrow> Some c
      | Some p \<Rightarrow> run H (invoke H (callback_func (fst p)) (snd p) (fst p))) = Some r"
  show "\<exists>es. runs H c es r"
  proof (cases "next_event c")
    case None
    with step show ?thesis by (auto intro: runs_done)
  next
    case (Some p)
    with step have "run H (invoke H (callback_func (fst p)) (snd p) (fst p)) = Some r" by simp
    with IH obtain es where "runs H (invoke H (callback_func (fst p)) (snd p) (fst p)) es r" by blast
    with Some show ?thesis by (cases p) (auto intro: runs_event)
  qed
qed

text \<open>The context a round hands to the next one.\<close>

lemma round_facts:
  assumes "handlers_ok H" "ctx_inv c" "next_event c = Some (e, c1)"
  defines "c2 \<equiv> invoke H (callback_func e) c1 e"
  shows "ctx_inv c2" "key_floor (event_key e) c2" "clock c2 = executed_at e" "clock c \<le> executed_at e"
    "queued c \<subseteq># add_mset e (queued c2)"
proof -
  note r = next_event_inv [OF assms(2,3)]
  have star: "api\<^sup>*\<^sup>* c1 c2" unfolding c2_def using assms(1) r(1) by (rule invoke_api)
  show "ctx_inv c2" "key_floor (event_key e) c2" "clock c2 = executed_at e"
    using api_star [OF star] r by auto
  show "clock c \<le> executed_at e" by (rule r(3))
  show "queued c \<subseteq># add_mset e (queued c2)"
    using api_star(4) [OF star] next_event_queued [OF assms(2,3)] by simp
qed

lemma runs_inv:
  assumes "runs H c es c'" "handlers_ok H" "ctx_inv c"
  shows "ctx_inv c' \<and> queued c' = {#} \<and> clock c \<le> clock c' \<and> queued c \<subseteq># mset es"
  using assms
proof (induction rule: runs.induct)
  case (runs_done c)
  then show ?case using next_event_None [of c] by (auto simp: ctx_inv_def)
next
  case (runs_event c e c1 es c')
  note f = round_facts [OF runs_event.prems runs_event.hyps(1)]
  from runs_event.IH [OF runs_event.prems(1) f(1)] f show ?case
    by (auto intro: subset_mset.order_trans order_trans)
qed

lemma runs_above:
  assumes "runs H c es c'" "handlers_ok H" "ctx_inv c" "key_floor k c"
  shows "\<forall>e \<in> set es. k < event_key e"
  using assms
proof (induction rule: runs.induct)
  case (runs_event c e c1 es c')
  have k: "k < event_key e"
    using next_event_queued [OF runs_event.prems(2) runs_event.hyps(1)] runs_event.prems(3)
    by (simp add: key_floor_def)
  note r = next_event_inv [OF runs_event.prems(2) runs_event.hyps(1)]
  have "next_seq c1 = next_seq c"
    using runs_event.prems(2) runs_event.hyps(1) by (rule next_event_Some) simp
  with r(2) k runs_event.prems(3) have "key_floor k c1"
    unfolding key_floor_def
    by (cases k) (auto simp: event_key_def less_prod_def intro: less_trans)
  then have "key_floor k (invoke H (callback_func e) c1 e)"
    using api_star(2) [OF invoke_api [OF runs_event.prems(1) r(1)]] by blast
  with k runs_event.IH [OF runs_event.prems(1)] round_facts [OF runs_event.prems(1,2) runs_event.hyps(1)]
  show ?case by auto
qed simp

lemma runs_sorted:
  assumes "runs H c es c'" "handlers_ok H" "ctx_inv c"
  shows "sorted_wrt (<) (map event_key es)"
  using assms
proof (induction rule: runs.induct)
  case (runs_event c e c1 es c')
  note f = round_facts [OF runs_event.prems runs_event.hyps(1)]
  have "\<forall>x \<in> set es. event_key e < event_key x"
    using runs_event.hyps(2) runs_event.prems(1) f(1,2) by (rule runs_above)
  with runs_event.IH [OF runs_event.prems(1) f(1)] show ?case by auto
qed simp

section \<open>Runs that end\<close>

text \<open>
  How far the queue is from the horizon \<open>T\<close>: the multiset of the distances of its events. A
  round takes one event out and adds events that lie strictly later, so the multiset of
  distances decreases.
\<close>

definition distances :: "nat \<Rightarrow> sim_context \<Rightarrow> nat multiset" where
  "distances T c = image_mset (\<lambda>e. T - unat (executed_at e)) (queued c)"

text \<open>Handlers that schedule strictly into the future and never beyond \<open>T\<close>.\<close>

definition forward_until :: "handlers \<Rightarrow> nat \<Rightarrow> bool" where
  "forward_until H T =
     (\<forall>n c e. ctx_inv c \<longrightarrow>
        (\<exists>new. queued (H n c e) = queued c + new \<and>
           (\<forall>x \<in># new. unat (executed_at e) < unat (executed_at x) \<and> unat (executed_at x) \<le> T)))"

lemma invoke_forward:
  assumes "forward_until H T" "ctx_inv c"
  shows "\<exists>new. queued (invoke H f c e) = queued c + new \<and>
    (\<forall>x \<in># new. unat (executed_at e) < unat (executed_at x) \<and> unat (executed_at x) \<le> T)"
proof (cases f)
  case (Handler n)
  then show ?thesis using assms by (simp add: forward_until_def)
next
  case On_Udp_Datagram
  then show ?thesis
  proof (cases "bind_of c (to_id e) (dst_port e)")
    case None
    then have "queued (invoke H f c e) = queued c + {#}" using On_Udp_Datagram by (simp add: on_udp_datagram_def)
    then show ?thesis by (intro exI [of _ "{#}"]) simp
  next
    case (Some cb)
    then show ?thesis using On_Udp_Datagram assms by (simp add: on_udp_datagram_def forward_until_def)
  qed
qed

lemma distances_decrease:
  assumes H: "handlers_ok H" "forward_until H T" and inv: "ctx_inv c"
    and ev: "next_event c = Some (e, c1)"
  shows "(distances T (invoke H (callback_func e) c1 e), distances T c) \<in> mult less_than"
proof -
  note q = next_event_queued [OF inv ev] and inv1 = next_event_inv(1) [OF inv ev]
  obtain new where new: "queued (invoke H (callback_func e) c1 e) = queued c1 + new"
    "\<forall>x \<in># new. unat (executed_at e) < unat (executed_at x) \<and> unat (executed_at x) \<le> T"
    using invoke_forward [OF H(2) inv1] by blast
  let ?d = "\<lambda>e. T - unat (executed_at e)"
  have "(image_mset ?d (queued c1) + image_mset ?d new, image_mset ?d (queued c1) + {#?d e#}) \<in> mult less_than"
    using new(2) by (intro one_step_implies_mult) auto
  then show ?thesis by (simp add: distances_def new(1) q)
qed

lemma forward_runs_end:
  assumes H: "handlers_ok H" "forward_until H T"
  shows "ctx_inv c \<Longrightarrow> \<exists>es c'. runs H c es c'"
proof (induction "distances T c" arbitrary: c rule: wf_induct_rule [OF wf_mult [OF wf_less_than]])
  case 1
  show ?case
  proof (cases "next_event c")
    case None
    then show ?thesis by (blast intro: runs_done)
  next
    case (Some p)
    obtain e c1 where p: "p = (e, c1)" by (cases p)
    note ev = Some [unfolded p]
    have "ctx_inv (invoke H (callback_func e) c1 e)" using round_facts(1) [OF H(1) 1(2) ev] .
    then obtain es c' where "runs H (invoke H (callback_func e) c1 e) es c'"
      using 1(1) [OF distances_decrease [OF H 1(2) ev]] by blast
    with ev show ?thesis by (blast intro: runs_event)
  qed
qed

section \<open>Properties\<close>

text \<open>
  C1. A run of the event loop under handlers that use the public operations executes its
  events in strictly increasing (time, sequence number) order: time never goes back, two
  events due at the same time run in the order they were scheduled, no event runs twice. It
  executes every event that was queued, leaves the queue empty and keeps the invariant.
\<close>

theorem context_run_in_order:
  assumes "handlers_ok H" "ctx_inv c" "context_run H c = Some c'"
  shows "\<exists>es. runs H c es c' \<and> sorted_wrt (<) (map event_key es) \<and> queued c \<subseteq># mset es \<and>
    ctx_inv c' \<and> queued c' = {#} \<and> clock c \<le> clock c'"
proof -
  obtain es where "runs H c es c'" using context_run_runs [OF assms(3)] by blast
  with runs_inv [OF this assms(1,2)] runs_sorted [OF this assms(1,2)] show ?thesis by blast
qed

text \<open>A handler that schedules itself one tick later until time 5.\<close>

definition tick_handler :: handlers where
  "tick_handler n c e =
     (if unat (executed_at e) < 5 \<and> next_seq c \<noteq> UINT64_MAX
      then the (snd (context_schedule (\<lambda>_ _. True) (Some c) (executed_at e + 1) (Some (Handler n)) 0))
      else c)"

lemma tick_handler_cases:
  obtains c' ok where "next_seq c \<noteq> UINT64_MAX" "unat (executed_at e) < 5" "tick_handler n c e = c'"
      "enqueue (\<lambda>_ _. True) (Some c) (executed_at e + 1) (Some (Handler n)) None 0 0 0 0 0 = (ok, Some c')"
  | "tick_handler n c e = c"
proof (cases "unat (executed_at e) < 5 \<and> next_seq c \<noteq> UINT64_MAX")
  case True
  moreover obtain ok c' where
    "enqueue (\<lambda>_ _. True) (Some c) (executed_at e + 1) (Some (Handler n)) None 0 0 0 0 0 = (ok, Some c')"
    using enqueue_live by blast
  ultimately show thesis using that(1) by (simp add: tick_handler_def context_schedule_def)
next
  case False
  then show thesis using that(2) by (auto simp: tick_handler_def)
qed

lemma tick_handler_ok: "handlers_ok tick_handler"
proof -
  have "api\<^sup>*\<^sup>* c (tick_handler n c e)" for n c e
    by (cases rule: tick_handler_cases [of c e n]) (auto intro: r_into_rtranclp api_enqueue)
  then show ?thesis by (simp add: handlers_ok_def)
qed

lemma tick_handler_forward: "forward_until tick_handler 5"
proof -
  have "\<exists>new. queued (tick_handler n c e) = queued c + new \<and>
      (\<forall>x \<in># new. unat (executed_at e) < unat (executed_at x) \<and> unat (executed_at x) \<le> 5)" for n c e
  proof (cases rule: tick_handler_cases [of c e n])
    case (1 c' ok)
    have succ: "unat (executed_at e + 1) = Suc (unat (executed_at e))"
      using 1(2) by (intro seq_less_succ(2)) (auto simp: UINT64_MAX_def)
    let ?x = "event_for c (executed_at e + 1) (Handler n) None 0 0 0 0 0"
    show ?thesis
    proof (cases ok)
      case True
      with 1 enqueue_queued [of "\<lambda>_ _. True" c "executed_at e + 1" "Some (Handler n)" None 0 0 0 0 0 c']
      have "queued (tick_handler n c e) = queued c + {#?x#}" by simp
      then show ?thesis using 1(2) succ by (intro exI [of _ "{#?x#}"]) (simp add: event_for_def)
    next
      case False
      with 1 have "tick_handler n c e = c" by (auto dest: enqueue_False)
      then show ?thesis by (intro exI [of _ "{#}"]) simp
    qed
  next
    case 2
    then show ?thesis by (intro exI [of _ "{#}"]) simp
  qed
  then show ?thesis by (simp add: forward_until_def)
qed

text \<open>Two nodes and one event queued for time 2.\<close>

definition booted_context :: sim_context where
  "booted_context = pair_context
     \<lparr>heap := Some \<lparr>data = [blank_event\<lparr>executed_at := 2\<rparr>], capacity = 8, block = 512\<rparr>, next_seq := 1\<rparr>"

lemma booted_context_inv: "ctx_inv booted_context"
  using pair_context_inv
  by (simp add: booted_context_def ctx_inv_def queue_inv_def nodes_inv_def binds_inv_def pair_context_def)
    (simp add: fresh_context_def heap_inv_def heap_safe_def is_heap_def pending_def SIZE_MAX_def
      sizeof_Event_def blank_event_def)

theorem context_run_in_order_witness:
  "\<exists>es c'. context_run tick_handler booted_context = Some c' \<and> runs tick_handler booted_context es c' \<and>
     sorted_wrt (<) (map event_key es) \<and> es \<noteq> [] \<and> queued c' = {#}"
proof -
  obtain es c' where "runs tick_handler booted_context es c'"
    using forward_runs_end [OF tick_handler_ok tick_handler_forward booted_context_inv] by blast
  then have run: "context_run tick_handler booted_context = Some c'" by (rule runs_context_run)
  have "size (queued booted_context) = 1" by (simp add: booted_context_def pending_def)
  with context_run_in_order [OF tick_handler_ok booted_context_inv run] run show ?thesis
    by (metis mset.simps(1) size_empty subset_mset.le_zero_eq zero_neq_one)
qed

text \<open>
  C2. The loop returns when every handler only schedules strictly later than the event it
  handles and never beyond a fixed horizon; no bound on the number of events is needed.
\<close>

theorem context_run_returns:
  assumes "handlers_ok H" "forward_until H T" "ctx_inv c"
  shows "\<exists>c'. context_run H c = Some c'"
  using forward_runs_end [OF assms] runs_context_run by blast

theorem context_run_returns_witness: "\<exists>c'. context_run tick_handler booted_context = Some c'"
  by (rule context_run_returns [OF tick_handler_ok tick_handler_forward booted_context_inv])

end
