(* ===== verification/Text_Format.thy ===== *)
theory Text_Format
  imports Prelude
begin

text \<open>
  The conversions of \<open>printf\<close> that the sources use: \<open>%d\<close>, \<open>%ld\<close> and \<open>%u\<close> (\<open>fmt_d\<close>) and
  \<open>%0<w>llx\<close> (\<open>fmt_x\<close>), and \<open>snprintf\<close> into a buffer, where the callers treat a truncated
  text as a failure. The lemmas say how long a number is and that it can be read off the text.
\<close>

section \<open>Formatted output\<close>

definition digit_char :: "nat \<Rightarrow> char" where
  "digit_char d = ''0123456789abcdef'' ! d"

fun digits :: "nat \<Rightarrow> nat \<Rightarrow> string" where
  "digits b n = (if n < b \<or> b < 2 then [digit_char n] else digits b (n div b) @ [digit_char (n mod b)])"

declare digits.simps [simp del]

definition fmt_d :: "int \<Rightarrow> string" where
  "fmt_d i = (if i < 0 then CHR ''-'' # digits 10 (nat (- i)) else digits 10 (nat i))"

definition pad0 :: "nat \<Rightarrow> string \<Rightarrow> string" where
  "pad0 w s = replicate (w - length s) (CHR ''0'') @ s"

definition fmt_x :: "nat \<Rightarrow> u64 \<Rightarrow> string" where
  "fmt_x w v = pad0 w (digits 16 (unat v))"

text \<open>The text when it fits the buffer with its terminator, as the callers test.\<close>

definition snprintf :: "nat \<Rightarrow> string \<Rightarrow> string option" where
  "snprintf cap s = (if length s < cap then Some s else None)"

section \<open>Digits\<close>

lemma digits_chars:
  "2 \<le> b \<Longrightarrow> digits b n \<noteq> [] \<and> (\<forall>c \<in> set (digits b n). \<exists>d < b. c = digit_char d)"
proof (induction b n rule: digits.induct)
  case (1 b n)
  then show ?case by (subst (1 2) digits.simps) (auto intro: exI [of _ "n mod b"])
qed

lemma digits_length: "2 \<le> b \<Longrightarrow> n < b ^ k \<Longrightarrow> 0 < k \<Longrightarrow> length (digits b n) \<le> k"
proof (induction k arbitrary: n)
  case (Suc k)
  show ?case
  proof (cases "n < b")
    case True
    then show ?thesis by (subst digits.simps) simp
  next
    case False
    with Suc.prems have "0 < k" by (cases k) auto
    moreover have "n div b < b ^ k" using Suc.prems by (simp add: less_mult_imp_div_less mult.commute)
    ultimately have "length (digits b (n div b)) \<le> k" using Suc by blast
    with False Suc.prems(1) show ?thesis by (subst digits.simps) simp
  qed
qed simp

lemma digit_char_inj:
  assumes "a < 10" "b < 10" "digit_char a = digit_char b"
  shows "a = b"
proof -
  have "\<forall>i \<in> set [0..<10]. \<forall>j \<in> set [0..<10]. digit_char i = digit_char j \<longrightarrow> i = j"
    by (simp add: upt_rec digit_char_def numeral_eq_Suc)
  with assms show ?thesis by auto
qed

lemma digits_inj: "digits 10 m = digits 10 n \<Longrightarrow> m = n"
proof (induction m arbitrary: n rule: less_induct)
  case (less m)
  have ne: "digits 10 k \<noteq> []" for k using digits_chars [of 10 k] by simp
  have last: "digits 10 k = (if k < 10 then [] else digits 10 (k div 10)) @ [digit_char (k mod 10)]" for k
    by (subst digits.simps) simp
  from less.prems have *: "(if m < 10 then [] else digits 10 (m div 10)) = (if n < 10 then [] else digits 10 (n div 10))"
    "digit_char (m mod 10) = digit_char (n mod 10)"
    using last [of m] last [of n] by simp_all
  from *(2) have mod: "m mod 10 = n mod 10" by (intro digit_char_inj) simp_all
  show ?case
  proof (cases "m < 10")
    case True
    with *(1) ne have "n < 10" by metis
    with True mod show ?thesis by simp
  next
    case False
    with *(1) ne have "\<not> n < 10" by metis
    with False *(1) have eq: "digits 10 (m div 10) = digits 10 (n div 10)" by simp
    have "m div 10 = n div 10" by (rule less.IH [OF _ eq]) (use False in simp)
    with mod show ?thesis by (metis div_mult_mod_eq)
  qed
qed

section \<open>Reading numbers back\<close>

definition digit_of :: "char \<Rightarrow> int option" where
  "digit_of c = (let n = of_char c :: int in if 48 \<le> n \<and> n \<le> 57 then Some (n - 48) else None)"

fun digits_val :: "int \<Rightarrow> string \<Rightarrow> int" where
  "digits_val acc [] = acc"
| "digits_val acc (c # cs) = digits_val (10 * acc + the (digit_of c)) cs"

lemma digit_of_char: "d < 10 \<Longrightarrow> digit_of (digit_char d) = Some (int d)"
proof -
  assume "d < 10"
  moreover have "list_all (\<lambda>d. digit_of (digit_char d) = Some (int d)) [0..<10]"
    by (simp add: upt_rec digit_char_def digit_of_def numeral_eq_Suc)
  then have "\<forall>d \<in> set [0..<10]. digit_of (digit_char d) = Some (int d)" by (simp only: list_all_iff)
  ultimately show ?thesis by auto
qed

lemma digits_val_snoc: "digits_val acc (s @ [c]) = 10 * digits_val acc s + the (digit_of c)"
  by (induction s arbitrary: acc) auto

lemma digits_value: "digits_val 0 (digits 10 n) = int n"
proof (induction n rule: less_induct)
  case (less n)
  show ?case
  proof (cases "n < 10")
    case True
    then show ?thesis by (subst digits.simps) (simp add: digit_of_char)
  next
    case False
    then have "digits_val 0 (digits 10 n) = 10 * int (n div 10) + int (n mod 10)"
      using less [of "n div 10"] by (subst digits.simps) (simp add: digits_val_snoc digit_of_char)
    also have "\<dots> = int n" by presburger
    finally show ?thesis .
  qed
qed

lemma digits_val_zeros: "digits_val 0 (replicate k (CHR ''0'') @ s) = digits_val 0 s"
  by (induction k) (simp_all add: digit_of_def)

lemma digits_digits: "list_ex (\<lambda>c. digit_of c = None) (digits 10 n) = False"
  using digits_chars [of 10 n] digit_of_char by (fastforce simp: list_ex_iff)

section \<open>Character ranges\<close>

definition between :: "char \<Rightarrow> char \<Rightarrow> char \<Rightarrow> bool" where
  "between lo hi c = (of_char lo \<le> (of_char c :: nat) \<and> of_char c \<le> (of_char hi :: nat))"

lemma digits_between: "list_all (between (CHR ''0'') (CHR ''9'')) (digits 10 n)"
proof -
  have "\<forall>d \<in> set [0..<10]. between (CHR ''0'') (CHR ''9'') (digit_char d)"
    by (simp add: upt_rec digit_char_def between_def numeral_eq_Suc)
  then show ?thesis using digits_chars [of 10 n] by (auto simp: list_all_iff)
qed

end
