(* ===== verification/Yaml_Parse.thy ===== *)
theory Yaml_Parse
  imports Text_Format
begin

text \<open>
  The scenario parser \<open>suite/parse.c\<close>: text to lines (comments stripped, tabs, control
  characters and carriage returns rejected), lines to a tree of maps, lists and scalars, by
  recursive descent on indentation.

  A \<open>Parser\<close> is a cursor over the lines, so each function takes the lines not yet read and
  returns those it leaves. The first error ends the parse; it is the value \<open>Err line col
  message\<close>. The recursion goes through \<open>parse_block\<close> only, so the other functions take it as
  the argument \<open>pb\<close>. Loops over lines carry fuel; \<open>Timeout\<close> and \<open>Out_of_bounds\<close> (reading
  past the last line) are results of the model that \<open>suite_parse\<close> is shown never to have.
  Allocation is taken to succeed: the \<open>"no memory"\<close> branches and the growth of the child
  arrays are not modelled.
\<close>

section \<open>Results, lines and nodes\<close>

datatype 'a res = Ok 'a | Err nat nat string | Timeout | Out_of_bounds

fun bind_res :: "'a res \<Rightarrow> ('a \<Rightarrow> 'b res) \<Rightarrow> 'b res" where
  "bind_res (Ok x) f = f x"
| "bind_res (Err l c m) f = Err l c m"
| "bind_res Timeout f = Timeout"
| "bind_res Out_of_bounds f = Out_of_bounds"

record sline =
  body :: string
  lno :: nat
  indent :: nat

datatype suite_node =
    Suite_Map nat "(string \<times> nat \<times> suite_node) list"
  | Suite_List nat "suite_node list"
  | Suite_Scalar nat string

type_synonym entries = "(string \<times> nat \<times> suite_node) list"
type_synonym block_parser = "nat \<Rightarrow> sline list \<Rightarrow> (suite_node \<times> sline list) res"

definition kMaxDepth :: nat where
  "kMaxDepth = 64"

definition kMaxLine :: nat where
  "kMaxLine = 8192"

abbreviation "SP \<equiv> CHR '' ''"
abbreviation "TAB \<equiv> CHR 0x09"
abbreviation "CR \<equiv> CHR 0x0D"
abbreviation "NL \<equiv> CHR 0x0A"
abbreviation "NUL \<equiv> CHR 0x00"
abbreviation "DQ \<equiv> CHR 0x22"
abbreviation "SQ \<equiv> CHR 0x27"
abbreviation "BS \<equiv> CHR 0x5C"
abbreviation "COLON \<equiv> CHR '':''"
abbreviation "DASH \<equiv> CHR ''-''"

definition is_quote :: "char \<Rightarrow> bool" where
  "is_quote c = (c = DQ \<or> c = SQ)"

definition map_has :: "entries \<Rightarrow> string \<Rightarrow> bool" where
  "map_has es key = list_ex (\<lambda>e. fst e = key) es"

section \<open>Quotes\<close>

text \<open>The scans below take the text from position \<open>j\<close> on, and \<open>j\<close>.\<close>

fun skip_dq :: "string \<Rightarrow> nat \<Rightarrow> nat option" where
  "skip_dq [] j = None"
| "skip_dq [c] j = (if c = BS then None else if c = DQ then Some (j + 1) else None)"
| "skip_dq (c # d # cs) j =
     (if c = BS then skip_dq cs (j + 2)
      else if c = DQ then Some (j + 1)
      else skip_dq (d # cs) (j + 1))"

fun skip_sq :: "string \<Rightarrow> nat \<Rightarrow> nat option" where
  "skip_sq [] j = None"
| "skip_sq [c] j = (if c \<noteq> SQ then None else Some (j + 1))"
| "skip_sq (c # d # cs) j =
     (if c \<noteq> SQ then skip_sq (d # cs) (j + 1)
      else if d = SQ then skip_sq cs (j + 2)
      else Some (j + 1))"

definition skip_quoted :: "string \<Rightarrow> nat \<Rightarrow> nat option" where
  "skip_quoted s i =
     (if s ! i = DQ then skip_dq (drop (i + 1) s) (i + 1)
      else skip_sq (drop (i + 1) s) (i + 1))"

fun escape_of :: "char \<Rightarrow> char option" where
  "escape_of c =
     (if c = CHR ''n'' then Some NL
      else if c = CHR ''t'' then Some TAB
      else if c = CHR ''r'' then Some CR
      else if c = BS then Some BS
      else if c = DQ then Some DQ
      else if c = SQ then Some SQ
      else None)"

text \<open>
  The two loops of \<open>quoted_body\<close>. A backslash that ends the text leaves the first loop by
  its \<open>break\<close>, and the check after the loop then takes it for the closing quote.
\<close>

fun dq_body :: "nat \<Rightarrow> nat \<Rightarrow> string \<Rightarrow> nat \<Rightarrow> string \<Rightarrow> (string \<times> nat) res" where
  "dq_body line col [] j buf = Err line col ''unterminated quote''"
| "dq_body line col [c] j buf =
     (if c = DQ then Ok (buf, j + 1)
      else if c \<noteq> BS then dq_body line col [] (j + 1) (buf @ [c])
      else Ok (buf, j + 1))"
| "dq_body line col (c # d # cs) j buf =
     (if c = DQ then Ok (buf, j + 1)
      else if c \<noteq> BS then dq_body line col (d # cs) (j + 1) (buf @ [c])
      else
        (case escape_of d of
           None \<Rightarrow> Err line (col + j) ''unknown escape''
         | Some v \<Rightarrow> dq_body line col cs (j + 2) (buf @ [v])))"

fun sq_body :: "nat \<Rightarrow> nat \<Rightarrow> string \<Rightarrow> nat \<Rightarrow> string \<Rightarrow> (string \<times> nat) res" where
  "sq_body line col [] j buf = Err line col ''unterminated quote''"
| "sq_body line col [c] j buf =
     (if c \<noteq> SQ then sq_body line col [] (j + 1) (buf @ [c]) else Ok (buf, j + 1))"
| "sq_body line col (c # d # cs) j buf =
     (if c \<noteq> SQ then sq_body line col (d # cs) (j + 1) (buf @ [c])
      else if d = SQ then sq_body line col cs (j + 2) (buf @ [SQ])
      else Ok (buf, j + 1))"

definition quoted_body :: "string \<Rightarrow> nat \<Rightarrow> nat \<Rightarrow> (string \<times> nat) res" where
  "quoted_body s line col =
     (if s = [] then Err line col ''unterminated quote''
      else if s ! 0 = DQ then dq_body line col (drop 1 s) 1 []
      else sq_body line col (drop 1 s) 1 [])"

definition unquote :: "string \<Rightarrow> nat \<Rightarrow> nat \<Rightarrow> string res" where
  "unquote s line col =
     bind_res (quoted_body s line col) (\<lambda>(text, end).
       (case first_at (\<lambda>c. c \<noteq> SP) (drop end s) of
          Some k \<Rightarrow> Err line (col + (end + k)) ''trailing text''
        | None \<Rightarrow> Ok text))"

section \<open>Scalars\<close>

fun plain_check :: "nat \<Rightarrow> nat \<Rightarrow> string \<Rightarrow> nat \<Rightarrow> unit res" where
  "plain_check line col [] i = Ok ()"
| "plain_check line col (c # cs) i =
     (if c = CHR ''{'' \<or> c = CHR ''}'' \<or> c = CHR ''['' \<or> c = CHR '']''
      then Err line (col + i) ''flow style not allowed''
      else if c = CHR ''&'' then Err line (col + i) ''anchor not allowed''
      else if c = CHR ''*'' then Err line (col + i) ''alias not allowed''
      else if c = CHR ''!'' then Err line (col + i) ''tag not allowed''
      else if c = CHR ''@'' \<or> c = CHR 0x60 then Err line (col + i) ''reserved character''
      else if c = COLON \<and> (cs = [] \<or> hd cs = SP \<or> hd cs = TAB)
      then Err line (col + i) (''unexpected '' @ [SQ, COLON, SQ])
      else plain_check line col cs (i + 1))"

definition plain :: "string \<Rightarrow> nat \<Rightarrow> nat \<Rightarrow> string res" where
  "plain s line col = bind_res (plain_check line col s 0) (\<lambda>_. Ok s)"

definition parse_scalar :: "string \<Rightarrow> nat \<Rightarrow> nat \<Rightarrow> suite_node res" where
  "parse_scalar s line col =
     (if s = [] then Err line col ''missing value''
      else
        bind_res (if is_quote (s ! 0) then unquote s line col else plain s line col)
          (\<lambda>text. Ok (Suite_Scalar line text)))"

fun key_end :: "string \<Rightarrow> nat \<Rightarrow> nat option" where
  "key_end [] i = None"
| "key_end (c # cs) i =
     (if c \<noteq> COLON then key_end cs (i + 1)
      else if cs = [] then Some i
      else if hd cs = SP then Some i
      else key_end cs (i + 1))"

definition is_dash :: "string \<Rightarrow> bool" where
  "is_dash s = (if s = [] \<or> s ! 0 \<noteq> DASH then False else if length s = 1 then True else s ! 1 = SP)"

abbreviation skip_spaces :: "string \<Rightarrow> string" where
  "skip_spaces s \<equiv> dropWhile (\<lambda>c. c = SP) s"

definition is_empty_list :: "string \<Rightarrow> bool" where
  "is_empty_list s =
     (if s = [] \<or> s ! 0 \<noteq> CHR ''['' then False
      else
        (case skip_spaces (drop 1 s) of
           [] \<Rightarrow> False
         | c # r \<Rightarrow> c = CHR '']'' \<and> skip_spaces r = []))"

definition spaces_from :: "string \<Rightarrow> nat \<Rightarrow> nat" where
  "spaces_from s c = length (takeWhile (\<lambda>c. c = SP) (drop c s))"

definition rstrip :: "string \<Rightarrow> string" where
  "rstrip s = rev (dropWhile (\<lambda>c. c = SP) (rev s))"

section \<open>Keys and values\<close>

text \<open>
  The key at the start of \<open>s\<close>, and the position after its colon. \<open>col\<close> is the column of \<open>s\<close>
  and \<open>nocol\<close> the one reported when there is no colon, the only difference between the two
  copies of this code in \<open>parse_entry\<close> and \<open>parse_inline\<close>.
\<close>

definition parse_key :: "string \<Rightarrow> nat \<Rightarrow> nat \<Rightarrow> nat \<Rightarrow> (string \<times> nat) res" where
  "parse_key s line col nocol =
     (if is_quote (s ! 0) then
        bind_res (quoted_body s line col) (\<lambda>(key, end).
          if key = [] then Err line col ''empty key''
          else
            let k = end + spaces_from s end in
            if k = length s \<or> s ! k \<noteq> COLON then Err line (col + k) (''expected '' @ [SQ, COLON, SQ])
            else Ok (key, k + 1))
      else
        (case key_end s 0 of
           None \<Rightarrow> Err line nocol (''expected '' @ [SQ, COLON, SQ])
         | Some ke \<Rightarrow>
             let ks = rstrip (take ke s) in
             if ks = [] then Err line col ''empty key''
             else bind_res (plain ks line col) (\<lambda>key. Ok (key, ke + 1))))"

definition parse_value ::
  "block_parser \<Rightarrow> sline \<Rightarrow> nat \<Rightarrow> nat \<Rightarrow> bool \<Rightarrow> sline list \<Rightarrow> (suite_node \<times> sline list) res" where
  "parse_value pb ln c ind same ls =
     (let i = c + spaces_from (body ln) c; s = drop i (body ln) in
      if s = [] then
        (case ls of
           nx # _ \<Rightarrow>
             if indent nx > ind \<or> (same \<and> indent nx = ind \<and> is_dash (body nx))
             then pb (indent nx) ls
             else Err (lno ln) (indent ln + length (body ln) + 1) ''missing value''
         | [] \<Rightarrow> Err (lno ln) (indent ln + length (body ln) + 1) ''missing value'')
      else if is_empty_list s then Ok (Suite_List (lno ln) [], ls)
      else
        let col = indent ln + i + 1; f = s ! 0 in
        if f = CHR ''|'' \<or> f = CHR ''>'' then Err (lno ln) col ''block scalar not allowed''
        else if f = CHR ''%'' then Err (lno ln) col ''directive not allowed''
        else if f = CHR ''?'' \<and> (length s = 1 \<or> s ! 1 = SP) then Err (lno ln) col (''unexpected '' @ [SQ, CHR ''?'', SQ])
        else if f = DASH \<and> (length s = 1 \<or> s ! 1 = SP) then Err (lno ln) col (''unexpected '' @ [SQ, DASH, SQ])
        else if f = CHR ''@'' \<or> f = CHR 0x60 then Err (lno ln) col ''reserved character''
        else bind_res (parse_scalar s (lno ln) col) (\<lambda>nd. Ok (nd, ls)))"

section \<open>Maps and lists\<close>

definition parse_entry ::
  "block_parser \<Rightarrow> entries \<Rightarrow> nat \<Rightarrow> sline \<Rightarrow> sline list \<Rightarrow> (entries \<times> sline list) res" where
  "parse_entry pb es ind ln ls =
     (if body ln ! 0 = CHR ''?'' \<and> (length (body ln) = 1 \<or> body ln ! 1 = SP)
      then Err (lno ln) (indent ln + 1) (''unexpected '' @ [SQ, CHR ''?'', SQ])
      else
        bind_res (parse_key (body ln) (lno ln) (indent ln + 1) (indent ln + length (body ln) + 1))
          (\<lambda>(key, c).
             if map_has es key then Err (lno ln) (indent ln + 1) ''duplicate key''
             else
               bind_res (parse_value pb ln c ind True ls) (\<lambda>(val, ls).
                 Ok (es @ [(key, lno ln, val)], ls))))"

fun parse_map_body ::
  "nat \<Rightarrow> block_parser \<Rightarrow> entries \<Rightarrow> nat \<Rightarrow> sline list \<Rightarrow> (entries \<times> sline list) res" where
  "parse_map_body 0 pb es ind ls = Timeout"
| "parse_map_body (Suc fuel) pb es ind [] = Ok (es, [])"
| "parse_map_body (Suc fuel) pb es ind (ln # ls) =
     (if indent ln = ind then
        (if is_dash (body ln) then Err (lno ln) (ind + 1) (''unexpected '' @ [SQ, DASH, SQ])
         else
           bind_res (parse_entry pb es ind ln ls) (\<lambda>(es, ls). parse_map_body fuel pb es ind ls))
      else if indent ln > ind then Err (lno ln) (indent ln + 1) ''unexpected indentation''
      else Ok (es, ln # ls))"

definition parse_inline ::
  "nat \<Rightarrow> block_parser \<Rightarrow> sline \<Rightarrow> nat \<Rightarrow> nat \<Rightarrow> sline list \<Rightarrow> (suite_node \<times> sline list) res" where
  "parse_inline fuel pb ln i ind ls =
     (let col = indent ln + i + 1 in
      bind_res (parse_key (drop i (body ln)) (lno ln) col col) (\<lambda>(key, c).
        bind_res (parse_value pb ln (i + c) ind False ls) (\<lambda>(val, ls).
          (case ls of
             nx # _ \<Rightarrow>
               if indent nx > ind then
                 bind_res (parse_map_body fuel pb [(key, lno ln, val)] (indent nx) ls)
                   (\<lambda>(es, ls). Ok (Suite_Map (lno ln) es, ls))
               else Ok (Suite_Map (lno ln) [(key, lno ln, val)], ls)
           | [] \<Rightarrow> Ok (Suite_Map (lno ln) [(key, lno ln, val)], ls)))))"

text \<open>Whether an item starts with a key: the choice of \<open>parse_item\<close>.\<close>

definition starts_key :: "string \<Rightarrow> bool" where
  "starts_key s =
     (if is_quote (s ! 0) then
        (case skip_quoted s 0 of
           None \<Rightarrow> False
         | Some close \<Rightarrow>
             let k = close + spaces_from s close in k < length s \<and> s ! k = COLON)
      else key_end s 0 \<noteq> None)"

definition parse_item ::
  "nat \<Rightarrow> block_parser \<Rightarrow> nat \<Rightarrow> sline \<Rightarrow> sline list \<Rightarrow> (suite_node \<times> sline list) res" where
  "parse_item fuel pb ind ln ls =
     (let i = 1 + spaces_from (body ln) 1; s = drop i (body ln); col = indent ln + i + 1 in
      if s = [] then
        (case ls of
           nx # _ \<Rightarrow>
             if indent nx > ind then pb (indent nx) ls
             else Err (lno ln) (indent ln + length (body ln) + 1) ''missing value''
         | [] \<Rightarrow> Err (lno ln) (indent ln + length (body ln) + 1) ''missing value'')
      else if is_empty_list s then Ok (Suite_List (lno ln) [], ls)
      else if starts_key s then parse_inline fuel pb ln i ind ls
      else bind_res (parse_scalar s (lno ln) col) (\<lambda>nd. Ok (nd, ls)))"

fun parse_list ::
  "nat \<Rightarrow> block_parser \<Rightarrow> suite_node list \<Rightarrow> nat \<Rightarrow> sline list \<Rightarrow> (suite_node list \<times> sline list) res" where
  "parse_list 0 pb ns ind ls = Timeout"
| "parse_list (Suc fuel) pb ns ind [] = Ok (ns, [])"
| "parse_list (Suc fuel) pb ns ind (ln # ls) =
     (if indent ln = ind \<and> is_dash (body ln) then
        bind_res (parse_item fuel pb ind ln ls) (\<lambda>(nd, ls). parse_list fuel pb (ns @ [nd]) ind ls)
      else if indent ln > ind then Err (lno ln) (indent ln + 1) ''unexpected indentation''
      else Ok (ns, ln # ls))"

fun parse_block :: "nat \<Rightarrow> nat \<Rightarrow> block_parser" where
  "parse_block 0 depth ind ls = Timeout"
| "parse_block (Suc fuel) depth ind [] = Out_of_bounds"
| "parse_block (Suc fuel) depth ind (ln # ls) =
     (if depth \<ge> kMaxDepth then Err (lno ln) (indent ln + 1) ''too deep''
      else if is_dash (body ln) then
        bind_res (parse_list fuel (parse_block fuel (depth + 1)) [] ind (ln # ls))
          (\<lambda>(ns, ls). Ok (Suite_List (lno ln) ns, ls))
      else
        bind_res (parse_map_body fuel (parse_block fuel (depth + 1)) [] ind (ln # ls))
          (\<lambda>(es, ls). Ok (Suite_Map (lno ln) es, ls)))"

section \<open>Lines\<close>

lemma skip_dq_after: "skip_dq s j = Some e \<Longrightarrow> j < e \<and> e \<le> j + length s"
  by (induction s j rule: skip_dq.induct) (fastforce split: if_splits)+

lemma skip_sq_after: "skip_sq s j = Some e \<Longrightarrow> j < e \<and> e \<le> j + length s"
  by (induction s j rule: skip_sq.induct) (fastforce split: if_splits)+

lemma skip_quoted_after: "skip_quoted s i = Some e \<Longrightarrow> i < length s \<Longrightarrow> i + 1 < e \<and> e \<le> length s"
  by (auto simp: skip_quoted_def dest!: skip_dq_after skip_sq_after split: if_splits)

text \<open>
  The scan of \<open>scrub_line\<close> from position \<open>i\<close> on: the length it keeps, before trailing blanks
  are cut.
\<close>

function scrub_from :: "nat \<Rightarrow> nat \<Rightarrow> string \<Rightarrow> nat \<Rightarrow> nat res" where
  "scrub_from line ind s i =
     (if i < length s then
        let c = s ! i in
        if is_quote c then
          (case skip_quoted s i of
             None \<Rightarrow> Err line (ind + i + 1) ''unterminated quote''
           | Some close \<Rightarrow> scrub_from line ind s close)
        else if c = CHR ''#'' \<and> (i = 0 \<or> s ! (i - 1) = SP \<or> s ! (i - 1) = TAB) then Ok i
        else if c = TAB then Err line (ind + i + 1) ''tab not allowed''
        else if (of_char c :: nat) < 0x20 then Err line (ind + i + 1) ''bad character''
        else scrub_from line ind s (i + 1)
      else Ok (length s))"
  by pat_completeness auto
termination
  by (relation "measure (\<lambda>(line, ind, s, i). length s - i)") (auto dest: skip_quoted_after)

declare scrub_from.simps [simp del]

definition blank_char :: "char \<Rightarrow> bool" where
  "blank_char c = (c = SP \<or> c = TAB)"

definition scrub_line :: "nat \<Rightarrow> nat \<Rightarrow> string \<Rightarrow> string res" where
  "scrub_line line ind s =
     bind_res (scrub_from line ind s 0) (\<lambda>len.
       Ok (rev (dropWhile blank_char (rev (take len s)))))"

definition take_line :: "string \<Rightarrow> nat \<Rightarrow> sline option res" where
  "take_line raw line =
     (if length raw > kMaxLine then Err line 1 ''line too long''
      else
        let raw = (if raw \<noteq> [] \<and> last raw = CR then butlast raw else raw) in
        (case first_at (\<lambda>c. c = CR) raw of
           Some k \<Rightarrow> Err line (k + 1) ''bad carriage return''
         | None \<Rightarrow>
             let ind = length (takeWhile (\<lambda>c. c = SP) raw); b = drop ind raw in
             if b \<noteq> [] \<and> b ! 0 = TAB then Err line (ind + 1) ''tab in indentation''
             else if list_all blank_char b then Ok None
             else if b ! 0 = CHR ''#'' then Ok None
             else
               bind_res (scrub_line line ind b) (\<lambda>b.
                 if b = [] then Ok None
                 else if b ! 0 = CHR ''%'' then Err line (ind + 1) ''directive not allowed''
                 else Ok (Some \<lparr>body = b, lno = line, indent = ind\<rparr>))))"

text \<open>The text cut at newlines.\<close>

fun split_nl :: "string \<Rightarrow> string \<Rightarrow> string list" where
  "split_nl acc [] = [acc]"
| "split_nl acc (c # cs) = (if c = NL then acc # split_nl [] cs else split_nl (acc @ [c]) cs)"

fun take_lines :: "nat \<Rightarrow> string list \<Rightarrow> sline list res" where
  "take_lines line [] = Ok []"
| "take_lines line (raw # raws) =
     bind_res (take_line raw line) (\<lambda>l.
       bind_res (take_lines (line + 1) raws) (\<lambda>ls.
         Ok (case l of None \<Rightarrow> ls | Some ln \<Rightarrow> ln # ls)))"

text \<open>Position of the first NUL byte: its line and column.\<close>

definition nul_error :: "string \<Rightarrow> nat \<Rightarrow> suite_node res" where
  "nul_error text i =
     (let pre = take i text in
      Err (1 + length (filter (\<lambda>c. c = NL) pre))
          (length (takeWhile (\<lambda>c. c \<noteq> NL) (rev pre)) + 1) ''NUL byte'')"

definition suite_parse :: "string \<Rightarrow> suite_node res" where
  "suite_parse text =
     (case first_at (\<lambda>c. c = NUL) text of
        Some i \<Rightarrow> nul_error text i
      | None \<Rightarrow>
          bind_res (take_lines 1 (split_nl [] text)) (\<lambda>ls.
            (case ls of
               [] \<Rightarrow> Ok (Suite_Map 1 [])
             | l0 # _ \<Rightarrow>
                 bind_res (parse_block (length ls + 2) 0 (indent l0) ls) (\<lambda>(root, rest).
                   (case rest of
                      [] \<Rightarrow> Ok root
                    | ln # _ \<Rightarrow> Err (lno ln) (indent ln + 1) ''inconsistent indentation'')))))"

section \<open>Accessors\<close>

definition suite_map_find :: "suite_node ptr \<Rightarrow> string ptr \<Rightarrow> suite_node ptr" where
  "suite_map_find np kp =
     (case (np, kp) of
        (Some (Suite_Map _ es), Some key) \<Rightarrow> map_option (\<lambda>e. snd (snd e)) (find (\<lambda>e. fst e = key) es)
      | _ \<Rightarrow> None)"

definition suite_list_len :: "suite_node ptr \<Rightarrow> nat" where
  "suite_list_len np = (case np of Some (Suite_List _ ns) \<Rightarrow> length ns | _ \<Rightarrow> 0)"

definition suite_list_at :: "suite_node ptr \<Rightarrow> nat \<Rightarrow> suite_node ptr" where
  "suite_list_at np i =
     (case np of Some (Suite_List _ ns) \<Rightarrow> if i \<ge> length ns then None else Some (ns ! i) | _ \<Rightarrow> None)"

definition suite_scalar_str :: "suite_node ptr \<Rightarrow> string ptr" where
  "suite_scalar_str np = (case np of Some (Suite_Scalar _ s) \<Rightarrow> Some s | _ \<Rightarrow> None)"

definition LLONG_MAX :: int where
  "LLONG_MAX = 9223372036854775807"

text \<open>\<open>strtoll\<close> on an optional sign and digits: the value, or \<open>ERANGE\<close>.\<close>

definition strtoll10 :: "string \<Rightarrow> int option" where
  "strtoll10 s =
     (let neg = (s \<noteq> [] \<and> s ! 0 = DASH);
          ds = (if s \<noteq> [] \<and> (s ! 0 = CHR ''+'' \<or> s ! 0 = DASH) then drop 1 s else s);
          v = (if neg then - digits_val 0 ds else digits_val 0 ds) in
      if v > LLONG_MAX \<or> v < - LLONG_MAX - 1 then None else Some v)"

definition suite_scalar_int :: "suite_node ptr \<Rightarrow> int option" where
  "suite_scalar_int np =
     (case np of
        Some (Suite_Scalar _ s) \<Rightarrow>
          let ds = (if s \<noteq> [] \<and> (s ! 0 = CHR ''+'' \<or> s ! 0 = DASH) then drop 1 s else s) in
          if ds = [] then None
          else if list_ex (\<lambda>c. digit_of c = None) ds then None
          else strtoll10 s
      | _ \<Rightarrow> None)"

end
