(* ===== verification/Yaml_Sound.thy ===== *)
theory Yaml_Sound
  imports Yaml_Parse "HOL-Library.Sublist"
begin

text \<open>
  What \<open>suite_parse\<close> promises on every text: it returns, a tree it accepts is well formed, and
  an error points into the text.

  The functions of the descent call back into \<open>parse_block\<close> only, so what they rely on is the
  interface \<open>block_parser\<close>: on any lines shorter than \<open>cap\<close> the block parser reads at least one
  line and returns a well-formed node, or reports an error inside those lines. The lemmas about
  entries, map bodies, items and lists are proved once against the interface, and
  \<open>parse_block\<close> with enough fuel is an interpretation of it.
\<close>

section \<open>Well-formed trees\<close>

text \<open>
  \<open>h\<close> bounds the nesting of containers; keys are distinct and not empty.
\<close>

fun well_formed :: "nat \<Rightarrow> suite_node \<Rightarrow> bool" where
  "well_formed h (Suite_Scalar l s) = True"
| "well_formed 0 (Suite_List l ns) = False"
| "well_formed 0 (Suite_Map l es) = False"
| "well_formed (Suc h) (Suite_List l ns) = list_all (well_formed h) ns"
| "well_formed (Suc h) (Suite_Map l es) =
     (distinct (map fst es) \<and> list_all (\<lambda>e. fst e \<noteq> [] \<and> well_formed h (snd (snd e))) es)"

lemma well_formed_mono: "well_formed h nd \<Longrightarrow> h \<le> h' \<Longrightarrow> well_formed h' nd"
proof (induction h nd arbitrary: h' rule: well_formed.induct)
  case (4 h l ns)
  then obtain k where "h' = Suc k" "h \<le> k" by (cases h') auto
  with 4 show ?case by (auto simp: list_all_iff)
next
  case (5 h l es)
  then obtain k where "h' = Suc k" "h \<le> k" by (cases h') auto
  with 5 show ?case by (fastforce simp: list_all_iff)
qed auto

definition map_wf :: "nat \<Rightarrow> entries \<Rightarrow> bool" where
  "map_wf h es = (distinct (map fst es) \<and> list_all (\<lambda>e. fst e \<noteq> [] \<and> well_formed h (snd (snd e))) es)"

lemma map_wf_node: "map_wf h es \<Longrightarrow> well_formed (Suc h) (Suite_Map l es)"
  by (simp add: map_wf_def)

lemma map_wf_mono: "map_wf h es \<Longrightarrow> map_wf (Suc h) es"
  by (auto simp: map_wf_def list_all_iff intro: well_formed_mono)

lemma map_wf_put:
  "map_wf h es \<Longrightarrow> \<not> map_has es key \<Longrightarrow> key \<noteq> [] \<Longrightarrow> well_formed h nd \<Longrightarrow> map_wf h (es @ [(key, l, nd)])"
  by (auto simp: map_wf_def map_has_def list_ex_iff)

section \<open>Outcomes\<close>

text \<open>A result about a stretch of text: columns from \<open>lo\<close> to \<open>hi\<close> of one line.\<close>

fun spans :: "nat \<Rightarrow> nat \<Rightarrow> nat \<Rightarrow> ('a \<Rightarrow> bool) \<Rightarrow> 'a res \<Rightarrow> bool" where
  "spans line lo hi Q (Ok x) = Q x"
| "spans line lo hi Q (Err l c m) = (l = line \<and> lo \<le> c \<and> c \<le> hi)"
| "spans line lo hi Q _ = False"

lemma spans_mono:
  "spans line lo hi Q r \<Longrightarrow> lo' \<le> lo \<Longrightarrow> hi \<le> hi' \<Longrightarrow> (\<And>x. Q x \<Longrightarrow> R x) \<Longrightarrow> spans line lo' hi' R r"
  by (cases r) auto

lemma spans_bind:
  "spans line lo hi Q r \<Longrightarrow> (\<And>x. Q x \<Longrightarrow> spans line lo hi R (f x)) \<Longrightarrow> spans line lo hi R (bind_res r f)"
  by (cases r) auto

text \<open>A column of a line, one past its end included.\<close>

definition in_line :: "sline \<Rightarrow> nat \<Rightarrow> bool" where
  "in_line ln c = (indent ln + 1 \<le> c \<and> c \<le> indent ln + length (body ln) + 1)"

fun outcome :: "('a \<Rightarrow> bool) \<Rightarrow> sline list \<Rightarrow> sline list \<Rightarrow> ('a \<times> sline list) res \<Rightarrow> bool" where
  "outcome Q errs ls (Ok (x, ls')) = (Q x \<and> suffix ls' ls)"
| "outcome Q errs ls (Err l c m) = (\<exists>ln \<in> set errs. l = lno ln \<and> in_line ln c)"
| "outcome Q errs ls _ = False"

lemma outcome_mono:
  "outcome Q errs ls r \<Longrightarrow> set errs \<subseteq> set errs' \<Longrightarrow> suffix ls ls' \<Longrightarrow> (\<And>x. Q x \<Longrightarrow> R x) \<Longrightarrow>
   outcome R errs' ls' r"
  by (cases "(Q, errs, ls, r)" rule: outcome.cases) (auto intro: suffix_order.order_trans)

lemma outcome_bind:
  assumes "outcome Q errs ls r"
    and "\<And>x ls'. Q x \<Longrightarrow> suffix ls' ls \<Longrightarrow> outcome R errs ls (f (x, ls'))"
  shows "outcome R errs ls (bind_res r f)"
  using assms by (cases "(Q, errs, ls, r)" rule: outcome.cases) auto

text \<open>From columns of one line to an outcome.\<close>

lemma spans_outcome:
  assumes "spans (lno ln) (indent ln + 1) (indent ln + length (body ln) + 1) Q r" "ln \<in> set errs"
    and "\<And>x. Q x \<Longrightarrow> outcome R errs ls (f x)"
  shows "outcome R errs ls (bind_res r f)"
  using assms by (cases r) (auto simp: in_line_def)

section \<open>Quotes, scalars and keys\<close>

lemma dq_body_spans:
  "spans line col (col + (j + length s)) (\<lambda>(t, e). e \<le> j + length s) (dq_body line col s j buf)"
proof (induction line col s j buf rule: dq_body.induct)
  case (2 line col c j buf)
  then show ?case by (cases "c = DQ"; cases "c = BS") auto
next
  case (3 line col c d cs j buf)
  then show ?case
    by (cases "escape_of d") (auto intro: spans_mono simp del: escape_of.simps)
qed simp

lemma sq_body_spans:
  "spans line col (col + (j + length s)) (\<lambda>(t, e). e \<le> j + length s) (sq_body line col s j buf)"
proof (induction line col s j buf rule: sq_body.induct)
  case (3 line col c d cs j buf)
  then show ?case by (auto intro: spans_mono)
qed simp_all

lemma quoted_body_spans:
  "spans line col (col + length s) (\<lambda>(t, e). e \<le> length s) (quoted_body s line col)"
proof (cases "s = []")
  case False
  then have "1 + length (drop 1 s) = length s" by (cases s) auto
  with dq_body_spans [of line col 1 "drop 1 s" "[]"] sq_body_spans [of line col 1 "drop 1 s" "[]"] False
  show ?thesis by (simp add: quoted_body_def)
qed (simp add: quoted_body_def)

lemma unquote_spans: "spans line col (col + length s) (\<lambda>_. True) (unquote s line col)"
  unfolding unquote_def
proof (rule spans_bind [OF quoted_body_spans])
  fix x :: "string \<times> nat"
  show "spans line col (col + length s) (\<lambda>_. True)
      (case x of (text, end) \<Rightarrow>
        (case first_at (\<lambda>c. c \<noteq> SP) (drop end s) of
           Some k \<Rightarrow> Err line (col + (end + k)) ''trailing text''
         | None \<Rightarrow> Ok text))"
    by (auto split: prod.splits option.splits dest!: first_at_Some)
qed

lemma plain_check_spans: "spans line col (col + (i + length s)) (\<lambda>_. True) (plain_check line col s i)"
proof (induction s arbitrary: i)
  case (Cons c cs)
  have "spans line col (col + (i + length (c # cs))) (\<lambda>_. True) (plain_check line col cs (i + 1))"
    using Cons [of "i + 1"] by simp
  then show ?case by simp
qed simp

lemma plain_spans: "spans line col (col + length s) (\<lambda>t. t = s) (plain s line col)"
  using plain_check_spans [of line col 0 s] unfolding plain_def
  by (intro spans_bind) auto

lemma parse_scalar_spans:
  "spans line col (col + length s) (well_formed h) (parse_scalar s line col)"
proof -
  have "spans line col (col + length s) (\<lambda>_. True) (plain s line col)"
    by (rule spans_mono [OF plain_spans]) simp_all
  then have "spans line col (col + length s) (\<lambda>_. True) (if is_quote (s ! 0) then unquote s line col else plain s line col)"
    using unquote_spans by simp
  then show ?thesis unfolding parse_scalar_def by (auto elim!: spans_bind)
qed

lemma key_end_less: "key_end s i = Some k \<Longrightarrow> i \<le> k \<and> k < i + length s"
  by (induction s arbitrary: i) (fastforce split: if_splits)+

lemma spaces_from_le: "c \<le> length s \<Longrightarrow> c + spaces_from s c \<le> length s"
  unfolding spaces_from_def by (metis add.commute le_diff_conv2 length_drop length_takeWhile_le)

lemma rstrip_length: "length (rstrip s) \<le> length s"
  unfolding rstrip_def by (metis length_dropWhile_le length_rev)

lemma parse_key_spans:
  assumes "col \<le> nocol" "nocol \<le> col + length s"
  shows "spans line col (col + length s) (\<lambda>(k, c). k \<noteq> [] \<and> c \<le> length s) (parse_key s line col nocol)"
proof (cases "is_quote (s ! 0)")
  case True
  have tail: "spans line col (col + length s) (\<lambda>(k, c). k \<noteq> [] \<and> c \<le> length s)
      (if key = [] then Err line col m'
       else let k = e + spaces_from s e in
         if k = length s \<or> s ! k \<noteq> COLON then Err line (col + k) m else Ok (key, k + 1))"
    if "e \<le> length s" for key e m m'
    using spaces_from_le [OF that] by (auto simp: Let_def)
  show ?thesis
    unfolding parse_key_def if_P [OF True]
    by (rule spans_bind [OF quoted_body_spans]) (use tail in auto)
next
  case False
  show ?thesis
  proof (cases "key_end s 0")
    case None
    with False assms show ?thesis by (simp add: parse_key_def)
  next
    case (Some ke)
    let ?ks = "rstrip (take ke s)"
    have ke: "ke < length s" using key_end_less [OF Some] by simp
    have "length ?ks \<le> length s" using rstrip_length [of "take ke s"] ke by simp
    then have p: "spans line col (col + length s) (\<lambda>t. t = ?ks) (plain ?ks line col)"
      by (intro spans_mono [OF plain_spans]) auto
    have "spans line col (col + length s) (\<lambda>(k, c). k \<noteq> [] \<and> c \<le> length s)
        (bind_res (plain ?ks line col) (\<lambda>key. Ok (key, ke + 1)))" if "?ks \<noteq> []"
      by (rule spans_bind [OF p]) (use ke that in simp)
    with False Some show ?thesis by (simp add: parse_key_def Let_def)
  qed
qed

lemma parse_key_outcome:
  assumes "i \<le> length (body ln)" "indent ln + i + 1 \<le> nocol" "nocol \<le> indent ln + length (body ln) + 1"
    "ln \<in> set errs"
    and "\<And>key c. key \<noteq> [] \<Longrightarrow> i + c \<le> length (body ln) \<Longrightarrow> outcome R errs ls (f (key, c))"
  shows "outcome R errs ls (bind_res (parse_key (drop i (body ln)) (lno ln) (indent ln + i + 1) nocol) f)"
proof (rule spans_outcome [OF _ assms(4)])
  have "spans (lno ln) (indent ln + i + 1) (indent ln + i + 1 + length (drop i (body ln)))
      (\<lambda>(k, c). k \<noteq> [] \<and> c \<le> length (drop i (body ln))) (parse_key (drop i (body ln)) (lno ln) (indent ln + i + 1) nocol)"
    using assms(1-3) by (intro parse_key_spans) auto
  then show "spans (lno ln) (indent ln + 1) (indent ln + length (body ln) + 1)
      (\<lambda>(k, c). k \<noteq> [] \<and> i + c \<le> length (body ln)) (parse_key (drop i (body ln)) (lno ln) (indent ln + i + 1) nocol)"
    by (rule spans_mono) (use assms(1) in auto)
qed (use assms(5) in auto)

lemma parse_scalar_outcome:
  assumes "i \<le> length (body ln)" "ln \<in> set errs" "suffix ls' ls"
  shows "outcome (well_formed h) errs ls
    (bind_res (parse_scalar (drop i (body ln)) (lno ln) (indent ln + i + 1)) (\<lambda>nd. Ok (nd, ls')))"
proof (rule spans_outcome [OF _ assms(2)])
  show "spans (lno ln) (indent ln + 1) (indent ln + length (body ln) + 1) (well_formed h)
      (parse_scalar (drop i (body ln)) (lno ln) (indent ln + i + 1))"
    using assms(1) by (intro spans_mono [OF parse_scalar_spans]) auto
qed (use assms(3) in simp)

section \<open>The descent, given a block parser\<close>

definition lines_ok :: "sline list \<Rightarrow> bool" where
  "lines_ok ls = (\<forall>ln \<in> set ls. body ln \<noteq> [])"

lemma lines_ok_suffix: "lines_ok ls \<Longrightarrow> suffix ls' ls \<Longrightarrow> lines_ok ls'"
  by (auto simp: lines_ok_def dest: set_mono_suffix)

locale blocks =
  fixes pb :: block_parser and h cap :: nat
  assumes pb_outcome: "lines_ok (ln # ls) \<Longrightarrow> length (ln # ls) \<le> cap \<Longrightarrow>
      outcome (well_formed (Suc h)) (ln # ls) ls (pb (indent ln) (ln # ls))"
begin

lemma value_outcome:
  assumes "c \<le> length (body ln)" "length ls \<le> cap" "lines_ok ls"
  shows "outcome (well_formed (Suc h)) (ln # ls) ls (parse_value pb ln c ind same ls)"
proof -
  define i where "i = c + spaces_from (body ln) c"
  have i: "i \<le> length (body ln)" unfolding i_def using assms(1) by (rule spaces_from_le)
  have missing: "outcome (well_formed (Suc h)) (ln # ls) ls
      (Err (lno ln) (indent ln + length (body ln) + 1) m)" for m
    by (simp add: in_line_def)
  have bad: "outcome (well_formed (Suc h)) (ln # ls) ls (Err (lno ln) (indent ln + i + 1) m)" for m
    using i by (simp add: in_line_def)
  show ?thesis
  proof (cases "drop i (body ln) = []")
    case True
    show ?thesis
    proof (cases ls)
      case Nil
      with True missing show ?thesis by (simp add: parse_value_def Let_def i_def)
    next
      case (Cons nx rest)
      have "outcome (well_formed (Suc h)) ls rest (pb (indent nx) ls)"
        using pb_outcome [of nx rest] assms(2,3) Cons by simp
      then have "outcome (well_formed (Suc h)) (ln # ls) ls (pb (indent nx) ls)"
        by (rule outcome_mono) (auto simp: Cons suffix_Cons)
      with True missing Cons show ?thesis by (simp add: parse_value_def Let_def i_def)
    qed
  next
    case False
    have "outcome (well_formed (Suc h)) (ln # ls) ls
        (bind_res (parse_scalar (drop i (body ln)) (lno ln) (indent ln + i + 1)) (\<lambda>nd. Ok (nd, ls)))"
      using i by (intro parse_scalar_outcome) auto
    with False bad show ?thesis
      unfolding parse_value_def Let_def i_def [symmetric] by simp
  qed
qed

lemma entry_outcome:
  assumes "body ln \<noteq> []" "length ls \<le> cap" "lines_ok ls" "map_wf (Suc h) es"
  shows "outcome (map_wf (Suc h)) (ln # ls) ls (parse_entry pb es ind ln ls)"
proof -
  have start: "in_line ln (indent ln + 1)" by (simp add: in_line_def)
  have "outcome (map_wf (Suc h)) (ln # ls) ls
      (if map_has es key then Err (lno ln) (indent ln + 1) ''duplicate key''
       else bind_res (parse_value pb ln c ind True ls) (\<lambda>(val, ls). Ok (es @ [(key, lno ln, val)], ls)))"
    if key: "key \<noteq> []" "c \<le> length (body ln)" for key c
  proof (cases "map_has es key")
    case False
    have "outcome (map_wf (Suc h)) (ln # ls) ls
        (bind_res (parse_value pb ln c ind True ls) (\<lambda>(val, ls). Ok (es @ [(key, lno ln, val)], ls)))"
      by (rule outcome_bind [OF value_outcome [OF key(2) assms(2,3)]])
        (use False key(1) assms(4) in \<open>auto intro: map_wf_put\<close>)
    with False show ?thesis by simp
  qed (use start in simp)
  then have "outcome (map_wf (Suc h)) (ln # ls) ls
      (bind_res (parse_key (drop 0 (body ln)) (lno ln) (indent ln + 0 + 1) (indent ln + length (body ln) + 1))
        (\<lambda>(key, c).
          if map_has es key then Err (lno ln) (indent ln + 1) ''duplicate key''
          else bind_res (parse_value pb ln c ind True ls) (\<lambda>(val, ls). Ok (es @ [(key, lno ln, val)], ls))))"
    by (intro parse_key_outcome) auto
  with start show ?thesis by (simp add: parse_entry_def)
qed

lemma map_body_outcome:
  assumes "length ls < fuel" "length ls \<le> Suc cap" "lines_ok ls" "map_wf (Suc h) es"
  shows "outcome (map_wf (Suc h)) ls ls (parse_map_body fuel pb es ind ls)"
  using assms
proof (induction fuel arbitrary: es ls)
  case (Suc fuel)
  show ?case
  proof (cases ls)
    case (Cons ln rest)
    have ok: "body ln \<noteq> []" "lines_ok rest" "length rest \<le> cap" "length rest < fuel"
      using Suc.prems Cons by (simp_all add: lines_ok_def)
    have rec: "outcome (map_wf (Suc h)) (ln # rest) rest
        (bind_res (parse_entry pb es ind ln rest) (\<lambda>(es, ls). parse_map_body fuel pb es ind ls))"
    proof (rule outcome_bind [OF entry_outcome [OF ok(1,3,2) Suc.prems(4)]])
      fix es' ls' assume e: "map_wf (Suc h) es'" "suffix ls' rest"
      have "length ls' \<le> length rest" using e(2) by (rule suffix_length_le)
      then have "outcome (map_wf (Suc h)) ls' ls' (parse_map_body fuel pb es' ind ls')"
        using ok e lines_ok_suffix [OF ok(2) e(2)] by (intro Suc.IH) auto
      then have "outcome (map_wf (Suc h)) (ln # rest) rest (parse_map_body fuel pb es' ind ls')"
        using e(2) by (rule_tac outcome_mono) (auto dest: set_mono_suffix)
      then show "outcome (map_wf (Suc h)) (ln # rest) rest
          (case (es', ls') of (es, ls) \<Rightarrow> parse_map_body fuel pb es ind ls)" by simp
    qed
    then have rec': "outcome (map_wf (Suc h)) (ln # rest) (ln # rest)
        (bind_res (parse_entry pb es ind ln rest) (\<lambda>(es, ls). parse_map_body fuel pb es ind ls))"
      by (rule outcome_mono) (auto simp: suffix_Cons)
    show ?thesis
      using Suc.prems(4) rec' by (auto simp: Cons in_line_def)
  qed (use Suc.prems in simp)
qed simp

text \<open>At its own indentation a map body reads at least its first line.\<close>

lemma map_body_progress:
  assumes "length (ln # ls) < fuel" "length (ln # ls) \<le> Suc cap" "lines_ok (ln # ls)" "map_wf (Suc h) es"
    "indent ln = ind"
  shows "outcome (map_wf (Suc h)) (ln # ls) ls (parse_map_body fuel pb es ind (ln # ls))"
proof -
  obtain f where f: "fuel = Suc f" "length ls < f" using assms(1) by (cases fuel) auto
  have ok: "body ln \<noteq> []" "lines_ok ls" "length ls \<le> cap"
    using assms by (simp_all add: lines_ok_def)
  have "outcome (map_wf (Suc h)) (ln # ls) ls
      (bind_res (parse_entry pb es ind ln ls) (\<lambda>(es, ls). parse_map_body f pb es ind ls))"
  proof (rule outcome_bind [OF entry_outcome [OF ok(1,3,2) assms(4)]])
    fix es' ls' assume e: "map_wf (Suc h) es'" "suffix ls' ls"
    have "length ls' \<le> length ls" using e(2) by (rule suffix_length_le)
    then have "outcome (map_wf (Suc h)) ls' ls' (parse_map_body f pb es' ind ls')"
      using ok f(2) e lines_ok_suffix [OF ok(2) e(2)] by (intro map_body_outcome) auto
    then have "outcome (map_wf (Suc h)) (ln # ls) ls (parse_map_body f pb es' ind ls')"
      by (rule outcome_mono) (use e(2) in \<open>auto dest: set_mono_suffix\<close>)
    then show "outcome (map_wf (Suc h)) (ln # ls) ls
        (case (es', ls') of (es, ls) \<Rightarrow> parse_map_body f pb es ind ls)" by simp
  qed
  then show ?thesis using assms(5) by (simp add: f(1) in_line_def)
qed

lemma inline_outcome:
  assumes "i \<le> length (body ln)" "length ls \<le> cap" "length ls < fuel" "lines_ok ls"
  shows "outcome (well_formed (Suc (Suc h))) (ln # ls) ls (parse_inline fuel pb ln i ind ls)"
proof -
  have single: "outcome (well_formed (Suc (Suc h))) (ln # ls) ls
      (case ls' of
         nx # _ \<Rightarrow>
           if indent nx > ind then
             bind_res (parse_map_body fuel pb [(key, lno ln, val)] (indent nx) ls')
               (\<lambda>(es, ls). Ok (Suite_Map (lno ln) es, ls))
           else Ok (Suite_Map (lno ln) [(key, lno ln, val)], ls')
       | [] \<Rightarrow> Ok (Suite_Map (lno ln) [(key, lno ln, val)], ls'))"
    if v: "well_formed (Suc h) val" "suffix ls' ls" "key \<noteq> []" for key val ls'
  proof -
    have m: "map_wf (Suc h) [(key, lno ln, val)]" using v by (simp add: map_wf_def)
    then have one: "outcome (well_formed (Suc (Suc h))) (ln # ls) ls
        (Ok (Suite_Map (lno ln) [(key, lno ln, val)], ls'))"
      using v(2) map_wf_node [OF m] by simp
    have "length ls' \<le> length ls" using v(2) by (rule suffix_length_le)
    then have "outcome (map_wf (Suc h)) ls' ls' (parse_map_body fuel pb [(key, lno ln, val)] ind' ls')" for ind'
      using assms m lines_ok_suffix [OF assms(4) v(2)] by (intro map_body_outcome) auto
    then have "outcome (map_wf (Suc h)) (ln # ls) ls (parse_map_body fuel pb [(key, lno ln, val)] ind' ls')" for ind'
      by (rule outcome_mono) (use v(2) in \<open>auto dest: set_mono_suffix\<close>)
    then have "outcome (well_formed (Suc (Suc h))) (ln # ls) ls
        (bind_res (parse_map_body fuel pb [(key, lno ln, val)] ind' ls') (\<lambda>(es, ls). Ok (Suite_Map (lno ln) es, ls)))" for ind'
      by (rule outcome_bind) (auto simp: map_wf_def)
    with one show ?thesis by (simp split: list.split)
  qed
  have "outcome (well_formed (Suc (Suc h))) (ln # ls) ls
      (bind_res (parse_key (drop i (body ln)) (lno ln) (indent ln + i + 1) (indent ln + i + 1)) (\<lambda>(key, c).
        bind_res (parse_value pb ln (i + c) ind False ls) (\<lambda>(val, ls).
          case ls of
            nx # _ \<Rightarrow>
              if indent nx > ind then
                bind_res (parse_map_body fuel pb [(key, lno ln, val)] (indent nx) ls)
                  (\<lambda>(es, ls). Ok (Suite_Map (lno ln) es, ls))
              else Ok (Suite_Map (lno ln) [(key, lno ln, val)], ls)
          | [] \<Rightarrow> Ok (Suite_Map (lno ln) [(key, lno ln, val)], ls))))"
  proof (rule parse_key_outcome [OF assms(1)])
    fix key :: string and c assume kc: "key \<noteq> []" "i + c \<le> length (body ln)"
    show "outcome (well_formed (Suc (Suc h))) (ln # ls) ls
        (case (key, c) of (key, c) \<Rightarrow>
          bind_res (parse_value pb ln (i + c) ind False ls) (\<lambda>(val, ls).
            case ls of
              nx # _ \<Rightarrow>
                if indent nx > ind then
                  bind_res (parse_map_body fuel pb [(key, lno ln, val)] (indent nx) ls)
                    (\<lambda>(es, ls). Ok (Suite_Map (lno ln) es, ls))
                else Ok (Suite_Map (lno ln) [(key, lno ln, val)], ls)
            | [] \<Rightarrow> Ok (Suite_Map (lno ln) [(key, lno ln, val)], ls)))"
      unfolding prod.case
      by (rule outcome_bind [OF value_outcome [OF kc(2) assms(2,4)]]) (use kc(1) single in simp)
  qed (use assms(1) in simp_all)
  then show ?thesis unfolding parse_inline_def Let_def .
qed

lemma item_outcome:
  assumes "body ln \<noteq> []" "length ls \<le> cap" "length ls < fuel" "lines_ok ls"
  shows "outcome (well_formed (Suc (Suc h))) (ln # ls) ls (parse_item fuel pb ind ln ls)"
proof -
  define i where "i = 1 + spaces_from (body ln) 1"
  have i: "i \<le> length (body ln)" unfolding i_def using assms(1) by (intro spaces_from_le) (cases "body ln"; simp)
  have missing: "outcome (well_formed (Suc (Suc h))) (ln # ls) ls (Err (lno ln) (indent ln + length (body ln) + 1) m)" for m
    by (simp add: in_line_def)
  show ?thesis
  proof (cases "drop i (body ln) = []")
    case True
    show ?thesis
    proof (cases ls)
      case Nil
      with True missing show ?thesis by (simp add: parse_item_def Let_def i_def)
    next
      case (Cons nx rest)
      have "outcome (well_formed (Suc h)) ls rest (pb (indent nx) ls)"
        using pb_outcome [of nx rest] assms(2,4) Cons by simp
      then have "outcome (well_formed (Suc (Suc h))) (ln # ls) ls (pb (indent nx) ls)"
        by (rule outcome_mono) (auto simp: Cons suffix_Cons intro: well_formed_mono)
      with True missing Cons show ?thesis by (simp add: parse_item_def Let_def i_def)
    qed
  next
    case False
    have "outcome (well_formed (Suc (Suc h))) (ln # ls) ls
        (bind_res (parse_scalar (drop i (body ln)) (lno ln) (indent ln + i + 1)) (\<lambda>nd. Ok (nd, ls)))"
      using i by (intro parse_scalar_outcome) auto
    with False inline_outcome [OF i assms(2-4)] show ?thesis
      unfolding parse_item_def Let_def i_def [symmetric] by simp
  qed
qed

lemma list_outcome:
  assumes "length ls < fuel" "length ls \<le> Suc cap" "lines_ok ls" "list_all (well_formed (Suc (Suc h))) ns"
  shows "outcome (list_all (well_formed (Suc (Suc h)))) ls ls (parse_list fuel pb ns ind ls)"
  using assms
proof (induction fuel arbitrary: ns ls)
  case (Suc fuel)
  show ?case
  proof (cases ls)
    case (Cons ln rest)
    have ok: "body ln \<noteq> []" "lines_ok rest" "length rest \<le> cap" "length rest < fuel"
      using Suc.prems Cons by (simp_all add: lines_ok_def)
    have "outcome (list_all (well_formed (Suc (Suc h)))) (ln # rest) rest
        (bind_res (parse_item fuel pb ind ln rest) (\<lambda>(nd, ls). parse_list fuel pb (ns @ [nd]) ind ls))"
    proof (rule outcome_bind [OF item_outcome [OF ok(1,3,4,2)]])
      fix nd ls' assume e: "well_formed (Suc (Suc h)) nd" "suffix ls' rest"
      have "length ls' \<le> length rest" using e(2) by (rule suffix_length_le)
      then have "outcome (list_all (well_formed (Suc (Suc h)))) ls' ls' (parse_list fuel pb (ns @ [nd]) ind ls')"
        using ok e Suc.prems(4) lines_ok_suffix [OF ok(2) e(2)] by (intro Suc.IH) auto
      then have "outcome (list_all (well_formed (Suc (Suc h)))) (ln # rest) rest (parse_list fuel pb (ns @ [nd]) ind ls')"
        by (rule outcome_mono) (use e(2) in \<open>auto dest: set_mono_suffix\<close>)
      then show "outcome (list_all (well_formed (Suc (Suc h)))) (ln # rest) rest
          (case (nd, ls') of (nd, ls) \<Rightarrow> parse_list fuel pb (ns @ [nd]) ind ls)" by simp
    qed
    then have "outcome (list_all (well_formed (Suc (Suc h)))) (ln # rest) (ln # rest)
        (bind_res (parse_item fuel pb ind ln rest) (\<lambda>(nd, ls). parse_list fuel pb (ns @ [nd]) ind ls))"
      by (rule outcome_mono) (auto simp: suffix_Cons)
    then show ?thesis using Suc.prems(4) by (auto simp: Cons in_line_def)
  qed (use Suc.prems in simp)
qed simp

lemma list_progress:
  assumes "length (ln # ls) < fuel" "length (ln # ls) \<le> Suc cap" "lines_ok (ln # ls)" "is_dash (body ln)"
  shows "outcome (list_all (well_formed (Suc (Suc h)))) (ln # ls) ls (parse_list fuel pb [] (indent ln) (ln # ls))"
proof -
  obtain f where f: "fuel = Suc f" "length ls < f" using assms(1) by (cases fuel) auto
  have ok: "body ln \<noteq> []" "lines_ok ls" "length ls \<le> cap"
    using assms by (simp_all add: lines_ok_def)
  have "outcome (list_all (well_formed (Suc (Suc h)))) (ln # ls) ls
      (bind_res (parse_item f pb (indent ln) ln ls) (\<lambda>(nd, ls). parse_list f pb ([] @ [nd]) (indent ln) ls))"
  proof (rule outcome_bind [OF item_outcome [OF ok(1,3) f(2) ok(2)]])
    fix nd ls' assume e: "well_formed (Suc (Suc h)) nd" "suffix ls' ls"
    have "length ls' \<le> length ls" using e(2) by (rule suffix_length_le)
    then have "outcome (list_all (well_formed (Suc (Suc h)))) ls' ls' (parse_list f pb [nd] (indent ln) ls')"
      using ok f(2) e lines_ok_suffix [OF ok(2) e(2)] by (intro list_outcome) auto
    then have "outcome (list_all (well_formed (Suc (Suc h)))) (ln # ls) ls (parse_list f pb [nd] (indent ln) ls')"
      by (rule outcome_mono) (use e(2) in \<open>auto dest: set_mono_suffix\<close>)
    then show "outcome (list_all (well_formed (Suc (Suc h)))) (ln # ls) ls
        (case (nd, ls') of (nd, ls) \<Rightarrow> parse_list f pb ([] @ [nd]) (indent ln) ls)" by simp
  qed
  then show ?thesis using assms(4) by (simp add: f(1))
qed

end

section \<open>The block parser\<close>

lemma parse_block_blocks: "blocks (parse_block f d) (2 * (64 - d)) (f - 2)"
proof (induction f arbitrary: d)
  case 0
  show ?case by unfold_locales simp
next
  case (Suc f)
  show ?case
  proof unfold_locales
    fix ln ls
    assume ok: "lines_ok (ln # ls)" and cap: "length (ln # ls) \<le> Suc f - 2"
    show "outcome (well_formed (Suc (2 * (64 - d)))) (ln # ls) ls (parse_block (Suc f) d (indent ln) (ln # ls))"
    proof (cases "d \<ge> kMaxDepth")
      case True
      then show ?thesis by (simp add: in_line_def)
    next
      case False
      then have d: "Suc (2 * (64 - d)) = Suc (Suc (Suc (2 * (64 - (d + 1)))))" by (simp add: kMaxDepth_def)
      have f: "length (ln # ls) < f" "length (ln # ls) \<le> Suc (f - 2)" using cap by auto
      note B = Suc.IH [of "d + 1"]
      show ?thesis
      proof (cases "is_dash (body ln)")
        case True
        have "outcome (well_formed (Suc (2 * (64 - d)))) (ln # ls) ls
            (bind_res (parse_list f (parse_block f (d + 1)) [] (indent ln) (ln # ls))
              (\<lambda>(ns, ls). Ok (Suite_List (lno ln) ns, ls)))"
          by (rule outcome_bind [OF blocks.list_progress [OF B f ok True]]) (simp add: d)
        with True False show ?thesis by simp
      next
        case nd: False
        have "map_wf (Suc (2 * (64 - (d + 1)))) []" by (simp add: map_wf_def)
        then have "outcome (well_formed (Suc (2 * (64 - d)))) (ln # ls) ls
            (bind_res (parse_map_body f (parse_block f (d + 1)) [] (indent ln) (ln # ls))
              (\<lambda>(es, ls). Ok (Suite_Map (lno ln) es, ls)))"
          by (rule outcome_bind [OF blocks.map_body_progress [OF B f ok _ refl]])
            (auto simp: d simp flip: map_wf_def intro: map_wf_mono)
        with nd False show ?thesis by simp
      qed
    qed
  qed
qed

interpretation pbk: blocks "parse_block f d" "2 * (64 - d)" "f - 2" for f d
  by (rule parse_block_blocks)

section \<open>Lines of a text\<close>

text \<open>Errors of the line scanner: columns from 1 to one past the raw line.\<close>

lemma scrub_from_spans:
  "i \<le> length s \<Longrightarrow> spans line (ind + 1) (ind + length s) (\<lambda>k. k \<le> length s) (scrub_from line ind s i)"
proof (induction line ind s i rule: scrub_from.induct)
  case (1 line ind s i)
  show ?case
  proof (cases "i < length s")
    case False
    then show ?thesis by (subst scrub_from.simps) simp
  next
    case True
    show ?thesis
    proof (cases "is_quote (s ! i)")
      case q: True
      show ?thesis
      proof (cases "skip_quoted s i")
        case None
        with True q show ?thesis by (subst scrub_from.simps) (simp add: Let_def)
      next
        case (Some close)
        then have "close \<le> length s" using skip_quoted_after [OF Some] True by simp
        with "1.IH"(1) [OF True refl q Some] True q Some show ?thesis
          by (subst scrub_from.simps) (simp add: Let_def)
      qed
    next
      case False
      with True "1.IH"(2) [OF True refl False] show ?thesis
        by (subst scrub_from.simps) (auto simp: Let_def)
    qed
  qed
qed

lemma scrub_line_spans:
  "spans line (ind + 1) (ind + length s) (\<lambda>t. length t \<le> length s) (scrub_line line ind s)"
  unfolding scrub_line_def
proof (rule spans_bind [OF scrub_from_spans])
  fix k assume "k \<le> length s"
  have "length (dropWhile blank_char (rev (take k s))) \<le> length (rev (take k s))"
    by (rule length_dropWhile_le)
  also have "\<dots> \<le> length s" by simp
  finally show "spans line (ind + 1) (ind + length s) (\<lambda>t. length t \<le> length s)
      (Ok (rev (dropWhile blank_char (rev (take k s)))))" by simp
qed simp

text \<open>A line taken from a raw one: its number, and its extent inside the raw line.\<close>

definition line_of :: "string \<Rightarrow> nat \<Rightarrow> sline option \<Rightarrow> bool" where
  "line_of raw line lp =
     (case lp of None \<Rightarrow> True
      | Some ln \<Rightarrow> lno ln = line \<and> body ln \<noteq> [] \<and> indent ln + length (body ln) \<le> length raw)"

lemma take_line_spans: "spans line 1 (length raw + 1) (line_of raw line) (take_line raw line)"
proof (cases "length raw > kMaxLine")
  case False
  define raw' where "raw' = (if raw \<noteq> [] \<and> last raw = CR then butlast raw else raw)"
  have len: "length raw' \<le> length raw" by (simp add: raw'_def)
  define ind where "ind = length (takeWhile (\<lambda>c. c = SP) raw')"
  define b where "b = drop ind raw'"
  have ind: "ind \<le> length raw'" unfolding ind_def by (rule length_takeWhile_le)
  then have b: "ind + length b = length raw'" by (simp add: b_def)
  have rest: "spans line 1 (length raw + 1) (line_of raw line)
      (bind_res (scrub_line line ind b) (\<lambda>b.
         if b = [] then Ok None
         else if b ! 0 = CHR ''%'' then Err line (ind + 1) ''directive not allowed''
         else Ok (Some \<lparr>body = b, lno = line, indent = ind\<rparr>)))"
  proof (rule spans_bind)
    show "spans line 1 (length raw + 1) (\<lambda>t. length t \<le> length b) (scrub_line line ind b)"
      by (rule spans_mono [OF scrub_line_spans]) (use b len in auto)
  qed (use b len in \<open>auto simp: line_of_def\<close>)
  show ?thesis
  proof (cases "first_at (\<lambda>c. c = CR) raw'")
    case (Some k)
    then have "k < length raw'" by (auto dest: first_at_Some)
    with False Some len show ?thesis by (simp add: take_line_def raw'_def [symmetric] Let_def)
  next
    case None
    with False rest ind len show ?thesis
      by (simp add: take_line_def raw'_def [symmetric] Let_def ind_def [symmetric] b_def [symmetric] line_of_def)
  qed
qed (simp add: take_line_def)

text \<open>A position inside a text, given by its raw lines: line and column are 1-based.\<close>

definition in_text :: "string list \<Rightarrow> nat \<Rightarrow> nat \<Rightarrow> nat \<Rightarrow> bool" where
  "in_text raws first l c =
     (first \<le> l \<and> l < first + length raws \<and> 1 \<le> c \<and> c \<le> length (raws ! (l - first)) + 1)"

lemma in_text_Cons:
  "in_text raws (first + 1) l c \<Longrightarrow> in_text (raw # raws) first l c"
  by (auto simp: in_text_def nth_Cons split: nat.splits) (metis Suc_diff_Suc Suc_le_lessD old.nat.inject)

fun in_lines :: "string list \<Rightarrow> nat \<Rightarrow> sline list res \<Rightarrow> bool" where
  "in_lines raws first (Ok ls) =
     (lines_ok ls \<and> (\<forall>ln \<in> set ls. \<forall>c. in_line ln c \<longrightarrow> in_text raws first (lno ln) c))"
| "in_lines raws first (Err l c m) = in_text raws first l c"
| "in_lines raws first _ = False"

lemma take_lines_in: "in_lines raws first (take_lines first raws)"
proof (induction raws arbitrary: first)
  case Nil
  then show ?case by (simp add: lines_ok_def)
next
  case (Cons raw raws)
  note head = take_line_spans [of first raw]
  show ?case
  proof (cases "take_line raw first")
    case (Ok lp)
    show ?thesis
    proof (cases "take_lines (first + 1) raws")
      case ls: (Ok ls)
      have tail: "lines_ok ls" "\<forall>ln \<in> set ls. \<forall>c. in_line ln c \<longrightarrow> in_text (raw # raws) first (lno ln) c"
        using Cons.IH [of "first + 1"] ls by (auto intro: in_text_Cons)
      have "line_of raw first lp" using head Ok by simp
      with tail Ok ls show ?thesis
        by (auto simp: line_of_def lines_ok_def in_line_def in_text_def split: option.splits)
    next
      case (Err l c m)
      with Cons.IH [of "first + 1"] Ok show ?thesis by (auto intro: in_text_Cons)
    qed (use Cons.IH [of "first + 1"] in auto)
  next
    case (Err l c m)
    with head show ?thesis by (simp add: in_text_def)
  qed (use head in auto)
qed

lemma split_nl_head: "length acc \<le> length (split_nl acc s ! 0) \<and> split_nl acc s \<noteq> []"
proof (induction acc s rule: split_nl.induct)
  case (2 acc c cs)
  then show ?case by (cases "c = NL") auto
qed simp

lemma takeWhile_snoc: "\<not> P x \<Longrightarrow> takeWhile P (xs @ [x]) = takeWhile P xs"
  by (induction xs) auto

text \<open>Where position \<open>i\<close> of a text is among its raw lines.\<close>

lemma split_nl_at:
  defines "P \<equiv> (\<lambda>c. c \<noteq> NL)"
  shows "let n = length (filter (\<lambda>c. c = NL) (take i s)); w = length (takeWhile P (rev (take i s))) in
    n < length (split_nl acc s) \<and>
    w + (if n = 0 then length acc else 0) \<le> length (split_nl acc s ! n)"
proof (induction acc s arbitrary: i rule: split_nl.induct)
  case (1 acc)
  then show ?case by simp
next
  case (2 acc c cs)
  show ?case
  proof (cases i)
    case 0
    then show ?thesis using split_nl_head [of acc "c # cs"] by (simp add: Let_def del: split_nl.simps)
  next
    case (Suc j)
    show ?thesis
    proof (cases "c = NL")
      case True
      have "takeWhile P (rev (take j cs) @ [c]) = takeWhile P (rev (take j cs))"
        using True by (simp add: takeWhile_snoc P_def)
      with "2.IH"(1) [OF True, of j] True Suc show ?thesis by (simp add: Let_def split: if_splits)
    next
      case False
      show ?thesis
      proof (cases "filter (\<lambda>c. c = NL) (take j cs) = []")
        case none: True
        then have "\<forall>x \<in> set (rev (take j cs)). P x" by (simp add: filter_empty_conv P_def)
        then have "takeWhile P (rev (take j cs) @ [c]) = rev (take j cs) @ [c]"
          "takeWhile P (rev (take j cs)) = rev (take j cs)"
          using False by (simp_all add: P_def takeWhile_eq_all_conv)
        then have "length (takeWhile P (rev (take j cs) @ [c])) = Suc (length (take j cs))"
          "length (takeWhile P (rev (take j cs))) = length (take j cs)"
          by (metis length_append_singleton length_rev) (metis length_rev \<open>takeWhile P (rev (take j cs)) = rev (take j cs)\<close>)
        with "2.IH"(2) [OF False, of j] False Suc none show ?thesis by (simp add: Let_def)
      next
        case some: False
        then have "takeWhile P (rev (take j cs) @ [c]) = takeWhile P (rev (take j cs))"
          by (auto simp: takeWhile_append P_def filter_empty_conv)
        with "2.IH"(2) [OF False, of j] False Suc some show ?thesis by (simp add: Let_def)
      qed
    qed
  qed
qed

section \<open>The whole parser\<close>

fun parsed :: "string \<Rightarrow> suite_node res \<Rightarrow> bool" where
  "parsed s (Ok nd) = well_formed 129 nd"
| "parsed s (Err l c m) = in_text (split_nl [] s) 1 l c"
| "parsed s _ = False"

lemma suite_parse_lines:
  assumes "first_at (\<lambda>c. c = NUL) s = None" "take_lines 1 (split_nl [] s) = Ok (l0 # ls)"
  shows "suite_parse s =
    bind_res (parse_block (length (l0 # ls) + 2) 0 (indent l0) (l0 # ls)) (\<lambda>(root, rest).
      (case rest of [] \<Rightarrow> Ok root | ln # _ \<Rightarrow> Err (lno ln) (indent ln + 1) ''inconsistent indentation''))"
  using assms by (simp add: suite_parse_def)

lemma suite_parse_parsed: "parsed s (suite_parse s)"
proof (cases "first_at (\<lambda>c. c = NUL) s")
  case (Some i)
  let ?n = "length (filter (\<lambda>c. c = NL) (take i s))"
  from split_nl_at [of i s "[]"]
  have "?n < length (split_nl [] s)"
    "length (takeWhile (\<lambda>c. c \<noteq> NL) (rev (take i s))) \<le> length (split_nl [] s ! ?n)"
    by (auto simp: Let_def split: if_splits)
  with Some show ?thesis by (simp add: suite_parse_def nul_error_def in_text_def Let_def)
next
  case None
  note lines = take_lines_in [of "split_nl [] s" 1]
  show ?thesis
  proof (cases "take_lines 1 (split_nl [] s)")
    case ok: (Ok ls)
    have inside: "in_text (split_nl [] s) 1 (lno ln) c" if "ln \<in> set ls" "in_line ln c" for ln c
      using lines ok that by simp
    show ?thesis
    proof (cases ls)
      case Nil
      have "well_formed 129 (Suite_Map (Suc 0) [])" using well_formed.simps(5) [of 128 "Suc 0" "[]"] by simp
      with Nil show ?thesis by (simp add: suite_parse_def None ok [unfolded One_nat_def])
    next
      case (Cons l0 rest)
      define r where "r = parse_block (length (l0 # rest) + 2) 0 (indent l0) (l0 # rest)"
      have run: "suite_parse s = bind_res r (\<lambda>(root, rest).
          (case rest of [] \<Rightarrow> Ok root | ln # _ \<Rightarrow> Err (lno ln) (indent ln + 1) ''inconsistent indentation''))"
        unfolding r_def using None ok Cons by (intro suite_parse_lines) auto
      have "outcome (well_formed (Suc (2 * (64 - 0)))) (l0 # rest) rest r"
        unfolding r_def using lines ok Cons by (intro pbk.pb_outcome) auto
      then have out: "outcome (well_formed 129) (l0 # rest) rest r" by simp
      show ?thesis
      proof (cases r)
        case pb: (Ok p)
        obtain root rest' where p: "p = (root, rest')" by (cases p)
        have root: "well_formed 129 root" and suf: "suffix rest' rest" using out by (simp_all add: pb p)
        show ?thesis
        proof (cases rest')
          case Nil
          with root show ?thesis by (simp add: run pb p)
        next
          case ln: (Cons ln more)
          have "ln \<in> set ls" using suf ln Cons by (auto dest!: set_mono_suffix)
          moreover have "in_line ln (indent ln + 1)" by (simp add: in_line_def)
          ultimately have "in_text (split_nl [] s) 1 (lno ln) (indent ln + 1)" by (rule inside)
          then show ?thesis by (simp add: run pb p ln)
        qed
      next
        case (Err l c m)
        with out inside Cons show ?thesis by (auto simp: run)
      qed (use out in auto)
    qed
  next
    case (Err l c m)
    with lines show ?thesis by (simp add: suite_parse_def None)
  qed (use lines in auto)
qed

section \<open>Properties\<close>

text \<open>
  C8. Parsing ends on every text with a tree or with an error: it never runs out of fuel and
  never reads past the last line. (The fuel is two more than the number of lines.)
\<close>

theorem suite_parse_total: "\<exists>nd l c m. suite_parse s = Ok nd \<or> suite_parse s = Err l c m"
  using suite_parse_parsed [of s] by (cases "suite_parse s") auto

text \<open>
  C9. A tree the parser accepts is well formed: the keys of every map are distinct and not
  empty, and containers are nested at most 129 deep, which is what the depth cap of 64 blocks
  allows with inline maps counted.
\<close>

theorem suite_parse_well_formed:
  assumes "suite_parse s = Ok nd"
  shows "well_formed 129 nd"
  using suite_parse_parsed [of s] assms by simp

theorem suite_parse_well_formed_witness:
  "\<exists>nd. suite_parse ''a: 1'' = Ok nd \<and> well_formed 129 nd \<and> suite_map_find (Some nd) (Some ''a'') = Some (Suite_Scalar 1 ''1'')"
proof -
  have p: "suite_parse ''a: 1'' = Ok (Suite_Map 1 [(''a'', 1, Suite_Scalar 1 ''1'')])" by code_simp
  from suite_parse_well_formed [OF p] p show ?thesis by (simp add: suite_map_find_def)
qed

text \<open>
  C10. An error of the parser points into the text: its line is one of the text's lines and
  its column lies between 1 and one past the end of that line.
\<close>

theorem suite_parse_error_position:
  assumes "suite_parse s = Err l c m"
  shows "1 \<le> l \<and> l \<le> length (split_nl [] s) \<and> 1 \<le> c \<and> c \<le> length (split_nl [] s ! (l - 1)) + 1"
  using suite_parse_parsed [of s] assms by (auto simp: in_text_def)

theorem suite_parse_error_position_witness:
  "\<exists>m. suite_parse ''a: {'' = Err 1 4 m \<and> 4 \<le> length (split_nl [] ''a: {'' ! 0) + 1"
proof -
  have p: "suite_parse ''a: {'' = Err 1 4 ''flow style not allowed''" by code_simp
  from suite_parse_error_position [OF p] p show ?thesis by simp
qed

text \<open>
  An unterminated double quote is accepted when the line ends in a backslash: the scan for
  comments pairs the quotes differently than the value parser does, and the loop of
  \<open>quoted_body\<close> leaves by its \<open>break\<close> without the error. Without the backslash the same text is
  refused, as intended.
\<close>

theorem unterminated_quote_accepted:
  "suite_parse (''it'' @ [SQ] @ ''s: '' @ [DQ] @ ''a'' @ [SQ] @ ''b'' @ [BS]) =
     Ok (Suite_Map 1 [(''it'' @ [SQ] @ ''s'', 1, Suite_Scalar 1 (''a'' @ [SQ] @ ''b''))]) \<and>
   suite_parse (''it'' @ [SQ] @ ''s: '' @ [DQ] @ ''a'' @ [SQ] @ ''b'') = Err 1 7 ''unterminated quote''"
  by code_simp

end
