(* ===== verification/Binary64.thy ===== *)
theory Binary64
  imports Complex_Main Prelude "HOL-Library.Log_Nat"
begin

text \<open>
  The \<open>double\<close> arithmetic the C sources use: finite non-negative IEEE binary64 values are
  rationals, and \<open>fl64\<close> is the rounding (to nearest, ties to even) that every conversion and
  operation applies to its exact result. The exponent range is not bounded: the values of
  these sources lie between \<open>2 ^ -53\<close> and \<open>2 ^ 130\<close>, far from overflow and underflow.

  The lemmas are the ones bounds proofs need: \<open>fl64\<close> is monotone, the identity on what it
  returns, and off by at most one part in \<open>2 ^ 53\<close>.
\<close>

section \<open>Rounding\<close>

text \<open>Nearest integer, ties to even.\<close>

definition rne :: "rat \<Rightarrow> int" where
  "rne y =
     (let f = \<lfloor>y\<rfloor>; d = y - of_int f in
      if d < 1 / 2 then f else if d > 1 / 2 then f + 1 else if even f then f else f + 1)"

text \<open>The exponent: \<open>2 ^ fexp x \<le> x < 2 ^ (fexp x + 1)\<close>.\<close>

definition fexp :: "rat \<Rightarrow> int" where
  "fexp x =
     (let p = fst (quotient_of x); q = snd (quotient_of x);
          e = int (floorlog 2 (nat p)) - int (floorlog 2 (nat q)) in
      if x < 2 powi e then e - 1 else e)"

definition fl64 :: "rat \<Rightarrow> rat" where
  "fl64 x =
     (if x \<le> 0 then 0
      else of_int (rne (x * 2 powi (52 - fexp x))) * 2 powi (fexp x - 52))"

text \<open>\<open>(unsigned long long)x\<close> truncates; out of range is undefined in C.\<close>

definition trunc_u64 :: "rat \<Rightarrow> u64" where
  "trunc_u64 x = of_int \<lfloor>x\<rfloor>"

text \<open>\<open>(double)n\<close>.\<close>

definition double_of :: "u64 \<Rightarrow> rat" where
  "double_of n = fl64 (of_nat (unat n))"

section \<open>Nearest integer\<close>

lemma rne_bounds: "y - 1 / 2 \<le> of_int (rne y)" "of_int (rne y) \<le> y + 1 / 2"
proof -
  define r where "r = rat_of_int \<lfloor>y\<rfloor>"
  have f: "r \<le> y" "y < r + 1" unfolding r_def by linarith+
  show "y - 1 / 2 \<le> of_int (rne y)" "of_int (rne y) \<le> y + 1 / 2"
    using f by (auto simp: rne_def Let_def field_simps simp flip: r_def)
qed

lemma rne_of_int [simp]: "rne (of_int k) = k"
  by (simp add: rne_def)

lemma rne_mono:
  assumes "x \<le> y"
  shows "rne x \<le> rne y"
proof (cases "\<lfloor>x\<rfloor> = \<lfloor>y\<rfloor>")
  case True
  with assms show ?thesis by (auto simp: rne_def Let_def)
next
  case False
  then have "\<lfloor>x\<rfloor> + 1 \<le> \<lfloor>y\<rfloor>" using floor_mono [OF assms] by linarith
  moreover have "rne x \<le> \<lfloor>x\<rfloor> + 1" "\<lfloor>y\<rfloor> \<le> rne y" by (auto simp: rne_def Let_def)
  ultimately show ?thesis by linarith
qed

section \<open>The exponent\<close>

lemma powi_le_iff: "(2 :: rat) powi a \<le> 2 powi b \<longleftrightarrow> a \<le> b"
  using power_int_strict_increasing [of b a "2 :: rat"] power_int_increasing [of a b "2 :: rat"]
  by (cases "a \<le> b") (auto simp: not_le)

lemma powi_less_iff: "(2 :: rat) powi a < 2 powi b \<longleftrightarrow> a < b"
  using powi_le_iff [of b a] by (simp add: not_le [symmetric])

lemma powi_pos [simp]: "0 < (2 :: rat) powi a"
  by simp

lemma floorlog_bounds:
  assumes "0 < n"
  shows "(2 :: rat) powi (int (floorlog 2 n) - 1) \<le> of_nat n" "of_nat n < (2 :: rat) powi int (floorlog 2 n)"
proof -
  have b: "2 ^ (floorlog 2 n - 1) \<le> n" "n < 2 ^ floorlog 2 n" "0 < floorlog 2 n"
    using floorlog_bounds [of n 2] assms by (auto simp: floorlog_def)
  have "(2 :: rat) ^ (floorlog 2 n - 1) \<le> of_nat n"
    using b(1) by (metis of_nat_le_iff of_nat_numeral of_nat_power)
  moreover have "int (floorlog 2 n) - 1 = int (floorlog 2 n - 1)" using b(3) by simp
  ultimately show "(2 :: rat) powi (int (floorlog 2 n) - 1) \<le> of_nat n"
    by (simp only: power_int_of_nat)
  have "of_nat n < (2 :: rat) ^ floorlog 2 n"
    using b(2) by (metis of_nat_less_iff of_nat_numeral of_nat_power)
  then show "of_nat n < (2 :: rat) powi int (floorlog 2 n)" by (simp only: power_int_of_nat)
qed

lemma fexp_bounds:
  assumes "0 < x"
  shows "2 powi fexp x \<le> x" "x < 2 powi (fexp x + 1)"
proof -
  obtain p q where pq: "quotient_of x = (p, q)" by (cases "quotient_of x")
  have q: "0 < q" using pq by (rule quotient_of_denom_pos)
  have x: "x = of_int p / of_int q" using pq by (rule quotient_of_div)
  then have p: "0 < p" using assms q by (simp add: zero_less_divide_iff)
  define a where "a = int (floorlog 2 (nat p))"
  define b where "b = int (floorlog 2 (nat q))"
  have pb: "2 powi (a - 1) \<le> rat_of_int p" "rat_of_int p < 2 powi a"
    using floorlog_bounds [of "nat p"] p by (simp_all add: a_def)
  have qb: "2 powi (b - 1) \<le> rat_of_int q" "rat_of_int q < 2 powi b"
    using floorlog_bounds [of "nat q"] q by (simp_all add: b_def)
  have "2 powi (a - b - 1) * rat_of_int q < 2 powi (a - b - 1) * 2 powi b"
    using qb(2) by (intro mult_strict_left_mono) auto
  also have "\<dots> = 2 powi (a - 1)" by (simp flip: power_int_add)
  finally have lo: "2 powi (a - b - 1) < x"
    using pb(1) q by (simp add: x less_divide_eq)
  have "2 powi a = 2 powi (a - b + 1) * (2 powi (b - 1) :: rat)" by (simp flip: power_int_add)
  also have "\<dots> \<le> 2 powi (a - b + 1) * rat_of_int q" using qb(1) by (intro mult_left_mono) auto
  finally have hi: "x < 2 powi (a - b + 1)"
    using pb(2) q by (simp add: x divide_less_eq)
  have e: "fexp x = (if x < 2 powi (a - b) then a - b - 1 else a - b)"
    by (simp add: fexp_def Let_def pq a_def b_def)
  show "2 powi fexp x \<le> x" using lo by (auto simp: e)
  show "x < 2 powi (fexp x + 1)" using hi by (auto simp: e)
qed

lemma fexp_mono:
  assumes "0 < x" "x \<le> y"
  shows "fexp x \<le> fexp y"
proof -
  have "(2 :: rat) powi fexp x < 2 powi (fexp y + 1)"
    using fexp_bounds [of x] fexp_bounds [of y] assms by linarith
  then show ?thesis by (simp add: powi_less_iff)
qed

lemma fexp_eqI: "0 < x \<Longrightarrow> 2 powi e \<le> x \<Longrightarrow> x < 2 powi (e + 1) \<Longrightarrow> fexp x = e"
proof -
  assume a: "0 < x" "2 powi e \<le> x" "x < 2 powi (e + 1)"
  with fexp_bounds [of x] have "(2 :: rat) powi fexp x < 2 powi (e + 1)" "(2 :: rat) powi e < 2 powi (fexp x + 1)"
    by linarith+
  then show "fexp x = e" by (simp add: powi_less_iff)
qed

section \<open>Rounding to 53 bits\<close>

lemma scaled_bounds:
  assumes "0 < x"
  shows "2 ^ 52 \<le> x * 2 powi (52 - fexp x)" "x * 2 powi (52 - fexp x) < 2 ^ 53"
proof -
  have "(2 :: rat) ^ 52 = 2 powi fexp x * 2 powi (52 - fexp x)"
    by (simp flip: power_int_add)
  also have "\<dots> \<le> x * 2 powi (52 - fexp x)" using fexp_bounds [OF assms] by (intro mult_right_mono) auto
  finally show "2 ^ 52 \<le> x * 2 powi (52 - fexp x)" .
  have "x * 2 powi (52 - fexp x) < 2 powi (fexp x + 1) * 2 powi (52 - fexp x)"
    using fexp_bounds [OF assms] by (intro mult_strict_right_mono) auto
  also have "\<dots> = 2 ^ 53" by (simp flip: power_int_add)
  finally show "x * 2 powi (52 - fexp x) < 2 ^ 53" .
qed

lemma fl64_digits:
  assumes "0 < x"
  shows "2 ^ 52 \<le> rne (x * 2 powi (52 - fexp x))" "rne (x * 2 powi (52 - fexp x)) \<le> 2 ^ 53"
proof -
  note b = scaled_bounds [OF assms]
  show "2 ^ 52 \<le> rne (x * 2 powi (52 - fexp x))"
    using rne_mono [of "of_int (2 ^ 52)" "x * 2 powi (52 - fexp x)"] b(1) unfolding rne_of_int by simp
  show "rne (x * 2 powi (52 - fexp x)) \<le> 2 ^ 53"
    using rne_mono [of "x * 2 powi (52 - fexp x)" "of_int (2 ^ 53)"] b(2) unfolding rne_of_int by simp
qed

lemma fl64_range:
  assumes "0 < x"
  shows "2 powi fexp x \<le> fl64 x" "fl64 x \<le> 2 powi (fexp x + 1)"
proof -
  let ?k = "rne (x * 2 powi (52 - fexp x))"
  have k: "(2 ^ 52 :: rat) \<le> of_int ?k" "of_int ?k \<le> (2 ^ 53 :: rat)"
    using fl64_digits [OF assms] by (metis of_int_le_iff of_int_numeral of_int_power)+
  have e: "(2 :: rat) powi fexp x = 2 ^ 52 * 2 powi (fexp x - 52)"
    "(2 :: rat) powi (fexp x + 1) = 2 ^ 53 * 2 powi (fexp x - 52)"
    by (simp_all add: power_int_diff power_int_add)
  show "2 powi fexp x \<le> fl64 x" "fl64 x \<le> 2 powi (fexp x + 1)"
    using assms k unfolding e by (auto simp: fl64_def not_le intro!: mult_right_mono)
qed

lemma fl64_zero [simp]: "fl64 0 = 0"
  by (simp add: fl64_def)

lemma fl64_nonneg [simp]: "0 \<le> fl64 x"
proof (cases "0 < x")
  case True
  then show ?thesis using fl64_range(1) [OF True] powi_pos [of "fexp x"] by linarith
qed (simp add: fl64_def)

lemma fl64_mono:
  assumes "x \<le> y"
  shows "fl64 x \<le> fl64 y"
proof (cases "0 < x")
  case True
  with assms have y: "0 < y" by simp
  show ?thesis
  proof (cases "fexp x = fexp y")
    case e: True
    have "x * 2 powi (52 - fexp y) \<le> y * 2 powi (52 - fexp y)" using assms by (intro mult_right_mono) auto
    then have "rne (x * 2 powi (52 - fexp y)) \<le> rne (y * 2 powi (52 - fexp y))" by (rule rne_mono)
    then show ?thesis using True y by (simp add: fl64_def e)
  next
    case False
    then have "fexp x + 1 \<le> fexp y" using fexp_mono [OF True assms] by linarith
    then have "(2 :: rat) powi (fexp x + 1) \<le> 2 powi fexp y" by (simp only: powi_le_iff)
    then show ?thesis using fl64_range [OF True] fl64_range [OF y] by linarith
  qed
next
  case False
  then have "fl64 x = 0" by (simp add: fl64_def)
  then show ?thesis by simp
qed

text \<open>Values with at most 53 significant bits are exact.\<close>

lemma fl64_exact:
  assumes "x = of_int k * 2 powi m" "0 \<le> k" "k \<le> 2 ^ 53"
  shows "fl64 x = x"
proof (cases "k = 0")
  case True
  with assms show ?thesis by simp
next
  case False
  with assms have x: "0 < x" by simp
  have "\<exists>j :: int. x * 2 powi (52 - fexp x) = of_int j"
  proof (cases "k = 2 ^ 53")
    case True
    then have "x = 2 ^ 53 * 2 powi m" using assms(1) by simp
    then have x': "x = 2 powi (m + 53)" by (simp add: power_int_add)
    then have "fexp x = m + 53" using x by (intro fexp_eqI) (auto simp: powi_less_iff)
    then have "x * 2 powi (52 - fexp x) = 2 powi (m + 53) * 2 powi (52 - (m + 53))"
      unfolding x' by simp
    also have "\<dots> = 2 powi 52" by (simp flip: power_int_add)
    finally have "x * 2 powi (52 - fexp x) = of_int (2 ^ 52)" by simp
    then show ?thesis by blast
  next
    case False
    then have "(of_int k :: rat) < 2 ^ 53"
      using assms(3) by (metis of_int_less_iff of_int_numeral of_int_power order_le_less)
    then have "x < 2 ^ 53 * 2 powi m" using assms(1) by simp
    then have "x < 2 powi (m + 53)" by (simp add: power_int_add)
    then have "(2 :: rat) powi fexp x < 2 powi (m + 53)" using fexp_bounds(1) [OF x] by linarith
    then have "fexp x \<le> m + 52" by (simp add: powi_less_iff)
    then obtain j where j: "m + 52 - fexp x = int j" using nonneg_int_cases [of "m + 52 - fexp x"] by auto
    have "x * 2 powi (52 - fexp x) = of_int k * 2 powi (m + 52 - fexp x)"
      using assms(1) by (simp flip: power_int_add add: algebra_simps)
    also have "\<dots> = of_int (k * 2 ^ j)" by (simp add: j)
    finally show ?thesis by blast
  qed
  then obtain j :: int where j: "x * 2 powi (52 - fexp x) = of_int j" by blast
  have "fl64 x = of_int j * 2 powi (fexp x - 52)" using x by (simp add: fl64_def j)
  also have "\<dots> = x * (2 powi (52 - fexp x) * 2 powi (fexp x - 52))" by (simp flip: j)
  also have "\<dots> = x" by (simp flip: power_int_add)
  finally show ?thesis .
qed

lemma fl64_idem [simp]: "fl64 (fl64 x) = fl64 x"
proof (cases "0 < x")
  case True
  show ?thesis
  proof (rule fl64_exact)
    show "fl64 x = of_int (rne (x * 2 powi (52 - fexp x))) * 2 powi (fexp x - 52)"
      using True by (simp add: fl64_def)
    show "0 \<le> rne (x * 2 powi (52 - fexp x))" using fl64_digits(1) [OF True] by simp
    show "rne (x * 2 powi (52 - fexp x)) \<le> 2 ^ 53" by (rule fl64_digits(2) [OF True])
  qed
qed (simp add: fl64_def)

lemma fl64_nat: "n \<le> 2 ^ 53 \<Longrightarrow> fl64 (of_nat n) = of_nat n"
  by (rule fl64_exact [of _ "int n" 0]) simp_all

text \<open>The relative error.\<close>

definition unit_round :: rat where
  "unit_round = 1 / 2 ^ 53"

lemma fl64_upper:
  assumes "0 \<le> x"
  shows "fl64 x \<le> x * (1 + unit_round)"
proof (cases "x = 0")
  case False
  with assms have x: "0 < x" by simp
  let ?y = "x * 2 powi (52 - fexp x)"
  have "fl64 x = of_int (rne ?y) * 2 powi (fexp x - 52)" using x by (simp add: fl64_def)
  also have "\<dots> \<le> (?y + 1 / 2) * 2 powi (fexp x - 52)" by (intro mult_right_mono rne_bounds) simp
  also have "\<dots> = x * (2 powi (52 - fexp x) * 2 powi (fexp x - 52)) + 2 powi (fexp x - 52) / 2"
    by (simp add: algebra_simps)
  also have "\<dots> = x + 2 powi fexp x * unit_round"
    by (simp flip: power_int_add) (simp add: power_int_diff unit_round_def)
  also have "\<dots> \<le> x + x * unit_round"
    using fexp_bounds(1) [OF x] by (simp add: unit_round_def)
  finally show ?thesis by (simp add: algebra_simps)
qed simp

end
