(* ===== verification/Tun.thy ===== *)
theory Tun
  imports Binary64 Node_List Radio_World
begin

text \<open>
  The packet pump of \<open>tun/tun.c\<close>: real packets read from one TUN device, the radio verdict
  or the traffic shaping of the edge applied, and the packet written to the peer's device.

  The three arrays of \<open>TunMap\<close> are lists of their live entries and the flow matrix is a
  function of two slot indices. What the kernel answers is a parameter, \<open>tun_env\<close>: the packet
  a \<open>read\<close> returns, the result of each \<open>write\<close> in turn, and the two clocks. A pump returns the
  map it leaves and the log of its writes, failed ones included. The static helpers are only
  called with a live map, so their null guards on it are not repeated here; the public
  operations keep theirs. \<open>open_tun_file\<close>, a sequence of system calls, is in \<open>Sim_Host\<close>.
\<close>

section \<open>State\<close>

definition TUN_MAP_MAX :: nat where
  "TUN_MAP_MAX = 100"

definition TUN_BUF_N :: nat where
  "TUN_BUF_N = 2048"

definition IPV4_MIN_N :: nat where
  "IPV4_MIN_N = 20"

record tun_slot =
  s_fd :: int
  s_ip :: "u8 list"
  s_node_id :: u64

record tun_qos =
  loss01 :: rat
  base_delay_ns :: u64
  jitter_ns :: u64
  kbps :: u64
  dup_pct :: int
  slow_secs :: int
  seed :: u64

record tun_qos_slot =
  q_fd :: int
  q_of :: tun_qos
  ctr :: u64
  toks :: u64
  last_ns :: u64
  last_slow :: int

record tun_drop_ent =
  from_fd :: int
  to_fd :: int

record tun_flow =
  pkts :: u64
  bytes :: u64
  radio_drops :: u64
  policy_drops :: u64

definition zero_flow :: tun_flow where
  "zero_flow = \<lparr>pkts = 0, bytes = 0, radio_drops = 0, policy_drops = 0\<rparr>"

record tun_map =
  slots :: "tun_slot list"
  qos :: "tun_qos_slot list"
  drops :: "tun_drop_ent list"
  flow :: "nat \<Rightarrow> nat \<Rightarrow> tun_flow"

record tun_env =
  rd :: "int \<Rightarrow> u8 list option"
  wr :: "nat \<Rightarrow> int"
  wall_s :: int
  mono_s :: u64
  mono_ns :: u64

type_synonym write_log = "(int \<times> u8 list) list"

section \<open>The map\<close>

definition tun_map_add :: "tun_map ptr \<Rightarrow> int \<Rightarrow> u8 list ptr \<Rightarrow> u64 \<Rightarrow> bool \<times> tun_map ptr" where
  "tun_map_add mp fd ip node_id =
     (case (mp, ip) of
        (Some m, Some ip) \<Rightarrow>
          if fd < 0 then (False, mp)
          else if length (slots m) \<ge> TUN_MAP_MAX then (False, mp)
          else (True, Some (m\<lparr>slots := slots m @
                  [\<lparr>s_fd = fd, s_ip = take 4 ip, s_node_id = node_id\<rparr>]\<rparr>))
      | _ \<Rightarrow> (False, mp))"

definition slot_of_fd :: "tun_map \<Rightarrow> int \<Rightarrow> nat ptr" where
  "slot_of_fd m fd = first_at (\<lambda>s. s_fd s = fd) (slots m)"

definition slot_of_ip :: "tun_map \<Rightarrow> u8 list \<Rightarrow> int \<Rightarrow> nat ptr" where
  "slot_of_ip m ip not_fd = first_at (\<lambda>s. s_fd s \<noteq> not_fd \<and> s_ip s = take 4 ip) (slots m)"

section \<open>Sampling\<close>

definition QSTEP :: u64 where
  "QSTEP = 0x9E3779B97F4A7C15"

definition qmix :: "u64 \<Rightarrow> u64 \<Rightarrow> u64" where
  "qmix sd c =
     (let z = sd + c * QSTEP;
          z = (z XOR drop_bit 30 z) * 0xBF58476D1CE4E5B9;
          z = (z XOR drop_bit 27 z) * 0x94D049BB133111EB
      in z XOR drop_bit 31 z)"

definition qu01 :: "u64 \<Rightarrow> u64 \<Rightarrow> rat" where
  "qu01 sd c = (let h = drop_bit 11 (qmix sd c) in fl64 (double_of h / 9007199254740992))"

definition qloss :: "rat \<Rightarrow> u64 \<Rightarrow> u64 \<Rightarrow> bool" where
  "qloss ls sd c =
     (if ls \<le> 0 then False
      else if ls \<ge> 1 then True
      else qu01 (sd XOR 11) c < ls)"

definition qjit :: "u64 \<Rightarrow> u64 \<Rightarrow> u64 \<Rightarrow> u64" where
  "qjit jit sd c =
     (if jit = 0 then 0 else trunc_u64 (fl64 (qu01 (sd XOR 77) c * double_of jit)))"

definition qdelay :: "tun_qos ptr \<Rightarrow> u64 \<Rightarrow> u64" where
  "qdelay qp c =
     (case qp of None \<Rightarrow> 0 | Some q \<Rightarrow> base_delay_ns q + qjit (jitter_ns q) (seed q) c)"

definition qdup :: "int \<Rightarrow> u64 \<Rightarrow> u64 \<Rightarrow> bool" where
  "qdup pct sd c =
     (if pct \<le> 0 then False
      else if pct \<ge> 100 then True
      else fl64 (qu01 (sd XOR 131) c * 100) < of_int pct)"

section \<open>Rate\<close>

definition qcap :: "u64 \<Rightarrow> u64" where
  "qcap kb =
     (let cap = kb * 125 in
      if cap < of_nat TUN_BUF_N then of_nat TUN_BUF_N else cap)"

text \<open>The refill: the level before spending.\<close>

definition refill :: "u64 \<Rightarrow> u64 \<Rightarrow> u64 \<Rightarrow> u64" where
  "refill kb tk elapsed =
     (let cap = qcap kb;
          add = fl64 (fl64 (double_of kb * double_of elapsed) / 8000000) in
      if add \<ge> double_of cap then cap
      else
        let tk = tk + trunc_u64 add in
        if tk > cap then cap else tk)"

definition qbucket :: "u64 \<Rightarrow> u64 ptr \<Rightarrow> u64 ptr \<Rightarrow> u64 \<Rightarrow> nat \<Rightarrow> bool \<times> u64 ptr \<times> u64 ptr" where
  "qbucket kb tp lp now n =
     (if kb = 0 then (True, tp, lp)
      else
        (case (tp, lp) of
           (Some tk, Some prev) \<Rightarrow>
             let tk = refill kb tk (now - prev);
                 prev = now in
             if tk < of_nat n then (False, Some tk, Some prev)
             else (True, Some (tk - of_nat n), Some prev)
         | _ \<Rightarrow> (False, tp, lp)))"

definition qslow :: "int \<Rightarrow> int \<Rightarrow> int \<Rightarrow> bool" where
  "qslow prev now secs = (if secs \<le> 0 then True else now - prev \<ge> secs)"

section \<open>Lookups and counters\<close>

definition qfind :: "tun_map \<Rightarrow> int \<Rightarrow> nat ptr" where
  "qfind m fd = first_at (\<lambda>s. q_fd s = fd) (qos m)"

definition dhas :: "tun_map \<Rightarrow> int \<Rightarrow> int \<Rightarrow> bool" where
  "dhas m f t = list_ex (\<lambda>d. from_fd d = f \<and> to_fd d = t) (drops m)"

definition sadd :: "u64 \<Rightarrow> u64 \<Rightarrow> u64" where
  "sadd a b = (if a > UINT64_MAX - b then UINT64_MAX else a + b)"

text \<open>\<open>flow_at\<close> and the update of the cell it points to; out of range nothing happens.\<close>

definition flow_at :: "tun_map \<Rightarrow> nat \<Rightarrow> nat \<Rightarrow> tun_flow option" where
  "flow_at m fi ti = (if fi \<ge> TUN_MAP_MAX \<or> ti \<ge> TUN_MAP_MAX then None else Some (flow m fi ti))"

definition set_flow :: "tun_map \<Rightarrow> nat \<Rightarrow> nat \<Rightarrow> tun_flow \<Rightarrow> tun_map" where
  "set_flow m fi ti f = m\<lparr>flow := (flow m)(fi := (flow m fi)(ti := f))\<rparr>"

definition flow_fwd :: "tun_map \<Rightarrow> nat \<Rightarrow> nat \<Rightarrow> nat \<Rightarrow> tun_map" where
  "flow_fwd m fi ti n =
     (case flow_at m fi ti of
        None \<Rightarrow> m
      | Some f \<Rightarrow> set_flow m fi ti (f\<lparr>pkts := sadd (pkts f) 1, bytes := sadd (bytes f) (of_nat n)\<rparr>))"

definition flow_radio :: "tun_map \<Rightarrow> nat \<Rightarrow> nat \<Rightarrow> tun_map" where
  "flow_radio m fi ti =
     (case flow_at m fi ti of
        None \<Rightarrow> m
      | Some f \<Rightarrow> set_flow m fi ti (f\<lparr>radio_drops := sadd (radio_drops f) 1\<rparr>))"

definition flow_policy :: "tun_map \<Rightarrow> nat \<Rightarrow> nat \<Rightarrow> tun_map" where
  "flow_policy m fi ti =
     (case flow_at m fi ti of
        None \<Rightarrow> m
      | Some f \<Rightarrow> set_flow m fi ti (f\<lparr>policy_drops := sadd (policy_drops f) 1\<rparr>))"

section \<open>Forwarding\<close>

definition tun_forward ::
  "tun_env \<Rightarrow> write_log \<Rightarrow> int \<Rightarrow> u8 list ptr \<Rightarrow> nat \<Rightarrow> medium_grid ptr \<Rightarrow> radio_params ptr \<Rightarrow>
   i64 \<Rightarrow> i64 \<Rightarrow> i64 \<Rightarrow> i64 \<Rightarrow> bool \<times> write_log" where
  "tun_forward env lg fd buf n grid radio ax ay bx by' =
     (case buf of
        None \<Rightarrow> (False, lg)
      | Some b \<Rightarrow>
          if fd < 0 \<or> n = 0 then (False, lg)
          else
            (case radio_path grid radio ax ay bx by' (Some \<lparr>reachable = False, delay_ns = 0\<rparr>) of
               Some (True, _) \<Rightarrow>
                 let w = wr env (length lg) in (w = int n, lg @ [(fd, take n b)])
             | _ \<Rightarrow> (False, lg)))"

definition fwd_counted ::
  "tun_env \<Rightarrow> tun_map \<Rightarrow> write_log \<Rightarrow> nat \<Rightarrow> nat \<Rightarrow> int \<Rightarrow> u8 list ptr \<Rightarrow> nat \<Rightarrow>
   medium_grid ptr \<Rightarrow> radio_params ptr \<Rightarrow> i64 \<Rightarrow> i64 \<Rightarrow> i64 \<Rightarrow> i64 \<Rightarrow> tun_map \<times> write_log" where
  "fwd_counted env m lg fi ti fd buf n grid radio ax ay bx by' =
     (if buf = None then (m, lg)
      else
        (case tun_forward env lg fd buf n grid radio ax ay bx by' of
           (True, lg) \<Rightarrow> (flow_fwd m fi ti n, lg)
         | (False, lg) \<Rightarrow> (flow_radio m fi ti, lg)))"

definition idx_of_fd :: "tun_map \<Rightarrow> int \<Rightarrow> int" where
  "idx_of_fd m fd =
     (if fd < 0 then -1
      else (case first_at (\<lambda>s. s_fd s = fd) (slots m) of None \<Rightarrow> -1 | Some i \<Rightarrow> int i))"

text \<open>\<open>qsend\<close>: \<open>qi\<close> is the QoS slot its pointer argument points to.\<close>

definition qsend ::
  "tun_env \<Rightarrow> tun_map \<Rightarrow> write_log \<Rightarrow> nat \<Rightarrow> nat \<Rightarrow> nat \<Rightarrow> int \<Rightarrow> u8 list ptr \<Rightarrow> nat \<Rightarrow>
   medium_grid ptr \<Rightarrow> radio_params ptr \<Rightarrow> i64 \<Rightarrow> i64 \<Rightarrow> i64 \<Rightarrow> i64 \<Rightarrow> tun_map \<times> write_log" where
  "qsend env m lg fi ti qi fd buf n grid radio ax ay bx by' =
     (let qs = qos m ! qi;
          c = ctr qs;
          qs = qs\<lparr>ctr := ctr qs + 1\<rparr>;
          m = m\<lparr>qos := (qos m)[qi := qs]\<rparr> in
      if qloss (loss01 (q_of qs)) (seed (q_of qs)) c then (flow_policy m fi ti, lg)
      else
        let (denied, m) =
          (if kbps (q_of qs) > 0 then
             (let now = mono_s env * 1000000000 + mono_ns env in
              case qbucket (kbps (q_of qs)) (Some (toks qs)) (Some (last_ns qs)) now n of
                (ok, tp, lp) \<Rightarrow>
                  let qs = qs\<lparr>toks := the tp, last_ns := the lp\<rparr>;
                      m = m\<lparr>qos := (qos m)[qi := qs]\<rparr>
                  in (\<not> ok, m))
           else (False, m)) in
        if denied then (flow_policy m fi ti, lg)
        else
          let (m, lg) = fwd_counted env m lg fi ti fd buf n grid radio ax ay bx by' in
          if qdup (dup_pct (q_of qs)) (seed (q_of qs)) c
          then fwd_counted env m lg fi ti fd buf n grid radio ax ay bx by'
          else (m, lg))"

section \<open>The pump\<close>

text \<open>The slow gate: \<open>None\<close> when the pump defers, else the map with the drain stamped.\<close>

definition slow_gate :: "tun_env \<Rightarrow> tun_map \<Rightarrow> int \<Rightarrow> tun_map option" where
  "slow_gate env m fd =
     (case qfind m fd of
        None \<Rightarrow> Some m
      | Some qi \<Rightarrow>
          let qs = qos m ! qi in
          if slow_secs (q_of qs) > 0 then
            (if \<not> qslow (last_slow qs) (wall_s env) (slow_secs (q_of qs)) then None
             else Some (m\<lparr>qos := (qos m)[qi := qs\<lparr>last_slow := wall_s env\<rparr>]\<rparr>))
          else Some m)"

text \<open>The fan-out loop over the slots \<open>i, i + 1, \<dots>\<close>.\<close>

fun fan_out ::
  "tun_env \<Rightarrow> int \<Rightarrow> nat \<Rightarrow> node \<Rightarrow> u8 list \<Rightarrow> medium_grid \<Rightarrow> radio_params \<Rightarrow> node_list \<Rightarrow>
   nat \<Rightarrow> tun_slot list \<Rightarrow> tun_map \<Rightarrow> write_log \<Rightarrow> tun_map \<times> write_log" where
  "fan_out env fd fi fn buf grid radio nl i [] m lg = (m, lg)"
| "fan_out env fd fi fn buf grid radio nl i (peer # ps) m lg =
     (if s_fd peer = fd then fan_out env fd fi fn buf grid radio nl (Suc i) ps m lg
      else
        (case nodelist_find (Some nl) (s_node_id peer) of
           None \<Rightarrow> fan_out env fd fi fn buf grid radio nl (Suc i) ps m lg
         | Some k \<Rightarrow>
             let pn = nodes nl ! k;
                 (m, lg) = fwd_counted env m lg fi i (s_fd peer) (Some buf) (length buf)
                             (Some grid) (Some radio) (x_nm fn) (y_nm fn) (x_nm pn) (y_nm pn)
             in fan_out env fd fi fn buf grid radio nl (Suc i) ps m lg))"

text \<open>The unicast branch.\<close>

definition unicast ::
  "tun_env \<Rightarrow> int \<Rightarrow> nat \<Rightarrow> node \<Rightarrow> u8 list \<Rightarrow> medium_grid \<Rightarrow> radio_params \<Rightarrow> node_list \<Rightarrow>
   tun_map \<Rightarrow> tun_map \<times> write_log" where
  "unicast env fd fi fn buf grid radio nl m =
     (case slot_of_ip m (drop 16 buf) fd of
        None \<Rightarrow> (m, [])
      | Some ti \<Rightarrow>
          let to = slots m ! ti in
          if dhas m fd (s_fd to) then (flow_policy m fi ti, [])
          else
            (case nodelist_find (Some nl) (s_node_id to) of
               None \<Rightarrow> (m, [])
             | Some tn \<Rightarrow>
                 let tn = nodes nl ! tn in
                 (case qfind m fd of
                    Some qi \<Rightarrow>
                      qsend env m [] fi ti qi (s_fd to) (Some buf) (length buf) (Some grid)
                        (Some radio) (x_nm fn) (y_nm fn) (x_nm tn) (y_nm tn)
                  | None \<Rightarrow>
                      fwd_counted env m [] fi ti (s_fd to) (Some buf) (length buf) (Some grid)
                        (Some radio) (x_nm fn) (y_nm fn) (x_nm tn) (y_nm tn))))"

definition pump ::
  "tun_env \<Rightarrow> tun_map ptr \<Rightarrow> int \<Rightarrow> medium_grid ptr \<Rightarrow> radio_params ptr \<Rightarrow> node_list ptr \<Rightarrow> bool \<Rightarrow>
   tun_map ptr \<times> write_log" where
  "pump env mp fd gp rp np drop_mcast =
     (case (mp, gp, rp, np) of
        (Some m, Some grid, Some radio, Some nl) \<Rightarrow>
          (case slow_gate env m fd of
             None \<Rightarrow> (Some m, [])
           | Some m \<Rightarrow>
               (case rd env fd of
                  None \<Rightarrow> (Some m, [])
                | Some buf \<Rightarrow>
                    if length buf < IPV4_MIN_N \<or> drop_bit 4 (buf ! 0) \<noteq> 4 then (Some m, [])
                    else
                      (case slot_of_fd m fd of
                         None \<Rightarrow> (Some m, [])
                       | Some fi \<Rightarrow>
                           (case nodelist_find np (s_node_id (slots m ! fi)) of
                              None \<Rightarrow> (Some m, [])
                            | Some fn \<Rightarrow>
                                let fn = nodes nl ! fn in
                                if buf ! 16 AND 0xF0 = 0xE0 then
                                  (if drop_mcast then (Some m, [])
                                   else map_prod Some (\<lambda>lg. lg)
                                          (fan_out env fd fi fn buf grid radio nl 0 (slots m) m []))
                                else if buf ! 16 = 10 \<and> buf ! 17 = 0 \<and> buf ! 18 = 0 \<and> buf ! 19 = 255 then
                                  map_prod Some (\<lambda>lg. lg)
                                    (fan_out env fd fi fn buf grid radio nl 0 (slots m) m [])
                                else
                                  map_prod Some (\<lambda>lg. lg) (unicast env fd fi fn buf grid radio nl m)))))
      | _ \<Rightarrow> (mp, []))"

definition tun_pump_fd ::
  "tun_env \<Rightarrow> tun_map ptr \<Rightarrow> int \<Rightarrow> medium_grid ptr \<Rightarrow> radio_params ptr \<Rightarrow> node_list ptr \<Rightarrow>
   tun_map ptr \<times> write_log" where
  "tun_pump_fd env mp fd gp rp np = pump env mp fd gp rp np False"

definition tun_pump_fd_nomcast ::
  "tun_env \<Rightarrow> tun_map ptr \<Rightarrow> int \<Rightarrow> medium_grid ptr \<Rightarrow> radio_params ptr \<Rightarrow> node_list ptr \<Rightarrow>
   tun_map ptr \<times> write_log" where
  "tun_pump_fd_nomcast env mp fd gp rp np = pump env mp fd gp rp np True"

section \<open>Shaping and statistics\<close>

definition tun_qos_set :: "tun_map ptr \<Rightarrow> int \<Rightarrow> tun_qos ptr \<Rightarrow> tun_map ptr" where
  "tun_qos_set mp fd qp =
     (case (mp, qp) of
        (Some m, Some q) \<Rightarrow>
          if fd < 0 then mp
          else
            let armed = (\<lambda>f. \<lparr>q_fd = f, q_of = q, ctr = 0, toks = qcap (kbps q), last_ns = 0,
                             last_slow = 0\<rparr>) in
            (case qfind m fd of
               None \<Rightarrow>
                 if length (qos m) \<ge> TUN_MAP_MAX then mp
                 else Some (m\<lparr>qos := qos m @ [armed fd]\<rparr>)
             | Some i \<Rightarrow> Some (m\<lparr>qos := (qos m)[i := armed (q_fd (qos m ! i))]\<rparr>))
      | _ \<Rightarrow> mp)"

definition tun_qos_clear :: "tun_map ptr \<Rightarrow> int \<Rightarrow> tun_map ptr" where
  "tun_qos_clear mp fd =
     (case mp of
        None \<Rightarrow> None
      | Some m \<Rightarrow>
          if fd < 0 then mp
          else
            (case first_at (\<lambda>s. q_fd s = fd) (qos m) of
               None \<Rightarrow> mp
             | Some i \<Rightarrow> Some (m\<lparr>qos := swap_remove (qos m) i\<rparr>)))"

definition tun_drop_set :: "tun_map ptr \<Rightarrow> int \<Rightarrow> int \<Rightarrow> bool \<Rightarrow> tun_map ptr" where
  "tun_drop_set mp f t arm =
     (case mp of
        None \<Rightarrow> None
      | Some m \<Rightarrow>
          if f < 0 \<or> t < 0 then mp
          else
            (case first_at (\<lambda>d. \<not> (from_fd d \<noteq> f \<or> to_fd d \<noteq> t)) (drops m) of
               Some i \<Rightarrow> if \<not> arm then Some (m\<lparr>drops := swap_remove (drops m) i\<rparr>) else mp
             | None \<Rightarrow>
                 if \<not> arm then mp
                 else if length (drops m) \<ge> TUN_MAP_MAX then mp
                 else Some (m\<lparr>drops := drops m @ [\<lparr>from_fd = f, to_fd = t\<rparr>]\<rparr>)))"

definition tun_drop_clear :: "tun_map ptr \<Rightarrow> int \<Rightarrow> int \<Rightarrow> bool \<Rightarrow> tun_map ptr" where
  "tun_drop_clear mp f t arm =
     (case mp of
        None \<Rightarrow> None
      | Some m \<Rightarrow>
          if f < 0 \<or> t < 0 then mp
          else
            (case first_at (\<lambda>d. \<not> (from_fd d \<noteq> f \<or> to_fd d \<noteq> t)) (drops m) of
               Some i \<Rightarrow> Some (m\<lparr>drops := swap_remove (drops m) i\<rparr>)
             | None \<Rightarrow> mp))"

definition tun_stats_get :: "tun_map ptr \<Rightarrow> int \<Rightarrow> int \<Rightarrow> tun_flow ptr \<Rightarrow> bool \<times> tun_flow ptr" where
  "tun_stats_get mp f t out =
     (case (mp, out) of
        (Some m, Some _) \<Rightarrow>
          if f < 0 \<or> t < 0 then (False, out)
          else
            let fi = idx_of_fd m f; ti = idx_of_fd m t in
            if fi < 0 \<or> ti < 0 then (False, out)
            else (True, Some (flow m (nat fi) (nat ti)))
      | _ \<Rightarrow> (False, out))"

definition tun_stats_reset :: "tun_map ptr \<Rightarrow> tun_map ptr" where
  "tun_stats_reset mp =
     (case mp of None \<Rightarrow> None | Some m \<Rightarrow> Some (m\<lparr>flow := (\<lambda>_ _. zero_flow)\<rparr>))"

section \<open>Samples\<close>

declare of_nat_unat [simp del]

lemma unat_drop_11: "unat (drop_bit 11 (w :: u64)) < 2 ^ 53"
proof -
  have "unat (drop_bit 11 w) = unat w div 2 ^ 11" by (simp add: drop_bit_eq_div unat_div)
  then show ?thesis by (simp add: less_mult_imp_div_less)
qed

lemma fl64_dyadic: "h \<le> 2 ^ 53 \<Longrightarrow> fl64 (of_nat h / 2 ^ 53) = of_nat h / 2 ^ 53"
proof (rule fl64_exact [of _ "int h" "- 53"])
  have "(2 :: rat) powi - 53 = inverse (2 ^ 53)" by (simp only: power_int_minus power_int_numeral)
  then show "rat_of_nat h / 2 ^ 53 = of_int (int h) * 2 powi - 53"
    by (simp only: of_int_of_nat_eq divide_inverse)
qed simp_all

lemma qu01_exact: "qu01 sd c = of_nat (unat (drop_bit 11 (qmix sd c))) / 2 ^ 53"
proof -
  have "fl64 (of_nat h / 9007199254740992) = of_nat h / 2 ^ 53" if "h < 2 ^ 53" for h
    using fl64_dyadic [of h] that by simp
  then show ?thesis
    using unat_drop_11 [of "qmix sd c"] fl64_nat [of "unat (drop_bit 11 (qmix sd c))"]
    by (simp add: qu01_def double_of_def Let_def)
qed

lemma dyadic_range:
  assumes "h < 2 ^ 53"
  shows "rat_of_nat h / 2 ^ 53 \<le> 1 - unit_round"
proof -
  have "Suc h \<le> 2 ^ 53" using assms by simp
  then have "rat_of_nat (Suc h) \<le> of_nat (2 ^ 53)" by (rule of_nat_mono)
  then show ?thesis by (simp add: unit_round_def field_simps)
qed

lemma qu01_range: "0 \<le> qu01 sd c" "qu01 sd c \<le> 1 - unit_round"
  using dyadic_range [OF unat_drop_11 [of "qmix sd c"]] by (simp_all add: qu01_exact)

lemma unat_trunc_u64:
  assumes "0 \<le> x" "x < of_nat n" "n < 2 ^ 64"
  shows "unat (trunc_u64 x) = nat \<lfloor>x\<rfloor>" "nat \<lfloor>x\<rfloor> < n"
proof -
  have f: "0 \<le> \<lfloor>x\<rfloor>" "\<lfloor>x\<rfloor> < int n" using assms by (simp_all add: floor_less_iff)
  then show less: "nat \<lfloor>x\<rfloor> < n" by linarith
  have "trunc_u64 x = word_of_nat (nat \<lfloor>x\<rfloor>)" using f(1) by (simp add: trunc_u64_def)
  then show "unat (trunc_u64 x) = nat \<lfloor>x\<rfloor>"
    using less assms(3) by (simp add: unat_of_nat64)
qed

lemma double_of_pos: "n \<noteq> 0 \<Longrightarrow> 0 < double_of n"
proof -
  assume "n \<noteq> 0"
  then have "1 \<le> unat n" by (simp add: unat_gt_0 Suc_le_eq)
  then have "rat_of_nat 1 \<le> of_nat (unat n)" by (rule of_nat_mono)
  then have "fl64 (of_nat 1) \<le> double_of n" unfolding double_of_def by (rule fl64_mono)
  moreover have "fl64 (of_nat 1) = 1" by (subst fl64_nat) simp_all
  ultimately show ?thesis by simp
qed

text \<open>A fraction below one of a rounded integer rounds to less than the integer.\<close>

lemma fraction_less:
  assumes "n \<noteq> 0" "0 \<le> u" "u \<le> 1 - unit_round"
  shows "fl64 (u * double_of n) < of_nat (unat n)"
proof -
  let ?d = "double_of n" and ?r = "fl64 (u * double_of n)"
  have d: "0 < ?d" using assms(1) by (rule double_of_pos)
  have "?r \<le> u * ?d * (1 + unit_round)" using assms(2) d by (intro fl64_upper) simp
  also have "\<dots> \<le> (1 - unit_round) * ?d * (1 + unit_round)"
    using assms(3) d by (intro mult_right_mono) (auto simp: unit_round_def)
  also have "\<dots> = ?d * (1 - unit_round * unit_round)" by (simp add: algebra_simps)
  also have "\<dots> < ?d" using d by (simp add: unit_round_def)
  finally have less: "?r < ?d" .
  show ?thesis
  proof (rule ccontr)
    assume "\<not> ?r < of_nat (unat n)"
    then have "fl64 (of_nat (unat n)) \<le> fl64 ?r" by (intro fl64_mono) simp
    with less show False by (simp add: double_of_def)
  qed
qed

lemma qjit_below: "jit \<noteq> 0 \<Longrightarrow> qjit jit sd c < jit"
proof -
  assume jit: "jit \<noteq> 0"
  let ?x = "fl64 (qu01 (sd XOR 77) c * double_of jit)"
  have "?x < of_nat (unat jit)" using jit qu01_range by (rule fraction_less)
  from unat_trunc_u64 [OF fl64_nonneg this] unat_lt_2p64 [of jit]
  have "unat (trunc_u64 ?x) < unat jit" by simp
  with jit show ?thesis by (simp add: qjit_def word_less_nat_alt)
qed

section \<open>The token bucket\<close>

text \<open>The exact refill of \<open>el\<close> nanoseconds, and the slack of its three roundings.\<close>

definition exact_refill :: "u64 \<Rightarrow> nat \<Rightarrow> rat" where
  "exact_refill kb el = of_nat (unat kb) * of_nat el / 8000000"

definition slack :: rat where
  "slack = (1 + unit_round) ^ 3"

lemma slack_pos: "0 < slack" "1 \<le> slack"
  by (simp_all add: slack_def unit_round_def)

lemma exact_refill_add: "exact_refill kb (a + b) = exact_refill kb a + exact_refill kb b"
  by (simp add: exact_refill_def algebra_simps add_divide_distrib)

lemma exact_refill_nonneg [simp]: "0 \<le> exact_refill kb el"
  by (simp add: exact_refill_def)

definition small_rate :: "u64 \<Rightarrow> bool" where
  "small_rate kb = (kb \<noteq> 0 \<and> unat kb * 125 \<le> 2 ^ 53)"

lemma qcap_small: "small_rate kb \<Longrightarrow> unat (qcap kb) = max 2048 (unat kb * 125)"
proof -
  assume "small_rate kb"
  then have "unat (kb * 125) = unat kb * 125" by (simp add: small_rate_def unat_word_ariths)
  then show ?thesis by (simp add: qcap_def Let_def TUN_BUF_N_def word_less_nat_alt max_def)
qed

lemma rounded_refill:
  assumes "small_rate kb"
  shows "fl64 (fl64 (double_of kb * double_of el) / 8000000) \<le> exact_refill kb (unat el) * slack"
proof -
  let ?k = "rat_of_nat (unat kb)" and ?e = "rat_of_nat (unat el)" and ?u = "1 + unit_round"
  have u: "0 \<le> ?u" by (simp add: unit_round_def)
  have k: "double_of kb = ?k" using assms unfolding double_of_def small_rate_def by (intro fl64_nat) simp
  have "double_of el \<le> ?e * ?u" unfolding double_of_def by (rule fl64_upper) simp
  then have "?k * double_of el \<le> ?k * (?e * ?u)" by (rule mult_left_mono) simp
  moreover have "fl64 (?k * double_of el) \<le> ?k * double_of el * ?u"
    by (rule fl64_upper) (simp add: double_of_def)
  ultimately have "fl64 (?k * double_of el) \<le> ?k * (?e * ?u) * ?u"
    using u by (meson mult_right_mono order_trans)
  then have "fl64 (?k * double_of el) / 8000000 \<le> ?k * (?e * ?u) * ?u / 8000000" by simp
  moreover have "fl64 (fl64 (?k * double_of el) / 8000000) \<le> fl64 (?k * double_of el) / 8000000 * ?u"
    by (rule fl64_upper) simp
  ultimately have "fl64 (fl64 (?k * double_of el) / 8000000) \<le> ?k * (?e * ?u) * ?u / 8000000 * ?u"
    using u by (meson mult_right_mono order_trans)
  then show ?thesis by (simp add: k exact_refill_def slack_def power3_eq_cube mult.assoc mult.commute mult.left_commute)
qed

lemma floor_le_rat: "0 \<le> x \<Longrightarrow> rat_of_nat (nat \<lfloor>x\<rfloor>) \<le> x"
  by simp

lemma refill_bounds:
  assumes kb: "small_rate kb" and tk: "tk \<le> qcap kb"
  shows "refill kb tk el \<le> qcap kb"
    "rat_of_nat (unat (refill kb tk el)) \<le> of_nat (unat tk) + exact_refill kb (unat el) * slack"
proof -
  let ?add = "fl64 (fl64 (double_of kb * double_of el) / 8000000)"
  let ?cap = "unat (qcap kb)"
  note r = rounded_refill [OF kb, of el]
  have cap: "?cap \<le> 2 ^ 53" using kb by (simp add: qcap_small) (simp add: small_rate_def)
  then have dcap: "double_of (qcap kb) = of_nat ?cap" unfolding double_of_def by (intro fl64_nat) simp
  show "refill kb tk el \<le> qcap kb" by (auto simp: refill_def Let_def)
  show "rat_of_nat (unat (refill kb tk el)) \<le> of_nat (unat tk) + exact_refill kb (unat el) * slack"
  proof (cases "?add \<ge> of_nat ?cap")
    case True
    then have "rat_of_nat (unat (refill kb tk el)) = of_nat ?cap" by (simp add: refill_def Let_def dcap)
    moreover have "0 \<le> rat_of_nat (unat tk)" by simp
    ultimately show ?thesis using True r by linarith
  next
    case False
    then have less: "?add < of_nat ?cap" by simp
    have n: "unat (trunc_u64 ?add) = nat \<lfloor>?add\<rfloor>" "nat \<lfloor>?add\<rfloor> < ?cap"
      using unat_trunc_u64 [OF fl64_nonneg less] by simp_all
    have tkn: "unat tk \<le> ?cap" using tk by (simp add: word_le_nat_alt)
    have sum: "unat (tk + trunc_u64 ?add) = unat tk + nat \<lfloor>?add\<rfloor>"
      using n tkn cap by (subst unat_plus_if') simp
    have "unat (refill kb tk el) \<le> unat (tk + trunc_u64 ?add)"
      using False by (auto simp: refill_def Let_def dcap word_less_nat_alt)
    then have "rat_of_nat (unat (refill kb tk el)) \<le> of_nat (unat tk + nat \<lfloor>?add\<rfloor>)"
      unfolding sum by (rule of_nat_mono)
    also have "\<dots> \<le> of_nat (unat tk) + ?add" using floor_le_rat [of ?add] by simp
    finally show ?thesis using r by linarith
  qed
qed

lemma qbucket_bounds:
  assumes kb: "small_rate kb" and tk: "tk \<le> qcap kb" and n: "n < 2 ^ 64"
    and b: "qbucket kb (Some tk) (Some prev) now n = (ok, Some tk', Some prev')"
  shows "prev' = now" "tk' \<le> qcap kb"
    "of_nat (if ok then n else 0) + rat_of_nat (unat tk') \<le>
       of_nat (unat tk) + exact_refill kb (unat (now - prev)) * slack"
proof -
  let ?r = "refill kb tk (now - prev)"
  note r = refill_bounds [OF kb tk, of "now - prev"]
  have kb0: "kb \<noteq> 0" using kb by (simp add: small_rate_def)
  have un: "unat (of_nat n :: u64) = n" using n by (simp add: unat_of_nat64)
  from b kb0 show "prev' = now" by (auto simp: qbucket_def Let_def split: if_splits)
  show "tk' \<le> qcap kb"
  proof (cases ok)
    case True
    with b kb0 have "tk' = ?r - of_nat n" "\<not> ?r < of_nat n" by (auto simp: qbucket_def Let_def split: if_splits)
    then have "tk' \<le> ?r" by (simp add: word_sub_le_iff)
    with r(1) show ?thesis by simp
  next
    case False
    with b kb0 r(1) show ?thesis by (auto simp: qbucket_def Let_def split: if_splits)
  qed
  show "of_nat (if ok then n else 0) + rat_of_nat (unat tk') \<le>
       of_nat (unat tk) + exact_refill kb (unat (now - prev)) * slack"
  proof (cases ok)
    case True
    with b kb0 have "tk' = ?r - of_nat n" "\<not> ?r < of_nat n" by (auto simp: qbucket_def Let_def split: if_splits)
    then have "n + unat tk' = unat ?r" by (simp add: unat_sub_if' word_less_nat_alt un)
    then have "rat_of_nat n + of_nat (unat tk') = of_nat (unat ?r)" by (metis of_nat_add)
    with True r(2) show ?thesis by simp
  next
    case False
    with b kb0 have "tk' = ?r" by (auto simp: qbucket_def Let_def split: if_splits)
    with False r(2) show ?thesis by simp
  qed
qed

lemma qbucket_live: "\<exists>ok tk' prev'. qbucket kb (Some tk) (Some prev) now n = (ok, Some tk', Some prev')"
  by (auto simp: qbucket_def Let_def)

text \<open>A sequence of packets offered to one bucket: the bytes admitted, and the level left.\<close>

fun bucket_run :: "u64 \<Rightarrow> (u64 \<times> nat) list \<Rightarrow> u64 ptr \<Rightarrow> u64 ptr \<Rightarrow> nat \<times> u64 ptr \<times> u64 ptr" where
  "bucket_run kb [] tp lp = (0, tp, lp)"
| "bucket_run kb ((now, n) # xs) tp lp =
     (case qbucket kb tp lp now n of
        (ok, tp, lp) \<Rightarrow>
          (case bucket_run kb xs tp lp of
             (sent, r) \<Rightarrow> ((if ok then n else 0) + sent, r)))"

lemma bucket_run_live:
  "\<exists>sent tk' prev'. bucket_run kb xs (Some tk) (Some prev) = (sent, Some tk', Some prev')"
proof (induction xs arbitrary: tk prev)
  case (Cons x xs)
  obtain now n where x: "x = (now, n)" by (cases x)
  obtain ok t1 p1 where b: "qbucket kb (Some tk) (Some prev) now n = (ok, Some t1, Some p1)"
    using qbucket_live by blast
  obtain sent tk' prev' where "bucket_run kb xs (Some t1) (Some p1) = (sent, Some tk', Some prev')"
    using Cons.IH by blast
  with b show ?case by (simp add: x)
qed simp

lemma bucket_run_bounds:
  assumes "small_rate kb" "tk \<le> qcap kb" "\<forall>(now, n) \<in> set xs. n < 2 ^ 64"
    "sorted (map unat (prev # map fst xs))"
    "bucket_run kb xs (Some tk) (Some prev) = (sent, Some tk', Some prev')"
  shows "tk' \<le> qcap kb \<and> prev \<le> prev' \<and>
    rat_of_nat sent + of_nat (unat tk') \<le>
      of_nat (unat tk) + exact_refill kb (unat prev' - unat prev) * slack"
  using assms(2-)
proof (induction xs arbitrary: tk prev sent)
  case Nil
  then show ?case by (simp add: exact_refill_def)
next
  case (Cons x xs)
  obtain now n where x: "x = (now, n)" by (cases x)
  obtain ok t1 p1 where b: "qbucket kb (Some tk) (Some prev) now n = (ok, Some t1, Some p1)"
    using qbucket_live by blast
  obtain s1 where run: "bucket_run kb xs (Some t1) (Some p1) = (s1, Some tk', Some prev')"
    and sent: "sent = (if ok then n else 0) + s1"
    using Cons.prems(4) by (auto simp: x b split: prod.splits)
  note f = qbucket_bounds [OF assms(1) Cons.prems(1) _ b]
  have n: "n < 2 ^ 64" using Cons.prems(2) x by auto
  have le: "unat prev \<le> unat now" using Cons.prems(3) x by simp
  have IH: "tk' \<le> qcap kb \<and> now \<le> prev' \<and> rat_of_nat s1 + of_nat (unat tk') \<le>
      of_nat (unat t1) + exact_refill kb (unat prev' - unat now) * slack"
    using Cons.IH [OF f(2) [OF n], of now s1] Cons.prems(2,3) run f(1) [OF n] x by auto
  have el: "unat (now - prev) = unat now - unat prev" using le by (simp add: unat_sub_if')
  have le2: "unat now \<le> unat prev'" using IH by (simp add: word_le_nat_alt)
  have "unat prev' - unat prev = (unat now - unat prev) + (unat prev' - unat now)" using le le2 by simp
  then have split: "exact_refill kb (unat prev' - unat prev) =
      exact_refill kb (unat now - unat prev) + exact_refill kb (unat prev' - unat now)"
    by (simp only: exact_refill_add)
  have "prev \<le> prev'" using le le2 by (simp add: word_le_nat_alt)
  moreover have "rat_of_nat sent + of_nat (unat tk') \<le>
      of_nat (unat tk) + exact_refill kb (unat prev' - unat prev) * slack"
    using f(3) [OF n] IH unfolding el split sent by (simp add: algebra_simps split: if_splits)
  ultimately show ?case using IH by blast
qed

section \<open>Tables keyed by descriptor\<close>

text \<open>
  Both shaping tables keep the same promises: arming a key sets exactly that key, unless it is
  new and the table is full; clearing a key removes exactly that key.
\<close>

locale keyed_table =
  fixes put :: "'t \<Rightarrow> 'k \<Rightarrow> 'a \<Rightarrow> 't"
    and del :: "'t \<Rightarrow> 'k \<Rightarrow> 't"
    and get :: "'t \<Rightarrow> 'k \<Rightarrow> 'v option"
    and inv :: "'t \<Rightarrow> bool"
    and valid :: "'k \<Rightarrow> bool"
    and full :: "'t \<Rightarrow> bool"
    and mk :: "'k \<Rightarrow> 'a \<Rightarrow> 'v"
  assumes put_inv: "inv t \<Longrightarrow> valid k \<Longrightarrow> inv (put t k a)"
    and put_at: "inv t \<Longrightarrow> valid k \<Longrightarrow>
      get (put t k a) = (if get t k = None \<and> full t then get t else (get t)(k \<mapsto> mk k a))"
    and del_inv: "inv t \<Longrightarrow> valid k \<Longrightarrow> inv (del t k)"
    and del_at: "inv t \<Longrightarrow> valid k \<Longrightarrow> get (del t k) = (get t)(k := None)"
begin

lemma put_others: "inv t \<Longrightarrow> valid k \<Longrightarrow> j \<noteq> k \<Longrightarrow> get (put t k a) j = get t j"
  by (simp add: put_at)

lemma put_then_del: "inv t \<Longrightarrow> valid k \<Longrightarrow> get (del (put t k a) k) = (get t)(k := None)"
  by (auto simp: del_at put_inv put_at)

lemma rearm: "inv t \<Longrightarrow> valid k \<Longrightarrow> get t k \<noteq> None \<Longrightarrow> get (put t k a) = (get t)(k \<mapsto> mk k a)"
  by (auto simp: put_at)

lemma del_then_put:
  "inv t \<Longrightarrow> valid k \<Longrightarrow> \<not> full (del t k) \<Longrightarrow> get (put (del t k) k a) = (get t)(k \<mapsto> mk k a)"
  by (simp add: put_at del_inv del_at)

end

definition drop_key :: "tun_drop_ent \<Rightarrow> int \<times> int" where
  "drop_key d = (from_fd d, to_fd d)"

definition tun_inv :: "tun_map \<Rightarrow> bool" where
  "tun_inv m =
     (length (slots m) \<le> TUN_MAP_MAX \<and>
      length (qos m) \<le> TUN_MAP_MAX \<and> distinct (map q_fd (qos m)) \<and>
      length (drops m) \<le> TUN_MAP_MAX \<and> distinct (map drop_key (drops m)))"

definition qos_at :: "tun_map \<Rightarrow> int \<Rightarrow> tun_qos_slot option" where
  "qos_at m fd = find (\<lambda>s. q_fd s = fd) (qos m)"

definition armed :: "int \<Rightarrow> tun_qos \<Rightarrow> tun_qos_slot" where
  "armed fd q =
     \<lparr>q_fd = fd, q_of = q, ctr = 0, toks = qcap (kbps q), last_ns = 0, last_slow = 0\<rparr>"

definition qos_put :: "tun_map \<Rightarrow> int \<Rightarrow> tun_qos \<Rightarrow> tun_map" where
  "qos_put m fd q = the (tun_qos_set (Some m) fd (Some q))"

definition qos_del :: "tun_map \<Rightarrow> int \<Rightarrow> tun_map" where
  "qos_del m fd = the (tun_qos_clear (Some m) fd)"

definition edge_at :: "tun_map \<Rightarrow> int \<times> int \<Rightarrow> unit option" where
  "edge_at m e = (if dhas m (fst e) (snd e) then Some () else None)"

definition edge_put :: "tun_map \<Rightarrow> int \<times> int \<Rightarrow> unit \<Rightarrow> tun_map" where
  "edge_put m e u = the (tun_drop_set (Some m) (fst e) (snd e) True)"

definition edge_del :: "tun_map \<Rightarrow> int \<times> int \<Rightarrow> tun_map" where
  "edge_del m e = the (tun_drop_set (Some m) (fst e) (snd e) False)"

lemma qfind_qos_at: "qos_at m fd = map_option (nth (qos m)) (qfind m fd)"
  by (simp add: qos_at_def qfind_def find_first_at)

lemma find_append_keyed:
  "key y \<notin> key ` set xs \<Longrightarrow>
   find (\<lambda>x. key x = k) (xs @ [y]) = (if k = key y then Some y else find (\<lambda>x. key x = k) xs)"
  by (induction xs) auto

lemma find_update_keyed:
  assumes "distinct (map key xs)" "i < length xs" "key y = key (xs ! i)"
  shows "find (\<lambda>x. key x = k) (xs[i := y]) = (if k = key y then Some y else find (\<lambda>x. key x = k) xs)"
proof -
  have "map key (xs[i := y]) = map key xs" using assms(2,3) by (simp add: map_update list_update_same_conv)
  then have d: "distinct (map key (xs[i := y]))" using assms(1) by simp
  have y: "y \<in> set (xs[i := y])" using assms(2) by (simp add: set_update_memI)
  show ?thesis
  proof (cases "k = key y")
    case True
    with y d show ?thesis by (simp add: find_keyed)
  next
    case False
    have "x \<in> set (xs[i := y]) \<longleftrightarrow> x \<in> set xs" if "key x = k" for x
      using that False assms(2,3) by (fastforce simp: in_set_conv_nth nth_list_update)
    then have "find (\<lambda>x. key x = k) (xs[i := y]) = Some x \<longleftrightarrow> find (\<lambda>x. key x = k) xs = Some x" for x
      by (auto simp: find_keyed [OF d] find_keyed [OF assms(1)])
    with False show ?thesis by (metis not_None_eq)
  qed
qed

lemma tun_qos_set_valid:
  assumes "0 \<le> fd"
  shows "tun_qos_set (Some m) fd (Some q) =
    (case qfind m fd of
       None \<Rightarrow> (if length (qos m) \<ge> TUN_MAP_MAX then Some m else Some (m\<lparr>qos := qos m @ [armed fd q]\<rparr>))
     | Some i \<Rightarrow> Some (m\<lparr>qos := (qos m)[i := armed fd q]\<rparr>))"
  using assms first_at_Some [of "\<lambda>s. q_fd s = fd" "qos m"]
  by (auto simp: tun_qos_set_def armed_def Let_def qfind_def split: option.splits)

lemma qos_put_at:
  assumes "tun_inv m" "0 \<le> fd"
  shows "tun_inv (qos_put m fd q) \<and>
    qos_at (qos_put m fd q) =
      (if qos_at m fd = None \<and> length (qos m) \<ge> TUN_MAP_MAX then qos_at m
       else (qos_at m)(fd \<mapsto> armed fd q))"
proof (cases "qfind m fd")
  case None
  then have free: "fd \<notin> q_fd ` set (qos m)" by (auto simp: qfind_def first_at_None)
  have at_none: "qos_at m fd = None" using None by (simp add: qfind_qos_at)
  show ?thesis
  proof (cases "length (qos m) \<ge> TUN_MAP_MAX")
    case True
    with None assms at_none show ?thesis by (simp add: qos_put_def tun_qos_set_valid)
  next
    case False
    then have "qos_put m fd q = m\<lparr>qos := qos m @ [armed fd q]\<rparr>"
      using None assms(2) by (simp add: qos_put_def tun_qos_set_valid)
    with False assms(1) free show ?thesis
      by (auto simp: tun_inv_def qos_at_def fun_eq_iff armed_def find_append_keyed)
  qed
next
  case (Some i)
  then have i: "i < length (qos m)" "q_fd (qos m ! i) = fd"
    by (auto simp: qfind_def dest: first_at_Some)
  have "map q_fd ((qos m)[i := armed fd q]) = map q_fd (qos m)"
    using i by (simp add: map_update list_update_same_conv armed_def)
  with Some assms i show ?thesis
    using find_update_keyed [of q_fd "qos m" i "armed fd q"]
    by (auto simp: qos_put_def tun_qos_set_valid tun_inv_def qos_at_def fun_eq_iff armed_def
        find_first_at [of _ "qos m"] qfind_def)
qed

lemma qos_del_at:
  assumes "tun_inv m" "0 \<le> fd"
  shows "tun_inv (qos_del m fd) \<and> qos_at (qos_del m fd) = (qos_at m)(fd := None)"
proof (cases "qfind m fd")
  case None
  then have "qos_at m fd = None" by (simp add: qfind_qos_at)
  with None assms show ?thesis by (auto simp: qos_del_def tun_qos_clear_def qfind_def)
next
  case (Some i)
  then have i: "i < length (qos m)" "q_fd (qos m ! i) = fd"
    by (auto simp: qfind_def dest: first_at_Some)
  have "qos_del m fd = m\<lparr>qos := swap_remove (qos m) i\<rparr>"
    using Some assms(2) by (simp add: qos_del_def tun_qos_clear_def qfind_def)
  with assms i show ?thesis
    by (auto simp: tun_inv_def qos_at_def fun_eq_iff swap_remove_keyed)
qed

lemma dhas_find: "dhas m f t \<longleftrightarrow> find (\<lambda>d. drop_key d = (f, t)) (drops m) \<noteq> None"
  by (auto simp: dhas_def find_None_iff list_ex_iff drop_key_def)

lemma tun_drop_set_valid:
  assumes "0 \<le> f" "0 \<le> t"
  shows "tun_drop_set (Some m) f t arm =
    (case first_at (\<lambda>d. drop_key d = (f, t)) (drops m) of
       Some i \<Rightarrow> if arm then Some m else Some (m\<lparr>drops := swap_remove (drops m) i\<rparr>)
     | None \<Rightarrow> if arm \<and> length (drops m) < TUN_MAP_MAX
               then Some (m\<lparr>drops := drops m @ [\<lparr>from_fd = f, to_fd = t\<rparr>]\<rparr>) else Some m)"
proof -
  have scan: "(\<lambda>d. \<not> (from_fd d \<noteq> f \<or> to_fd d \<noteq> t)) = (\<lambda>d. drop_key d = (f, t))"
    by (auto simp: drop_key_def)
  show ?thesis using assms unfolding tun_drop_set_def scan by (auto split: option.splits)
qed

lemma edge_find: "edge_at m e = map_option (\<lambda>_. ()) (find (\<lambda>d. drop_key d = e) (drops m))"
  by (cases e) (auto simp: edge_at_def dhas_find)

lemma edge_put_at:
  assumes "tun_inv m" "0 \<le> fst e \<and> 0 \<le> snd e"
  shows "tun_inv (edge_put m e u) \<and>
    edge_at (edge_put m e u) =
      (if edge_at m e = None \<and> length (drops m) \<ge> TUN_MAP_MAX then edge_at m
       else (edge_at m)(e \<mapsto> ()))"
proof (cases "first_at (\<lambda>d. drop_key d = e) (drops m)")
  case None
  then have free: "e \<notin> drop_key ` set (drops m)" by (auto simp: first_at_None)
  have at_none: "edge_at m e = None" using None by (simp add: edge_find find_first_at)
  show ?thesis
  proof (cases "length (drops m) \<ge> TUN_MAP_MAX")
    case True
    with None assms at_none show ?thesis by (simp add: edge_put_def tun_drop_set_valid)
  next
    case False
    then have put: "edge_put m e () = m\<lparr>drops := drops m @ [\<lparr>from_fd = fst e, to_fd = snd e\<rparr>]\<rparr>"
      using None assms(2) by (simp add: edge_put_def tun_drop_set_valid)
    have key: "drop_key \<lparr>from_fd = fst e, to_fd = snd e\<rparr> = e" by (simp add: drop_key_def)
    show ?thesis
      using False assms(1) free
      by (auto simp: put tun_inv_def edge_find fun_eq_iff find_append_keyed key)
  qed
next
  case (Some i)
  then have "edge_at m e = Some ()" by (simp add: edge_find find_first_at)
  with Some assms show ?thesis by (auto simp: edge_put_def tun_drop_set_valid)
qed

lemma edge_del_at:
  assumes "tun_inv m" "0 \<le> fst e \<and> 0 \<le> snd e"
  shows "tun_inv (edge_del m e) \<and> edge_at (edge_del m e) = (edge_at m)(e := None)"
proof (cases "first_at (\<lambda>d. drop_key d = e) (drops m)")
  case None
  then have "edge_at m e = None" by (simp add: edge_find find_first_at)
  with None assms show ?thesis by (auto simp: edge_del_def tun_drop_set_valid)
next
  case (Some i)
  then have i: "i < length (drops m)" "drop_key (drops m ! i) = e" by (auto dest: first_at_Some)
  have "edge_del m e = m\<lparr>drops := swap_remove (drops m) i\<rparr>"
    using Some assms(2) by (simp add: edge_del_def tun_drop_set_valid)
  with assms i show ?thesis
    by (auto simp: tun_inv_def edge_find fun_eq_iff swap_remove_keyed)
qed

interpretation qt: keyed_table qos_put qos_del qos_at tun_inv "\<lambda>fd. 0 \<le> fd"
    "\<lambda>m. length (qos m) \<ge> TUN_MAP_MAX" armed
  by unfold_locales (use qos_put_at qos_del_at in blast)+

interpretation et: keyed_table edge_put edge_del edge_at tun_inv "\<lambda>e. 0 \<le> fst e \<and> 0 \<le> snd e"
    "\<lambda>m. length (drops m) \<ge> TUN_MAP_MAX" "\<lambda>_ _. ()"
  by unfold_locales (use edge_put_at edge_del_at in blast)+

section \<open>What a pump delivers\<close>

text \<open>
  The deliveries a packet calls for, from the documentation of the pump: which slots it is for,
  and which of those the radio and the directed drops let it reach.
\<close>

definition node_pos :: "node_list \<Rightarrow> u64 \<Rightarrow> (i64 \<times> i64) option" where
  "node_pos nl ident = map_option (\<lambda>n. (x_nm n, y_nm n)) (node_of nl ident)"

definition reaches :: "medium_grid \<Rightarrow> radio_params \<Rightarrow> node_list \<Rightarrow> i64 \<times> i64 \<Rightarrow> tun_slot \<Rightarrow> bool" where
  "reaches g p nl a s =
     (0 \<le> s_fd s \<and> (case node_pos nl (s_node_id s) of None \<Rightarrow> False | Some b \<Rightarrow> hears g p a b))"

definition is_ipv4 :: "u8 list \<Rightarrow> bool" where
  "is_ipv4 buf = (IPV4_MIN_N \<le> length buf \<and> drop_bit 4 (buf ! 0) = 4)"

definition is_multicast :: "u8 list \<Rightarrow> bool" where
  "is_multicast buf = (buf ! 16 AND 0xF0 = 0xE0)"

definition is_overlay_broadcast :: "u8 list \<Rightarrow> bool" where
  "is_overlay_broadcast buf = (buf ! 16 = 10 \<and> buf ! 17 = 0 \<and> buf ! 18 = 0 \<and> buf ! 19 = 255)"

definition peers_for :: "tun_map \<Rightarrow> int \<Rightarrow> u8 list \<Rightarrow> bool \<Rightarrow> tun_slot list" where
  "peers_for m fd buf drop_mcast =
     (if is_multicast buf then (if drop_mcast then [] else filter (\<lambda>s. s_fd s \<noteq> fd) (slots m))
      else if is_overlay_broadcast buf then filter (\<lambda>s. s_fd s \<noteq> fd) (slots m)
      else (case find (\<lambda>s. s_fd s \<noteq> fd \<and> s_ip s = take 4 (drop 16 buf)) (slots m) of
              None \<Rightarrow> []
            | Some s \<Rightarrow> if dhas m fd (s_fd s) then [] else [s]))"

definition deliveries ::
  "tun_map \<Rightarrow> int \<Rightarrow> u8 list \<Rightarrow> medium_grid \<Rightarrow> radio_params \<Rightarrow> node_list \<Rightarrow> bool \<Rightarrow> write_log" where
  "deliveries m fd buf g p nl drop_mcast =
     (case find (\<lambda>s. s_fd s = fd) (slots m) of
        None \<Rightarrow> []
      | Some from \<Rightarrow>
          (case node_pos nl (s_node_id from) of
             None \<Rightarrow> []
           | Some a \<Rightarrow>
               if \<not> is_ipv4 buf then []
               else map (\<lambda>s. (s_fd s, buf)) (filter (reaches g p nl a) (peers_for m fd buf drop_mcast))))"

section \<open>One forward\<close>

lemma node_pos_find:
  "node_pos nl ident =
     map_option (\<lambda>k. (x_nm (nodes nl ! k), y_nm (nodes nl ! k))) (nodelist_find (Some nl) ident)"
  by (simp add: node_pos_def node_of_def option.map_comp comp_def)

lemma fwd_counted_eq:
  assumes "grid_inv g"
  shows "fwd_counted env m lg fi ti fd (Some b) (length b) (Some g) (Some p) ax ay bx by' =
    (if 0 \<le> fd \<and> b \<noteq> [] \<and> hears g p (ax, ay) (bx, by') then
       (if wr env (length lg) = int (length b) then flow_fwd m fi ti (length b) else flow_radio m fi ti,
        lg @ [(fd, b)])
     else (flow_radio m fi ti, lg))"
  by (simp add: fwd_counted_def tun_forward_def radio_path_eq [OF assms] Let_def)

lemma set_flow_frame [simp]:
  "slots (set_flow m i j f) = slots m" "qos (set_flow m i j f) = qos m" "drops (set_flow m i j f) = drops m"
  by (simp_all add: set_flow_def)

lemma flow_frames [simp]:
  "slots (flow_fwd m i j n) = slots m" "slots (flow_radio m i j) = slots m" "slots (flow_policy m i j) = slots m"
  "qos (flow_fwd m i j n) = qos m" "qos (flow_radio m i j) = qos m" "qos (flow_policy m i j) = qos m"
  "drops (flow_fwd m i j n) = drops m" "drops (flow_radio m i j) = drops m" "drops (flow_policy m i j) = drops m"
  by (simp_all add: flow_fwd_def flow_radio_def flow_policy_def split: option.splits)

lemma fwd_counted_frame:
  assumes "fwd_counted env m lg fi ti fd b n gp rp ax ay bx by' = (m', lg')"
  shows "slots m' = slots m \<and> qos m' = qos m \<and> drops m' = drops m"
  using assms by (auto simp: fwd_counted_def split: if_splits prod.splits bool.splits)

lemma fan_out_log:
  assumes g: "grid_inv g" and b: "b \<noteq> []"
  shows "snd (fan_out env fd fi fn b g p nl i ps m lg) =
    lg @ map (\<lambda>s. (s_fd s, b)) (filter (reaches g p nl (x_nm fn, y_nm fn)) (filter (\<lambda>s. s_fd s \<noteq> fd) ps))"
proof (induction ps arbitrary: i m lg)
  case (Cons peer ps)
  show ?case
  proof (cases "s_fd peer = fd")
    case False
    show ?thesis
    proof (cases "nodelist_find (Some nl) (s_node_id peer)")
      case None
      then have "\<not> reaches g p nl (x_nm fn, y_nm fn) peer" by (simp add: reaches_def node_pos_find)
      with None False Cons.IH show ?thesis by simp
    next
      case (Some k)
      let ?f = "fwd_counted env m lg fi i (s_fd peer) (Some b) (length b) (Some g) (Some p) (x_nm fn) (y_nm fn)
        (x_nm (nodes nl ! k)) (y_nm (nodes nl ! k))"
      have "snd ?f = lg @ (if reaches g p nl (x_nm fn, y_nm fn) peer then [(s_fd peer, b)] else [])"
        using b by (simp add: fwd_counted_eq [OF g] reaches_def node_pos_find Some)
      with Some False Cons.IH show ?thesis
        by (cases ?f) (simp add: Let_def)
    qed
  qed (simp add: Cons.IH)
qed simp

section \<open>Shaped sends\<close>

text \<open>How often a shaped send writes: not at all, once, or twice.\<close>

lemma qsend_cases:
  assumes "qsend env m lg fi ti qi to b n gp rp ax ay bx by' = (m', lg')"
  obtains (denied) qs where "m' = flow_policy (m\<lparr>qos := (qos m)[qi := qs]\<rparr>) fi ti" "lg' = lg"
      "q_fd qs = q_fd (qos m ! qi)"
  | (once) qs where "q_fd qs = q_fd (qos m ! qi)"
      "fwd_counted env (m\<lparr>qos := (qos m)[qi := qs]\<rparr>) lg fi ti to b n gp rp ax ay bx by' = (m', lg')"
  | (twice) qs m1 lg1 where "q_fd qs = q_fd (qos m ! qi)"
      "fwd_counted env (m\<lparr>qos := (qos m)[qi := qs]\<rparr>) lg fi ti to b n gp rp ax ay bx by' = (m1, lg1)"
      "fwd_counted env m1 lg1 fi ti to b n gp rp ax ay bx by' = (m', lg')"
proof -
  let ?qs = "qos m ! qi"
  define q1 where "q1 = ?qs\<lparr>ctr := ctr ?qs + 1\<rparr>"
  have fd1: "q_fd q1 = q_fd ?qs" and of1: "q_of q1 = q_of ?qs" by (simp_all add: q1_def)
  define now where "now = mono_s env * 1000000000 + mono_ns env"
  obtain ok tp lp where b: "qbucket (kbps (q_of ?qs)) (Some (toks ?qs)) (Some (last_ns ?qs)) now n = (ok, tp, lp)"
    by (cases "qbucket (kbps (q_of ?qs)) (Some (toks ?qs)) (Some (last_ns ?qs)) now n")
  define q2 where "q2 = (if kbps (q_of ?qs) > 0 then q1\<lparr>toks := the tp, last_ns := the lp\<rparr> else q1)"
  have fd2: "q_fd q2 = q_fd ?qs" by (simp add: q2_def fd1)
  define m2 where "m2 = m\<lparr>qos := (qos m)[qi := q2]\<rparr>"
  define f where "f = fwd_counted env m2 lg fi ti to b n gp rp ax ay bx by'"
  have eq: "qsend env m lg fi ti qi to b n gp rp ax ay bx by' =
    (if qloss (loss01 (q_of ?qs)) (seed (q_of ?qs)) (ctr ?qs)
     then (flow_policy (m\<lparr>qos := (qos m)[qi := q1]\<rparr>) fi ti, lg)
     else if kbps (q_of ?qs) > 0 \<and> \<not> ok then (flow_policy m2 fi ti, lg)
     else if qdup (dup_pct (q_of ?qs)) (seed (q_of ?qs)) (ctr ?qs)
     then fwd_counted env (fst f) (snd f) fi ti to b n gp rp ax ay bx by' else f)"
    by (simp add: qsend_def Let_def f_def m2_def q2_def q1_def b [unfolded now_def] split: prod.splits)
  show thesis
  proof (cases "m' = flow_policy (m\<lparr>qos := (qos m)[qi := q1]\<rparr>) fi ti \<and> lg' = lg \<or>
      m' = flow_policy m2 fi ti \<and> lg' = lg")
    case True
    then show thesis using denied [of q1] denied [of q2] fd1 fd2 by (auto simp: m2_def)
  next
    case False
    obtain m1 lg1 where f1: "f = (m1, lg1)" by (cases f)
    from False assms eq f1 have "f = (m', lg') \<or> fwd_counted env m1 lg1 fi ti to b n gp rp ax ay bx by' = (m', lg')"
      by (auto split: if_splits)
    then show thesis
    proof
      assume "f = (m', lg')"
      then show thesis using once [of q2] fd2 by (simp add: f_def m2_def)
    next
      assume "fwd_counted env m1 lg1 fi ti to b n gp rp ax ay bx by' = (m', lg')"
      then show thesis using twice [of q2 m1 lg1] fd2 f1 by (simp add: f_def m2_def)
    qed
  qed
qed

lemma fwd_once_log:
  assumes "grid_inv g" "b \<noteq> []"
    "fwd_counted env m lg fi ti to (Some b) (length b) (Some g) (Some p) ax ay bx by' = (m', lg')"
  shows "lg' = lg @ (if 0 \<le> to \<and> hears g p (ax, ay) (bx, by') then [(to, b)] else [])"
  using assms(2,3) by (auto simp: fwd_counted_eq [OF assms(1)] split: if_splits)

lemma qsend_log:
  assumes g: "grid_inv g" and b: "b \<noteq> []"
    and s: "qsend env m lg fi ti qi to (Some b) (length b) (Some g) (Some p) ax ay bx by' = (m', lg')"
  shows "\<exists>k \<le> 2. lg' = lg @ concat (replicate k (if 0 \<le> to \<and> hears g p (ax, ay) (bx, by') then [(to, b)] else []))"
  using s
proof (cases rule: qsend_cases)
  case denied
  then show ?thesis by (intro exI [of _ 0]) simp
next
  case once
  with fwd_once_log [OF g b once(2)] show ?thesis by (intro exI [of _ 1]) simp
next
  case twice
  with fwd_once_log [OF g b twice(2)] fwd_once_log [OF g b twice(3)] show ?thesis
    by (intro exI [of _ 2]) (simp add: numeral_2_eq_2)
qed

lemma qsend_frame:
  assumes "qsend env m lg fi ti qi to b n gp rp ax ay bx by' = (m', lg')" "qi < length (qos m)"
  shows "slots m' = slots m \<and> drops m' = drops m \<and> map q_fd (qos m') = map q_fd (qos m)"
  using assms(1)
proof (cases rule: qsend_cases)
  case (denied qs)
  with assms(2) show ?thesis by (simp add: map_update list_update_same_conv)
next
  case (once qs)
  with assms(2) fwd_counted_frame [OF once(2)] show ?thesis by (simp add: map_update list_update_same_conv)
next
  case (twice qs m1 lg1)
  with assms(2) fwd_counted_frame [OF twice(2)] fwd_counted_frame [OF twice(3)] show ?thesis
    by (simp add: map_update list_update_same_conv)
qed

section \<open>The whole pump\<close>

lemma slow_gate_frame:
  assumes "slow_gate env m fd = Some m'"
  shows "slots m' = slots m \<and> drops m' = drops m \<and> flow m' = flow m \<and> map q_fd (qos m') = map q_fd (qos m)"
  using assms
  by (auto simp: slow_gate_def Let_def qfind_def map_update list_update_same_conv
      dest: first_at_Some split: option.splits if_splits)

lemma first_at_map: "first_at (\<lambda>x. P (f x)) xs = first_at P (map f xs)"
  by (induction xs) auto

lemma qfind_map: "qfind m fd = first_at (\<lambda>f. f = fd) (map q_fd (qos m))"
  by (simp add: qfind_def first_at_map [symmetric])

lemma deliveries_cong:
  "slots m' = slots m \<Longrightarrow> drops m' = drops m \<Longrightarrow> deliveries m' = deliveries m"
  by (auto simp: fun_eq_iff deliveries_def peers_for_def dhas_def split: option.splits)

lemma unicast_log:
  assumes g: "grid_inv g" and b: "b \<noteq> []" and u: "unicast env fd fi fn b g p nl m = (m', lg')"
  shows "\<exists>k \<le> 2. lg' = concat (replicate k
      (map (\<lambda>s. (s_fd s, b)) (filter (reaches g p nl (x_nm fn, y_nm fn))
        (case find (\<lambda>s. s_fd s \<noteq> fd \<and> s_ip s = take 4 (drop 16 b)) (slots m) of
           None \<Rightarrow> [] | Some s \<Rightarrow> if dhas m fd (s_fd s) then [] else [s])))) \<and>
      (qfind m fd = None \<longrightarrow> k = 1)"
proof (cases "slot_of_ip m (drop 16 b) fd")
  case None
  with u have "lg' = []" by (simp add: unicast_def)
  with None show ?thesis
    by (intro exI [of _ 1]) (simp add: slot_of_ip_def find_first_at take_drop)
next
  case (Some ti)
  let ?to = "slots m ! ti"
  have find: "find (\<lambda>s. s_fd s \<noteq> fd \<and> s_ip s = take 4 (drop 16 b)) (slots m) = Some ?to"
    using Some by (simp add: slot_of_ip_def find_first_at)
  show ?thesis
  proof (cases "dhas m fd (s_fd ?to)")
    case True
    with u Some have "lg' = []" by (simp add: unicast_def Let_def)
    with True show ?thesis unfolding find by (intro exI [of _ 1]) simp
  next
    case False
    show ?thesis
    proof (cases "nodelist_find (Some nl) (s_node_id ?to)")
      case None
      with u Some False have "lg' = []" by (simp add: unicast_def Let_def)
      moreover have "\<not> reaches g p nl (x_nm fn, y_nm fn) ?to"
        using None by (simp add: reaches_def node_pos_find)
      ultimately show ?thesis unfolding find by (intro exI [of _ 1]) simp
    next
      case k: (Some k)
      let ?tn = "nodes nl ! k"
      have r: "reaches g p nl (x_nm fn, y_nm fn) ?to \<longleftrightarrow>
          0 \<le> s_fd ?to \<and> hears g p (x_nm fn, y_nm fn) (x_nm ?tn, y_nm ?tn)"
        by (simp add: reaches_def node_pos_find k)
      show ?thesis
      proof (cases "qfind m fd")
        case None
        with u Some False k have f: "fwd_counted env m [] fi ti (s_fd ?to) (Some b) (length b) (Some g) (Some p)
            (x_nm fn) (y_nm fn) (x_nm ?tn) (y_nm ?tn) = (m', lg')"
          by (simp add: unicast_def Let_def)
        from fwd_once_log [OF g b f] False show ?thesis
          unfolding find by (intro exI [of _ 1]) (simp add: r)
      next
        case q: (Some qi)
        with u Some False k have "qsend env m [] fi ti qi (s_fd ?to) (Some b) (length b) (Some g) (Some p)
            (x_nm fn) (y_nm fn) (x_nm ?tn) (y_nm ?tn) = (m', lg')"
          by (simp add: unicast_def Let_def)
        from qsend_log [OF g b this] False q show ?thesis
          unfolding find by (auto simp: r)
      qed
    qed
  qed
qed

lemma map_prod_id: "map_prod f (\<lambda>x. x) r = (a, b) \<longleftrightarrow> (\<exists>m. r = (m, b) \<and> a = f m)"
  by (cases r) auto

text \<open>The pump after its gate, on a packet from a known node.\<close>

lemma pump_cases:
  assumes "pump env (Some m) fd (Some g) (Some p) (Some nl) mc = (mp', lg)"
  obtains
    (deferred) "slow_gate env m fd = None" "mp' = Some m" "lg = []" "qfind m fd \<noteq> None"
  | (idle) m1 where "slow_gate env m fd = Some m1" "mp' = Some m1" "lg = []"
      "\<And>buf. rd env fd = Some buf \<Longrightarrow> deliveries m fd buf g p nl mc = []"
  | (fan) m1 m' buf fi k where "slow_gate env m fd = Some m1" "rd env fd = Some buf" "is_ipv4 buf"
      "slot_of_fd m1 fd = Some fi" "nodelist_find (Some nl) (s_node_id (slots m ! fi)) = Some k"
      "is_multicast buf \<and> \<not> mc \<or> \<not> is_multicast buf \<and> is_overlay_broadcast buf"
      "fan_out env fd fi (nodes nl ! k) buf g p nl 0 (slots m1) m1 [] = (m', lg)" "mp' = Some m'"
  | (uni) m1 m' buf fi k where "slow_gate env m fd = Some m1" "rd env fd = Some buf" "is_ipv4 buf"
      "slot_of_fd m1 fd = Some fi" "nodelist_find (Some nl) (s_node_id (slots m ! fi)) = Some k"
      "\<not> is_multicast buf" "\<not> is_overlay_broadcast buf"
      "unicast env fd fi (nodes nl ! k) buf g p nl m1 = (m', lg)" "mp' = Some m'"
proof (cases "slow_gate env m fd")
  case None
  then have "qfind m fd \<noteq> None" by (cases "qfind m fd") (auto simp: slow_gate_def)
  with None assms show thesis by (intro deferred) (simp_all add: pump_def)
next
  case gate: (Some m1)
  have same: "slots m1 = slots m" using slow_gate_frame [OF gate] by simp
  note none = idle [OF gate]
  show thesis
  proof (cases "rd env fd")
    case None
    with gate assms show thesis by (intro none) (simp_all add: pump_def)
  next
    case buf: (Some buf)
    show thesis
    proof (cases "is_ipv4 buf")
      case False
      then have "length buf < IPV4_MIN_N \<or> drop_bit 4 (buf ! 0) \<noteq> 4" by (auto simp: is_ipv4_def)
      with gate buf assms False show thesis
        by (intro none) (auto simp: pump_def deliveries_def split: option.splits)
    next
      case ip: True
      then have ok: "\<not> (length buf < IPV4_MIN_N \<or> drop_bit 4 (buf ! 0) \<noteq> 4)" by (auto simp: is_ipv4_def)
      show thesis
      proof (cases "slot_of_fd m1 fd")
        case None
        with gate buf ok assms same show thesis
          by (intro none) (auto simp: pump_def deliveries_def slot_of_fd_def find_first_at)
      next
        case fi: (Some fi)
        have from_slot: "find (\<lambda>s. s_fd s = fd) (slots m) = Some (slots m ! fi)"
          using fi same by (simp add: slot_of_fd_def find_first_at)
        show thesis
        proof (cases "nodelist_find (Some nl) (s_node_id (slots m ! fi))")
          case None
          with gate buf ok fi assms same from_slot show thesis
            by (intro none) (auto simp: pump_def deliveries_def node_pos_find)
        next
          case k: (Some k)
          note facts = gate buf fi k ok same
          note run = assms [unfolded pump_def, simplified facts option.case prod.case if_False Let_def]
          show thesis
          proof (cases "is_multicast buf")
            case m: True
            show thesis
            proof (cases mc)
              case True
              with run m gate from_slot buf show thesis
                by (intro none) (auto simp: is_multicast_def deliveries_def peers_for_def split: option.splits)
            next
              case False
              with run m obtain m' where
                "fan_out env fd fi (nodes nl ! k) buf g p nl 0 (slots m1) m1 [] = (m', lg)" "mp' = Some m'"
                by (auto simp: is_multicast_def map_prod_id same)
              with m False show thesis by (intro fan [OF gate buf ip fi k]) auto
            qed
          next
            case m: False
            show thesis
            proof (cases "is_overlay_broadcast buf")
              case True
              with run m obtain m' where
                "fan_out env fd fi (nodes nl ! k) buf g p nl 0 (slots m1) m1 [] = (m', lg)" "mp' = Some m'"
                by (auto simp: is_multicast_def is_overlay_broadcast_def map_prod_id same)
              with m True show thesis by (intro fan [OF gate buf ip fi k]) auto
            next
              case False
              with run m obtain m' where
                "unicast env fd fi (nodes nl ! k) buf g p nl m1 = (m', lg)" "mp' = Some m'"
                by (auto simp: is_multicast_def is_overlay_broadcast_def map_prod_id)
              with m False show thesis by (intro uni [OF gate buf ip fi k]) auto
            qed
          qed
        qed
      qed
    qed
  qed
qed

lemma pump_log:
  assumes g: "grid_inv g"
    and run: "pump env (Some m) fd (Some g) (Some p) (Some nl) mc = (mp', lg)"
  shows "\<exists>k \<le> 2. lg = concat (replicate k
      (case rd env fd of None \<Rightarrow> [] | Some buf \<Rightarrow> deliveries m fd buf g p nl mc)) \<and>
    (qfind m fd = None \<longrightarrow> k = 1)"
  using run
proof (cases rule: pump_cases)
  case deferred
  then show ?thesis by (intro exI [of _ 0]) simp
next
  case (idle m1)
  then show ?thesis by (intro exI [of _ 1]) (auto split: option.splits)
next
  case (fan m1 m' buf fi k)
  have same: "slots m1 = slots m" using slow_gate_frame [OF fan(1)] by simp
  have from_slot: "find (\<lambda>s. s_fd s = fd) (slots m) = Some (slots m ! fi)"
    using fan(4) same by (simp add: slot_of_fd_def find_first_at)
  have ne: "buf \<noteq> []" using fan(3) by (auto simp: is_ipv4_def IPV4_MIN_N_def)
  have "lg = map (\<lambda>s. (s_fd s, buf)) (filter (reaches g p nl (x_nm (nodes nl ! k), y_nm (nodes nl ! k)))
      (filter (\<lambda>s. s_fd s \<noteq> fd) (slots m)))"
    using fan_out_log [OF g ne, of env fd fi "nodes nl ! k" p nl 0 "slots m1" m1 "[]"] fan(7) same by simp
  with fan(2,3,5,6) from_slot have "lg = deliveries m fd buf g p nl mc"
    by (auto simp: deliveries_def node_pos_find peers_for_def)
  with fan(2) show ?thesis by (intro exI [of _ 1]) simp
next
  case (uni m1 m' buf fi k)
  have same: "slots m1 = slots m" "drops m1 = drops m" "map q_fd (qos m1) = map q_fd (qos m)"
    using slow_gate_frame [OF uni(1)] by simp_all
  have from_slot: "find (\<lambda>s. s_fd s = fd) (slots m) = Some (slots m ! fi)"
    using uni(4) same by (simp add: slot_of_fd_def find_first_at)
  have ne: "buf \<noteq> []" using uni(3) by (auto simp: is_ipv4_def IPV4_MIN_N_def)
  have q: "qfind m1 fd = None \<longleftrightarrow> qfind m fd = None" using same by (simp add: qfind_map)
  have d: "dhas m1 = dhas m" using same by (simp add: dhas_def fun_eq_iff)
  have del: "deliveries m fd buf g p nl mc =
      map (\<lambda>s. (s_fd s, buf)) (filter (reaches g p nl (x_nm (nodes nl ! k), y_nm (nodes nl ! k)))
        (case find (\<lambda>s. s_fd s \<noteq> fd \<and> s_ip s = take 4 (drop 16 buf)) (slots m) of
           None \<Rightarrow> [] | Some s \<Rightarrow> if dhas m fd (s_fd s) then [] else [s]))"
    using uni(3,5,6,7) from_slot by (simp add: deliveries_def node_pos_find peers_for_def)
  from unicast_log [OF g ne uni(8), unfolded q d same(1)] uni(2) show ?thesis
    by (simp add: del)
qed

section \<open>Counters\<close>

definition u64_cap :: nat where
  "u64_cap = 2 ^ 64 - 1"

lemma unat_sadd: "unat (sadd a b) = min u64_cap (unat a + unat b)"
proof -
  have max: "unat (UINT64_MAX :: u64) = u64_cap" by (simp add: UINT64_MAX_def u64_cap_def)
  have b: "b \<le> UINT64_MAX" using unat_lt_2p64 [of b] by (simp add: word_le_nat_alt max u64_cap_def)
  then have diff: "unat (UINT64_MAX - b) = u64_cap - unat b" by (simp add: unat_sub max)
  have le: "unat b \<le> u64_cap" using b by (simp add: word_le_nat_alt max)
  show ?thesis
  proof (cases "a > UINT64_MAX - b")
    case True
    then have "u64_cap - unat b < unat a" by (simp add: word_less_nat_alt diff)
    with True le show ?thesis by (simp add: sadd_def max min_def)
  next
    case False
    then have sum: "unat a + unat b \<le> u64_cap" using le by (simp add: word_less_nat_alt diff not_less)
    then have "unat (a + b) = unat a + unat b" by (subst unat_plus_if') (simp add: u64_cap_def)
    with False sum show ?thesis by (simp add: sadd_def min_def)
  qed
qed

text \<open>How many of the logged writes to \<open>fd\<close> took all \<open>n\<close> bytes.\<close>

definition written :: "tun_env \<Rightarrow> nat \<Rightarrow> int \<Rightarrow> write_log \<Rightarrow> nat" where
  "written env n fd lg = (\<Sum>k < length lg. if fst (lg ! k) = fd \<and> wr env k = int n then 1 else 0)"

lemma written_Nil [simp]: "written env n fd [] = 0"
  by (simp add: written_def)

lemma written_snoc:
  "written env n fd (lg @ [e]) = written env n fd lg + (if fst e = fd \<and> wr env (length lg) = int n then 1 else 0)"
proof -
  have "(\<Sum>k < length lg. if fst ((lg @ [e]) ! k) = fd \<and> wr env k = int n then 1 else 0) = written env n fd lg"
    unfolding written_def by (rule sum.cong) (simp_all add: nth_append)
  then show ?thesis by (simp add: written_def)
qed

text \<open>The counters of the sender's row agree with the log; all other rows are untouched.\<close>

definition cell_agrees :: "tun_env \<Rightarrow> nat \<Rightarrow> tun_flow \<Rightarrow> nat \<Rightarrow> tun_flow \<Rightarrow> bool" where
  "cell_agrees env n f0 w f =
     (unat (pkts f) = min u64_cap (unat (pkts f0) + w) \<and>
      unat (bytes f) = min u64_cap (unat (bytes f0) + w * n) \<and>
      radio_drops f0 \<le> radio_drops f \<and> policy_drops f0 \<le> policy_drops f)"

definition agrees :: "tun_env \<Rightarrow> nat \<Rightarrow> nat \<Rightarrow> tun_map \<Rightarrow> tun_map \<Rightarrow> write_log \<Rightarrow> bool" where
  "agrees env n fi m0 m lg =
     (slots m = slots m0 \<and>
      (\<forall>i j. if i = fi \<and> j < length (slots m0)
             then cell_agrees env n (flow m0 i j) (written env n (s_fd (slots m0 ! j)) lg) (flow m i j)
             else flow m i j = flow m0 i j))"

lemma cell_agrees_refl: "cell_agrees env n f 0 f"
proof -
  have "unat (w :: u64) \<le> u64_cap" for w using unat_lt_2p64 [of w] by (simp add: u64_cap_def)
  then show ?thesis by (simp add: cell_agrees_def min_absorb2)
qed

lemma sadd_ge: "a \<le> sadd a b"
proof -
  have "unat a \<le> u64_cap" using unat_lt_2p64 [of a] by (simp add: u64_cap_def)
  then show ?thesis by (simp add: word_le_nat_alt unat_sadd)
qed

lemma min_sat: "min (c :: nat) (min c a + b) = min c (a + b)"
  by (simp add: min_def)

lemma cell_agrees_fwd:
  assumes "cell_agrees env n f0 w f" "n < 2 ^ 64"
  shows "cell_agrees env n f0 (Suc w) (f\<lparr>pkts := sadd (pkts f) 1, bytes := sadd (bytes f) (of_nat n)\<rparr>)"
  using assms
  by (simp add: cell_agrees_def unat_sadd unat_of_nat64 min_sat) (simp add: algebra_simps)

lemma cell_agrees_radio:
  "cell_agrees env n f0 w f \<Longrightarrow> cell_agrees env n f0 w (f\<lparr>radio_drops := sadd (radio_drops f) 1\<rparr>)"
  "cell_agrees env n f0 w f \<Longrightarrow> cell_agrees env n f0 w (f\<lparr>policy_drops := sadd (policy_drops f) 1\<rparr>)"
  by (auto simp: cell_agrees_def intro: order_trans sadd_ge)

definition fds_ok :: "tun_map \<Rightarrow> bool" where
  "fds_ok m = (length (slots m) \<le> TUN_MAP_MAX \<and> distinct (map s_fd (slots m)))"

lemma flow_set: "flow (set_flow m i j f) a b = (if a = i \<and> b = j then f else flow m a b)"
  by (simp add: set_flow_def)

lemma agrees_policy:
  assumes "agrees env n fi m0 m lg" "ti < length (slots m0)" "fi < TUN_MAP_MAX" "length (slots m0) \<le> TUN_MAP_MAX"
  shows "agrees env n fi m0 (flow_policy m fi ti) lg"
  using assms
  by (auto simp: agrees_def flow_policy_def flow_at_def flow_set cell_agrees_radio)

lemma agrees_qos: "agrees env n fi m0 m lg \<Longrightarrow> agrees env n fi m0 (m\<lparr>qos := q\<rparr>) lg"
  by (simp add: agrees_def)

lemma agrees_forward:
  assumes a: "agrees env (length b) fi m0 m lg" and ti: "ti < length (slots m0)" and fi: "fi < TUN_MAP_MAX"
    and ok: "fds_ok m0" and g: "grid_inv g" and n: "length b < 2 ^ 64"
    and f: "fwd_counted env m lg fi ti (s_fd (slots m0 ! ti)) (Some b) (length b) (Some g) (Some p) ax ay bx by' = (m', lg')"
  shows "agrees env (length b) fi m0 m' lg'"
proof -
  let ?fd = "s_fd (slots m0 ! ti)"
  have ti': "\<not> (fi \<ge> TUN_MAP_MAX \<or> ti \<ge> TUN_MAP_MAX)" using ti fi ok by (auto simp: fds_ok_def)
  have same: "j < length (slots m0) \<Longrightarrow> s_fd (slots m0 ! j) = ?fd \<longleftrightarrow> j = ti" for j
    using ok ti by (auto simp: fds_ok_def distinct_conv_nth)
  note wr = written_snoc [of env "length b"]
  consider (radio) "m' = flow_radio m fi ti" "lg' = lg"
    | (bad) "m' = flow_radio m fi ti" "lg' = lg @ [(?fd, b)]" "wr env (length lg) \<noteq> int (length b)"
    | (good) "m' = flow_fwd m fi ti (length b)" "lg' = lg @ [(?fd, b)]" "wr env (length lg) = int (length b)"
    using f by (auto simp: fwd_counted_eq [OF g] split: if_splits)
  then show ?thesis
  proof cases
    case radio
    with a ti' ti show ?thesis
      by (auto simp: agrees_def flow_radio_def flow_at_def flow_set cell_agrees_radio)
  next
    case bad
    with a ti' ti show ?thesis
      by (auto simp: agrees_def flow_radio_def flow_at_def flow_set cell_agrees_radio wr)
  next
    case good
    have eq: "flow m' i j = (if i = fi \<and> j = ti then (flow m fi ti)
        \<lparr>pkts := sadd (pkts (flow m fi ti)) 1, bytes := sadd (bytes (flow m fi ti)) (of_nat (length b))\<rparr>
        else flow m i j)" for i j
      using ti' by (simp add: good(1) flow_fwd_def flow_at_def flow_set)
    have cell: "cell_agrees env (length b) (flow m0 fi ti) (written env (length b) ?fd lg) (flow m fi ti)"
      using a ti by (simp add: agrees_def)
    have "if i = fi \<and> j < length (slots m0)
        then cell_agrees env (length b) (flow m0 i j) (written env (length b) (s_fd (slots m0 ! j)) lg') (flow m' i j)
        else flow m' i j = flow m0 i j" for i j
    proof (cases "i = fi \<and> j = ti")
      case True
      with cell_agrees_fwd [OF cell n] ti good(2,3) show ?thesis by (simp add: eq wr)
    next
      case False
      have "if i = fi \<and> j < length (slots m0)
        then cell_agrees env (length b) (flow m0 i j) (written env (length b) (s_fd (slots m0 ! j)) lg) (flow m i j)
        else flow m i j = flow m0 i j" using a by (simp add: agrees_def)
      moreover have "flow m' i j = flow m i j" using False by (auto simp: eq)
      moreover have "written env (length b) (s_fd (slots m0 ! j)) lg' =
          written env (length b) (s_fd (slots m0 ! j)) lg" if "i = fi" "j < length (slots m0)"
        using same [OF that(2)] that(1) False by (simp add: good(2) wr)
      ultimately show ?thesis by (auto split: if_splits)
    qed
    moreover have "slots m' = slots m0" using a by (simp add: good(1) agrees_def)
    ultimately show ?thesis by (simp add: agrees_def)
  qed
qed

lemma agrees_fan_out:
  assumes "fds_ok m0" "fi < TUN_MAP_MAX" "grid_inv g" "length b < 2 ^ 64"
  shows "agrees env (length b) fi m0 m lg \<Longrightarrow> ps = drop i (slots m0) \<Longrightarrow>
    fan_out env fd fi fn b g p nl i ps m lg = (m', lg') \<Longrightarrow> agrees env (length b) fi m0 m' lg'"
proof (induction ps arbitrary: i m lg)
  case (Cons peer ps)
  then have i: "i < length (slots m0)" by (metis drop_eq_Nil2 list.distinct(1) not_less)
  then have peer: "peer = slots m0 ! i" "ps = drop (Suc i) (slots m0)"
    using Cons.prems(2) by (simp_all add: Cons_nth_drop_Suc [symmetric])
  show ?case
  proof (cases "s_fd peer = fd \<or> nodelist_find (Some nl) (s_node_id peer) = None")
    case True
    with Cons.prems(3) have "fan_out env fd fi fn b g p nl (Suc i) ps m lg = (m', lg')" by (auto split: if_splits)
    with Cons.IH [OF Cons.prems(1) peer(2)] show ?thesis by blast
  next
    case False
    then obtain k where k: "nodelist_find (Some nl) (s_node_id peer) = Some k" by auto
    obtain m1 lg1 where f: "fwd_counted env m lg fi i (s_fd peer) (Some b) (length b) (Some g) (Some p)
        (x_nm fn) (y_nm fn) (x_nm (nodes nl ! k)) (y_nm (nodes nl ! k)) = (m1, lg1)"
      by fastforce
    have "agrees env (length b) fi m0 m1 lg1"
      using agrees_forward [OF Cons.prems(1) i assms(2,1,3,4) f [unfolded peer(1)]] .
    moreover have "fan_out env fd fi fn b g p nl (Suc i) ps m1 lg1 = (m', lg')"
      using Cons.prems(3) False k f by (simp add: Let_def)
    ultimately show ?thesis using Cons.IH [OF _ peer(2)] by blast
  qed
qed simp

lemma agrees_unicast:
  assumes ok: "fds_ok m0" "fi < TUN_MAP_MAX" "grid_inv g" "length b < 2 ^ 64"
    and a: "agrees env (length b) fi m0 m []"
    and u: "unicast env fd fi fn b g p nl m = (m', lg')"
  shows "agrees env (length b) fi m0 m' lg'"
proof (cases "slot_of_ip m (drop 16 b) fd")
  case None
  with u a show ?thesis by (simp add: unicast_def)
next
  case (Some ti)
  have same: "slots m = slots m0" using a by (simp add: agrees_def)
  have ti: "ti < length (slots m0)" using Some same by (auto simp: slot_of_ip_def dest: first_at_Some)
  have pol: "agrees env (length b) fi m0 x lg \<Longrightarrow> agrees env (length b) fi m0 (flow_policy x fi ti) lg" for x lg
    using ti ok by (intro agrees_policy) (auto simp: fds_ok_def)
  note fwd = agrees_forward [OF _ ti ok(2,1,3,4)]
  show ?thesis
  proof (cases "dhas m fd (s_fd (slots m0 ! ti)) \<or> nodelist_find (Some nl) (s_node_id (slots m0 ! ti)) = None")
    case True
    with u Some a pol show ?thesis by (auto simp: unicast_def Let_def same split: if_splits option.splits)
  next
    case False
    then obtain k where k: "nodelist_find (Some nl) (s_node_id (slots m0 ! ti)) = Some k" by auto
    show ?thesis
    proof (cases "qfind m fd")
      case None
      with u Some False k show ?thesis by (intro fwd [OF a]) (simp add: unicast_def Let_def same)
    next
      case (Some qi)
      with u \<open>slot_of_ip m (drop 16 b) fd = Some ti\<close> False k
      have "qsend env m [] fi ti qi (s_fd (slots m0 ! ti)) (Some b) (length b) (Some g) (Some p)
          (x_nm fn) (y_nm fn) (x_nm (nodes nl ! k)) (y_nm (nodes nl ! k)) = (m', lg')"
        by (simp add: unicast_def Let_def same)
      then show ?thesis
      proof (cases rule: qsend_cases)
        case denied
        with pol [OF agrees_qos [OF a]] show ?thesis by simp
      next
        case once
        from fwd [OF agrees_qos [OF a] once(2)] show ?thesis .
      next
        case twice
        from fwd [OF fwd [OF agrees_qos [OF a] twice(2)] twice(3)] show ?thesis .
      qed
    qed
  qed
qed

lemma pump_agrees:
  assumes ok: "fds_ok m" and g: "grid_inv g" and n: "\<And>b. rd env fd = Some b \<Longrightarrow> length b < 2 ^ 64"
    and run: "pump env (Some m) fd (Some g) (Some p) (Some nl) mc = (Some m', lg)"
  shows "\<exists>fi. agrees env (case rd env fd of None \<Rightarrow> 0 | Some b \<Rightarrow> length b) fi m m' lg \<and>
    (fi < length (slots m) \<longrightarrow> s_fd (slots m ! fi) = fd)"
proof -
  have refl: "agrees env k fi m m []" for k fi by (simp add: agrees_def cell_agrees_refl)
  have start: "agrees env k fi m m1 []" if "slow_gate env m fd = Some m1" for m1 k fi
    using slow_gate_frame [OF that] by (simp add: agrees_def cell_agrees_refl)
  have row: "fi < TUN_MAP_MAX" "s_fd (slots m ! fi) = fd"
    if "slow_gate env m fd = Some m1" "slot_of_fd m1 fd = Some fi" for m1 fi
    using slow_gate_frame [OF that(1)] that(2) ok by (auto simp: slot_of_fd_def fds_ok_def dest!: first_at_Some)
  show ?thesis
    using run
  proof (cases rule: pump_cases)
    case deferred
    then show ?thesis using refl by (intro exI [of _ "length (slots m)"]) simp
  next
    case (idle m1)
    then show ?thesis using start [OF idle(1)] by (intro exI [of _ "length (slots m)"]) simp
  next
    case (fan m1 m1' buf fi k)
    have same: "slots m1 = slots m" using slow_gate_frame [OF fan(1)] by simp
    have "agrees env (length buf) fi m m' lg"
      using agrees_fan_out [OF ok row(1) [OF fan(1,4)] g n [OF fan(2)] start [OF fan(1)], where i = 0] fan(7,8) same
      by simp
    with fan(2) row(2) [OF fan(1,4)] show ?thesis by (intro exI [of _ fi]) simp
  next
    case (uni m1 m1' buf fi k)
    have "agrees env (length buf) fi m m' lg"
      using agrees_unicast [OF ok row(1) [OF uni(1,4)] g n [OF uni(2)] start [OF uni(1)] uni(8)] uni(9) by simp
    with uni(2) row(2) [OF uni(1,4)] show ?thesis by (intro exI [of _ fi]) simp
  qed
qed

section \<open>Properties\<close>

text \<open>Two devices on a map of air, and a packet from the first to the second.\<close>

definition tun_pair :: tun_map where
  "tun_pair = \<lparr>slots = [\<lparr>s_fd = 3, s_ip = [10, 0, 0, 1], s_node_id = 0\<rparr>,
                        \<lparr>s_fd = 4, s_ip = [10, 0, 0, 2], s_node_id = 1\<rparr>],
              qos = [], drops = [], flow = (\<lambda>_ _. zero_flow)\<rparr>"

definition hello :: "u8 list" where
  "hello = 0x45 # replicate 15 0 @ [10, 0, 0, 2]"

definition hello_env :: tun_env where
  "hello_env = \<lparr>rd = (\<lambda>fd. if fd = 3 then Some hello else None), wr = (\<lambda>_. 20), wall_s = 0,
               mono_s = 0, mono_ns = 0\<rparr>"

definition air :: medium_grid where
  "air = small_grid (six MATERIAL_AIR)"

lemma air_inv: "grid_inv air"
  by (simp add: air_def small_grid_inv six_def)

lemma tun_pair_inv: "tun_inv tun_pair" "fds_ok tun_pair"
  by (simp_all add: tun_inv_def fds_ok_def tun_pair_def TUN_MAP_MAX_def)

text \<open>
  C11. A pump writes the packet it read, byte for byte, to exactly the peers it is for: the
  peers of a multicast or of the overlay broadcast, or the one peer that owns the destination
  address; never the sender, never a peer whose node does not hear the sender, never across a
  dropped unicast edge, and nothing at all for a packet that is not IPv4, for an unknown
  sender, or for a multicast in nomcast mode. Without shaping every such peer is written once;
  shaping only repeats the whole set up to two times or suppresses it.
\<close>

theorem pump_delivers:
  assumes "grid_inv g"
  shows "\<exists>m' k. pump env (Some m) fd (Some g) (Some p) (Some nl) mc =
      (m', concat (replicate k
        (case rd env fd of None \<Rightarrow> [] | Some buf \<Rightarrow> deliveries m fd buf g p nl mc))) \<and>
    k \<le> 2 \<and> (qfind m fd = None \<longrightarrow> k = 1)"
proof -
  obtain mp' lg where run: "pump env (Some m) fd (Some g) (Some p) (Some nl) mc = (mp', lg)"
    by (cases "pump env (Some m) fd (Some g) (Some p) (Some nl) mc")
  obtain k where k: "k \<le> 2"
    and lg: "lg = concat (replicate k (case rd env fd of None \<Rightarrow> [] | Some buf \<Rightarrow> deliveries m fd buf g p nl mc))"
    and q: "qfind m fd = None \<longrightarrow> k = 1"
    using pump_log [OF assms run] by (elim exE conjE) (rule that)
  show ?thesis
  proof (intro exI conjI)
    show "pump env (Some m) fd (Some g) (Some p) (Some nl) mc = (mp', concat (replicate k
        (case rd env fd of None \<Rightarrow> [] | Some buf \<Rightarrow> deliveries m fd buf g p nl mc)))"
      by (simp only: run lg)
  qed (use k q in blast)+
qed

lemma hello_heard: "hears air \<lparr>range_nm = 1000\<rparr> (0, 0) (5, 5)"
proof -
  have "cell_spec air 0 0 = Some (0, 0)" "cell_spec air 5 5 = Some (0, 0)"
    by (simp_all add: cell_spec_def air_def small_grid_def Let_def)
  moreover have "line_cells 0 0 0 0 = [(0, 0)]"
    by (simp add: line_cells_def line_point_def line_offset_def)
  moreover have "material_at air (0, 0) = MATERIAL_AIR"
    by (simp add: material_at_def air_def small_grid_def six_def)
  ultimately show ?thesis
    by (simp add: hears_def path_cells_def in_range_def INT64_MAX_def)
qed

lemma hello_deliveries:
  "deliveries tun_pair 3 hello air \<lparr>range_nm = 1000\<rparr> two_nodes False = [(4, hello)]"
  using hello_heard
  by (simp add: deliveries_def tun_pair_def peers_for_def is_multicast_def is_overlay_broadcast_def
      hello_def dhas_def node_pos_def node_of_def nodelist_find_def two_nodes_def SIZE_MAX_def reaches_def
      is_ipv4_def IPV4_MIN_N_def Let_def)

theorem pump_delivers_witness:
  "snd (pump hello_env (Some tun_pair) 3 (Some air) (Some \<lparr>range_nm = 1000\<rparr>) (Some two_nodes) False) =
     [(4, hello)]"
proof -
  have "qfind tun_pair 3 = None" by (simp add: qfind_def tun_pair_def)
  then obtain m' where "pump hello_env (Some tun_pair) 3 (Some air) (Some \<lparr>range_nm = 1000\<rparr>) (Some two_nodes) False =
      (m', concat (replicate 1 (case rd hello_env 3 of None \<Rightarrow> []
        | Some buf \<Rightarrow> deliveries tun_pair 3 buf air \<lparr>range_nm = 1000\<rparr> two_nodes False)))"
    using pump_delivers [OF air_inv, of hello_env tun_pair 3 "\<lparr>range_nm = 1000\<rparr>" two_nodes False] by blast
  then show ?thesis by (simp add: hello_env_def hello_deliveries)
qed

text \<open>
  C12. The statistics agree with the writes: after a pump, the cell of the sender and a peer
  counts one more packet, and the packet's length more bytes, for each complete write to that
  peer, both saturating at \<open>2 ^ 64 - 1\<close>; the drop counters never decrease; and no cell of
  another row changes.
\<close>

theorem pump_counts:
  assumes "fds_ok m" "grid_inv g" "\<And>b. rd env fd = Some b \<Longrightarrow> length b \<le> TUN_BUF_N"
    "pump env (Some m) fd (Some g) (Some p) (Some nl) mc = (Some m', lg)"
  shows "\<exists>fi. agrees env (case rd env fd of None \<Rightarrow> 0 | Some b \<Rightarrow> length b) fi m m' lg \<and>
    (fi < length (slots m) \<longrightarrow> s_fd (slots m ! fi) = fd)"
proof -
  have "length b < 2 ^ 64" if "rd env fd = Some b" for b
    using assms(3) [OF that] by (simp add: TUN_BUF_N_def)
  with assms show ?thesis by (intro pump_agrees) auto
qed

theorem pump_counts_witness:
  "\<exists>m'. fst (pump hello_env (Some tun_pair) 3 (Some air) (Some \<lparr>range_nm = 1000\<rparr>) (Some two_nodes) False) = Some m' \<and>
     (\<exists>fi. agrees hello_env 20 fi tun_pair m' [(4, hello)])"
proof -
  let ?run = "pump hello_env (Some tun_pair) 3 (Some air) (Some \<lparr>range_nm = 1000\<rparr>) (Some two_nodes) False"
  obtain mp lg where run: "?run = (mp, lg)" by (cases ?run)
  have rd: "rd hello_env 3 = Some hello" "length hello = 20" by (simp_all add: hello_env_def hello_def)
  have q: "qfind tun_pair 3 = None" by (simp add: qfind_def tun_pair_def)
  from pump_log [OF air_inv run] q have lg: "lg = [(4, hello)]" by (auto simp: rd hello_deliveries)
  obtain m' where mp: "mp = Some m'" using run by (rule pump_cases) auto
  have "length b \<le> TUN_BUF_N" if "rd hello_env 3 = Some b" for b
    using that rd by (simp add: TUN_BUF_N_def)
  from pump_counts [OF tun_pair_inv(2) air_inv this run [unfolded mp]] run mp lg rd show ?thesis by auto
qed

text \<open>
  C13. The token bucket enforces its rate: over any sequence of packets offered at
  non-decreasing times, the bytes it admits and the level it ends with are together at most the
  level it started with plus the exact refill for the elapsed time, up to the three roundings of
  the double arithmetic; and its level never exceeds its capacity.
\<close>

theorem bucket_enforces_rate:
  assumes "small_rate kb" "tk \<le> qcap kb" "\<forall>(now, n) \<in> set xs. n < 2 ^ 64"
    "sorted (map unat (prev # map fst xs))"
    "bucket_run kb xs (Some tk) (Some prev) = (sent, Some tk', Some prev')"
  shows "rat_of_nat sent + of_nat (unat tk') \<le>
      of_nat (unat tk) + exact_refill kb (unat prev' - unat prev) * (1 + 1 / 2 ^ 53) ^ 3 \<and>
    tk' \<le> qcap kb"
  using bucket_run_bounds [OF assms] by (auto simp: slack_def unit_round_def)

text \<open>A bucket that starts with 100 bytes does not let a packet of 1500 bytes through at once.\<close>

theorem bucket_enforces_rate_witness:
  "\<exists>sent tk' prev'. bucket_run 8 [(0, 1500), (1000, 1500)] (Some 100) (Some 0) = (sent, Some tk', Some prev') \<and>
     rat_of_nat sent + of_nat (unat tk') \<le> 100 + exact_refill 8 (unat prev') * (1 + 1 / 2 ^ 53) ^ 3"
proof -
  obtain sent tk' prev' where
    run: "bucket_run 8 [(0, 1500), (1000, 1500)] (Some 100) (Some 0) = (sent, Some tk', Some prev')"
    using bucket_run_live by blast
  have "rat_of_nat sent + of_nat (unat tk') \<le>
      of_nat (unat (100 :: u64)) + exact_refill 8 (unat prev' - unat (0 :: u64)) * (1 + 1 / 2 ^ 53) ^ 3 \<and> tk' \<le> qcap 8"
    by (rule bucket_enforces_rate [OF _ _ _ _ run]) (simp_all add: small_rate_def qcap_def TUN_BUF_N_def)
  with run show ?thesis by simp
qed

text \<open>
  The jitter sample stays below the configured jitter, as documented, for every seed and
  counter, although the conversion of a large jitter to a double may round it up.
\<close>

theorem qjit_in_range: "jit \<noteq> 0 \<Longrightarrow> qjit jit sd c < jit"
  by (rule qjit_below)

theorem qjit_in_range_witness: "qjit 5000000 7 3 < 5000000"
  by (rule qjit_in_range) simp

text \<open>
  Arming QoS on a descriptor sets that descriptor's slot afresh (counter and stamps zero,
  bucket full) and no other, except that a new descriptor is ignored when the table is full;
  clearing removes exactly that descriptor's slot. The table never holds two slots for one
  descriptor.
\<close>

theorem tun_qos_refines:
  assumes "tun_inv m" "0 \<le> fd"
  shows "\<exists>m1 m2. tun_qos_set (Some m) fd (Some q) = Some m1 \<and> tun_qos_clear (Some m) fd = Some m2 \<and>
    tun_inv m1 \<and> tun_inv m2 \<and>
    qos_at m1 = (if qos_at m fd = None \<and> length (qos m) \<ge> TUN_MAP_MAX then qos_at m
                 else (qos_at m)(fd \<mapsto> armed fd q)) \<and>
    qos_at m2 = (qos_at m)(fd := None)"
proof -
  have "tun_qos_set (Some m) fd (Some q) = Some (qos_put m fd q)"
    "tun_qos_clear (Some m) fd = Some (qos_del m fd)"
    using assms(2)
    by (auto simp: qos_put_def qos_del_def tun_qos_set_valid tun_qos_clear_def split: option.splits)
  with qt.put_inv [OF assms] qt.put_at [OF assms] qt.del_inv [OF assms] qt.del_at [OF assms]
  show ?thesis by blast
qed

theorem tun_qos_refines_witness:
  "\<exists>m1. tun_qos_set (Some tun_pair) 3 (Some \<lparr>loss01 = 0, base_delay_ns = 0, jitter_ns = 0, kbps = 8,
      dup_pct = 0, slow_secs = 0, seed = 1\<rparr>) = Some m1 \<and> tun_inv m1 \<and> qos_at m1 3 \<noteq> None"
proof -
  let ?q = "\<lparr>loss01 = 0, base_delay_ns = 0, jitter_ns = 0, kbps = 8, dup_pct = 0, slow_secs = 0, seed = 1\<rparr>"
  obtain m1 where "tun_qos_set (Some tun_pair) 3 (Some ?q) = Some m1" "tun_inv m1"
    "qos_at m1 = (if qos_at tun_pair 3 = None \<and> length (qos tun_pair) \<ge> TUN_MAP_MAX then qos_at tun_pair
       else (qos_at tun_pair)(3 \<mapsto> armed 3 ?q))"
    using tun_qos_refines [OF tun_pair_inv(1), of 3 ?q] by auto
  then show ?thesis by (auto simp: tun_pair_def TUN_MAP_MAX_def)
qed

text \<open>
  The directed drops are a set of edges: arming inserts the edge (unless the table is
  full), clearing removes it whatever the flag of \<open>tun_drop_clear\<close> says, and no other edge
  changes.
\<close>

theorem tun_drop_refines:
  assumes "tun_inv m" "0 \<le> f" "0 \<le> t"
  shows "\<exists>m1 m2. tun_drop_set (Some m) f t True = Some m1 \<and> tun_drop_set (Some m) f t False = Some m2 \<and>
    tun_drop_clear (Some m) f t flag = Some m2 \<and> tun_inv m1 \<and> tun_inv m2 \<and>
    (\<forall>a b. dhas m2 a b \<longleftrightarrow> dhas m a b \<and> (a, b) \<noteq> (f, t)) \<and>
    (if dhas m f t \<or> length (drops m) < TUN_MAP_MAX
     then \<forall>a b. dhas m1 a b \<longleftrightarrow> dhas m a b \<or> (a, b) = (f, t)
     else \<forall>a b. dhas m1 a b \<longleftrightarrow> dhas m a b)"
proof -
  have e: "0 \<le> fst (f, t) \<and> 0 \<le> snd (f, t)" using assms by simp
  have eqs: "tun_drop_set (Some m) f t True = Some (edge_put m (f, t) ())"
    "tun_drop_set (Some m) f t False = Some (edge_del m (f, t))"
    using assms(2,3) by (auto simp: edge_put_def edge_del_def tun_drop_set_valid split: option.splits)
  have clear: "tun_drop_clear (Some m) f t flag = tun_drop_set (Some m) f t False"
    by (auto simp: tun_drop_clear_def tun_drop_set_def split: option.splits)
  have at_eq: "dhas x a b \<longleftrightarrow> edge_at x (a, b) = Some ()" for x a b by (simp add: edge_at_def)
  note put = et.put_at [OF assms(1) e, of "()"] and del = et.del_at [OF assms(1) e]
  have "\<forall>a b. dhas (edge_del m (f, t)) a b \<longleftrightarrow> dhas m a b \<and> (a, b) \<noteq> (f, t)"
    by (auto simp: at_eq del)
  moreover have "if dhas m f t \<or> length (drops m) < TUN_MAP_MAX
     then \<forall>a b. dhas (edge_put m (f, t) ()) a b \<longleftrightarrow> dhas m a b \<or> (a, b) = (f, t)
     else \<forall>a b. dhas (edge_put m (f, t) ()) a b \<longleftrightarrow> dhas m a b"
    by (auto simp: at_eq put)
  ultimately show ?thesis
    unfolding clear eqs using et.put_inv [OF assms(1) e] et.del_inv [OF assms(1) e] by blast
qed

theorem tun_drop_refines_witness:
  "\<exists>m1. tun_drop_set (Some tun_pair) 3 4 True = Some m1 \<and> tun_inv m1 \<and> dhas m1 3 4 \<and> \<not> dhas m1 4 3"
proof -
  obtain m1 where "tun_drop_set (Some tun_pair) 3 4 True = Some m1" "tun_inv m1"
    "if dhas tun_pair 3 4 \<or> length (drops tun_pair) < TUN_MAP_MAX
     then \<forall>a b. dhas m1 a b \<longleftrightarrow> dhas tun_pair a b \<or> (a, b) = (3, 4)
     else \<forall>a b. dhas m1 a b \<longleftrightarrow> dhas tun_pair a b"
    using tun_drop_refines [OF tun_pair_inv(1), of 3 4 True] by auto
  then show ?thesis by (auto simp: tun_pair_def TUN_MAP_MAX_def dhas_def)
qed

end
