(* ===== verification/Sim_Net.thy ===== *)
theory Sim_Net
  imports Text_Format Tun
begin

text \<open>
  The names a run claims on the host, \<open>sim/sim.c\<close>: its state directory, network namespaces,
  TUN devices, underlay subnet and control groups, how a run id yields them, and the check
  every operation makes before it hands one of them to the shell.

  A \<open>char[n]\<close> field is the list of its bytes before the first NUL; a list as long as the
  array is an array without a NUL. The octets of \<open>under\<close> are a triple.
\<close>

section \<open>Nets\<close>

record sim_net =
  statedir :: string
  ns_prefix :: string
  tun_prefix :: string
  tun_base :: int
  under :: "u8 \<times> u8 \<times> u8"
  cgroot :: string
  isolate_all :: int

definition STATEDIR :: string where "STATEDIR = ''/var/tmp/resonance''"
definition PATH_LEN :: nat where "PATH_LEN = 192"
definition BIG_LEN :: nat where "BIG_LEN = 256"
definition NAME_LEN :: nat where "NAME_LEN = 96"
definition SMALL_CMD :: nat where "SMALL_CMD = 320"
definition CMD_LEN :: nat where "CMD_LEN = 1024"
definition RUN_ID_MAX :: int where "RUN_ID_MAX = 154"
definition RUN_ID_MIN :: int where "RUN_ID_MIN = 1"
definition UNDER_BASE :: int where "UNDER_BASE = 100"

text \<open>\<open>IFNAMSIZ\<close> of \<open>net/if.h\<close>, and the sizes of the arrays of \<open>SimNet\<close>.\<close>

definition IFNAMSIZ :: nat where "IFNAMSIZ = 16"
definition STATEDIR_N :: nat where "STATEDIR_N = 128"
definition NS_PREFIX_N :: nat where "NS_PREFIX_N = 64"
definition TUN_PREFIX_N :: nat where "TUN_PREFIX_N = 32"
definition CGROOT_N :: nat where "CGROOT_N = 128"

lemmas sizes = PATH_LEN_def BIG_LEN_def NAME_LEN_def SMALL_CMD_def CMD_LEN_def IFNAMSIZ_def
  STATEDIR_N_def NS_PREFIX_N_def TUN_PREFIX_N_def CGROOT_N_def

section \<open>The names of a net\<close>

definition ns_name_net :: "sim_net \<Rightarrow> nat \<Rightarrow> int \<Rightarrow> string option" where
  "ns_name_net net n i = snprintf n (ns_prefix net @ fmt_d i)"

definition ns_path_net :: "sim_net \<Rightarrow> nat \<Rightarrow> int \<Rightarrow> string option" where
  "ns_path_net net n i = snprintf n (''/var/run/netns/'' @ ns_prefix net @ fmt_d i)"

definition tun_name_net :: "sim_net \<Rightarrow> nat \<Rightarrow> int \<Rightarrow> string option" where
  "tun_name_net net n i = (let v = tun_base net + i in snprintf n (tun_prefix net @ fmt_d v))"

definition node_dir_net :: "sim_net \<Rightarrow> nat \<Rightarrow> int \<Rightarrow> string option" where
  "node_dir_net net n i = snprintf n (statedir net @ ''/node'' @ fmt_d i)"

definition gossip_path_net :: "sim_net \<Rightarrow> nat \<Rightarrow> string option" where
  "gossip_path_net net n = snprintf n (statedir net @ ''/gossip.key'')"

definition cg_node_net :: "sim_net \<Rightarrow> nat \<Rightarrow> int \<Rightarrow> string option" where
  "cg_node_net net n i = snprintf n (cgroot net @ ''/node'' @ fmt_d i)"

section \<open>Making and checking a net\<close>

definition sim_default_net :: sim_net where
  "sim_default_net =
     \<lparr>statedir = STATEDIR, ns_prefix = ''resonance_'', tun_prefix = ''tun'', tun_base = 0,
      under = (192, 168, of_int UNDER_BASE), cgroot = ''/sys/fs/cgroup/resonance'',
      isolate_all = 0\<rparr>"

text \<open>The casts back to \<open>int\<close> and \<open>uint8_t\<close> keep the low bits.\<close>

definition sim_net_for_run :: "int \<Rightarrow> sim_net option" where
  "sim_net_for_run run_id =
     (let net = sim_default_net\<lparr>isolate_all := 0\<rparr> in
      if run_id \<le> 0 then Some net
      else
        (case snprintf STATEDIR_N (STATEDIR @ ''-'' @ fmt_d run_id) of
           None \<Rightarrow> None
         | Some sd \<Rightarrow>
             (case snprintf NS_PREFIX_N (''resonance'' @ fmt_d run_id @ ''_'') of
                None \<Rightarrow> None
              | Some np \<Rightarrow>
                  (case snprintf CGROOT_N (''/sys/fs/cgroup/resonance'' @ ''-'' @ fmt_d run_id) of
                     None \<Rightarrow> None
                   | Some cg \<Rightarrow>
                       Some (net\<lparr>statedir := sd, ns_prefix := np,
                         tun_base := sint (of_int (run_id * int TUN_MAP_MAX) :: 32 word),
                         under := (fst (under net), fst (snd (under net)),
                                   of_int (UNDER_BASE + run_id)),
                         cgroot := cg\<rparr>)))))"

definition safe_char :: "char \<Rightarrow> bool" where
  "safe_char ch =
     (between (CHR ''A'') (CHR ''Z'') ch \<or> between (CHR ''a'') (CHR ''z'') ch \<or>
      between (CHR ''0'') (CHR ''9'') ch \<or>
      ch = CHR ''/'' \<or> ch = CHR ''_'' \<or> ch = CHR ''.'' \<or> ch = CHR ''-'')"

definition field_ok :: "string \<Rightarrow> nat \<Rightarrow> bool" where
  "field_ok s cap =
     (let n = min (length s) cap in
      if n = 0 \<or> n = cap then False else list_all safe_char (take n s))"

definition under_ok :: "u8 \<times> u8 \<times> u8 \<Rightarrow> bool" where
  "under_ok u =
     (case u of (u0, u1, u2) \<Rightarrow>
        if u0 = 0 \<or> u0 = 127 then False
        else if u0 \<ge> 224 then False
        else if u0 = 10 \<and> u1 = 0 then False
        else True)"

definition tun_fit :: "sim_net \<Rightarrow> bool" where
  "tun_fit net =
     (if tun_base net < 0 then False
      else list_all (\<lambda>i. length (tun_prefix net @ fmt_d (tun_base net + int i)) < IFNAMSIZ)
             [0..<TUN_MAP_MAX])"

definition sim_net_valid :: "sim_net ptr \<Rightarrow> bool" where
  "sim_net_valid np =
     (case np of
        None \<Rightarrow> False
      | Some net \<Rightarrow>
          if \<not> field_ok (statedir net) STATEDIR_N then False
          else if \<not> field_ok (ns_prefix net) NS_PREFIX_N then False
          else if \<not> field_ok (tun_prefix net) TUN_PREFIX_N then False
          else if \<not> field_ok (cgroot net) CGROOT_N then False
          else if \<not> tun_fit net then False
          else if \<not> under_ok (under net) then False
          else True)"

definition sim_net_try_for_run :: "int \<Rightarrow> sim_net ptr \<Rightarrow> bool \<times> sim_net ptr" where
  "sim_net_try_for_run run_id out =
     (if out = None then (False, None)
      else if run_id < 0 \<or> run_id > RUN_ID_MAX then (False, out)
      else
        (case sim_net_for_run run_id of
           None \<Rightarrow> (False, out)
         | Some net \<Rightarrow>
             let net = net\<lparr>isolate_all := 0\<rparr> in
             if \<not> sim_net_valid (Some net) then (False, out) else (True, Some net)))"

definition is_default_net :: "sim_net ptr \<Rightarrow> bool" where
  "is_default_net np =
     (case np of
        None \<Rightarrow> False
      | Some net \<Rightarrow>
          let d = sim_default_net in
          statedir net = statedir d \<and> ns_prefix net = ns_prefix d \<and>
          tun_prefix net = tun_prefix d \<and> tun_base net = tun_base d \<and>
          under net = under d \<and> cgroot net = cgroot d)"

section \<open>Names fit and are safe\<close>

definition safe :: "string \<Rightarrow> bool" where
  "safe s = list_all safe_char s"

lemma safe_append [simp]: "safe (s @ t) = (safe s \<and> safe t)"
  by (simp add: safe_def)

lemma safe_Nil [simp]: "safe []"
  by (simp add: safe_def)

lemma safe_Cons [simp]: "safe (c # s) = (safe_char c \<and> safe s)"
  by (simp add: safe_def)

lemma field_ok_eq: "field_ok s cap = (s \<noteq> [] \<and> length s < cap \<and> safe s)"
  by (auto simp: field_ok_def safe_def Let_def min_def)

lemma sim_net_valid_eq:
  "sim_net_valid (Some net) =
     (field_ok (statedir net) STATEDIR_N \<and> field_ok (ns_prefix net) NS_PREFIX_N \<and>
      field_ok (tun_prefix net) TUN_PREFIX_N \<and> field_ok (cgroot net) CGROOT_N \<and>
      tun_fit net \<and> under_ok (under net))"
  by (simp add: sim_net_valid_def)

lemma safe_digits: "safe (digits 10 n)"
  using digits_between [of n] by (auto simp: safe_def safe_char_def list_all_iff)

lemma safe_fmt_d: "safe (fmt_d i)"
proof -
  have "safe_char (CHR ''-'')" by (simp add: safe_char_def)
  then show ?thesis using safe_digits by (simp add: fmt_d_def safe_def)
qed

lemma fmt_d_nat: "fmt_d (int n) = digits 10 n"
  by (simp add: fmt_d_def)

lemma fmt_d_inj: "0 \<le> i \<Longrightarrow> 0 \<le> j \<Longrightarrow> fmt_d i = fmt_d j \<Longrightarrow> i = j"
  using digits_inj [of "nat i" "nat j"] by (simp add: fmt_d_def eq_nat_nat_iff)

lemma fmt_d_short: "0 \<le> i \<Longrightarrow> i < 100 \<Longrightarrow> length (fmt_d i) \<le> 2"
  using digits_length [of 10 "nat i" 2] by (simp add: fmt_d_def nat_less_iff)

lemma snprintf_Some: "snprintf cap s = Some t \<longleftrightarrow> t = s \<and> length s < cap"
  by (auto simp: snprintf_def)

lemma snprintf_fits: "length s < cap \<Longrightarrow> snprintf cap s = Some s"
  by (simp add: snprintf_def)

lemma safe_names:
  assumes "sim_net_valid (Some net)"
  shows "ns_name_net net n i = Some s \<Longrightarrow> safe s" "ns_path_net net n i = Some s \<Longrightarrow> safe s"
    "tun_name_net net n i = Some s \<Longrightarrow> safe s" "node_dir_net net n i = Some s \<Longrightarrow> safe s"
    "gossip_path_net net n = Some s \<Longrightarrow> safe s" "cg_node_net net n i = Some s \<Longrightarrow> safe s"
  using assms
  by (auto simp: ns_name_net_def ns_path_net_def tun_name_net_def node_dir_net_def
      gossip_path_net_def cg_node_net_def sim_net_valid_eq field_ok_eq snprintf_Some safe_fmt_d
      safe_char_def between_def)

lemma valid_lengths:
  assumes "sim_net_valid (Some net)"
  shows "length (statedir net) < 128" "length (ns_prefix net) < 64" "length (cgroot net) < 128"
    "length (tun_prefix net) < 32"
  using assms by (simp_all add: sim_net_valid_eq field_ok_eq sizes)

lemma tun_fit_name:
  assumes "tun_fit net" "0 \<le> i" "i < 100"
  shows "length (tun_prefix net @ fmt_d (tun_base net + i)) < 16"
proof -
  have "nat i \<in> set [0..<TUN_MAP_MAX]" using assms by (simp add: TUN_MAP_MAX_def)
  moreover have "\<forall>k \<in> set [0..<TUN_MAP_MAX]. length (tun_prefix net @ fmt_d (tun_base net + int k)) < IFNAMSIZ"
    using assms(1) by (simp add: tun_fit_def list_all_iff split: if_splits)
  ultimately show ?thesis using assms(2) by (auto simp: sizes dest!: bspec [where x = "nat i"])
qed

lemma names_fit:
  assumes "sim_net_valid (Some net)" "0 \<le> i" "i < 100"
  shows "ns_name_net net PATH_LEN i = Some (ns_prefix net @ fmt_d i)"
    "ns_path_net net PATH_LEN i = Some (''/var/run/netns/'' @ ns_prefix net @ fmt_d i)"
    "tun_name_net net NAME_LEN i = Some (tun_prefix net @ fmt_d (tun_base net + i))"
    "node_dir_net net PATH_LEN i = Some (statedir net @ ''/node'' @ fmt_d i)"
    "gossip_path_net net PATH_LEN = Some (statedir net @ ''/gossip.key'')"
    "cg_node_net net PATH_LEN i = Some (cgroot net @ ''/node'' @ fmt_d i)"
  using valid_lengths [OF assms(1)] fmt_d_short [OF assms(2,3)] tun_fit_name [of net, OF _ assms(2,3)] assms(1)
  by (simp_all add: ns_name_net_def ns_path_net_def tun_name_net_def node_dir_net_def
      gossip_path_net_def cg_node_net_def snprintf_def sizes sim_net_valid_eq Let_def)

section \<open>Runs share nothing\<close>

text \<open>The path \<open>p\<close> is the directory \<open>d\<close> or lies below it.\<close>

definition inside :: "string \<Rightarrow> string \<Rightarrow> bool" where
  "inside d p = (p = d \<or> (\<exists>x. p = d @ ''/'' @ x))"

lemma split_mark:
  "c \<notin> set xs \<Longrightarrow> c \<notin> set ys \<Longrightarrow> xs @ c # u = ys @ c # v \<longleftrightarrow> xs = ys \<and> u = v"
proof (induction xs arbitrary: ys)
  case Nil
  then show ?case by (cases ys) auto
next
  case (Cons x xs)
  then show ?case by (cases ys) auto
qed

lemma split_mark_short: "c \<notin> set xs \<Longrightarrow> c \<notin> set ys \<Longrightarrow> xs = ys @ c # v \<longleftrightarrow> False"
  by auto

lemma inside_disjoint:
  assumes "inside (w @ a) p" "inside (w @ b) p" "CHR ''/'' \<notin> set a" "CHR ''/'' \<notin> set b"
  shows "a = b"
  using assms by (auto simp: inside_def split_mark split_mark_short)

lemma fmt_d_chars: "0 \<le> i \<Longrightarrow> c \<in> set (fmt_d i) \<Longrightarrow> between (CHR ''0'') (CHR ''9'') c"
  using digits_between [of "nat i"] by (auto simp: fmt_d_def list_all_iff)

lemma fmt_d_marks: "0 \<le> i \<Longrightarrow> CHR ''/'' \<notin> set (fmt_d i) \<and> CHR ''_'' \<notin> set (fmt_d i) \<and> fmt_d i \<noteq> []"
proof -
  assume i: "0 \<le> i"
  have "fmt_d i \<noteq> []" using i digits_chars [of 10 "nat i"] by (simp add: fmt_d_def)
  moreover have "\<not> between (CHR ''0'') (CHR ''9'') (CHR ''/'')" "\<not> between (CHR ''0'') (CHR ''9'') (CHR ''_'')"
    by (simp_all add: between_def)
  ultimately show ?thesis using fmt_d_chars [OF i] by blast
qed

text \<open>What run \<open>a\<close> adds to the default names, and its net.\<close>

definition run_mark :: "int \<Rightarrow> string \<Rightarrow> string" where
  "run_mark a pre = (if a = 0 then [] else pre @ fmt_d a)"

lemma run_mark_inj:
  assumes "0 \<le> a" "0 \<le> b" "run_mark a pre = run_mark b pre"
  shows "a = b"
  using assms fmt_d_inj [of a b] fmt_d_marks [of a] fmt_d_marks [of b]
  by (auto simp: run_mark_def split: if_splits)

definition run_net :: "int \<Rightarrow> sim_net" where
  "run_net a =
     \<lparr>statedir = STATEDIR @ run_mark a ''-'', ns_prefix = ''resonance'' @ run_mark a [] @ ''_'',
      tun_prefix = ''tun'', tun_base = a * 100, under = (192, 168, of_int (100 + a)),
      cgroot = ''/sys/fs/cgroup/resonance'' @ run_mark a ''-'', isolate_all = 0\<rparr>"

lemma fmt_d_upto: "0 \<le> i \<Longrightarrow> i < 10 ^ k \<Longrightarrow> 0 < k \<Longrightarrow> length (fmt_d i) \<le> k"
  using digits_length [of 10 "nat i" k] by (simp add: fmt_d_def nat_less_iff)

lemma sint_small_int: "0 \<le> k \<Longrightarrow> k < 2 ^ 31 \<Longrightarrow> sint (of_int k :: 32 word) = k"
  by (simp add: signed_of_int signed_take_bit_int_eq_self)

lemma sim_net_for_run_eq:
  assumes "0 \<le> a" "a \<le> RUN_ID_MAX"
  shows "sim_net_for_run a = Some (run_net a)"
proof -
  have "length (fmt_d a) \<le> 3" using assms by (intro fmt_d_upto) (simp_all add: RUN_ID_MAX_def)
  moreover have "sint (of_int (a * 100) :: 32 word) = a * 100"
    using assms by (intro sint_small_int) (simp_all add: RUN_ID_MAX_def)
  ultimately show ?thesis using assms
    by (auto simp: sim_net_for_run_def run_net_def run_mark_def sim_default_net_def snprintf_def
        sizes STATEDIR_def UNDER_BASE_def TUN_MAP_MAX_def)
qed

lemma run_mark_safe: "0 \<le> a \<Longrightarrow> safe pre \<Longrightarrow> safe (run_mark a pre)"
  by (simp add: run_mark_def safe_fmt_d)

lemma run_mark_length: "0 \<le> a \<Longrightarrow> a \<le> RUN_ID_MAX \<Longrightarrow> length (run_mark a pre) \<le> length pre + 3"
  using fmt_d_upto [of a 3] by (simp add: run_mark_def RUN_ID_MAX_def)

lemma run_net_valid:
  assumes "0 \<le> a" "a \<le> RUN_ID_MAX"
  shows "sim_net_valid (Some (run_net a))"
proof -
  have "length (fmt_d (a * 100 + int i)) \<le> 5" if "i < 100" for i
    using assms that by (intro fmt_d_upto) (simp_all add: RUN_ID_MAX_def)
  then have "tun_fit (run_net a)"
    using assms by (fastforce simp: tun_fit_def run_net_def list_all_iff TUN_MAP_MAX_def IFNAMSIZ_def)
  then show ?thesis
    using run_mark_safe [OF assms(1), of "''-''"] run_mark_safe [OF assms(1), of "[]"]
      run_mark_length [OF assms, of "''-''"] run_mark_length [OF assms, of "[]"]
    by (simp add: sim_net_valid_eq field_ok_eq run_net_def sizes STATEDIR_def under_ok_def
        safe_char_def between_def)
qed

lemma sim_net_try_for_run_eq:
  "sim_net_try_for_run a (Some x) =
     (if 0 \<le> a \<and> a \<le> RUN_ID_MAX then (True, Some (run_net a)) else (False, Some x))"
proof -
  have "run_net a\<lparr>isolate_all := 0\<rparr> = run_net a" by (simp add: run_net_def)
  then show ?thesis
    using sim_net_for_run_eq [of a] run_net_valid [of a] by (auto simp: sim_net_try_for_run_def)
qed

lemma run_names_differ:
  assumes "0 \<le> a" "a \<le> 154" "0 \<le> b" "b \<le> 154" "a \<noteq> b" "0 \<le> i" "i < 100" "0 \<le> j" "j < 100"
  shows "ns_prefix (run_net a) @ fmt_d i \<noteq> ns_prefix (run_net b) @ fmt_d j"
    and "tun_prefix (run_net a) @ fmt_d (tun_base (run_net a) + i) \<noteq>
         tun_prefix (run_net b) @ fmt_d (tun_base (run_net b) + j)"
proof -
  have "CHR ''_'' \<notin> set (run_mark k [])" if "0 \<le> k" for k
    using fmt_d_marks [OF that] by (simp add: run_mark_def)
  then have "run_mark a [] @ CHR ''_'' # fmt_d i \<noteq> run_mark b [] @ CHR ''_'' # fmt_d j"
    using assms split_mark [of "CHR ''_''"] run_mark_inj [of a b "[]"] by blast
  then show "ns_prefix (run_net a) @ fmt_d i \<noteq> ns_prefix (run_net b) @ fmt_d j"
    by (simp add: run_net_def)
  have "a * 100 + i \<noteq> b * 100 + j" using assms by (cases "a < b") linarith+
  with assms show "tun_prefix (run_net a) @ fmt_d (tun_base (run_net a) + i) \<noteq>
      tun_prefix (run_net b) @ fmt_d (tun_base (run_net b) + j)"
    using fmt_d_inj [of "a * 100 + i" "b * 100 + j"] by (auto simp: run_net_def)
qed

lemma run_dirs_differ:
  assumes "0 \<le> a" "0 \<le> b" "inside (w @ run_mark a ''-'') p" "inside (w @ run_mark b ''-'') p"
  shows "a = b"
proof -
  have "CHR ''/'' \<notin> set (run_mark k ''-'')" if "0 \<le> k" for k
    using fmt_d_marks [OF that] by (simp add: run_mark_def)
  with assms show ?thesis using inside_disjoint run_mark_inj by metis
qed

lemma run_octets_differ: "0 \<le> a \<Longrightarrow> a \<le> 154 \<Longrightarrow> 0 \<le> b \<Longrightarrow> b \<le> 154 \<Longrightarrow> a \<noteq> b \<Longrightarrow> under (run_net a) \<noteq> under (run_net b)"
  by (simp add: run_net_def word_of_int_eq_iff take_bit_int_eq_self)

section \<open>Properties\<close>

text \<open>
  C21. Two runs with different ids share nothing on the host: no path lies in the state
  directories of both or in the control groups of both, no network namespace and no TUN
  device of one has the name of one of the other, for any two of the hundred nodes of a run,
  and their underlay subnets differ.
\<close>

theorem run_nets_disjoint:
  assumes "sim_net_try_for_run a (Some x) = (True, Some na)"
    and "sim_net_try_for_run b (Some y) = (True, Some nb)"
    and "a \<noteq> b"
  shows "\<not> (inside (statedir na) p \<and> inside (statedir nb) p) \<and>
         \<not> (inside (cgroot na) p \<and> inside (cgroot nb) p) \<and>
         (\<forall>i \<in> {0..<int TUN_MAP_MAX}. \<forall>j \<in> {0..<int TUN_MAP_MAX}.
            ns_name_net na PATH_LEN i \<noteq> ns_name_net nb PATH_LEN j \<and>
            tun_name_net na NAME_LEN i \<noteq> tun_name_net nb NAME_LEN j) \<and>
         under na \<noteq> under nb"
proof -
  from assms have ab: "0 \<le> a" "a \<le> RUN_ID_MAX" "na = run_net a" "0 \<le> b" "b \<le> RUN_ID_MAX" "nb = run_net b"
    by (auto simp: sim_net_try_for_run_eq split: if_splits)
  note le = ab(1,2,4,5) [unfolded RUN_ID_MAX_def]
  have "statedir (run_net k) = STATEDIR @ run_mark k ''-''"
    "cgroot (run_net k) = ''/sys/fs/cgroup/resonance'' @ run_mark k ''-''" for k
    by (simp_all only: run_net_def sim_net.simps)
  then have "\<not> (inside (statedir na) p \<and> inside (statedir nb) p)" "\<not> (inside (cgroot na) p \<and> inside (cgroot nb) p)"
    using run_dirs_differ [OF ab(1,4)] ab \<open>a \<noteq> b\<close> by metis+
  moreover have "tun_name_net na NAME_LEN i \<noteq> tun_name_net nb NAME_LEN j \<and>
      ns_name_net na PATH_LEN i \<noteq> ns_name_net nb PATH_LEN j"
    if "0 \<le> i" "i < 100" "0 \<le> j" "j < 100" for i j
    using run_names_differ [OF le \<open>a \<noteq> b\<close> that] run_net_valid ab
      names_fit(1,3) [of na, OF _ that(1,2)] names_fit(1,3) [of nb, OF _ that(3,4)] by simp
  ultimately show ?thesis
    using run_octets_differ [OF le \<open>a \<noteq> b\<close>] ab by (auto simp: TUN_MAP_MAX_def)
qed

theorem run_nets_disjoint_witness:
  "sim_net_try_for_run 1 (Some sim_default_net) = (True, Some (run_net 1)) \<and>
   sim_net_try_for_run 12 (Some sim_default_net) = (True, Some (run_net 12)) \<and>
   ns_name_net (run_net 1) PATH_LEN 23 \<noteq> ns_name_net (run_net 12) PATH_LEN 3"
proof -
  have ok: "sim_net_try_for_run 1 (Some sim_default_net) = (True, Some (run_net 1))"
    "sim_net_try_for_run 12 (Some sim_default_net) = (True, Some (run_net 12))"
    by (simp_all add: sim_net_try_for_run_eq RUN_ID_MAX_def)
  from run_nets_disjoint [OF this, of "[]"] show ?thesis using ok by (auto simp: TUN_MAP_MAX_def)
qed

end
