(* ===== verification/Sim_Lock.thy ===== *)
theory Sim_Lock
  imports Sim_Net
begin

text \<open>
  Run ids for concurrent processes, \<open>sim_run_acquire\<close> and \<open>sim_run_probe\<close> of \<open>sim/sim.c\<close>:
  one lock file per id, taken with a non-blocking exclusive \<open>flock\<close>, and a table of processes
  that acquire, probe and exit in any order. The scan runs under the allocator's own lock, so
  one acquisition is one step. The kernel's part is that an open file description holds an
  exclusive lock until its last descriptor is closed, at the latest when the process exits;
  which opens fail is the argument \<open>fs\<close> of each step.
\<close>

section \<open>State and operations\<close>

text \<open>
  \<open>holders\<close>: which process owns the open file that locks an id. \<open>held\<close>: the id whose lock file
  \<open>HeldRunLock\<close> of a process keeps open (none is \<open>-1\<close>).
\<close>

record lock_table =
  holders :: "int \<Rightarrow> nat option"
  held :: "nat \<Rightarrow> int option"

record lock_files =
  allocator_ok :: bool
  opens :: "string \<Rightarrow> bool"

definition RUN_ID_LOCK :: "int \<Rightarrow> string option" where
  "RUN_ID_LOCK i = snprintf 64 (''/var/tmp/resonance-run-'' @ fmt_d i @ ''.lock'')"

definition run_ids :: "int list" where
  "run_ids = [RUN_ID_MIN..RUN_ID_MAX]"

definition take_lock :: "nat \<Rightarrow> int \<Rightarrow> lock_table \<Rightarrow> lock_table" where
  "take_lock p i w =
     (let w = (case held w p of
                 None \<Rightarrow> w
               | Some old \<Rightarrow> w\<lparr>holders := (holders w)(old := None)\<rparr>)
      in w\<lparr>holders := (holders w)(i \<mapsto> p), held := (held w)(p \<mapsto> i)\<rparr>)"

fun acquire_scan :: "lock_files \<Rightarrow> nat \<Rightarrow> int list \<Rightarrow> lock_table \<Rightarrow> int option \<times> lock_table" where
  "acquire_scan fs p [] w = (None, w)"
| "acquire_scan fs p (i # ids) w =
     (case RUN_ID_LOCK i of
        None \<Rightarrow> (None, w)
      | Some path \<Rightarrow>
          if \<not> opens fs path then acquire_scan fs p ids w
          else if holders w i \<noteq> None then acquire_scan fs p ids w
          else (Some i, take_lock p i w))"

definition sim_run_acquire ::
  "lock_files \<Rightarrow> nat \<Rightarrow> lock_table \<Rightarrow> int ptr \<Rightarrow> bool \<times> int ptr \<times> lock_table" where
  "sim_run_acquire fs p w out_id =
     (if out_id = None then (False, None, w)
      else if \<not> allocator_ok fs then (False, out_id, w)
      else
        (case acquire_scan fs p run_ids w of
           (None, w) \<Rightarrow> (False, out_id, w)
         | (Some i, w) \<Rightarrow> (True, Some i, w)))"

fun probe_scan :: "lock_files \<Rightarrow> int list \<Rightarrow> lock_table \<Rightarrow> bool" where
  "probe_scan fs [] w = False"
| "probe_scan fs (i # ids) w =
     (case RUN_ID_LOCK i of
        None \<Rightarrow> False
      | Some path \<Rightarrow>
          if \<not> opens fs path then probe_scan fs ids w
          else if holders w i = None then True
          else probe_scan fs ids w)"

definition sim_run_probe :: "lock_files \<Rightarrow> lock_table \<Rightarrow> bool" where
  "sim_run_probe fs w = (allocator_ok fs \<and> probe_scan fs run_ids w)"

section \<open>Processes\<close>

text \<open>At exit the kernel closes the process's files, which frees its lock.\<close>

definition exit_process :: "nat \<Rightarrow> lock_table \<Rightarrow> lock_table" where
  "exit_process p w =
     (case held w p of
        None \<Rightarrow> w
      | Some i \<Rightarrow> w\<lparr>holders := (holders w)(i := None), held := (held w)(p := None)\<rparr>)"

definition no_runs :: lock_table where
  "no_runs = \<lparr>holders = (\<lambda>_. None), held = (\<lambda>_. None)\<rparr>"

inductive lock_step :: "lock_table \<Rightarrow> lock_table \<Rightarrow> bool" where
  acquires: "sim_run_acquire fs p w out_id = (ok, out', w') \<Longrightarrow> lock_step w w'"
| exits: "lock_step w (exit_process p w)"

inductive live_runs :: "lock_table \<Rightarrow> bool" where
  no_run: "live_runs no_runs"
| next_run: "live_runs w \<Longrightarrow> lock_step w w' \<Longrightarrow> live_runs w'"

inductive_cases lock_stepE: "lock_step w w'"

section \<open>The invariant\<close>

text \<open>The two maps are inverse to each other.\<close>

definition matched :: "('a \<rightharpoonup> 'b) \<Rightarrow> ('b \<rightharpoonup> 'a) \<Rightarrow> bool" where
  "matched f g = (\<forall>a b. (f a = Some b) = (g b = Some a))"

lemma matchedD: "matched f g \<Longrightarrow> f a = Some b \<longleftrightarrow> g b = Some a"
  by (simp add: matched_def)

lemma matched_clear:
  assumes "matched f g" "f a = Some b"
  shows "matched (f(a := None)) (g(b := None))"
  unfolding matched_def
proof (intro allI)
  fix x y
  show "((f(a := None)) x = Some y) = ((g(b := None)) y = Some x)"
    using matchedD [OF assms(1), of x y] matchedD [OF assms(1), of x b] matchedD [OF assms(1), of a y] assms(2)
    by (cases "x = a"; cases "y = b") simp_all
qed

lemma matched_add:
  assumes "matched f g" "f a = None" "g b = None"
  shows "matched (f(a \<mapsto> b)) (g(b \<mapsto> a))"
  unfolding matched_def
proof (intro allI)
  fix x y
  show "((f(a \<mapsto> b)) x = Some y) = ((g(b \<mapsto> a)) y = Some x)"
    using matchedD [OF assms(1), of x y] matchedD [OF assms(1), of x b] matchedD [OF assms(1), of a y] assms(2,3)
    by (cases "x = a"; cases "y = b") auto
qed

definition locks_inv :: "lock_table \<Rightarrow> bool" where
  "locks_inv w = (matched (held w) (holders w) \<and> ran (held w) \<subseteq> set run_ids)"

lemma RUN_ID_LOCK_Some: "i \<in> set run_ids \<Longrightarrow> \<exists>path. RUN_ID_LOCK i = Some path"
  using fmt_d_upto [of i 3] by (auto simp: run_ids_def RUN_ID_MIN_def RUN_ID_MAX_def RUN_ID_LOCK_def snprintf_def)

lemma take_lock_inv:
  assumes "locks_inv w" "holders w i = None" "i \<in> set run_ids"
  shows "locks_inv (take_lock p i w)"
proof (cases "held w p")
  case None
  with assms show ?thesis
    by (simp add: locks_inv_def take_lock_def matched_add)
next
  case (Some old)
  with assms have m: "matched ((held w)(p := None)) ((holders w)(old := None))"
    by (simp add: locks_inv_def matched_clear)
  with assms have "matched ((held w)(p := None, p \<mapsto> i)) ((holders w)(old := None, i \<mapsto> p))"
    by (intro matched_add) simp_all
  moreover have "ran ((held w)(p \<mapsto> i)) \<subseteq> set run_ids"
    using assms by (auto simp: locks_inv_def ran_def split: if_splits)
  ultimately show ?thesis using Some by (simp add: locks_inv_def take_lock_def)
qed

lemma exit_process_inv: "locks_inv w \<Longrightarrow> locks_inv (exit_process p w)"
  by (auto simp: locks_inv_def exit_process_def matched_clear ran_def split: option.splits if_splits)

text \<open>The scan takes the first id that opens and is free.\<close>

lemma acquire_scan_first:
  assumes "set ids \<subseteq> set run_ids"
  shows "acquire_scan fs p ids w =
    (case find (\<lambda>i. opens fs (the (RUN_ID_LOCK i)) \<and> holders w i = None) ids of
       None \<Rightarrow> (None, w) | Some i \<Rightarrow> (Some i, take_lock p i w))"
  using assms
proof (induction ids)
  case (Cons i ids)
  then show ?case using RUN_ID_LOCK_Some [of i] by auto
qed simp

lemma probe_scan_first:
  assumes "set ids \<subseteq> set run_ids"
  shows "probe_scan fs ids w = (\<exists>i \<in> set ids. opens fs (the (RUN_ID_LOCK i)) \<and> holders w i = None)"
  using assms
proof (induction ids)
  case (Cons i ids)
  then show ?case using RUN_ID_LOCK_Some [of i] by auto
qed simp

lemma acquire_inv: "locks_inv w \<Longrightarrow> sim_run_acquire fs p w out_id = (ok, out', w') \<Longrightarrow> locks_inv w'"
  using take_lock_inv [of w]
  by (auto simp: sim_run_acquire_def acquire_scan_first find_Some_iff in_set_conv_nth
      split: if_splits option.splits)

lemma live_runs_inv: "live_runs w \<Longrightarrow> locks_inv w"
proof (induction rule: live_runs.induct)
  case no_run
  then show ?case by (simp add: locks_inv_def no_runs_def matched_def)
next
  case (next_run w w')
  then show ?case by (auto elim!: lock_stepE intro: acquire_inv exit_process_inv)
qed

lemma matched_ran: "matched f g \<Longrightarrow> ran f = dom g"
  by (auto simp: matched_def ran_def dom_def)

lemma matched_sym: "matched f g \<Longrightarrow> matched g f"
  by (simp add: matched_def)

lemma matched_there: "matched f g \<Longrightarrow> a \<in> dom f \<Longrightarrow> the (g (the (f a))) = a \<and> the (f a) \<in> dom g"
  using matchedD [of f g a "the (f a)"] by auto

lemma matched_card:
  assumes "matched f g"
  shows "card (dom f) = card (dom g)"
proof (rule bij_betw_same_card)
  show "bij_betw (\<lambda>a. the (f a)) (dom f) (dom g)"
    using matched_there [OF assms] matched_there [OF matched_sym [OF assms]]
    by (intro bij_betw_byWitness [where f' = "\<lambda>b. the (g b)"]) blast+
qed

lemma card_run_ids: "card (set run_ids) = 154"
  by (simp add: run_ids_def RUN_ID_MIN_def RUN_ID_MAX_def)

lemma free_id:
  assumes "locks_inv w"
  shows "(\<exists>i \<in> set run_ids. holders w i = None) = (card (dom (held w)) < 154)"
proof -
  have sub: "dom (holders w) \<subseteq> set run_ids" and card: "card (dom (held w)) = card (dom (holders w))"
    using assms matched_ran [of "held w" "holders w"] matched_card [of "held w" "holders w"]
    by (simp_all add: locks_inv_def)
  have "(\<exists>i \<in> set run_ids. holders w i = None) = (dom (holders w) \<subset> set run_ids)"
    using sub by auto
  also have "\<dots> = (card (dom (holders w)) < 154)"
    using sub card_run_ids psubset_card_mono [of "set run_ids" "dom (holders w)"] by auto
  finally show ?thesis using card by simp
qed

lemma acquire_succeeds:
  assumes "allocator_ok fs" "\<forall>path. opens fs path"
  shows "fst (sim_run_acquire fs p w (Some z)) = (\<exists>i \<in> set run_ids. holders w i = None)"
  using assms
  by (auto simp: sim_run_acquire_def acquire_scan_first find_None_iff find_Some_iff split: option.splits)

section \<open>Properties\<close>

text \<open>
  C22. However processes acquire run ids, probe and exit, two processes that hold an id hold
  different ones, and a held id is one from which the checked constructor makes a valid net.
\<close>

theorem run_ids_exclusive:
  assumes "live_runs w" "held w p = Some i" "held w q = Some j" "p \<noteq> q"
  shows "i \<noteq> j \<and> (\<exists>net. sim_net_try_for_run i (Some x) = (True, Some net) \<and> sim_net_valid (Some net))"
proof -
  have inv: "matched (held w) (holders w)" "ran (held w) \<subseteq> set run_ids"
    using live_runs_inv [OF assms(1)] by (simp_all add: locks_inv_def)
  then have "0 \<le> i" "i \<le> RUN_ID_MAX"
    using assms(2) by (auto simp: ran_def run_ids_def RUN_ID_MIN_def)
  moreover have "i \<noteq> j"
    using assms matchedD [OF inv(1), of p i] matchedD [OF inv(1), of q j] by auto
  ultimately show ?thesis using run_net_valid [of i] by (simp add: sim_net_try_for_run_eq)
qed

definition two_runs :: lock_table where
  "two_runs = take_lock 8 2 (take_lock 7 1 no_runs)"

definition good_files :: lock_files where
  "good_files = \<lparr>allocator_ok = True, opens = (\<lambda>_. True)\<rparr>"

lemma two_runs_live: "live_runs two_runs"
proof -
  have ids: "run_ids = 1 # 2 # [3..154]"
    by (simp add: run_ids_def RUN_ID_MIN_def RUN_ID_MAX_def upto_rec1)
  have "RUN_ID_LOCK 1 = Some ''/var/tmp/resonance-run-1.lock''" "RUN_ID_LOCK 2 = Some ''/var/tmp/resonance-run-2.lock''"
    by (simp_all add: RUN_ID_LOCK_def snprintf_def fmt_d_def digits.simps digit_char_def numeral_2_eq_2)
  then have "sim_run_acquire good_files 7 no_runs (Some 0) = (True, Some 1, take_lock 7 1 no_runs)"
    "sim_run_acquire good_files 8 (take_lock 7 1 no_runs) (Some 0) = (True, Some 2, two_runs)"
    by (simp_all add: sim_run_acquire_def ids good_files_def no_runs_def two_runs_def take_lock_def)
  then show ?thesis by (meson lock_step.acquires live_runs.intros)
qed

theorem run_ids_exclusive_witness:
  "live_runs two_runs \<and> held two_runs 7 = Some 1 \<and> held two_runs 8 = Some 2 \<and>
   (\<exists>net. sim_net_try_for_run 1 (Some sim_default_net) = (True, Some net) \<and> sim_net_valid (Some net))"
proof -
  have "held two_runs 7 = Some 1" "held two_runs 8 = Some 2"
    by (simp_all add: two_runs_def take_lock_def no_runs_def)
  with run_ids_exclusive [OF two_runs_live this, of sim_default_net] two_runs_live show ?thesis by simp
qed

text \<open>
  C23. Ids recycle: as long as the lock files can be opened, a process that asks for a run id
  gets one exactly when fewer than 154 live processes hold one, and the probe says so.
\<close>

theorem run_ids_recycle:
  assumes "live_runs w" "allocator_ok fs" "\<forall>path. opens fs path"
  shows "fst (sim_run_acquire fs p w (Some z)) = (card (dom (held w)) < 154) \<and>
         sim_run_probe fs w = (card (dom (held w)) < 154)"
  using free_id [OF live_runs_inv [OF assms(1)]] acquire_succeeds [OF assms(2,3), of p w z] assms(2,3)
  by (simp add: sim_run_probe_def probe_scan_first)

theorem run_ids_recycle_witness:
  "live_runs two_runs \<and> fst (sim_run_acquire good_files 9 two_runs (Some 0))"
proof -
  have "dom (held two_runs) = {7, 8}" by (auto simp: two_runs_def take_lock_def no_runs_def)
  then have "card (dom (held two_runs)) < 154" by simp
  with run_ids_recycle [OF two_runs_live, of good_files 9 0] two_runs_live show ?thesis
    by (simp add: good_files_def)
qed

end
