(* ===== verification/Os.thy ===== *)
theory Os
  imports Text_Format
begin

text \<open>
  System calls as a trace. The kernel and the shell are an argument, \<open>os\<close>: what a call answers
  after the calls made so far, so that it may fail at any point and answer differently each
  time. An operation takes the trace so far (newest call first) and returns it extended by the
  calls it makes with their answers. A call that fails answers minus its \<open>errno\<close>; \<open>fopen\<close>
  and \<open>fputs\<close> fail with any negative answer. A pipe is two entries, one for each of its ends.
  What the descriptors and the children of the process are can be read off the trace.
\<close>

section \<open>Calls and traces\<close>

datatype request =
    System string
  | Mkdir string
  | Stat_size string
  | Fopen string
  | Fputs string
  | Fclose
  | Open_file string
  | Close int
  | Getfd int
  | Cloexec int
  | Setns int
  | Tunsetiff int string
  | Pipe
  | Pipe_end
  | Fork
  | Setenv string string
  | Chdir string
  | Dup2 int int
  | Exec string "string list"
  | Exit int
  | Kill int int
  | Waitpid int bool
  | Time
  | Monotonic
  | Nanosleep
  | Read int nat
  | Poll int
  | Pagesize

type_synonym trace = "(request \<times> int) list"
type_synonym os = "trace \<Rightarrow> request \<Rightarrow> int"

definition sys :: "os \<Rightarrow> request \<Rightarrow> trace \<Rightarrow> int \<times> trace" where
  "sys E r t = (let a = E t r in (a, (r, a) # t))"

text \<open>A call whose answer the code ignores.\<close>

definition call :: "os \<Rightarrow> request \<Rightarrow> trace \<Rightarrow> trace" where
  "call E r t = snd (sys E r t)"

definition EINTR :: int where "EINTR = 4"
definition ECHILD :: int where "ECHILD = 10"
definition EEXIST :: int where "EEXIST = 17"
definition SIGKILL :: int where "SIGKILL = 9"
definition SIGTERM :: int where "SIGTERM = 15"

definition mkdir_ok :: "os \<Rightarrow> string \<Rightarrow> trace \<Rightarrow> bool \<times> trace" where
  "mkdir_ok E path t = (let (a, t) = sys E (Mkdir path) t in (a = 0 \<or> a = - EEXIST, t))"

text \<open>Steps each of which must succeed: \<open>if (!step) return (false);\<close> over and over.\<close>

fun run_seq :: "('s \<Rightarrow> bool \<times> 's) list \<Rightarrow> 's \<Rightarrow> bool \<times> 's" where
  "run_seq [] s = (True, s)"
| "run_seq (f # fs) s = (case f s of (False, s) \<Rightarrow> (False, s) | (True, s) \<Rightarrow> run_seq fs s)"

lemma run_seq_append:
  "run_seq (fs @ gs) s = (case run_seq fs s of (False, s) \<Rightarrow> (False, s) | (True, s) \<Rightarrow> run_seq gs s)"
  by (induction fs arbitrary: s) (auto split: prod.splits bool.splits)

section \<open>What an operation adds to the trace\<close>

text \<open>\<open>t'\<close> continues \<open>t\<close>, and every call it adds satisfies \<open>P\<close>.\<close>

definition adds :: "(request \<times> int \<Rightarrow> bool) \<Rightarrow> trace \<Rightarrow> trace \<Rightarrow> bool" where
  "adds P t t' = (\<exists>new. t' = new @ t \<and> (\<forall>c \<in> set new. P c))"

named_theorems adds_intros \<open>calls added by the operations\<close>

lemma adds_refl [simp, intro]: "adds P t t"
  by (simp add: adds_def)

lemma adds_trans: "adds P t u \<Longrightarrow> adds P u v \<Longrightarrow> adds P t v"
  by (fastforce simp: adds_def)

lemma adds_mono: "adds P t u \<Longrightarrow> (\<And>c. P c \<Longrightarrow> Q c) \<Longrightarrow> adds Q t u"
  by (fastforce simp: adds_def)

lemma adds_one: "P c \<Longrightarrow> adds P t (c # t)"
  by (auto simp: adds_def intro: exI [of _ "[c]"])

lemma sys_eq: "sys E r t = (E t r, (r, E t r) # t)" and call_eq: "call E r t = (r, E t r) # t"
  by (simp_all add: sys_def call_def Let_def)

lemma adds_sys: "(\<And>a. P (r, a)) \<Longrightarrow> adds P t (snd (sys E r t))"
  by (simp add: sys_eq adds_one)

lemma adds_call: "(\<And>a. P (r, a)) \<Longrightarrow> adds P t (call E r t)"
  by (simp add: call_eq adds_one)

lemma adds_run_seq:
  assumes "\<And>f s. f \<in> set fs \<Longrightarrow> adds P (tr s) (tr (snd (f s)))"
  shows "adds P (tr s) (tr (snd (run_seq fs s)))"
  using assms
proof (induction fs arbitrary: s)
  case (Cons f fs)
  obtain b s' where f: "f s = (b, s')" by (cases "f s")
  with Cons.prems [of f s] have "adds P (tr s) (tr s')" by simp
  moreover have "adds P (tr s') (tr (snd (run_seq fs s')))" using Cons by simp
  ultimately show ?case using f by (auto intro: adds_trans split: bool.splits)
qed simp

section \<open>Open descriptors and children\<close>

fun fds_after :: "request \<times> int \<Rightarrow> int set \<Rightarrow> int set" where
  "fds_after (Open_file p, a) s = (if a < 0 then s else insert a s)"
| "fds_after (Pipe, a) s = (if a < 0 then s else insert a s)"
| "fds_after (Pipe_end, a) s = (if a < 0 then s else insert a s)"
| "fds_after (Close fd, a) s = s - {fd}"
| "fds_after _ s = s"

fun live_fds :: "trace \<Rightarrow> int set" where
  "live_fds [] = {}"
| "live_fds (c # t) = fds_after c (live_fds t)"

fun kids_after :: "request \<times> int \<Rightarrow> int set \<Rightarrow> int set" where
  "kids_after (Fork, a) s = (if a < 0 then s else insert a s)"
| "kids_after (Waitpid pid hang, a) s = (if a = pid \<or> a = - ECHILD then s - {pid} else s)"
| "kids_after _ s = s"

fun live_kids :: "trace \<Rightarrow> int set" where
  "live_kids [] = {}"
| "live_kids (c # t) = kids_after c (live_kids t)"

text \<open>
  What the code relies on: a new descriptor is not negative and not already open, a new child
  has a positive pid that no other live child has.
\<close>

definition kernel :: "os \<Rightarrow> bool" where
  "kernel E \<longleftrightarrow>
     (\<forall>t p. E t (Open_file p) \<notin> live_fds t) \<and> (\<forall>t. E t Pipe \<notin> live_fds t) \<and>
     (\<forall>t. E t Pipe_end \<notin> live_fds t \<and> E t Pipe_end \<ge> 0) \<and>
     (\<forall>t. E t Fork \<noteq> 0 \<and> E t Fork \<notin> live_kids t)"

lemma kernel_fresh:
  assumes "kernel E"
  shows "E t (Open_file p) \<notin> live_fds t" "E t Pipe \<notin> live_fds t" "E t Pipe_end \<notin> live_fds t"
    "E t Pipe_end \<ge> 0" "E t Fork \<noteq> 0" "E t Fork \<notin> live_kids t"
  using assms by (simp_all add: kernel_def)

section \<open>Files\<close>

text \<open>\<open>write_file\<close>: \<open>fopen\<close>, \<open>fputs\<close> and \<open>fclose\<close>.\<close>

definition write_file :: "os \<Rightarrow> string \<Rightarrow> string \<Rightarrow> trace \<Rightarrow> bool \<times> trace" where
  "write_file E path s t =
     (let (fp, t) = sys E (Fopen path) t in
      if fp < 0 then (False, t)
      else let (a, t) = sys E (Fputs s) t in
        if a < 0 then (False, call E Fclose t)
        else let (a, t) = sys E Fclose t in (a = 0, t))"

definition run_cmd :: "os \<Rightarrow> string \<Rightarrow> trace \<Rightarrow> bool \<times> trace" where
  "run_cmd E cmd t = (let (a, t) = sys E (System cmd) t in (a = 0, t))"

text \<open>The command when it fits its buffer; a truncated one never runs.\<close>

definition run_fit :: "os \<Rightarrow> nat \<Rightarrow> string \<Rightarrow> trace \<Rightarrow> bool \<times> trace" where
  "run_fit E cap cmd t =
     (case snprintf cap cmd of None \<Rightarrow> (False, t) | Some cmd \<Rightarrow> run_cmd E cmd t)"

text \<open>The same where a failure is ignored.\<close>

definition try_fit :: "os \<Rightarrow> nat \<Rightarrow> string \<Rightarrow> trace \<Rightarrow> trace" where
  "try_fit E cap cmd t =
     (case snprintf cap cmd of None \<Rightarrow> t | Some cmd \<Rightarrow> snd (run_cmd E cmd t))"

lemma adds_run_fit [adds_intros]: "(\<And>a. P (System cmd, a)) \<Longrightarrow> adds P t (snd (run_fit E cap cmd t))"
  by (simp add: run_fit_def snprintf_def run_cmd_def sys_eq adds_one)

lemma adds_try_fit [adds_intros]: "(\<And>a. P (System cmd, a)) \<Longrightarrow> adds P t (try_fit E cap cmd t)"
  by (simp add: try_fit_def snprintf_def run_cmd_def sys_eq adds_one)

section \<open>A host on which every call succeeds\<close>

fun next_id :: "trace \<Rightarrow> int" where
  "next_id [] = 1"
| "next_id ((r, a) # t) = max (a + 1) (next_id t)"

definition calm_os :: os where
  "calm_os t r =
     (case r of
        Open_file p \<Rightarrow> next_id t
      | Pipe \<Rightarrow> next_id t
      | Pipe_end \<Rightarrow> next_id t
      | Fork \<Rightarrow> next_id t
      | Waitpid pid hang \<Rightarrow> pid
      | _ \<Rightarrow> 0)"

lemma next_id_pos: "1 \<le> next_id t"
  by (induction t rule: next_id.induct) auto

lemma next_id_fds: "x \<in> live_fds t \<Longrightarrow> x < next_id t"
proof (induction t rule: next_id.induct)
  case (2 r a t)
  then show ?case by (cases r) (auto split: if_splits)
qed simp

lemma next_id_kids: "x \<in> live_kids t \<Longrightarrow> x < next_id t"
proof (induction t rule: next_id.induct)
  case (2 r a t)
  then show ?case by (cases r) (auto split: if_splits)
qed simp

lemma live_nonneg: "x \<in> live_fds t \<union> live_kids t \<Longrightarrow> x \<ge> 0"
proof (induction t rule: next_id.induct)
  case (2 r a t)
  then show ?case by (cases r) (auto split: if_splits)
qed simp

lemma kernel_calm: "kernel calm_os"
proof -
  have "next_id t \<notin> live_fds t" "next_id t \<notin> live_kids t" "0 \<le> next_id t" "next_id t \<noteq> 0" for t
    using next_id_fds [of "next_id t" t] next_id_kids [of "next_id t" t] next_id_pos [of t] by auto
  then show ?thesis by (simp add: kernel_def calm_os_def)
qed

end
