(* ===== verification/Sim_Host.thy ===== *)
theory Sim_Host
  imports Sim_Net Sim_Context Os
begin

text \<open>
  What \<open>sim/sim.c\<close> does to the host for a run: network namespaces, TUN devices, simulated
  nodes, addresses and routes, and their removal. A loop over nodes that stops at the first
  failure is \<open>run_seq\<close> over its steps. Messages to the terminal are not modelled.
\<close>

section \<open>Namespaces\<close>

definition netns_add_one :: "os \<Rightarrow> sim_net \<Rightarrow> int \<Rightarrow> trace \<Rightarrow> bool \<times> trace" where
  "netns_add_one E net i t =
     (case ns_name_net net PATH_LEN i of
        None \<Rightarrow> (False, t)
      | Some name \<Rightarrow>
          (case snprintf SMALL_CMD (''ip netns del '' @ name @ '' 2>/dev/null'') of
             None \<Rightarrow> (False, t)
           | Some cmd \<Rightarrow>
               let t = snd (run_cmd E cmd t) in
               run_fit E SMALL_CMD (''ip netns add '' @ name) t))"

definition netns_del_one :: "os \<Rightarrow> sim_net \<Rightarrow> int \<Rightarrow> trace \<Rightarrow> bool \<times> trace" where
  "netns_del_one E net i t =
     (case ns_name_net net PATH_LEN i of
        None \<Rightarrow> (True, t)
      | Some name \<Rightarrow>
          (case snprintf SMALL_CMD (''ip netns del '' @ name @ '' 2>/dev/null'') of
             None \<Rightarrow> (True, t)
           | Some cmd \<Rightarrow> let t = snd (run_cmd E cmd t) in (True, t)))"

definition sim_netns_setup_net :: "os \<Rightarrow> sim_net ptr \<Rightarrow> int \<Rightarrow> trace \<Rightarrow> bool \<times> trace" where
  "sim_netns_setup_net E np n t =
     (case np of
        None \<Rightarrow> (False, t)
      | Some net \<Rightarrow>
          if \<not> sim_net_valid np then (False, t)
          else if n < 1 \<or> n > int TUN_MAP_MAX then (False, t)
          else run_seq (map (netns_add_one E net) [1..n - 1]) t)"

definition sim_netns_setup_all :: "os \<Rightarrow> sim_net ptr \<Rightarrow> int \<Rightarrow> trace \<Rightarrow> bool \<times> trace" where
  "sim_netns_setup_all E np n t =
     (case np of
        None \<Rightarrow> (False, t)
      | Some net \<Rightarrow>
          if \<not> sim_net_valid np then (False, t)
          else if n < 1 \<or> n > int TUN_MAP_MAX then (False, t)
          else run_seq (map (netns_add_one E net) [0..n - 1]) t)"

definition rmdir_node :: "os \<Rightarrow> sim_net \<Rightarrow> int \<Rightarrow> trace \<Rightarrow> trace" where
  "rmdir_node E net i t =
     (case cg_node_net net PATH_LEN i of
        None \<Rightarrow> t
      | Some name \<Rightarrow> try_fit E SMALL_CMD (''rmdir '' @ name @ '' 2>/dev/null'') t)"

definition sim_netns_teardown_net :: "os \<Rightarrow> sim_net ptr \<Rightarrow> int \<Rightarrow> trace \<Rightarrow> bool \<times> trace" where
  "sim_netns_teardown_net E np n t =
     (case np of
        None \<Rightarrow> (False, t)
      | Some net \<Rightarrow>
          if \<not> sim_net_valid np then (True, t)
          else
            let t = fold (\<lambda>i t. snd (netns_del_one E net i t)) [0..n - 1] t;
                t = (if is_default_net np
                     then snd (run_cmd E ''ip netns del net_namespace_nodeb 2>/dev/null'' t) else t);
                t = fold (rmdir_node E net) [0..n - 1] t
            in (True, try_fit E SMALL_CMD (''rmdir '' @ cgroot net @ '' 2>/dev/null'') t))"

section \<open>TUN devices\<close>

definition cloexec_fd :: "os \<Rightarrow> int \<Rightarrow> trace \<Rightarrow> trace" where
  "cloexec_fd E fd t =
     (let (f, t) = sys E (Getfd fd) t in if f < 0 then t else call E (Cloexec fd) t)"

definition open_tun_file :: "os \<Rightarrow> string ptr \<Rightarrow> int ptr \<Rightarrow> trace \<Rightarrow> bool \<times> int ptr \<times> trace" where
  "open_tun_file E np fdp t =
     (case (np, fdp) of
        (Some name, Some _) \<Rightarrow>
          let (fd_internal, t) = sys E (Open_file ''/dev/net/tun'') t in
          if fd_internal < 0 then (False, fdp, t)
          else
            let n = min (IFNAMSIZ - 1) (length name);
                (a, t) = sys E (Tunsetiff fd_internal (take n name)) t in
            if a < 0 then (False, fdp, call E (Close fd_internal) t)
            else (True, Some fd_internal, t)
      | _ \<Rightarrow> (False, fdp, t))"

text \<open>
  \<open>open_in_ns\<close> returns its result, the descriptor it leaves in \<open>*fd\<close>, and the trace. When the
  device does not open, a restore that fails as well only adds a message.
\<close>

definition open_in_ns :: "os \<Rightarrow> string \<Rightarrow> string \<Rightarrow> int \<Rightarrow> trace \<Rightarrow> int \<times> int \<times> trace" where
  "open_in_ns E ns ifname fd t =
     (let (oldfd, t) = sys E (Open_file ''/proc/self/ns/net'') t;
          (nsfd, t) = sys E (Open_file ns) t in
      if oldfd < 0 \<or> nsfd < 0 then
        let t = (if oldfd \<ge> 0 then call E (Close oldfd) t else t);
            t = (if nsfd \<ge> 0 then call E (Close nsfd) t else t)
        in (-1, fd, t)
      else
        let (a, t) = sys E (Setns nsfd) t in
        if a \<noteq> 0 then
          let t = call E (Close oldfd) t; t = call E (Close nsfd) t in (-1, fd, t)
        else
          (case open_tun_file E (Some ifname) (Some fd) t of
             (True, Some fd', t) \<Rightarrow>
               let (a, t) = sys E (Setns oldfd) t in
               if a \<noteq> 0 then
                 let t = call E (Close fd') t; t = call E (Close oldfd) t; t = call E (Close nsfd) t
                 in (-1, -1, t)
               else
                 let t = call E (Close oldfd) t; t = call E (Close nsfd) t in (0, fd', t)
           | (_, _, t) \<Rightarrow>
               let (a, t) = sys E (Setns oldfd) t;
                   t = call E (Close oldfd) t; t = call E (Close nsfd) t in (-1, fd, t)))"

definition tun_open_one_ns ::
  "os \<Rightarrow> sim_net \<Rightarrow> int \<Rightarrow> int list \<times> trace \<Rightarrow> bool \<times> int list \<times> trace" where
  "tun_open_one_ns E net i s =
     (case s of (fds, t) \<Rightarrow>
        (case tun_name_net net NAME_LEN i of
           None \<Rightarrow> (False, fds, t)
         | Some tun \<Rightarrow>
             (case ns_path_net net PATH_LEN i of
                None \<Rightarrow> (False, fds, t)
              | Some path \<Rightarrow>
                  (case open_in_ns E path tun (fds ! nat i) t of
                     (r, fd, t) \<Rightarrow>
                       let fds = fds[nat i := fd] in
                       if r \<noteq> 0 then (False, fds[nat i := -1], t)
                       else (True, fds, cloexec_fd E fd t)))))"

text \<open>The callers pass an array of at least \<open>n\<close> descriptors.\<close>

definition preset :: "nat \<Rightarrow> int list \<Rightarrow> int list" where
  "preset n fds = replicate n (-1) @ drop n fds"

definition sim_tuns_open_net ::
  "os \<Rightarrow> sim_net ptr \<Rightarrow> int list ptr \<Rightarrow> int \<Rightarrow> trace \<Rightarrow> bool \<times> int list ptr \<times> trace" where
  "sim_tuns_open_net E np fdsp n t =
     (case (np, fdsp) of
        (Some net, _) \<Rightarrow>
          if \<not> sim_net_valid np then (False, fdsp, t)
          else if n < 1 \<or> n > int TUN_MAP_MAX then (False, fdsp, t)
          else
            (case fdsp of
               None \<Rightarrow> (False, fdsp, t)
             | Some fds \<Rightarrow>
                 let fds = preset (nat n) fds in
                 (case tun_name_net net NAME_LEN 0 of
                    None \<Rightarrow> (False, Some fds, t)
                  | Some tun \<Rightarrow>
                      (case open_tun_file E (Some tun) (Some (fds ! 0)) t of
                         (True, Some fd, t) \<Rightarrow>
                           let t = cloexec_fd E fd t in
                           (case run_seq (map (tun_open_one_ns E net) [1..n - 1]) (fds[0 := fd], t) of
                              (ok, fds, t) \<Rightarrow> (ok, Some fds, t))
                       | (_, _, t) \<Rightarrow> (False, Some (fds[0 := -1]), t))))
      | _ \<Rightarrow> (False, fdsp, t))"

definition sim_tuns_open_all ::
  "os \<Rightarrow> sim_net ptr \<Rightarrow> int list ptr \<Rightarrow> int \<Rightarrow> trace \<Rightarrow> bool \<times> int list ptr \<times> trace" where
  "sim_tuns_open_all E np fdsp n t =
     (case (np, fdsp) of
        (Some net, _) \<Rightarrow>
          if \<not> sim_net_valid np then (False, fdsp, t)
          else if n < 1 \<or> n > int TUN_MAP_MAX then (False, fdsp, t)
          else
            (case fdsp of
               None \<Rightarrow> (False, fdsp, t)
             | Some fds \<Rightarrow>
                 let fds = preset (nat n) fds in
                 (case run_seq (map (tun_open_one_ns E net) [0..n - 1]) (fds, t) of
                    (ok, fds, t) \<Rightarrow> (ok, Some fds, t)))
      | _ \<Rightarrow> (False, fdsp, t))"

section \<open>Simulated nodes\<close>

definition node_add ::
  "allocator \<Rightarrow> sim_net \<Rightarrow> int list \<Rightarrow> int \<Rightarrow> sim_context \<times> tun_map \<Rightarrow>
   bool \<times> sim_context \<times> tun_map" where
  "node_add alloc net fds i s =
     (case s of (ctx, m) \<Rightarrow>
        let x = of_int (i * 1000000000);
            ip = [fst (under net), fst (snd (under net)), snd (snd (under net)), of_int (i + 1)] in
        (case context_add_node alloc (Some ctx) x 0 0 0 (Some 0) of
           (True, Some ctx, Some ident) \<Rightarrow>
             (case tun_map_add (Some m) (fds ! nat i) (Some ip) ident of
                (ok, Some m) \<Rightarrow> (ok, ctx, m)
              | (ok, None) \<Rightarrow> (ok, ctx, m))
         | (_, Some ctx, _) \<Rightarrow> (False, ctx, m)
         | (_, None, _) \<Rightarrow> (False, ctx, m)))"

definition sim_nodes_add_net ::
  "allocator \<Rightarrow> sim_net ptr \<Rightarrow> sim_context ptr \<Rightarrow> tun_map ptr \<Rightarrow> int list ptr \<Rightarrow> int \<Rightarrow>
   bool \<times> sim_context ptr \<times> tun_map ptr" where
  "sim_nodes_add_net alloc np cp mp fdsp n =
     (case (np, cp, mp, fdsp) of
        (Some net, Some ctx, Some m, Some fds) \<Rightarrow>
          if \<not> sim_net_valid np then (False, cp, mp)
          else if n < 1 \<or> n > int TUN_MAP_MAX \<or> n > 254 then (False, cp, mp)
          else
            (case run_seq (map (node_add alloc net fds) [0..n - 1]) (ctx, m) of
               (ok, ctx, m) \<Rightarrow> (ok, Some ctx, Some m))
      | _ \<Rightarrow> (False, cp, mp))"

section \<open>Addresses\<close>

definition fmt_u :: "u8 \<Rightarrow> string" where
  "fmt_u v = fmt_d (uint v)"

text \<open>The first three octets with their dots.\<close>

definition subnet :: "sim_net \<Rightarrow> string" where
  "subnet net =
     (case under net of (a, b, c) \<Rightarrow> fmt_u a @ ''.'' @ fmt_u b @ ''.'' @ fmt_u c @ ''.'')"

definition addr_up_one_ns :: "os \<Rightarrow> sim_net \<Rightarrow> int \<Rightarrow> trace \<Rightarrow> bool \<times> trace" where
  "addr_up_one_ns E net i t =
     (case ns_name_net net PATH_LEN i of
        None \<Rightarrow> (False, t)
      | Some name \<Rightarrow>
          (case tun_name_net net NAME_LEN i of
             None \<Rightarrow> (False, t)
           | Some tun \<Rightarrow>
               run_seq (map (run_fit E CMD_LEN)
                 [''ip netns exec '' @ name @ '' ip link set lo up'',
                  ''ip netns exec '' @ name @ '' ip link set lo multicast on'',
                  ''ip netns exec '' @ name @ '' ip addr add '' @ subnet net @ fmt_d (i + 1) @ ''/24 dev '' @ tun,
                  ''ip netns exec '' @ name @ '' ip link set '' @ tun @ '' up'',
                  ''ip netns exec '' @ name @ '' ip link set '' @ tun @ '' multicast on'',
                  ''ip netns exec '' @ name @ '' ip route add 224.0.0.0/4 dev '' @ tun]) t))"

definition sim_addrs_up_net :: "os \<Rightarrow> sim_net ptr \<Rightarrow> int \<Rightarrow> trace \<Rightarrow> bool \<times> trace" where
  "sim_addrs_up_net E np n t =
     (case np of
        None \<Rightarrow> (False, t)
      | Some net \<Rightarrow>
          if \<not> sim_net_valid np then (False, t)
          else if n < 1 \<or> n > 254 then (False, t)
          else
            (case tun_name_net net NAME_LEN 0 of
               None \<Rightarrow> (False, t)
             | Some tun0 \<Rightarrow>
                 run_seq (map (run_fit E CMD_LEN)
                     [''ip addr add '' @ subnet net @ ''1/24 dev '' @ tun0,
                      ''ip link set '' @ tun0 @ '' up'',
                      ''ip link set '' @ tun0 @ '' multicast on'',
                      ''ip route add 224.0.0.0/4 dev '' @ tun0] @
                   map (addr_up_one_ns E net) [1..n - 1]) t))"

definition sim_addrs_up_all :: "os \<Rightarrow> sim_net ptr \<Rightarrow> int \<Rightarrow> trace \<Rightarrow> bool \<times> trace" where
  "sim_addrs_up_all E np n t =
     (case np of
        None \<Rightarrow> (False, t)
      | Some net \<Rightarrow>
          if \<not> sim_net_valid np then (False, t)
          else if n < 1 \<or> n > 254 then (False, t)
          else run_seq (map (addr_up_one_ns E net) [0..n - 1]) t)"

section \<open>What reaches the shell\<close>

text \<open>A calm command has no character that means something to a shell except the space and the
  greater-than sign.\<close>

definition calm_char :: "char \<Rightarrow> bool" where
  "calm_char c = (safe_char c \<or> c = CHR '' '' \<or> c = CHR ''>'')"

definition calm :: "string \<Rightarrow> bool" where
  "calm s = list_all calm_char s"

fun calm_call :: "request \<times> int \<Rightarrow> bool" where
  "calm_call (System s, a) = calm s"
| "calm_call _ = True"

text \<open>A call that an operation on the net may make: only when the net is valid, and calm.\<close>

definition host_call :: "sim_net ptr \<Rightarrow> request \<times> int \<Rightarrow> bool" where
  "host_call np c = (sim_net_valid np \<and> calm_call c)"

lemma calm_append [simp]: "calm (s @ u) = (calm s \<and> calm u)"
  by (simp add: calm_def)

lemma calm_Nil [simp]: "calm []"
  by (simp add: calm_def)

lemma calm_Cons [simp]: "calm (c # s) = (calm_char c \<and> calm s)"
  by (simp add: calm_def)

lemmas char_defs = calm_char_def safe_char_def between_def

lemma calm_safe: "safe s \<Longrightarrow> calm s"
  by (auto simp: calm_def safe_def calm_char_def list_all_iff)

lemma calm_fmt [simp]: "calm (fmt_d i)" "calm (fmt_u v)"
  by (simp_all add: calm_safe safe_fmt_d fmt_u_def)

lemma calm_subnet [simp]: "calm (subnet net)"
  by (simp add: subnet_def char_defs split: prod.splits)

lemma host_call_simps [simp]:
  "host_call np (System s, a) = (sim_net_valid np \<and> calm s)"
  by (simp add: host_call_def)

lemma adds_fold:
  assumes "\<And>x t. adds P t (f x t)"
  shows "adds P t (fold f xs t)"
proof (induction xs arbitrary: t)
  case (Cons x xs)
  then show ?case using assms adds_trans by fastforce
qed simp

lemma adds_steps: "(\<And>f s. f \<in> set fs \<Longrightarrow> adds P s (snd (f s))) \<Longrightarrow> adds P t (snd (run_seq fs t))"
  using adds_run_seq [where tr = "\<lambda>t. t"] by blast

lemma adds_cmds:
  "(\<And>cmd. cmd \<in> set cmds \<Longrightarrow> sim_net_valid np \<and> calm cmd) \<Longrightarrow>
   adds (host_call np) t (snd (run_seq (map (run_fit E cap) cmds) t))"
  by (rule adds_steps) (auto intro: adds_run_fit)

lemma adds_netns:
  assumes "sim_net_valid (Some net)"
  shows "adds (host_call (Some net)) t (snd (netns_add_one E net i t))"
    and "adds (host_call (Some net)) t (snd (netns_del_one E net i t))"
    and "adds (host_call (Some net)) t (rmdir_node E net i t)"
proof -
  have calm: "ns_name_net net k i = Some s \<Longrightarrow> calm s" "cg_node_net net k i = Some s \<Longrightarrow> calm s" for k s
    using safe_names [OF assms] calm_safe by blast+
  have "adds (host_call (Some net)) t (snd (run_cmd E cmd t))" if "calm cmd" for cmd t
    using that assms by (simp add: run_cmd_def sys_eq adds_one)
  then show "adds (host_call (Some net)) t (snd (netns_add_one E net i t))"
    "adds (host_call (Some net)) t (snd (netns_del_one E net i t))"
    using calm(1) assms
    by (auto simp: netns_add_one_def netns_del_one_def snprintf_Some char_defs Let_def
        intro!: adds_trans [OF _ adds_run_fit] split: option.splits)
  show "adds (host_call (Some net)) t (rmdir_node E net i t)"
    using calm(2) assms by (auto simp: rmdir_node_def char_defs intro!: adds_try_fit split: option.splits)
qed

lemma adds_addr_up:
  assumes "sim_net_valid (Some net)"
  shows "adds (host_call (Some net)) t (snd (addr_up_one_ns E net i t))"
proof -
  have calm: "ns_name_net net k i = Some s \<Longrightarrow> calm s" "tun_name_net net k i = Some s \<Longrightarrow> calm s" for k s
    using safe_names [OF assms] calm_safe by blast+
  then show ?thesis using assms
    unfolding addr_up_one_ns_def
    by (auto simp del: list.map run_seq.simps split: option.splits intro!: adds_cmds simp: char_defs)
qed

lemma adds_host_ops:
  shows "adds (host_call np) t (snd (sim_netns_setup_net E np n t))"
    and "adds (host_call np) t (snd (sim_netns_setup_all E np n t))"
    and "adds (host_call np) t (snd (sim_netns_teardown_net E np n t))"
    and "adds (host_call np) t (snd (sim_addrs_up_net E np n t))"
    and "adds (host_call np) t (snd (sim_addrs_up_all E np n t))"
proof -
  show "adds (host_call np) t (snd (sim_netns_setup_net E np n t))"
    "adds (host_call np) t (snd (sim_netns_setup_all E np n t))"
    "adds (host_call np) t (snd (sim_addrs_up_all E np n t))"
    by (auto simp: sim_netns_setup_net_def sim_netns_setup_all_def sim_addrs_up_all_def
        split: option.splits intro!: adds_steps adds_netns adds_addr_up)
  show "adds (host_call np) t (snd (sim_addrs_up_net E np n t))"
  proof (cases np)
    case (Some net)
    have "tun_name_net net k 0 = Some s \<Longrightarrow> sim_net_valid np \<Longrightarrow> calm s" for k s
      using safe_names(3) [of net] Some calm_safe by blast
    then show ?thesis using Some
      by (auto simp: sim_addrs_up_net_def char_defs simp del: run_seq.simps list.map split: option.splits
          intro!: adds_steps adds_run_fit adds_addr_up)
  qed (simp add: sim_addrs_up_net_def)
  show "adds (host_call np) t (snd (sim_netns_teardown_net E np n t))"
  proof (cases "sim_net_valid np")
    case True
    then obtain net where net: "np = Some net" by (auto simp: sim_net_valid_def split: option.splits)
    have "calm (cgroot net)" using True net by (simp add: sim_net_valid_eq field_ok_eq calm_safe)
    moreover have "adds (host_call np) u (snd (run_cmd E ''ip netns del net_namespace_nodeb 2>/dev/null'' u))" for u
      using True by (simp add: run_cmd_def sys_eq adds_one char_defs)
    moreover have "adds (host_call np) t (fold (\<lambda>i t. snd (netns_del_one E net i t)) [0..n - 1] t)"
      using True net adds_netns [of net] by (auto intro: adds_fold)
    ultimately show ?thesis using True net adds_netns [of net]
      by (auto simp: sim_netns_teardown_net_def Let_def char_defs
          intro!: adds_trans [OF _ adds_try_fit] adds_trans [OF _ adds_fold] intro: adds_trans)
  next
    case False
    then show ?thesis by (auto simp: sim_netns_teardown_net_def split: option.splits)
  qed
qed

section \<open>Setup and teardown of namespaces agree\<close>

definition netns_del :: "sim_net \<Rightarrow> int \<Rightarrow> string" where
  "netns_del net i = ''ip netns del '' @ ns_prefix net @ fmt_d i @ '' 2>/dev/null''"

definition netns_add :: "sim_net \<Rightarrow> int \<Rightarrow> string" where
  "netns_add net i = ''ip netns add '' @ ns_prefix net @ fmt_d i"

definition cg_rmdir :: "sim_net \<Rightarrow> string \<Rightarrow> string" where
  "cg_rmdir net sub = ''rmdir '' @ cgroot net @ sub @ '' 2>/dev/null''"

text \<open>The calls made between two traces, oldest first.\<close>

definition made :: "trace \<Rightarrow> trace \<Rightarrow> request list" where
  "made t t' = rev (map fst (take (length t' - length t) t'))"

text \<open>\<open>t'\<close> continues \<open>t\<close> with exactly the calls \<open>rs\<close>.\<close>

definition makes :: "request list \<Rightarrow> trace \<Rightarrow> trace \<Rightarrow> bool" where
  "makes rs t t' = (\<exists>new. t' = new @ t \<and> rev (map fst new) = rs)"

lemma makes_made: "makes rs t t' \<Longrightarrow> made t t' = rs"
  by (auto simp: makes_def made_def)

lemma makes_refl: "makes [] t t"
  by (simp add: makes_def)

lemma makes_trans: "makes rs t u \<Longrightarrow> makes qs u v \<Longrightarrow> makes (rs @ qs) t v"
  by (fastforce simp: makes_def)

lemma makes_run: "makes [System cmd] t (snd (run_cmd E cmd t))"
  by (auto simp: makes_def run_cmd_def sys_eq)

lemma makes_try: "length cmd < cap \<Longrightarrow> makes [System cmd] t (try_fit E cap cmd t)"
  using makes_run by (simp add: try_fit_def snprintf_def)

lemma makes_fold:
  assumes "\<And>x t. x \<in> set xs \<Longrightarrow> makes [g x] t (f x t)"
  shows "makes (map g xs) t (fold f xs t)"
  using assms
proof (induction xs arbitrary: t)
  case (Cons x xs)
  then have "makes ([g x] @ map g xs) t (fold f xs (f x t))" by (intro makes_trans) auto
  then show ?case by simp
qed (simp add: makes_refl)

lemma netns_del_makes:
  assumes "sim_net_valid (Some net)" "0 \<le> i" "i < 100"
  shows "makes [System (netns_del net i)] t (snd (netns_del_one E net i t))"
  using names_fit [OF assms] valid_lengths [OF assms(1)] fmt_d_short [OF assms(2,3)] makes_run
  by (simp add: netns_del_one_def snprintf_def sizes netns_del_def)

lemma rmdir_node_makes:
  assumes "sim_net_valid (Some net)" "0 \<le> i" "i < 100"
  shows "makes [System (cg_rmdir net (''/node'' @ fmt_d i))] t (rmdir_node E net i t)"
proof -
  have "length (cg_rmdir net (''/node'' @ fmt_d i)) < SMALL_CMD"
    using valid_lengths [OF assms(1)] fmt_d_short [OF assms(2,3)] by (simp add: cg_rmdir_def sizes)
  then show ?thesis using names_fit [OF assms] makes_try [of "cg_rmdir net (''/node'' @ fmt_d i)" SMALL_CMD]
    by (simp add: rmdir_node_def cg_rmdir_def)
qed

text \<open>What teardown does once the namespaces of the nodes are deleted.\<close>

lemma teardown_rest:
  assumes "sim_net_valid (Some net)" "n \<le> 100"
  shows "makes ((if is_default_net (Some net) then [System ''ip netns del net_namespace_nodeb 2>/dev/null''] else []) @
      map (\<lambda>i. System (cg_rmdir net (''/node'' @ fmt_d i))) [0..n - 1] @ [System (cg_rmdir net [])])
    (fold (\<lambda>i t. snd (netns_del_one E net i t)) [0..n - 1] t) (snd (sim_netns_teardown_net E (Some net) n t))"
proof -
  have "length (cg_rmdir net []) < SMALL_CMD" using valid_lengths [OF assms(1)] by (simp add: cg_rmdir_def sizes)
  then have root: "makes [System (cg_rmdir net [])] u (try_fit E SMALL_CMD (''rmdir '' @ cgroot net @ '' 2>/dev/null'') u)" for u
    using makes_try [of "cg_rmdir net []" SMALL_CMD] by (simp add: cg_rmdir_def)
  define t1 where "t1 = fold (\<lambda>i t. snd (netns_del_one E net i t)) [0..n - 1] t"
  define t2 where "t2 = (if is_default_net (Some net)
    then snd (run_cmd E ''ip netns del net_namespace_nodeb 2>/dev/null'' t1) else t1)"
  have m2: "makes (if is_default_net (Some net)
      then [System ''ip netns del net_namespace_nodeb 2>/dev/null''] else []) t1 t2"
    unfolding t2_def by (simp only: makes_run makes_refl split: if_split) simp
  have m3: "makes (map (\<lambda>i. System (cg_rmdir net (''/node'' @ fmt_d i))) [0..n - 1]) t2
      (fold (rmdir_node E net) [0..n - 1] t2)"
    using assms(2) by (intro makes_fold rmdir_node_makes [OF assms(1)]) simp_all
  have "snd (sim_netns_teardown_net E (Some net) n t) =
      try_fit E SMALL_CMD (''rmdir '' @ cgroot net @ '' 2>/dev/null'') (fold (rmdir_node E net) [0..n - 1] t2)"
    using assms(1) by (simp add: sim_netns_teardown_net_def Let_def t1_def t2_def del: append.simps)
  then show ?thesis unfolding t1_def [symmetric] by (simp only: makes_trans [OF m2 makes_trans [OF m3 root]])
qed

lemma teardown_makes:
  assumes "sim_net_valid (Some net)" "n \<le> 100"
  shows "makes (map (\<lambda>i. System (netns_del net i)) [0..n - 1] @
      (if is_default_net (Some net) then [System ''ip netns del net_namespace_nodeb 2>/dev/null''] else []) @
      map (\<lambda>i. System (cg_rmdir net (''/node'' @ fmt_d i))) [0..n - 1] @ [System (cg_rmdir net [])])
    t (snd (sim_netns_teardown_net E (Some net) n t))"
  by (rule makes_trans [OF _ teardown_rest [OF assms]], rule makes_fold)
    (use assms(2) in \<open>auto intro: netns_del_makes [OF assms(1)]\<close>)

lemma setup_step_adds:
  assumes "sim_net_valid (Some net)" "0 \<le> i" "i < 100"
  shows "adds (\<lambda>c. fst c \<in> {System (netns_del net i), System (netns_add net i)}) t (snd (netns_add_one E net i t))"
  using names_fit [OF assms] valid_lengths [OF assms(1)] fmt_d_short [OF assms(2,3)]
  by (auto simp: netns_add_one_def snprintf_def sizes netns_del_def netns_add_def Let_def run_cmd_def sys_eq
      intro!: adds_trans [OF adds_one adds_run_fit])

lemma setup_adds:
  assumes "sim_net_valid (Some net)"
  shows "adds (\<lambda>c. \<exists>i \<in> set [0..n - 1]. fst c \<in> {System (netns_del net i), System (netns_add net i)}) t
    (snd (sim_netns_setup_all E (Some net) n t))"
proof (cases "n < 1 \<or> n > int TUN_MAP_MAX")
  case True
  then show ?thesis using assms by (simp add: sim_netns_setup_all_def)
next
  case False
  have "adds (\<lambda>c. \<exists>i \<in> set [0..n - 1]. fst c \<in> {System (netns_del net i), System (netns_add net i)}) u
      (snd (netns_add_one E net i u))" if "i \<in> set [0..n - 1]" for i u
    using that False by (intro adds_mono [OF setup_step_adds [OF assms, of i]]) (auto simp: TUN_MAP_MAX_def)
  with False assms show ?thesis
    by (auto simp: sim_netns_setup_all_def simp del: set_upto intro!: adds_steps)
qed

section \<open>Descriptors\<close>

lemma live_fds_sys: "sys E r t = (a, u) \<Longrightarrow> live_fds u = fds_after (r, a) (live_fds t)"
  by (auto simp: sys_eq)

lemma live_fds_call [simp]: "live_fds (call E (Close fd) t) = live_fds t - {fd}"
  "live_fds (call E (Cloexec fd) t) = live_fds t"
  by (simp_all add: call_eq)

lemma fresh_open: "kernel E \<Longrightarrow> sys E (Open_file p) t = (a, u) \<Longrightarrow> a \<notin> live_fds t"
  using kernel_fresh(1) by (auto simp: sys_eq)

lemma cloexec_fds [simp]: "live_fds (cloexec_fd E fd t) = live_fds t"
  by (simp add: cloexec_fd_def sys_eq split: prod.splits)

lemma open_tun_file_fds:
  assumes "kernel E" "open_tun_file E (Some name) (Some fd) t = (ok, fdp, t')"
  shows "(ok \<and> (\<exists>v \<ge> 0. fdp = Some v \<and> v \<notin> live_fds t \<and> live_fds t' = insert v (live_fds t))) \<or>
         (\<not> ok \<and> fdp = Some fd \<and> live_fds t' = live_fds t)"
proof -
  obtain fdi u where o: "sys E (Open_file ''/dev/net/tun'') t = (fdi, u)" by (cases "sys E (Open_file ''/dev/net/tun'') t")
  let ?r = "Tunsetiff fdi (take (min (IFNAMSIZ - 1) (length name)) name)"
  obtain a v where s: "sys E ?r u = (a, v)" by (cases "sys E ?r u")
  have "live_fds v = live_fds u" using live_fds_sys [OF s] by simp
  then show ?thesis
    using assms(2) live_fds_sys [OF o] fresh_open [OF assms(1) o] s
    by (auto simp: open_tun_file_def o Let_def split: if_splits)
qed

lemma open_in_ns_fds:
  assumes "kernel E" "open_in_ns E ns ifname fd t = (r, fd', t')"
  shows "(r = 0 \<and> fd' \<ge> 0 \<and> fd' \<notin> live_fds t \<and> live_fds t' = insert fd' (live_fds t)) \<or>
         (r = -1 \<and> live_fds t' = live_fds t)"
proof -
  obtain o1 t1 where s1: "sys E (Open_file ''/proc/self/ns/net'') t = (o1, t1)"
    by (cases "sys E (Open_file ''/proc/self/ns/net'') t")
  obtain o2 t2 where s2: "sys E (Open_file ns) t1 = (o2, t2)" by (cases "sys E (Open_file ns) t1")
  obtain a3 t3 where s3: "sys E (Setns o2) t2 = (a3, t3)" by (cases "sys E (Setns o2) t2")
  obtain ok fdp t4 where tun: "open_tun_file E (Some ifname) (Some fd) t3 = (ok, fdp, t4)"
    by (cases "open_tun_file E (Some ifname) (Some fd) t3") auto
  obtain a5 t5 where s5: "sys E (Setns o1) t4 = (a5, t5)" by (cases "sys E (Setns o1) t4")
  have live: "live_fds t1 = (if o1 < 0 then live_fds t else insert o1 (live_fds t))"
    "live_fds t2 = (if o2 < 0 then live_fds t1 else insert o2 (live_fds t1))"
    "live_fds t3 = live_fds t2" "live_fds t5 = live_fds t4" "o1 \<notin> live_fds t" "o2 \<notin> live_fds t1"
    using live_fds_sys [OF s1] live_fds_sys [OF s2] live_fds_sys [OF s3] live_fds_sys [OF s5]
      fresh_open [OF assms(1) s1] fresh_open [OF assms(1) s2] by simp_all
  consider "o1 < 0 \<or> o2 < 0" | "0 \<le> o1" "0 \<le> o2" "a3 \<noteq> 0" | "0 \<le> o1" "0 \<le> o2" "a3 = 0" by linarith
  then show ?thesis
  proof cases
    case 1
    then show ?thesis using assms(2) live(1,2,5,6) by (auto simp: open_in_ns_def s1 s2 Let_def split: if_splits)
  next
    case 2
    then show ?thesis using assms(2) live(1-3,5,6) by (auto simp: open_in_ns_def s1 s2 s3 Let_def)
  next
    case 3
    then show ?thesis
    proof (cases ok)
      case True
      with 3 show ?thesis
        using assms(2) live open_tun_file_fds [OF assms(1) tun]
        by (auto simp: open_in_ns_def s1 s2 s3 tun s5 Let_def split: if_splits)
    next
      case False
      with 3 show ?thesis
        using assms(2) live open_tun_file_fds [OF assms(1) tun]
        by (auto simp: open_in_ns_def s1 s2 s3 tun s5 Let_def)
    qed
  qed
qed

text \<open>The descriptors the array holds, and that a run of steps keeps track of them.\<close>

definition held_fds :: "nat \<Rightarrow> int list \<Rightarrow> int set" where
  "held_fds n fds = {fd \<in> set (take n fds). fd \<ge> 0}"

lemma tun_open_one_ns_fds:
  assumes "kernel E" "tun_open_one_ns E net i (fds, t) = (ok, fds', t')"
    and "0 \<le> i" "nat i < length fds" "fds ! nat i = -1"
  shows "(ok \<and> (\<exists>v \<ge> 0. fds' = fds[nat i := v] \<and> v \<notin> live_fds t \<and> live_fds t' = insert v (live_fds t))) \<or>
         (\<not> ok \<and> fds' = fds \<and> live_fds t' = live_fds t)"
proof (cases "tun_name_net net NAME_LEN i = None \<or> ns_path_net net PATH_LEN i = None")
  case True
  with assms(2) show ?thesis by (auto simp: tun_open_one_ns_def split: option.splits)
next
  case False
  then obtain tun path where names: "tun_name_net net NAME_LEN i = Some tun" "ns_path_net net PATH_LEN i = Some path"
    by auto
  obtain r fd u where o: "open_in_ns E path tun (-1) t = (r, fd, u)"
    by (cases "open_in_ns E path tun (-1) t") auto
  have same: "fds[nat i := -1] = fds" using assms(4,5) by (simp add: list_update_same_conv)
  have res: "tun_open_one_ns E net i (fds, t) =
      (if r \<noteq> 0 then (False, fds[nat i := -1], u) else (True, fds[nat i := fd], cloexec_fd E fd u))"
    using assms(5) by (simp add: tun_open_one_ns_def names o)
  consider "r = 0" "fd \<ge> 0" "fd \<notin> live_fds t" "live_fds u = insert fd (live_fds t)" | "r \<noteq> 0" "live_fds u = live_fds t"
    using open_in_ns_fds [OF assms(1) o] by auto
  then show ?thesis
  proof cases
    case 1
    with assms(2) res show ?thesis by auto
  next
    case 2
    with assms(2) res same show ?thesis by simp
  qed
qed

lemma held_fds_update:
  assumes "k < n" "k < length fds" "fds ! k = -1" "v \<ge> 0"
  shows "held_fds n (fds[k := v]) = insert v (held_fds n fds)"
proof -
  have "set ((take n fds)[k := v]) = insert v (set (take k fds) \<union> set (drop (Suc k) (take n fds)))"
    using assms(1,2) by (simp add: upd_conv_take_nth_drop min_def)
  moreover have "take n fds = take k fds @ (- 1) # drop (Suc k) (take n fds)"
    using assms(1-3) id_take_nth_drop [of k "take n fds"] by (simp add: min_def)
  then have "set (take n fds) = insert (- 1) (set (take k fds) \<union> set (drop (Suc k) (take n fds)))"
    by (metis Un_insert_right list.simps(15) set_append)
  ultimately show ?thesis using assms(4) by (auto simp: held_fds_def take_update_swap)
qed

text \<open>
  The open descriptors are those of \<open>base\<close> and, besides, those of the first \<open>n\<close> entries of the
  array, no two of which are the same.
\<close>

definition opened :: "int set \<Rightarrow> nat \<Rightarrow> int list \<Rightarrow> trace \<Rightarrow> bool" where
  "opened base n fds t \<longleftrightarrow>
     n \<le> length fds \<and> live_fds t = base \<union> held_fds n fds \<and> held_fds n fds \<inter> base = {} \<and>
     (\<forall>j < n. \<forall>k < n. fds ! j \<ge> 0 \<and> fds ! j = fds ! k \<longrightarrow> j = k)"

lemma held_fds_iff: "n \<le> length fds \<Longrightarrow> v \<in> held_fds n fds \<longleftrightarrow> v \<ge> 0 \<and> (\<exists>k < n. fds ! k = v)"
  by (auto simp: held_fds_def in_set_conv_nth)

lemma opened_preset: "n \<le> length fds \<Longrightarrow> opened (live_fds t) n (preset n fds) t"
  by (auto simp: opened_def preset_def held_fds_def nth_append)

lemma opened_add:
  assumes "opened base n fds t" "k < n" "fds ! k = -1" "v \<ge> 0" "v \<notin> live_fds t" "live_fds t' = insert v (live_fds t)"
  shows "opened base n (fds[k := v]) t'"
proof -
  have len: "n \<le> length fds" and live: "live_fds t = base \<union> held_fds n fds" using assms(1) by (simp_all add: opened_def)
  then have new: "held_fds n (fds[k := v]) = insert v (held_fds n fds)" using assms(2-4) by (intro held_fds_update) simp_all
  have "fds ! j \<noteq> v" if "j < n" for j using assms(4,5) live that held_fds_iff [OF len] by blast
  then show ?thesis using assms new len live by (auto simp: opened_def nth_list_update)
qed

lemma opened_close:
  assumes "opened base n fds t" "k < n" and that: "fds ! k \<ge> 0"
  shows "opened base n (fds[k := -1]) (call E (Close (fds ! k)) t)"
proof -
  have len: "n \<le> length fds" using assms(1) by (simp add: opened_def)
  then have len': "n \<le> length (fds[k := -1])" by simp
  have "held_fds n (fds[k := -1]) = held_fds n fds - {fds ! k}"
    using assms that len by (auto simp: held_fds_iff [OF len] held_fds_iff [OF len'] opened_def nth_list_update split: if_splits)
  moreover have "fds ! k \<in> held_fds n fds" using assms(2) that held_fds_iff [OF len] by blast
  ultimately show ?thesis using assms len by (auto simp: opened_def nth_list_update split: if_splits)
qed

lemma tuns_open_fds:
  assumes "kernel E" "run_seq (map (tun_open_one_ns E net) [i..n - 1]) (fds, t) = (ok, fds', t')"
    and "0 \<le> i" "i \<le> n" "\<forall>k \<ge> nat i. k < nat n \<longrightarrow> fds ! k = -1" "opened base (nat n) fds t"
  shows "opened base (nat n) fds' t' \<and> length fds' = length fds \<and>
         (ok \<longrightarrow> (\<forall>k \<ge> nat i. k < nat n \<longrightarrow> fds' ! k \<ge> 0) \<and> (\<forall>k < nat i. fds' ! k = fds ! k))"
  using assms(2-)
proof (induction "nat (n - i)" arbitrary: i fds t)
  case 0
  then have "i = n" by simp
  then have "[i..n - 1] = []" by simp
  with 0 \<open>i = n\<close> show ?case by auto
next
  case (Suc m)
  then have i: "i < n" by simp
  then have upto: "[i..n - 1] = i # [i + 1..n - 1]" by (simp add: upto_rec1)
  obtain b fds1 t1 where step: "tun_open_one_ns E net i (fds, t) = (b, fds1, t1)"
    by (cases "tun_open_one_ns E net i (fds, t)") auto
  have at: "nat i < length fds" "nat i < nat n" "fds ! nat i = -1"
    using Suc.prems i by (auto simp: opened_def)
  consider "b" "\<exists>v \<ge> 0. fds1 = fds[nat i := v] \<and> v \<notin> live_fds t \<and> live_fds t1 = insert v (live_fds t)"
    | "\<not> b" "fds1 = fds" "live_fds t1 = live_fds t"
    using tun_open_one_ns_fds [OF assms(1) step] Suc.prems(2) at by auto
  then show ?case
  proof cases
    case 1
    then obtain v where v: "v \<ge> 0" "fds1 = fds[nat i := v]" "v \<notin> live_fds t" "live_fds t1 = insert v (live_fds t)" by auto
    have suc: "nat (i + 1) = Suc (nat i)" using Suc.prems(2) by simp
    have "opened base (nat n) fds1 t1" using opened_add [OF Suc.prems(5) at(2,3) v(1,3,4)] v(2) by simp
    moreover have "\<forall>k \<ge> nat (i + 1). k < nat n \<longrightarrow> fds1 ! k = -1"
      using Suc.prems(4) v(2) suc by simp
    moreover have "run_seq (map (tun_open_one_ns E net) [i + 1..n - 1]) (fds1, t1) = (ok, fds', t')"
      using Suc.prems(1) upto step 1(1) by simp
    ultimately have IH: "opened base (nat n) fds' t' \<and> length fds' = length fds1 \<and>
        (ok \<longrightarrow> (\<forall>k \<ge> nat (i + 1). k < nat n \<longrightarrow> fds' ! k \<ge> 0) \<and> (\<forall>k < nat (i + 1). fds' ! k = fds1 ! k))"
      using Suc.hyps(2) Suc.prems(2) i by (intro Suc.hyps(1)) simp_all
    have "fds' ! k \<ge> 0" if "ok" "nat i \<le> k" "k < nat n" for k
      using IH that v at suc by (cases "k = nat i") auto
    then show ?thesis using IH v at suc by auto
  next
    case 2
    with Suc.prems upto step show ?thesis by (auto simp: opened_def)
  qed
qed

text \<open>Both ways of opening all devices, from an array of which only the length matters.\<close>

lemma sim_tuns_open_all_fds:
  assumes "kernel E" "nat n \<le> length fds"
    and "sim_tuns_open_all E (Some net) (Some fds) n t = (ok, fdsp', t')"
  shows "if sim_net_valid (Some net) \<and> 1 \<le> n \<and> n \<le> int TUN_MAP_MAX
    then \<exists>fds'. fdsp' = Some fds' \<and> opened (live_fds t) (nat n) fds' t' \<and> length fds' = length fds \<and>
           (ok \<longrightarrow> (\<forall>k < nat n. fds' ! k \<ge> 0))
    else \<not> ok \<and> fdsp' = Some fds \<and> t' = t"
proof (cases "sim_net_valid (Some net) \<and> 1 \<le> n \<and> n \<le> int TUN_MAP_MAX")
  case True
  let ?fds = "preset (nat n) fds"
  obtain fds' where s: "run_seq (map (tun_open_one_ns E net) [0..n - 1]) (?fds, t) = (ok, fds', t')" "fdsp' = Some fds'"
    using assms(3) True by (auto simp: sim_tuns_open_all_def split: prod.splits)
  have "length ?fds = length fds" "\<forall>k < nat n. ?fds ! k = -1" using assms(2) by (simp_all add: preset_def nth_append)
  with tuns_open_fds [OF assms(1) s(1) _ _ _ opened_preset [OF assms(2)]] True s(2) show ?thesis by auto
next
  case False
  then show ?thesis using assms(3) by (auto simp: sim_tuns_open_all_def not_le split: if_splits)
qed

lemma sim_tuns_open_net_fds:
  assumes "kernel E" "nat n \<le> length fds"
    and "sim_tuns_open_net E (Some net) (Some fds) n t = (ok, fdsp', t')"
  shows "if sim_net_valid (Some net) \<and> 1 \<le> n \<and> n \<le> int TUN_MAP_MAX
    then \<exists>fds'. fdsp' = Some fds' \<and> opened (live_fds t) (nat n) fds' t' \<and> length fds' = length fds \<and>
           (ok \<longrightarrow> (\<forall>k < nat n. fds' ! k \<ge> 0))
    else \<not> ok \<and> fdsp' = Some fds \<and> t' = t"
proof (cases "sim_net_valid (Some net) \<and> 1 \<le> n \<and> n \<le> int TUN_MAP_MAX")
  case True
  let ?fds = "preset (nat n) fds"
  note pre = opened_preset [OF assms(2), of t]
  have len: "length ?fds = length fds" and neg: "\<forall>k < nat n. ?fds ! k = -1"
    using assms(2) by (simp_all add: preset_def nth_append)
  have n: "0 < nat n" "0 < length ?fds" using True len assms(2) by linarith+
  show ?thesis
  proof (cases "tun_name_net net NAME_LEN 0")
    case None
    then show ?thesis using assms(3) True pre len by (auto simp: sim_tuns_open_net_def Let_def)
  next
    case (Some tun)
    obtain ok1 p1 t1 where o: "open_tun_file E (Some tun) (Some (?fds ! 0)) t = (ok1, p1, t1)"
      by (cases "open_tun_file E (Some tun) (Some (?fds ! 0)) t") auto
    from open_tun_file_fds [OF assms(1) o] consider v where "ok1" "p1 = Some v" "v \<ge> 0" "v \<notin> live_fds t"
        "live_fds t1 = insert v (live_fds t)" | "\<not> ok1" "p1 = Some (?fds ! 0)" "live_fds t1 = live_fds t"
      by auto
    then show ?thesis
    proof cases
      case (1 v)
      let ?t1 = "cloexec_fd E v t1"
      have "opened (live_fds t) (nat n) (?fds[0 := v]) ?t1"
        using opened_add [OF pre n(1), of v ?t1] neg n 1 by simp
      moreover obtain fds' where s: "run_seq (map (tun_open_one_ns E net) [1..n - 1]) (?fds[0 := v], ?t1) = (ok, fds', t')"
        "fdsp' = Some fds'"
        using assms(3) True Some o 1 by (auto simp: sim_tuns_open_net_def Let_def split: prod.splits)
      ultimately have "opened (live_fds t) (nat n) fds' t' \<and> length fds' = length fds \<and>
          (ok \<longrightarrow> (\<forall>k \<ge> 1. k < nat n \<longrightarrow> fds' ! k \<ge> 0) \<and> fds' ! 0 = v)"
        using tuns_open_fds [OF assms(1) s(1), of "live_fds t"] True neg len n by auto
      moreover from this have "fds' ! k \<ge> 0" if ok "k < nat n" for k
        using that 1(3) by (cases "k = 0") auto
      ultimately show ?thesis using s(2) True by auto
    next
      case 2
      then have res: "fdsp' = Some (?fds[0 := -1])" "\<not> ok" "t' = t1"
        using assms(3) True Some o by (auto simp: sim_tuns_open_net_def Let_def)
      have "?fds[0 := -1] = ?fds" using neg n by (simp add: list_update_same_conv len)
      moreover have "opened (live_fds t) (nat n) ?fds t'" using pre 2(3) res(3) by (simp add: opened_def)
      ultimately show ?thesis using res(1,2) True len by auto
    qed
  qed
next
  case False
  then show ?thesis using assms(3) by (auto simp: sim_tuns_open_net_def not_le split: if_splits)
qed

text \<open>
  The group in which the daemon of a node runs, a directory below the node's own, is not among
  what the teardown removes, so the removal of the node's directory fails once a daemon ran.
\<close>

lemma teardown_keeps_daemon:
  assumes "sim_net_valid (Some net)" "n \<le> 100"
  shows "System (cg_rmdir net (''/node'' @ fmt_d i @ ''/daemon'')) \<notin> set (made t (snd (sim_netns_teardown_net E (Some net) n t)))"
proof -
  have "fmt_d i @ ''/daemon'' \<noteq> fmt_d j" if "0 \<le> j" "j \<le> n - 1" for j
    using fmt_d_short [of j] that assms(2) by (auto dest: sym)
  then show ?thesis
    unfolding makes_made [OF teardown_makes [OF assms, of t E]]
    by (auto simp: cg_rmdir_def netns_del_def)
qed

section \<open>Namespaces that exist\<close>

text \<open>
  Whether the namespace of node \<open>i\<close> exists after the calls of a trace: the last command about it
  that succeeded added it.
\<close>

primrec ns_up :: "sim_net \<Rightarrow> int \<Rightarrow> trace \<Rightarrow> bool" where
  "ns_up net i [] = False"
| "ns_up net i (c # t) =
     (if c = (System (netns_add net i), 0) then True
      else if c = (System (netns_del net i), 0) then False
      else ns_up net i t)"

text \<open>A host on which the deletion of a namespace that exists succeeds.\<close>

definition deletes :: "sim_net \<Rightarrow> os \<Rightarrow> bool" where
  "deletes net E = (\<forall>t i. ns_up net i t \<longrightarrow> E t (System (netns_del net i)) = 0)"

text \<open>The calls about the namespace of node \<open>i\<close>.\<close>

definition about :: "sim_net \<Rightarrow> int \<Rightarrow> request \<Rightarrow> bool" where
  "about net i r = (r = System (netns_add net i) \<or> r = System (netns_del net i))"

lemma ns_up_other:
  assumes "adds (\<lambda>c. \<not> about net i (fst c)) t t'"
  shows "ns_up net i t' = ns_up net i t"
proof -
  obtain new where new: "t' = new @ t" "\<forall>c \<in> set new. \<not> about net i (fst c)" using assms by (auto simp: adds_def)
  have "ns_up net i (new @ t) = ns_up net i t" using new(2) by (induction new) (auto simp: about_def)
  with new(1) show ?thesis by simp
qed

lemma netns_cmds:
  "0 \<le> i \<Longrightarrow> 0 \<le> j \<Longrightarrow> netns_del net i = netns_del net j \<longleftrightarrow> i = j"
  "0 \<le> i \<Longrightarrow> 0 \<le> j \<Longrightarrow> netns_add net i = netns_add net j \<longleftrightarrow> i = j"
  "netns_del net i \<noteq> netns_add net j" "netns_add net j \<noteq> netns_del net i"
  by (auto simp: netns_del_def netns_add_def dest: fmt_d_inj)

lemma makes_adds: "makes rs t t' \<Longrightarrow> (\<And>r. r \<in> set rs \<Longrightarrow> P r) \<Longrightarrow> adds (\<lambda>c. P (fst c)) t t'"
  by (auto simp: makes_def adds_def)

text \<open>Setup.\<close>

lemma setup_step_up:
  assumes "netns_add_one E net i t = (True, t')" "sim_net_valid (Some net)" "0 \<le> i" "i < 100"
  shows "ns_up net i t'"
  using assms(1) names_fit [OF assms(2-4)]
  by (auto simp: netns_add_one_def run_fit_def snprintf_def run_cmd_def sys_eq Let_def netns_add_def
      split: if_splits option.splits)

lemma setup_step_other:
  assumes "sim_net_valid (Some net)" "0 \<le> i" "i < 100" "0 \<le> j" "j \<noteq> i"
  shows "ns_up net j (snd (netns_add_one E net i t)) = ns_up net j t"
  by (rule ns_up_other, rule adds_mono [OF setup_step_adds [OF assms(1-3)]])
    (use assms(3-5) in \<open>auto simp: about_def netns_cmds assms(2)\<close>)

lemma setup_seq:
  assumes "sim_net_valid (Some net)" "distinct xs" "\<forall>i \<in> set xs. 0 \<le> i \<and> i < 100"
    and "run_seq (map (netns_add_one E net) xs) t = (ok, t')"
  shows "(ok \<longrightarrow> (\<forall>i \<in> set xs. ns_up net i t')) \<and> (\<forall>j. 0 \<le> j \<and> j \<notin> set xs \<longrightarrow> ns_up net j t' = ns_up net j t)"
  using assms(2-)
proof (induction xs arbitrary: t)
  case (Cons i xs)
  obtain b u where s: "netns_add_one E net i t = (b, u)" by (cases "netns_add_one E net i t")
  have other: "ns_up net j u = ns_up net j t" if "0 \<le> j" "j \<noteq> i" for j
    using setup_step_other [OF assms(1) _ _ that, of E t] Cons.prems(2) s by simp
  show ?case
  proof (cases b)
    case True
    with s Cons.prems(3) have r: "run_seq (map (netns_add_one E net) xs) u = (ok, t')" by simp
    have "ns_up net i u" using setup_step_up [of E net i t u] s True assms(1) Cons.prems(2) by simp
    with Cons.IH [OF _ _ r] Cons.prems(1,2) other show ?thesis by auto
  next
    case False
    with s Cons.prems(3) have "\<not> ok" "t' = u" by auto
    with other show ?thesis by auto
  qed
qed simp

lemma setup_up:
  assumes "sim_net_valid (Some net)" "n \<le> 100" "ok" "sim_netns_setup_all E (Some net) n t = (ok, t1)"
  shows "\<forall>i. 0 \<le> i \<and> i < n \<longrightarrow> ns_up net i t1"
  using setup_seq [OF assms(1), of "[0..n - 1]" E t ok t1] assms by (auto simp: sim_netns_setup_all_def split: if_splits)

lemma setup_frame:
  assumes "sim_net_valid (Some net)" "sim_netns_setup_all E (Some net) n t = (ok, t1)"
  shows "\<forall>i. 0 \<le> i \<and> n \<le> i \<longrightarrow> ns_up net i t1 = ns_up net i t"
  using setup_seq [OF assms(1), of "[0..n - 1]" E t ok t1] assms by (auto simp: sim_netns_setup_all_def TUN_MAP_MAX_def split: if_splits)

text \<open>Teardown.\<close>

lemma del_one_down:
  assumes "sim_net_valid (Some net)" "0 \<le> i" "i < 100" "deletes net E"
  shows "\<not> ns_up net i (snd (netns_del_one E net i t))"
proof -
  have "snd (netns_del_one E net i t) = (System (netns_del net i), E t (System (netns_del net i))) # t"
    using names_fit [OF assms(1-3)] valid_lengths [OF assms(1)] fmt_d_short [OF assms(2,3)]
    by (simp add: netns_del_one_def snprintf_def sizes netns_del_def run_cmd_def sys_eq)
  then show ?thesis using assms(4) by (auto simp: netns_cmds deletes_def)
qed

lemma del_one_stays:
  assumes "sim_net_valid (Some net)" "0 \<le> i" "i < 100" "\<not> ns_up net j t"
  shows "\<not> ns_up net j (snd (netns_del_one E net i t))"
proof -
  have "snd (netns_del_one E net i t) = (System (netns_del net i), E t (System (netns_del net i))) # t"
    using names_fit [OF assms(1-3)] valid_lengths [OF assms(1)] fmt_d_short [OF assms(2,3)]
    by (simp add: netns_del_one_def snprintf_def sizes netns_del_def run_cmd_def sys_eq)
  then show ?thesis using assms(4) by (simp add: netns_cmds)
qed

lemma del_all_down:
  assumes "sim_net_valid (Some net)" "deletes net E"
  shows "\<forall>i \<in> set xs. 0 \<le> i \<and> i < 100 \<Longrightarrow> j \<in> set xs \<or> \<not> ns_up net j t \<Longrightarrow>
    \<not> ns_up net j (fold (\<lambda>i t. snd (netns_del_one E net i t)) xs t)"
proof (induction xs arbitrary: t)
  case (Cons i xs)
  then show ?case
    using del_one_down [OF assms(1) _ _ assms(2), of i t] del_one_stays [OF assms(1), of i j t E] by (cases "i = j") auto
qed simp

lemma teardown_down:
  assumes "sim_net_valid (Some net)" "n \<le> 100" "deletes net E"
  shows "\<forall>i. 0 \<le> i \<and> i < n \<longrightarrow> \<not> ns_up net i (snd (sim_netns_teardown_net E (Some net) n t))"
proof (intro allI impI)
  fix i assume i: "0 \<le> i \<and> i < n"
  let ?t1 = "fold (\<lambda>i t. snd (netns_del_one E net i t)) [0..n - 1] t"
  have "\<not> ns_up net i ?t1" by (rule del_all_down [OF assms(1,3)]) (use i assms(2) in auto)
  moreover have "adds (\<lambda>c. \<not> about net i (fst c)) ?t1 (snd (sim_netns_teardown_net E (Some net) n t))"
    by (rule makes_adds [OF teardown_rest [OF assms(1,2)]])
      (auto simp: about_def netns_add_def netns_del_def cg_rmdir_def is_default_net_def sim_default_net_def split: if_splits)
  ultimately show "\<not> ns_up net i (snd (sim_netns_teardown_net E (Some net) n t))" using ns_up_other by blast
qed

lemma teardown_frame:
  assumes "sim_net_valid (Some net)" "n \<le> 100" "0 \<le> i" "n \<le> i"
  shows "ns_up net i (snd (sim_netns_teardown_net E (Some net) n t)) = ns_up net i t"
  by (rule ns_up_other, rule makes_adds [OF teardown_makes [OF assms(1,2)]])
    (use assms(3,4) in \<open>auto simp: about_def netns_cmds netns_add_def cg_rmdir_def is_default_net_def
      sim_default_net_def split: if_splits, auto simp: netns_del_def dest: fmt_d_inj\<close>)

section \<open>Properties\<close>

text \<open>
  C24. For every net, valid or not, and every number of nodes, whatever the host answers, the
  operations that set up and tear down namespaces and addresses run shell commands only when
  the net is valid, and every command they run consists of letters, digits, the marks of a
  path, spaces and the redirection sign: no byte of the net's fields can end a command, start
  another one or be expanded.
\<close>

theorem host_commands_calm:
  "adds (host_call np) t (snd (sim_netns_setup_net E np n t)) \<and>
   adds (host_call np) t (snd (sim_netns_setup_all E np n t)) \<and>
   adds (host_call np) t (snd (sim_addrs_up_net E np n t)) \<and>
   adds (host_call np) t (snd (sim_addrs_up_all E np n t)) \<and>
   adds (host_call np) t (snd (sim_netns_teardown_net E np n t))"
  by (simp add: adds_host_ops)

text \<open>
  C25. Teardown undoes what setup did to the namespaces, on a valid net of at most a hundred nodes
  and a host on which the deletion of a namespace that exists succeeds. Setup, when it succeeds,
  leaves a namespace for each of the nodes; teardown after it, even after a setup cut short, leaves
  none of them, and the two together touch no other namespace of the net. The teardown consists of
  exactly these deletions, the one of an old name when the net is the default one, and the attempt
  to remove the (empty) directory of every node's control group and then their root.
\<close>

theorem teardown_undoes_setup:
  assumes "sim_net_valid (Some net)" "0 \<le> n" "n \<le> int TUN_MAP_MAX"
    and "deletes net E"
    and "sim_netns_setup_all E (Some net) n t = (ok, t1)"
    and "t2 = snd (sim_netns_teardown_net E (Some net) n t1)"
  shows "(ok \<longrightarrow> (\<forall>i. 0 \<le> i \<and> i < n \<longrightarrow> ns_up net i t1)) \<and>
    (\<forall>i. 0 \<le> i \<longrightarrow> ns_up net i t2 = (ns_up net i t \<and> n \<le> i)) \<and>
    made t1 t2 = map (\<lambda>i. System (netns_del net i)) [0..n - 1] @
      (if is_default_net (Some net) then [System ''ip netns del net_namespace_nodeb 2>/dev/null''] else []) @
      map (\<lambda>i. System (cg_rmdir net (''/node'' @ fmt_d i))) [0..n - 1] @ [System (cg_rmdir net [])]"
proof -
  have n: "n \<le> 100" using assms(3) by (simp add: TUN_MAP_MAX_def)
  have up: "ns_up net i t1" if "ok" "0 \<le> i" "i < n" for i
    using setup_up [OF assms(1) n _ assms(5)] that by simp
  have frame1: "ns_up net i t1 = ns_up net i t" if "n \<le> i" "0 \<le> i" for i
    using setup_frame [OF assms(1,5)] that by blast
  note down = teardown_down [OF assms(1) n assms(4), of t1, folded assms(6)]
  have frame2: "ns_up net i t2 = ns_up net i t1" if "n \<le> i" "0 \<le> i" for i
    using teardown_frame [OF assms(1) n, of i E t1, folded assms(6)] that by blast
  have "ns_up net i t2 = (ns_up net i t \<and> n \<le> i)" if "0 \<le> i" for i
    using that down frame1 frame2 by (cases "n \<le> i") auto
  moreover note makes_made [OF teardown_makes [OF assms(1) n, of t1 E], folded assms(6)]
  ultimately show ?thesis using up by blast
qed

theorem teardown_undoes_setup_witness:
  "\<exists>t1. sim_netns_setup_all (\<lambda>t r. 0) (Some (run_net 7)) 2 [] = (True, t1) \<and>
     ns_up (run_net 7) 0 t1 \<and> ns_up (run_net 7) 1 t1 \<and>
     (\<forall>i. 0 \<le> i \<longrightarrow> \<not> ns_up (run_net 7) i (snd (sim_netns_teardown_net (\<lambda>t r. 0) (Some (run_net 7)) 2 t1)))"
proof -
  have v: "sim_net_valid (Some (run_net 7))" by (rule run_net_valid) (simp_all add: RUN_ID_MAX_def)
  obtain ok t1 where s: "sim_netns_setup_all (\<lambda>t r. 0) (Some (run_net 7)) 2 [] = (ok, t1)"
    by (cases "sim_netns_setup_all (\<lambda>t r. 0) (Some (run_net 7)) 2 []")
  have "ok"
    using s v names_fit [OF v, of 0] names_fit [OF v, of 1] valid_lengths [OF v] fmt_d_short [of 0] fmt_d_short [of 1]
    by (simp add: sim_netns_setup_all_def TUN_MAP_MAX_def upto.simps netns_add_one_def run_fit_def
        snprintf_def sizes run_cmd_def sys_eq split: if_splits)
  with teardown_undoes_setup [OF v, of 2 "\<lambda>t r. 0" "[]" ok t1] s show ?thesis
    by (auto simp: TUN_MAP_MAX_def deletes_def)
qed

text \<open>
  Opening the TUN devices of a run leaks no descriptor, whichever call fails: afterwards the
  process has open what it had before and what the array holds, and on success the array holds
  a descriptor for every node.
\<close>

theorem tuns_open_no_leak:
  assumes "kernel E" "sim_net_valid (Some net)" "1 \<le> n" "n \<le> int TUN_MAP_MAX" "nat n \<le> length fds"
    and "sim_tuns_open_all E (Some net) (Some fds) n t = (ok, Some fds', t')"
  shows "live_fds t' = live_fds t \<union> held_fds (nat n) fds' \<and> (ok \<longrightarrow> (\<forall>k < nat n. fds' ! k \<ge> 0))"
  using sim_tuns_open_all_fds [OF assms(1,5,6)] assms(2-4) by (auto simp: opened_def)

theorem tuns_open_no_leak_witness:
  "(case sim_tuns_open_all calm_os (Some (run_net 7)) (Some [5, 5]) 2 [] of
      (ok, fds, t) \<Rightarrow> ok \<and> fds = Some [3, 6] \<and> live_fds t = {3, 6})"
proof -
  have v: "sim_net_valid (Some (run_net 7))" by (rule run_net_valid) (simp_all add: RUN_ID_MAX_def)
  obtain t where o: "sim_tuns_open_all calm_os (Some (run_net 7)) (Some [5, 5]) 2 [] = (True, Some [3, 6], t)"
    using v names_fit(2,3) [OF v, of 0] names_fit(2,3) [OF v, of 1]
    by (simp add: sim_tuns_open_all_def preset_def TUN_MAP_MAX_def upto_rec1 tun_open_one_ns_def open_in_ns_def
        open_tun_file_def cloexec_fd_def sys_eq call_eq calm_os_def Let_def numeral_2_eq_2)
  from tuns_open_no_leak [OF kernel_calm v _ _ _ this] show ?thesis
    using o by (auto simp: TUN_MAP_MAX_def held_fds_def)
qed

end
