(* ===== verification/Sim_Nodes.thy ===== *)
theory Sim_Nodes
  imports Sim_Host
begin

text \<open>
  The simulated nodes of a run, \<open>sim_nodes_add_net\<close> of \<open>sim/sim.c\<close> on the default world of
  \<open>context_init\<close>: which nodes and TUN slots it registers, and which nodes then hear each other.
\<close>

section \<open>What is registered\<close>

definition run_node :: "u64 \<Rightarrow> int \<Rightarrow> node" where
  "run_node base i =
     \<lparr>nid = base + of_int i, x_nm = of_int (i * 1000000000), y_nm = 0,
      vx_nm_per_ns = 0, vy_nm_per_ns = 0\<rparr>"

definition run_slot :: "u64 \<Rightarrow> sim_net \<Rightarrow> int list \<Rightarrow> int \<Rightarrow> tun_slot" where
  "run_slot base net fds i =
     \<lparr>s_fd = fds ! nat i,
      s_ip = [fst (under net), fst (snd (under net)), snd (snd (under net)), of_int (i + 1)],
      s_node_id = base + of_int i\<rparr>"

lemma node_add_True:
  assumes "node_add alloc net fds i (ctx, m) = (True, ctx', m')"
  obtains l where
    "nodelist_push alloc (Some (node_tab ctx)) (run_node (next_node_id ctx - of_int i) i) = (True, Some l)"
    "ctx' = ctx\<lparr>node_tab := l, next_node_id := next_node_id ctx + 1\<rparr>"
    "m' = m\<lparr>slots := slots m @ [run_slot (next_node_id ctx - of_int i) net fds i]\<rparr>"
    "fds ! nat i \<ge> 0"
proof -
  obtain ok cp outp where add: "context_add_node alloc (Some ctx) (of_int (i * 1000000000)) 0 0 0 (Some 0) = (ok, Some cp, outp)"
    using context_add_node_live by blast
  with assms have ok: "ok" by (auto simp: node_add_def Let_def split: bool.splits option.splits)
  with add have "context_add_node alloc (Some ctx) (of_int (i * 1000000000)) 0 0 0 (Some 0) = (True, Some cp, outp)" by simp
  then obtain l where l: "nodelist_push alloc (Some (node_tab ctx))
      \<lparr>nid = next_node_id ctx, x_nm = of_int (i * 1000000000), y_nm = 0, vx_nm_per_ns = 0, vy_nm_per_ns = 0\<rparr> = (True, Some l)"
    "cp = ctx\<lparr>node_tab := l, next_node_id := next_node_id ctx + 1\<rparr>" "outp = Some (next_node_id ctx)"
    by (rule context_add_node_True) simp
  show thesis
  proof (rule that [of l])
    show "nodelist_push alloc (Some (node_tab ctx)) (run_node (next_node_id ctx - of_int i) i) = (True, Some l)"
      using l(1) by (simp add: run_node_def)
    show "ctx' = ctx\<lparr>node_tab := l, next_node_id := next_node_id ctx + 1\<rparr>"
      "m' = m\<lparr>slots := slots m @ [run_slot (next_node_id ctx - of_int i) net fds i]\<rparr>" "fds ! nat i \<ge> 0"
      using assms ok add l(2,3)
      by (auto simp: node_add_def Let_def tun_map_add_def run_slot_def split: if_splits)
  qed
qed

lemma nodes_added:
  assumes "run_seq (map (node_add alloc net fds) [i..n - 1]) (ctx, m) = (True, ctx', m')"
    and "0 \<le> i" "i \<le> n" "n \<le> 100" "nodes_inv ctx" "next_node_id ctx = of_int i"
  shows "nodes (node_tab ctx') = nodes (node_tab ctx) @ map (run_node 0) [i..n - 1] \<and>
         slots m' = slots m @ map (run_slot 0 net fds) [i..n - 1] \<and>
         nodes_inv ctx' \<and> grid ctx' = grid ctx \<and> radio ctx' = radio ctx"
  using assms
proof (induction "nat (n - i)" arbitrary: i ctx m)
  case 0
  then have "[i..n - 1] = []" by simp
  with 0 show ?case by simp
next
  case (Suc k)
  then have i: "i < n" by simp
  then have upto: "[i..n - 1] = i # [i + 1..n - 1]" by (simp add: upto_rec1)
  obtain ok c1 m1 where step: "node_add alloc net fds i (ctx, m) = (ok, c1, m1)"
    by (cases "node_add alloc net fds i (ctx, m)") auto
  with Suc.prems(1) upto have ok: ok by (auto split: bool.splits)
  with step have "node_add alloc net fds i (ctx, m) = (True, c1, m1)" by simp
  then obtain l where l: "nodelist_push alloc (Some (node_tab ctx)) (run_node 0 i) = (True, Some l)"
    "c1 = ctx\<lparr>node_tab := l, next_node_id := next_node_id ctx + 1\<rparr>"
    "m1 = m\<lparr>slots := slots m @ [run_slot 0 net fds i]\<rparr>"
    by (rule node_add_True) (simp add: Suc.prems(6))
  have "context_add_node alloc (Some ctx) (of_int (i * 1000000000)) 0 0 0 (Some 0) = (True, Some c1, Some (of_int i))"
    using l(1,2) Suc.prems(6) by (simp add: context_add_node_def run_node_def)
  moreover have "unat (next_node_id ctx) < 2 ^ 60"
    using Suc.prems(2,4,6) i by (simp add: unsigned_of_int take_bit_int_eq_self)
  ultimately have inv: "nodes_inv c1"
    using context_add_node_nodes_inv Suc.prems(5) by blast
  have "run_seq (map (node_add alloc net fds) [i + 1..n - 1]) (c1, m1) = (True, ctx', m')"
    using Suc.prems(1) upto step ok by simp
  then have "nodes (node_tab ctx') = nodes (node_tab c1) @ map (run_node 0) [i + 1..n - 1] \<and>
      slots m' = slots m1 @ map (run_slot 0 net fds) [i + 1..n - 1] \<and>
      nodes_inv ctx' \<and> grid ctx' = grid c1 \<and> radio ctx' = radio c1"
    using Suc.hyps(2) Suc.prems(2,4,6) i inv l(2) by (intro Suc.hyps(1)) simp_all
  moreover have "nodes l = nodes (node_tab ctx) @ [run_node 0 i]" by (rule nodelist_push_nodes [OF l(1)])
  ultimately show ?case using upto l by simp
qed

section \<open>The default world\<close>

lemma context_init_world:
  assumes "context_init alloc (Some c0) cap sd = (True, Some c)" "cap \<le> SIZE_MAX div sizeof_Event"
  shows "grid c = \<lparr>origin_x_nm = 0, origin_y_nm = 0, cell_nm = 1000000000, nx = 8, ny = 8,
           cells = Some (replicate 64 MATERIAL_AIR)\<rparr> \<and>
         radio c = \<lparr>range_nm = 2500000000\<rparr> \<and> nodes (node_tab c) = [] \<and> next_node_id c = 0 \<and> nodes_inv c"
  using assms(1) context_init_inv [OF assms]
  by (auto simp: context_init_def Let_def ctx_inv_def mediumgrid_init_def DEFAULT_CELL_NM_def
      DEFAULT_GRID_N_def DEFAULT_RANGE_NM_def split: if_splits prod.splits bool.splits option.splits)

definition default_grid :: medium_grid where
  "default_grid = \<lparr>origin_x_nm = 0, origin_y_nm = 0, cell_nm = 1000000000, nx = 8, ny = 8,
     cells = Some (replicate 64 MATERIAL_AIR)\<rparr>"

lemma default_grid_inv: "grid_inv default_grid"
  by (simp add: grid_inv_def default_grid_def SIZE_MAX_def sizeof_Material_def)

lemma default_grid_air: "air_map default_grid"
proof -
  have "nat y * 8 + nat x < 64" if "0 \<le> x" "x < 8" "0 \<le> y" "y < 8" for x y :: int
    using that by linarith
  then show ?thesis by (simp add: air_map_def on_map_def material_at_def default_grid_def)
qed

lemma sint_position: "0 \<le> i \<Longrightarrow> i < 100 \<Longrightarrow> sint (of_int (i * 1000000000) :: i64) = i * 1000000000"
proof -
  assume "0 \<le> i" "i < 100"
  moreover have "0 \<le> k \<Longrightarrow> k < 2 ^ 63 \<Longrightarrow> sint (of_int k :: i64) = k" for k
    by (simp add: signed_of_int signed_take_bit_int_eq_self)
  ultimately show ?thesis by (simp del: of_int_mult)
qed

lemma run_hears:
  assumes "0 \<le> i" "i < 100" "0 \<le> j" "j < 100"
  shows "hears default_grid \<lparr>range_nm = 2500000000\<rparr> (position (run_node 0 i)) (position (run_node 0 j))
    \<longleftrightarrow> \<bar>i - j\<bar> \<le> 2 \<and> i < 8 \<and> j < 8"
proof -
  note s = sint_position [OF assms(1,2)] sint_position [OF assms(3,4)]
  have "(j * 1000000000 - i * 1000000000)\<^sup>2 \<le> 2500000000\<^sup>2 \<longleftrightarrow> \<bar>j * 1000000000 - i * 1000000000\<bar> \<le> 2500000000"
    using abs_le_square_iff [of "j * 1000000000 - i * 1000000000" 2500000000] by simp
  also have "\<dots> \<longleftrightarrow> \<bar>i - j\<bar> \<le> 2" by linarith
  finally have "in_range \<lparr>range_nm = 2500000000\<rparr> (position (run_node 0 i)) (position (run_node 0 j)) \<longleftrightarrow> \<bar>i - j\<bar> \<le> 2"
    using s by (simp add: in_range_def position_def run_node_def INT64_MAX_def)
  moreover have "path_cells default_grid (position (run_node 0 i)) (position (run_node 0 j)) \<noteq> None \<longleftrightarrow> i < 8 \<and> j < 8"
    using s assms by (simp add: path_cells_def cell_spec_def position_def run_node_def default_grid_def Let_def)
  ultimately show ?thesis by (simp add: hears_air [OF default_grid_inv default_grid_air])
qed

section \<open>Property\<close>

text \<open>
  C26. Who hears whom in a run: on the default world two nodes are linked exactly when their
  indices differ by at most two and both are below eight. The map is eight cells of a metre
  wide and the nodes stand a metre apart in a row, so in a run of more than eight nodes the
  ninth and every later one are off the map and are linked to no node, not even themselves.
\<close>

theorem run_topology:
  assumes "context_init alloc (Some c0) 32 1 = (True, Some ctx)" "slots m = []"
    and "sim_nodes_add_net alloc np (Some ctx) (Some m) (Some fds) n = (True, Some ctx', Some m')"
    and "0 \<le> i" "i < n" "0 \<le> j" "j < n"
  shows "link ctx' (s_node_id (slots m' ! nat i)) (s_node_id (slots m' ! nat j)) \<noteq> None
     \<longleftrightarrow> \<bar>i - j\<bar> \<le> 2 \<and> i < 8 \<and> j < 8"
proof -
  note init = context_init_world [OF assms(1)]
  have small: "(32::nat) \<le> SIZE_MAX div sizeof_Event" by (simp add: SIZE_MAX_def sizeof_Event_def)
  obtain net where net: "np = Some net" "1 \<le> n" "n \<le> 100"
    and seq: "run_seq (map (node_add alloc net fds) [0..n - 1]) (ctx, m) = (True, ctx', m')"
    using assms(3) by (auto simp: sim_nodes_add_net_def TUN_MAP_MAX_def split: option.splits if_splits prod.splits)
  from nodes_added [OF seq] init [OF small] net have
    ns: "nodes (node_tab ctx') = map (run_node 0) [0..n - 1]" and
    sl: "slots m' = map (run_slot 0 net fds) [0..n - 1]" and
    world: "nodes_inv ctx'" "grid ctx' = default_grid" "radio ctx' = \<lparr>range_nm = 2500000000\<rparr>"
    using assms(2) by (simp_all add: default_grid_def)
  have at: "s_node_id (slots m' ! nat k) = of_int k"
    "node_of (node_tab ctx') (of_int k) = Some (run_node 0 k)" if "0 \<le> k" "k < n" for k
  proof -
    show "s_node_id (slots m' ! nat k) = of_int k" using that by (simp add: sl run_slot_def)
    have "run_node 0 k \<in> set (nodes (node_tab ctx'))" using that by (simp add: ns)
    moreover have "nl_inv (node_tab ctx')" using world(1) by (simp add: nodes_inv_def)
    ultimately show "node_of (node_tab ctx') (of_int k) = Some (run_node 0 k)"
      by (simp add: node_of_Some run_node_def)
  qed
  show ?thesis
    using at [OF assms(4,5)] at [OF assms(6,7)] world run_hears [of i j] assms(4-7) net(3)
    by (simp add: link_def)
qed

definition start_context :: sim_context where
  "start_context = fresh_context\<lparr>heap := heap_create (\<lambda>_ _. True) 32, grid := default_grid\<rparr>"

definition no_slots :: tun_map where
  "no_slots = \<lparr>slots = [], qos = [], drops = [], flow = (\<lambda>_ _. zero_flow)\<rparr>"

lemma context_init_starts:
  "context_init (\<lambda>_ _. True) (Some fresh_context) 32 1 = (True, Some start_context)"
  by (simp add: context_init_def Let_def heap_create_def nodelist_init_def mediumgrid_init_def fresh_context_def
      start_context_def default_grid_def DEFAULT_CELL_NM_def DEFAULT_GRID_N_def DEFAULT_RANGE_NM_def SIZE_MAX_def
      sizeof_Material_def UINT64_MAX_def size_mul_def sizeof_Node_def)

theorem run_topology_witness:
  "\<exists>ctx m. sim_nodes_add_net (\<lambda>_ _. True) (Some (run_net 1)) (Some start_context) (Some no_slots) (Some [3, 4]) 2 =
      (True, Some ctx, Some m) \<and> link ctx (s_node_id (slots m ! 0)) (s_node_id (slots m ! 1)) \<noteq> None"
proof -
  have v: "sim_net_valid (Some (run_net 1))" by (rule run_net_valid) (simp_all add: RUN_ID_MAX_def)
  have "\<exists>ctx m. sim_nodes_add_net (\<lambda>_ _. True) (Some (run_net 1)) (Some start_context) (Some no_slots) (Some [3, 4]) 2 =
      (True, Some ctx, Some m)"
    using v by (simp add: sim_nodes_add_net_def TUN_MAP_MAX_def upto_rec1 node_add_def context_add_node_def Let_def
        nodelist_push_def ensure_index_cap_def grow_cap.simps node_grow_def start_context_def fresh_context_def
        no_slots_def tun_map_add_def SIZE_MAX_def)
  then obtain ctx m where add: "sim_nodes_add_net (\<lambda>_ _. True) (Some (run_net 1)) (Some start_context)
      (Some no_slots) (Some [3, 4]) 2 = (True, Some ctx, Some m)" by blast
  from run_topology [OF context_init_starts _ add, of 0 1] show ?thesis
    using add by (simp add: no_slots_def)
qed

end
