(* ===== verification/Run_Sampler.thy ===== *)
theory Run_Sampler
  imports Sim_Nodes "HOL-Library.Sublist"
begin

text \<open>
  The run of \<open>run/run.c\<close> and its resource sampler: what \<open>/proc\<close> says of each child is read
  at most every 250 ms and kept in a store of \<open>RUN_SAMPLE_CAP\<close> samples for each node.

  Reading a file is three calls of the trace; what the read delivered is an argument,
  \<open>filled\<close>: the contents of the buffer, given the trace that ends with the read.
\<close>

section \<open>The run\<close>

definition RUN_SAMPLE_CAP :: nat where "RUN_SAMPLE_CAP = 4096"
definition RUN_SAMPLE_GAP_MS :: u64 where "RUN_SAMPLE_GAP_MS = 250"
definition STAT_LEN :: nat where "STAT_LEN = 1024"
definition IO_LEN :: nat where "IO_LEN = 1024"
definition PROC_LEN :: nat where "PROC_LEN = 48"
definition PAGE_FALLBACK :: int where "PAGE_FALLBACK = 4096"

record run_sample =
  s_pid :: int
  s_utime :: u64
  s_stime :: u64
  s_rss :: u64
  s_rchar :: u64
  s_wchar :: u64
  s_at :: int
  s_valid :: bool

text \<open>A slot as \<open>calloc\<close> leaves it.\<close>

definition empty_sample :: run_sample where
  "empty_sample = \<lparr>s_pid = 0, s_utime = 0, s_stime = 0, s_rss = 0, s_rchar = 0, s_wchar = 0,
     s_at = 0, s_valid = False\<rparr>"

text \<open>One entry of the poll vector; \<open>events\<close> is always \<open>POLLIN\<close>, of \<open>revents\<close> that bit.\<close>

record pollfd =
  p_fd :: int
  p_in :: bool

record run =
  r_ctx :: sim_context
  r_map :: tun_map
  r_net :: sim_net
  r_fds :: "int list"
  r_logfds :: "int list"
  r_pids :: "int list"
  r_p :: "pollfd list"
  r_n :: int
  r_dead :: int
  r_done :: bool
  shist :: "run_sample list list ptr"
  shead :: "int list"
  scount :: "int list"
  sdropped :: "int list"
  speak :: "u64 list"
  sutime :: "u64 list"
  sstime :: "u64 list"
  slast_ms :: u64

type_synonym filled = "trace \<Rightarrow> string"

section \<open>Scanning text\<close>

definition blank :: "char \<Rightarrow> bool" where
  "blank c = (c = CHR '' '' \<or> c = CHR 0x09)"

definition c_isspace :: "char \<Rightarrow> bool" where
  "c_isspace c = (c = CHR '' '' \<or> between (CHR 0x09) (CHR 0x0D) c)"

definition is_digit :: "char \<Rightarrow> bool" where
  "is_digit c = (digit_of c \<noteq> None)"

text \<open>What \<open>strtol\<close> and \<open>strtoull\<close> share: the sign, the number and the text behind it, or
  \<open>None\<close> when there is no number and the end pointer stays at the start.\<close>

definition scan_number :: "string \<Rightarrow> (bool \<times> int \<times> string) option" where
  "scan_number s =
     (let s = dropWhile c_isspace s;
          neg = (s \<noteq> [] \<and> hd s = CHR ''-'');
          s = (if s \<noteq> [] \<and> (hd s = CHR ''-'' \<or> hd s = CHR ''+'') then tl s else s);
          ds = takeWhile is_digit s in
      if ds = [] then None else Some (neg, digits_val 0 ds, dropWhile is_digit s))"

definition strtoull :: "string \<Rightarrow> (u64 \<times> string) option" where
  "strtoull s =
     (case scan_number s of
        None \<Rightarrow> None
      | Some (neg, v, rest) \<Rightarrow>
          Some (if v > uint UINT64_MAX then UINT64_MAX else if neg then - of_int v else of_int v, rest))"

definition LONG_MAX :: int where "LONG_MAX = 9223372036854775807"

definition strtol :: "string \<Rightarrow> (int \<times> string) option" where
  "strtol s =
     (case scan_number s of
        None \<Rightarrow> None
      | Some (neg, v, rest) \<Rightarrow>
          Some (if neg then max (- v) (- LONG_MAX - 1) else min v LONG_MAX, rest))"

text \<open>The text after the last \<open>c\<close>, after the first \<open>pat\<close>, and up to a NUL.\<close>

fun strrchr :: "char \<Rightarrow> string \<Rightarrow> string option" where
  "strrchr c [] = None"
| "strrchr c (x # xs) =
     (case strrchr c xs of Some r \<Rightarrow> Some r | None \<Rightarrow> if x = c then Some xs else None)"

fun strstr :: "string \<Rightarrow> string \<Rightarrow> string option" where
  "strstr pat [] = (if pat = [] then Some [] else None)"
| "strstr pat (x # xs) =
     (if take (length pat) (x # xs) = pat then Some (drop (length pat) (x # xs)) else strstr pat xs)"

definition c_text :: "string \<Rightarrow> string" where
  "c_text s = takeWhile (\<lambda>c. c \<noteq> CHR 0x00) s"

section \<open>The files of \<open>/proc\<close>\<close>

text \<open>The loop of \<open>stat_fields\<close>, with the number of tokens seen.\<close>

function stat_loop :: "nat \<Rightarrow> string \<Rightarrow> u64 \<times> u64 \<times> int \<Rightarrow> (nat \<times> u64 \<times> u64 \<times> int) option" where
  "stat_loop tok p (ut, st, rss) =
     (if p = [] \<or> \<not> tok < 22 then Some (tok, ut, st, rss)
      else
        let p = dropWhile blank p in
        if p = [] then Some (tok, ut, st, rss)
        else
          let tok' = tok + 1 in
          if tok' \<noteq> 12 \<and> tok' \<noteq> 13 \<and> tok' \<noteq> 22 then
            stat_loop tok' (dropWhile (\<lambda>c. \<not> blank c) p) (ut, st, rss)
          else if tok' = 22 then
            (case strtol p of
               None \<Rightarrow> None
             | Some (w, e) \<Rightarrow> stat_loop tok' e (ut, st, w))
          else
            (case strtoull p of
               None \<Rightarrow> None
             | Some (v, e) \<Rightarrow>
                 if tok' = 12 then stat_loop tok' e (v, st, rss)
                 else stat_loop tok' e (ut, v, rss)))"
  by pat_completeness auto
termination by (relation "measure (\<lambda>(tok, p, a). 22 - tok)") auto

declare stat_loop.simps [simp del]

definition stat_fields :: "string \<Rightarrow> (u64 \<times> u64 \<times> int) option" where
  "stat_fields s =
     (case stat_loop 0 s (0, 0, 0) of
        None \<Rightarrow> None
      | Some (tok, r) \<Rightarrow> if tok < 22 then None else Some r)"

definition io_field :: "string \<Rightarrow> string \<Rightarrow> u64" where
  "io_field key s =
     (case strstr key s of
        None \<Rightarrow> 0
      | Some p \<Rightarrow> (case strtoull p of None \<Rightarrow> 0 | Some (v, e) \<Rightarrow> v))"

definition io_fields :: "string \<Rightarrow> u64 \<times> u64" where
  "io_fields s = (io_field ''rchar:'' s, io_field ''wchar:'' s)"

text \<open>Open, one read, close; nothing when a call fails or the file is empty.\<close>

definition proc_read :: "os \<Rightarrow> filled \<Rightarrow> string \<Rightarrow> nat \<Rightarrow> trace \<Rightarrow> string option \<times> trace" where
  "proc_read E D path cap t =
     (let (fd, t) = sys E (Open_file path) t in
      if fd < 0 then (None, t)
      else
        let (k, t) = sys E (Read fd (cap - 1)) t;
            buf = D t;
            t = call E (Close fd) t in
        if k \<le> 0 then (None, t) else (Some (c_text (take (nat k) buf)), t))"

section \<open>One sample\<close>

definition stat_text :: "string \<Rightarrow> (u64 \<times> u64 \<times> int) option" where
  "stat_text buf =
     (case strrchr (CHR '')'') buf of None \<Rightarrow> None | Some e \<Rightarrow> stat_fields e)"

definition proc_io :: "os \<Rightarrow> filled \<Rightarrow> int \<Rightarrow> trace \<Rightarrow> (u64 \<times> u64) \<times> trace" where
  "proc_io E D pid t =
     (case snprintf PROC_LEN (''/proc/'' @ fmt_d pid @ ''/io'') of
        None \<Rightarrow> ((0, 0), t)
      | Some path \<Rightarrow>
          (case proc_read E D path IO_LEN t of
             (None, t) \<Rightarrow> ((0, 0), t)
           | (Some s, t) \<Rightarrow> (io_fields s, t)))"

definition snapshot :: "os \<Rightarrow> filled \<Rightarrow> int \<Rightarrow> u64 \<Rightarrow> trace \<Rightarrow> run_sample option \<times> trace" where
  "snapshot E D pid now t =
     (case snprintf PROC_LEN (''/proc/'' @ fmt_d pid @ ''/stat'') of
        None \<Rightarrow> (None, t)
      | Some path \<Rightarrow>
          (case proc_read E D path STAT_LEN t of
             (None, t) \<Rightarrow> (None, t)
           | (Some buf, t) \<Rightarrow>
               (case stat_text buf of
                  None \<Rightarrow> (None, t)
                | Some (ut, st, pages) \<Rightarrow>
                    let (ps, t) = sys E Pagesize t;
                        ps = (if ps \<le> 0 then PAGE_FALLBACK else ps);
                        rb = (if pages > 0 then of_int pages * of_int ps else 0);
                        ((rc, wc), t) = proc_io E D pid t in
                    (Some \<lparr>s_pid = pid, s_utime = ut, s_stime = st, s_rss = rb, s_rchar = rc,
                       s_wchar = wc, s_at = uint (now div 1000), s_valid = True\<rparr>, t))))"

definition store_sample :: "run \<Rightarrow> nat \<Rightarrow> run_sample \<Rightarrow> run" where
  "store_sample r i s =
     (let r =
        (case shist r of
           None \<Rightarrow> r\<lparr>sdropped := (sdropped r)[i := sdropped r ! i + 1]\<rparr>
         | Some h \<Rightarrow>
             if scount r ! i < int RUN_SAMPLE_CAP then
               let k = shead r ! i;
                   k = (if k < 0 \<or> k \<ge> int RUN_SAMPLE_CAP then scount r ! i else k) in
               r\<lparr>shist := Some (h[i := (h ! i)[nat k := s]]), shead := (shead r)[i := k + 1],
                 scount := (scount r)[i := scount r ! i + 1]\<rparr>
             else
               r\<lparr>shist := Some (h[i := (h ! i)[nat (scount r ! i - 1) := s]]),
                 sdropped := (sdropped r)[i := sdropped r ! i + 1]\<rparr>);
          r = (if s_rss s > speak r ! i then r\<lparr>speak := (speak r)[i := s_rss s]\<rparr> else r) in
      r\<lparr>sutime := (sutime r)[i := s_utime s], sstime := (sstime r)[i := s_stime s]\<rparr>)"

definition sample_one :: "os \<Rightarrow> filled \<Rightarrow> u64 \<Rightarrow> int \<Rightarrow> run \<times> trace \<Rightarrow> run \<times> trace" where
  "sample_one E D now i s =
     (case s of (r, t) \<Rightarrow>
        if i < 0 \<or> i \<ge> r_n r then (r, t)
        else if i \<ge> int TUN_MAP_MAX then (r, t)
        else if i = r_dead r then (r, t)
        else
          let pid = r_pids r ! nat i in
          if pid \<le> 0 then (r, t)
          else
            (case snapshot E D pid now t of
               (None, t) \<Rightarrow> (r, t)
             | (Some s, t) \<Rightarrow> (store_sample r (nat i) s, t)))"

text \<open>\<open>clock_gettime\<close> answers nanoseconds here.\<close>

definition now_ms :: "os \<Rightarrow> trace \<Rightarrow> u64 \<times> trace" where
  "now_ms E t =
     (let (ns, t) = sys E Monotonic t in (if ns < 0 then 0 else of_int (ns div 1000000), t))"

definition sample_pass :: "os \<Rightarrow> filled \<Rightarrow> run ptr \<Rightarrow> bool \<Rightarrow> trace \<Rightarrow> run ptr \<times> trace" where
  "sample_pass E D rp force t =
     (case rp of
        None \<Rightarrow> (None, t)
      | Some r \<Rightarrow>
          if r_n r < 1 \<or> r_n r > int TUN_MAP_MAX then (Some r, t)
          else
            (case now_ms E t of
               (now, t) \<Rightarrow>
                 if \<not> force \<and> slast_ms r \<noteq> 0 \<and> now - slast_ms r < RUN_SAMPLE_GAP_MS then (Some r, t)
                 else
                   map_prod Some (\<lambda>t. t)
                     (fold (sample_one E D now) [0..r_n r - 1] (r\<lparr>slast_ms := now\<rparr>, t))))"

definition run_sample_tick :: "os \<Rightarrow> filled \<Rightarrow> run ptr \<Rightarrow> trace \<Rightarrow> run ptr \<times> trace" where
  "run_sample_tick E D rp t = sample_pass E D rp False t"

section \<open>A new store\<close>

text \<open>The part of \<open>setup_init\<close> that clears the store.\<close>

definition clear_store :: "allocator \<Rightarrow> run \<Rightarrow> bool \<times> run" where
  "clear_store alloc r =
     (let r = r\<lparr>shead := replicate TUN_MAP_MAX 0, scount := replicate TUN_MAP_MAX 0,
            sdropped := replicate TUN_MAP_MAX 0, speak := replicate TUN_MAP_MAX 0,
            sutime := replicate TUN_MAP_MAX 0, sstime := replicate TUN_MAP_MAX 0, slast_ms := 0\<rparr> in
      if \<not> alloc Sample_Store (TUN_MAP_MAX * RUN_SAMPLE_CAP * 64) then (False, r\<lparr>shist := None\<rparr>)
      else (True, r\<lparr>shist := Some (replicate TUN_MAP_MAX (replicate RUN_SAMPLE_CAP empty_sample))\<rparr>))"

section \<open>Reading the store\<close>

text \<open>\<open>Crash\<close> stands for the access through the null pointer that \<open>run_teardown\<close> leaves.\<close>

datatype 'a answer = Crash | No | Got 'a

definition run_sample_hist :: "run ptr \<Rightarrow> int \<Rightarrow> int \<Rightarrow> run_sample answer" where
  "run_sample_hist rp node ago =
     (case rp of
        None \<Rightarrow> No
      | Some r \<Rightarrow>
          if node < 0 \<or> node \<ge> r_n r then No
          else if node \<ge> int TUN_MAP_MAX then No
          else if ago < 0 \<or> ago \<ge> int RUN_SAMPLE_CAP then No
          else
            let c = scount r ! nat node in
            if c \<le> 0 \<or> ago \<ge> c then No
            else
              (case shist r of
                 None \<Rightarrow> Crash
               | Some h \<Rightarrow>
                   let out = h ! nat node ! nat (c - 1 - ago) in
                   if \<not> s_valid out then No else Got out))"

definition run_sample_get :: "run ptr \<Rightarrow> int \<Rightarrow> run_sample answer" where
  "run_sample_get rp node = run_sample_hist rp node 0"

definition run_sample_count :: "run ptr \<Rightarrow> int \<Rightarrow> int" where
  "run_sample_count rp node =
     (case rp of
        None \<Rightarrow> 0
      | Some r \<Rightarrow>
          if node < 0 \<or> node \<ge> r_n r then 0
          else if node \<ge> int TUN_MAP_MAX then 0
          else
            let c = scount r ! nat node in
            if c < 0 then 0 else if c > int RUN_SAMPLE_CAP then int RUN_SAMPLE_CAP else c)"

definition run_sample_dropped :: "run ptr \<Rightarrow> int \<Rightarrow> int" where
  "run_sample_dropped rp node =
     (case rp of
        None \<Rightarrow> 0
      | Some r \<Rightarrow>
          if node < 0 \<or> node \<ge> r_n r then 0
          else if node \<ge> int TUN_MAP_MAX then 0
          else let d = sdropped r ! nat node in if d < 0 then 0 else d)"

definition run_sample_peak :: "run ptr \<Rightarrow> int \<Rightarrow> u64 option" where
  "run_sample_peak rp node =
     (case rp of
        None \<Rightarrow> None
      | Some r \<Rightarrow>
          if node < 0 \<or> node \<ge> r_n r then None
          else if node \<ge> int TUN_MAP_MAX then None
          else if scount r ! nat node \<le> 0 then None
          else Some (speak r ! nat node))"

definition run_sample_cpu :: "run ptr \<Rightarrow> int \<Rightarrow> (u64 \<times> u64) option" where
  "run_sample_cpu rp node =
     (case rp of
        None \<Rightarrow> None
      | Some r \<Rightarrow>
          if node < 0 \<or> node \<ge> r_n r then None
          else if node \<ge> int TUN_MAP_MAX then None
          else if scount r ! nat node \<le> 0 then None
          else Some (sutime r ! nat node, sstime r ! nat node))"

section \<open>What the text of \<open>/proc\<close> means\<close>

definition blanks_free :: "string \<Rightarrow> bool" where
  "blanks_free s = (s \<noteq> [] \<and> list_all (\<lambda>c. \<not> blank c) s)"

text \<open>Fields, each after a space.\<close>

definition spaced :: "string list \<Rightarrow> string" where
  "spaced fs = concat (map (\<lambda>f. CHR '' '' # f) fs)"

lemma dropWhile_stop: "list_all P xs \<Longrightarrow> (ys = [] \<or> \<not> P (hd ys)) \<Longrightarrow> dropWhile P (xs @ ys) = ys"
  by (cases ys) (auto simp: dropWhile_append list_all_iff dropWhile_eq_self_iff)

lemma takeWhile_stop: "list_all P xs \<Longrightarrow> (ys = [] \<or> \<not> P (hd ys)) \<Longrightarrow> takeWhile P (xs @ ys) = xs"
  by (cases ys) (auto simp: takeWhile_append list_all_iff takeWhile_eq_Nil_iff)

definition field_end :: "string \<Rightarrow> bool" where
  "field_end s = (s = [] \<or> hd s = CHR '' '' \<or> hd s = CHR 0x0A)"

lemma stat_loop_skip:
  assumes "tok < 21" "tok \<noteq> 11" "tok \<noteq> 12" "blanks_free f" "rest = [] \<or> blank (hd rest)"
  shows "stat_loop tok (CHR '' '' # f @ rest) acc = stat_loop (Suc tok) rest acc"
proof -
  obtain c cs where f: "f = c # cs" "\<not> blank c" using assms(4) by (cases f) (auto simp: blanks_free_def)
  have "dropWhile (\<lambda>c. \<not> blank c) (f @ rest) = rest"
    using assms(4,5) by (intro dropWhile_stop) (auto simp: blanks_free_def)
  moreover have "dropWhile blank (CHR '' '' # f @ rest) = f @ rest" using f by (simp add: blank_def)
  ultimately show ?thesis using assms(1-3) f by (cases acc, hypsubst) (subst stat_loop.simps, simp)
qed

lemma stat_loop_skips:
  assumes "list_all blanks_free fs" "tok + length fs \<le> 21" "tok + length fs \<le> 11 \<or> 13 \<le> tok"
    and "rest = [] \<or> hd rest = CHR '' ''"
  shows "stat_loop tok (spaced fs @ rest) acc = stat_loop (tok + length fs) rest acc"
  using assms
proof (induction fs arbitrary: tok)
  case (Cons f fs)
  have "spaced fs @ rest = [] \<or> blank (hd (spaced fs @ rest))"
    using Cons.prems(4) by (cases fs) (auto simp: spaced_def blank_def)
  then have "stat_loop tok (CHR '' '' # f @ (spaced fs @ rest)) acc = stat_loop (Suc tok) (spaced fs @ rest) acc"
    using Cons.prems by (intro stat_loop_skip) auto
  also have "\<dots> = stat_loop (Suc tok + length fs) rest acc" using Cons.prems by (intro Cons.IH) auto
  finally show ?case by (simp add: spaced_def)
qed (simp add: spaced_def)

lemma digits_ne: "digits 10 n \<noteq> []" and digits_is_digit: "list_all is_digit (digits 10 n)"
  using digits_chars [of 10 n] digits_digits [of n] by (simp_all add: is_digit_def list_all_iff list_ex_iff)

lemma is_digit_facts: "is_digit c \<Longrightarrow> \<not> c_isspace c \<and> c \<noteq> CHR ''-'' \<and> c \<noteq> CHR ''+'' \<and> \<not> blank c"
proof -
  assume "is_digit c"
  then have "48 \<le> (of_char c :: int)" by (simp add: is_digit_def digit_of_def Let_def split: if_splits)
  then have "48 \<le> (of_char c :: nat)" by (metis of_nat_numeral of_nat_of_char zle_int)
  then show ?thesis by (auto simp: c_isspace_def between_def blank_def)
qed

lemma field_end_digit: "field_end rest \<Longrightarrow> rest = [] \<or> \<not> is_digit (hd rest)"
  by (auto simp: field_end_def is_digit_def digit_of_def)

lemma scan_number_fmt:
  assumes "field_end rest"
  shows "scan_number (fmt_d v @ rest) = Some (v < 0, \<bar>v\<bar>, rest)"
proof -
  define ds where "ds = digits 10 (nat \<bar>v\<bar>)"
  have ds: "ds \<noteq> []" "list_all is_digit ds" "digits_val 0 ds = \<bar>v\<bar>"
    unfolding ds_def using digits_ne digits_is_digit digits_value [of "nat \<bar>v\<bar>"] by simp_all
  then have hd: "is_digit (hd ds)" by (cases ds) auto
  have scan: "takeWhile is_digit (ds @ rest) = ds" "dropWhile is_digit (ds @ rest) = rest"
    using ds(2) field_end_digit [OF assms] by (simp_all add: takeWhile_stop dropWhile_stop)
  have nospace: "dropWhile c_isspace (fmt_d v @ rest) = fmt_d v @ rest"
    using is_digit_facts [OF hd] ds(1)
    by (auto simp: fmt_d_def ds_def dropWhile_eq_self_iff c_isspace_def between_def)
  have "fmt_d v = (if v < 0 then CHR ''-'' # ds else ds)" by (simp add: fmt_d_def ds_def)
  then show ?thesis using nospace scan ds is_digit_facts [OF hd] by (auto simp: scan_number_def Let_def)
qed

lemma strtoull_fmt:
  assumes "field_end rest"
  shows "strtoull (fmt_d (uint v) @ rest) = Some (v :: u64, rest)"
proof -
  have "uint v < 2 ^ LENGTH(64)" by (rule uint_lt2p)
  then have "\<not> uint v > uint UINT64_MAX" by (simp add: UINT64_MAX_def)
  then show ?thesis by (simp add: strtoull_def scan_number_fmt [OF assms])
qed

lemma strtol_fmt:
  assumes "field_end rest" "v \<le> LONG_MAX" "- LONG_MAX - 1 \<le> v"
  shows "strtol (fmt_d v @ rest) = Some (v, rest)"
  using assms by (simp add: strtol_def scan_number_fmt)

lemma fmt_d_starts: "fmt_d v \<noteq> [] \<and> \<not> blank (hd (fmt_d v))"
  using digits_ne digits_is_digit [of "nat v"] is_digit_facts
  by (cases "digits 10 (nat v)") (auto simp: fmt_d_def blank_def)

lemma drop_blank_fmt: "dropWhile blank (CHR '' '' # fmt_d v @ rest) = fmt_d v @ rest"
  using fmt_d_starts [of v] by (cases "fmt_d v") (auto simp: blank_def)

lemma stat_fields_correct:
  assumes "length a = 11" "length b = 8" "list_all blanks_free a" "list_all blanks_free b"
    and "rss \<le> LONG_MAX" "- LONG_MAX - 1 \<le> rss" "field_end rest"
  shows "stat_fields (spaced (a @ [fmt_d (uint ut), fmt_d (uint st)] @ b @ [fmt_d rss]) @ rest) = Some (ut, st, rss)"
proof -
  let ?tail = "CHR '' '' # fmt_d rss @ rest"
  let ?mid = "spaced b @ ?tail"
  have ends: "field_end ?mid" "field_end (CHR '' '' # fmt_d (uint st) @ ?mid)"
    by (cases b; simp add: spaced_def field_end_def)+
  have shape: "spaced (a @ [fmt_d (uint ut), fmt_d (uint st)] @ b @ [fmt_d rss]) @ rest =
      spaced a @ (CHR '' '' # fmt_d (uint ut) @ (CHR '' '' # fmt_d (uint st) @ ?mid))"
    by (simp add: spaced_def)
  have "stat_loop 0 (spaced a @ (CHR '' '' # fmt_d (uint ut) @ (CHR '' '' # fmt_d (uint st) @ ?mid))) (0, 0, 0) =
      stat_loop 11 (CHR '' '' # fmt_d (uint ut) @ (CHR '' '' # fmt_d (uint st) @ ?mid)) (0, 0, 0)"
    using assms(1,3) stat_loop_skips [of a 0] by simp
  also have "\<dots> = stat_loop 12 (CHR '' '' # fmt_d (uint st) @ ?mid) (ut, 0, 0)"
    using fmt_d_starts [of "uint ut"]
    by (subst stat_loop.simps) (simp add: drop_blank_fmt strtoull_fmt [OF ends(2)] del: append_Cons dropWhile.simps)
  also have "\<dots> = stat_loop 13 ?mid (ut, st, 0)"
    using fmt_d_starts [of "uint st"]
    by (subst stat_loop.simps) (simp add: drop_blank_fmt strtoull_fmt [OF ends(1)] del: append_Cons dropWhile.simps)
  also have "\<dots> = stat_loop 21 ?tail (ut, st, 0)"
    using assms(2,4) stat_loop_skips [of b 13 ?tail] by simp
  also have "\<dots> = stat_loop 22 rest (ut, st, rss)"
    using fmt_d_starts [of rss]
    by (subst stat_loop.simps) (simp add: drop_blank_fmt strtol_fmt [OF assms(7,5,6)] del: append_Cons dropWhile.simps)
  also have "\<dots> = Some (22, ut, st, rss)" by (subst stat_loop.simps) simp
  finally show ?thesis unfolding stat_fields_def shape by simp
qed

lemma strrchr_last: "c \<notin> set s \<Longrightarrow> strrchr c (p @ c # s) = Some s"
proof (induction p)
  case Nil
  have "strrchr c s = None" using Nil by (induction s) auto
  then show ?case by simp
qed simp

section \<open>The store as a history\<close>

text \<open>
  What the store holds of the samples taken of one node, oldest first: all of them while they
  fit, and then the first ones and the last.
\<close>

definition kept :: "run_sample list \<Rightarrow> run_sample list" where
  "kept ss = (if length ss \<le> RUN_SAMPLE_CAP then ss else take (RUN_SAMPLE_CAP - 1) ss @ [last ss])"

definition peak_rss :: "run_sample list \<Rightarrow> u64" where
  "peak_rss ss = Max (insert 0 (s_rss ` set ss))"

text \<open>The store of node \<open>i\<close> holds the history \<open>ss\<close>.\<close>

definition stored :: "run \<Rightarrow> nat \<Rightarrow> run_sample list \<Rightarrow> bool" where
  "stored r i ss =
     (list_all s_valid ss \<and> scount r ! i = int (length (kept ss)) \<and> shead r ! i = scount r ! i \<and>
      sdropped r ! i = int (length ss - RUN_SAMPLE_CAP) \<and> speak r ! i = peak_rss ss \<and>
      sutime r ! i = (if ss = [] then 0 else s_utime (last ss)) \<and>
      sstime r ! i = (if ss = [] then 0 else s_stime (last ss)) \<and>
      (case shist r of None \<Rightarrow> False
       | Some h \<Rightarrow> length (h ! i) = RUN_SAMPLE_CAP \<and> take (length (kept ss)) (h ! i) = kept ss))"

definition store_shape :: "run \<Rightarrow> bool" where
  "store_shape r =
     (length (shead r) = TUN_MAP_MAX \<and> length (scount r) = TUN_MAP_MAX \<and>
      length (sdropped r) = TUN_MAP_MAX \<and> length (speak r) = TUN_MAP_MAX \<and>
      length (sutime r) = TUN_MAP_MAX \<and> length (sstime r) = TUN_MAP_MAX \<and>
      (case shist r of None \<Rightarrow> False | Some h \<Rightarrow> length h = TUN_MAP_MAX))"

definition holds_history :: "run \<Rightarrow> (nat \<Rightarrow> run_sample list) \<Rightarrow> bool" where
  "holds_history r H = (store_shape r \<and> (\<forall>i < TUN_MAP_MAX. stored r i (H i)))"

lemma cap_pos: "0 < RUN_SAMPLE_CAP" by (simp add: RUN_SAMPLE_CAP_def)

lemma length_kept: "length (kept ss) = min (length ss) RUN_SAMPLE_CAP"
  using cap_pos by (auto simp: kept_def)

lemma kept_snoc:
  "kept (ss @ [s]) = (if length ss < RUN_SAMPLE_CAP then ss @ [s] else (kept ss)[RUN_SAMPLE_CAP - 1 := s])"
proof (cases "length ss < RUN_SAMPLE_CAP")
  case False
  then have "take (RUN_SAMPLE_CAP - 1) (kept ss) = take (RUN_SAMPLE_CAP - 1) ss"
    using cap_pos by (auto simp: kept_def)
  moreover have "length (kept ss) = Suc (RUN_SAMPLE_CAP - 1)" using False cap_pos by (simp add: length_kept)
  ultimately have "(kept ss)[RUN_SAMPLE_CAP - 1 := s] = take (RUN_SAMPLE_CAP - 1) ss @ [s]"
    by (simp add: upd_conv_take_nth_drop)
  then show ?thesis using False by (simp add: kept_def)
qed (simp add: kept_def)

lemma peak_snoc: "peak_rss (ss @ [s]) = max (peak_rss ss) (s_rss s)"
proof -
  have "insert 0 (s_rss ` set (ss @ [s])) = insert (s_rss s) (insert 0 (s_rss ` set ss))" by auto
  then show ?thesis by (simp only: peak_rss_def Max_insert finite_insert finite_imageI finite_set insert_not_empty) (simp add: max.commute)
qed

lemma take_update_snoc: "k < length xs \<Longrightarrow> take (Suc k) (xs[k := x]) = take k xs @ [x]"
  by (simp add: take_Suc_conv_app_nth)

lemma store_sample_stored:
  assumes "store_shape r" "i < TUN_MAP_MAX" "stored r i ss" "s_valid s"
  shows "stored (store_sample r i s) i (ss @ [s])"
proof -
  obtain h where h: "shist r = Some h" "i < length h" "length (h ! i) = RUN_SAMPLE_CAP"
    "take (length (kept ss)) (h ! i) = kept ss"
    using assms by (auto simp: store_shape_def stored_def split: option.splits)
  have len: "i < length (shead r)" "i < length (scount r)" "i < length (sdropped r)" "i < length (speak r)"
    "i < length (sutime r)" "i < length (sstime r)"
    using assms(1,2) by (simp_all add: store_shape_def)
  have st: "list_all s_valid ss" "scount r ! i = int (length (kept ss))" "shead r ! i = int (length (kept ss))"
    "sdropped r ! i = int (length ss - RUN_SAMPLE_CAP)" "speak r ! i = peak_rss ss"
    using assms(3) by (simp_all add: stored_def)
  show ?thesis
  proof (cases "length ss < RUN_SAMPLE_CAP")
    case True
    then have k: "kept ss = ss" "kept (ss @ [s]) = ss @ [s]" by (simp_all add: kept_def)
    with True h st len assms(4) show ?thesis
      by (auto simp: stored_def store_sample_def Let_def peak_snoc max_def take_update_snoc)
  next
    case False
    then have n: "length (kept ss) = RUN_SAMPLE_CAP" by (simp add: length_kept)
    with h have "h ! i = kept ss" by simp
    with n h st len False assms(4) cap_pos show ?thesis
      by (auto simp: stored_def store_sample_def Let_def peak_snoc max_def kept_snoc Suc_diff_le nat_diff_distrib)
  qed
qed

lemma store_sample_other:
  assumes "j \<noteq> i" "stored r j ss"
  shows "stored (store_sample r i s) j ss"
  using assms by (auto simp: stored_def store_sample_def Let_def split: option.splits)

lemma store_sample_shape: "store_shape r \<Longrightarrow> store_shape (store_sample r i s)"
  by (auto simp: store_shape_def store_sample_def Let_def split: option.splits)

lemma store_sample_history:
  assumes "holds_history r H" "i < TUN_MAP_MAX" "s_valid s"
  shows "holds_history (store_sample r i s) (H(i := H i @ [s]))"
  using assms store_sample_stored store_sample_other store_sample_shape
  by (auto simp: holds_history_def)

lemma snapshot_valid: "fst (snapshot E D pid now t) = Some s \<Longrightarrow> s_valid s \<and> s_pid s = pid"
  by (auto simp: snapshot_def Let_def split: option.splits prod.splits)

text \<open>All of a run but its samples.\<close>

definition run_core ::
  "run \<Rightarrow> sim_context \<times> tun_map \<times> sim_net \<times> int list \<times> int list \<times> int list \<times> pollfd list \<times>
   int \<times> int \<times> bool" where
  "run_core r = (r_ctx r, r_map r, r_net r, r_fds r, r_logfds r, r_pids r, r_p r, r_n r, r_dead r, r_done r)"

lemma store_sample_core [simp]:
  "run_core (store_sample r i s) = run_core r" "slast_ms (store_sample r i s) = slast_ms r"
  by (auto simp: run_core_def store_sample_def Let_def split: option.splits)

lemma run_core_simps:
  assumes "run_core r = run_core r'"
  shows "r_ctx r = r_ctx r'" "r_map r = r_map r'" "r_net r = r_net r'" "r_fds r = r_fds r'" "r_logfds r = r_logfds r'"
    "r_pids r = r_pids r'" "r_p r = r_p r'" "r_n r = r_n r'" "r_dead r = r_dead r'" "r_done r = r_done r'"
  using assms by (simp_all add: run_core_def)

text \<open>A new sample of node \<open>i\<close> is of the child in its slot, and the node is not dead.\<close>

definition fresh_sample :: "run \<Rightarrow> nat \<Rightarrow> run_sample list \<Rightarrow> bool" where
  "fresh_sample r i new =
     (length new \<le> 1 \<and>
      (\<forall>s \<in> set new. int i < r_n r \<and> int i \<noteq> r_dead r \<and> 0 < r_pids r ! i \<and> s_pid s = r_pids r ! i))"

lemma fresh_Nil [simp]: "fresh_sample r i []"
  by (simp add: fresh_sample_def)

lemma fresh_core: "run_core r = run_core r' \<Longrightarrow> fresh_sample r i new = fresh_sample r' i new"
  by (simp add: fresh_sample_def run_core_def)

lemma sample_one_history:
  assumes "holds_history r H" "sample_one E D now i (r, t) = (r', t')" "0 \<le> i"
  shows "\<exists>new. fresh_sample r (nat i) new \<and> holds_history r' (H(nat i := H (nat i) @ new)) \<and>
    run_core r' = run_core r \<and> slast_ms r' = slast_ms r"
proof (cases "r' = r")
  case True
  then have "holds_history r' (H(nat i := H (nat i) @ []))" using assms(1) by simp
  with True show ?thesis using fresh_Nil by blast
next
  case False
  let ?pid = "r_pids r ! nat i"
  have g: "i < r_n r" "i < int TUN_MAP_MAX" "i \<noteq> r_dead r" "0 < ?pid"
    using assms(2) False by (auto simp: sample_one_def Let_def split: if_splits)
  then obtain s where s: "fst (snapshot E D ?pid now t) = Some s" "r' = store_sample r (nat i) s"
  proof (cases "snapshot E D ?pid now t")
    case (Pair so u)
    with g assms(2,3) False that show ?thesis by (cases so) (auto simp: sample_one_def Let_def)
  qed
  from snapshot_valid [OF s(1)] have "fresh_sample r (nat i) [s]" using g assms(3) by (simp add: fresh_sample_def)
  moreover have "holds_history r' (H(nat i := H (nat i) @ [s]))"
    unfolding s(2) using assms(1,3) g(2) snapshot_valid [OF s(1)] by (intro store_sample_history) auto
  ultimately show ?thesis using s(2) by auto
qed

lemma sample_fold_history:
  assumes "holds_history r H" "fold (sample_one E D now) xs (r, t) = (r', t')" "distinct xs" "\<forall>x \<in> set xs. 0 \<le> x"
  shows "\<exists>new. (\<forall>i. fresh_sample r i (new i) \<and> (int i \<notin> set xs \<longrightarrow> new i = [])) \<and>
    holds_history r' (\<lambda>i. H i @ new i) \<and> run_core r' = run_core r \<and> slast_ms r' = slast_ms r"
  using assms
proof (induction xs arbitrary: r t H)
  case Nil
  then show ?case by (intro exI [of _ "\<lambda>i. []"]) simp
next
  case (Cons x xs)
  obtain r1 t1 where s: "sample_one E D now x (r, t) = (r1, t1)" by fastforce
  obtain nx where nx: "fresh_sample r (nat x) nx" "holds_history r1 (H(nat x := H (nat x) @ nx))"
    "run_core r1 = run_core r" "slast_ms r1 = slast_ms r"
    using sample_one_history [OF Cons.prems(1) s] Cons.prems(4) by auto
  obtain new where new: "\<forall>i. fresh_sample r1 i (new i) \<and> (int i \<notin> set xs \<longrightarrow> new i = [])"
    "holds_history r' (\<lambda>i. (H(nat x := H (nat x) @ nx)) i @ new i)" "run_core r' = run_core r1" "slast_ms r' = slast_ms r1"
    using Cons.IH [OF nx(2), of t1] Cons.prems s by auto
  have x: "int (nat x) = x" "x \<notin> set xs" using Cons.prems(3,4) by auto
  with new(1) have "new (nat x) = []" by metis
  then have "(\<lambda>i. (H(nat x := H (nat x) @ nx)) i @ new i) = (\<lambda>i. H i @ (new(nat x := nx)) i)" by auto
  moreover have "\<forall>i. fresh_sample r i ((new(nat x := nx)) i) \<and> (int i \<notin> set (x # xs) \<longrightarrow> (new(nat x := nx)) i = [])"
    using new(1) nx(1) x fresh_core [OF nx(3)] by auto
  ultimately show ?case using new(2-4) nx(3,4) by (intro exI [of _ "new(nat x := nx)"]) simp
qed

lemma map_prod_Some: "map_prod Some (\<lambda>t. t) p = (Some a, b) \<longleftrightarrow> p = (a, b)"
  by (cases p) simp

lemma holds_history_slast [simp]: "holds_history (r\<lparr>slast_ms := v\<rparr>) H = holds_history r H"
  by (simp add: holds_history_def store_shape_def stored_def)

lemma core_slast [simp]: "run_core (r\<lparr>slast_ms := v\<rparr>) = run_core r"
  by (simp add: run_core_def)

section \<open>The calls of a sampler pass\<close>

fun watch_call :: "request \<times> int \<Rightarrow> bool" where
  "watch_call (Open_file p, a) = True"
| "watch_call (Read fd n, a) = True"
| "watch_call (Close fd, a) = True"
| "watch_call (Pagesize, a) = True"
| "watch_call (Monotonic, a) = True"
| "watch_call _ = False"

lemma proc_read_watches: "adds watch_call t (snd (proc_read E D path cap t))"
  by (auto simp: proc_read_def sys_eq call_eq Let_def adds_def split: prod.splits)

lemma proc_io_watches: "adds watch_call t (snd (proc_io E D pid t))"
proof (cases "snprintf PROC_LEN (''/proc/'' @ fmt_d pid @ ''/io'')")
  case (Some path)
  then show ?thesis using proc_read_watches [of t E D path IO_LEN]
    by (cases "proc_read E D path IO_LEN t") (auto simp: proc_io_def simp del: append.simps split: option.splits)
qed (simp add: proc_io_def del: append.simps)

lemma snapshot_watches: "adds watch_call t (snd (snapshot E D pid now t))"
proof (cases "snprintf PROC_LEN (''/proc/'' @ fmt_d pid @ ''/stat'')")
  case (Some path)
  obtain so u where p: "proc_read E D path STAT_LEN t = (so, u)" by fastforce
  then have u: "adds watch_call t u" using proc_read_watches [of t E D path STAT_LEN] by simp
  show ?thesis
  proof (cases "so = None \<or> stat_text (the so) = None")
    case True
    then show ?thesis using Some p u by (auto simp: snapshot_def simp del: append.simps split: option.splits)
  next
    case False
    then obtain buf ut st pages where so: "so = Some buf" "stat_text buf = Some (ut, st, pages)" by auto
    have "adds watch_call t (snd (proc_io E D pid (snd (sys E Pagesize u))))"
      by (rule adds_trans [OF u adds_trans [OF _ proc_io_watches]]) (simp add: adds_sys)
    then show ?thesis using Some p so
      by (simp add: snapshot_def Let_def case_prod_beta sys_eq del: append.simps)
  qed
qed (simp add: snapshot_def del: append.simps)

lemma sample_one_watches: "adds watch_call t (snd (sample_one E D now i (r, t)))"
proof (cases "snapshot E D (r_pids r ! nat i) now t")
  case (Pair so u)
  then show ?thesis using snapshot_watches [of t E D "r_pids r ! nat i" now]
    by (auto simp: sample_one_def Let_def split: option.splits)
qed

lemma sample_fold_watches: "adds watch_call t (snd (fold (sample_one E D now) xs (r, t)))"
proof (induction xs arbitrary: r t)
  case (Cons x xs)
  obtain r1 t1 where s: "sample_one E D now x (r, t) = (r1, t1)" by fastforce
  then have "adds watch_call t t1" using sample_one_watches [of t E D now x r] by simp
  then show ?case using Cons [of t1 r1] s by (auto intro: adds_trans)
qed simp

lemma sample_pass_watches: "adds watch_call t (snd (sample_pass E D rp force t))"
proof (cases rp)
  case (Some r)
  obtain now u where c: "now_ms E t = (now, u)" by fastforce
  then have "adds watch_call t u" by (auto simp: now_ms_def sys_eq Let_def adds_one split: if_splits)
  then show ?thesis using Some c sample_fold_watches [of u E D now] by (auto simp: sample_pass_def intro: adds_trans)
qed (simp add: sample_pass_def)

section \<open>How often samples are taken\<close>

fun ticks :: "os \<Rightarrow> filled \<Rightarrow> nat \<Rightarrow> run ptr \<times> trace \<Rightarrow> run ptr \<times> trace" where
  "ticks E D 0 s = s"
| "ticks E D (Suc k) (rp, t) = ticks E D k (run_sample_tick E D rp t)"

text \<open>The monotonic clock works, is past its first millisecond, and does not go back.\<close>

definition mono_clock :: "os \<Rightarrow> bool" where
  "mono_clock E =
     (\<forall>t new. 1000000 \<le> E t Monotonic \<and> E t Monotonic \<le> LONG_MAX \<and> E t Monotonic \<le> E (new @ t) Monotonic)"

definition clock_at :: "os \<Rightarrow> trace \<Rightarrow> int" where
  "clock_at E t = E t Monotonic div 1000000"

lemma clock_bounds:
  assumes "mono_clock E"
  shows "1 \<le> clock_at E t" "clock_at E t < 2 ^ 63" "fst (now_ms E t) = of_int (clock_at E t)"
proof -
  have "1000000 \<le> E t Monotonic" "E t Monotonic \<le> LONG_MAX" using assms by (auto simp: mono_clock_def)
  then show "1 \<le> clock_at E t" "clock_at E t < 2 ^ 63" "fst (now_ms E t) = of_int (clock_at E t)"
    by (auto simp: clock_at_def now_ms_def sys_eq Let_def LONG_MAX_def)
qed

lemma clock_mono: "mono_clock E \<Longrightarrow> adds P t u \<Longrightarrow> clock_at E t \<le> clock_at E u"
  by (auto simp: mono_clock_def clock_at_def adds_def zdiv_mono1)

lemma int_of_int_id: "0 \<le> l \<Longrightarrow> l < 2 ^ 63 \<Longrightarrow> uint (of_int l :: u64) = l"
  by (simp add: uint_word_of_int take_bit_int_eq_self)

lemma gap_word:
  assumes "0 \<le> l" "l \<le> a" "a < 2 ^ 63"
  shows "(of_int a - of_int l < RUN_SAMPLE_GAP_MS) = (a - l < 250)"
proof -
  have "(of_int a - of_int l :: u64) = of_int (a - l)" by simp
  moreover have "uint (of_int (a - l) :: u64) = a - l" using assms by (intro int_of_int_id) simp_all
  ultimately show ?thesis by (simp add: word_less_def RUN_SAMPLE_GAP_MS_def del: of_int_diff)
qed

lemma of_int_zero: "0 \<le> l \<Longrightarrow> l < 2 ^ 63 \<Longrightarrow> (of_int l :: u64) = 0 \<longleftrightarrow> l = 0"
  using int_of_int_id [of l] by auto

text \<open>A tick either leaves the run alone, or stamps it with the clock and takes new samples.\<close>

lemma tick_cases:
  assumes "mono_clock E" "holds_history r H" "run_sample_tick E D (Some r) t = (Some r', t')"
    and "slast_ms r = of_int l" "0 \<le> l" "l \<le> clock_at E t"
  shows "r' = r \<or> ((l \<noteq> 0 \<longrightarrow> l + 250 \<le> clock_at E t) \<and> slast_ms r' = of_int (clock_at E t) \<and>
    (\<exists>new. (\<forall>i. length (new i :: run_sample list) \<le> 1) \<and> holds_history r' (\<lambda>i. H i @ new i)))"
proof (cases "r_n r < 1 \<or> r_n r > int TUN_MAP_MAX")
  case True
  then show ?thesis using assms(3) by (auto simp: run_sample_tick_def sample_pass_def)
next
  case False
  obtain u where u: "now_ms E t = (of_int (clock_at E t), u)"
    using clock_bounds(3) [OF assms(1), of t] by (cases "now_ms E t") simp
  note b = clock_bounds(2) [OF assms(1), of t]
  have zero: "slast_ms r \<noteq> 0 \<longleftrightarrow> l \<noteq> 0" using of_int_zero [of l] assms(4-6) b by simp
  show ?thesis
  proof (cases "l \<noteq> 0 \<and> clock_at E t - l < 250")
    case True
    then show ?thesis using assms(3,4) False u zero gap_word [OF assms(5,6) b]
      by (simp add: run_sample_tick_def sample_pass_def)
  next
    case due: False
    with assms(3,4) False u zero gap_word [OF assms(5,6) b]
    have "fold (sample_one E D (of_int (clock_at E t))) [0..r_n r - 1]
        (r\<lparr>slast_ms := of_int (clock_at E t)\<rparr>, u) = (r', t')"
      by (auto simp: run_sample_tick_def sample_pass_def map_prod_Some)
    from sample_fold_history [OF _ this, of H] assms(2)
    obtain new where "\<forall>i. fresh_sample r i (new i)" "holds_history r' (\<lambda>i. H i @ new i)"
      "slast_ms r' = of_int (clock_at E t)"
      by (auto simp: fresh_core [OF core_slast])
    with due show ?thesis by (auto simp: fresh_sample_def)
  qed
qed

lemma sample_pass_some: "\<exists>r' t'. sample_pass E D (Some r) force t = (Some r', t')"
  by (cases "now_ms E t", cases "fold (sample_one E D (fst (now_ms E t))) [0..r_n r - 1] (r\<lparr>slast_ms := fst (now_ms E t)\<rparr>, snd (now_ms E t))")
    (simp add: sample_pass_def)

lemma tick_some: "\<exists>r' t'. run_sample_tick E D (Some r) t = (Some r', t')"
  using sample_pass_some by (simp add: run_sample_tick_def)

lemma stamped_rate:
  assumes "mono_clock E" "holds_history r H" "ticks E D k (Some r, t) = (Some r', t')"
    and "slast_ms r = of_int l" "0 < l" "l \<le> clock_at E t"
  shows "\<exists>H'. holds_history r' H' \<and> (\<forall>i. l + 250 * int (length (H' i) - length (H i)) \<le> clock_at E t' \<and> prefix (H i) (H' i))"
  using assms(2-)
proof (induction k arbitrary: r t H l)
  case 0
  then show ?case by (intro exI [of _ H]) simp
next
  case (Suc k)
  obtain r1 t1 where s: "run_sample_tick E D (Some r) t = (Some r1, t1)" using tick_some by blast
  then have "adds watch_call t t1" using sample_pass_watches [of t E D "Some r" False] by (simp add: run_sample_tick_def)
  then have up: "clock_at E t \<le> clock_at E t1" by (rule clock_mono [OF assms(1)])
  have rest: "ticks E D k (Some r1, t1) = (Some r', t')" using Suc.prems(2) s by simp
  from tick_cases [OF assms(1) Suc.prems(1) s Suc.prems(3)] Suc.prems(4,5)
  consider "r1 = r" | new where "l + 250 \<le> clock_at E t" "slast_ms r1 = of_int (clock_at E t)"
      "\<forall>i. length (new i :: run_sample list) \<le> 1" "holds_history r1 (\<lambda>i. H i @ new i)"
    by auto
  then show ?case
  proof cases
    case 1
    then show ?thesis using Suc.IH [of r1 H t1 l] Suc.prems rest up by auto
  next
    case (2 new)
    from Suc.IH [OF 2(4) rest 2(2)] up clock_bounds(1) [OF assms(1), of t]
    obtain H' where H': "holds_history r' H'"
      "\<And>i. clock_at E t + 250 * int (length (H' i) - length (H i @ new i)) \<le> clock_at E t'" "\<And>i. prefix (H i @ new i) (H' i)"
      by auto
    have "l + 250 * int (length (H' i) - length (H i)) \<le> clock_at E t' \<and> prefix (H i) (H' i)" for i
      using H'(2) [of i] H'(3) [of i] 2(1) spec [OF 2(3), of i] prefix_length_le [OF H'(3) [of i]]
      by (auto simp: append_prefixD)
    with H'(1) show ?thesis by blast
  qed
qed

text \<open>A clock that fails reads as 0, which leaves the gate open for ever.\<close>

lemma sample_fold_slast:
  "slast_ms (fst (fold (sample_one E D now) xs (r, t))) = slast_ms r \<and>
   run_core (fst (fold (sample_one E D now) xs (r, t))) = run_core r"
proof (induction xs arbitrary: r t)
  case (Cons x xs)
  obtain r1 t1 where s: "sample_one E D now x (r, t) = (r1, t1)" by fastforce
  then have "slast_ms r1 = slast_ms r \<and> run_core r1 = run_core r"
    by (cases "snapshot E D (r_pids r ! nat x) now t") (auto simp: sample_one_def Let_def split: if_splits option.splits)
  then show ?case using Cons s by simp
qed simp

lemma sample_pass_core:
  assumes "sample_pass E D (Some r) force t = (Some r', t')"
  shows "run_core r' = run_core r"
proof (cases "r' = r")
  case False
  obtain now u where "fold (sample_one E D now) [0..r_n r - 1] (r\<lparr>slast_ms := now\<rparr>, u) = (r', t')"
    using assms False by (auto simp: sample_pass_def map_prod_Some split: if_splits prod.splits)
  then show ?thesis using sample_fold_slast [of E D now "[0..r_n r - 1]" "r\<lparr>slast_ms := now\<rparr>" u] by simp
qed simp

lemma broken_clock_never_gates:
  assumes "\<And>t. E t Monotonic < 0" "slast_ms r = 0" "sample_pass E D (Some r) False t = (Some r', t')"
  shows "sample_pass E D (Some r) True t = (Some r', t') \<and> slast_ms r' = 0"
proof (cases "r_n r < 1 \<or> r_n r > int TUN_MAP_MAX")
  case False
  have now: "now_ms E t = (0, (Monotonic, E t Monotonic) # t)" using assms(1) by (simp add: now_ms_def sys_eq)
  with False assms(2,3) have f: "fold (sample_one E D 0) [0..r_n r - 1] (r\<lparr>slast_ms := 0\<rparr>, (Monotonic, E t Monotonic) # t) = (r', t')"
    by (simp add: sample_pass_def map_prod_Some)
  then have "slast_ms r' = 0" using sample_fold_slast [of E D 0 "[0..r_n r - 1]" "r\<lparr>slast_ms := 0\<rparr>" "(Monotonic, E t Monotonic) # t"]
    by simp
  with False now f show ?thesis by (simp add: sample_pass_def map_prod_Some)
qed (use assms in \<open>auto simp: sample_pass_def\<close>)

lemma clear_store_history:
  assumes "clear_store alloc r = (True, r')"
  shows "holds_history r' (\<lambda>i. []) \<and> run_core r' = run_core r \<and> slast_ms r' = 0"
  using assms by (auto simp: clear_store_def Let_def holds_history_def store_shape_def stored_def kept_def
      peak_rss_def run_core_def split: if_splits)

text \<open>A run of one node whose child has pid 7, and a host that answers for its files.\<close>

definition idle_run :: run where
  "idle_run = \<lparr>r_ctx = start_context, r_map = no_slots, r_net = run_net 1, r_fds = [], r_logfds = [],
     r_pids = [7], r_p = [], r_n = 1, r_dead = - 1, r_done = False, shist = None, shead = [], scount = [],
     sdropped = [], speak = [], sutime = [], sstime = [], slast_ms = 0\<rparr>"

definition one_child :: run where
  "one_child = snd (clear_store (\<lambda>s k. True) idle_run)"

lemma one_child: "holds_history one_child (\<lambda>i. [])" "slast_ms one_child = 0" "r_n one_child = 1"
  "r_pids one_child = [7]" "r_dead one_child = - 1"
proof -
  have "clear_store (\<lambda>s k. True) idle_run = (True, one_child)" by (simp add: one_child_def clear_store_def Let_def)
  from clear_store_history [OF this]
  show "holds_history one_child (\<lambda>i. [])" "slast_ms one_child = 0" "r_n one_child = 1"
    "r_pids one_child = [7]" "r_dead one_child = - 1"
    by (simp_all add: run_core_def idle_run_def)
qed

definition ticking :: os where
  "ticking t r =
     (case r of Monotonic \<Rightarrow> min LONG_MAX (1000000 + 250000000 * int (length t)) | Open_file p \<Rightarrow> 3
      | Read fd n \<Rightarrow> 100 | _ \<Rightarrow> 0)"

definition stat_line :: string where
  "stat_line = ''7 (a) S (b)'' @ spaced (replicate 11 ''0'' @ [fmt_d 41, fmt_d 5] @ replicate 8 ''0'' @ [fmt_d 300]) @ [CHR 0x0A]"

lemma ticking_clock: "mono_clock ticking"
  by (auto simp: mono_clock_def ticking_def LONG_MAX_def min_def)

section \<open>Properties\<close>

text \<open>
  C30. The sampler reads the user time, the system time and the resident pages of a process off a
  line of \<open>/proc/<pid>/stat\<close>, for every value of the two counters and every \<open>long\<close>, whatever
  name the process has: blanks and parentheses in it do not shift the fields.
\<close>

theorem proc_stat_reads:
  assumes "length a = 11" "length b = 8" "list_all blanks_free a" "list_all blanks_free b"
    and "rss \<le> LONG_MAX" "- LONG_MAX - 1 \<le> rss" "field_end rest"
    and "CHR '')'' \<notin> set (concat a @ concat b @ rest)"
  shows "stat_text (pid @ '' ('' @ comm @ '')'' @
      spaced (a @ [fmt_d (uint ut), fmt_d (uint st)] @ b @ [fmt_d rss]) @ rest) = Some (ut, st, rss)"
proof -
  let ?tl = "spaced (a @ [fmt_d (uint ut), fmt_d (uint st)] @ b @ [fmt_d rss]) @ rest"
  have "CHR '')'' \<notin> set (fmt_d v)" for v
    using digits_is_digit [of "nat v"] digits_is_digit [of "nat (- v)"]
    by (auto simp: fmt_d_def list_all_iff is_digit_def digit_of_def)
  then have "CHR '')'' \<notin> set ?tl" using assms(8) by (auto simp: spaced_def)
  from strrchr_last [OF this, of "pid @ '' ('' @ comm"]
  have "strrchr (CHR '')'') (pid @ '' ('' @ comm @ '')'' @ ?tl) = Some ?tl" by simp
  then show ?thesis using stat_fields_correct [OF assms(1-7), of ut st] by (simp only: stat_text_def option.case)
qed

theorem proc_stat_reads_witness:
  "stat_text (''7'' @ '' ('' @ ''a) S (b'' @ '')'' @ spaced (replicate 11 ''0'' @
    [fmt_d (uint (41 :: u64)), fmt_d (uint (5 :: u64))] @ replicate 8 ''0'' @ [fmt_d 300]) @ [CHR 0x0A]) = Some (41, 5, 300)"
  by (rule proc_stat_reads) (auto simp: blanks_free_def blank_def LONG_MAX_def field_end_def list_all_iff)

text \<open>
  A sampler pass appends at most one sample to the history of a node, a sample of the child in
  the slot of that node, and none for a dead node or an empty slot. The store goes on holding
  the history of every node, and nothing else of the run changes.
\<close>

theorem sampler_history:
  assumes "holds_history r H" "sample_pass E D (Some r) force t = (Some r', t')"
  shows "\<exists>new. (\<forall>i. fresh_sample r i (new i)) \<and> holds_history r' (\<lambda>i. H i @ new i) \<and> run_core r' = run_core r"
proof (cases "r' = r")
  case True
  with assms(1) show ?thesis by (intro exI [of _ "\<lambda>i. []"]) simp
next
  case False
  obtain now u where "fold (sample_one E D now) [0..r_n r - 1] (r\<lparr>slast_ms := now\<rparr>, u) = (r', t')"
    using assms(2) False by (auto simp: sample_pass_def map_prod_Some split: if_splits prod.splits)
  from sample_fold_history [OF _ this, of H] assms(1) show ?thesis
    by (auto simp: fresh_core [OF core_slast])
qed

theorem sampler_history_witness:
  "\<exists>r' t'. sample_pass ticking (\<lambda>t. stat_line) (Some one_child) False [] = (Some r', t') \<and>
    (\<exists>H. holds_history r' H \<and> length (H 0) \<le> 1)"
proof -
  obtain r' t' where p: "sample_pass ticking (\<lambda>t. stat_line) (Some one_child) False [] = (Some r', t')"
    using tick_some [of ticking "\<lambda>t. stat_line" one_child "[]"] by (auto simp: run_sample_tick_def)
  from sampler_history [OF one_child(1) this] p show ?thesis
    by (auto simp: fresh_sample_def)
qed

text \<open>
  C31. What the readers say of a store that holds the history \<open>ss\<close> of a node: how many samples are
  stored and dropped, the latest, the peak and the processor time of the whole history, and slot
  by slot the samples kept. A full store keeps the first 4,095 samples and the last one, so the
  slot of the newest sample is overwritten by every further pass.
\<close>

theorem sampler_reads:
  assumes "holds_history r H" "0 \<le> i" "i < r_n r" "r_n r \<le> int TUN_MAP_MAX"
  shows "let ss = H (nat i) in
    run_sample_count (Some r) i = int (min (length ss) RUN_SAMPLE_CAP) \<and>
    run_sample_dropped (Some r) i = int (length ss - RUN_SAMPLE_CAP) \<and>
    run_sample_get (Some r) i = (if ss = [] then No else Got (last ss)) \<and>
    run_sample_hist (Some r) i ago =
      (if 0 \<le> ago \<and> ago < int (length (kept ss)) then Got (rev (kept ss) ! nat ago) else No) \<and>
    run_sample_peak (Some r) i = (if ss = [] then None else Some (Max (s_rss ` set ss))) \<and>
    run_sample_cpu (Some r) i = (if ss = [] then None else Some (s_utime (last ss), s_stime (last ss)))"
proof -
  define ss where "ss = H (nat i)"
  have lt: "i < int TUN_MAP_MAX" using assms(3,4) by simp
  then have st: "stored r (nat i) ss" using assms(1,2) by (auto simp: holds_history_def ss_def)
  then obtain h where h: "shist r = Some h" "take (length (kept ss)) (h ! nat i) = kept ss"
    by (auto simp: stored_def split: option.splits)
  have ne: "kept ss = [] \<longleftrightarrow> ss = []" "ss \<noteq> [] \<Longrightarrow> last (kept ss) = last ss"
    using length_kept [of ss] cap_pos by (auto simp: kept_def min_def split: if_splits)
  have some: "min (length ss) RUN_SAMPLE_CAP = 0 \<longleftrightarrow> ss = []" using cap_pos by (auto simp: min_def)
  have valid: "s_valid (kept ss ! k)" if "k < length (kept ss)" for k
  proof -
    have "set (kept ss) \<subseteq> set ss" using ne by (auto simp: kept_def dest: in_set_takeD)
    then show ?thesis using st nth_mem [OF that] by (auto simp: stored_def list_all_iff)
  qed
  have hist: "run_sample_hist (Some r) i ago =
      (if 0 \<le> ago \<and> ago < int (length (kept ss)) then Got (rev (kept ss) ! nat ago) else No)" for ago
  proof (cases "0 \<le> ago \<and> ago < int (length (kept ss))")
    case True
    define k where "k = length (kept ss) - 1 - nat ago"
    have k: "nat (int (length (kept ss)) - 1 - ago) = k" "k < length (kept ss)"
      using True unfolding k_def by linarith+
    have "h ! nat i ! k = kept ss ! k" using h(2) k(2) by (metis nth_take)
    moreover have "nat ago < length (kept ss)" using True by linarith
    then have "rev (kept ss) ! nat ago = kept ss ! k" by (simp add: rev_nth k_def)
    moreover have "ago < int RUN_SAMPLE_CAP" using True length_kept [of ss] by linarith
    ultimately show ?thesis
      using True k h(1) st assms(2,3) lt valid [OF k(2)] by (auto simp: run_sample_hist_def stored_def Let_def)
  next
    case False
    then show ?thesis using st assms(2,3) lt by (auto simp: run_sample_hist_def stored_def)
  qed
  moreover have "run_sample_get (Some r) i = (if ss = [] then No else Got (last ss))"
    using ne by (simp add: run_sample_get_def hist rev_nth last_conv_nth)
  moreover have "run_sample_count (Some r) i = int (min (length ss) RUN_SAMPLE_CAP)"
    "run_sample_dropped (Some r) i = int (length ss - RUN_SAMPLE_CAP)"
    "run_sample_cpu (Some r) i = (if ss = [] then None else Some (s_utime (last ss), s_stime (last ss)))"
    using st assms(2,3) lt ne(1) some
    by (simp_all add: run_sample_count_def run_sample_dropped_def run_sample_cpu_def stored_def length_kept Let_def)
  moreover have "Max (insert 0 (s_rss ` set ss)) = Max (s_rss ` set ss)" if "ss \<noteq> []" using that by simp
  then have "run_sample_peak (Some r) i = (if ss = [] then None else Some (Max (s_rss ` set ss)))"
    using st assms(2,3) lt ne(1) by (simp add: run_sample_peak_def stored_def peak_rss_def)
  ultimately show ?thesis using hist by (simp add: Let_def flip: ss_def)
qed

theorem sampler_reads_witness:
  "run_sample_count (Some (store_sample one_child 0 (empty_sample\<lparr>s_valid := True, s_rss := 9\<rparr>))) 0 = 1 \<and>
   run_sample_peak (Some (store_sample one_child 0 (empty_sample\<lparr>s_valid := True, s_rss := 9\<rparr>))) 0 = Some 9"
proof -
  let ?s = "empty_sample\<lparr>s_valid := True, s_rss := 9\<rparr>"
  have "holds_history (store_sample one_child 0 ?s) ((\<lambda>i. [])(0 := [] @ [?s]))"
    using one_child(1) by (rule store_sample_history) (simp_all add: TUN_MAP_MAX_def)
  moreover have "r_n (store_sample one_child 0 ?s) = 1"
    using run_core_simps(8) [OF store_sample_core(1)] one_child(3) by simp
  ultimately show ?thesis
    using sampler_reads [of "store_sample one_child 0 ?s" "(\<lambda>i. [])(0 := [] @ [?s])" 0 0]
    by (simp add: TUN_MAP_MAX_def RUN_SAMPLE_CAP_def Let_def)
qed

text \<open>
  C32. However often the sampler is ticked, over a time of \<open>d\<close> milliseconds a node gets at most
  \<open>d / 250 + 1\<close> samples, while the monotonic clock works. A clock that fails leaves the gate
  open: see \<open>broken_clock_never_gates\<close>.
\<close>

theorem sampler_rate:
  assumes "mono_clock E" "holds_history r H" "ticks E D k (Some r, t) = (Some r', t')"
    and "slast_ms r = of_int l" "0 \<le> l" "l \<le> clock_at E t"
  shows "\<exists>H'. holds_history r' H' \<and>
    (\<forall>i. prefix (H i) (H' i) \<and> 250 * int (length (H' i) - length (H i)) \<le> clock_at E t' - clock_at E t + 250)"
  using assms(2-)
proof (induction k arbitrary: r t H l)
  case 0
  then show ?case by (intro exI [of _ H]) simp
next
  case (Suc k)
  obtain r1 t1 where s: "run_sample_tick E D (Some r) t = (Some r1, t1)" using tick_some by blast
  then have "adds watch_call t t1" using sample_pass_watches [of t E D "Some r" False] by (simp add: run_sample_tick_def)
  then have up: "clock_at E t \<le> clock_at E t1" by (rule clock_mono [OF assms(1)])
  have rest: "ticks E D k (Some r1, t1) = (Some r', t')" using Suc.prems(2) s by simp
  from tick_cases [OF assms(1) Suc.prems(1) s Suc.prems(3-5)]
  consider "r1 = r" | new where "slast_ms r1 = of_int (clock_at E t)"
      "\<forall>i. length (new i :: run_sample list) \<le> 1" "holds_history r1 (\<lambda>i. H i @ new i)"
    by auto
  then show ?case
  proof cases
    case 1
    then obtain H' where "holds_history r' H'" "\<forall>i. prefix (H i) (H' i) \<and>
        250 * int (length (H' i) - length (H i)) \<le> clock_at E t' - clock_at E t1 + 250"
      using Suc.IH [of r1 H t1 l] Suc.prems rest up by auto
    with up show ?thesis by (intro exI [of _ H']) (auto intro: order_trans)
  next
    case (2 new)
    have "0 < clock_at E t" using clock_bounds(1) [OF assms(1), of t] by simp
    from stamped_rate [OF assms(1) 2(3) rest 2(1) this up]
    obtain H' where H': "holds_history r' H'"
      "\<And>i. clock_at E t + 250 * int (length (H' i) - length (H i @ new i)) \<le> clock_at E t'" "\<And>i. prefix (H i @ new i) (H' i)"
      by blast
    have "prefix (H i) (H' i) \<and> 250 * int (length (H' i) - length (H i)) \<le> clock_at E t' - clock_at E t + 250" for i
      using H'(2) [of i] H'(3) [of i] spec [OF 2(2), of i] prefix_length_le [OF H'(3) [of i]]
      by (auto simp: append_prefixD)
    with H'(1) show ?thesis by blast
  qed
qed

theorem sampler_rate_witness:
  "\<exists>r' t' H. ticks ticking (\<lambda>t. stat_line) 2 (Some one_child, []) = (Some r', t') \<and> holds_history r' H \<and>
    250 * int (length (H 0)) \<le> clock_at ticking t' - clock_at ticking [] + 250"
proof -
  obtain r' t' where p: "ticks ticking (\<lambda>t. stat_line) 2 (Some one_child, []) = (Some r', t')"
    using tick_some by (metis ticks.simps numeral_2_eq_2)
  from sampler_rate [OF ticking_clock one_child(1) p, where l = 0]
  obtain H where "holds_history r' H"
    "\<forall>i. 250 * int (length (H i)) \<le> clock_at ticking t' - clock_at ticking [] + 250"
    using one_child(2) clock_bounds(1) [OF ticking_clock, of "[]"] by auto
  with p show ?thesis by blast
qed

end
