(* ===== verification/Sim_Spawn.thy ===== *)
theory Sim_Spawn
  imports Sim_Host
begin

text \<open>
  Child processes, the second half of \<open>sim/sim.c\<close>: control groups, the files a node needs,
  forking a node, stopping it, and undoing a start that failed half way.

  \<open>fork\<close> returns twice: an operation that forks has the result \<open>Parent\<close> with what it returns
  to its caller, or \<open>Child\<close> with the trace of the new process up to its \<open>exec\<close> or \<open>_exit\<close>,
  depending on the answer. A wait that never ends has the result \<open>None\<close>.
\<close>

section \<open>Stopping a child\<close>

definition SPAWN_KILL_S :: int where
  "SPAWN_KILL_S = 5"

text \<open>\<open>while (waitpid(pid, nullptr, 0) < 0 && errno == EINTR) {}\<close>\<close>

partial_function (option) reap :: "os \<Rightarrow> int \<Rightarrow> trace \<Rightarrow> trace option" where
  "reap E pid t =
     (case sys E (Waitpid pid False) t of
        (w, t) \<Rightarrow> if w = - EINTR then reap E pid t else Some t)"

partial_function (option) wait_loop :: "os \<Rightarrow> int \<Rightarrow> int \<Rightarrow> int \<Rightarrow> trace \<Rightarrow> trace option" where
  "wait_loop E secs pid t0 t =
     (case sys E (Waitpid pid True) t of
        (w, t) \<Rightarrow>
          if w = pid then Some t
          else if w = - ECHILD then Some t
          else
            (case sys E Time t of
               (now, t) \<Rightarrow>
                 if now - t0 \<ge> secs then reap E pid (call E (Kill pid SIGKILL) t)
                 else wait_loop E secs pid t0 (call E Nanosleep t)))"

text \<open>
  The function that \<open>spawn_wait\<close> and \<open>teardown_wait\<close> of \<open>run/run.c\<close> both spell out, with the
  bound on the polite wait; a clock that fails answers \<open>-1\<close>.
\<close>

definition stop_child :: "os \<Rightarrow> int \<Rightarrow> int \<Rightarrow> trace \<Rightarrow> trace option" where
  "stop_child E secs pid t =
     (if pid \<le> 0 then Some t
      else
        let t = call E (Kill pid SIGTERM) t in
        (case sys E Time t of
           (t0, t) \<Rightarrow>
             if t0 = -1 then reap E pid (call E (Kill pid SIGKILL) t)
             else wait_loop E secs pid t0 t))"

definition spawn_wait :: "os \<Rightarrow> int \<Rightarrow> trace \<Rightarrow> trace option" where
  "spawn_wait E pid t = stop_child E SPAWN_KILL_S pid t"

type_synonym slots_state = "int list \<times> int list \<times> trace"

definition close_slot :: "os \<Rightarrow> nat \<Rightarrow> int list \<Rightarrow> trace \<Rightarrow> int list \<times> trace" where
  "close_slot E k fds t =
     (if fds ! k \<ge> 0 then (fds[k := -1], call E (Close (fds ! k)) t) else (fds, t))"

fun spawn_unwind_from :: "os \<Rightarrow> nat list \<Rightarrow> slots_state \<Rightarrow> slots_state option" where
  "spawn_unwind_from E [] s = Some s"
| "spawn_unwind_from E (k # ks) (pids, logfds, t) =
     (case (if pids ! k > 0 then map_option (\<lambda>t. (pids[k := -1], t)) (spawn_wait E (pids ! k) t)
            else Some (pids, t)) of
        None \<Rightarrow> None
      | Some (pids, t) \<Rightarrow>
          (case close_slot E k logfds t of
             (logfds, t) \<Rightarrow> spawn_unwind_from E ks (pids, logfds, t)))"

definition spawn_unwind :: "os \<Rightarrow> nat \<Rightarrow> slots_state \<Rightarrow> slots_state option" where
  "spawn_unwind E cnt s = spawn_unwind_from E [0..<cnt] s"

section \<open>Files and control groups\<close>

text \<open>Build a text, fail when it does not fit, go on with it otherwise.\<close>

definition fit :: "nat \<Rightarrow> string \<Rightarrow> (string \<Rightarrow> trace \<Rightarrow> bool \<times> trace) \<Rightarrow> trace \<Rightarrow> bool \<times> trace" where
  "fit cap s k t = (case snprintf cap s of None \<Rightarrow> (False, t) | Some s \<Rightarrow> k s t)"

definition cgroup_place_net :: "os \<Rightarrow> sim_net ptr \<Rightarrow> int \<Rightarrow> int \<Rightarrow> trace \<Rightarrow> bool \<times> trace" where
  "cgroup_place_net E np i pid t =
     (case np of
        None \<Rightarrow> (False, t)
      | Some net \<Rightarrow>
          run_seq
            [mkdir_ok E (cgroot net),
             fit BIG_LEN (cgroot net @ ''/cgroup.subtree_control'')
               (\<lambda>ctl. write_file E ctl ''+cpu +memory +pids''),
             (\<lambda>t. case cg_node_net net PATH_LEN i of
                None \<Rightarrow> (False, t)
              | Some sub \<Rightarrow>
                  run_seq
                    [mkdir_ok E sub,
                     fit SMALL_CMD (sub @ ''/cgroup.subtree_control'')
                       (\<lambda>target. write_file E target ''+cpu +memory +pids''),
                     fit BIG_LEN (sub @ ''/daemon'')
                       (\<lambda>leaf. run_seq
                          [mkdir_ok E leaf,
                           fit SMALL_CMD (leaf @ ''/cgroup.procs'')
                             (\<lambda>target. fit 32 (fmt_d pid) (write_file E target))])] t)] t)"

definition cgroup_enter_net :: "os \<Rightarrow> sim_net ptr \<Rightarrow> int \<Rightarrow> int \<Rightarrow> trace \<Rightarrow> bool \<times> trace" where
  "cgroup_enter_net E np i pid t = (True, snd (cgroup_place_net E np i pid t))"

definition GOSSIP_LEN :: int where
  "GOSSIP_LEN = 32"

definition ensure_gossip_key_net :: "os \<Rightarrow> sim_net ptr \<Rightarrow> trace \<Rightarrow> bool \<times> trace" where
  "ensure_gossip_key_net E np t =
     (case np of
        None \<Rightarrow> (False, t)
      | Some net \<Rightarrow>
          run_seq
            [mkdir_ok E (statedir net),
             (\<lambda>t. case gossip_path_net net PATH_LEN of
                None \<Rightarrow> (False, t)
              | Some path \<Rightarrow>
                  let (size, t) = sys E (Stat_size path) t in
                  if size = GOSSIP_LEN then (True, t)
                  else run_fit E CMD_LEN (''head -c '' @ fmt_d GOSSIP_LEN @ '' /dev/urandom > '' @ path @
                         '' && chmod 600 '' @ path) t)] t)"

definition ensure_parent_net :: "os \<Rightarrow> sim_net ptr \<Rightarrow> trace \<Rightarrow> bool \<times> trace" where
  "ensure_parent_net E np t =
     (case np of None \<Rightarrow> (False, t) | Some net \<Rightarrow> mkdir_ok E (statedir net) t)"

section \<open>Forking a node\<close>

datatype 'a forked = Parent 'a | Child trace

definition spawn_fail :: "os \<Rightarrow> int \<times> int \<Rightarrow> trace \<Rightarrow> bool \<times> trace" where
  "spawn_fail E pipedes t = (False, call E (Close (snd pipedes)) (call E (Close (fst pipedes)) t))"

text \<open>The double and the single quote.\<close>

abbreviation "dquote \<equiv> [CHR 0x22]"
abbreviation "squote \<equiv> [CHR 0x27]"

definition json_string :: "string \<Rightarrow> string" where
  "json_string s = dquote @ s @ dquote"

definition config_cmd :: "sim_net \<Rightarrow> string \<Rightarrow> int \<Rightarrow> int \<Rightarrow> string" where
  "config_cmd net dir i anchor_octet =
     ''mkdir -p '' @ dir @ ''/concord && uuid=$(cat /proc/sys/kernel/random/uuid) && printf '' @ squote @
     ''{'' @ json_string ''id'' @ '':'' @ json_string ''%s'' @ '','' @
     json_string ''memberlist_address'' @ '':'' @ json_string ''0.0.0.0:7946'' @ '','' @
     json_string ''advertise_address'' @ '':'' @ json_string (subnet net @ fmt_d (i + 1)) @
     (if anchor_octet \<noteq> 0
      then '','' @ json_string ''anchors'' @ '':[{'' @ json_string ''address'' @ '':'' @
           json_string (subnet net @ fmt_d anchor_octet @ '':7946'') @ ''}]''
      else []) @
     ''}'' @ squote @ '' '' @ dquote @ ''$uuid'' @ dquote @ '' > '' @ dir @ ''/concord/config.json''"

text \<open>What a node needs on disk before it starts, in its own configuration home.\<close>

definition seed_node :: "os \<Rightarrow> sim_net \<Rightarrow> int \<Rightarrow> int \<Rightarrow> string \<Rightarrow> trace \<Rightarrow> bool \<times> trace" where
  "seed_node E net i anchor_octet dir =
     run_seq
       [mkdir_ok E dir,
        fit BIG_LEN (dir @ ''/concord/certs'')
          (\<lambda>certs. run_seq
             [run_fit E CMD_LEN (''mkdir -p '' @ certs),
              run_fit E CMD_LEN (''cp certs/ca.crt '' @ certs @ ''/ 2>/dev/null''),
              run_fit E CMD_LEN (''cp certs/ca.key '' @ certs @ ''/ 2>/dev/null'')]),
        ensure_gossip_key_net E (Some net),
        run_fit E CMD_LEN (''mkdir -p '' @ dir @ ''/concord/memberservice''),
        (\<lambda>t. case gossip_path_net net PATH_LEN of
           None \<Rightarrow> (False, t)
         | Some path \<Rightarrow>
             run_fit E CMD_LEN (''cp '' @ path @ '' '' @ dir @ ''/concord/memberservice/secret.key && chmod 600 '' @
               dir @ ''/concord/memberservice/secret.key'') t),
        run_fit E CMD_LEN (config_cmd net dir i anchor_octet)]"

text \<open>The new process: into its namespace, output into the pipe, then the program.\<close>

definition enter_ns :: "os \<Rightarrow> string option \<Rightarrow> trace \<Rightarrow> bool \<times> trace" where
  "enter_ns E path t =
     (case path of
        None \<Rightarrow> (False, t)
      | Some path \<Rightarrow>
          let (nsfd, t) = sys E (Open_file path) t in
          if nsfd < 0 then (False, t)
          else
            let (a, t) = sys E (Setns nsfd) t; t = call E (Close nsfd) t in (a = 0, t))"

definition dup_to :: "os \<Rightarrow> int \<Rightarrow> int \<Rightarrow> trace \<Rightarrow> bool \<times> trace" where
  "dup_to E fd n t = (let (a, t) = sys E (Dup2 fd n) t in (a \<ge> 0, t))"

definition become :: "os \<Rightarrow> (trace \<Rightarrow> bool \<times> trace) list \<Rightarrow> int \<times> int \<Rightarrow> string \<Rightarrow> string list \<Rightarrow> trace \<Rightarrow> trace" where
  "become E steps pipedes bin argv t =
     (case run_seq (steps @ [dup_to E (snd pipedes) 1, dup_to E (snd pipedes) 2]) t of
        (False, t) \<Rightarrow> call E (Exit 127) t
      | (True, t) \<Rightarrow>
          let t = call E (Close (fst pipedes)) t; t = call E (Close (snd pipedes)) t;
              (a, t) = sys E (Exec bin argv) t
          in if a < 0 then call E (Exit 127) t else t)"

text \<open>What \<open>_exit\<close> and \<open>exec\<close> leave out: the child never returns.\<close>

definition spawn_one_net ::
  "os \<Rightarrow> sim_net ptr \<Rightarrow> int \<Rightarrow> int \<Rightarrow> int \<Rightarrow> string ptr \<Rightarrow> string ptr \<Rightarrow> int \<Rightarrow> trace \<Rightarrow>
   (bool \<times> int \<times> int \<times> trace) forked" where
  "spawn_one_net E np pid logfd i clock_offset anchor_arg anchor_octet t =
     (case np of
        None \<Rightarrow> Parent (False, pid, logfd, t)
      | Some net \<Rightarrow>
          if \<not> sim_net_valid np then Parent (False, pid, logfd, t)
          else
            let (r, t) = sys E Pipe t in
            if r < 0 then Parent (False, pid, logfd, t)
            else
              let (w, t) = sys E Pipe_end t;
                  t = cloexec_fd E r t; t = cloexec_fd E w t in
              (case node_dir_net net PATH_LEN i of
                 None \<Rightarrow> (case spawn_fail E (r, w) t of (ok, t) \<Rightarrow> Parent (ok, pid, logfd, t))
               | Some dir \<Rightarrow>
                   (case seed_node E net i anchor_octet dir t of
                      (False, t) \<Rightarrow> (case spawn_fail E (r, w) t of (ok, t) \<Rightarrow> Parent (ok, pid, logfd, t))
                    | (True, t) \<Rightarrow>
                        let (pid, t) = sys E Fork t in
                        if pid < 0 then (case spawn_fail E (r, w) t of (ok, t) \<Rightarrow> Parent (ok, pid, logfd, t))
                        else if pid = 0 then
                          let t = call E (Setenv ''XDG_CONFIG_HOME'' dir) t;
                              t = (case clock_offset of
                                     None \<Rightarrow> t
                                   | Some off \<Rightarrow> call E (Setenv ''CONCORD_CLOCK_OFFSET'' off) t) in
                          Child (become E
                            (if i > 0 \<or> isolate_all net \<noteq> 0
                             then [enter_ns E (ns_path_net net PATH_LEN i)] else [])
                            (r, w) ''./bin/concord''
                            (case anchor_arg of None \<Rightarrow> [''concord''] | Some arg \<Rightarrow> [''concord'', arg]) t)
                        else
                          let t = call E (Close w) t;
                              t = snd (cgroup_enter_net E np i pid t)
                          in Parent (True, pid, r, t))))"

section \<open>Starting the nodes of a run\<close>

text \<open>
  The loop every start shares: fork node after node; the first failure stops those already
  running. \<open>one\<close> is the call of \<open>spawn_one_net\<close> for a node.
\<close>

fun spawn_loop ::
  "os \<Rightarrow> (int \<Rightarrow> int \<Rightarrow> int \<Rightarrow> trace \<Rightarrow> (bool \<times> int \<times> int \<times> trace) forked) \<Rightarrow> int list \<Rightarrow> slots_state \<Rightarrow>
   (bool \<times> slots_state) forked option" where
  "spawn_loop E one [] s = Some (Parent (True, s))"
| "spawn_loop E one (i # is) (pids, logfds, t) =
     (case one i (pids ! nat i) (logfds ! nat i) t of
        Child t \<Rightarrow> Some (Child t)
      | Parent (ok, pid, logfd, t) \<Rightarrow>
          let pids = pids[nat i := pid]; logfds = logfds[nat i := logfd] in
          if ok then spawn_loop E one is (pids, logfds, t)
          else
            (case spawn_unwind E (nat i) (pids, logfds, t) of
               None \<Rightarrow> None
             | Some s \<Rightarrow> Some (Parent (False, s))))"

text \<open>
  The guards, the parent directory, and the presets. The arrays hold at least \<open>n\<close> entries;
  \<open>more_ok\<close> is the variant's own guard.
\<close>

type_synonym spawn_result = "(bool \<times> int list ptr \<times> int list ptr \<times> trace) forked option"

definition spawn_nodes ::
  "os \<Rightarrow> sim_net ptr \<Rightarrow> int list ptr \<Rightarrow> int list ptr \<Rightarrow> int \<Rightarrow> bool \<Rightarrow>
   (int \<Rightarrow> int \<Rightarrow> int \<Rightarrow> trace \<Rightarrow> (bool \<times> int \<times> int \<times> trace) forked) \<Rightarrow> trace \<Rightarrow> spawn_result" where
  "spawn_nodes E np pidsp logfdsp n more_ok one t =
     (if \<not> sim_net_valid np then Some (Parent (False, pidsp, logfdsp, t))
      else
        (case (pidsp, logfdsp) of
           (Some pids, Some logfds) \<Rightarrow>
             if n < 1 \<or> n > int TUN_MAP_MAX then Some (Parent (False, pidsp, logfdsp, t))
             else if \<not> more_ok then Some (Parent (False, pidsp, logfdsp, t))
             else
               (case ensure_parent_net E np t of
                  (False, t) \<Rightarrow> Some (Parent (False, pidsp, logfdsp, t))
                | (True, t) \<Rightarrow>
                    (case spawn_loop E one [0..n - 1] (preset (nat n) pids, preset (nat n) logfds, t) of
                       None \<Rightarrow> None
                     | Some (Child t) \<Rightarrow> Some (Child t)
                     | Some (Parent (ok, pids, logfds, t)) \<Rightarrow> Some (Parent (ok, Some pids, Some logfds, t))))
         | _ \<Rightarrow> Some (Parent (False, pidsp, logfdsp, t))))"

definition sim_spawn_concord_net ::
  "os \<Rightarrow> sim_net ptr \<Rightarrow> int list ptr \<Rightarrow> int list ptr \<Rightarrow> int \<Rightarrow> trace \<Rightarrow> spawn_result" where
  "sim_spawn_concord_net E np pids logfds n t =
     spawn_nodes E np pids logfds n True
       (\<lambda>i pid logfd. spawn_one_net E np pid logfd i None None 0) t"

definition sim_spawn_concord_skew_net ::
  "os \<Rightarrow> sim_net ptr \<Rightarrow> int list ptr \<Rightarrow> int list ptr \<Rightarrow> int \<Rightarrow> int \<Rightarrow> string ptr \<Rightarrow> trace \<Rightarrow> spawn_result" where
  "sim_spawn_concord_skew_net E np pids logfds n skew_node offset t =
     spawn_nodes E np pids logfds n (0 \<le> skew_node \<and> skew_node < n \<and> offset \<noteq> None)
       (\<lambda>i pid logfd. spawn_one_net E np pid logfd i (if i = skew_node then offset else None) None 0) t"

definition sim_spawn_concord_anchor_net ::
  "os \<Rightarrow> sim_net ptr \<Rightarrow> int list ptr \<Rightarrow> int list ptr \<Rightarrow> int \<Rightarrow> int \<Rightarrow> trace \<Rightarrow> spawn_result" where
  "sim_spawn_concord_anchor_net E np pids logfds n anchor_node t =
     spawn_nodes E np pids logfds n (0 \<le> anchor_node \<and> anchor_node < n)
       (\<lambda>i pid logfd. spawn_one_net E np pid logfd i None
          (if i = anchor_node then Some ''--anchor'' else None) (anchor_node + 1)) t"

definition sim_spawn_concord_debug_net ::
  "os \<Rightarrow> sim_net ptr \<Rightarrow> int list ptr \<Rightarrow> int list ptr \<Rightarrow> int \<Rightarrow> trace \<Rightarrow> spawn_result" where
  "sim_spawn_concord_debug_net E np pids logfds n t =
     spawn_nodes E np pids logfds n True
       (\<lambda>i pid logfd. spawn_one_net E np pid logfd i None (Some ''--log-level=debug'') 0) t"

definition sim_restart_concord_net ::
  "os \<Rightarrow> sim_net ptr \<Rightarrow> int list ptr \<Rightarrow> int list ptr \<Rightarrow> int \<Rightarrow> trace \<Rightarrow>
   (bool \<times> int list ptr \<times> int list ptr \<times> trace) forked" where
  "sim_restart_concord_net E np pidsp logfdsp i t =
     (case (np, pidsp, logfdsp) of
        (Some net, Some pids, Some logfds) \<Rightarrow>
          if \<not> sim_net_valid np then Parent (False, pidsp, logfdsp, t)
          else if i < 0 \<or> i \<ge> int TUN_MAP_MAX then Parent (False, pidsp, logfdsp, t)
          else if pids ! nat i > 0 then Parent (False, pidsp, logfdsp, t)
          else if logfds ! nat i \<ge> 0 then Parent (False, pidsp, logfdsp, t)
          else
            (case node_dir_net net PATH_LEN i of
               None \<Rightarrow> Parent (False, pidsp, logfdsp, t)
             | Some dir \<Rightarrow>
                 (case run_fit E SMALL_CMD (''rm -rf '' @ dir) t of
                    (False, t) \<Rightarrow> Parent (False, pidsp, logfdsp, t)
                  | (True, t) \<Rightarrow>
                      (case spawn_one_net E np (pids ! nat i) (logfds ! nat i) i None None 0 t of
                         Child t \<Rightarrow> Child t
                       | Parent (ok, pid, logfd, t) \<Rightarrow>
                           Parent (ok, Some (pids[nat i := pid]), Some (logfds[nat i := logfd]), t))))
      | _ \<Rightarrow> Parent (False, pidsp, logfdsp, t))"

text \<open>A command of the caller's: its path, its argument vector, and where it runs.\<close>

record sim_cmd =
  bin :: "string ptr"
  argv :: "string list ptr"
  workdir :: "string ptr"

definition change_dir :: "os \<Rightarrow> string \<Rightarrow> trace \<Rightarrow> bool \<times> trace" where
  "change_dir E dir t = (let (a, t) = sys E (Chdir dir) t in (a = 0, t))"

definition sim_spawn_cmd ::
  "os \<Rightarrow> sim_net ptr \<Rightarrow> int ptr \<Rightarrow> int ptr \<Rightarrow> int \<Rightarrow> sim_cmd ptr \<Rightarrow> trace \<Rightarrow>
   (bool \<times> int ptr \<times> int ptr \<times> trace) forked" where
  "sim_spawn_cmd E np pidp logfdp nd cp t =
     (case np of
        None \<Rightarrow> Parent (False, pidp, logfdp, t)
      | Some net \<Rightarrow>
          if \<not> sim_net_valid np then Parent (False, pidp, logfdp, t)
          else if pidp = None \<or> logfdp = None then Parent (False, pidp, logfdp, t)
          else if nd < 0 \<or> nd \<ge> int TUN_MAP_MAX then Parent (False, pidp, logfdp, t)
          else
            (case cp of
               None \<Rightarrow> Parent (False, pidp, logfdp, t)
             | Some cmd \<Rightarrow>
                 if bin cmd = None \<or> bin cmd = Some [] then Parent (False, pidp, logfdp, t)
                 else if argv cmd = None \<or> argv cmd = Some [] then Parent (False, pidp, logfdp, t)
                 else if workdir cmd = Some [] then Parent (False, pidp, logfdp, t)
                 else
                   let need_ns = (nd > 0 \<or> isolate_all net \<noteq> 0);
                       nspath = ns_path_net net PATH_LEN nd in
                   if need_ns \<and> nspath = None then Parent (False, pidp, logfdp, t)
                   else
                     let (r, t) = sys E Pipe t in
                     if r < 0 then Parent (False, pidp, logfdp, t)
                     else
                       let (w, t) = sys E Pipe_end t;
                           t = cloexec_fd E r t; t = cloexec_fd E w t;
                           (pid, t) = sys E Fork t in
                       if pid < 0 then
                         (case spawn_fail E (r, w) t of (ok, t) \<Rightarrow> Parent (ok, Some pid, logfdp, t))
                       else if pid = 0 then
                         Child (become E
                           ((case workdir cmd of None \<Rightarrow> [] | Some d \<Rightarrow> [change_dir E d]) @
                            (if need_ns then [enter_ns E nspath] else []))
                           (r, w) (the (bin cmd)) (the (argv cmd)) t)
                       else
                         let t = call E (Close w) t;
                             t = snd (cgroup_enter_net E np nd pid t)
                         in Parent (True, Some pid, Some r, t)))"

section \<open>The default net\<close>

definition sim_netns_setup :: "os \<Rightarrow> int \<Rightarrow> trace \<Rightarrow> bool \<times> trace" where
  "sim_netns_setup E n = sim_netns_setup_net E (Some sim_default_net) n"

definition sim_netns_teardown :: "os \<Rightarrow> int \<Rightarrow> trace \<Rightarrow> bool \<times> trace" where
  "sim_netns_teardown E n = sim_netns_teardown_net E (Some sim_default_net) n"

definition sim_tuns_open :: "os \<Rightarrow> int list ptr \<Rightarrow> int \<Rightarrow> trace \<Rightarrow> bool \<times> int list ptr \<times> trace" where
  "sim_tuns_open E fds n = sim_tuns_open_net E (Some sim_default_net) fds n"

definition sim_nodes_add ::
  "allocator \<Rightarrow> sim_context ptr \<Rightarrow> tun_map ptr \<Rightarrow> int list ptr \<Rightarrow> int \<Rightarrow>
   bool \<times> sim_context ptr \<times> tun_map ptr" where
  "sim_nodes_add alloc cp mp fds n = sim_nodes_add_net alloc (Some sim_default_net) cp mp fds n"

definition sim_addrs_up :: "os \<Rightarrow> int \<Rightarrow> trace \<Rightarrow> bool \<times> trace" where
  "sim_addrs_up E n = sim_addrs_up_net E (Some sim_default_net) n"

definition sim_spawn_concord :: "os \<Rightarrow> int list ptr \<Rightarrow> int list ptr \<Rightarrow> int \<Rightarrow> trace \<Rightarrow> spawn_result" where
  "sim_spawn_concord E pids logfds n = sim_spawn_concord_net E (Some sim_default_net) pids logfds n"

definition sim_spawn_concord_skew ::
  "os \<Rightarrow> int list ptr \<Rightarrow> int list ptr \<Rightarrow> int \<Rightarrow> int \<Rightarrow> string ptr \<Rightarrow> trace \<Rightarrow> spawn_result" where
  "sim_spawn_concord_skew E pids logfds n skew_node offset =
     sim_spawn_concord_skew_net E (Some sim_default_net) pids logfds n skew_node offset"

definition sim_restart_concord ::
  "os \<Rightarrow> int list ptr \<Rightarrow> int list ptr \<Rightarrow> int \<Rightarrow> trace \<Rightarrow>
   (bool \<times> int list ptr \<times> int list ptr \<times> trace) forked" where
  "sim_restart_concord E pids logfds i = sim_restart_concord_net E (Some sim_default_net) pids logfds i"

definition sim_spawn_concord_anchor ::
  "os \<Rightarrow> int list ptr \<Rightarrow> int list ptr \<Rightarrow> int \<Rightarrow> int \<Rightarrow> trace \<Rightarrow> spawn_result" where
  "sim_spawn_concord_anchor E pids logfds n anchor_node =
     sim_spawn_concord_anchor_net E (Some sim_default_net) pids logfds n anchor_node"

definition sim_spawn_concord_debug :: "os \<Rightarrow> int list ptr \<Rightarrow> int list ptr \<Rightarrow> int \<Rightarrow> trace \<Rightarrow> spawn_result" where
  "sim_spawn_concord_debug E pids logfds n = sim_spawn_concord_debug_net E (Some sim_default_net) pids logfds n"

section \<open>Waiting for a child\<close>

text \<open>
  What a blocking \<open>waitpid\<close> on a child may answer: the child, an interruption, or that there is
  no such child.
\<close>

definition waits :: "os \<Rightarrow> bool" where
  "waits E = (\<forall>t pid. pid > 0 \<longrightarrow> E t (Waitpid pid False) \<in> {pid, - EINTR, - ECHILD})"

text \<open>The calls that touch neither descriptors nor children.\<close>

fun neutral :: "request \<times> int \<Rightarrow> bool" where
  "neutral (Open_file p, a) = False"
| "neutral (Pipe, a) = False"
| "neutral (Pipe_end, a) = False"
| "neutral (Close fd, a) = False"
| "neutral (Fork, a) = False"
| "neutral (Waitpid pid hang, a) = False"
| "neutral (Exec b v, a) = False"
| "neutral _ = True"

lemma neutral_after: "neutral c \<Longrightarrow> fds_after c s = s \<and> kids_after c s = s"
  by (cases c rule: neutral.cases) simp_all

lemma adds_neutral: "adds neutral t t' \<Longrightarrow> live_fds t' = live_fds t \<and> live_kids t' = live_kids t"
proof -
  assume "adds neutral t t'"
  then obtain new where t': "t' = new @ t" "\<forall>c \<in> set new. neutral c" by (auto simp: adds_def)
  from t'(2) have "live_fds (new @ t) = live_fds t \<and> live_kids (new @ t) = live_kids t"
    by (induction new) (simp_all add: neutral_after)
  with t'(1) show ?thesis by simp
qed

lemma live_call [simp]:
  "live_fds (call E (Kill pid s) t) = live_fds t" "live_kids (call E (Kill pid s) t) = live_kids t"
  "live_fds (call E Nanosleep t) = live_fds t" "live_kids (call E Nanosleep t) = live_kids t"
  "live_kids (call E (Close fd) t) = live_kids t" "live_kids (call E (Cloexec fd) t) = live_kids t"
  by (simp_all add: call_eq)

lemma reap_reaps:
  assumes "reap E pid t = Some t'" "waits E" "pid > 0"
  shows "live_kids t' = live_kids t - {pid} \<and> live_fds t' = live_fds t"
  using assms
proof (induction E pid t t' rule: reap.raw_induct [rotated, consumes 1, case_names 1])
  case (1 reap E pid t t')
  let ?w = "E t (Waitpid pid False)"
  show ?case
  proof (cases "?w = - EINTR")
    case True
    with 1(2) have "reap E pid ((Waitpid pid False, ?w) # t) = Some t'" by (simp add: sys_eq)
    from 1(1) [OF this 1(3,4)] True 1(4) show ?thesis by (simp add: EINTR_def ECHILD_def)
  next
    case False
    with 1(3,4) have "?w = pid \<or> ?w = - ECHILD" by (auto simp: waits_def)
    with False 1(2) show ?thesis by (auto simp: sys_eq)
  qed
qed

lemma wait_loop_reaps:
  assumes "wait_loop E secs pid t0 t = Some t'" "waits E" "pid > 0"
  shows "live_kids t' = live_kids t - {pid} \<and> live_fds t' = live_fds t"
  using assms
proof (induction E secs pid t0 t t' rule: wait_loop.raw_induct [rotated, consumes 1, case_names 1])
  case (1 wait_loop E secs pid t0 t t')
  let ?w = "E t (Waitpid pid True)"
  let ?t = "(Waitpid pid True, ?w) # t"
  show ?case
  proof (cases "?w = pid \<or> ?w = - ECHILD")
    case True
    with 1(2) have "t' = ?t" by (simp add: sys_eq split: if_splits)
    with True show ?thesis by auto
  next
    case False
    then have same: "live_kids ?t = live_kids t" "live_fds ?t = live_fds t" by simp_all
    let ?u = "(Time, E ?t Time) # ?t"
    show ?thesis
    proof (cases "E ?t Time - t0 \<ge> secs")
      case True
      with False 1(2) have "reap E pid (call E (Kill pid SIGKILL) ?u) = Some t'" by (simp add: sys_eq)
      from reap_reaps [OF this 1(3,4)] same show ?thesis by simp
    next
      case False
      with \<open>\<not> (?w = pid \<or> ?w = - ECHILD)\<close> 1(2)
      have "wait_loop E secs pid t0 (call E Nanosleep ?u) = Some t'" by (simp add: sys_eq)
      from 1(1) [OF this 1(3,4)] same show ?thesis by simp
    qed
  qed
qed

lemma stop_child_reaps:
  assumes "stop_child E secs pid t = Some t'" "waits E" "pid > 0"
  shows "live_kids t' = live_kids t - {pid} \<and> live_fds t' = live_fds t"
  using assms reap_reaps [OF _ assms(2,3)] wait_loop_reaps [OF _ assms(2,3)]
  by (fastforce simp: stop_child_def sys_eq Let_def split: if_splits)

text \<open>
  Waiting ends when interruptions of the blocking wait do, and when the clock of \<open>time\<close> moves on
  by at least the time slept, a tenth of a second for each \<open>nanosleep\<close>.
\<close>

definition sleeps :: "trace \<Rightarrow> nat" where
  "sleeps t = length (filter (\<lambda>c. fst c = Nanosleep) t)"

definition interrupts :: "trace \<Rightarrow> nat" where
  "interrupts t = length (filter (\<lambda>c. \<exists>pid. c = (Waitpid pid False, - EINTR)) t)"

definition clock_runs :: "os \<Rightarrow> bool" where
  "clock_runs E = (\<forall>new t. E (new @ t) Time \<ge> E t Time + int (sleeps new div 10))"

definition quiet_after :: "nat \<Rightarrow> os \<Rightarrow> bool" where
  "quiet_after K E = (\<forall>t pid. pid > 0 \<and> interrupts t \<ge> K \<longrightarrow> E t (Waitpid pid False) \<noteq> - EINTR)"

lemma reap_returns:
  assumes "quiet_after K E" "pid > 0"
  shows "\<exists>t'. reap E pid t = Some t'"
proof (induction "K - interrupts t" arbitrary: t rule: less_induct)
  case less
  let ?w = "E t (Waitpid pid False)"
  show ?case
  proof (cases "?w = - EINTR")
    case True
    with assms have "interrupts t < K" by (auto simp: quiet_after_def not_le [symmetric])
    moreover have "interrupts ((Waitpid pid False, ?w) # t) = Suc (interrupts t)" using True by (simp add: interrupts_def)
    ultimately have "\<exists>t'. reap E pid ((Waitpid pid False, ?w) # t) = Some t'" by (intro less) simp
    with True show ?thesis by (subst reap.simps) (simp add: sys_eq)
  next
    case False
    then show ?thesis by (subst reap.simps) (simp add: sys_eq)
  qed
qed

lemma wait_loop_returns:
  assumes "quiet_after K E" "clock_runs E" "t = new @ base" "secs \<le> int n" "pid > 0"
  shows "\<exists>t'. wait_loop E secs pid (E base Time) t = Some t'"
  using assms(3)
proof (induction "n * 10 - sleeps new" arbitrary: t new rule: less_induct)
  case less
  let ?w = "E t (Waitpid pid True)"
  let ?t = "(Waitpid pid True, ?w) # t"
  let ?u = "(Time, E ?t Time) # ?t"
  have step: "wait_loop E secs pid (E base Time) t =
      (if ?w = pid then Some ?t else if ?w = - ECHILD then Some ?t
       else if E ?t Time - E base Time \<ge> secs then reap E pid (call E (Kill pid SIGKILL) ?u)
       else wait_loop E secs pid (E base Time) (call E Nanosleep ?u))"
    by (subst wait_loop.simps) (simp add: sys_eq)
  show ?case
  proof (cases "E ?t Time - E base Time \<ge> secs")
    case True
    then show ?thesis using step reap_returns [OF assms(1,5)] by auto
  next
    case False
    let ?new = "(Nanosleep, E ?u Nanosleep) # (Time, E ?t Time) # (Waitpid pid True, ?w) # new"
    have "E ?t Time \<ge> E base Time + int (sleeps ((Waitpid pid True, ?w) # new) div 10)"
      using assms(2) less.prems by (simp add: clock_runs_def flip: append_Cons)
    with False have "sleeps new div 10 < n" using assms(4) by (simp add: sleeps_def)
    then have "sleeps new < n * 10" by (simp add: div_less_iff_less_mult)
    then have "\<exists>t'. wait_loop E secs pid (E base Time) (?new @ base) = Some t'"
      by (intro less.hyps) (simp_all add: sleeps_def)
    then have "\<exists>t'. wait_loop E secs pid (E base Time) (call E Nanosleep ?u) = Some t'"
      using less.prems by (simp add: call_eq)
    then show ?thesis unfolding step using False by simp
  qed
qed

lemma stop_child_live:
  assumes "quiet_after K E" "clock_runs E" "secs \<le> int n"
  shows "\<exists>t'. stop_child E secs pid t = Some t'"
proof (cases "pid > 0")
  case pos: True
  let ?t = "call E (Kill pid SIGTERM) t"
  have "\<exists>t'. wait_loop E secs pid (E ?t Time) ((Time, E ?t Time) # ?t) = Some t'"
    by (rule wait_loop_returns [OF assms(1,2) _ assms(3) pos, of _ "[(Time, E ?t Time)]"]) simp
  then show ?thesis using reap_returns [OF assms(1) pos] by (auto simp: stop_child_def Let_def sys_eq)
qed (simp add: stop_child_def)

section \<open>Preparing a node\<close>

lemma mkdir_neutral [adds_intros]: "adds neutral t (snd (mkdir_ok E path t))"
  by (simp add: mkdir_ok_def sys_eq adds_one)

lemma write_file_neutral [adds_intros]: "adds neutral t (snd (write_file E path s t))"
proof -
  have two: "adds neutral t (b # a # t)" if "neutral a" "neutral b" for a b
    using adds_trans [OF adds_one adds_one] that by blast
  have three: "adds neutral t (c # b # a # t)" if "neutral a" "neutral b" "neutral c" for a b c
    using adds_trans [OF two adds_one] that by blast
  show ?thesis by (auto simp: write_file_def sys_eq call_eq Let_def intro!: adds_one three)
qed

lemma fit_neutral [adds_intros]: "(\<And>s t. adds neutral t (snd (k s t))) \<Longrightarrow> adds neutral t (snd (fit cap s k t))"
  by (simp add: fit_def snprintf_def)

lemma gossip_neutral [adds_intros]: "adds neutral t (snd (ensure_gossip_key_net E np t))"
proof (cases np)
  case (Some net)
  have "adds neutral u (snd (run_fit E CMD_LEN cmd ((Stat_size p, a) # u)))" "adds neutral u ((Stat_size p, a) # u)"
    for cmd p a u
    by (auto intro!: adds_trans [OF adds_one adds_run_fit] adds_one)
  then show ?thesis
    unfolding ensure_gossip_key_net_def Some option.case
    by (intro adds_steps) (auto simp: sys_eq Let_def simp del: append.simps intro!: mkdir_neutral split: option.splits)
qed (simp add: ensure_gossip_key_net_def)

lemma seed_neutral: "adds neutral t (snd (seed_node E net i octet dir t))"
  unfolding seed_node_def
  by (rule adds_steps) (auto intro!: adds_intros adds_steps split: option.splits)

lemma cgroup_neutral: "adds neutral t (snd (cgroup_enter_net E np i pid t))"
proof (cases np)
  case (Some net)
  show ?thesis
    unfolding cgroup_enter_net_def snd_conv Some cgroup_place_net_def option.case
    by (rule adds_steps) (auto simp del: run_seq.simps intro!: adds_intros adds_steps split: option.splits)
qed (simp add: cgroup_enter_net_def cgroup_place_net_def)

lemma parent_neutral: "adds neutral t (snd (ensure_parent_net E np t))"
  by (auto simp: ensure_parent_net_def intro: mkdir_neutral split: option.splits)

section \<open>One node\<close>

lemma live_kids_sys: "sys E r t = (a, u) \<Longrightarrow> live_kids u = kids_after (r, a) (live_kids t)"
  by (auto simp: sys_eq)

lemma cloexec_kids [simp]: "live_kids (cloexec_fd E fd t) = live_kids t"
  by (simp add: cloexec_fd_def sys_eq)

lemma spawn_fail_live:
  "live_fds (snd (spawn_fail E (r, w) t)) = live_fds t - {r} - {w}"
  "live_kids (snd (spawn_fail E (r, w) t)) = live_kids t" "\<not> fst (spawn_fail E (r, w) t)"
  by (simp_all add: spawn_fail_def)

definition same_live :: "trace \<Rightarrow> trace \<Rightarrow> bool" where
  "same_live t t' \<longleftrightarrow> live_fds t' = live_fds t \<and> live_kids t' = live_kids t"

lemma spawn_one_live:
  assumes "kernel E" "spawn_one_net E np pid logfd i off arg octet t = Parent (ok, pid', logfd', t')"
  shows "(ok \<and> pid' > 0 \<and> pid' \<notin> live_kids t \<and> logfd' \<ge> 0 \<and> logfd' \<notin> live_fds t \<and>
          live_kids t' = insert pid' (live_kids t) \<and> live_fds t' = insert logfd' (live_fds t)) \<or>
         (\<not> ok \<and> (pid' = pid \<or> pid' < 0) \<and> logfd' = logfd \<and> same_live t t')"
proof (cases "sim_net_valid np")
  case False
  then show ?thesis using assms(2) by (auto simp: spawn_one_net_def same_live_def split: option.splits)
next
  case True
  then obtain net where np: "np = Some net" by (auto simp: sim_net_valid_def split: option.splits)
  obtain r t1 where s1: "sys E Pipe t = (r, t1)" by (cases "sys E Pipe t")
  have r: "r \<notin> live_fds t" using kernel_fresh(2) [OF assms(1)] s1 by (auto simp: sys_eq)
  show ?thesis
  proof (cases "r < 0")
    case True
    then show ?thesis using assms(2) \<open>sim_net_valid np\<close> live_fds_sys [OF s1] live_kids_sys [OF s1]
      by (auto simp: spawn_one_net_def np s1 same_live_def)
  next
    case False
    obtain w t2 where s2: "sys E Pipe_end t1 = (w, t2)" by (cases "sys E Pipe_end t1")
    have w: "w \<notin> live_fds t1" "\<not> w < 0" using kernel_fresh(3,4) [OF assms(1)] s2 by (auto simp: sys_eq not_less)
    define t3 where "t3 = cloexec_fd E w (cloexec_fd E r t2)"
    have live3: "live_fds t3 = insert w (insert r (live_fds t))" "live_kids t3 = live_kids t"
      using live_fds_sys [OF s1] live_fds_sys [OF s2] live_kids_sys [OF s1] live_kids_sys [OF s2] False w(2)
      by (simp_all add: t3_def)
    have rw: "w \<notin> insert r (live_fds t)" using w live_fds_sys [OF s1] False by simp
    show ?thesis
    proof (cases "node_dir_net net PATH_LEN i")
      case None
      then show ?thesis
        using assms(2) True False live3 r rw spawn_fail_live [of E r w t3]
        by (auto simp: spawn_one_net_def np s1 s2 Let_def same_live_def simp flip: t3_def split: prod.splits)
    next
      case (Some dir)
      obtain sok t4 where s4: "seed_node E net i octet dir t3 = (sok, t4)" by (cases "seed_node E net i octet dir t3")
      have live4: "live_fds t4 = live_fds t3" "live_kids t4 = live_kids t3"
        using adds_neutral [OF seed_neutral, of E net i octet dir t3] s4 by simp_all
      obtain p t5 where s5: "sys E Fork t4 = (p, t5)" by (cases "sys E Fork t4")
      have p: "p \<noteq> 0" "p \<notin> live_kids t4" using kernel_fresh(5,6) [OF assms(1)] s5 by (auto simp: sys_eq)
      have live5: "live_fds t5 = live_fds t4" "live_kids t5 = (if p < 0 then live_kids t4 else insert p (live_kids t4))"
        using live_fds_sys [OF s5] live_kids_sys [OF s5] by simp_all
      note eqs = np s1 s2 Some s4 s5 Let_def
      consider "\<not> sok" | "sok" "p < 0" | "sok" "p > 0" using p(1) by linarith
      then show ?thesis
      proof cases
        case 1
        then show ?thesis
          using assms(2) True False live3 live4 r rw spawn_fail_live [of E r w t4]
          by (auto simp: spawn_one_net_def eqs same_live_def simp flip: t3_def split: prod.splits)
      next
        case 2
        then show ?thesis
          using assms(2) True False live3 live4 live5 r rw spawn_fail_live [of E r w t5]
          by (auto simp: spawn_one_net_def eqs same_live_def simp flip: t3_def split: prod.splits)
      next
        case 3
        then show ?thesis
          using assms(2) True False live3 live4 live5 p r rw
            adds_neutral [OF cgroup_neutral, of E np i p "call E (Close w) t5"]
          by (auto simp: spawn_one_net_def eqs simp flip: t3_def)
      qed
    qed
  qed
qed

section \<open>All nodes\<close>

text \<open>The first \<open>k\<close> entries are children and log pipes started since \<open>t0\<close>.\<close>

definition running :: "trace \<Rightarrow> nat \<Rightarrow> slots_state \<Rightarrow> bool" where
  "running t0 k s \<longleftrightarrow>
     (case s of (pids, logfds, t) \<Rightarrow>
        k \<le> length pids \<and> k \<le> length logfds \<and>
        (\<forall>j < k. pids ! j > 0 \<and> logfds ! j \<ge> 0) \<and>
        distinct (take k pids) \<and> distinct (take k logfds) \<and>
        set (take k pids) \<inter> live_kids t0 = {} \<and> set (take k logfds) \<inter> live_fds t0 = {} \<and>
        live_kids t = live_kids t0 \<union> set (take k pids) \<and>
        live_fds t = live_fds t0 \<union> set (take k logfds))"

lemma unwind_live:
  assumes "spawn_unwind_from E [j..<k] (pids, logfds, t) = Some (pids', logfds', t')" "waits E"
    and "k \<le> length pids" "k \<le> length logfds" "\<forall>i. j \<le> i \<and> i < k \<longrightarrow> pids ! i > 0 \<and> logfds ! i \<ge> 0"
    and "distinct (drop j (take k pids))" "distinct (drop j (take k logfds))"
    and "live_kids t = K \<union> set (drop j (take k pids))" "live_fds t = F \<union> set (drop j (take k logfds))"
    and "set (drop j (take k pids)) \<inter> K = {}" "set (drop j (take k logfds)) \<inter> F = {}"
  shows "live_kids t' = K \<and> live_fds t' = F"
  using assms
proof (induction "k - j" arbitrary: j pids logfds t)
  case 0
  then show ?case by simp
next
  case (Suc m)
  then have j: "j < k" by simp
  then have upt: "[j..<k] = j # [Suc j..<k]" by (simp add: upt_conv_Cons)
  let ?p = "pids ! j" and ?l = "logfds ! j"
  have pos: "?p > 0" "?l \<ge> 0" using Suc.prems(5) j by auto
  have dp: "drop j (take k pids) = ?p # drop (Suc j) (take k pids)"
    and dl: "drop j (take k logfds) = ?l # drop (Suc j) (take k logfds)"
    using Cons_nth_drop_Suc [of j "take k pids"] Cons_nth_drop_Suc [of j "take k logfds"] j Suc.prems(3,4) by simp_all
  from Suc.prems(1) pos obtain u where u: "spawn_wait E ?p t = Some u"
    by (auto simp: upt split: option.splits)
  let ?v = "call E (Close ?l) u"
  have live_u: "live_kids u = live_kids t - {?p}" "live_fds u = live_fds t"
    using stop_child_reaps [OF u [unfolded spawn_wait_def] assms(2) pos(1)] by simp_all
  have same: "drop (Suc j) (take k (xs[j := v])) = drop (Suc j) (take k xs)" for xs and v :: int
    by (simp add: take_update_swap)
  show ?case
  proof (rule Suc.hyps(1))
    show "spawn_unwind_from E [Suc j..<k] (pids[j := -1], logfds[j := -1], ?v) = Some (pids', logfds', t')"
      using Suc.prems(1) pos u by (simp add: upt close_slot_def)
    show "live_kids ?v = K \<union> set (drop (Suc j) (take k (pids[j := -1])))"
      "live_fds ?v = F \<union> set (drop (Suc j) (take k (logfds[j := -1])))"
      using live_u Suc.prems(6-11) by (auto simp: same dp dl)
  qed (use Suc.hyps(2) Suc.prems j in \<open>auto simp: same dp dl nth_list_update\<close>)
qed

lemma running_unwind:
  assumes "running t0 k (pids, logfds, t)" "spawn_unwind E k (pids, logfds, t) = Some (pids', logfds', t')" "waits E"
  shows "same_live t0 t'"
  using unwind_live [of E 0 k pids logfds t pids' logfds' t' "live_kids t0" "live_fds t0"] assms
  by (auto simp: running_def spawn_unwind_def same_live_def)

lemma running_update:
  assumes "running t0 k (pids, logfds, t)"
  shows "running t0 k (pids[k := p], logfds[k := l], t)"
  using assms by (simp add: running_def nth_list_update)

lemma running_add:
  assumes "running t0 k (pids, logfds, t)" "k < length pids" "k < length logfds"
    and "p > 0" "p \<notin> live_kids t" "l \<ge> 0" "l \<notin> live_fds t"
    and "live_kids t' = insert p (live_kids t)" "live_fds t' = insert l (live_fds t)"
  shows "running t0 (Suc k) (pids[k := p], logfds[k := l], t')"
proof -
  have "take (Suc k) (xs[k := v]) = take k xs @ [v]" if "k < length xs" for xs and v :: int
    using that by (simp add: take_Suc_conv_app_nth)
  then show ?thesis using assms by (auto simp: running_def less_Suc_eq)
qed

lemma spawn_loop_live:
  assumes "spawn_loop E one [i..n - 1] (pids, logfds, t) = Some (Parent (ok, pids', logfds', t'))"
    and one: "\<And>i pid logfd t ok pid' logfd' t'.
      one i pid logfd t = Parent (ok, pid', logfd', t') \<Longrightarrow>
      (ok \<and> pid' > 0 \<and> pid' \<notin> live_kids t \<and> logfd' \<ge> 0 \<and> logfd' \<notin> live_fds t \<and>
       live_kids t' = insert pid' (live_kids t) \<and> live_fds t' = insert logfd' (live_fds t)) \<or>
      (\<not> ok \<and> (pid' = pid \<or> pid' < 0) \<and> logfd' = logfd \<and> same_live t t')"
    and "waits E" "running t0 (nat i) (pids, logfds, t)" "0 \<le> i" "i \<le> n" "nat n \<le> length pids" "nat n \<le> length logfds"
  shows "if ok then running t0 (nat n) (pids', logfds', t') else same_live t0 t'"
  using assms(1,4-)
proof (induction "nat (n - i)" arbitrary: i pids logfds t)
  case 0
  then have "[i..n - 1] = []" "i = n" by simp_all
  with 0 show ?case by auto
next
  case (Suc m)
  then have i: "i < n" by simp
  then have upto: "[i..n - 1] = i # [i + 1..n - 1]" by (simp add: upto_rec1)
  have suc: "nat (i + 1) = Suc (nat i)" using Suc.prems(3) by simp
  have at: "nat i < length pids" "nat i < length logfds" using Suc.prems i by auto
  obtain ok1 p l u where step: "one i (pids ! nat i) (logfds ! nat i) t = Parent (ok1, p, l, u)"
    using Suc.prems(1) by (auto simp: upto split: forked.splits)
  show ?case
  proof (cases ok1)
    case True
    with one [OF step] have "running t0 (nat (i + 1)) (pids[nat i := p], logfds[nat i := l], u)"
      using running_add [OF Suc.prems(2) at] suc by simp
    moreover have "spawn_loop E one [i + 1..n - 1] (pids[nat i := p], logfds[nat i := l], u) =
        Some (Parent (ok, pids', logfds', t'))"
      using Suc.prems(1) step True by (simp add: upto Let_def)
    ultimately show ?thesis
      using Suc.hyps(1) [of "i + 1" "pids[nat i := p]" "logfds[nat i := l]" u] Suc.hyps(2) Suc.prems(3-6) i
      by simp
  next
    case False
    let ?s = "(pids[nat i := p], logfds[nat i := l], u)"
    from False one [OF step] have "same_live t u" by simp
    with running_update [OF Suc.prems(2), of p l] have "running t0 (nat i) ?s"
      by (simp add: running_def same_live_def)
    moreover have "\<not> ok" "spawn_unwind E (nat i) ?s = Some (pids', logfds', t')"
      using Suc.prems(1) step False by (auto simp: upto Let_def split: option.splits)
    ultimately show ?thesis using running_unwind assms(3) by simp
  qed
qed

lemma preset_running: "running t 0 (preset k pids, preset k logfds, t)"
  by (simp add: running_def)

lemma length_preset: "k \<le> length xs \<Longrightarrow> length (preset k xs) = length xs"
  by (simp add: preset_def)

lemma same_live_running: "same_live t u \<Longrightarrow> running u k s = running t k s"
  by (simp add: running_def same_live_def)

lemma spawn_nodes_live:
  assumes "kernel E" "waits E" "nat n \<le> length pids" "nat n \<le> length logfds"
    and "\<And>i pid logfd. one i pid logfd = spawn_one_net E np pid logfd i (off i) (arg i) (octet i)"
    and "spawn_nodes E np (Some pids) (Some logfds) n more_ok one t = Some (Parent (ok, pids', logfds', t'))"
  shows "if ok then (\<exists>ps ls. pids' = Some ps \<and> logfds' = Some ls \<and> running t (nat n) (ps, ls, t')) else same_live t t'"
proof (cases "sim_net_valid np \<and> 1 \<le> n \<and> n \<le> int TUN_MAP_MAX \<and> more_ok")
  case False
  then show ?thesis using assms(6) by (auto simp: spawn_nodes_def same_live_def split: if_splits)
next
  case True
  obtain pok u where parent: "ensure_parent_net E np t = (pok, u)" by (cases "ensure_parent_net E np t")
  have same: "same_live t u" using adds_neutral [OF parent_neutral, of E np t] parent by (simp add: same_live_def)
  show ?thesis
  proof (cases pok)
    case False
    then show ?thesis using assms(6) True parent same by (auto simp: spawn_nodes_def)
  next
    case pok: True
    obtain ps ls where loop: "spawn_loop E one [0..n - 1] (preset (nat n) pids, preset (nat n) logfds, u) =
        Some (Parent (ok, ps, ls, t'))" and out: "pids' = Some ps" "logfds' = Some ls"
      using assms(6) True parent pok by (auto simp: spawn_nodes_def split: option.splits forked.splits)
    have one: "(b \<and> pid' > 0 \<and> pid' \<notin> live_kids s \<and> l' \<ge> 0 \<and> l' \<notin> live_fds s \<and>
        live_kids s' = insert pid' (live_kids s) \<and> live_fds s' = insert l' (live_fds s)) \<or>
       (\<not> b \<and> (pid' = pid \<or> pid' < 0) \<and> l' = l \<and> same_live s s')"
      if "one i pid l s = Parent (b, pid', l', s')" for i pid l s b pid' l' s'
      using spawn_one_live [OF assms(1)] that [unfolded assms(5)] by blast
    have "running u (nat 0) (preset (nat n) pids, preset (nat n) logfds, u)" using preset_running by simp
    from spawn_loop_live [OF loop one assms(2) this]
    have "if ok then running u (nat n) (ps, ls, t') else same_live u t'"
      using True assms(3,4) by (simp add: length_preset)
    moreover have "running u k s = running t k s" for k s using same by (rule same_live_running)
    ultimately show ?thesis using same out by (simp add: same_live_def split: if_splits)
  qed
qed

section \<open>The child\<close>

text \<open>The trace \<open>new\<close> of a child that reaches a program only from inside its namespace.\<close>

definition inside_ns :: "string option \<Rightarrow> trace \<Rightarrow> bool" where
  "inside_ns path new \<longleftrightarrow>
     ((\<exists>b a r. (Exec b a, r) \<in> set new) \<longrightarrow>
      (\<exists>p fd. path = Some p \<and> fd \<ge> 0 \<and> (Open_file p, fd) \<in> set new \<and> (Setns fd, 0) \<in> set new))"

definition no_exec :: "request \<times> int \<Rightarrow> bool" where
  "no_exec c = (\<forall>b a. fst c \<noteq> Exec b a)"

lemma enter_ns_True:
  assumes "enter_ns E path t = (True, u)"
  shows "\<exists>p fd new. path = Some p \<and> u = new @ t \<and> fd \<ge> 0 \<and> (Open_file p, fd) \<in> set new \<and> (Setns fd, 0) \<in> set new"
proof -
  obtain p where p: "path = Some p" using assms by (auto simp: enter_ns_def split: option.splits)
  let ?fd = "E t (Open_file p)"
  let ?t1 = "(Open_file p, ?fd) # t"
  let ?t2 = "(Setns ?fd, E ?t1 (Setns ?fd)) # ?t1"
  have "?fd \<ge> 0" "E ?t1 (Setns ?fd) = 0" "u = (Close ?fd, E ?t2 (Close ?fd)) # ?t2"
    using assms by (auto simp: enter_ns_def p sys_eq call_eq Let_def split: if_splits)
  then have "u = [(Close ?fd, E ?t2 (Close ?fd)), (Setns ?fd, 0), (Open_file p, ?fd)] @ t" by simp
  then show ?thesis using p \<open>?fd \<ge> 0\<close> by (intro exI conjI) auto
qed

lemma enter_ns_no_exec: "adds no_exec t (snd (enter_ns E path t))"
  by (auto simp: enter_ns_def sys_eq call_eq Let_def no_exec_def adds_def split: option.splits)

lemma small_no_exec:
  "adds no_exec t (snd (change_dir E d t))" "adds no_exec t (snd (dup_to E fd n t))"
  "adds no_exec t (call E (Setenv k v) t)" "adds no_exec t (call E (Close fd) t)" "adds no_exec t (call E (Exit n) t)"
  by (simp_all add: change_dir_def dup_to_def sys_eq call_eq adds_one no_exec_def)

lemma run_seq_True_mem:
  assumes "run_seq fs s = (True, s')" "f \<in> set fs"
    and "\<forall>g \<in> set fs. \<forall>s. adds no_exec s (snd (g s))"
  shows "\<exists>u v. f u = (True, v) \<and> adds no_exec s u \<and> adds no_exec v s'"
  using assms
proof (induction fs arbitrary: s)
  case (Cons g fs)
  obtain b v where g: "g s = (b, v)" by (cases "g s")
  with Cons.prems(1) have b: "b" "run_seq fs v = (True, s')" by (auto split: bool.splits)
  from Cons.prems(3) have "adds no_exec s (snd (g s))" by simp
  then have gs: "adds no_exec s v" using g by simp
  have rest: "adds no_exec w (snd (run_seq fs w))" for w
    using Cons.prems(3) by (intro adds_steps) simp
  show ?case
  proof (cases "f = g")
    case True
    then show ?thesis using g b rest [of v] by (intro exI [of _ s] exI [of _ v]) simp
  next
    case False
    with Cons.prems have "f \<in> set fs" "\<forall>g \<in> set fs. \<forall>s. adds no_exec s (snd (g s))" by simp_all
    from Cons.IH [OF b(2) this] gs show ?thesis by (meson adds_trans)
  qed
qed simp

lemma become_inside:
  assumes "enter_ns E path \<in> set steps"
    and "\<And>g s. g \<in> set steps \<Longrightarrow> adds no_exec s (snd (g s))"
  shows "\<exists>new. become E steps pipedes b a t = new @ t \<and> inside_ns path new"
proof -
  let ?fs = "steps @ [dup_to E (snd pipedes) 1, dup_to E (snd pipedes) 2]"
  have quiet: "\<forall>g \<in> set ?fs. \<forall>s. adds no_exec s (snd (g s))"
    using assms(2) small_no_exec(2) by auto
  have no: "inside_ns path new" if "\<forall>c \<in> set new. no_exec c" for new
    using that by (force simp: inside_ns_def no_exec_def)
  obtain ok u where seq: "run_seq ?fs t = (ok, u)" by (cases "run_seq ?fs t")
  have all: "adds no_exec t u" using adds_steps [of ?fs no_exec t] quiet seq by simp
  show ?thesis
  proof (cases ok)
    case False
    have "adds no_exec t (call E (Exit 127) u)" by (rule adds_trans [OF all small_no_exec(5)])
    then show ?thesis using seq False no by (fastforce simp: become_def adds_def)
  next
    case True
    with seq have "run_seq ?fs t = (True, u)" by simp
    from run_seq_True_mem [OF this _ quiet, of "enter_ns E path"] assms(1)
    obtain s v where s: "enter_ns E path s = (True, v)" "adds no_exec t s" "adds no_exec v u" by auto
    from enter_ns_True [OF s(1)] obtain p fd new where
      p: "path = Some p" "v = new @ s" "fd \<ge> 0" "(Open_file p, fd) \<in> set new" "(Setns fd, 0) \<in> set new" by blast
    obtain n1 n2 where n: "s = n1 @ t" "u = n2 @ v" using s(2,3) by (auto simp: adds_def)
    have "\<exists>n3. become E steps pipedes b a t = n3 @ u"
      using seq True by (auto simp: become_def Let_def sys_eq call_eq)
    then obtain n3 where "become E steps pipedes b a t = n3 @ n2 @ new @ n1 @ t" using n p(2) by auto
    then show ?thesis using p(1,3-5) by (intro exI [of _ "n3 @ n2 @ new @ n1"]) (auto simp: inside_ns_def)
  qed
qed

lemma cloexec_no_exec: "adds no_exec t (cloexec_fd E fd t)"
  by (auto simp: cloexec_fd_def sys_eq call_eq no_exec_def adds_def)

lemma neutral_no_exec: "adds neutral t u \<Longrightarrow> adds no_exec t u"
  by (erule adds_mono) (auto simp: no_exec_def elim!: neutral.elims)

lemma sys_no_exec: "sys E r t = (a, u) \<Longrightarrow> \<forall>b v. r \<noteq> Exec b v \<Longrightarrow> adds no_exec t u"
  by (auto simp: sys_eq no_exec_def adds_one)

lemma pipe_no_exec:
  assumes "sys E Pipe t = (r, t1)" "sys E Pipe_end t1 = (w, t2)"
  shows "adds no_exec t (cloexec_fd E w (cloexec_fd E r t2))"
proof -
  have "adds no_exec t t1" "adds no_exec t1 t2" using sys_no_exec assms by blast+
  then have "adds no_exec t t2" by (rule adds_trans)
  then have "adds no_exec t (cloexec_fd E r t2)" by (rule adds_trans) (rule cloexec_no_exec)
  then show ?thesis by (rule adds_trans) (rule cloexec_no_exec)
qed

lemma inside_ns_after:
  assumes "adds no_exec t u" "\<exists>new. v = new @ u \<and> inside_ns path new"
  shows "\<exists>new. v = new @ t \<and> inside_ns path new"
proof -
  obtain n1 n2 where "u = n1 @ t" "\<forall>c \<in> set n1. no_exec c" "v = n2 @ u" "inside_ns path n2"
    using assms by (auto simp: adds_def)
  then have "v = (n2 @ n1) @ t" "inside_ns path (n2 @ n1)"
    by (auto simp: inside_ns_def no_exec_def)
  then show ?thesis by blast
qed

lemma spawn_one_child:
  assumes "spawn_one_net E (Some net) pid logfd i off arg octet t = Child t'" "i > 0 \<or> isolate_all net \<noteq> 0"
  shows "\<exists>new. t' = new @ t \<and> inside_ns (ns_path_net net PATH_LEN i) new"
proof -
  obtain r t1 where s1: "sys E Pipe t = (r, t1)" by (cases "sys E Pipe t")
  obtain w t2 where s2: "sys E Pipe_end t1 = (w, t2)" by (cases "sys E Pipe_end t1")
  define t3 where "t3 = cloexec_fd E w (cloexec_fd E r t2)"
  obtain dir where dir: "node_dir_net net PATH_LEN i = Some dir"
    using assms(1) by (auto simp: spawn_one_net_def s1 s2 Let_def split: option.splits if_splits prod.splits)
  obtain sok t4 where s4: "seed_node E net i octet dir t3 = (sok, t4)" by (cases "seed_node E net i octet dir t3")
  obtain p t5 where s5: "sys E Fork t4 = (p, t5)" by (cases "sys E Fork t4")
  define t6 where "t6 = call E (Setenv ''XDG_CONFIG_HOME'' dir) t5"
  define t7 where "t7 = (case off of None \<Rightarrow> t6 | Some v \<Rightarrow> call E (Setenv ''CONCORD_CLOCK_OFFSET'' v) t6)"
  have "adds no_exec t3 t4" using neutral_no_exec [OF seed_neutral [of t3 E net i octet dir]] s4 by simp
  moreover have "adds no_exec t t3"
    unfolding t3_def by (rule pipe_no_exec [OF s1 s2])
  moreover have "adds no_exec t4 t5" by (rule sys_no_exec [OF s5]) simp
  moreover have "adds no_exec t5 t7"
    unfolding t7_def t6_def by (cases off) (auto intro: adds_trans small_no_exec(3))
  ultimately have "adds no_exec t t7" by (meson adds_trans)
  moreover have "t' = become E [enter_ns E (ns_path_net net PATH_LEN i)] (r, w) ''./bin/concord''
      (case arg of None \<Rightarrow> [''concord''] | Some a \<Rightarrow> [''concord'', a]) t7"
    unfolding t7_def t6_def
    using assms s4 s5 by (auto simp: spawn_one_net_def s1 s2 dir Let_def t3_def
        split: if_splits bool.splits prod.splits)
  then have "\<exists>new. t' = new @ t7 \<and> inside_ns (ns_path_net net PATH_LEN i) new"
    using become_inside [of E "ns_path_net net PATH_LEN i" "[enter_ns E (ns_path_net net PATH_LEN i)]"] enter_ns_no_exec
    by simp
  ultimately show ?thesis by (rule inside_ns_after)
qed

lemma spawn_cmd_child:
  assumes "sim_spawn_cmd E (Some net) pidp logfdp i cp t = Child t'" "i > 0 \<or> isolate_all net \<noteq> 0"
  shows "\<exists>new. t' = new @ t \<and> inside_ns (ns_path_net net PATH_LEN i) new"
proof -
  obtain r t1 where s1: "sys E Pipe t = (r, t1)" by (cases "sys E Pipe t")
  obtain w t2 where s2: "sys E Pipe_end t1 = (w, t2)" by (cases "sys E Pipe_end t1")
  define t3 where "t3 = cloexec_fd E w (cloexec_fd E r t2)"
  obtain p t5 where s5: "sys E Fork t3 = (p, t5)" by (cases "sys E Fork t3")
  have "adds no_exec t t3"
    unfolding t3_def by (rule pipe_no_exec [OF s1 s2])
  then have "adds no_exec t t5" using sys_no_exec [OF s5] adds_trans by blast
  moreover obtain cmd where cmd: "cp = Some cmd"
    using assms(1) by (cases cp) (auto simp: sim_spawn_cmd_def split: if_splits)
  have "t' = become E
      ((case workdir cmd of None \<Rightarrow> [] | Some d \<Rightarrow> [change_dir E d]) @ [enter_ns E (ns_path_net net PATH_LEN i)])
      (r, w) (the (bin cmd)) (the (argv cmd)) t5"
    using assms s5 by (simp add: sim_spawn_cmd_def cmd s1 s2 Let_def flip: t3_def split: if_splits prod.splits)
  then have "\<exists>new. t' = new @ t5 \<and> inside_ns (ns_path_net net PATH_LEN i) new"
    using enter_ns_no_exec small_no_exec(1) by (auto intro!: become_inside split: option.splits)
  ultimately show ?thesis by (rule inside_ns_after)
qed

section \<open>Properties\<close>

text \<open>
  C27. Starting the nodes of a run orphans nothing. Whatever fails, on success the children and
  the descriptors of the process are those it had plus one child and one log pipe for every
  node, all different; on failure, once the started nodes have been stopped, they are exactly
  those it had before.
\<close>

theorem spawn_no_orphans:
  assumes "kernel E" "waits E" "nat n \<le> length pids" "nat n \<le> length logfds"
    and "sim_spawn_concord_net E np (Some pids) (Some logfds) n t = Some (Parent (ok, pids', logfds', t'))"
  shows "if ok then (\<exists>ps ls. pids' = Some ps \<and> logfds' = Some ls \<and>
             live_kids t' = live_kids t \<union> set (take (nat n) ps) \<and>
             live_fds t' = live_fds t \<union> set (take (nat n) ls) \<and>
             distinct (take (nat n) ps) \<and> distinct (take (nat n) ls) \<and>
             (\<forall>j < nat n. ps ! j > 0 \<and> ls ! j \<ge> 0))
         else live_kids t' = live_kids t \<and> live_fds t' = live_fds t"
  using spawn_nodes_live [OF assms(1-4) _ assms(5) [unfolded sim_spawn_concord_net_def],
      of "\<lambda>_. None" "\<lambda>_. None" "\<lambda>_. 0"]
  by (auto simp: running_def same_live_def split: if_splits)

definition no_fork :: os where
  "no_fork t r = (if r = Fork then -12 else calm_os t r)"

lemma no_fork_ok: "kernel no_fork" "waits no_fork"
proof -
  have "-12 \<notin> live_kids t" for t using live_nonneg [of "-12" t] by auto
  then show "kernel no_fork" "waits no_fork"
    using kernel_calm by (simp_all add: kernel_def no_fork_def waits_def calm_os_def)
qed

theorem spawn_no_orphans_witness:
  "\<exists>p l t. sim_spawn_concord_net no_fork (Some (run_net 3)) (Some [7, 7]) (Some [7, 7]) 2 [] =
      Some (Parent (False, p, l, t)) \<and> live_kids t = {} \<and> live_fds t = {}"
proof -
  have v: "sim_net_valid (Some (run_net 3))" by (rule run_net_valid) (simp_all add: RUN_ID_MAX_def)
  have one: "\<exists>pid l u. spawn_one_net no_fork (Some (run_net 3)) p q 0 None None 0 t = Parent (False, pid, l, u)" for p q t
    by (cases "node_dir_net (run_net 3) PATH_LEN 0")
      (auto simp: spawn_one_net_def v Let_def sys_eq no_fork_def spawn_fail_def split: prod.splits bool.splits)
  then obtain pid l u where u: "spawn_one_net no_fork (Some (run_net 3)) (-1) (-1) 0 None None 0
      (snd (mkdir_ok no_fork (statedir (run_net 3)) [])) = Parent (False, pid, l, u)" by blast
  have "mkdir_ok no_fork d t = (True, snd (mkdir_ok no_fork d t))" for d t
    by (simp add: mkdir_ok_def sys_eq no_fork_def calm_os_def)
  then have "ensure_parent_net no_fork (Some (run_net 3)) [] = (True, snd (mkdir_ok no_fork (statedir (run_net 3)) []))"
    by (simp add: ensure_parent_net_def)
  then have "\<exists>p l t. sim_spawn_concord_net no_fork (Some (run_net 3)) (Some [7, 7]) (Some [7, 7]) 2 [] = Some (Parent (False, p, l, t))"
    using v u by (simp add: sim_spawn_concord_net_def spawn_nodes_def TUN_MAP_MAX_def upto_rec1 preset_def
        Let_def spawn_unwind_def numeral_2_eq_2)
  then obtain p l t where r: "sim_spawn_concord_net no_fork (Some (run_net 3)) (Some [7, 7]) (Some [7, 7]) 2 [] =
      Some (Parent (False, p, l, t))" by blast
  from spawn_no_orphans [OF no_fork_ok _ _ r] r show ?thesis by simp
qed

text \<open>
  C28. Isolation: however \<open>fork\<close>, \<open>setns\<close> and the rest answer, a new process of a node other than
  the first, or of any node of an isolated net, runs a program only after it has opened its own
  network namespace and entered it. This holds for nodes and for the commands of a scenario.
\<close>

theorem child_isolated:
  assumes "i > 0 \<or> isolate_all net \<noteq> 0"
  shows "(\<forall>pid logfd off arg octet t'.
            spawn_one_net E (Some net) pid logfd i off arg octet t = Child t' \<longrightarrow>
            (\<exists>new. t' = new @ t \<and> inside_ns (ns_path_net net PATH_LEN i) new)) \<and>
         (\<forall>pid logfd cmd t'.
            sim_spawn_cmd E (Some net) pid logfd i cmd t = Child t' \<longrightarrow>
            (\<exists>new. t' = new @ t \<and> inside_ns (ns_path_net net PATH_LEN i) new))"
  using spawn_one_child [OF _ assms] spawn_cmd_child [OF _ assms] by blast

definition in_child :: os where
  "in_child t r = (if r = Fork then 0 else calm_os t r)"

theorem child_isolated_witness:
  "\<exists>new. sim_spawn_cmd in_child (Some (run_net 3)) (Some 0) (Some 0) 1
      (Some \<lparr>bin = Some ''/bin/true'', argv = Some [''true''], workdir = None\<rparr>) [] = Child (new @ []) \<and>
    inside_ns (Some ''/var/run/netns/resonance3_1'') new \<and> (Exec ''/bin/true'' [''true''], 0) \<in> set new"
proof -
  let ?c = "sim_spawn_cmd in_child (Some (run_net 3)) (Some 0) (Some 0) 1
      (Some \<lparr>bin = Some ''/bin/true'', argv = Some [''true''], workdir = None\<rparr>) []"
  have v: "sim_net_valid (Some (run_net 3))" by (rule run_net_valid) (simp_all add: RUN_ID_MAX_def)
  have ns: "ns_path_net (run_net 3) PATH_LEN 1 = Some ''/var/run/netns/resonance3_1''"
    by (simp add: ns_path_net_def run_net_def run_mark_def fmt_d_def digits.simps digit_char_def snprintf_def
        PATH_LEN_def numeral_eq_Suc)
  have "\<exists>t'. ?c = Child t' \<and> (Exec ''/bin/true'' [''true''], 0) \<in> set t'"
    using v ns by (simp add: sim_spawn_cmd_def TUN_MAP_MAX_def Let_def sys_eq call_eq in_child_def calm_os_def
        become_def enter_ns_def dup_to_def cloexec_fd_def)
  then obtain t' where t': "?c = Child t'" "(Exec ''/bin/true'' [''true''], 0) \<in> set t'" by blast
  from child_isolated [of 1 "run_net 3" in_child "[]"] t' ns show ?thesis by auto
qed

text \<open>
  C29. Stopping a child returns: with a clock that moves on by the time slept, and a blocking
  wait that is interrupted finitely often, the polite wait of five seconds and the reaping
  after it end, and the child is gone.
\<close>

theorem spawn_wait_returns:
  assumes "quiet_after K E" "clock_runs E" "waits E" "pid > 0"
  shows "\<exists>t'. spawn_wait E pid t = Some t' \<and> live_kids t' = live_kids t - {pid} \<and> live_fds t' = live_fds t"
proof -
  have "SPAWN_KILL_S \<le> int 5" by (simp add: SPAWN_KILL_S_def)
  then obtain t' where "stop_child E SPAWN_KILL_S pid t = Some t'"
    using stop_child_live [OF assms(1,2)] by blast
  then show ?thesis using stop_child_reaps assms(3,4) by (auto simp: spawn_wait_def)
qed

text \<open>A child that ignores \<open>SIGTERM\<close>, on a clock that counts the sleeps.\<close>

definition stubborn :: os where
  "stubborn t r =
     (case r of
        Time \<Rightarrow> int (sleeps t)
      | Waitpid pid hang \<Rightarrow> if hang then 0 else pid
      | _ \<Rightarrow> 0)"

theorem spawn_wait_returns_witness:
  "\<exists>t'. spawn_wait stubborn 41 [(Fork, 41)] = Some t' \<and> live_kids t' = {} \<and> live_fds t' = {}"
proof -
  have "quiet_after 0 stubborn" "clock_runs stubborn" "waits stubborn"
    by (simp_all add: quiet_after_def clock_runs_def waits_def stubborn_def sleeps_def EINTR_def)
  from spawn_wait_returns [OF this, of 41 "[(Fork, 41)]"] show ?thesis by simp
qed

end
