(* ===== verification/Run_Life.thy ===== *)
theory Run_Life
  imports Run_Sampler Sim_Spawn
begin

text \<open>
  The life of a run, the rest of \<open>run/run.c\<close>: setting it up and undoing a setup that failed,
  polling its devices and log pipes, watching its children, and tearing it down.

  \<open>wake\<close> says which entries of the poll vector a \<open>poll\<close> marks ready, \<open>tuns\<close> is the environment
  in which the pump reads and writes the device of a node. The callbacks of the caller are
  functions on its data \<open>'u\<close>. The packets the pump writes are collected in a log.
\<close>

section \<open>Setting up\<close>

definition POLL_MS :: int where "POLL_MS = 100"
definition CHUNK_LEN :: nat where "CHUNK_LEN = 2048"
definition RUN_CMD_LEN :: nat where "RUN_CMD_LEN = 192"
definition TUN_LEN :: nat where "TUN_LEN = 64"
definition TEARDOWN_KILL_S :: int where "TEARDOWN_KILL_S = 5"

datatype run_result = RUN_OK | RUN_SKIP | RUN_FAIL

definition host_down_net :: "os \<Rightarrow> sim_net ptr \<Rightarrow> trace \<Rightarrow> trace" where
  "host_down_net E np t =
     (case np of
        None \<Rightarrow> t
      | Some net \<Rightarrow>
          if isolate_all net \<noteq> 0 then t
          else if \<not> sim_net_valid np then t
          else
            (case snprintf TUN_LEN (tun_prefix net @ fmt_d (tun_base net)) of
               None \<Rightarrow> t
             | Some tun \<Rightarrow>
                 fold (try_fit E RUN_CMD_LEN)
                   [''ip route del 224.0.0.0/4 dev '' @ tun @ '' 2>/dev/null'',
                    ''ip addr del '' @ subnet net @ ''1/24 dev '' @ tun @ '' 2>/dev/null'',
                    ''ip link del '' @ tun @ '' 2>/dev/null''] t))"

definition close_tun :: "os \<Rightarrow> nat \<Rightarrow> run \<times> trace \<Rightarrow> run \<times> trace" where
  "close_tun E i s =
     (case s of (r, t) \<Rightarrow>
        (case close_slot E i (r_fds r) t of (fds, t) \<Rightarrow> (r\<lparr>r_fds := fds\<rparr>, t)))"

definition free_store :: "run \<Rightarrow> run" where
  "free_store r =
     (case context_free (Some (r_ctx r)) of
        (_, Some c) \<Rightarrow> r\<lparr>r_ctx := c, shist := None\<rparr>
      | (_, None) \<Rightarrow> r\<lparr>shist := None\<rparr>)"

definition setup_unwind :: "os \<Rightarrow> sim_net ptr \<Rightarrow> int \<Rightarrow> run \<times> trace \<Rightarrow> run \<times> trace" where
  "setup_unwind E np n s =
     (case fold (close_tun E) [0..<nat n] s of
        (r, t) \<Rightarrow>
          let t = host_down_net E np t;
              r = free_store r
          in (r, snd (sim_netns_teardown_net E np n t)))"

definition setup_init :: "allocator \<Rightarrow> run \<Rightarrow> sim_net \<Rightarrow> int \<Rightarrow> bool \<times> run" where
  "setup_init alloc r net n =
     (let r = r\<lparr>r_n := n, r_dead := - 1, r_done := False, r_net := net, r_map := no_slots,
                r_fds := preset (nat n) (r_fds r), r_logfds := preset (nat n) (r_logfds r),
                r_pids := preset (nat n) (r_pids r)\<rparr> in
      (case clear_store alloc r of
         (False, r) \<Rightarrow> (False, r)
       | (True, r) \<Rightarrow>
           (case context_init alloc (Some (r_ctx r)) 32 1 of
              (True, Some c) \<Rightarrow> (True, r\<lparr>r_ctx := c\<rparr>)
            | (_, Some c) \<Rightarrow> (False, r\<lparr>r_ctx := c, shist := None\<rparr>)
            | (_, None) \<Rightarrow> (False, r\<lparr>shist := None\<rparr>))))"

definition setup_poll :: "run \<Rightarrow> run" where
  "setup_poll r =
     (let n = nat (r_n r) in
      r\<lparr>r_p := map (\<lambda>i. \<lparr>p_fd = r_fds r ! i, p_in = False\<rparr>) [0..<n] @
               replicate n \<lparr>p_fd = - 1, p_in = False\<rparr> @ drop (2 * n) (r_p r)\<rparr>)"

text \<open>
  The two setups are one text with other calls for the namespaces, the devices and the
  addresses. The result is the verdict, the run and the trace; the \<open>errno\<close> that a skip keeps for
  its message is not modelled.
\<close>

definition setup_steps ::
  "os \<Rightarrow> allocator \<Rightarrow> run \<Rightarrow> sim_net \<Rightarrow> int \<Rightarrow>
   (trace \<Rightarrow> bool \<times> trace) \<Rightarrow> (int list ptr \<Rightarrow> trace \<Rightarrow> bool \<times> int list ptr \<times> trace) \<Rightarrow>
   (trace \<Rightarrow> bool \<times> trace) \<Rightarrow> trace \<Rightarrow> run_result \<times> run ptr \<times> trace" where
  "setup_steps E alloc r net n netns opens addrs t =
     (case setup_init alloc r net n of
        (False, r) \<Rightarrow> (RUN_FAIL, Some r, t)
      | (True, r) \<Rightarrow>
          let undo = (\<lambda>v r t. case setup_unwind E (Some net) n (r, t) of (r, t) \<Rightarrow> (v, Some r, t)) in
          (case netns t of
             (False, t) \<Rightarrow> undo RUN_FAIL r t
           | (True, t) \<Rightarrow>
               (case opens (Some (r_fds r)) t of
                  (ok, fdsp, t) \<Rightarrow>
                    let r = (case fdsp of None \<Rightarrow> r | Some fds \<Rightarrow> r\<lparr>r_fds := fds\<rparr>) in
                    if \<not> ok then undo RUN_SKIP r t
                    else
                      (case sim_nodes_add_net alloc (Some net) (Some (r_ctx r)) (Some (r_map r)) (Some (r_fds r)) n of
                         (ok, cp, mp) \<Rightarrow>
                           let r = (case cp of None \<Rightarrow> r | Some c \<Rightarrow> r\<lparr>r_ctx := c\<rparr>);
                               r = (case mp of None \<Rightarrow> r | Some m \<Rightarrow> r\<lparr>r_map := m\<rparr>) in
                           if \<not> ok then undo RUN_FAIL r t
                           else
                             (case addrs t of
                                (False, t) \<Rightarrow> undo RUN_FAIL r t
                              | (True, t) \<Rightarrow> (RUN_OK, Some (setup_poll r), t))))))"

definition run_setup_host ::
  "os \<Rightarrow> allocator \<Rightarrow> run ptr \<Rightarrow> sim_net ptr \<Rightarrow> int \<Rightarrow> trace \<Rightarrow> run_result \<times> run ptr \<times> trace" where
  "run_setup_host E alloc rp np n t =
     (case (rp, np) of
        (Some r, Some net) \<Rightarrow>
          if n < 1 \<or> n > int TUN_MAP_MAX then (RUN_FAIL, rp, t)
          else if isolate_all net \<noteq> 0 then (RUN_FAIL, rp, t)
          else
            setup_steps E alloc r net n (sim_netns_setup_net E np n)
              (\<lambda>fds. sim_tuns_open_net E np fds n) (sim_addrs_up_net E np n) t
      | _ \<Rightarrow> (RUN_FAIL, rp, t))"

definition run_setup_isolated ::
  "os \<Rightarrow> allocator \<Rightarrow> run ptr \<Rightarrow> sim_net ptr \<Rightarrow> int \<Rightarrow> trace \<Rightarrow> run_result \<times> run ptr \<times> trace" where
  "run_setup_isolated E alloc rp np n t =
     (case (rp, np) of
        (Some r, Some net) \<Rightarrow>
          if n < 1 \<or> n > int TUN_MAP_MAX then (RUN_FAIL, rp, t)
          else if isolate_all net = 0 then (RUN_FAIL, rp, t)
          else
            setup_steps E alloc r net n (sim_netns_setup_all E np n)
              (\<lambda>fds. sim_tuns_open_all E np fds n) (sim_addrs_up_all E np n) t
      | _ \<Rightarrow> (RUN_FAIL, rp, t))"

section \<open>Polling\<close>

type_synonym wake = "trace \<Rightarrow> nat \<Rightarrow> bool"
type_synonym tuns = "trace \<Rightarrow> int \<Rightarrow> tun_env"
type_synonym 'u drop_fn = "'u \<Rightarrow> int \<Rightarrow> bool \<times> 'u"
type_synonym 'u log_fn = "'u \<Rightarrow> int \<Rightarrow> string \<Rightarrow> 'u"
type_synonym 'u poll_state = "run \<times> write_log \<times> 'u \<times> trace"

text \<open>What \<open>poll\<close> writes into the first \<open>k\<close> entries: a negative descriptor is never ready.\<close>

definition marked :: "(nat \<Rightarrow> bool) \<Rightarrow> nat \<Rightarrow> pollfd list \<Rightarrow> pollfd list" where
  "marked w k ps =
     map (\<lambda>i. if i < k then (ps ! i)\<lparr>p_in := p_fd (ps ! i) \<ge> 0 \<and> w i\<rparr> else ps ! i) [0..<length ps]"

definition pump_node :: "os \<Rightarrow> tuns \<Rightarrow> 'u drop_fn ptr \<Rightarrow> int \<Rightarrow> 'u poll_state \<Rightarrow> 'u poll_state" where
  "pump_node E V dropf i s =
     (case s of (r, w, u, t) \<Rightarrow>
        let discard = (\<lambda>t. call E (Read (r_fds r ! nat i) CHUNK_LEN) t) in
        if \<not> p_in (r_p r ! nat i) then s
        else if i = r_dead r then (r, w, u, discard t)
        else
          (case (case dropf of None \<Rightarrow> (False, u) | Some f \<Rightarrow> f u i) of
             (d, u) \<Rightarrow>
               if d then (r, w, u, discard t)
               else
                 (case tun_pump_fd (V t i) (Some (r_map r)) (r_fds r ! nat i) (Some (grid (r_ctx r)))
                         (Some (radio (r_ctx r))) (Some (node_tab (r_ctx r))) of
                    (Some m, lg) \<Rightarrow> (r\<lparr>r_map := m\<rparr>, w @ lg, u, t)
                  | (None, lg) \<Rightarrow> (r, w @ lg, u, t))))"

definition log_node :: "os \<Rightarrow> filled \<Rightarrow> 'u log_fn ptr \<Rightarrow> int \<Rightarrow> 'u poll_state \<Rightarrow> 'u poll_state" where
  "log_node E D logf i s =
     (case s of (r, w, u, t) \<Rightarrow>
        if \<not> p_in (r_p r ! nat (r_n r + i)) then s
        else if r_logfds r ! nat i < 0 then s
        else
          (case sys E (Read (r_logfds r ! nat i) (CHUNK_LEN - 1)) t of
             (k, t) \<Rightarrow>
               if k \<le> 0 then (r, w, u, t)
               else
                 (case logf of
                    None \<Rightarrow> (r, w, u, t)
                  | Some f \<Rightarrow> (r, w, f u i (take (nat k) (D t)), t))))"

definition poll_once ::
  "os \<Rightarrow> filled \<Rightarrow> wake \<Rightarrow> tuns \<Rightarrow> run ptr \<Rightarrow> 'u drop_fn ptr \<Rightarrow> 'u log_fn ptr \<Rightarrow> 'u \<Rightarrow> int \<Rightarrow> trace \<Rightarrow>
   int \<times> run ptr \<times> write_log \<times> 'u \<times> trace" where
  "poll_once E D W V rp dropf logf u ms t =
     (case rp of
        None \<Rightarrow> (- 1, None, [], u, t)
      | Some r \<Rightarrow>
          let ms = (if ms < 0 then 0 else ms) in
          (case sys E (Poll ms) t of
             (hit, t) \<Rightarrow>
               let r = (if hit < 0 then r
                        else r\<lparr>r_p := marked (\<lambda>i. hit > 0 \<and> W t i) (nat (2 * r_n r)) (r_p r)\<rparr>) in
               (case (if hit > 0
                      then fold (log_node E D logf) [0..r_n r - 1]
                             (fold (pump_node E V dropf) [0..r_n r - 1] (r, [], u, t))
                      else (r, [], u, t)) of
                  (r, w, u, t) \<Rightarrow>
                    (case sample_pass E D (Some r) False t of
                       (rp, t) \<Rightarrow> (hit, rp, w, u, t)))))"

definition run_poll where
  "run_poll E D W V rp dropf logf u t = poll_once E D W V rp dropf logf u POLL_MS t"

definition run_poll_ms where
  "run_poll_ms E D W V rp dropf logf u ms t = poll_once E D W V rp dropf logf u ms t"

section \<open>Timers of the callers\<close>

definition run_hold :: "os \<Rightarrow> int ptr \<Rightarrow> int \<Rightarrow> trace \<Rightarrow> bool \<times> int ptr \<times> trace" where
  "run_hold E tp secs t =
     (case tp of
        None \<Rightarrow> (False, None, t)
      | Some t0 \<Rightarrow>
          (case sys E Time t of
             (now, t) \<Rightarrow> if t0 = 0 then (False, Some now, t) else (now - t0 \<ge> secs, Some t0, t)))"

definition run_throttle :: "os \<Rightarrow> int ptr \<Rightarrow> int \<Rightarrow> trace \<Rightarrow> bool \<times> int ptr \<times> trace" where
  "run_throttle E tp secs t =
     (case tp of
        None \<Rightarrow> (False, None, t)
      | Some prev \<Rightarrow>
          (case (if prev \<noteq> 0 then (case sys E Time t of (now, t) \<Rightarrow> (now - prev < secs, t)) else (False, t)) of
             (early, t) \<Rightarrow>
               if early then (False, Some prev, t)
               else (case sys E Time t of (now, t) \<Rightarrow> (True, Some now, t))))"

section \<open>Children\<close>

fun alive_scan :: "os \<Rightarrow> int \<Rightarrow> int list \<Rightarrow> run \<times> trace \<Rightarrow> bool \<times> run \<times> trace" where
  "alive_scan E skip [] s = (False, s)"
| "alive_scan E skip (i # is) (r, t) =
     (if i = skip then alive_scan E skip is (r, t)
      else if r_pids r ! nat i \<le> 0 then alive_scan E skip is (r, t)
      else
        (case sys E (Waitpid (r_pids r ! nat i) True) t of
           (w, t) \<Rightarrow>
             if w = 0 then (True, r, t)
             else if w > 0 \<or> w = - ECHILD then
               alive_scan E skip is (r\<lparr>r_pids := (r_pids r)[nat i := - 1]\<rparr>, t)
             else (True, r, t)))"

definition run_alive :: "os \<Rightarrow> run ptr \<Rightarrow> int \<Rightarrow> trace \<Rightarrow> bool \<times> run ptr \<times> trace" where
  "run_alive E rp skip t =
     (case rp of
        None \<Rightarrow> (False, None, t)
      | Some r \<Rightarrow> (case alive_scan E skip [0..r_n r - 1] (r, t) of (b, r, t) \<Rightarrow> (b, Some r, t)))"

definition run_note_dead :: "os \<Rightarrow> run ptr \<Rightarrow> int \<Rightarrow> trace \<Rightarrow> run ptr \<times> trace" where
  "run_note_dead E rp i t =
     (case rp of
        None \<Rightarrow> (None, t)
      | Some r \<Rightarrow>
          if i < 0 \<or> i \<ge> r_n r then (Some r, t)
          else if r_dead r \<ge> 0 then (Some r, t)
          else
            (case close_slot E (nat i) (r_logfds r) t of
               (logfds, t) \<Rightarrow>
                 let k = nat (r_n r + i) in
                 (Some (r\<lparr>r_dead := i, r_logfds := logfds, r_p := (r_p r)[k := (r_p r ! k)\<lparr>p_fd := - 1\<rparr>]\<rparr>), t)))"

definition run_rearm :: "run ptr \<Rightarrow> int \<Rightarrow> run ptr" where
  "run_rearm rp i =
     (case rp of
        None \<Rightarrow> None
      | Some r \<Rightarrow>
          if i < 0 \<or> i \<ge> r_n r then Some r
          else
            let k = nat (r_n r + i);
                r = r\<lparr>r_p := (r_p r)[k := (r_p r ! k)\<lparr>p_fd := r_logfds r ! nat i\<rparr>]\<rparr> in
            Some (if r_dead r = i then r\<lparr>r_dead := - 1\<rparr> else r))"

section \<open>Tearing down\<close>

definition teardown_wait :: "os \<Rightarrow> int \<Rightarrow> trace \<Rightarrow> trace option" where
  "teardown_wait E pid t = stop_child E TEARDOWN_KILL_S pid t"

definition stop_slot :: "os \<Rightarrow> nat \<Rightarrow> run \<times> trace \<Rightarrow> (run \<times> trace) option" where
  "stop_slot E i s =
     (case s of (r, t) \<Rightarrow>
        if int i = r_dead r then Some (close_tun E i (r, t))
        else
          (case (if r_pids r ! i > 0
                 then map_option (\<lambda>t. (r\<lparr>r_pids := (r_pids r)[i := - 1]\<rparr>, t)) (teardown_wait E (r_pids r ! i) t)
                 else Some (r, t)) of
             None \<Rightarrow> None
           | Some s \<Rightarrow>
               (case close_tun E i s of
                  (r, t) \<Rightarrow>
                    (case close_slot E i (r_logfds r) t of
                       (logfds, t) \<Rightarrow> Some (r\<lparr>r_logfds := logfds\<rparr>, t)))))"

fun stop_slots :: "os \<Rightarrow> nat list \<Rightarrow> run \<times> trace \<Rightarrow> (run \<times> trace) option" where
  "stop_slots E [] s = Some s"
| "stop_slots E (i # is) s = (case stop_slot E i s of None \<Rightarrow> None | Some s \<Rightarrow> stop_slots E is s)"

definition wipe :: "os \<Rightarrow> sim_net \<Rightarrow> trace \<Rightarrow> trace" where
  "wipe E net t =
     (if \<not> sim_net_valid (Some net) then t else try_fit E RUN_CMD_LEN (''rm -rf '' @ statedir net) t)"

definition run_teardown ::
  "os \<Rightarrow> filled \<Rightarrow> run ptr \<Rightarrow> bool \<Rightarrow> ('u \<Rightarrow> 'u) ptr \<Rightarrow> 'u \<Rightarrow> trace \<Rightarrow> (run ptr \<times> 'u \<times> trace) option" where
  "run_teardown E D rp failed forensics u t =
     (case rp of
        None \<Rightarrow> Some (None, u, t)
      | Some r \<Rightarrow>
          if r_done r then Some (Some r, u, t)
          else
            (case sample_pass E D (Some (r\<lparr>r_done := True\<rparr>)) True t of
               (None, t) \<Rightarrow> None
             | (Some r, t) \<Rightarrow>
                 (case stop_slots E [0..<nat (r_n r)] (r, t) of
                    None \<Rightarrow> None
                  | Some (r, t) \<Rightarrow>
                      let u = (if failed then (case forensics of None \<Rightarrow> u | Some f \<Rightarrow> f u) else u);
                          r = free_store r;
                          t = snd (sim_netns_teardown_net E (Some (r_net r)) (r_n r) t)
                      in Some (Some r, u, wipe E (r_net r) t))))"

end
