(* ===== verification/Run_Own.thy ===== *)
theory Run_Own
  imports Run_Life
begin

text \<open>
  What the operations of a run do to the descriptors and children of the process. \<open>owns\<close> is the
  invariant; the two setups share their proofs in the locale \<open>setup_calls\<close>, which states what they
  rely on; \<open>kills_own\<close> says that signals go to children that are not reaped.
\<close>


section \<open>What the operations leave alone\<close>

lemma commands_adds:
  assumes "\<And>s a. P (System s, a)"
  shows "adds P t (snd (run_cmd E cmd t))" "adds P t (snd (run_fit E cap cmd t))" "adds P t (try_fit E cap cmd t)"
  using assms by (simp_all add: run_cmd_def sys_eq adds_one adds_run_fit adds_try_fit)

lemma netns_adds:
  assumes "\<And>s a. P (System s, a)"
  shows "adds P t (snd (netns_add_one E net i t))" "adds P t (snd (netns_del_one E net i t))"
  "adds P t (rmdir_node E net i t)" "adds P t (snd (addr_up_one_ns E net i t))"
proof -
  note commands = commands_adds [of P, OF assms]
  have two: "adds P t (snd (run_fit E cap cmd (snd (run_cmd E cmd' t))))" for cap cmd cmd'
    by (rule adds_trans [OF commands(1) commands(2)])
  show "adds P t (snd (netns_add_one E net i t))"
    unfolding netns_add_one_def Let_def by (simp only: two commands adds_refl snd_conv split: option.splits) simp
  show "adds P t (snd (netns_del_one E net i t))"
    unfolding netns_del_one_def Let_def by (simp only: two commands adds_refl snd_conv split: option.splits) simp
  show "adds P t (rmdir_node E net i t)"
    unfolding rmdir_node_def by (simp only: commands adds_refl split: option.splits) simp
  have "adds P t (snd (run_seq (map (run_fit E CMD_LEN) cmds) t))" for cmds
    by (rule adds_steps) (auto intro: commands)
  then show "adds P t (snd (addr_up_one_ns E net i t))"
    unfolding addr_up_one_ns_def by (simp only: adds_refl snd_conv split: option.splits) simp
qed

lemma host_ops_adds:
  assumes "\<And>s a. P (System s, a)"
  shows "adds P t (snd (sim_netns_setup_net E np n t))" "adds P t (snd (sim_netns_setup_all E np n t))"
  "adds P t (snd (sim_netns_teardown_net E np n t))" "adds P t (snd (sim_addrs_up_net E np n t))"
  "adds P t (snd (sim_addrs_up_all E np n t))" "adds P t (host_down_net E np t)"
proof -
  note commands = commands_adds [of P, OF assms] and netns = netns_adds [of P, OF assms]
  show "adds P t (snd (sim_netns_setup_net E np n t))" "adds P t (snd (sim_netns_setup_all E np n t))"
    "adds P t (snd (sim_addrs_up_all E np n t))"
    by (auto simp: sim_netns_setup_net_def sim_netns_setup_all_def sim_addrs_up_all_def
        split: option.splits intro!: adds_steps netns)
  show "adds P t (snd (sim_addrs_up_net E np n t))"
    by (auto simp: sim_addrs_up_net_def simp del: run_seq.simps list.map split: option.splits
        intro!: adds_steps commands netns)
  show "adds P t (host_down_net E np t)"
    by (auto simp: host_down_net_def simp del: fold.simps append.simps split: option.splits
        intro!: adds_fold commands)
  have "adds P t (fold (\<lambda>i t. snd (netns_del_one E net i t)) xs t)"
    "adds P t (fold (rmdir_node E net) xs t)" for net xs t
    by (rule adds_fold, rule netns)+
  note folds = this
  have "adds P t (if b then snd (run_cmd E cmd t) else t)" for b cmd t by (simp add: commands)
  note opt = this
  show "adds P t (snd (sim_netns_teardown_net E np n t))"
  proof (cases "sim_net_valid np")
    case True
    then obtain net where "np = Some net" by (auto simp: sim_net_valid_def split: option.splits)
    with True show ?thesis
      by (simp only: sim_netns_teardown_net_def Let_def option.case snd_conv if_False not_True_eq_False)
        (rule adds_trans [OF adds_trans [OF adds_trans [OF folds(1) opt] folds(2)] commands(3)])
  qed (auto simp: sim_netns_teardown_net_def split: option.splits)
qed

lemmas host_ops_neutral = host_ops_adds [where P = neutral, simplified]
lemmas commands_neutral = commands_adds [where P = neutral, simplified]

lemma host_ops_live [simp]:
  "live_fds (snd (sim_netns_teardown_net E np n t)) = live_fds t" "live_kids (snd (sim_netns_teardown_net E np n t)) = live_kids t"
  "live_fds (host_down_net E np t) = live_fds t" "live_kids (host_down_net E np t) = live_kids t"
  "live_fds (wipe E net t) = live_fds t" "live_kids (wipe E net t) = live_kids t"
  using adds_neutral [OF host_ops_neutral(3)] adds_neutral [OF host_ops_neutral(6)] adds_neutral [OF commands_neutral(3)]
  by (simp_all add: wipe_def)

lemma watch_kids: "adds watch_call t t' \<Longrightarrow> live_kids t' = live_kids t"
proof -
  have "live_kids (new @ t) = live_kids t" if "\<forall>c \<in> set new. watch_call c" for new
    using that
  proof (induction new)
    case (Cons c new)
    then show ?case by (cases c rule: watch_call.cases) simp_all
  qed simp
  then show "adds watch_call t t' \<Longrightarrow> live_kids t' = live_kids t" by (auto simp: adds_def)
qed

lemma proc_read_fds: "kernel E \<Longrightarrow> live_fds (snd (proc_read E D path cap t)) = live_fds t"
  using kernel_fresh(1) [of E t path] by (auto simp: proc_read_def sys_eq call_eq Let_def)

lemma proc_io_fds:
  assumes "kernel E"
  shows "live_fds (snd (proc_io E D pid t)) = live_fds t"
proof (cases "snprintf PROC_LEN (''/proc/'' @ fmt_d pid @ ''/io'')")
  case (Some path)
  then show ?thesis using proc_read_fds [OF assms, of D path IO_LEN t]
    by (cases "proc_read E D path IO_LEN t") (auto simp: proc_io_def simp del: append.simps split: option.splits)
qed (simp add: proc_io_def del: append.simps)

lemma snapshot_fds:
  assumes "kernel E"
  shows "live_fds (snd (snapshot E D pid now t)) = live_fds t"
proof (cases "snprintf PROC_LEN (''/proc/'' @ fmt_d pid @ ''/stat'')")
  case (Some path)
  obtain so u where p: "proc_read E D path STAT_LEN t = (so, u)" by fastforce
  then have u: "live_fds u = live_fds t" using proc_read_fds [OF assms, of D path STAT_LEN t] by simp
  show ?thesis
  proof (cases "so = None \<or> stat_text (the so) = None")
    case True
    then have "snapshot E D pid now t = (None, u)"
      using Some p by (cases so) (simp_all add: snapshot_def del: append.simps)
    then show ?thesis using u by simp
  next
    case False
    then obtain buf ut st pages where so: "so = Some buf" "stat_text buf = Some (ut, st, pages)" by auto
    have "live_fds (snd (proc_io E D pid ((Pagesize, E u Pagesize) # u))) = live_fds t"
      using proc_io_fds [OF assms] u by simp
    then show ?thesis using Some p so
      by (simp add: snapshot_def Let_def case_prod_beta sys_eq del: append.simps)
  qed
qed (simp add: snapshot_def del: append.simps)

lemma sample_fold_fds:
  assumes "kernel E"
  shows "live_fds (snd (fold (sample_one E D now) xs (r, t))) = live_fds t"
proof (induction xs arbitrary: r t)
  case (Cons x xs)
  obtain so u where s: "snapshot E D (r_pids r ! nat x) now t = (so, u)" by fastforce
  then have "live_fds u = live_fds t" using snapshot_fds [OF assms, of D "r_pids r ! nat x" now t] by simp
  with s have "live_fds (snd (sample_one E D now x (r, t))) = live_fds t"
    by (auto simp: sample_one_def Let_def split: option.splits)
  then show ?case using Cons [of "fst (sample_one E D now x (r, t))" "snd (sample_one E D now x (r, t))"] by simp
qed simp

lemma sample_pass_live:
  assumes "kernel E"
  shows "live_fds (snd (sample_pass E D rp force t)) = live_fds t" "live_kids (snd (sample_pass E D rp force t)) = live_kids t"
proof -
  show "live_kids (snd (sample_pass E D rp force t)) = live_kids t" by (rule watch_kids [OF sample_pass_watches])
  show "live_fds (snd (sample_pass E D rp force t)) = live_fds t"
  proof (cases rp)
    case (Some r)
    obtain now u where c: "now_ms E t = (now, u)" by fastforce
    then have "live_fds u = live_fds t" by (auto simp: now_ms_def sys_eq Let_def split: if_splits)
    then show ?thesis using Some c sample_fold_fds [OF assms, of D now] by (simp add: sample_pass_def)
  qed (simp add: sample_pass_def)
qed

section \<open>Closing\<close>

lemma close_tun_opened:
  assumes "opened base n (r_fds r) t" "i < n" "close_tun E i (r, t) = (r', t')"
  shows "opened base n (r_fds r') t' \<and> r_fds r' ! i < 0 \<and> (\<forall>k. r_fds r ! k < 0 \<longrightarrow> r_fds r' ! k < 0) \<and>
    live_kids t' = live_kids t \<and> (\<exists>fds. r' = r\<lparr>r_fds := fds\<rparr>)"
proof -
  have "n \<le> length (r_fds r)" using assms(1) by (simp add: opened_def)
  then show ?thesis
    using assms opened_close [OF assms(1,2)]
    by (auto simp: close_tun_def close_slot_def nth_list_update split: if_splits intro: exI [of _ "r_fds r"])
qed

lemma close_all_opened:
  assumes "opened base n (r_fds r) t" "\<forall>i \<in> set xs. i < n" "fold (close_tun E) xs (r, t) = (r', t')"
  shows "opened base n (r_fds r') t' \<and> (\<forall>i \<in> set xs. r_fds r' ! i < 0) \<and> (\<forall>k. r_fds r ! k < 0 \<longrightarrow> r_fds r' ! k < 0) \<and>
    live_kids t' = live_kids t \<and> (\<exists>fds. r' = r\<lparr>r_fds := fds\<rparr>)"
  using assms
proof (induction xs arbitrary: r t)
  case Nil
  then show ?case by (auto intro: exI [of _ "r_fds r"])
next
  case (Cons x xs)
  obtain r1 t1 where s: "close_tun E x (r, t) = (r1, t1)" by fastforce
  then have one: "opened base n (r_fds r1) t1" "r_fds r1 ! x < 0" "\<And>k. r_fds r ! k < 0 \<Longrightarrow> r_fds r1 ! k < 0"
    "live_kids t1 = live_kids t" "\<exists>fds. r1 = r\<lparr>r_fds := fds\<rparr>"
    using close_tun_opened [OF Cons.prems(1) _ s] Cons.prems(2) by auto
  have "fold (close_tun E) xs (r1, t1) = (r', t')" using Cons.prems(3) s by simp
  from Cons.IH [OF one(1) _ this] Cons.prems(2) one show ?case by auto
qed

lemma opened_shut: "opened base n fds t \<Longrightarrow> \<forall>k < n. fds ! k < 0 \<Longrightarrow> live_fds t = base"
  using held_fds_iff [of n fds] by (fastforce simp: opened_def)

text \<open>
  The memory of a run is given back: no sample store, and in the context no event queue, no node
  table and no map.
\<close>

definition ctx_freed :: "sim_context \<Rightarrow> bool" where
  "ctx_freed c =
     (heap c = None \<and> node_tab c = \<lparr>nodes = [], ncap = 0, nblock = 0, by_id = [], iblock = 0\<rparr> \<and> cells (grid c) = None)"

lemma ctx_freed_free: "context_free (Some c) = (evs, Some c') \<Longrightarrow> ctx_freed c'"
  by (auto simp: context_free_def nodelist_free_def mediumgrid_free_def Let_def ctx_freed_def)

lemma ctx_freed_init: "context_init alloc (Some c) cap sd = (False, Some c') \<Longrightarrow> ctx_freed c'"
  by (auto simp: context_init_def nodelist_init_def nodelist_free_def mediumgrid_init_def Let_def ctx_freed_def
      split: if_splits option.splits prod.splits)

lemma context_init_live: "\<exists>ok c'. context_init alloc (Some c) cap sd = (ok, Some c')"
  by (auto simp: context_init_def nodelist_init_def nodelist_free_def mediumgrid_init_def Let_def)

lemma free_store_freed [simp]: "ctx_freed (r_ctx (free_store r))"
proof -
  obtain evs c where "context_free (Some (r_ctx r)) = (evs, Some c)" by (auto simp: context_free_def Let_def)
  then show ?thesis using ctx_freed_free by (simp add: free_store_def)
qed

lemma free_store_simps [simp]:
  "shist (free_store r) = None" "heap (r_ctx (free_store r)) = None" "r_fds (free_store r) = r_fds r"
  "r_logfds (free_store r) = r_logfds r" "r_pids (free_store r) = r_pids r" "r_n (free_store r) = r_n r"
  "r_net (free_store r) = r_net r" "r_dead (free_store r) = r_dead r" "r_done (free_store r) = r_done r"
  by (auto simp: free_store_def context_free_def nodelist_free_def mediumgrid_free_def Let_def split: option.splits)

lemma setup_unwind_live:
  assumes "opened F (nat n) (r_fds r) t" "setup_unwind E np n (r, t) = (r', t')"
  shows "live_fds t' = F \<and> live_kids t' = live_kids t \<and> (\<forall>k < nat n. r_fds r' ! k < 0) \<and> shist r' = None \<and>
    ctx_freed (r_ctx r') \<and> (\<exists>u. t' = snd (sim_netns_teardown_net E np n u))"
proof -
  obtain r1 t1 where s: "fold (close_tun E) [0..<nat n] (r, t) = (r1, t1)" by fastforce
  have c: "opened F (nat n) (r_fds r1) t1" "\<forall>k < nat n. r_fds r1 ! k < 0" "live_kids t1 = live_kids t"
    using close_all_opened [OF assms(1) _ s] by auto
  have "r' = free_store r1" "t' = snd (sim_netns_teardown_net E np n (host_down_net E np t1))"
    using assms(2) s by (auto simp: setup_unwind_def Let_def)
  with c opened_shut [OF c(1,2)] show ?thesis by auto
qed

lemma unwind_freed: "setup_unwind E np n s = (r', t') \<Longrightarrow> ctx_freed (r_ctx r')"
  by (auto simp: setup_unwind_def Let_def split: prod.splits)

section \<open>Setting up\<close>

lemma setup_init_True:
  assumes "setup_init alloc r net n = (True, r')"
  shows "r_fds r' = preset (nat n) (r_fds r)" "r_logfds r' = preset (nat n) (r_logfds r)"
    "r_pids r' = preset (nat n) (r_pids r)" "r_n r' = n" "r_dead r' = - 1" "\<not> r_done r'" "r_net r' = net"
    "r_map r' = no_slots" "r_p r' = r_p r" "holds_history r' (\<lambda>i. [])"
    "context_init alloc (Some (r_ctx r)) 32 1 = (True, Some (r_ctx r'))"
proof -
  define r0 where "r0 = r\<lparr>r_n := n, r_dead := - 1, r_done := False, r_net := net, r_map := no_slots,
    r_fds := preset (nat n) (r_fds r), r_logfds := preset (nat n) (r_logfds r), r_pids := preset (nat n) (r_pids r)\<rparr>"
  obtain b r1 where c: "clear_store alloc r0 = (b, r1)" by fastforce
  obtain ok cp where i: "context_init alloc (Some (r_ctx r1)) 32 1 = (ok, cp)" by fastforce
  have s: "setup_init alloc r net n = (if \<not> b then (False, r1) else case context_init alloc (Some (r_ctx r1)) 32 1 of
      (True, Some c) \<Rightarrow> (True, r1\<lparr>r_ctx := c\<rparr>) | (_, Some c) \<Rightarrow> (False, r1\<lparr>r_ctx := c, shist := None\<rparr>)
    | (_, None) \<Rightarrow> (False, r1\<lparr>shist := None\<rparr>))"
    using c by (auto simp: setup_init_def r0_def Let_def)
  from assms obtain ctx where b: "b" "ok" "cp = Some ctx" "r' = r1\<lparr>r_ctx := ctx\<rparr>"
    by (cases b; cases ok; cases cp) (simp_all add: s i)
  have h: "holds_history r1 (\<lambda>i. [])" "run_core r1 = run_core r0" using clear_store_history c b(1) by auto
  have "r_ctx r1 = r_ctx r" using h(2) by (simp add: run_core_def r0_def)
  with i b show "context_init alloc (Some (r_ctx r)) 32 1 = (True, Some (r_ctx r'))" by simp
  show "holds_history r' (\<lambda>i. [])" using h(1) b(4) by (simp add: holds_history_def store_shape_def stored_def)
  show "r_fds r' = preset (nat n) (r_fds r)" "r_logfds r' = preset (nat n) (r_logfds r)"
    "r_pids r' = preset (nat n) (r_pids r)" "r_n r' = n" "r_dead r' = - 1" "\<not> r_done r'" "r_net r' = net"
    "r_map r' = no_slots" "r_p r' = r_p r"
    using h(2) b(4) by (simp_all add: run_core_def r0_def)
qed

text \<open>What a failure of \<open>setup_init\<close> leaves: the context is freed, or it was never set up.\<close>

lemma setup_init_False:
  assumes "setup_init alloc r net n = (False, r')"
  shows "r_fds r' = preset (nat n) (r_fds r) \<and> shist r' = None \<and> (r_ctx r' = r_ctx r \<or> ctx_freed (r_ctx r'))"
proof -
  define r0 where "r0 = r\<lparr>r_n := n, r_dead := - 1, r_done := False, r_net := net, r_map := no_slots,
    r_fds := preset (nat n) (r_fds r), r_logfds := preset (nat n) (r_logfds r), r_pids := preset (nat n) (r_pids r)\<rparr>"
  obtain b r1 where c: "clear_store alloc r0 = (b, r1)" by fastforce
  have core: "r_fds r1 = preset (nat n) (r_fds r)" "r_ctx r1 = r_ctx r" "\<not> b \<longrightarrow> shist r1 = None"
    using c by (auto simp: clear_store_def r0_def Let_def split: if_splits)
  obtain ok ctx where i: "context_init alloc (Some (r_ctx r)) 32 1 = (ok, Some ctx)" using context_init_live by blast
  show ?thesis
    using assms c core i ctx_freed_init [of alloc "r_ctx r" 32 1 ctx]
    by (cases b; cases ok) (auto simp: setup_init_def r0_def Let_def)
qed

definition undone :: "trace \<Rightarrow> os \<Rightarrow> sim_net \<Rightarrow> int \<Rightarrow> run \<Rightarrow> trace \<Rightarrow> bool" where
  "undone t E net n r' t' \<longleftrightarrow>
     live_fds t' = live_fds t \<and> live_kids t' = live_kids t \<and> (\<forall>k < nat n. r_fds r' ! k < 0) \<and> shist r' = None \<and>
     ctx_freed (r_ctx r') \<and> (\<exists>u. t' = snd (sim_netns_teardown_net E (Some net) n u))"

lemma live_fds_neutral: "adds neutral t u \<Longrightarrow> live_fds u = live_fds t"
  and live_kids_neutral: "adds neutral t u \<Longrightarrow> live_kids u = live_kids t"
  using adds_neutral by blast+

lemma opened_live: "opened F n fds t \<Longrightarrow> live_fds u = live_fds t \<Longrightarrow> opened F n fds u"
  by (simp add: opened_def)

lemma nodes_add_some:
  "\<exists>ok c' m'. sim_nodes_add_net alloc (Some net) (Some c) (Some m) (Some fds) n = (ok, Some c', Some m')"
proof -
  obtain ok c' m' where s: "run_seq (map (node_add alloc net fds) [0..n - 1]) (c, m) = (ok, c', m')"
    using prod_cases3 by blast
  show ?thesis
    by (cases "sim_net_valid (Some net)"; cases "n < 1 \<or> n > int TUN_MAP_MAX \<or> n > 254")
      (simp_all add: sim_nodes_add_net_def s exI [of _ False])
qed

lemma undone_unwind:
  assumes "opened (live_fds t) (nat n) (r_fds r) u" "live_kids u = live_kids t"
    and "setup_unwind E (Some net) n (r, u) = (r', t')"
  shows "undone t E net n r' t'"
  using setup_unwind_live [OF assms(1,3)] assms(2) by (simp add: undone_def)

lemma open_tun_file_kids:
  assumes "open_tun_file E np fdp t = (ok, fdp', t')"
  shows "live_kids t' = live_kids t"
  using assms by (auto simp: open_tun_file_def sys_eq Let_def split: option.splits if_splits)

lemma open_in_ns_kids:
  assumes "open_in_ns E ns ifname fd t = (r, fd', t')"
  shows "live_kids t' = live_kids t"
proof -
  obtain o1 t1 where s1: "sys E (Open_file ''/proc/self/ns/net'') t = (o1, t1)"
    by (cases "sys E (Open_file ''/proc/self/ns/net'') t")
  obtain o2 t2 where s2: "sys E (Open_file ns) t1 = (o2, t2)" by (cases "sys E (Open_file ns) t1")
  obtain a3 t3 where s3: "sys E (Setns o2) t2 = (a3, t3)" by (cases "sys E (Setns o2) t2")
  obtain ok fdp t4 where tun: "open_tun_file E (Some ifname) (Some fd) t3 = (ok, fdp, t4)"
    by (cases "open_tun_file E (Some ifname) (Some fd) t3") auto
  obtain a5 t5 where s5: "sys E (Setns o1) t4 = (a5, t5)" by (cases "sys E (Setns o1) t4")
  have live: "live_kids t2 = live_kids t" "live_kids t3 = live_kids t" "live_kids t5 = live_kids t"
    using live_kids_sys [OF s1] live_kids_sys [OF s2] live_kids_sys [OF s3] live_kids_sys [OF s5]
      open_tun_file_kids [OF tun] by simp_all
  consider "o1 < 0 \<or> o2 < 0" | "0 \<le> o1" "0 \<le> o2" "a3 \<noteq> 0" | "0 \<le> o1" "0 \<le> o2" "a3 = 0" by linarith
  then show ?thesis
  proof cases
    case 1
    then have "t' = (let t = (if o1 \<ge> 0 then call E (Close o1) t2 else t2) in if o2 \<ge> 0 then call E (Close o2) t else t)"
      using assms by (simp add: open_in_ns_def s1 s2 Let_def)
    then show ?thesis using live(1) by (simp add: Let_def)
  next
    case 2
    then have "t' = call E (Close o2) (call E (Close o1) t3)"
      using assms by (simp add: open_in_ns_def s1 s2 s3 Let_def)
    then show ?thesis using live(2) by simp
  next
    case 3
    then show ?thesis using assms live
      by (cases ok; cases fdp) (auto simp: open_in_ns_def s1 s2 s3 tun s5 Let_def split: if_splits)
  qed
qed

lemma tun_open_one_ns_kids: "live_kids (snd (snd (tun_open_one_ns E net i (fds, t)))) = live_kids t"
proof (cases "tun_name_net net NAME_LEN i = None \<or> ns_path_net net PATH_LEN i = None")
  case True
  then show ?thesis by (auto simp: tun_open_one_ns_def split: option.splits)
next
  case False
  then obtain tun path where n: "tun_name_net net NAME_LEN i = Some tun" "ns_path_net net PATH_LEN i = Some path" by auto
  obtain r fd u where o: "open_in_ns E path tun (fds ! nat i) t = (r, fd, u)" by (cases "open_in_ns E path tun (fds ! nat i) t") auto
  with open_in_ns_kids [OF o] n show ?thesis by (simp add: tun_open_one_ns_def Let_def)
qed

lemma tuns_seq_kids: "live_kids (snd (snd (run_seq (map (tun_open_one_ns E net) xs) (fds, t)))) = live_kids t"
proof (induction xs arbitrary: fds t)
  case (Cons x xs)
  obtain ok fds1 t1 where s: "tun_open_one_ns E net x (fds, t) = (ok, fds1, t1)" by (cases "tun_open_one_ns E net x (fds, t)") auto
  with tun_open_one_ns_kids [of E net x fds t] have "live_kids t1 = live_kids t" by simp
  then show ?case using s Cons [of fds1 t1] by (cases ok) simp_all
qed simp

lemma opens_kids:
  "sim_tuns_open_all E np (Some fds) n t = (ok, fdsp, t') \<Longrightarrow> live_kids t' = live_kids t"
  "sim_tuns_open_net E np (Some fds) n t = (ok, fdsp, t') \<Longrightarrow> live_kids t' = live_kids t"
proof -
  show "live_kids t' = live_kids t" if o: "sim_tuns_open_all E np (Some fds) n t = (ok, fdsp, t')"
  proof (cases "sim_net_valid np \<and> \<not> (n < 1 \<or> n > int TUN_MAP_MAX)")
    case True
    then obtain net where np: "np = Some net" by (auto simp: sim_net_valid_def split: option.splits)
    obtain b fds' w where s: "run_seq (map (tun_open_one_ns E net) [0..n - 1]) (preset (nat n) fds, t) = (b, fds', w)"
      by (cases "run_seq (map (tun_open_one_ns E net) [0..n - 1]) (preset (nat n) fds, t)") auto
    with tuns_seq_kids [of E net "[0..n - 1]" "preset (nat n) fds" t] o True np show ?thesis
      by (simp add: sim_tuns_open_all_def Let_def)
  next
    case False
    with o show ?thesis by (auto simp: sim_tuns_open_all_def split: option.splits if_splits)
  qed
  assume o: "sim_tuns_open_net E np (Some fds) n t = (ok, fdsp, t')"
  show "live_kids t' = live_kids t"
  proof (cases "sim_net_valid np \<and> \<not> (n < 1 \<or> n > int TUN_MAP_MAX)")
    case True
    then obtain net where np: "np = Some net" by (auto simp: sim_net_valid_def split: option.splits)
    show ?thesis
    proof (cases "tun_name_net net NAME_LEN 0")
      case None
      then show ?thesis using o np True by (simp add: sim_tuns_open_net_def Let_def)
    next
      case (Some tun)
      let ?fds = "preset (nat n) fds"
      obtain k p u where f: "open_tun_file E (Some tun) (Some (?fds ! 0)) t = (k, p, u)"
        by (cases "open_tun_file E (Some tun) (Some (?fds ! 0)) t") auto
      from open_tun_file_kids [OF this] have u: "live_kids u = live_kids t" .
      show ?thesis
      proof (cases "k \<and> p \<noteq> None")
        case True
        then obtain v where k: "k = True" "p = Some v" by auto
        obtain b fds' w where s: "run_seq (map (tun_open_one_ns E net) [1..n - 1]) (?fds[0 := v], cloexec_fd E v u) = (b, fds', w)"
          by (cases "run_seq (map (tun_open_one_ns E net) [1..n - 1]) (?fds[0 := v], cloexec_fd E v u)") auto
        with tuns_seq_kids [of E net "[1..n - 1]" "?fds[0 := v]" "cloexec_fd E v u"] u
        have "live_kids w = live_kids t" by simp
        with o np \<open>sim_net_valid np \<and> _\<close> Some f k s show ?thesis by (simp add: sim_tuns_open_net_def Let_def)
      next
        case False
        with o np \<open>sim_net_valid np \<and> _\<close> Some f u show ?thesis
          by (auto simp: sim_tuns_open_net_def Let_def split: bool.splits option.splits)
      qed
    qed
  next
    case False
    with o show ?thesis by (auto simp: sim_tuns_open_net_def split: option.splits if_splits)
  qed
qed
section \<open>Owning children and descriptors\<close>

text \<open>
  The process has the descriptors \<open>F\<close> and the children \<open>K\<close> besides those of the run; the slots of
  the run hold different descriptors, and different children of which none is reaped; the dead
  slot holds no child and no log pipe.
\<close>

definition kid_slots :: "run \<Rightarrow> nat set" where
  "kid_slots r = {k. k < nat (r_n r) \<and> r_pids r ! k > 0}"

definition owns_kids :: "int set \<Rightarrow> run \<Rightarrow> trace \<Rightarrow> bool" where
  "owns_kids K r t \<longleftrightarrow>
     nat (r_n r) \<le> length (r_pids r) \<and> (0 \<le> r_dead r \<and> r_dead r < r_n r \<longrightarrow> r_pids r ! nat (r_dead r) \<le> 0) \<and>
     inj_on (\<lambda>k. r_pids r ! k) (kid_slots r) \<and>
     live_kids t = K \<union> (\<lambda>k. r_pids r ! k) ` kid_slots r \<and> (\<lambda>k. r_pids r ! k) ` kid_slots r \<inter> K = {}"

definition owns_fds :: "int set \<Rightarrow> run \<Rightarrow> trace \<Rightarrow> bool" where
  "owns_fds F r t \<longleftrightarrow>
     opened (F \<union> held_fds (nat (r_n r)) (r_logfds r)) (nat (r_n r)) (r_fds r) t \<and>
     opened (F \<union> held_fds (nat (r_n r)) (r_fds r)) (nat (r_n r)) (r_logfds r) t \<and>
     (0 \<le> r_dead r \<and> r_dead r < r_n r \<longrightarrow> r_logfds r ! nat (r_dead r) < 0)"

definition owns :: "int set \<Rightarrow> int set \<Rightarrow> run \<Rightarrow> trace \<Rightarrow> bool" where
  "owns F K r t \<longleftrightarrow> owns_fds F r t \<and> owns_kids K r t \<and> 1 \<le> r_n r \<and> r_n r \<le> int TUN_MAP_MAX"

lemma owns_core: "run_core r' = run_core r \<Longrightarrow> owns F K r' t = owns F K r t"
  by (simp add: owns_def owns_fds_def owns_kids_def kid_slots_def run_core_def)

lemma owns_live:
  "live_fds u = live_fds t \<Longrightarrow> live_kids u = live_kids t \<Longrightarrow> owns F K r u = owns F K r t"
  by (simp add: owns_def owns_fds_def owns_kids_def opened_def)

lemma owns_fds_live: "live_fds u = live_fds t \<Longrightarrow> owns_fds F r u = owns_fds F r t"
  by (simp add: owns_fds_def opened_def)

lemma owns_fds_pids [simp]: "owns_fds F (r\<lparr>r_pids := a\<rparr>) t = owns_fds F r t"
  by (simp add: owns_fds_def)

lemma setup_poll_simps [simp]:
  "r_fds (setup_poll r) = r_fds r" "r_logfds (setup_poll r) = r_logfds r" "r_pids (setup_poll r) = r_pids r"
  "r_n (setup_poll r) = r_n r" "r_dead (setup_poll r) = r_dead r" "r_map (setup_poll r) = r_map r"
  "r_ctx (setup_poll r) = r_ctx r" "r_net (setup_poll r) = r_net r" "r_done (setup_poll r) = r_done r"
  "holds_history (setup_poll r) H = holds_history r H"
  by (simp_all add: setup_poll_def Let_def holds_history_def store_shape_def stored_def)

lemma holds_history_other [simp]:
  "holds_history (r\<lparr>r_fds := a, r_ctx := c, r_map := m\<rparr>) H = holds_history r H"
  by (simp add: holds_history_def store_shape_def stored_def)

lemma preset_facts:
  assumes "n \<le> length xs"
  shows "held_fds n (preset n xs) = {}" "\<forall>k < n. preset n xs ! k = -1"
  using assms by (auto simp: held_fds_def preset_def nth_append)

lemma fresh_owns:
  assumes "opened (live_fds t) (nat (r_n r)) (r_fds r) u" "live_kids u = live_kids t" "1 \<le> r_n r" "r_n r \<le> int TUN_MAP_MAX"
    and "nat (r_n r) \<le> length ps" "nat (r_n r) \<le> length ls" "r_logfds r = preset (nat (r_n r)) ls" "r_pids r = preset (nat (r_n r)) ps"
  shows "owns (live_fds t) (live_kids t) r u"
proof -
  have p: "\<forall>k < nat (r_n r). r_pids r ! k = - 1" using preset_facts(2) [OF assms(5)] by (simp add: assms(8))
  then have k: "kid_slots r = {}" by (auto simp: kid_slots_def)
  have l: "held_fds (nat (r_n r)) (r_logfds r) = {}" "\<forall>k < nat (r_n r). r_logfds r ! k = -1"
    using preset_facts [OF assms(6)] by (simp_all add: assms(7))
  have len: "nat (r_n r) \<le> length (r_logfds r)" "nat (r_n r) \<le> length (r_pids r)"
    using assms(5-8) by (simp_all add: length_preset)
  have "owns_fds (live_fds t) r u" using assms(1) l len by (auto simp: owns_fds_def opened_def)
  moreover have "owns_kids (live_kids t) r u" using k len p assms(2) by (simp add: owns_kids_def)
  ultimately show ?thesis using assms(3,4) by (simp add: owns_def)
qed

text \<open>The arrays of a run are as long as its type says.\<close>

definition run_arrays :: "run \<Rightarrow> bool" where
  "run_arrays r \<longleftrightarrow> length (r_fds r) = TUN_MAP_MAX \<and> length (r_logfds r) = TUN_MAP_MAX \<and>
     length (r_pids r) = TUN_MAP_MAX \<and> length (r_p r) = 2 * TUN_MAP_MAX"

lemma setup_unwind_quiet:
  assumes "\<not> sim_net_valid (Some net)" "\<forall>k < nat n. r_fds r ! k < 0" "setup_unwind E (Some net) n (r, t) = (r', t')"
  shows "t' = t"
proof -
  have "fold (close_tun E) xs (r, t) = (r, t)" if "\<forall>x \<in> set xs. x < nat n" for xs
    using that assms(2) by (induction xs) (auto simp: close_tun_def close_slot_def)
  moreover have "host_down_net E (Some net) u = u" "snd (sim_netns_teardown_net E (Some net) n u) = u" for u
    using assms(1) by (auto simp: host_down_net_def sim_netns_teardown_net_def)
  ultimately show ?thesis using assms(3) by (simp add: setup_unwind_def Let_def)
qed

section \<open>Setting up, whichever calls are used\<close>

text \<open>
  What both setups rely on: the namespace and address operations touch neither descriptors nor
  children, and do nothing at all for an invalid net; the array that the opening operation
  leaves holds every descriptor it has opened, all different, and starts no child.
\<close>

locale setup_calls =
  fixes netns :: "os \<Rightarrow> sim_net ptr \<Rightarrow> int \<Rightarrow> trace \<Rightarrow> bool \<times> trace"
    and opens :: "os \<Rightarrow> sim_net ptr \<Rightarrow> int list ptr \<Rightarrow> int \<Rightarrow> trace \<Rightarrow> bool \<times> int list ptr \<times> trace"
    and addrs :: "os \<Rightarrow> sim_net ptr \<Rightarrow> int \<Rightarrow> trace \<Rightarrow> bool \<times> trace"
  assumes netns_neutral: "adds neutral t (snd (netns E np n t))"
    and addrs_neutral: "adds neutral t (snd (addrs E np n t))"
    and netns_invalid: "\<not> sim_net_valid np \<Longrightarrow> netns E np n t = (False, t)"
    and opens_fds: "kernel E \<Longrightarrow> nat n \<le> length fds \<Longrightarrow> opens E (Some net) (Some fds) n t = (ok, fdsp', t') \<Longrightarrow>
      (if sim_net_valid (Some net) \<and> 1 \<le> n \<and> n \<le> int TUN_MAP_MAX
       then \<exists>fds'. fdsp' = Some fds' \<and> opened (live_fds t) (nat n) fds' t' \<and> length fds' = length fds \<and>
              (ok \<longrightarrow> (\<forall>k < nat n. fds' ! k \<ge> 0))
       else \<not> ok \<and> fdsp' = Some fds \<and> t' = t)"
    and opens_kids: "opens E np (Some fds) n t = (ok, fdsp', t') \<Longrightarrow> live_kids t' = live_kids t"
begin

definition steps where
  "steps E alloc r net n t =
     setup_steps E alloc r net n (netns E (Some net) n) (\<lambda>fds. opens E (Some net) fds n) (addrs E (Some net) n) t"

lemma setup_steps_cases:
  assumes "nat n \<le> length (r_fds r)" "kernel E" and res: "steps E alloc r net n t = (v, Some r', t')"
  obtains (init) "v = RUN_FAIL" "t' = t" "setup_init alloc r net n = (False, r')"
    | (undo) "v \<noteq> RUN_OK" "undone t E net n r' t'"
    | (ok) r0 t1 t2 fds c m where "v = RUN_OK" "setup_init alloc r net n = (True, r0)" "netns E (Some net) n t = (True, t1)"
      "opens E (Some net) (Some (r_fds r0)) n t1 = (True, Some fds, t2)" "length fds = length (r_fds r)"
      "opened (live_fds t) (nat n) fds t2" "\<forall>k < nat n. fds ! k \<ge> 0"
      "sim_nodes_add_net alloc (Some net) (Some (r_ctx r0)) (Some (r_map r0)) (Some fds) n = (True, Some c, Some m)"
      "addrs E (Some net) n t2 = (True, t')" "r' = setup_poll (r0\<lparr>r_fds := fds, r_ctx := c, r_map := m\<rparr>)"
      "live_fds t' = live_fds t2" "live_kids t' = live_kids t" "sim_net_valid (Some net)" "1 \<le> n" "n \<le> int TUN_MAP_MAX"
proof -
  obtain b r0 where i: "setup_init alloc r net n = (b, r0)" by fastforce
  obtain b1 t1 where n1: "netns E (Some net) n t = (b1, t1)" by fastforce
  obtain okt fdsp t2 where o: "opens E (Some net) (Some (r_fds r0)) n t1 = (okt, fdsp, t2)"
    by (cases "opens E (Some net) (Some (r_fds r0)) n t1") auto
  show thesis
  proof (cases b)
    case False
    with i res init show ?thesis by (simp add: steps_def setup_steps_def)
  next
    case b: True
    note r0 = setup_init_True(1) [OF i [unfolded b eqTrueI [OF b]]]
    have t1: "live_fds t1 = live_fds t" "live_kids t1 = live_kids t" using adds_neutral [OF netns_neutral [of t E "Some net" n]] n1 by simp_all
    have pre: "opened (live_fds t) (nat n) (r_fds r0) t1" using opened_preset [OF assms(1), of t1] t1 r0 by simp
    have len: "nat n \<le> length (r_fds r0)" "length (r_fds r0) = length (r_fds r)" using assms(1) r0 by (simp_all add: length_preset)
    show ?thesis
    proof (cases b1)
      case False
      with res i b n1 have "v = RUN_FAIL" "setup_unwind E (Some net) n (r0, t1) = (r', t')"
        by (simp_all add: steps_def setup_steps_def split: prod.splits)
      with undone_unwind [OF pre t1(2)] undo show ?thesis by simp
    next
      case b1: True
      have t2: "live_kids t2 = live_kids t" using opens_kids [OF o] t1 by simp
      note op = opens_fds [OF assms(2) len(1) o]
      obtain fds where fds: "fdsp = Some fds" "opened (live_fds t) (nat n) fds t2" "length fds = length (r_fds r)"
        "okt \<Longrightarrow> (\<forall>k < nat n. fds ! k \<ge> 0) \<and> sim_net_valid (Some net) \<and> 1 \<le> n \<and> n \<le> int TUN_MAP_MAX"
      proof (cases "sim_net_valid (Some net) \<and> 1 \<le> n \<and> n \<le> int TUN_MAP_MAX")
        case True
        with op t1 len that show ?thesis by auto
      next
        case False
        with op have "\<not> okt \<and> fdsp = Some (r_fds r0) \<and> t2 = t1" by (simp only: if_False simp_thms)
        with that pre len show ?thesis by simp
      qed
      show ?thesis
      proof (cases okt)
        case False
        with res i b n1 b1 o fds(1) have "v = RUN_SKIP" "setup_unwind E (Some net) n (r0\<lparr>r_fds := fds\<rparr>, t2) = (r', t')"
          by (simp_all add: steps_def setup_steps_def split: prod.splits)
        with undone_unwind [of t n "r0\<lparr>r_fds := fds\<rparr>" t2] fds(2) t2 undo show ?thesis by simp
      next
        case okt: True
        obtain ok2 c m where a: "sim_nodes_add_net alloc (Some net) (Some (r_ctx r0)) (Some (r_map r0)) (Some fds) n =
            (ok2, Some c, Some m)"
          using nodes_add_some by blast
        let ?r = "r0\<lparr>r_fds := fds, r_ctx := c, r_map := m\<rparr>"
        obtain b3 t3 where ad: "addrs E (Some net) n t2 = (b3, t3)" by fastforce
        have t3: "live_fds t3 = live_fds t2" "live_kids t3 = live_kids t" using adds_neutral [OF addrs_neutral [of t2 E "Some net" n]] ad t2 by simp_all
        note run = res i b n1 b1 o fds(1) okt a ad
        show ?thesis
        proof (cases ok2)
          case False
          with run have "v = RUN_FAIL" "setup_unwind E (Some net) n (?r, t2) = (r', t')"
            by (simp_all add: steps_def setup_steps_def split: prod.splits)
          with undone_unwind [of t n ?r t2] fds(2) t2 undo show ?thesis by simp
        next
          case ok2: True
          show ?thesis
          proof (cases b3)
            case False
            with run ok2 have "v = RUN_FAIL" "setup_unwind E (Some net) n (?r, t3) = (r', t')"
              by (simp_all add: steps_def setup_steps_def split: prod.splits)
            with undone_unwind [of t n ?r t3] opened_live [OF fds(2) t3(1)] t3 undo show ?thesis by simp
          next
            case True
            with run ok2 have "v = RUN_OK" "t' = t3" "r' = setup_poll ?r" by (simp_all add: steps_def setup_steps_def)
            with ok [of r0 t1 fds t2 c m] run True ok2 fds t3 show ?thesis by simp
          qed
        qed
      qed
    qed
  qed
qed

lemma clean:
  assumes "kernel E" "nat n \<le> length (r_fds r)" "steps E alloc r net n t = (v, Some r', t')" "v \<noteq> RUN_OK"
  shows "live_fds t' = live_fds t \<and> live_kids t' = live_kids t \<and> (\<not> sim_net_valid (Some net) \<longrightarrow> t' = t) \<and>
    (\<forall>k < nat n. r_fds r' ! k < 0) \<and> shist r' = None \<and> (r_ctx r' = r_ctx r \<or> ctx_freed (r_ctx r')) \<and>
    (t' = t \<or> ctx_freed (r_ctx r') \<and> (\<exists>u. t' = snd (sim_netns_teardown_net E (Some net) n u)))"
proof -
  have "t' = t" if bad: "\<not> sim_net_valid (Some net)"
  proof (cases "setup_init alloc r net n")
    case (Pair b r0)
    show ?thesis
    proof (cases b)
      case True
      with Pair have i: "setup_init alloc r net n = (True, r0)" by simp
      have "setup_unwind E (Some net) n (r0, t) = (r', t')"
        using assms(3) i netns_invalid [OF bad] by (simp add: steps_def setup_steps_def split: prod.splits)
      moreover have "\<forall>k < nat n. r_fds r0 ! k < 0"
        using preset_facts(2) [OF assms(2)] by (simp add: setup_init_True(1) [OF i])
      ultimately show ?thesis using setup_unwind_quiet [OF bad] by blast
    qed (use Pair assms(3) in \<open>simp add: steps_def setup_steps_def\<close>)
  qed
  then show ?thesis
  proof (cases rule: setup_steps_cases [OF assms(2,1,3)])
    case 1
    with setup_init_False [OF 1(3)] preset_facts(2) [OF assms(2)] show ?thesis by simp
  qed (use assms(4) in \<open>auto simp: undone_def\<close>)
qed

lemma ready:
  assumes "kernel E" "run_arrays r" "steps E alloc r net n t = (RUN_OK, Some r', t')" "n \<le> int TUN_MAP_MAX"
  shows "owns (live_fds t) (live_kids t) r' t' \<and> holds_history r' (\<lambda>i. []) \<and> r_n r' = n \<and> r_dead r' = - 1 \<and>
    \<not> r_done r' \<and> r_net r' = net \<and> sim_net_valid (Some net) \<and>
    slots (r_map r') = map (run_slot 0 net (r_fds r')) [0..n - 1] \<and> nodes (node_tab (r_ctx r')) = map (run_node 0) [0..n - 1] \<and>
    (\<forall>k < nat n. r_fds r' ! k \<ge> 0 \<and> r_logfds r' ! k = - 1 \<and> r_pids r' ! k = - 1 \<and>
       p_fd (r_p r' ! k) = r_fds r' ! k \<and> p_fd (r_p r' ! (nat n + k)) = - 1)"
proof -
  have len: "nat n \<le> length (r_fds r)" using assms(2,4) by (simp add: run_arrays_def)
  from setup_steps_cases [OF len assms(1,3)]
  obtain r0 t1 t2 fds c m where s: "setup_init alloc r net n = (True, r0)"
    "opened (live_fds t) (nat n) fds t2" "\<forall>k < nat n. fds ! k \<ge> 0"
    "sim_nodes_add_net alloc (Some net) (Some (r_ctx r0)) (Some (r_map r0)) (Some fds) n = (True, Some c, Some m)"
    "r' = setup_poll (r0\<lparr>r_fds := fds, r_ctx := c, r_map := m\<rparr>)"
    "live_fds t' = live_fds t2" "live_kids t' = live_kids t" "sim_net_valid (Some net)" "1 \<le> n"
    by (metis run_result.distinct(1,3))
  note r0 = setup_init_True [OF s(1)]
  have world: "nodes (node_tab (r_ctx r0)) = [] \<and> next_node_id (r_ctx r0) = 0 \<and> nodes_inv (r_ctx r0)"
    using context_init_world [OF r0(11)] by (simp add: SIZE_MAX_def sizeof_Event_def)
  have "run_seq (map (node_add alloc net fds) [0..n - 1]) (r_ctx r0, no_slots) = (True, c, m)"
    using s(4,8,9) r0(8) by (auto simp: sim_nodes_add_net_def split: prod.splits if_splits)
  from nodes_added [OF this] world s(9) assms(4)
  have nodes: "nodes (node_tab c) = map (run_node 0) [0..n - 1]" "slots m = map (run_slot 0 net fds) [0..n - 1]"
    by (simp_all add: no_slots_def TUN_MAP_MAX_def)
  have arrays: "nat n \<le> length (r_pids r)" "nat n \<le> length (r_logfds r)" "2 * nat n \<le> length (r_p r)"
    using assms(2,4) by (simp_all add: run_arrays_def)
  have "owns (live_fds t) (live_kids t) r' t'"
    using s(9) assms(4) arrays r0 s(7) opened_live [OF s(2,6)]
    by (intro fresh_owns [of t r' t' "r_pids r" "r_logfds r"]) (simp_all add: s(5))
  moreover have "p_fd (r_p r' ! k) = fds ! k" "p_fd (r_p r' ! (nat n + k)) = - 1" if "k < nat n" for k
    using that by (simp_all add: s(5) setup_poll_def Let_def nth_append r0(4))
  moreover have "\<forall>k < nat n. preset (nat n) (r_logfds r) ! k = -1 \<and> preset (nat n) (r_pids r) ! k = -1"
    using preset_facts(2) arrays by blast
  moreover have "holds_history r' (\<lambda>i. [])" using r0(10) by (simp add: s(5))
  ultimately show ?thesis using nodes s(3,8) r0 by (simp add: s(5))
qed

end

lemma netns_setup_invalid:
  "\<not> sim_net_valid np \<Longrightarrow> sim_netns_setup_net E np n t = (False, t)"
  "\<not> sim_net_valid np \<Longrightarrow> sim_netns_setup_all E np n t = (False, t)"
  by (auto simp: sim_netns_setup_net_def sim_netns_setup_all_def split: option.split)

interpretation host_calls: setup_calls sim_netns_setup_net sim_tuns_open_net sim_addrs_up_net
  by unfold_locales (rule host_ops_neutral | erule (2) sim_tuns_open_net_fds | erule netns_setup_invalid | erule opens_kids)+

interpretation all_calls: setup_calls sim_netns_setup_all sim_tuns_open_all sim_addrs_up_all
  by unfold_locales (rule host_ops_neutral | erule (2) sim_tuns_open_all_fds | erule netns_setup_invalid | erule opens_kids)+


lemmas both_clean = host_calls.clean all_calls.clean
lemmas both_ready = host_calls.ready all_calls.ready

section \<open>Tearing down\<close>

lemma held_subset: "n \<le> length fds \<Longrightarrow> k < n \<Longrightarrow> held_fds n (fds[k := -1]) \<subseteq> held_fds n fds"
  by (auto simp: held_fds_iff nth_list_update split: if_splits)

lemma opened_smaller:
  assumes "opened (F \<union> B) n fds t" "B' \<subseteq> B" "live_fds t' = F \<union> B' \<union> held_fds n fds"
  shows "opened (F \<union> B') n fds t'"
  using assms by (auto simp: opened_def)

text \<open>Closing one entry of either array.\<close>

lemma close_slot_both:
  assumes "opened (F \<union> held_fds n ys) n xs t" "opened (F \<union> held_fds n xs) n ys t" "k < n"
    and "close_slot E k xs t = (xs', t')"
  shows "opened (F \<union> held_fds n ys) n xs' t' \<and> opened (F \<union> held_fds n xs') n ys t' \<and> xs' ! k < 0 \<and>
    (\<forall>j. xs ! j < 0 \<longrightarrow> xs' ! j < 0) \<and> live_kids t' = live_kids t \<and> length xs' = length xs"
proof (cases "xs ! k \<ge> 0")
  case True
  then have r: "xs' = xs[k := -1]" "t' = call E (Close (xs ! k)) t" using assms(4) by (simp_all add: close_slot_def)
  have len: "n \<le> length xs" using assms(1) by (simp add: opened_def)
  have o: "opened (F \<union> held_fds n ys) n xs' t'" using opened_close [OF assms(1,3) True] r by simp
  then have "live_fds t' = F \<union> held_fds n xs' \<union> held_fds n ys" by (auto simp: opened_def)
  then have "opened (F \<union> held_fds n xs') n ys t'"
    using opened_smaller [OF assms(2)] held_subset [OF len assms(3)] r(1) by blast
  with o r len assms(3) show ?thesis by (auto simp: nth_list_update)
next
  case False
  then show ?thesis using assms by (simp add: close_slot_def)
qed

lemma run_fields [simp]:
  "kid_slots (r\<lparr>r_fds := x\<rparr>) = kid_slots r" "kid_slots (r\<lparr>r_logfds := y\<rparr>) = kid_slots r"
  by (simp_all add: kid_slots_def)

lemma kid_slots_clear:
  assumes "owns_kids K r t" "i < nat (r_n r)"
  shows "kid_slots (r\<lparr>r_pids := (r_pids r)[i := - 1]\<rparr>) = kid_slots r - {i}"
  using assms by (auto simp: kid_slots_def owns_kids_def nth_list_update split: if_splits)

lemma owns_kids_reaped:
  assumes "owns_kids K r t" "i \<in> kid_slots r" "live_kids t' = live_kids t - {r_pids r ! i}"
  shows "owns_kids K (r\<lparr>r_pids := (r_pids r)[i := - 1]\<rparr>) t'"
proof -
  let ?r = "r\<lparr>r_pids := (r_pids r)[i := - 1]\<rparr>"
  have i: "i < nat (r_n r)" "i < length (r_pids r)" using assms(1,2) by (auto simp: kid_slots_def owns_kids_def)
  note slots = kid_slots_clear [OF assms(1) i(1)]
  let ?q = "(r_pids r)[i := - 1]"
  have same: "?q ! k = r_pids r ! k" if "k \<in> kid_slots ?r" for k
    using that slots i(2) by (auto simp: nth_list_update)
  have img: "(!) ?q ` kid_slots ?r = (!) (r_pids r) ` kid_slots r - {r_pids r ! i}"
    using same slots assms(1,2) by (auto simp: owns_kids_def inj_on_def)
  have "inj_on ((!) ?q) (kid_slots ?r)"
    using same slots assms(1) by (auto simp: owns_kids_def inj_on_def)
  moreover have "r_pids r ! i \<notin> K" using assms(1,2) by (auto simp: owns_kids_def)
  then have "live_kids t' = K \<union> (!) ?q ` kid_slots ?r" using assms(1,3) by (simp add: img owns_kids_def Un_Diff)
  moreover have "(!) ?q ` kid_slots ?r \<inter> K = {}" using assms(1) by (auto simp: img owns_kids_def)
  moreover have "0 \<le> r_dead r \<and> r_dead r < r_n r \<longrightarrow> ?q ! nat (r_dead r) \<le> 0"
    using assms(1) i(2) by (auto simp: owns_kids_def nth_list_update)
  moreover have "nat (r_n r) \<le> length (r_pids r)" using assms(1) by (simp add: owns_kids_def)
  ultimately show ?thesis by (simp add: owns_kids_def)
qed

text \<open>What a slot is left with, and what the others keep.\<close>

lemma stop_slot_owns:
  assumes "owns F K r t" "i < nat (r_n r)" "stop_slot E i (r, t) = Some (r', t')" "waits E"
  shows "owns F K r' t' \<and> r_fds r' ! i < 0 \<and> r_logfds r' ! i < 0 \<and> i \<notin> kid_slots r' \<and>
    (\<forall>j. r_fds r ! j < 0 \<longrightarrow> r_fds r' ! j < 0) \<and> (\<forall>j. r_logfds r ! j < 0 \<longrightarrow> r_logfds r' ! j < 0) \<and>
    kid_slots r' \<subseteq> kid_slots r \<and> (\<exists>a b c. r' = r\<lparr>r_pids := a, r_fds := b, r_logfds := c\<rparr>)"
proof -
  let ?n = "nat (r_n r)"
  have fds: "opened (F \<union> held_fds ?n (r_logfds r)) ?n (r_fds r) t" "opened (F \<union> held_fds ?n (r_fds r)) ?n (r_logfds r) t"
    using assms(1) by (simp_all add: owns_def owns_fds_def)
  show ?thesis
  proof (cases "int i = r_dead r")
    case True
    obtain xs u where c: "close_slot E i (r_fds r) t = (xs, u)" by fastforce
    with assms(3) True have r: "r' = r\<lparr>r_fds := xs\<rparr>" "t' = u" by (simp_all add: stop_slot_def close_tun_def)
    have dead: "nat (r_dead r) = i" "r' = r\<lparr>r_pids := r_pids r, r_fds := xs, r_logfds := r_logfds r\<rparr>" using True r by simp_all
    then have ex: "\<exists>a b c. r' = r\<lparr>r_pids := a, r_fds := b, r_logfds := c\<rparr>" by blast
    have "owns F K r' t' \<and> r_fds r' ! i < 0 \<and> r_logfds r' ! i < 0 \<and> i \<notin> kid_slots r' \<and>
        (\<forall>j. r_fds r ! j < 0 \<longrightarrow> r_fds r' ! j < 0) \<and> r_logfds r' = r_logfds r \<and> kid_slots r' = kid_slots r"
      using close_slot_both [OF fds assms(2) c] assms(1,2) True r dead(1)
      by (auto simp: owns_def owns_fds_def owns_kids_def kid_slots_def)
    with ex show ?thesis by (elim conjE) (intro conjI; simp)
  next
    case False
    let ?pid = "r_pids r ! i"
    obtain r1 t1 where s1: "(if ?pid > 0 then map_option (\<lambda>t. (r\<lparr>r_pids := (r_pids r)[i := - 1]\<rparr>, t)) (teardown_wait E ?pid t)
        else Some (r, t)) = Some (r1, t1)"
      using assms(3) False by (auto simp: stop_slot_def split: if_splits option.splits)
    have kids: "owns_kids K r1 t1" "live_fds t1 = live_fds t" "i \<notin> kid_slots r1" "kid_slots r1 \<subseteq> kid_slots r"
      "\<exists>a. r1 = r\<lparr>r_pids := a\<rparr>"
    proof -
      have own: "owns_kids K r t" using assms(1) by (simp add: owns_def)
      have "owns_kids K r1 t1 \<and> live_fds t1 = live_fds t \<and> i \<notin> kid_slots r1 \<and> kid_slots r1 \<subseteq> kid_slots r \<and> (\<exists>a. r1 = r\<lparr>r_pids := a\<rparr>)"
      proof (cases "?pid > 0")
        case True
        then obtain w: "teardown_wait E ?pid t = Some t1" "r1 = r\<lparr>r_pids := (r_pids r)[i := - 1]\<rparr>"
          using s1 by auto
        have live: "live_kids t1 = live_kids t - {?pid}" "live_fds t1 = live_fds t"
          using stop_child_reaps [OF w(1) [unfolded teardown_wait_def] assms(4) True] by simp_all
        have i: "i \<in> kid_slots r" using True assms(2) by (simp add: kid_slots_def)
        note slots = kid_slots_clear [OF own assms(2)]
        have "owns_kids K r1 t1" using owns_kids_reaped [OF own i live(1)] w(2) by simp
        then show ?thesis using live(2) slots w(2) by auto
      next
        case False
        then show ?thesis using s1 own by (auto simp: kid_slots_def intro: exI [of _ "r_pids r"])
      qed
      then show "owns_kids K r1 t1" "live_fds t1 = live_fds t" "i \<notin> kid_slots r1" "kid_slots r1 \<subseteq> kid_slots r"
        "\<exists>a. r1 = r\<lparr>r_pids := a\<rparr>" by simp_all
    qed
    obtain a where r1: "r1 = r\<lparr>r_pids := a\<rparr>" using kids(5) by blast
    obtain xs u where c1: "close_slot E i (r_fds r1) t1 = (xs, u)" by fastforce
    obtain ys v where c2: "close_slot E i (r_logfds r1) u = (ys, v)" by fastforce
    have r': "r' = r1\<lparr>r_fds := xs, r_logfds := ys\<rparr>" "t' = v"
      using assms(3) False s1 c1 c2 by (simp_all add: stop_slot_def close_tun_def)
    have f1: "opened (F \<union> held_fds ?n (r_logfds r)) ?n (r_fds r) t1" "opened (F \<union> held_fds ?n (r_fds r)) ?n (r_logfds r) t1"
      using fds opened_live kids(2) by blast+
    note b1 = close_slot_both [OF f1 assms(2) c1 [unfolded r1, simplified]]
    note b2 = close_slot_both [of F ?n xs "r_logfds r" u i E ys v]
    have slots: "kid_slots r' = kid_slots r1" "kid_slots r1 \<subseteq> kid_slots r" "i \<notin> kid_slots r1" using r' kids(3,4) by simp_all
    have "r' = r\<lparr>r_pids := a, r_fds := xs, r_logfds := ys\<rparr>" using r' r1 by simp
    then have ex: "\<exists>a b c. r' = r\<lparr>r_pids := a, r_fds := b, r_logfds := c\<rparr>" by blast
    have c2': "close_slot E i (r_logfds r) u = (ys, v)" using c2 r1 by simp
    note b2 = b2 [OF _ _ assms(2) c2']
    have o: "opened (F \<union> held_fds ?n ys) ?n xs v" "opened (F \<union> held_fds ?n xs) ?n ys v" "live_kids v = live_kids t1"
      "xs ! i < 0" "ys ! i < 0" "\<forall>j. r_fds r ! j < 0 \<longrightarrow> xs ! j < 0" "\<forall>j. r_logfds r ! j < 0 \<longrightarrow> ys ! j < 0"
      using b1 b2 by simp_all
    have "owns F K r' t'"
      using assms(1) kids(1) o(1-3,7) r' r1 slots(1) by (auto simp: owns_def owns_fds_def owns_kids_def)
    with ex slots o r' show ?thesis by simp
  qed
qed

lemma stop_slots_owns:
  assumes "owns F K r t" "\<forall>i \<in> set xs. i < nat (r_n r)" "stop_slots E xs (r, t) = Some (r', t')" "waits E"
  shows "owns F K r' t' \<and> (\<forall>i \<in> set xs. r_fds r' ! i < 0 \<and> r_logfds r' ! i < 0 \<and> i \<notin> kid_slots r') \<and>
    (\<forall>j. r_fds r ! j < 0 \<longrightarrow> r_fds r' ! j < 0) \<and> (\<forall>j. r_logfds r ! j < 0 \<longrightarrow> r_logfds r' ! j < 0) \<and>
    kid_slots r' \<subseteq> kid_slots r \<and> (\<exists>a b c. r' = r\<lparr>r_pids := a, r_fds := b, r_logfds := c\<rparr>)"
  using assms
proof (induction xs arbitrary: r t)
  case Nil
  then have "r' = r\<lparr>r_pids := r_pids r, r_fds := r_fds r, r_logfds := r_logfds r\<rparr>" by simp
  then have "\<exists>a b c. r' = r\<lparr>r_pids := a, r_fds := b, r_logfds := c\<rparr>" by blast
  with Nil show ?case by simp
next
  case (Cons x xs)
  obtain r1 t1 where s: "stop_slot E x (r, t) = Some (r1, t1)" "stop_slots E xs (r1, t1) = Some (r', t')"
    using Cons.prems(3) by (auto split: option.splits)
  have one: "owns F K r1 t1" "r_fds r1 ! x < 0" "r_logfds r1 ! x < 0" "x \<notin> kid_slots r1"
    "\<And>j. r_fds r ! j < 0 \<Longrightarrow> r_fds r1 ! j < 0" "\<And>j. r_logfds r ! j < 0 \<Longrightarrow> r_logfds r1 ! j < 0"
    "kid_slots r1 \<subseteq> kid_slots r" "\<exists>a b c. r1 = r\<lparr>r_pids := a, r_fds := b, r_logfds := c\<rparr>"
    using stop_slot_owns [OF Cons.prems(1) _ s(1) Cons.prems(4)] Cons.prems(2) by auto
  have "r_n r1 = r_n r" using one(8) by auto
  then have xs: "\<forall>i \<in> set xs. i < nat (r_n r1)" using Cons.prems(2) by simp
  note IH = Cons.IH [OF one(1) xs s(2) Cons.prems(4)]
  have ex: "\<exists>a b c. r' = r\<lparr>r_pids := a, r_fds := b, r_logfds := c\<rparr>"
  proof -
    obtain a b c where r1: "r1 = r\<lparr>r_pids := a, r_fds := b, r_logfds := c\<rparr>" using one(8) by blast
    obtain a' b' c' where r2: "r' = r1\<lparr>r_pids := a', r_fds := b', r_logfds := c'\<rparr>" using IH by blast
    have "r' = r\<lparr>r_pids := a', r_fds := b', r_logfds := c'\<rparr>" by (simp add: r1 r2)
    then show ?thesis by blast
  qed
  from IH one ex show ?case by (elim conjE) (intro conjI; auto)
qed

lemma stop_slots_returns:
  assumes "quiet_after N E" "clock_runs E"
  shows "\<exists>s. stop_slots E xs (r, t) = Some s"
proof (induction xs arbitrary: r t)
  case (Cons x xs)
  have "TEARDOWN_KILL_S \<le> int 5" by (simp add: TEARDOWN_KILL_S_def)
  then obtain u where "teardown_wait E (r_pids r ! x) t = Some u"
    using stop_child_live [OF assms] unfolding teardown_wait_def by blast
  then have "\<exists>r1 t1. stop_slot E x (r, t) = Some (r1, t1)" by (auto simp: stop_slot_def split: prod.splits)
  with Cons show ?case by auto
qed simp

section \<open>Signals\<close>

text \<open>Every signal of the trace went to a child that was not reaped at that time.\<close>

fun kills_own :: "trace \<Rightarrow> bool" where
  "kills_own [] = True"
| "kills_own ((r, a) # t) =
     ((case r of Kill pid s \<Rightarrow> pid > 0 \<and> pid \<in> live_kids t | _ \<Rightarrow> True) \<and> kills_own t)"

fun no_kill :: "request \<times> int \<Rightarrow> bool" where
  "no_kill (Kill p s, a) = False"
| "no_kill _ = True"

lemma kills_own_adds: "adds no_kill t u \<Longrightarrow> kills_own t \<Longrightarrow> kills_own u"
proof -
  assume "adds no_kill t u" and t: "kills_own t"
  then obtain new where u: "u = new @ t" "\<forall>c \<in> set new. no_kill c" by (auto simp: adds_def)
  from u(2) have "kills_own (new @ t)"
  proof (induction new)
    case (Cons c new)
    then show ?case by (cases c rule: no_kill.cases) simp_all
  qed (simp add: t)
  with u(1) show ?thesis by simp
qed

lemmas host_no_kill = host_ops_adds [where P = no_kill, simplified]

lemma watch_no_kill: "adds watch_call t u \<Longrightarrow> adds no_kill t u"
proof (rule adds_mono)
  show "watch_call c \<Longrightarrow> no_kill c" for c by (cases c rule: watch_call.cases) simp_all
qed

lemma reap_kills:
  assumes "reap E pid t = Some t'" "kills_own t"
  shows "kills_own t'"
  using assms
proof (induction E pid t t' rule: reap.raw_induct [rotated, consumes 1, case_names 1])
  case (1 reap E pid t t')
  then show ?case by (auto simp: sys_eq split: if_splits)
qed

lemma wait_loop_kills:
  assumes "wait_loop E secs pid t0 t = Some t'" "kills_own t" "pid > 0" "pid \<in> live_kids t"
  shows "kills_own t'"
  using assms
proof (induction E secs pid t0 t t' rule: wait_loop.raw_induct [rotated, consumes 1, case_names 1])
  case (1 wait_loop E secs pid t0 t t')
  let ?w = "E t (Waitpid pid True)"
  let ?t = "(Waitpid pid True, ?w) # t"
  let ?u = "(Time, E ?t Time) # ?t"
  show ?case
  proof (cases "?w = pid \<or> ?w = - ECHILD")
    case True
    with 1(2,3) show ?thesis by (auto simp: sys_eq split: if_splits)
  next
    case live: False
    then have u: "kills_own ?u" "pid \<in> live_kids ?u" using 1(3,5) by simp_all
    show ?thesis
    proof (cases "E ?t Time - t0 \<ge> secs")
      case True
      with live 1(2) have "reap E pid (call E (Kill pid SIGKILL) ?u) = Some t'" by (simp add: sys_eq)
      moreover have "kills_own (call E (Kill pid SIGKILL) ?u)" using u 1(4) by (simp add: call_eq)
      ultimately show ?thesis by (rule reap_kills)
    next
      case False
      with live 1(2) have w: "wait_loop E secs pid t0 (call E Nanosleep ?u) = Some t'" by (simp add: sys_eq)
      have "kills_own (call E Nanosleep ?u)" "pid \<in> live_kids (call E Nanosleep ?u)" using u by (simp_all add: call_eq)
      then show ?thesis using 1(1) [OF w _ 1(4)] by blast
    qed
  qed
qed

lemma stop_child_kills:
  assumes "stop_child E secs pid t = Some t'" "kills_own t" "pid > 0 \<longrightarrow> pid \<in> live_kids t"
  shows "kills_own t'"
proof (cases "pid > 0")
  case True
  let ?k = "call E (Kill pid SIGTERM) t"
  let ?u = "(Time, E ?k Time) # ?k"
  have u: "kills_own ?u" "pid \<in> live_kids ?u" "kills_own (call E (Kill pid SIGKILL) ?u)"
    using assms(2,3) True by (simp_all add: call_eq)
  show ?thesis using assms(1) True wait_loop_kills [OF _ u(1) True u(2)] reap_kills [OF _ u(3)]
    by (auto simp: stop_child_def sys_eq Let_def split: if_splits)
qed (use assms in \<open>auto simp: stop_child_def\<close>)

lemma close_slot_kills: "close_slot E k xs t = (xs', t') \<Longrightarrow> kills_own t \<Longrightarrow> kills_own t'"
  by (auto simp: close_slot_def call_eq split: if_splits)

lemma stop_slot_kills:
  assumes "owns F K r t" "i < nat (r_n r)" "stop_slot E i (r, t) = Some (r', t')" "kills_own t"
  shows "kills_own t'"
proof (cases "int i = r_dead r")
  case True
  with assms(3,4) show ?thesis
    by (auto simp: stop_slot_def close_tun_def split: prod.splits dest: close_slot_kills)
next
  case False
  let ?pid = "r_pids r ! i"
  obtain r1 t1 where s1: "(if ?pid > 0 then map_option (\<lambda>t. (r\<lparr>r_pids := (r_pids r)[i := - 1]\<rparr>, t)) (teardown_wait E ?pid t)
      else Some (r, t)) = Some (r1, t1)"
    using assms(3) False by (auto simp: stop_slot_def split: if_splits option.splits)
  have "?pid > 0 \<longrightarrow> ?pid \<in> live_kids t" using assms(1,2) False by (auto simp: owns_def owns_kids_def kid_slots_def)
  then have k1: "kills_own t1" using s1 stop_child_kills assms(4) by (auto simp: teardown_wait_def split: if_splits)
  obtain xs u where c1: "close_slot E i (r_fds r1) t1 = (xs, u)" by fastforce
  obtain ys v where c2: "close_slot E i (r_logfds r1) u = (ys, v)" by fastforce
  have "t' = v" using assms(3) False s1 c1 c2 by (simp add: stop_slot_def close_tun_def)
  then show ?thesis using close_slot_kills [OF c2 close_slot_kills [OF c1 k1]] by simp
qed

lemma stop_slots_kills:
  assumes "owns F K r t" "\<forall>i \<in> set xs. i < nat (r_n r)" "stop_slots E xs (r, t) = Some (r', t')" "waits E" "kills_own t"
  shows "kills_own t'"
  using assms
proof (induction xs arbitrary: r t)
  case (Cons x xs)
  obtain r1 t1 where s: "stop_slot E x (r, t) = Some (r1, t1)" "stop_slots E xs (r1, t1) = Some (r', t')"
    using Cons.prems(3) by (auto split: option.splits)
  note one = stop_slot_owns [OF Cons.prems(1) _ s(1) Cons.prems(4)]
  have "owns F K r1 t1" "r_n r1 = r_n r" using one Cons.prems(2) by auto
  moreover have "kills_own t1" using stop_slot_kills [OF Cons.prems(1) _ s(1) Cons.prems(5)] Cons.prems(2) by simp
  ultimately show ?case using Cons.IH [of r1 t1] s(2) Cons.prems(2,4) by simp
qed simp

lemma teardown_kills:
  assumes "owns F K r t" "kernel E" "waits E" "kills_own t"
    and "run_teardown E D (Some r) failed forensics u t = Some (Some r', u', t')"
  shows "kills_own t'"
proof (cases "r_done r")
  case True
  with assms(4,5) show ?thesis by (simp add: run_teardown_def)
next
  case False
  let ?r = "r\<lparr>r_done := True\<rparr>"
  obtain r1 t1 where s: "sample_pass E D (Some ?r) True t = (Some r1, t1)" using sample_pass_some by blast
  have "owns F K ?r t" using assms(1) by (simp add: owns_def owns_fds_def owns_kids_def kid_slots_def)
  then have "owns F K r1 t" using owns_core [OF sample_pass_core [OF s]] by blast
  moreover have "live_fds t1 = live_fds t" "live_kids t1 = live_kids t"
    using sample_pass_live [OF assms(2), of D "Some ?r" True t] s by simp_all
  ultimately have own: "owns F K r1 t1" using owns_live by blast
  have "adds no_kill t t1" using watch_no_kill [OF sample_pass_watches [of t E D "Some ?r" True]] s by simp
  then have k1: "kills_own t1" using assms(4) by (rule kills_own_adds)
  obtain r2 t2 where st: "stop_slots E [0..<nat (r_n r1)] (r1, t1) = Some (r2, t2)"
    and t': "t' = wipe E (r_net r2) (snd (sim_netns_teardown_net E (Some (r_net r2)) (r_n r2) t2))"
    using assms(5) False s by (auto simp: run_teardown_def Let_def free_store_def context_free_def split: option.splits)
  have "kills_own t2" using stop_slots_kills [OF own _ st assms(3) k1] by simp
  moreover have "adds no_kill v (wipe E net v)" for net v
    using commands_adds(3) [where P = no_kill] by (simp add: wipe_def)
  ultimately show ?thesis unfolding t'
    by (metis kills_own_adds host_no_kill(3))
qed

section \<open>Watching and polling\<close>

text \<open>A wait that does not hang answers the child it was asked for, or nothing, or an error.\<close>

definition polls :: "os \<Rightarrow> bool" where
  "polls E \<longleftrightarrow> (\<forall>t pid. pid > 0 \<and> E t (Waitpid pid True) > 0 \<longrightarrow> E t (Waitpid pid True) = pid)"

lemma alive_scan_owns:
  assumes "owns F K r t" "kills_own t" "\<forall>i \<in> set xs. 0 \<le> i \<and> i < r_n r" "polls E"
    and "alive_scan E skip xs (r, t) = (b, r', t')"
  shows "owns F K r' t' \<and> kills_own t' \<and> (\<exists>a. r' = r\<lparr>r_pids := a\<rparr>)"
  using assms
proof (induction xs arbitrary: r t)
  case Nil
  then have "r' = r\<lparr>r_pids := r_pids r\<rparr>" by simp
  then have "\<exists>a. r' = r\<lparr>r_pids := a\<rparr>" by blast
  with Nil show ?case by simp
next
  case (Cons x xs)
  let ?pid = "r_pids r ! nat x"
  show ?case
  proof (cases "x = skip \<or> ?pid \<le> 0")
    case True
    then have "alive_scan E skip xs (r, t) = (b, r', t')" using Cons.prems(5) by (auto split: if_splits)
    with Cons.IH [OF Cons.prems(1,2) _ Cons.prems(4) this] Cons.prems(3) show ?thesis by simp
  next
    case False
    let ?w = "E t (Waitpid ?pid True)"
    let ?t = "(Waitpid ?pid True, ?w) # t"
    have slot: "nat x \<in> kid_slots r" using False Cons.prems(3) by (auto simp: kid_slots_def)
    have kill: "kills_own ?t" using Cons.prems(2) by simp
    show ?thesis
    proof (cases "?w > 0 \<or> ?w = - ECHILD")
      case True
      then have w: "?w = ?pid \<or> ?w = - ECHILD" using Cons.prems(4) False by (auto simp: polls_def)
      then have live: "live_kids ?t = live_kids t - {?pid}" "live_fds ?t = live_fds t" by auto
      let ?r = "r\<lparr>r_pids := (r_pids r)[nat x := - 1]\<rparr>"
      have "owns_kids K ?r ?t" using owns_kids_reaped [OF _ slot live(1)] Cons.prems(1) by (simp add: owns_def)
      moreover have "owns_fds F ?r ?t" using owns_fds_live [OF live(2)] Cons.prems(1) by (simp add: owns_def)
      ultimately have "owns F K ?r ?t" using Cons.prems(1) by (simp add: owns_def)
      moreover have "alive_scan E skip xs (?r, ?t) = (b, r', t')"
        using Cons.prems(5) False True by (auto simp: sys_eq ECHILD_def)
      ultimately have "owns F K r' t' \<and> kills_own t' \<and> (\<exists>a. r' = ?r\<lparr>r_pids := a\<rparr>)"
        using Cons.IH [of ?r ?t] kill Cons.prems(3,4) by simp
      then show ?thesis by (metis run.update_convs(6) run.surjective)
    next
      case other: False
      then have r: "r' = r" "t' = ?t" using Cons.prems(5) False by (auto simp: sys_eq split: if_splits)
      have "?w \<noteq> ?pid" using other False by auto
      then have "live_kids ?t = live_kids t" "live_fds ?t = live_fds t" using other by simp_all
      then have "owns F K r ?t" using owns_live Cons.prems(1) by blast
      moreover have "r = r\<lparr>r_pids := r_pids r\<rparr>" by simp
      ultimately show ?thesis using r kill by metis
    qed
  qed
qed

lemma run_alive_owns:
  assumes "owns F K r t" "kills_own t" "polls E" "run_alive E (Some r) skip t = (b, Some r', t')"
  shows "owns F K r' t' \<and> kills_own t'"
proof -
  have "alive_scan E skip [0..r_n r - 1] (r, t) = (b, r', t')"
    using assms(4) by (simp add: run_alive_def split: prod.splits)
  from alive_scan_owns [OF assms(1,2) _ assms(3) this] show ?thesis by simp
qed

text \<open>All of a run that ownership depends on.\<close>

definition owner_core :: "run \<Rightarrow> sim_net \<times> int list \<times> int list \<times> int list \<times> int \<times> int \<times> bool" where
  "owner_core r = (r_net r, r_fds r, r_logfds r, r_pids r, r_n r, r_dead r, r_done r)"

lemma owns_owner: "owner_core r' = owner_core r \<Longrightarrow> owns F K r' t = owns F K r t"
  by (simp add: owns_def owns_fds_def owns_kids_def kid_slots_def owner_core_def)

lemma core_owner: "run_core r' = run_core r \<Longrightarrow> owner_core r' = owner_core r"
  by (simp add: run_core_def owner_core_def)

text \<open>Reads and polls.\<close>

fun read_call :: "request \<times> int \<Rightarrow> bool" where
  "read_call (Read fd n, a) = True"
| "read_call (Poll ms, a) = True"
| "read_call _ = False"

lemma read_call_plain: "read_call c \<Longrightarrow> neutral c \<and> no_kill c"
  by (cases c rule: read_call.cases) simp_all

lemma pump_node_core:
  assumes "pump_node E V dropf i (r, w, u, t) = (r', w', u', t')"
  shows "owner_core r' = owner_core r \<and> adds read_call t t'"
  using assms
  by (auto simp: pump_node_def owner_core_def call_eq Let_def adds_one split: if_splits prod.splits option.splits)

lemma log_node_core:
  assumes "log_node E D logf i (r, w, u, t) = (r', w', u', t')"
  shows "owner_core r' = owner_core r \<and> adds read_call t t'"
  using assms
  by (auto simp: log_node_def owner_core_def sys_eq adds_one split: if_splits option.splits)

lemma poll_folds_core:
  shows "fold (pump_node E V dropf) xs (r, w, u, t) = (r', w', u', t') \<Longrightarrow> owner_core r' = owner_core r \<and> adds read_call t t'"
    and "fold (log_node E D logf) xs (r, w, u, t) = (r', w', u', t') \<Longrightarrow> owner_core r' = owner_core r \<and> adds read_call t t'"
proof (induction xs arbitrary: r w u t)
  case (Cons x xs)
  case 1
  obtain r1 w1 u1 t1 where s: "pump_node E V dropf x (r, w, u, t) = (r1, w1, u1, t1)" using prod_cases4 by blast
  then have "fold (pump_node E V dropf) xs (r1, w1, u1, t1) = (r', w', u', t')" using 1 by simp
  from Cons.IH(1) [OF this] pump_node_core [OF s] show ?case using adds_trans by auto
next
  case (Cons x xs)
  case 2
  obtain r1 w1 u1 t1 where s: "log_node E D logf x (r, w, u, t) = (r1, w1, u1, t1)" using prod_cases4 by blast
  then have "fold (log_node E D logf) xs (r1, w1, u1, t1) = (r', w', u', t')" using 2 by simp
  from Cons.IH(2) [OF this] log_node_core [OF s] show ?case using adds_trans by auto
qed simp_all

lemma poll_once_owns:
  assumes "owns F K r t" "kills_own t" "kernel E"
    and "poll_once E D W V (Some r) dropf logf u ms t = (hit, Some r', w', u', t')"
  shows "owns F K r' t' \<and> kills_own t'"
proof -
  obtain a t1 where p: "sys E (Poll (if ms < 0 then 0 else ms)) t = (a, t1)" by fastforce
  define r1 where "r1 = (if a < 0 then r else r\<lparr>r_p := marked (\<lambda>i. a > 0 \<and> W t1 i) (nat (2 * r_n r)) (r_p r)\<rparr>)"
  obtain r2 w2 u2 t2 where f1: "fold (pump_node E V dropf) [0..r_n r1 - 1] (r1, [], u, t1) = (r2, w2, u2, t2)"
    using prod_cases4 by blast
  obtain r3 w3 u3 t3 where f2: "fold (log_node E D logf) [0..r_n r1 - 1] (r2, w2, u2, t2) = (r3, w3, u3, t3)"
    using prod_cases4 by blast
  obtain rb wb ub tb where mid: "(if a > 0 then (r3, w3, u3, t3) else (r1, [], u, t1)) = (rb, wb, ub, tb)"
    using prod_cases4 by blast
  have r1: "owner_core r1 = owner_core r" by (simp add: r1_def owner_core_def)
  have t1: "adds read_call t t1" using p by (auto simp: sys_eq adds_one)
  have "owner_core r3 = owner_core r" "adds read_call t t3"
    using poll_folds_core(1) [OF f1] poll_folds_core(2) [OF f2] r1 t1 adds_trans by metis+
  with mid r1 t1 have b: "owner_core rb = owner_core r" "adds read_call t tb" by (auto split: if_splits)
  have "(hit, Some r', w', u', t') = (case sample_pass E D (Some rb) False tb of (rp, t) \<Rightarrow> (a, rp, wb, ub, t))"
  proof (cases "a > 0")
    case True
    then have r1': "r1 = r\<lparr>r_p := marked (W t1) (nat (2 * r_n r)) (r_p r)\<rparr>" by (simp add: r1_def)
    from True mid have "rb = r3" "wb = w3" "ub = u3" "tb = t3" by simp_all
    with assms(4) p True f1 [unfolded r1'] f2 [unfolded r1'] show ?thesis by (simp add: poll_once_def Let_def)
  next
    case False
    with mid have "rb = r1" "wb = []" "ub = u" "tb = t1" by simp_all
    with assms(4) p False show ?thesis by (simp add: poll_once_def Let_def r1_def)
  qed
  then have s: "sample_pass E D (Some rb) False tb = (Some r', t')" by (cases "sample_pass E D (Some rb) False tb") simp
  have "adds neutral t tb" "adds no_kill t tb" using b(2) read_call_plain by (auto intro: adds_mono)
  then have tb: "live_fds tb = live_fds t" "live_kids tb = live_kids t" "kills_own tb"
    using adds_neutral kills_own_adds assms(2) by blast+
  have "owns F K rb tb" using owns_live [OF tb(1,2)] owns_owner [OF b(1)] assms(1) by blast
  then have "owns F K r' tb" using owns_core [OF sample_pass_core [OF s]] by blast
  moreover have "live_fds t' = live_fds tb" "live_kids t' = live_kids tb"
    using sample_pass_live [OF assms(3), of D "Some rb" False tb] s by simp_all
  moreover have "kills_own t'"
    using kills_own_adds [OF watch_no_kill [OF sample_pass_watches [of tb E D "Some rb" False]]] tb(3) s by simp
  ultimately show ?thesis using owns_live by blast
qed

lemma note_dead_owns:
  assumes "owns F K r t" "kills_own t" "0 \<le> i \<and> i < r_n r \<longrightarrow> r_pids r ! nat i \<le> 0"
    and "run_note_dead E (Some r) i t = (Some r', t')"
  shows "owns F K r' t' \<and> kills_own t' \<and> r_pids r' = r_pids r \<and> r_n r' = r_n r \<and> r_net r' = r_net r"
proof (cases "i < 0 \<or> i \<ge> r_n r \<or> r_dead r \<ge> 0")
  case True
  then have "r' = r" "t' = t" using assms(4) by (auto simp: run_note_dead_def split: if_splits)
  with assms(1,2) show ?thesis by simp
next
  case False
  let ?n = "nat (r_n r)"
  obtain ys u where c: "close_slot E (nat i) (r_logfds r) t = (ys, u)" by fastforce
  have r: "r' = r\<lparr>r_dead := i, r_logfds := ys, r_p := (r_p r)[nat (r_n r + i) := (r_p r ! nat (r_n r + i))\<lparr>p_fd := - 1\<rparr>]\<rparr>" "t' = u"
    using assms(4) False c by (auto simp: run_note_dead_def Let_def)
  have o: "opened (F \<union> held_fds ?n (r_logfds r)) ?n (r_fds r) t" "opened (F \<union> held_fds ?n (r_fds r)) ?n (r_logfds r) t"
    using assms(1) by (simp_all add: owns_def owns_fds_def)
  have i: "nat i < ?n" using False by simp
  note b = close_slot_both [OF o(2,1) i c]
  have slots: "kid_slots r' = kid_slots r" by (simp add: r kid_slots_def)
  have "owns F K r' t'" using assms(1,3) b False slots by (auto simp: owns_def owns_fds_def owns_kids_def r)
  then show ?thesis using close_slot_kills [OF c assms(2)] by (simp add: r)
qed

lemma rearm_owns:
  assumes "owns F K r t" "run_rearm (Some r) i = Some r'"
  shows "owns F K r' t \<and> r_pids r' = r_pids r \<and> r_n r' = r_n r \<and> r_net r' = r_net r"
proof -
  let ?p = "\<lambda>k. (r_p r)[k := (r_p r ! k)\<lparr>p_fd := r_logfds r ! nat i\<rparr>]"
  have p: "owns F K (r\<lparr>r_p := x\<rparr>) t" for x
    using owns_owner [of "r\<lparr>r_p := x\<rparr>" r F K t] assms(1) by (simp add: owner_core_def)
  have slots: "kid_slots (r\<lparr>r_p := x, r_dead := - 1\<rparr>) = kid_slots r" for x by (simp add: kid_slots_def)
  have "owns F K (r\<lparr>r_p := x, r_dead := - 1\<rparr>) t" for x
    using assms(1) slots by (simp add: owns_def owns_fds_def owns_kids_def)
  then show ?thesis using assms(2) p assms(1) by (simp add: run_rearm_def Let_def split: if_splits) (auto 0 0)
qed

section \<open>Properties\<close>

lemma setup_is_steps:
  assumes "f = run_setup_host \<or> f = run_setup_isolated" "f E alloc (Some r) (Some net) n t = (v, rp, t')"
  obtains (refused) "v = RUN_FAIL" "rp = Some r" "t' = t"
    | (host) "1 \<le> n" "n \<le> int TUN_MAP_MAX" "host_calls.steps E alloc r net n t = (v, rp, t')"
    | (isolated) "1 \<le> n" "n \<le> int TUN_MAP_MAX" "all_calls.steps E alloc r net n t = (v, rp, t')"
proof (cases "n < 1 \<or> n > int TUN_MAP_MAX")
  case True
  with assms refused show ?thesis by (auto simp: run_setup_host_def run_setup_isolated_def)
next
  case range: False
  show ?thesis
  proof (cases "f = run_setup_host")
    case True
    with assms(2) range refused host show ?thesis
      by (cases "isolate_all net = 0") (simp_all add: run_setup_host_def host_calls.steps_def)
  next
    case False
    with assms have "run_setup_isolated E alloc (Some r) (Some net) n t = (v, rp, t')" by simp
    with range refused isolated show ?thesis
      by (cases "isolate_all net = 0") (simp_all add: run_setup_isolated_def all_calls.steps_def)
  qed
qed

text \<open>
  C33. A setup that does not return \<open>RUN_OK\<close> leaves nothing behind, whichever call fails. A number
  of nodes out of range, or a net of the other kind, changes nothing at all. Otherwise the process
  has the descriptors and the children it had before, no entry of the run's array is open, the
  sample store is freed and the context either was never set up or has neither an event queue nor
  a node table nor a map; and if the host was touched, the last thing done was the removal of the
  namespaces. For an invalid net the host is not touched.
\<close>

theorem setup_fails_clean:
  assumes "f = (if host then run_setup_host else run_setup_isolated)" "kernel E" "run_arrays r"
    and "f E alloc (Some r) (Some net) n t = (v, Some r', t')" "v \<noteq> RUN_OK"
  shows "if n < 1 \<or> n > int TUN_MAP_MAX \<or> (isolate_all net = 0) \<noteq> host then r' = r \<and> t' = t
    else live_fds t' = live_fds t \<and> live_kids t' = live_kids t \<and> (\<not> sim_net_valid (Some net) \<longrightarrow> t' = t) \<and>
      (\<forall>k < nat n. r_fds r' ! k < 0) \<and> shist r' = None \<and> (r_ctx r' = r_ctx r \<or> ctx_freed (r_ctx r')) \<and>
      (t' = t \<or> ctx_freed (r_ctx r') \<and> (\<exists>u. t' = snd (sim_netns_teardown_net E (Some net) n u)))"
proof (cases "n < 1 \<or> n > int TUN_MAP_MAX \<or> (isolate_all net = 0) \<noteq> host")
  case True
  with assms(1,4) show ?thesis by (auto simp: run_setup_host_def run_setup_isolated_def split: if_splits)
next
  case False
  then have len: "nat n \<le> length (r_fds r)" using assms(3) by (auto simp: run_arrays_def nat_le_iff)
  show ?thesis
  proof (cases host)
    case True
    with assms(1,4) False have "host_calls.steps E alloc r net n t = (v, Some r', t')"
      by (simp add: run_setup_host_def host_calls.steps_def)
    from host_calls.clean [OF assms(2) len this assms(5)] show ?thesis unfolding if_not_P [OF False] .
  next
    case iso: False
    with assms(1,4) False have "all_calls.steps E alloc r net n t = (v, Some r', t')"
      by (simp add: run_setup_isolated_def all_calls.steps_def)
    from all_calls.clean [OF assms(2) len this assms(5)] show ?thesis unfolding if_not_P [OF False] .
  qed
qed

text \<open>A host on which no file can be opened.\<close>

definition no_files :: os where
  "no_files t r = (case r of Open_file p \<Rightarrow> -13 | _ \<Rightarrow> calm_os t r)"

definition new_run :: run where
  "new_run = \<lparr>r_ctx = fresh_context, r_map = no_slots, r_net = run_net 1, r_fds = replicate TUN_MAP_MAX 0,
     r_logfds = replicate TUN_MAP_MAX 0, r_pids = replicate TUN_MAP_MAX 0,
     r_p = replicate (2 * TUN_MAP_MAX) \<lparr>p_fd = 0, p_in = False\<rparr>, r_n = 0, r_dead = 0, r_done = False, shist = None,
     shead = [], scount = [], sdropped = [], speak = [], sutime = [], sstime = [], slast_ms = 0\<rparr>"

lemma new_run: "run_arrays new_run" "r_ctx new_run = fresh_context"
  by (simp_all add: new_run_def run_arrays_def)

lemma new_run_init:
  "\<exists>r0. setup_init (\<lambda>s k. True) new_run net n = (True, r0) \<and> r_fds r0 = preset (nat n) (r_fds new_run) \<and> r_ctx r0 = start_context"
proof -
  let ?r = "new_run\<lparr>r_n := n, r_dead := - 1, r_done := False, r_net := net, r_map := no_slots,
    r_fds := preset (nat n) (r_fds new_run), r_logfds := preset (nat n) (r_logfds new_run), r_pids := preset (nat n) (r_pids new_run)\<rparr>"
  obtain r1 where c: "clear_store (\<lambda>s k. True) ?r = (True, r1)" by (simp add: clear_store_def Let_def)
  then have "run_core r1 = run_core ?r" using clear_store_history by blast
  then have "r_ctx r1 = fresh_context" "r_fds r1 = preset (nat n) (r_fds new_run)" by (simp_all add: run_core_def new_run(2))
  with c context_init_starts show ?thesis by (auto simp: setup_init_def Let_def)
qed

theorem setup_fails_clean_witness:
  "\<exists>r' t'. run_setup_host no_files (\<lambda>s k. True) (Some new_run) (Some (run_net 1)) 1 [] = (RUN_SKIP, Some r', t') \<and>
     live_fds t' = {} \<and> live_kids t' = {} \<and> shist r' = None \<and> ctx_freed (r_ctx r')"
proof -
  have v: "sim_net_valid (Some (run_net 1))" by (rule run_net_valid) (simp_all add: RUN_ID_MAX_def)
  have iso: "isolate_all (run_net 1) = 0" by (simp add: run_net_def)
  obtain r0 where i: "setup_init (\<lambda>s k. True) new_run (run_net 1) 1 = (True, r0)" using new_run_init by blast
  have ns: "sim_netns_setup_net no_files (Some (run_net 1)) 1 [] = (True, [])"
    using v by (simp add: sim_netns_setup_net_def TUN_MAP_MAX_def)
  obtain fds t1 where o: "sim_tuns_open_net no_files (Some (run_net 1)) (Some (r_fds r0)) 1 [] = (False, Some fds, t1)"
    using v names_fit(3) [OF v, of 0]
    by (simp add: sim_tuns_open_net_def TUN_MAP_MAX_def Let_def open_tun_file_def sys_eq no_files_def)
  obtain r' t' where u: "setup_unwind no_files (Some (run_net 1)) 1 (r0\<lparr>r_fds := fds\<rparr>, t1) = (r', t')" by fastforce
  have r: "run_setup_host no_files (\<lambda>s k. True) (Some new_run) (Some (run_net 1)) 1 [] = (RUN_SKIP, Some r', t')"
    using iso i ns o u by (simp add: run_setup_host_def setup_steps_def TUN_MAP_MAX_def)
  have k: "kernel no_files"
  proof -
    have "-13 \<notin> live_fds t" for t using live_nonneg [of "-13" t] by auto
    then show ?thesis using kernel_calm by (simp add: kernel_def no_files_def)
  qed
  have "r_ctx r' \<noteq> r_ctx new_run \<or> ctx_freed (r_ctx r')"
    using unwind_freed [OF u] by simp
  with setup_fails_clean [where f = run_setup_host and host = True, OF _ k new_run(1) r] r iso
  show ?thesis by (auto simp: TUN_MAP_MAX_def)
qed

text \<open>
  C34. A setup that returns \<open>RUN_OK\<close> leaves the run ready: every node has an open TUN device of
  its own that the poll vector watches, its address in the TUN map and its place in the simulated
  world; no child and no log pipe is there yet, no node is dead, the sample store is empty, and
  the process has gained exactly the descriptors of the devices and no child.
\<close>

theorem setup_ok_ready:
  assumes "f = run_setup_host \<or> f = run_setup_isolated" "kernel E" "run_arrays r"
    and "f E alloc (Some r) (Some net) n t = (RUN_OK, Some r', t')"
  shows "owns (live_fds t) (live_kids t) r' t' \<and> holds_history r' (\<lambda>i. []) \<and> r_n r' = n \<and> r_dead r' = - 1 \<and>
    \<not> r_done r' \<and> r_net r' = net \<and> sim_net_valid (Some net) \<and>
    slots (r_map r') = map (run_slot 0 net (r_fds r')) [0..n - 1] \<and> nodes (node_tab (r_ctx r')) = map (run_node 0) [0..n - 1] \<and>
    (\<forall>k < nat n. r_fds r' ! k \<ge> 0 \<and> r_logfds r' ! k = - 1 \<and> r_pids r' ! k = - 1 \<and>
       p_fd (r_p r' ! k) = r_fds r' ! k \<and> p_fd (r_p r' ! (nat n + k)) = - 1)"
proof (cases rule: setup_is_steps [OF assms(1,4)])
  case 1
  then show ?thesis by simp
next
  case 2
  from host_calls.ready [OF assms(2,3) 2(3,2)] show ?thesis .
next
  case 3
  from all_calls.ready [OF assms(2,3) 3(3,2)] show ?thesis .
qed

lemma run_fit_calm: "length cmd < cap \<Longrightarrow> run_fit calm_os cap cmd t = (True, (System cmd, 0) # t)"
  by (simp add: run_fit_def snprintf_def run_cmd_def sys_eq calm_os_def)

lemma run_seq_calm:
  "\<forall>cmd \<in> set cmds. length cmd < cap \<Longrightarrow> \<exists>u. run_seq (map (run_fit calm_os cap) cmds) t = (True, u)"
  by (induction cmds arbitrary: t) (simp_all add: run_fit_calm)

theorem setup_ok_ready_witness:
  "\<exists>r' t'. run_setup_host calm_os (\<lambda>s k. True) (Some new_run) (Some (run_net 1)) 1 [] = (RUN_OK, Some r', t') \<and>
     owns {} {} r' t'"
proof -
  have v: "sim_net_valid (Some (run_net 1))" by (rule run_net_valid) (simp_all add: RUN_ID_MAX_def)
  have iso: "isolate_all (run_net 1) = 0" by (simp add: run_net_def)
  obtain r0 where i: "setup_init (\<lambda>s k. True) new_run (run_net 1) 1 = (True, r0)" "r_ctx r0 = start_context"
    using new_run_init by blast
  note r0 = setup_init_True [OF i(1)]
  have ns: "sim_netns_setup_net calm_os (Some (run_net 1)) 1 [] = (True, [])"
    using v by (simp add: sim_netns_setup_net_def TUN_MAP_MAX_def)
  have ne: "length (r_fds r0) > 0" by (simp add: r0(1) preset_def new_run_def TUN_MAP_MAX_def)
  obtain fds t1 where o: "sim_tuns_open_net calm_os (Some (run_net 1)) (Some (r_fds r0)) 1 [] = (True, Some fds, t1)" "fds ! 0 = 1"
    using v names_fit(3) [OF v, of 0]
    by (simp add: sim_tuns_open_net_def TUN_MAP_MAX_def Let_def open_tun_file_def sys_eq calm_os_def preset_def)
  obtain c m where a: "sim_nodes_add_net (\<lambda>s k. True) (Some (run_net 1)) (Some start_context) (Some no_slots) (Some fds) 1 =
      (True, Some c, Some m)"
    using v o(2) by (simp add: sim_nodes_add_net_def TUN_MAP_MAX_def node_add_def context_add_node_def Let_def
        nodelist_push_def ensure_index_cap_def grow_cap.simps node_grow_def start_context_def fresh_context_def
        no_slots_def tun_map_add_def SIZE_MAX_def)
  obtain tun where tun: "tun_name_net (run_net 1) NAME_LEN 0 = Some tun" "length tun < 16"
    using names_fit(3) [OF v, of 0] tun_fit_name [of "run_net 1" 0] v by (simp add: sim_net_valid_eq)
  have sub: "length (subnet (run_net 1)) \<le> 12"
  proof -
    have "length (fmt_u w) \<le> 3" for w
    proof -
      have "uint w < 2 ^ LENGTH(8)" by (rule uint_lt2p)
      then show ?thesis unfolding fmt_u_def by (intro fmt_d_upto) simp_all
    qed
    from this [of 192] this [of 168] this [of 101] show ?thesis by (simp add: subnet_def run_net_def)
  qed
  obtain u where ad: "sim_addrs_up_net calm_os (Some (run_net 1)) 1 t1 = (True, u)"
  proof -
    have "\<exists>u. run_seq (map (run_fit calm_os CMD_LEN) [''ip addr add '' @ subnet (run_net 1) @ ''1/24 dev '' @ tun,
        ''ip link set '' @ tun @ '' up'', ''ip link set '' @ tun @ '' multicast on'',
        ''ip route add 224.0.0.0/4 dev '' @ tun]) t1 = (True, u)"
      using sub tun(2) by (intro run_seq_calm) (simp add: CMD_LEN_def)
    then show ?thesis using that v tun(1)
      by (auto simp: sim_addrs_up_net_def simp del: append.simps list.map(2) run_seq.simps)
  qed
  have r: "run_setup_host calm_os (\<lambda>s k. True) (Some new_run) (Some (run_net 1)) 1 [] =
      (RUN_OK, Some (setup_poll (r0\<lparr>r_fds := fds, r_ctx := c, r_map := m\<rparr>)), u)"
    using iso i ns o(1) a ad r0(8) by (simp add: run_setup_host_def setup_steps_def TUN_MAP_MAX_def)
  from setup_ok_ready [where f = run_setup_host, OF _ kernel_calm new_run(1) r] r show ?thesis by auto
qed

text \<open>
  C35. Teardown ends, gives back everything, and does so once: with a clock that moves on and
  waits that are not interrupted for ever, it returns; the process is left with the descriptors
  and the children it has besides those of the run, every slot is cleared, the event queue and
  the sample store are freed; the forensics have run exactly when the run failed; and a second
  teardown changes nothing and makes no call.
\<close>

theorem teardown_releases_all:
  assumes "owns F K r t" "\<not> r_done r" "kernel E" "waits E" "quiet_after N E" "clock_runs E"
  shows "\<exists>r' t'. run_teardown E D (Some r) failed forensics (u :: 'u) t =
      Some (Some r', if failed then (case forensics of None \<Rightarrow> u | Some f \<Rightarrow> f u) else u, t') \<and>
    live_fds t' = F \<and> live_kids t' = K \<and> shist r' = None \<and> heap (r_ctx r') = None \<and> r_done r' \<and>
    (\<forall>k < nat (r_n r). r_fds r' ! k < 0 \<and> r_logfds r' ! k < 0 \<and> r_pids r' ! k \<le> 0) \<and>
    (\<forall>b g (v :: 'u) w. run_teardown E D (Some r') b g v w = Some (Some r', v, w))"
proof -
  let ?r = "r\<lparr>r_done := True\<rparr>"
  obtain r1 t1 where s: "sample_pass E D (Some ?r) True t = (Some r1, t1)"
    using sample_pass_some by blast
  have core: "run_core r1 = run_core ?r" using sample_pass_core [OF s] .
  have "owns F K ?r t" using assms(1) by (simp add: owns_def owns_fds_def owns_kids_def kid_slots_def)
  then have "owns F K r1 t" using owns_core [OF core] by blast
  moreover have "live_fds t1 = live_fds t" "live_kids t1 = live_kids t"
    using sample_pass_live [OF assms(3), of D "Some ?r" True t] s by simp_all
  ultimately have own: "owns F K r1 t1" using owns_live by blast
  have n: "r_n r1 = r_n r" "r_dead r1 = r_dead r" "r_done r1" using core by (simp_all add: run_core_def)
  obtain r2 t2 where st: "stop_slots E [0..<nat (r_n r1)] (r1, t1) = Some (r2, t2)"
    using stop_slots_returns [OF assms(5,6)] by fastforce
  note o = stop_slots_owns [OF own _ st assms(4)]
  have own2: "owns F K r2 t2" and shut: "\<forall>k < nat (r_n r). r_fds r2 ! k < 0 \<and> r_logfds r2 ! k < 0 \<and> k \<notin> kid_slots r2"
    and keep: "r_n r2 = r_n r" "r_dead r2 = r_dead r" "r_done r2"
    using o n by auto
  have none: "kid_slots r2 = {}" using shut keep(1) by (auto simp: kid_slots_def)
  then have kids: "live_kids t2 = K" using own2 by (simp add: owns_def owns_kids_def)
  have pids: "\<forall>k < nat (r_n r). r_pids r2 ! k \<le> 0"
    using none keep(1) unfolding kid_slots_def by (metis (mono_tags, lifting) empty_iff mem_Collect_eq not_le)
  have "held_fds (nat (r_n r)) (r_logfds r2) = {}"
    using own2 shut keep(1) held_fds_iff [of "nat (r_n r)" "r_logfds r2"] by (fastforce simp: owns_def owns_fds_def opened_def)
  moreover have "opened (F \<union> held_fds (nat (r_n r)) (r_logfds r2)) (nat (r_n r)) (r_fds r2) t2"
    using own2 keep(1) by (simp add: owns_def owns_fds_def)
  ultimately have fds: "live_fds t2 = F" using opened_shut [of F "nat (r_n r)" "r_fds r2" t2] shut by simp
  let ?t = "wipe E (r_net r2) (snd (sim_netns_teardown_net E (Some (r_net r2)) (r_n r2) t2))"
  have "run_teardown E D (Some r) failed forensics u t =
      Some (Some (free_store r2), if failed then (case forensics of None \<Rightarrow> u | Some f \<Rightarrow> f u) else u, ?t)"
    using assms(2) s st by (simp add: run_teardown_def Let_def)
  moreover have "run_teardown E D (Some (free_store r2)) b g v w = Some (Some (free_store r2), v, w)" for b g w and v :: 'u
    using keep(3) by (simp add: run_teardown_def)
  ultimately show ?thesis using kids pids fds shut keep(3) by (intro exI [of _ "free_store r2"] exI [of _ ?t]) simp
qed

definition patient :: os where
  "patient t r = (case r of Time \<Rightarrow> int (sleeps t) | _ \<Rightarrow> calm_os t r)"

lemma patient: "kernel patient" "waits patient" "quiet_after 0 patient" "clock_runs patient"
proof -
  show "kernel patient" using kernel_calm by (simp add: kernel_def patient_def)
  show "waits patient" "quiet_after 0 patient" by (simp_all add: waits_def quiet_after_def patient_def calm_os_def EINTR_def)
  show "clock_runs patient" by (simp add: clock_runs_def patient_def sleeps_def)
qed

text \<open>A run of one node with the child 5 and the device 3.\<close>

definition small_run :: run where
  "small_run = new_run\<lparr>r_n := 1, r_dead := - 1, r_fds := [3], r_logfds := [- 1], r_pids := [5]\<rparr>"

lemma small_run_owns: "owns {} {} small_run [(Open_file ''/dev/net/tun'', 3), (Fork, 5)]"
  by (auto simp: owns_def owns_fds_def owns_kids_def kid_slots_def opened_def held_fds_def small_run_def TUN_MAP_MAX_def
      inj_on_def)

theorem teardown_releases_all_witness:
  "\<exists>r' t'. run_teardown patient (\<lambda>t. []) (Some small_run) True (Some (\<lambda>u. Suc u)) (0 :: nat)
      [(Open_file ''/dev/net/tun'', 3), (Fork, 5)] = Some (Some r', 1, t') \<and> live_fds t' = {} \<and> live_kids t' = {}"
proof -
  have "\<not> r_done small_run" by (simp add: small_run_def new_run_def)
  from teardown_releases_all [OF small_run_owns this patient, of "\<lambda>t. []" True "Some (\<lambda>u. Suc u)" "0 :: nat"]
  show ?thesis by auto
qed

lemma pump_node_cut:
  assumes "\<And>t. V t i \<noteq> V' t i \<Longrightarrow> i = r_dead r \<or> (\<exists>f. dropf = Some f \<and> (\<forall>u. fst (f u i)))"
  shows "pump_node E V dropf i (r, w, u, t) = pump_node E V' dropf i (r, w, u, t)"
proof (cases "V t i = V' t i")
  case False
  with assms consider "i = r_dead r" | f where "dropf = Some f" "fst (f u i)" by blast
  then show ?thesis by cases (auto simp: pump_node_def Let_def split: prod.splits)
next
  case True
  then show ?thesis by (simp only: pump_node_def prod.case)
qed

definition cut_off :: "int \<Rightarrow> 'u drop_fn ptr \<Rightarrow> int \<Rightarrow> bool" where
  "cut_off dead dropf i \<longleftrightarrow> i = dead \<or> (\<exists>f. dropf = Some f \<and> (\<forall>u. fst (f u i)))"

lemma pump_fold_cut:
  assumes "\<forall>t i. cut_off dead dropf i \<or> V t i = V' t i" "r_dead r = dead"
  shows "fold (pump_node E V dropf) xs (r, w, u, t) = fold (pump_node E V' dropf) xs (r, w, u, t)"
  using assms(2)
proof (induction xs arbitrary: r w u t)
  case (Cons x xs)
  obtain r1 w1 u1 t1 where s: "pump_node E V' dropf x (r, w, u, t) = (r1, w1, u1, t1)" using prod_cases4 by blast
  then have dead: "r_dead r1 = dead" using pump_node_core [OF s] Cons.prems by (simp add: owner_core_def)
  have "pump_node E V dropf x (r, w, u, t) = pump_node E V' dropf x (r, w, u, t)"
    using assms(1) Cons.prems by (intro pump_node_cut) (auto simp: cut_off_def)
  then show ?case using s Cons.IH [OF dead] by simp
qed simp

text \<open>
  C36. A node that is dead, or whose packets the caller drops, is cut off: what arrives on its TUN
  device, and what the pump would find there, changes nothing of what a poll does to the run, to
  the other devices, to the caller's data or to the host.
\<close>

theorem poll_cuts_off:
  assumes "\<forall>t i. cut_off (r_dead r) dropf i \<or> V t i = V' t i"
  shows "poll_once E D W V (Some r) dropf logf u ms t = poll_once E D W V' (Some r) dropf logf u ms t"
proof -
  have "fold (pump_node E V dropf) xs (if hit < 0 then r else r\<lparr>r_p := p\<rparr>, w, u, t) =
      fold (pump_node E V' dropf) xs (if hit < 0 then r else r\<lparr>r_p := p\<rparr>, w, u, t)" for xs p w u t and hit :: int
    by (rule pump_fold_cut [OF assms]) simp
  then show ?thesis by (simp only: poll_once_def option.case Let_def)
qed

text \<open>Two worlds in which only the device of node 0 brings different packets.\<close>

definition noisy :: "u8 list \<Rightarrow> tuns" where
  "noisy bs t i = \<lparr>rd = (\<lambda>fd. if i = 0 then Some bs else None), wr = (\<lambda>k. 0), wall_s = 0, mono_s = 0, mono_ns = 0\<rparr>"

theorem poll_cuts_off_witness:
  "poll_once calm_os (\<lambda>t. []) (\<lambda>t k. True) (noisy [1, 2]) (Some (small_run\<lparr>r_dead := 0\<rparr>)) None None () 5 [] =
   poll_once calm_os (\<lambda>t. []) (\<lambda>t k. True) (noisy [3]) (Some (small_run\<lparr>r_dead := 0\<rparr>)) None None () 5 []"
  by (rule poll_cuts_off) (auto simp: noisy_def cut_off_def small_run_def)

section \<open>The statedir\<close>

text \<open>The check of a net lets the root directory pass as a statedir, and teardown removes it.\<close>

lemma wipes_root:
  "sim_net_valid (Some ((run_net 1)\<lparr>statedir := ''/''\<rparr>)) \<and>
   fst (hd (wipe calm_os ((run_net 1)\<lparr>statedir := ''/''\<rparr>) [])) = System ''rm -rf /''"
proof -
  let ?net = "(run_net 1)\<lparr>statedir := ''/''\<rparr>"
  have v: "sim_net_valid (Some (run_net 1))" by (rule run_net_valid) (simp_all add: RUN_ID_MAX_def)
  have "field_ok ''/'' STATEDIR_N" by (simp add: field_ok_def STATEDIR_N_def safe_char_def Let_def)
  moreover have tf: "tun_fit ?net = tun_fit (run_net 1)" by (simp add: tun_fit_def)
  ultimately have v': "sim_net_valid (Some ?net)" using v tf by (simp add: sim_net_valid_eq)
  then show ?thesis by (simp add: wipe_def try_fit_def snprintf_def run_cmd_def sys_eq RUN_CMD_LEN_def)
qed
end
