(* ===== verification/Lint_Text.thy ===== *)
theory Lint_Text
  imports Yaml_Parse Binary64
begin

text \<open>
  What the linter of \<open>suite/exec.c\<close> says of a text: which characters a workload name, an image
  reference, the flags, a topic or a path may have, how a number, a decimal or an endpoint is
  read, and which placeholders a payload template may name.

  A validator either accepts, with the value it has read, or rejects with a line and a message,
  the first thing it finds; \<open>vbad\<close> is every \<open>return (vbad (v, line, msg))\<close>. Texts are those of
  scalars of a parsed document, which hold no NUL byte. \<open>x_m\<close> and thresholds are doubles, held
  as the rational they are.
\<close>

section \<open>Verdicts\<close>

datatype 'a lint = Accept 'a | Reject nat string

fun bind_lint :: "'a lint \<Rightarrow> ('a \<Rightarrow> 'b lint) \<Rightarrow> 'b lint" where
  "bind_lint (Accept x) f = f x"
| "bind_lint (Reject l m) f = Reject l m"

definition vbad :: "nat \<Rightarrow> string \<Rightarrow> 'a lint" where
  "vbad line msg = Reject line msg"

text \<open>\<open>if (!ok) return (vbad (v, line, msg));\<close> and then the rest.\<close>

definition need :: "bool \<Rightarrow> nat \<Rightarrow> string \<Rightarrow> 'a lint \<Rightarrow> 'a lint" where
  "need ok line msg k = (if ok then k else vbad line msg)"

text \<open>A pointer that must not be null, and one that may be.\<close>

definition req :: "'a ptr \<Rightarrow> nat \<Rightarrow> string \<Rightarrow> ('a \<Rightarrow> 'b lint) \<Rightarrow> 'b lint" where
  "req p line msg k = (case p of None \<Rightarrow> vbad line msg | Some q \<Rightarrow> k q)"

definition opt :: "'a ptr \<Rightarrow> 'b \<Rightarrow> ('a \<Rightarrow> 'b lint) \<Rightarrow> 'b lint" where
  "opt p s k = (case p of None \<Rightarrow> Accept s | Some q \<Rightarrow> k q)"

lemma bind_Accept [simp]: "bind_lint m f = Accept y \<longleftrightarrow> (\<exists>x. m = Accept x \<and> f x = Accept y)"
  by (cases m) auto

lemma need_Accept [simp]: "need ok line msg k = Accept y \<longleftrightarrow> ok \<and> k = Accept y"
  by (simp add: need_def vbad_def)

lemma req_Accept [simp]: "req p line msg k = Accept y \<longleftrightarrow> (\<exists>q. p = Some q \<and> k q = Accept y)"
  by (simp add: req_def vbad_def split: option.split)

lemma opt_Accept [simp]:
  "opt p s k = Accept y \<longleftrightarrow> (p = None \<and> y = s \<or> (\<exists>q. p = Some q \<and> k q = Accept y))"
  by (auto simp: opt_def split: option.split)

lemma vbad_Accept [simp]: "vbad line msg \<noteq> Accept y"
  by (simp add: vbad_def)

section \<open>Messages\<close>

text \<open>
  \<open>ellipsize\<close> on a buffer of \<open>n\<close> bytes into which \<open>snprintf\<close> wrote what fits of \<open>s\<close>.
\<close>

definition ellipsize :: "nat \<Rightarrow> string \<Rightarrow> string" where
  "ellipsize n s =
     (if n < 4 then take (n - 1) s
      else if length s < n then s
      else take (n - 4) s @ ''...'')"

definition vunknown :: "nat \<Rightarrow> string \<Rightarrow> string \<Rightarrow> 'a lint" where
  "vunknown line what key =
     vbad line (ellipsize 320 (''unknown '' @ what @ '' '' @ [SQ] @ key @ [SQ]))"

definition has_ramp :: "string \<Rightarrow> bool" where
  "has_ramp k = (take 4 k = ''ramp'')"

definition ramp_bad :: "nat \<Rightarrow> 'a lint" where
  "ramp_bad line =
     vbad line ''ramp* unsupported: use multi-phase rate ladder, see bench_ramp.yaml''"

definition via_bad :: "nat \<Rightarrow> string \<Rightarrow> 'a lint" where
  "via_bad line via =
     vbad line (ellipsize 320 (''unknown via '' @ [SQ] @ via @ [SQ] @
       '': want weld-pub, ros-pub, workload-submit, log-contains, ros-log-contains, '' @
       ''journal-has, workload-running, prometheus-scrape''))"

lemma reject_Accept [simp]: "vunknown line what key \<noteq> Accept y" "ramp_bad line \<noteq> Accept y" "via_bad line via \<noteq> Accept y"
  by (simp_all add: vunknown_def ramp_bad_def via_bad_def)

section \<open>Nodes of the document\<close>

fun node_line :: "suite_node \<Rightarrow> nat" where
  "node_line (Suite_Map l es) = l"
| "node_line (Suite_List l ns) = l"
| "node_line (Suite_Scalar l s) = l"

abbreviation find_key :: "suite_node \<Rightarrow> string \<Rightarrow> suite_node ptr" where
  "find_key nd key \<equiv> suite_map_find (Some nd) (Some key)"

definition key_line :: "suite_node \<Rightarrow> string \<Rightarrow> nat" where
  "key_line nd key =
     (case nd of
        Suite_Map l es \<Rightarrow>
          (case find (\<lambda>e. fst e = key) es of Some e \<Rightarrow> fst (snd e) | None \<Rightarrow> l)
      | _ \<Rightarrow> 0)"

definition scalar_eq :: "suite_node \<Rightarrow> string \<Rightarrow> bool" where
  "scalar_eq nd s = (suite_scalar_str (Some nd) = Some s)"

text \<open>The text, if it fits a buffer of \<open>n\<close> bytes with its terminator.\<close>

definition copy_text :: "nat \<Rightarrow> string \<Rightarrow> string option" where
  "copy_text n s = (if length s + 1 > n then None else Some s)"

definition need_int :: "suite_node \<Rightarrow> int option" where
  "need_int nd = suite_scalar_int (Some nd)"

text \<open>
  The tests around \<open>need_int\<close>: \<open>!need_int (nd, &x) || x < lo || x > hi\<close>, and the same for a
  node index, which must be below the number of nodes.
\<close>

definition int_in :: "int \<Rightarrow> int \<Rightarrow> suite_node \<Rightarrow> string \<Rightarrow> int lint" where
  "int_in lo hi nd msg =
     (case need_int nd of
        None \<Rightarrow> vbad (node_line nd) msg
      | Some x \<Rightarrow> if x < lo \<or> x > hi then vbad (node_line nd) msg else Accept x)"

definition index_in :: "int \<Rightarrow> suite_node \<Rightarrow> int lint" where
  "index_in nodes nd = int_in 0 (nodes - 1) nd ''node index out of range''"

text \<open>
  A text field: a scalar that passes the check \<open>ok\<close> and fits the buffer. A check that the
  code spells \<open>t[0] == 0\<close> is \<open>nonempty\<close>.
\<close>

definition text_in :: "(string ptr \<Rightarrow> bool) \<Rightarrow> nat \<Rightarrow> suite_node \<Rightarrow> string \<Rightarrow> string \<Rightarrow> string lint" where
  "text_in ok n nd bad long =
     (let t = suite_scalar_str (Some nd) in
      if t = None \<or> \<not> ok t then vbad (node_line nd) bad
      else (case copy_text n (the t) of
              None \<Rightarrow> vbad (node_line nd) long
            | Some u \<Rightarrow> Accept u))"

definition nonempty :: "string ptr \<Rightarrow> bool" where
  "nonempty t = (t \<noteq> None \<and> t \<noteq> Some [])"

lemma int_in_Accept [simp]: "int_in lo hi nd msg = Accept x \<longleftrightarrow> need_int nd = Some x \<and> lo \<le> x \<and> x \<le> hi"
  by (auto simp: int_in_def split: option.split)

lemma index_in_Accept [simp]: "index_in n nd = Accept x \<longleftrightarrow> need_int nd = Some x \<and> 0 \<le> x \<and> x < n"
  by (auto simp: index_in_def)

lemma text_in_Accept [simp]:
  "text_in ok n nd bad long = Accept u \<longleftrightarrow>
     suite_scalar_str (Some nd) = Some u \<and> ok (Some u) \<and> length u < n"
  by (auto simp: text_in_def Let_def copy_text_def split: option.split)

section \<open>Characters\<close>

definition digit :: "char \<Rightarrow> bool" where
  "digit c = between (CHR ''0'') (CHR ''9'') c"

definition alnum :: "char \<Rightarrow> bool" where
  "alnum c = (between (CHR ''A'') (CHR ''Z'') c \<or> between (CHR ''a'') (CHR ''z'') c \<or> digit c)"

definition image_ok :: "string ptr \<Rightarrow> bool" where
  "image_ok sp =
     (case sp of
        None \<Rightarrow> False
      | Some s \<Rightarrow> s \<noteq> [] \<and> list_all (\<lambda>c. alnum c \<or> c \<in> set ''_.:/@+-'') s)"

text \<open>The value, with the check of its characters and of the size \<open>m\<close> of the buffer.\<close>

definition push_word :: "suite_node \<Rightarrow> nat \<Rightarrow> bool \<Rightarrow> string option" where
  "push_word nd m slash =
     (case suite_scalar_str (Some nd) of
        None \<Rightarrow> None
      | Some t \<Rightarrow>
          if t = [] then None
          else if \<not> list_all (\<lambda>c. alnum c \<or> c \<in> set ''_.-'' \<or> (slash \<and> c = CHR ''/'')) t then None
          else if length t \<ge> m then None
          else Some t)"

definition flags_ok :: "string ptr \<Rightarrow> bool" where
  "flags_ok sp =
     (case sp of
        None \<Rightarrow> False
      | Some s \<Rightarrow> list_all (\<lambda>c. alnum c \<or> c \<in> set ''_=., /-%'') s)"

definition kWlLen :: nat where "kWlLen = 64"
definition kIdLen :: nat where "kIdLen = 64"

definition wl_name_ok :: "string ptr \<Rightarrow> bool" where
  "wl_name_ok sp =
     (case sp of
        None \<Rightarrow> False
      | Some s \<Rightarrow>
          s \<noteq> [] \<and> length s < kWlLen \<and> list_all (\<lambda>c. alnum c \<or> c \<in> set ''_.-'') s)"

definition wid_ok :: "string ptr \<Rightarrow> bool" where
  "wid_ok sp =
     (case sp of
        None \<Rightarrow> False
      | Some s \<Rightarrow>
          s \<noteq> [] \<and> length s < kIdLen \<and>
          list_all (\<lambda>c. digit c \<or> between (CHR ''a'') (CHR ''f'') c \<or>
            between (CHR ''A'') (CHR ''F'') c \<or> c = DASH) s)"

definition statedir_ok :: "string ptr \<Rightarrow> bool" where
  "statedir_ok sp =
     (case sp of
        None \<Rightarrow> False
      | Some s \<Rightarrow> s \<noteq> [] \<and> list_all (\<lambda>c. alnum c \<or> c \<in> set ''/_.-'') s)"

definition topic_ok :: "string ptr \<Rightarrow> bool" where
  "topic_ok sp =
     (case sp of
        None \<Rightarrow> False
      | Some [] \<Rightarrow> False
      | Some (c # s) \<Rightarrow> c = CHR ''/'' \<and> list_all (\<lambda>c. alnum c \<or> c \<in> set ''_/'') s)"

definition scrape_metric_ok :: "string ptr \<Rightarrow> bool" where
  "scrape_metric_ok sp =
     (case sp of
        None \<Rightarrow> False
      | Some [] \<Rightarrow> False
      | Some (c # s) \<Rightarrow>
          (alnum c \<and> \<not> digit c \<or> c \<in> set ''_:'') \<and>
          list_all (\<lambda>c. alnum c \<or> c \<in> set ''_:'') s \<and> length (c # s) < 128)"

definition scrape_op_ok :: "string ptr \<Rightarrow> bool" where
  "scrape_op_ok sp =
     (case sp of None \<Rightarrow> False | Some s \<Rightarrow> s \<in> {''eq'', ''ne'', ''lt'', ''le'', ''gt'', ''ge''})"

definition scrape_path_ok :: "string ptr \<Rightarrow> bool" where
  "scrape_path_ok sp =
     (case sp of
        None \<Rightarrow> False
      | Some [] \<Rightarrow> False
      | Some (c # s) \<Rightarrow>
          c = CHR ''/'' \<and> list_all (\<lambda>c. alnum c \<or> c \<in> set ''/.-_'') s \<and> length (c # s) < 128)"

section \<open>Numbers\<close>

definition key_int :: "string \<Rightarrow> int option" where
  "key_int s =
     (let ds = (if s \<noteq> [] \<and> (s ! 0 = CHR ''+'' \<or> s ! 0 = DASH) then drop 1 s else s) in
      if ds = [] then None
      else if \<not> list_all digit ds then None
      else strtoll10 s)"

text \<open>
  \<open>strtod\<close> on a text without \<open>x\<close> or \<open>X\<close>: blanks, a sign, digits with a point, an exponent.
  The value is rounded to a double, and \<open>None\<close> is a text that is not read to its end. The
  words \<open>inf\<close> and \<open>nan\<close>, which \<open>strtod\<close> reads too, give values the caller refuses like a text
  that is no number. Doubles too small to be normal keep more digits here than in C.
\<close>

definition blank_space :: "char \<Rightarrow> bool" where
  "blank_space c = (c = SP \<or> (0x09 \<le> (of_char c :: nat) \<and> (of_char c :: nat) \<le> 0x0D))"

definition sign_of :: "string \<Rightarrow> int \<times> string" where
  "sign_of s =
     (case s of
        [] \<Rightarrow> (1, [])
      | c # cs \<Rightarrow> if c = DASH then (- 1, cs) else if c = CHR ''+'' then (1, cs) else (1, s))"

definition exponent :: "string \<Rightarrow> int \<times> string" where
  "exponent s =
     (case s of
        [] \<Rightarrow> (0, [])
      | c # cs \<Rightarrow>
          let (sg, r) = sign_of cs; ds = takeWhile digit r in
          if c \<in> set ''eE'' \<and> ds \<noteq> [] then (sg * digits_val 0 ds, dropWhile digit r) else (0, s))"

definition strtod :: "string \<Rightarrow> rat option" where
  "strtod s =
     (let (sg, r) = sign_of (dropWhile blank_space s);
          whole = takeWhile digit r;
          r = dropWhile digit r;
          (frac, r') = (if r \<noteq> [] \<and> hd r = CHR ''.'' then (takeWhile digit (tl r), dropWhile digit (tl r))
                        else ([], r)) in
      if whole = [] \<and> frac = [] then None
      else
        let (ex, r') = exponent r';
            m = of_int (digits_val 0 (whole @ frac)) * (10 :: rat) powi (ex - int (length frac)) in
        if r' = [] then Some (of_int sg * fl64 m) else None)"

definition float_of :: "string ptr \<Rightarrow> rat option" where
  "float_of sp =
     (case sp of
        None \<Rightarrow> None
      | Some s \<Rightarrow>
          if s = [] then None
          else if hd s = SP \<or> hd s = TAB then None
          else if CHR ''x'' \<in> set s \<or> CHR ''X'' \<in> set s then None
          else
            (case strtod s of
               None \<Rightarrow> None
             | Some x \<Rightarrow> if \<not> (- 1000000 \<le> x \<and> x \<le> 1000000) then None else Some x))"

definition kDurFresh :: int where "kDurFresh = 0"
definition kDurKeep :: int where "kDurKeep = 1"
definition kDurRot :: int where "kDurRot = 2"
definition kDurWipe :: int where "kDurWipe = 3"
definition kDurZap :: int where "kDurZap = 4"

definition dur_of :: "string \<Rightarrow> int option" where
  "dur_of s =
     (if s = ''fresh'' then Some kDurFresh
      else if s = ''preserve'' then Some kDurKeep
      else if s = ''rekey_rotate'' then Some kDurRot
      else if s = ''key_wipe'' then Some kDurWipe
      else if s = ''wipe_state'' then Some kDurZap
      else None)"

section \<open>Benchmark payloads\<close>

text \<open>A tag of the old form: \<open>bench#\<close>, digits, \<open>#\<close>, and not digits and \<open>#\<close> again.\<close>

definition old_tag :: "string \<Rightarrow> bool" where
  "old_tag s =
     (if take 6 s \<noteq> ''bench#'' then False
      else
        let d = drop 6 s; r = dropWhile digit d in
        if takeWhile digit d = [] then False
        else if r = [] \<or> hd r \<noteq> CHR ''#'' then False
        else
          let e = tl r; u = dropWhile digit e in
          if takeWhile digit e = [] then True
          else u = [] \<or> hd u \<noteq> CHR ''#'')"

text \<open>
  The name that starts at the text: at most \<open>k\<close> characters, up to \<open>}}\<close> or the end. The result is
  the name and the text at the position where the scan stopped.
\<close>

fun ph_name :: "nat \<Rightarrow> string \<Rightarrow> string \<times> string" where
  "ph_name k [] = ([], [])"
| "ph_name k (c # cs) =
     (if k = 0 \<or> (c = CHR 0x7D \<and> cs \<noteq> [] \<and> hd cs = CHR 0x7D) then ([], c # cs)
      else let (nm, r) = ph_name (k - 1) cs in (c # nm, r))"

lemma ph_name_length: "length (snd (ph_name k s)) \<le> length s"
  by (induction k s rule: ph_name.induct) (auto simp: Let_def split: prod.splits)

lemma ph_name_rest: "(nm, r) = ph_name k s \<Longrightarrow> length r - 2 \<le> length s - 1"
  using ph_name_length [of k s] by (cases "ph_name k s") auto

text \<open>Whether a placeholder opens here: two braces.\<close>

definition opens :: "string \<Rightarrow> bool" where
  "opens s = (take 2 s = [CHR 0x7B, CHR 0x7B])"

text \<open>The test on the text the name scan stopped at: \<open>tpl[j] == 0 || tpl[j + 1] != '}'\<close>.\<close>

definition unclosed :: "string \<Rightarrow> bool" where
  "unclosed r = (r = [] \<or> tl r = [] \<or> hd (tl r) \<noteq> CHR 0x7D)"

text \<open>The loop of \<open>ph_ok\<close> on what is left of the template.\<close>

function ph_ok :: "nat \<Rightarrow> bool \<Rightarrow> string \<Rightarrow> unit lint" where
  "ph_ok line allow_wid tpl =
     (if tpl = [] then Accept ()
      else if \<not> opens tpl then ph_ok line allow_wid (tl tpl)
      else
        let (nm, r) = ph_name 31 (drop 2 tpl) in
        if unclosed r then
          vbad line ''bad placeholder: want {{seq}}, {{send_ns}}, {{body}}, {{wid}}''
        else if nm \<in> {''seq'', ''send_ns'', ''body''} then ph_ok line allow_wid (drop 2 r)
        else if nm = ''wid'' then
          if allow_wid then ph_ok line allow_wid (drop 2 r)
          else vbad line ''wid is workload-submit only''
        else
          vbad line (ellipsize 160 (''unknown placeholder '' @ [SQ] @ nm @ [SQ] @
            '': want seq, send_ns, body, wid'')))"
  by pat_completeness auto
termination
  by (relation "measure (\<lambda>(line, allow_wid, tpl). length tpl)")
    (auto simp: opens_def neq_Nil_conv dest!: ph_name_rest)

declare ph_ok.simps [simp del]

section \<open>Endpoints\<close>

datatype ep_kind = EP_WELD | EP_ROS | EP_CONCORD

record ep_cap =
  pub_weld :: bool
  pub_ros :: bool
  obs_weld :: bool
  obs_ros :: bool
  relay :: bool
  submit :: bool
  lists :: bool

fun kEpCap :: "ep_kind \<Rightarrow> ep_cap" where
  "kEpCap EP_WELD = \<lparr>pub_weld = True, pub_ros = False, obs_weld = True, obs_ros = True,
     relay = True, submit = False, lists = False\<rparr>"
| "kEpCap EP_ROS = \<lparr>pub_weld = False, pub_ros = True, obs_weld = False, obs_ros = True,
     relay = False, submit = False, lists = False\<rparr>"
| "kEpCap EP_CONCORD = \<lparr>pub_weld = False, pub_ros = False, obs_weld = False, obs_ros = False,
     relay = False, submit = True, lists = True\<rparr>"

fun ep_name :: "ep_kind \<Rightarrow> string" where
  "ep_name EP_WELD = ''weld''"
| "ep_name EP_ROS = ''ros''"
| "ep_name EP_CONCORD = ''concord''"

record probe =
  via :: string
  sends :: bool
  needs_verb :: string

definition kProbeTab :: "probe list" where
  "kProbeTab =
     [\<lparr>via = ''weld-pub'', sends = True, needs_verb = ''weld.pub''\<rparr>,
      \<lparr>via = ''ros-pub'', sends = True, needs_verb = ''ros.pub''\<rparr>,
      \<lparr>via = ''workload-submit'', sends = True, needs_verb = ''workload.submit''\<rparr>,
      \<lparr>via = ''log-contains'', sends = False, needs_verb = ''weld.log''\<rparr>,
      \<lparr>via = ''ros-log-contains'', sends = False, needs_verb = ''ros.log''\<rparr>,
      \<lparr>via = ''journal-has'', sends = False, needs_verb = ''journal.has''\<rparr>,
      \<lparr>via = ''workload-running'', sends = False, needs_verb = ''workload.list''\<rparr>,
      \<lparr>via = ''prometheus-scrape'', sends = False, needs_verb = ''metrics.scrape''\<rparr>]"

definition probe_of :: "string \<Rightarrow> probe option" where
  "probe_of v = find (\<lambda>p. via p = v) kProbeTab"

text \<open>Digits after a prefix, read as a node index.\<close>

definition ep_index :: "int \<Rightarrow> string \<Rightarrow> int option" where
  "ep_index nodes p =
     (if p = [] then None
      else if \<not> list_all digit p then None
      else
        (case strtoll10 p of
           None \<Rightarrow> None
         | Some x \<Rightarrow> if x < 0 \<or> x \<ge> nodes then None else Some x))"

definition ros_from :: "int \<Rightarrow> string \<Rightarrow> int option" where
  "ros_from nodes s = (if take 4 s \<noteq> ''ros:'' then None else ep_index nodes (drop 4 s))"

definition ep_prefix :: "int \<Rightarrow> string \<Rightarrow> (ep_kind \<times> int) option" where
  "ep_prefix nodes s =
     (if take 5 s = ''weld:'' then map_option (Pair EP_WELD) (ep_index nodes (drop 5 s))
      else if take 4 s = ''ros:'' then map_option (Pair EP_ROS) (ep_index nodes (drop 4 s))
      else if take 8 s = ''concord:'' then map_option (Pair EP_CONCORD) (ep_index nodes (drop 8 s))
      else None)"

definition kConcord :: int where "kConcord = 0"
definition kWeld :: int where "kWeld = 1"

definition sut_def_ep :: "int \<Rightarrow> ep_kind" where
  "sut_def_ep sut = (if sut < 0 \<or> sut > 1 then EP_CONCORD else [EP_CONCORD, EP_WELD] ! nat sut)"

text \<open>The arguments \<open>f->nodes\<close> and \<open>f->sut\<close> of the suite, and the reference.\<close>

definition ep_parse_node :: "int \<Rightarrow> int \<Rightarrow> suite_node \<Rightarrow> (ep_kind \<times> int) option" where
  "ep_parse_node nodes sut nd =
     (let bare = (case need_int nd of
                    None \<Rightarrow> None
                  | Some x \<Rightarrow> if x < 0 \<or> x \<ge> nodes then None else Some (sut_def_ep sut, x)) in
      case suite_scalar_str (Some nd) of
        None \<Rightarrow> bare
      | Some s \<Rightarrow>
          (case ep_prefix nodes s of
             Some kn \<Rightarrow> Some kn
           | None \<Rightarrow>
               (case ros_from nodes s of
                  Some n \<Rightarrow> Some (EP_ROS, n)
                | None \<Rightarrow> bare)))"

section \<open>Needs\<close>

definition concord_needs :: "string list" where
  "concord_needs =
     [''workload.submit'', ''workload.list'', ''workload.stop'', ''workload.update'',
      ''node.list'', ''journal.assigned'', ''journal.agree'', ''journal.assigned_on'',
      ''journal.epoch'', ''journal.image'', ''journal.corrupt'', ''journal.has'',
      ''image.push'', ''metrics.scrape'', ''disk.fill'', ''disk.readonly'', ''net.qos'',
      ''net.slow'', ''net.nomcast'', ''spawn.plain'', ''spawn.anchor'', ''spawn.skew'',
      ''spawn.bins'']"

definition weld_needs :: "string list" where
  "weld_needs =
     [''weld.pub'', ''weld.echo'', ''weld.replay'', ''ros.peer'', ''ros.echo'', ''ros.pub'',
      ''relay.echo'', ''restart.fresh'', ''restart.preserve'', ''spawn.bins'', ''weld.log'',
      ''ros.log'', ''metrics.scrape'']"

definition need_ok :: "int \<Rightarrow> string \<Rightarrow> bool" where
  "need_ok sut s =
     (let idx = (if sut < 0 \<or> sut > 1 then 0 else nat sut) in
      s \<in> set ([concord_needs, weld_needs] ! idx))"

end
