(* ===== verification/Lint_Cond.thy ===== *)
theory Lint_Cond
  imports Lint_Text
begin

text \<open>
  The validated conditions, steps, phases and file of \<open>suite/exec.c\<close>, and the linter of a
  condition: \<open>val_cond\<close> with what it calls. The eleven conditions are a definition each; the
  fields a condition does not set keep the zeros of \<open>memset\<close>.
\<close>

section \<open>Caps\<close>

definition kMaxNodes :: int where "kMaxNodes = 100"
definition kMaxWl :: nat where "kMaxWl = 128"
definition kMaxCount :: int where "kMaxCount = 100"
definition kMaxRate :: int where "kMaxRate = 1000000"
definition kMaxMb :: int where "kMaxMb = 65536"
definition kMaxKbps :: int where "kMaxKbps = 1000000"
definition kMaxMs :: int where "kMaxMs = 3600000"
definition kNameLen :: nat where "kNameLen = 64"
definition kTextLen :: nat where "kTextLen = 256"
definition kPathLen :: nat where "kPathLen = 192"
definition kMaxTimeoutS :: int where "kMaxTimeoutS = 3600"

section \<open>The validated file\<close>

datatype cond_kind =
    CD_PEERS | CD_MARKER | CD_PRESENT | CD_ABSENT | CD_OBSERVED | CD_ASSIGNED | CD_MESH
  | CD_AGREE | CD_ASSIGNED_ON | CD_EPOCH | CD_IMAGE

datatype epoch_cmp = CMP_NONE | CMP_EQ | CMP_GTE

record ex_cond =
  c_kind :: cond_kind
  c_line :: nat
  c_count :: int
  c_marker :: string
  c_on :: "int list"
  c_any :: bool
  c_workload :: bool
  c_text :: string
  c_obs :: int
  c_obs_kind :: ep_kind
  c_wl :: string
  c_node :: int
  c_cmp :: epoch_cmp
  c_epoch :: u64
  c_imgval :: string

definition cond0 :: "nat \<Rightarrow> ex_cond" where
  "cond0 line =
     \<lparr>c_kind = CD_PEERS, c_line = line, c_count = 0, c_marker = [], c_on = [], c_any = False,
      c_workload = False, c_text = [], c_obs = 0, c_obs_kind = EP_WELD, c_wl = [], c_node = 0,
      c_cmp = CMP_NONE, c_epoch = 0, c_imgval = []\<rparr>"

datatype step_kind =
    ST_DROP | ST_HEAL | ST_KILL | ST_RESTART | ST_MOVE | ST_SUBMIT | ST_STOP | ST_PUB | ST_SLOW
  | ST_UPDATE | ST_REPLAY | ST_DISKFILL | ST_DISKRO | ST_JCORRUPT | ST_BENCH | ST_ROSPUB
  | ST_PUSH

datatype drop_dir = DIR_OUT | DIR_IN | DIR_BOTH

text \<open>
  The fields of \<open>ExStep\<close> that only a ramp, a benchmark with \<open>send\<close> and \<open>expect\<close>, and an image
  push have are records of their own.
\<close>

record ramp_fields =
  ramp_start :: int
  ramp_step :: int
  ramp_step_dur :: int
  ramp_max_rate :: int
  ramp_max_steps :: int
  ramp_max_dur :: int
  ramp_loss_pct :: int
  ramp_has_loss :: bool
  ramp_p99 :: int
  ramp_has_p99 :: bool

record generic_fields =
  send_via :: string
  expect_via :: string
  send_tpl :: string
  exp_match :: string
  exp_field :: string
  exp_value :: string
  exp_metric :: string
  exp_op :: string
  exp_thresh :: rat
  exp_port :: int
  exp_path :: string

record push_fields =
  push_repo :: string
  push_tag :: string
  push_rootfs :: string
  push_entry :: string

record ex_step =
  s_kind :: step_kind
  s_line :: nat
  s_idx :: "int list"
  s_all :: bool
  s_node :: int
  s_sig :: int
  s_dur :: int
  s_xm :: rat
  s_image :: string
  s_flags :: string
  s_has_flags :: bool
  s_text :: string
  s_topic :: string
  s_has_topic :: bool
  s_as_name :: string
  s_has_as :: bool
  s_count :: int
  s_has_count :: bool
  s_fixed_id :: string
  s_has_id :: bool
  s_rate :: int
  s_has_rate :: bool
  s_has_fault :: bool
  s_loss :: rat
  s_delay_ns :: u64
  s_jitter_ns :: u64
  s_kbps :: u64
  s_dup_pct :: int
  s_dir :: drop_dir
  s_slow_secs :: int
  s_wl :: string
  s_file :: string
  s_mb :: u64
  s_ro :: bool
  s_duration_s :: int
  s_has_dur :: bool
  s_warmup :: int
  s_obs :: int
  s_from_kind :: ep_kind
  s_on_kind :: ep_kind
  s_pay_bytes :: u64
  s_has_pay :: bool
  s_has_echo :: bool
  s_echo_by :: int
  s_echo_node :: int
  s_echo_relay_kind :: ep_kind
  s_has_ramp :: bool
  s_ramp :: ramp_fields
  s_has_generic :: bool
  s_gen :: generic_fields
  s_push :: push_fields

definition step0 :: "nat \<Rightarrow> ex_step" where
  "step0 line =
     \<lparr>s_kind = ST_DROP, s_line = line, s_idx = [], s_all = False, s_node = 0, s_sig = 0,
      s_dur = 0, s_xm = 0, s_image = [], s_flags = [], s_has_flags = False, s_text = [],
      s_topic = [], s_has_topic = False, s_as_name = [], s_has_as = False, s_count = 0,
      s_has_count = False, s_fixed_id = [], s_has_id = False, s_rate = 0, s_has_rate = False,
      s_has_fault = False, s_loss = 0, s_delay_ns = 0, s_jitter_ns = 0, s_kbps = 0,
      s_dup_pct = 0, s_dir = DIR_OUT, s_slow_secs = 0, s_wl = [], s_file = [], s_mb = 0,
      s_ro = False, s_duration_s = 0, s_has_dur = False, s_warmup = 0, s_obs = 0,
      s_from_kind = EP_WELD, s_on_kind = EP_WELD, s_pay_bytes = 0, s_has_pay = False,
      s_has_echo = False, s_echo_by = 0, s_echo_node = 0, s_echo_relay_kind = EP_WELD,
      s_has_ramp = False,
      s_ramp = \<lparr>ramp_start = 0, ramp_step = 0, ramp_step_dur = 0, ramp_max_rate = 0,
        ramp_max_steps = 0, ramp_max_dur = 0, ramp_loss_pct = 0, ramp_has_loss = False,
        ramp_p99 = 0, ramp_has_p99 = False\<rparr>,
      s_has_generic = False,
      s_gen = \<lparr>send_via = [], expect_via = [], send_tpl = [], exp_match = [], exp_field = [],
        exp_value = [], exp_metric = [], exp_op = [], exp_thresh = 0, exp_port = 0,
        exp_path = []\<rparr>,
      s_push = \<lparr>push_repo = [], push_tag = [], push_rootfs = [], push_entry = []\<rparr>\<rparr>"

record ex_phase =
  ph_name_of :: string
  ph_line :: nat
  ph_steps :: "ex_step list"
  ph_has_until :: bool
  ph_cond :: ex_cond
  ph_hold_s :: int
  ph_timeout_s :: int
  ph_nomcast :: bool

text \<open>A path that is set for a node is a pair in \<open>bins\<close>, the latest first.\<close>

record ex_file =
  f_name :: string
  f_sut :: int
  f_nodes :: int
  f_domain :: int
  f_has_domain :: bool
  f_topic :: string
  f_has_topic :: bool
  f_has_spawn :: bool
  f_variant :: int
  f_snode :: int
  f_has_snode :: bool
  f_offset :: string
  f_has_offset :: bool
  f_needs :: "string list"
  f_timeout_s :: int
  f_ros :: "(int \<times> string) list"
  f_bins :: "(int \<times> string) list"
  f_disk_cap_mb :: u64
  f_isolate :: bool
  f_phases :: "ex_phase list"

definition file0 :: ex_file where
  "file0 =
     \<lparr>f_name = [], f_sut = 0, f_nodes = 0, f_domain = 0, f_has_domain = False, f_topic = [],
      f_has_topic = False, f_has_spawn = False, f_variant = 0, f_snode = 0, f_has_snode = False,
      f_offset = [], f_has_offset = False, f_needs = [], f_timeout_s = 0, f_ros = [],
      f_bins = [], f_disk_cap_mb = 0, f_isolate = True, f_phases = []\<rparr>"

definition needs_has :: "ex_file \<Rightarrow> string \<Rightarrow> bool" where
  "needs_has f s = (s \<in> set (f_needs f))"

section \<open>Keys\<close>

text \<open>The first key that is not to be kept decides.\<close>

fun extra_keys :: "string list \<Rightarrow> string \<Rightarrow> entries \<Rightarrow> unit lint" where
  "extra_keys keep what [] = Accept ()"
| "extra_keys keep what (e # es) =
     (if fst e \<in> set keep then extra_keys keep what es
      else if has_ramp (fst e) then ramp_bad (fst (snd e))
      else vunknown (fst (snd e)) what (fst e))"

fun entries_of :: "suite_node \<Rightarrow> entries" where
  "entries_of (Suite_Map l es) = es"
| "entries_of nd = []"

fun is_map :: "suite_node \<Rightarrow> bool" where
  "is_map (Suite_Map l es) = True"
| "is_map nd = False"

fun is_list :: "suite_node \<Rightarrow> bool" where
  "is_list (Suite_List l ns) = True"
| "is_list nd = False"

fun is_scalar :: "suite_node \<Rightarrow> bool" where
  "is_scalar (Suite_Scalar l s) = True"
| "is_scalar nd = False"

fun items_of :: "suite_node \<Rightarrow> suite_node list" where
  "items_of (Suite_List l ns) = ns"
| "items_of nd = []"

definition val_extra :: "suite_node \<Rightarrow> string list \<Rightarrow> string \<Rightarrow> unit lint" where
  "val_extra nd keep what = extra_keys keep what (entries_of nd)"

section \<open>Sets of nodes\<close>

text \<open>The loop over an index list, with the indices read so far.\<close>

fun read_indices :: "int \<Rightarrow> int list \<Rightarrow> suite_node list \<Rightarrow> int list lint" where
  "read_indices nodes acc [] = Accept acc"
| "read_indices nodes acc (it # its) =
     bind_lint (index_in nodes it) (\<lambda>x.
       if length acc \<ge> nat kMaxNodes then vbad (node_line it) ''too many indices''
       else read_indices nodes (acc @ [x]) its)"

text \<open>The indices, and whether it is \<open>all\<close>.\<close>

definition val_nodeset :: "suite_node \<Rightarrow> ex_file \<Rightarrow> (int list \<times> bool) lint" where
  "val_nodeset nd f =
     (if is_scalar nd then
        if \<not> scalar_eq nd ''all'' then vbad (node_line nd) (''want '' @ [SQ] @ ''all'' @ [SQ] @ '' or a list'')
        else Accept ([], True)
      else if \<not> is_list nd then vbad (node_line nd) (''want '' @ [SQ] @ ''all'' @ [SQ] @ '' or a list'')
      else if items_of nd = [] then vbad (node_line nd) ''empty index list''
      else bind_lint (read_indices (f_nodes f) [] (items_of nd)) (\<lambda>ix. Accept (ix, False)))"

datatype on_set = On_all | On_any | On_list "int list"

definition val_on :: "suite_node \<Rightarrow> ex_file \<Rightarrow> bool \<Rightarrow> on_set lint" where
  "val_on m f allow_any =
     req (find_key m ''on'') (node_line m) (''missing '' @ [SQ] @ ''on'' @ [SQ]) (\<lambda>nd.
       if is_scalar nd then
         if scalar_eq nd ''all'' then Accept On_all
         else if allow_any \<and> scalar_eq nd ''any'' then Accept On_any
         else vbad (node_line nd) (''bad '' @ [SQ] @ ''on'' @ [SQ] @ '' scalar'')
       else if \<not> is_list nd then vbad (node_line nd) (''bad '' @ [SQ] @ ''on'' @ [SQ] @ '' value'')
       else if items_of nd = [] then vbad (node_line nd) (''empty '' @ [SQ] @ ''on'' @ [SQ] @ '' list'')
       else bind_lint (read_indices (f_nodes f) [] (items_of nd)) (\<lambda>ix. Accept (On_list ix)))"

text \<open>The targets: all nodes, or the ones listed. \<open>any\<close> is not expanded.\<close>

fun expand_on :: "on_set \<Rightarrow> int \<Rightarrow> int list" where
  "expand_on On_all nodes = [0..nodes - 1]"
| "expand_on (On_list ix) nodes = ix"
| "expand_on On_any nodes = []"

definition is_listed :: "ex_step \<Rightarrow> int \<Rightarrow> bool" where
  "is_listed s k = (s_all s \<or> k \<in> set (s_idx s))"

definition val_wlref :: "suite_node \<Rightarrow> string lint" where
  "val_wlref m =
     opt (find_key m ''workload'') ''submitted'' (\<lambda>w.
       let s = suite_scalar_str (Some w) in
       if s = None \<or> \<not> wl_name_ok s then vbad (node_line w) ''bad workload name''
       else Accept (the s))"

text \<open>A pointer the code reads through without a test.\<close>

definition deref :: "'a ptr \<Rightarrow> ('a \<Rightarrow> 'b lint) \<Rightarrow> 'b lint" where
  "deref p k = req p 0 ''null pointer'' k"

lemma deref_Accept [simp]: "deref p k = Accept y \<longleftrightarrow> (\<exists>q. p = Some q \<and> k q = Accept y)"
  by (simp add: deref_def)

section \<open>Conditions\<close>

definition cond_peers :: "suite_node \<Rightarrow> ex_file \<Rightarrow> ex_cond lint" where
  "cond_peers m f =
     need (f_sut f = kConcord) (node_line m) ''peers is concord-only'' (
     bind_lint (val_extra m [''peers'', ''on''] ''condition'') (\<lambda>_.
     deref (find_key m ''peers'') (\<lambda>nd.
     bind_lint (int_in 1 kMaxNodes nd ''peers count out of range'') (\<lambda>n.
     need (n \<le> f_nodes f) (node_line nd) ''peers count above nodes'' (
     bind_lint (val_on m f False) (\<lambda>on.
     Accept ((cond0 (node_line m))
       \<lparr>c_kind := CD_PEERS, c_count := n, c_on := expand_on on (f_nodes f)\<rparr>)))))))"

definition cond_marker :: "suite_node \<Rightarrow> ex_file \<Rightarrow> ex_cond lint" where
  "cond_marker m f =
     bind_lint (val_extra m [''marker'', ''on''] ''condition'') (\<lambda>_.
     deref (find_key m ''marker'') (\<lambda>nd.
     bind_lint (text_in nonempty kTextLen nd ''marker must be a string'' ''marker too long'') (\<lambda>s.
     bind_lint (val_on m f True) (\<lambda>on.
     Accept ((cond0 (node_line m))
       \<lparr>c_kind := CD_MARKER, c_marker := s, c_any := (on = On_any),
        c_on := expand_on on (f_nodes f)\<rparr>)))))"

definition cond_present :: "string \<Rightarrow> suite_node \<Rightarrow> ex_file \<Rightarrow> ex_cond lint" where
  "cond_present hit m f =
     (let c = (cond0 (key_line m hit))
            \<lparr>c_kind := (if hit = ''present'' then CD_PRESENT else CD_ABSENT)\<rparr> in
     bind_lint (val_extra m [hit] ''condition'') (\<lambda>_.
     req (find_key m hit) (c_line c) ''present/absent need a mapping'' (\<lambda>nd.
     need (is_map nd) (c_line c) ''present/absent need a mapping'' (
     bind_lint (val_extra nd [''workload'', ''text'', ''on''] ''condition'') (\<lambda>_.
     let w = find_key nd ''workload''; t = find_key nd ''text'' in
     need (\<not> (w \<noteq> None \<and> t \<noteq> None)) (node_line nd) ''want workload or text'' (
     bind_lint
       (case (w, t) of
          (_, Some t) \<Rightarrow>
            need (f_sut f = kWeld) (node_line nd) ''text present is weld-only'' (
            bind_lint (text_in nonempty kTextLen t ''text must be a string'' ''text too long'') (\<lambda>s.
            Accept (c\<lparr>c_text := s, c_workload := False\<rparr>)))
        | _ \<Rightarrow>
            need (f_sut f = kConcord) (node_line nd) ''workload present is concord-only'' (
            bind_lint (val_wlref nd) (\<lambda>s. Accept (c\<lparr>c_wl := s, c_workload := True\<rparr>)))) (\<lambda>c.
     bind_lint (val_on nd f False) (\<lambda>on.
     Accept (c\<lparr>c_on := expand_on on (f_nodes f)\<rparr>)))))))))"

text \<open>One scalar index; a lone list item counts as a scalar.\<close>

definition lone :: "suite_node \<Rightarrow> suite_node option" where
  "lone w =
     (case w of
        Suite_List l [it] \<Rightarrow> Some it
      | Suite_Scalar l s \<Rightarrow> Some w
      | _ \<Rightarrow> None)"

text \<open>
  An endpoint that must have a capability: the reference is read, and its kind must have the
  verb the message names.
\<close>

definition endpoint ::
  "ex_file \<Rightarrow> suite_node \<Rightarrow> (ep_cap \<Rightarrow> bool) \<Rightarrow> string \<Rightarrow> string \<Rightarrow> (ep_kind \<times> int) lint" where
  "endpoint f nd able bad lacks =
     req (ep_parse_node (f_nodes f) (f_sut f) nd) (node_line nd) bad (\<lambda>(k, n).
     need (able (kEpCap k)) (node_line nd) (ep_name k @ lacks) (
     Accept (k, n)))"

lemma endpoint_Accept [simp]:
  "endpoint f nd able bad lacks = Accept kn \<longleftrightarrow>
     ep_parse_node (f_nodes f) (f_sut f) nd = Some kn \<and> able (kEpCap (fst kn))"
  by (cases kn) (auto simp: endpoint_def)

definition bad_endpoint :: string where
  "bad_endpoint = ''node index out of range or bad endpoint''"

definition cond_observed :: "suite_node \<Rightarrow> ex_file \<Rightarrow> ex_cond lint" where
  "cond_observed m f =
     (let c = (cond0 (key_line m ''observed''))\<lparr>c_kind := CD_OBSERVED\<rparr> in
     bind_lint (val_extra m [''observed''] ''condition'') (\<lambda>_.
     req (find_key m ''observed'') (c_line c) ''observed needs a mapping'' (\<lambda>nd.
     need (is_map nd) (c_line c) ''observed needs a mapping'' (
     bind_lint (val_extra nd [''on'', ''text''] ''condition'') (\<lambda>_.
     req (find_key nd ''on'') (node_line nd) ''observed needs on plus text'' (\<lambda>w.
     req (find_key nd ''text'') (node_line nd) ''observed needs on plus text'' (\<lambda>t.
     req (lone w) (node_line w) ''observed on must be a scalar node index'' (\<lambda>wi.
     bind_lint (endpoint f wi (\<lambda>e. obs_weld e \<or> obs_ros e) bad_endpoint '' cannot observe: no log verb'') (\<lambda>(k, n).
     bind_lint (text_in nonempty kTextLen t ''text must be a string'' ''text too long'') (\<lambda>s.
     Accept (c\<lparr>c_obs := n, c_obs_kind := k, c_text := s\<rparr>)))))))))))"

text \<open>The conditions that hold a mapping with a workload and more.\<close>

definition cond_map :: "cond_kind \<Rightarrow> string \<Rightarrow> string list \<Rightarrow> suite_node \<Rightarrow> ex_file \<Rightarrow>
  (suite_node \<Rightarrow> ex_cond \<Rightarrow> ex_cond lint) \<Rightarrow> ex_cond lint" where
  "cond_map kind hit keep m f k =
     need (f_sut f = kConcord) (node_line m) (hit @ '' is concord-only'') (
     let c = (cond0 (key_line m hit))\<lparr>c_kind := kind\<rparr> in
     bind_lint (val_extra m [hit] ''condition'') (\<lambda>_.
     req (find_key m hit) (c_line c) (hit @ '' needs a mapping'') (\<lambda>nd.
     need (is_map nd) (c_line c) (hit @ '' needs a mapping'') (
     bind_lint (val_extra nd keep ''condition'') (\<lambda>_.
     bind_lint (val_wlref nd) (\<lambda>s.
     k nd (c\<lparr>c_wl := s\<rparr>)))))))"

definition cond_assigned :: "suite_node \<Rightarrow> ex_file \<Rightarrow> ex_cond lint" where
  "cond_assigned m f = cond_map CD_ASSIGNED ''assigned'' [''workload''] m f (\<lambda>nd c. Accept c)"

definition cond_agree :: "suite_node \<Rightarrow> ex_file \<Rightarrow> ex_cond lint" where
  "cond_agree m f = cond_map CD_AGREE ''agree'' [''workload''] m f (\<lambda>nd c. Accept c)"

definition cond_assigned_on :: "suite_node \<Rightarrow> ex_file \<Rightarrow> ex_cond lint" where
  "cond_assigned_on m f =
     cond_map CD_ASSIGNED_ON ''assigned_on'' [''workload'', ''node''] m f (\<lambda>nd c.
     req (find_key nd ''node'') (node_line nd) ''assigned_on needs node'' (\<lambda>a.
     bind_lint (index_in (f_nodes f) a) (\<lambda>x. Accept (c\<lparr>c_node := x\<rparr>))))"

definition cond_epoch :: "suite_node \<Rightarrow> ex_file \<Rightarrow> ex_cond lint" where
  "cond_epoch m f =
     cond_map CD_EPOCH ''epoch'' [''workload'', ''node'', ''eq'', ''gte''] m f (\<lambda>nd c.
     req (find_key nd ''node'') (node_line nd) ''epoch needs node'' (\<lambda>a.
     bind_lint (index_in (f_nodes f) a) (\<lambda>x.
     let c = c\<lparr>c_node := x\<rparr>; q = find_key nd ''eq''; g = find_key nd ''gte'' in
     need (\<not> (q \<noteq> None \<and> g \<noteq> None)) (node_line nd) ''epoch takes eq or gte, not both'' (
     bind_lint (opt q c (\<lambda>q.
       bind_lint (int_in 0 LLONG_MAX q ''epoch eq must be 0 or more'') (\<lambda>x.
       Accept (c\<lparr>c_cmp := CMP_EQ, c_epoch := of_int x\<rparr>)))) (\<lambda>c.
     opt g c (\<lambda>g.
       bind_lint (int_in 0 LLONG_MAX g ''epoch gte must be 0 or more'') (\<lambda>x.
       Accept (c\<lparr>c_cmp := CMP_GTE, c_epoch := of_int x\<rparr>))))))))"

definition cond_image :: "suite_node \<Rightarrow> ex_file \<Rightarrow> ex_cond lint" where
  "cond_image m f =
     cond_map CD_IMAGE ''image'' [''workload'', ''value'', ''on''] m f (\<lambda>nd c.
     req (find_key nd ''value'') (node_line nd) ''image needs value'' (\<lambda>a.
     bind_lint (text_in image_ok 128 a ''bad image ref'' ''image too long'') (\<lambda>t.
     bind_lint (val_on nd f False) (\<lambda>on.
     Accept (c\<lparr>c_imgval := t, c_on := expand_on on (f_nodes f)\<rparr>)))))"

definition cond_mesh :: "suite_node \<Rightarrow> ex_file \<Rightarrow> ex_cond lint" where
  "cond_mesh m f =
     bind_lint (val_extra m [''mesh_count''] ''condition'') (\<lambda>_.
     deref (find_key m ''mesh_count'') (\<lambda>nd.
     bind_lint (int_in 1 kMaxNodes nd ''mesh_count out of range'') (\<lambda>n.
     need (n \<le> f_nodes f) (node_line nd) ''mesh_count above nodes'' (
     Accept ((cond0 (key_line m ''mesh_count''))\<lparr>c_kind := CD_MESH, c_count := n\<rparr>)))))"

definition known_conds :: "string list" where
  "known_conds =
     [''peers'', ''marker'', ''present'', ''absent'', ''observed'', ''assigned'', ''mesh_count'',
      ''agree'', ''assigned_on'', ''epoch'', ''image'']"

text \<open>The keys the loop puts in \<open>hit\<close>, which has room for eleven.\<close>

fun cond_hits :: "entries \<Rightarrow> string list lint" where
  "cond_hits [] = Accept []"
| "cond_hits (e # es) =
     (if fst e = ''on'' then cond_hits es
      else if has_ramp (fst e) then ramp_bad (fst (snd e))
      else if fst e \<notin> set known_conds then vunknown (fst (snd e)) ''condition'' (fst e)
      else bind_lint (cond_hits es) (\<lambda>hs. Accept (fst e # hs)))"

definition val_cond :: "suite_node \<Rightarrow> ex_file \<Rightarrow> ex_cond lint" where
  "val_cond m f =
     need (is_map m) (node_line m) ''condition must be a mapping'' (
     bind_lint (cond_hits (entries_of m)) (\<lambda>hits.
     (case hits of
        [] \<Rightarrow> vbad (node_line m) ''empty condition''
      | _ # _ # _ \<Rightarrow> vbad (node_line m) ''one condition per phase in v1 (chain phases for AND)''
      | [h] \<Rightarrow>
          if h = ''peers'' then cond_peers m f
          else if h = ''marker'' then cond_marker m f
          else if h = ''present'' \<or> h = ''absent'' then cond_present h m f
          else if h = ''observed'' then cond_observed m f
          else if h = ''assigned'' then cond_assigned m f
          else if h = ''agree'' then cond_agree m f
          else if h = ''assigned_on'' then cond_assigned_on m f
          else if h = ''epoch'' then cond_epoch m f
          else if h = ''image'' then cond_image m f
          else cond_mesh m f)))"

text \<open>The key array never overflows on a document the parser accepts, whose keys differ.\<close>

lemma cond_hits_filter:
  "cond_hits es = Accept hs \<Longrightarrow> hs = filter (\<lambda>k. k \<noteq> ''on'') (map fst es) \<and> list_all (\<lambda>k. k \<in> set known_conds) hs"
  by (induction es arbitrary: hs) (auto split: if_splits)

lemma cond_hits_fit:
  assumes "cond_hits es = Accept hs" "distinct (map fst es)"
  shows "length hs \<le> 11"
proof -
  have d: "distinct hs" and s: "set hs \<subseteq> set known_conds"
    using cond_hits_filter [OF assms(1)] assms(2) by (simp_all add: list_all_iff subset_iff)
  have "length hs = card (set hs)" using d by (simp add: distinct_card)
  also have "\<dots> \<le> card (set known_conds)" by (rule card_mono) (simp_all add: s)
  also have "\<dots> \<le> length known_conds" by (rule card_length)
  finally show ?thesis by (simp add: known_conds_def)
qed

end
