(* ===== verification/Lint_Step.thy ===== *)
theory Lint_Step
  imports Lint_Cond
begin

text \<open>
  The linter of a step, \<open>val_step\<close> of \<open>suite/exec.c\<close> with \<open>val_ramp\<close> and
  \<open>val_bench_generic\<close>: a definition for each of the verbs. The checks a benchmark and its
  generic form repeat (load, ramp, echo, payload, flags) are definitions of their own. \<open>line\<close>
  is the line of the verb, \<open>s\<close> the step as filled in so far.
\<close>

definition kBenchWeld :: int where "kBenchWeld = 1000"
definition kBenchConc :: int where "kBenchConc = 100"
definition kBenchBytes :: int where "kBenchBytes = 65536"
definition kRampSteps :: int where "kRampSteps = 10"
definition SIGKILL :: int where "SIGKILL = 9"
definition SIGTERM :: int where "SIGTERM = 15"

section \<open>Shared fields\<close>

definition has :: "suite_node \<Rightarrow> string \<Rightarrow> bool" where
  "has val key = (find_key val key \<noteq> None)"

text \<open>A number that must be there; the message is the same when it is missing.\<close>

definition req_int :: "suite_node \<Rightarrow> string \<Rightarrow> int \<Rightarrow> int \<Rightarrow> string \<Rightarrow> int lint" where
  "req_int nd key lo hi msg = req (find_key nd key) (node_line nd) msg (\<lambda>q. int_in lo hi q msg)"

definition val_topic :: "suite_node \<Rightarrow> ex_step \<Rightarrow> ex_step lint" where
  "val_topic q s =
     bind_lint (text_in topic_ok 128 q ''bad topic'' ''topic too long'') (\<lambda>t.
     Accept (s\<lparr>s_topic := t, s_has_topic := True\<rparr>))"

definition val_image :: "suite_node \<Rightarrow> ex_step \<Rightarrow> ex_step lint" where
  "val_image q s =
     bind_lint (text_in image_ok 128 q ''bad image ref'' ''image too long'') (\<lambda>t.
     Accept (s\<lparr>s_image := t\<rparr>))"

definition val_as :: "suite_node \<Rightarrow> ex_step \<Rightarrow> ex_step lint" where
  "val_as q s =
     bind_lint (text_in wl_name_ok kWlLen q ''bad workload name'' ''workload name too long'') (\<lambda>t.
     Accept (s\<lparr>s_as_name := t, s_has_as := True\<rparr>))"

definition val_flags :: "suite_node \<Rightarrow> ex_step \<Rightarrow> ex_step lint" where
  "val_flags q s =
     need (suite_scalar_str (Some q) \<noteq> None) (node_line q) ''flags must be a string'' (
     bind_lint (text_in flags_ok 128 q ''bad flags'' ''flags too long'') (\<lambda>t.
     Accept (s\<lparr>s_flags := t, s_has_flags := True\<rparr>)))"

definition val_rate :: "suite_node \<Rightarrow> ex_step \<Rightarrow> ex_step lint" where
  "val_rate q s =
     bind_lint (int_in 1 kMaxRate q ''rate must be 1..1000000'') (\<lambda>x.
     Accept (s\<lparr>s_rate := x, s_has_rate := True\<rparr>))"

definition val_payload :: "suite_node \<Rightarrow> ex_step \<Rightarrow> ex_step lint" where
  "val_payload q s =
     bind_lint (int_in 0 kBenchBytes q ''payload_bytes must be 0..65536'') (\<lambda>x.
     Accept (if x > 0 then s\<lparr>s_pay_bytes := of_int x, s_has_pay := True\<rparr> else s))"

text \<open>A benchmark text, or with other messages a body: not empty and not an old tag.\<close>

definition val_text :: "suite_node \<Rightarrow> string \<Rightarrow> string \<Rightarrow> ex_step \<Rightarrow> ex_step lint" where
  "val_text q bad long s =
     (let t = suite_scalar_str (Some q) in
      need (nonempty t) (node_line q) bad (
      need (\<not> old_tag (the t)) (node_line q) ''old bench tag: use bench#seq#send_ns#text'' (
      bind_lint (text_in nonempty kTextLen q bad long) (\<lambda>t.
      Accept (s\<lparr>s_text := t\<rparr>)))))"

definition val_wl :: "suite_node ptr \<Rightarrow> ex_step \<Rightarrow> ex_step lint" where
  "val_wl p s =
     (case p of
        None \<Rightarrow> Accept (s\<lparr>s_wl := ''submitted''\<rparr>)
      | Some a \<Rightarrow>
          bind_lint (text_in wl_name_ok kWlLen a ''bad workload name'' ''workload name too long'') (\<lambda>t.
          Accept (s\<lparr>s_wl := t\<rparr>)))"

section \<open>Ramps\<close>

definition val_ramp :: "suite_node \<Rightarrow> ex_step \<Rightarrow> int \<Rightarrow> ex_step lint" where
  "val_ramp nd s fam_cap =
     need (is_map nd) (node_line nd) ''ramp needs a mapping'' (
     bind_lint (val_extra nd [''start_rate'', ''step_rate'', ''step_duration_s'', ''max_rate'',
       ''max_steps'', ''max_duration_s'', ''loss_pct'', ''p99_ms''] ''ramp key'') (\<lambda>_.
     bind_lint (req_int nd ''start_rate'' 1 kMaxRate ''start_rate must be 1..1000000'') (\<lambda>start.
     bind_lint (req_int nd ''step_rate'' 1 kMaxRate ''step_rate must be 1..1000000'') (\<lambda>step.
     bind_lint (req_int nd ''step_duration_s'' 1 kMaxTimeoutS ''step_duration_s must be 1..3600'') (\<lambda>dur.
     req (find_key nd ''max_rate'') (node_line nd) ''max_rate must be 1..1000000'' (\<lambda>q.
     bind_lint (int_in 1 kMaxRate q ''max_rate must be 1..1000000'') (\<lambda>rate.
     need (\<not> rate < start) (node_line q) ''max_rate below start_rate'' (
     bind_lint (req_int nd ''max_steps'' 1 kRampSteps ''max_steps must be 1..10'') (\<lambda>steps.
     bind_lint (req_int nd ''max_duration_s'' 1 kMaxTimeoutS ''max_duration_s must be 1..3600'') (\<lambda>total.
     let r = (s_ramp s)\<lparr>ramp_start := start, ramp_step := step, ramp_step_dur := dur,
               ramp_max_rate := rate, ramp_max_steps := steps, ramp_max_dur := total\<rparr> in
     bind_lint (opt (find_key nd ''loss_pct'') r (\<lambda>q.
       bind_lint (int_in 0 100 q ''loss_pct must be 0..100'') (\<lambda>x.
       Accept (r\<lparr>ramp_loss_pct := x, ramp_has_loss := True\<rparr>)))) (\<lambda>r.
     bind_lint (opt (find_key nd ''p99_ms'') r (\<lambda>q.
       bind_lint (int_in 0 kMaxMs q ''p99_ms must be 0..3600000'') (\<lambda>x.
       Accept (r\<lparr>ramp_p99 := x, ramp_has_p99 := True\<rparr>)))) (\<lambda>r.
     need (ramp_has_loss r \<or> ramp_has_p99 r) (node_line nd) ''ramp needs loss_pct or p99_ms'' (
     let prod = of_int rate * of_int dur :: u64 in
     need (\<not> prod > of_int fam_cap) (node_line nd) ''ramp step too large'' (
     need (\<not> (fam_cap = kBenchConc \<and> of_int steps * prod > of_nat kMaxWl)) (node_line nd)
       ''ramp too many workloads'' (
     Accept (s\<lparr>s_ramp := r, s_has_ramp := True\<rparr>))))))))))))))))"

text \<open>The \<open>ramp:\<close> block of a benchmark, which takes the place of rate, count and duration.\<close>

definition val_bench_ramp :: "suite_node \<Rightarrow> nat \<Rightarrow> int \<Rightarrow> ex_step \<Rightarrow> ex_step lint" where
  "val_bench_ramp val line cap s =
     opt (find_key val ''ramp'') s (\<lambda>rm.
     need (\<not> has val ''rate'') line ''ramp forbids rate: use ramp start'' (
     need (\<not> has val ''count'') line ''ramp forbids count: use ramp steps'' (
     need (\<not> has val ''duration_s'') line ''ramp forbids duration_s'' (
     need (\<not> has val ''warmup'') line ''ramp forbids warmup'' (
     val_ramp rm s cap)))))"

text \<open>Rate, count, duration and warmup, when there is no ramp.\<close>

definition val_load :: "suite_node \<Rightarrow> nat \<Rightarrow> int \<Rightarrow> ex_step \<Rightarrow> ex_step lint" where
  "val_load val line cap s =
     req (find_key val ''rate'') line ''benchmark needs rate'' (\<lambda>q.
     bind_lint (val_rate q s) (\<lambda>s.
     bind_lint (opt (find_key val ''count'') s (\<lambda>q.
       bind_lint (int_in 1 cap q ''benchmark count out of range'') (\<lambda>x.
       Accept (s\<lparr>s_count := x, s_has_count := True\<rparr>)))) (\<lambda>s.
     bind_lint (opt (find_key val ''duration_s'') s (\<lambda>q.
       bind_lint (int_in 1 kMaxTimeoutS q ''duration_s must be 1..3600'') (\<lambda>x.
       Accept (s\<lparr>s_duration_s := x, s_has_dur := True\<rparr>)))) (\<lambda>s.
     need (s_has_count s \<or> s_has_dur s) line ''benchmark needs count or duration_s'' (
     bind_lint (opt (find_key val ''warmup'') s (\<lambda>q.
       bind_lint (int_in 0 kBenchWeld q ''warmup must be 0..1000'') (\<lambda>x.
       Accept (s\<lparr>s_warmup := x\<rparr>)))) (\<lambda>s.
     need (\<not> (s_has_count s \<and> s_warmup s \<ge> s_count s)) line ''warmup must be below count'' (
     need (\<not> (s_has_dur s \<and> (of_int (s_rate s) * of_int (s_duration_s s) :: u64) > of_int cap)) line
       ''benchmark too large'' (
     Accept s))))))))"

section \<open>Echo\<close>

definition val_echo :: "suite_node \<Rightarrow> ex_file \<Rightarrow> ex_step \<Rightarrow> ex_step lint" where
  "val_echo val f s =
     opt (find_key val ''echo'') s (\<lambda>e.
     need (is_map e) (node_line e) ''echo needs a mapping'' (
     bind_lint (val_extra e [''by'', ''node''] ''step'') (\<lambda>_.
     req (find_key e ''by'') (node_line e) ''echo needs by plus node'' (\<lambda>by'.
     req (find_key e ''node'') (node_line e) ''echo needs by plus node'' (\<lambda>en.
     req (suite_scalar_str (Some by')) (node_line by') ''by must be weld, ros or concord'' (\<lambda>ts.
     req (if ts = ''weld'' then Some (0, EP_WELD)
          else if ts = ''ros'' then Some (1, EP_ROS)
          else if ts = ''concord'' then Some (2, EP_CONCORD)
          else None) (node_line by') ''by must be weld, ros or concord'' (\<lambda>(code, bk).
     need (obs_weld (kEpCap bk) \<or> obs_ros (kEpCap bk)) (node_line by')
       (ep_name bk @ '' cannot observe: no log verb'') (
     bind_lint (endpoint f en relay bad_endpoint '' cannot relay: no relay verb'') (\<lambda>(rk, rn).
     need (needs_has f ''relay.echo'') (node_line e) ''echo needs relay.echo need'' (
     Accept (s\<lparr>s_echo_by := code, s_echo_node := rn, s_echo_relay_kind := rk, s_has_echo := True\<rparr>)))))))))))"

section \<open>Benchmarks with \<open>send\<close> and \<open>expect\<close>\<close>

text \<open>The via of \<open>send\<close> or \<open>expect\<close>: it must be in the table, on the side wanted.\<close>

definition val_via :: "bool \<Rightarrow> suite_node \<Rightarrow> string \<Rightarrow> string lint" where
  "val_via send t wrong =
     (case suite_scalar_str (Some t) of
        None \<Rightarrow> via_bad (node_line t) []
      | Some vs \<Rightarrow>
          (case probe_of vs of
             None \<Rightarrow> via_bad (node_line t) vs
           | Some p \<Rightarrow>
               need (sends p = send) (node_line t) (ellipsize 96 (vs @ wrong)) (
               text_in nonempty 32 t ''via too long'' ''via too long'')))"

text \<open>What a publishing \<open>send\<close> says beside its node and via.\<close>

definition gen_pub :: "suite_node \<Rightarrow> ex_file \<Rightarrow> ex_step \<Rightarrow> ex_step lint" where
  "gen_pub sn f s =
     need (\<not> has sn ''image'') (node_line sn) ''weld-pub forbids image'' (
     need (\<not> has sn ''flags'') (node_line sn) ''weld-pub forbids flags'' (
     need (\<not> has sn ''as'') (node_line sn) ''weld-pub forbids as'' (
     need (\<not> (send_via (s_gen s) = ''ros-pub'' \<and> has sn ''image'')) (node_line sn) ''ros-pub forbids image'' (
     need (has sn ''body'' \<or> has sn ''payload_bytes'') (node_line sn)
       (ellipsize 96 (send_via (s_gen s) @ '' needs body or payload_bytes'')) (
     bind_lint (opt (find_key sn ''body'') (s\<lparr>s_text := []\<rparr>) (\<lambda>b.
       val_text b ''body must be a string'' ''body too long'' s)) (\<lambda>s.
     bind_lint (opt (find_key sn ''payload_bytes'') s (\<lambda>pb. val_payload pb s)) (\<lambda>s.
     bind_lint (opt (find_key sn ''payload'') s (\<lambda>pl.
       let ts = suite_scalar_str (Some pl) in
       need (nonempty ts) (node_line pl) ''payload must be a string'' (
       bind_lint (ph_ok (node_line pl) False (the ts)) (\<lambda>_.
       bind_lint (text_in nonempty 512 pl ''payload must be a string'' ''payload too long'') (\<lambda>t.
       Accept (s\<lparr>s_gen := (s_gen s)\<lparr>send_tpl := t\<rparr>\<rparr>)))))) (\<lambda>s.
     bind_lint (opt (find_key sn ''topic'') s (\<lambda>tp. val_topic tp s)) (\<lambda>s.
     need (\<not> (send_via (s_gen s) = ''ros-pub'' \<and> \<not> needs_has f ''ros.pub'')) (node_line sn)
       ''ros publish needs ros.pub need'' (
     Accept s))))))))))"

text \<open>What a submitting \<open>send\<close> says.\<close>

definition gen_submit :: "suite_node \<Rightarrow> ex_step \<Rightarrow> ex_step lint" where
  "gen_submit sn s =
     need (\<not> has sn ''topic'') (node_line sn) ''workload-submit forbids topic'' (
     need (\<not> has sn ''body'') (node_line sn) ''workload-submit forbids body'' (
     need (\<not> has sn ''payload'') (node_line sn) ''workload-submit forbids payload'' (
     need (\<not> has sn ''payload_bytes'') (node_line sn) ''workload-submit forbids payload_bytes'' (
     req (find_key sn ''image'') (node_line sn) ''workload-submit needs image plus as'' (\<lambda>b.
     req (find_key sn ''as'') (node_line sn) ''workload-submit needs image plus as'' (\<lambda>c.
     bind_lint (val_image b s) (\<lambda>s.
     bind_lint (val_as c s) (\<lambda>s.
     opt (find_key sn ''flags'') s (\<lambda>fl. val_flags fl s)))))))))"

definition gen_send :: "suite_node \<Rightarrow> ex_file \<Rightarrow> ex_step \<Rightarrow> ex_step lint" where
  "gen_send sn f s =
     req (find_key sn ''node'') (node_line sn) ''send needs node plus via'' (\<lambda>a.
     req (find_key sn ''via'') (node_line sn) ''send needs node plus via'' (\<lambda>t.
     bind_lint (index_in (f_nodes f) a) (\<lambda>x.
     bind_lint (val_via True t '' is observe-only'') (\<lambda>vs.
     let s = s\<lparr>s_node := x, s_gen := (s_gen s)\<lparr>send_via := vs\<rparr>,
               s_from_kind := (if vs = ''workload-submit'' then EP_CONCORD
                               else if vs = ''ros-pub'' then EP_ROS else EP_WELD)\<rparr> in
     if vs = ''workload-submit'' then gen_submit sn s else gen_pub sn f s))))"

text \<open>What each observer is to match.\<close>

definition match_journal :: "suite_node \<Rightarrow> bool \<Rightarrow> ex_step \<Rightarrow> ex_step lint" where
  "match_journal m allow_wid s =
     need (is_map m) (node_line m) ''journal-has needs match mapping'' (
     bind_lint (val_extra m [''field'', ''value''] ''step'') (\<lambda>_.
     req (find_key m ''field'') (node_line m) ''journal-has needs field plus value'' (\<lambda>fd.
     req (find_key m ''value'') (node_line m) ''journal-has needs field plus value'' (\<lambda>vl.
     let fs = suite_scalar_str (Some fd); vv = suite_scalar_str (Some vl) in
     need (fs \<in> {Some ''AssignedNodeID'', Some ''AssignmentEpoch'', Some ''Image''}) (node_line fd)
       ''journal-has needs field AssignedNodeID, AssignmentEpoch, or Image'' (
     need (nonempty vv) (node_line vl) ''journal-has needs value'' (
     bind_lint (ph_ok (node_line vl) allow_wid (the vv)) (\<lambda>_.
     bind_lint (text_in nonempty 64 fd ''field too long'' ''field too long'') (\<lambda>fs.
     bind_lint (text_in nonempty 256 vl ''value too long'' ''value too long'') (\<lambda>vv.
     Accept (s\<lparr>s_gen := (s_gen s)\<lparr>exp_field := fs, exp_value := vv\<rparr>\<rparr>))))))))))"

definition match_running :: "suite_node \<Rightarrow> ex_step \<Rightarrow> ex_step lint" where
  "match_running m s =
     need (is_scalar m) (node_line m) ''workload-running needs match running'' (
     need (scalar_eq m ''running'') (node_line m) ''workload-running needs match running'' (
     bind_lint (text_in nonempty 256 m ''match too long'' ''match too long'') (\<lambda>ms.
     Accept (s\<lparr>s_gen := (s_gen s)\<lparr>exp_match := ms\<rparr>\<rparr>))))"

definition match_scrape :: "suite_node \<Rightarrow> ex_step \<Rightarrow> ex_step lint" where
  "match_scrape m s =
     need (is_map m) (node_line m) ''prometheus-scrape needs match mapping'' (
     bind_lint (val_extra m [''metric'', ''op'', ''value'', ''port'', ''path''] ''step'') (\<lambda>_.
     let msg = ''prometheus-scrape needs metric plus op plus value plus port'' in
     req (find_key m ''metric'') (node_line m) msg (\<lambda>mm.
     req (find_key m ''op'') (node_line m) msg (\<lambda>op.
     req (find_key m ''value'') (node_line m) msg (\<lambda>vv.
     req (find_key m ''port'') (node_line m) msg (\<lambda>pt.
     need (scrape_metric_ok (suite_scalar_str (Some mm))) (node_line mm) ''bad metric name'' (
     need (scrape_op_ok (suite_scalar_str (Some op))) (node_line op)
       ''bad op: want eq, ne, lt, le, gt, ge'' (
     req (float_of (suite_scalar_str (Some vv))) (node_line vv) ''bad value: want number'' (\<lambda>thresh.
     bind_lint (int_in 1 65535 pt ''bad port: want 1..65535'') (\<lambda>port.
     bind_lint (opt (find_key m ''path'') ''/metrics'' (\<lambda>ph.
       text_in scrape_path_ok 128 ph ''bad path: want /metrics style'' ''path too long'')) (\<lambda>ps.
     bind_lint (text_in scrape_metric_ok 128 mm ''metric too long'' ''metric too long'') (\<lambda>ms.
     bind_lint (text_in scrape_op_ok 8 op ''op too long'' ''op too long'') (\<lambda>os.
     Accept (s\<lparr>s_gen := (s_gen s)\<lparr>exp_path := ps, exp_metric := ms, exp_op := os,
       exp_thresh := thresh, exp_port := port\<rparr>\<rparr>))))))))))))))"

definition match_text :: "suite_node \<Rightarrow> bool \<Rightarrow> ex_step \<Rightarrow> ex_step lint" where
  "match_text m allow_wid s =
     need (is_scalar m) (node_line m) ''match must be a string'' (
     let ms = suite_scalar_str (Some m) in
     need (nonempty ms) (node_line m) (ellipsize 96 (expect_via (s_gen s) @ '' needs match'')) (
     need (\<not> old_tag (the ms)) (node_line m) ''old bench tag: use bench#seq#send_ns#text'' (
     bind_lint (ph_ok (node_line m) allow_wid (the ms)) (\<lambda>_.
     bind_lint (text_in nonempty 256 m ''match too long'' ''match too long'') (\<lambda>ms.
     Accept (s\<lparr>s_gen := (s_gen s)\<lparr>exp_match := ms\<rparr>\<rparr>))))))"

definition gen_expect :: "suite_node \<Rightarrow> ex_file \<Rightarrow> bool \<Rightarrow> ex_step \<Rightarrow> ex_step lint" where
  "gen_expect ex f allow_wid s =
     req (find_key ex ''node'') (node_line ex) ''expect needs node plus via plus match'' (\<lambda>a.
     req (find_key ex ''via'') (node_line ex) ''expect needs node plus via plus match'' (\<lambda>t.
     req (find_key ex ''match'') (node_line ex) ''expect needs node plus via plus match'' (\<lambda>m.
     bind_lint (index_in (f_nodes f) a) (\<lambda>x.
     bind_lint (val_via False t '' is send-only'') (\<lambda>vs.
     let s = s\<lparr>s_obs := x, s_gen := (s_gen s)\<lparr>expect_via := vs\<rparr>,
               s_on_kind := (if vs = ''ros-log-contains'' then EP_ROS
                             else if vs = ''log-contains'' then EP_WELD
                             else if vs = ''prometheus-scrape'' then sut_def_ep (f_sut f)
                             else EP_CONCORD)\<rparr> in
     if vs = ''journal-has'' then match_journal m allow_wid s
     else if vs = ''workload-running'' then match_running m s
     else if vs = ''prometheus-scrape'' then match_scrape m s
     else match_text m allow_wid s)))))"

definition name_too_long :: "ex_step \<Rightarrow> bool" where
  "name_too_long s = (length (s_as_name s) + 4 > kWlLen)"

definition val_bench_generic :: "suite_node \<Rightarrow> ex_file \<Rightarrow> nat \<Rightarrow> ex_step \<Rightarrow> ex_step lint" where
  "val_bench_generic val f line s =
     need (is_map val) line ''benchmark needs a mapping'' (
     bind_lint (val_extra val [''send'', ''expect'', ''rate'', ''count'', ''duration_s'', ''warmup'',
       ''echo'', ''ramp''] ''step'') (\<lambda>_.
     req (find_key val ''send'') line ''benchmark needs send plus expect'' (\<lambda>sn.
     req (find_key val ''expect'') line ''benchmark needs send plus expect'' (\<lambda>ex.
     need (is_map sn) (node_line sn) ''send needs a mapping'' (
     need (is_map ex) (node_line ex) ''expect needs a mapping'' (
     bind_lint (val_extra sn [''node'', ''via'', ''topic'', ''image'', ''flags'', ''as'', ''body'',
       ''payload'', ''payload_bytes''] ''step'') (\<lambda>_.
     bind_lint (val_extra ex [''node'', ''via'', ''match''] ''step'') (\<lambda>_.
     bind_lint (gen_send sn f s) (\<lambda>s.
     let is_c = (send_via (s_gen s) = ''workload-submit'');
         cap = (if is_c then kBenchConc else kBenchWeld) in
     bind_lint (gen_expect ex f is_c s) (\<lambda>s.
     bind_lint (val_bench_ramp val line cap s) (\<lambda>s.
     bind_lint
       (if s_has_ramp s then Accept s
        else
          bind_lint (val_load val line cap s) (\<lambda>s.
          need (\<not> (s_has_count s \<and> is_c \<and> name_too_long s)) line ''workload name too long for count'' (
          need (\<not> (s_has_dur s \<and> is_c \<and> name_too_long s)) line ''workload name too long for count'' (
          need (\<not> (s_has_ramp s \<and> is_c \<and> name_too_long s)) line ''workload name too long for count'' (
          Accept s))))) (\<lambda>s.
     bind_lint (val_echo val f s) (\<lambda>s.
     Accept (s\<lparr>s_has_generic := True\<rparr>))))))))))))))"

section \<open>Benchmarks\<close>

definition conc_keys :: "suite_node \<Rightarrow> bool" where
  "conc_keys val = (has val ''node'' \<or> has val ''image'' \<or> has val ''as'' \<or> has val ''flags'')"

definition weld_keys :: "suite_node \<Rightarrow> bool" where
  "weld_keys val = (has val ''from'' \<or> has val ''on'' \<or> has val ''text'' \<or> has val ''topic'' \<or>
     has val ''echo'' \<or> has val ''payload_bytes'')"

text \<open>The cap of count and duration leaves \<open>flags\<close> out of the keys it looks for.\<close>

definition load_cap :: "suite_node \<Rightarrow> int" where
  "load_cap val = (if has val ''node'' \<or> has val ''image'' \<or> has val ''as'' then kBenchConc else kBenchWeld)"

definition bench_weld :: "suite_node \<Rightarrow> ex_file \<Rightarrow> nat \<Rightarrow> ex_step \<Rightarrow> ex_step lint" where
  "bench_weld val f line s =
     (let msg = ''benchmark needs from plus text plus on'' in
     need (\<not> has val ''node'') line ''node is concord-only'' (
     need (\<not> has val ''image'') line ''image is concord-only'' (
     need (\<not> has val ''flags'') line ''flags is concord-only'' (
     need (\<not> has val ''as'') line ''as is concord-only'' (
     req (find_key val ''from'') line msg (\<lambda>a.
     req (find_key val ''on'') line msg (\<lambda>w.
     need (has val ''text'' \<or> s_has_pay s) line msg (
     bind_lint (endpoint f a (\<lambda>e. pub_weld e \<or> pub_ros e) bad_endpoint '' cannot publish: no pub verb'') (\<lambda>(fk, fn).
     need (\<not> (fk = EP_ROS \<and> \<not> needs_has f ''ros.pub'')) (node_line a) ''ros publish needs ros.pub need'' (
     let s = s\<lparr>s_node := fn, s_from_kind := fk\<rparr> in
     bind_lint (opt (find_key val ''text'') (s\<lparr>s_text := []\<rparr>) (\<lambda>b.
       val_text b ''text must be a string'' ''text too long'' s)) (\<lambda>s.
     bind_lint (opt (find_key val ''topic'') s (\<lambda>c. val_topic c s)) (\<lambda>s.
     req (lone w) (node_line w) ''benchmark on must be a scalar node index'' (\<lambda>wi.
     bind_lint (endpoint f wi (\<lambda>e. obs_weld e \<or> obs_ros e) bad_endpoint '' cannot observe: no log verb'') (\<lambda>(k, on).
     val_echo val f (s\<lparr>s_obs := on, s_on_kind := k\<rparr>)))))))))))))))"

definition bench_conc :: "suite_node \<Rightarrow> ex_file \<Rightarrow> nat \<Rightarrow> ex_step \<Rightarrow> ex_step lint" where
  "bench_conc val f line s =
     need (\<not> has val ''from'') line ''weld from needs pub verb: concord cannot publish'' (
     need (\<not> has val ''text'') line ''weld text needs pub verb: concord cannot publish'' (
     need (\<not> has val ''topic'') line ''weld topic needs pub verb: concord cannot publish'' (
     need (\<not> has val ''on'') line ''weld on needs log verb: concord cannot observe'' (
     need (\<not> has val ''echo'') line ''weld echo needs relay verb: concord cannot relay'' (
     need (\<not> has val ''payload_bytes'') line ''weld payload needs pub verb: concord cannot publish'' (
     req (find_key val ''node'') line ''benchmark needs node plus image plus as'' (\<lambda>a.
     req (find_key val ''image'') line ''benchmark needs node plus image plus as'' (\<lambda>b.
     req (find_key val ''as'') line ''benchmark needs node plus image plus as'' (\<lambda>c.
     bind_lint (endpoint f a submit ''node index out of range'' '' cannot submit: no submit verb'') (\<lambda>(k, n).
     bind_lint (val_image b (s\<lparr>s_node := n, s_from_kind := k\<rparr>)) (\<lambda>s.
     bind_lint (val_as c s) (\<lambda>s.
     need (\<not> (s_has_count s \<and> name_too_long s)) (node_line c) ''workload name too long for count'' (
     need (\<not> (s_has_dur s \<and> name_too_long s)) (node_line c) ''workload name too long for count'' (
     need (\<not> (s_has_ramp s \<and> name_too_long s)) (node_line c) ''workload name too long for count'' (
     opt (find_key val ''flags'') s (\<lambda>q. val_flags q s))))))))))))))))"

text \<open>The scan for keys that start with \<open>ramp\<close>; a benchmark may have \<open>ramp\<close> itself.\<close>

fun ramp_keys :: "bool \<Rightarrow> entries \<Rightarrow> unit lint" where
  "ramp_keys exact [] = Accept ()"
| "ramp_keys exact (e # es) =
     (if exact \<and> fst e = ''ramp'' then ramp_keys exact es
      else if has_ramp (fst e) then ramp_bad (fst (snd e))
      else ramp_keys exact es)"

definition step_bench :: "suite_node \<Rightarrow> ex_file \<Rightarrow> nat \<Rightarrow> ex_step \<Rightarrow> ex_step lint" where
  "step_bench val f line s =
     need (is_map val) line ''benchmark needs a mapping'' (
     if has val ''send'' \<or> has val ''expect'' then val_bench_generic val f line s
     else
       bind_lint (ramp_keys True (entries_of val)) (\<lambda>_.
       bind_lint (val_extra val [''from'', ''text'', ''topic'', ''on'', ''node'', ''image'', ''flags'', ''as'',
         ''rate'', ''count'', ''duration_s'', ''warmup'', ''echo'', ''payload_bytes'', ''ramp''] ''step'') (\<lambda>_.
       need (\<not> (has val ''ramp'' \<and> conc_keys val \<and> weld_keys val)) line
         ''benchmark mixes weld and concord keys'' (
       bind_lint (val_bench_ramp val line (if conc_keys val then kBenchConc else kBenchWeld) s) (\<lambda>s.
       bind_lint (if s_has_ramp s then Accept s else val_load val line (load_cap val) s) (\<lambda>s.
       bind_lint (opt (find_key val ''payload_bytes'') s (\<lambda>q. val_payload q s)) (\<lambda>s.
       need (\<not> (conc_keys val \<and> weld_keys val)) line ''benchmark mixes weld and concord keys'' (
       if weld_keys val then bench_weld val f line s else bench_conc val f line s))))))))"

section \<open>Network steps\<close>

text \<open>A fault of \<open>drop\<close>: a whole number in a range.\<close>

definition fault_int :: "suite_node \<Rightarrow> string \<Rightarrow> int \<Rightarrow> string \<Rightarrow> (int \<Rightarrow> ex_step \<Rightarrow> ex_step) \<Rightarrow> ex_step \<Rightarrow> ex_step lint" where
  "fault_int val key hi msg upd s =
     opt (find_key val key) s (\<lambda>q.
     bind_lint (int_in 0 hi q msg) (\<lambda>x. Accept ((upd x s)\<lparr>s_has_fault := True\<rparr>)))"

definition fault_loss :: "suite_node \<Rightarrow> ex_step \<Rightarrow> ex_step lint" where
  "fault_loss val s =
     opt (find_key val ''loss'') s (\<lambda>q.
     req (float_of (suite_scalar_str (Some q))) (node_line q) ''loss must be 0..1'' (\<lambda>x.
     need (\<not> (x < 0 \<or> x > 1)) (node_line q) ''loss must be 0..1'' (
     Accept (s\<lparr>s_loss := x, s_has_fault := True\<rparr>))))"

definition drop_direction :: "suite_node \<Rightarrow> ex_step \<Rightarrow> ex_step lint" where
  "drop_direction val s =
     opt (find_key val ''dir'') s (\<lambda>q.
     req (suite_scalar_str (Some q)) (node_line q) ''dir must be a string'' (\<lambda>t.
     if t = ''out'' then Accept (s\<lparr>s_dir := DIR_OUT\<rparr>)
     else if t = ''in'' then Accept (s\<lparr>s_dir := DIR_IN\<rparr>)
     else if t = ''both'' then Accept (s\<lparr>s_dir := DIR_BOTH\<rparr>)
     else vbad (node_line q) ''dir must be out, in, or both''))"

definition step_drop :: "suite_node \<Rightarrow> ex_file \<Rightarrow> nat \<Rightarrow> ex_step \<Rightarrow> ex_step lint" where
  "step_drop val f line s =
     (if \<not> is_map val \<or> s_kind s = ST_HEAL then
        bind_lint (val_nodeset val f) (\<lambda>(ix, al). Accept (s\<lparr>s_idx := ix, s_all := al\<rparr>))
      else
        bind_lint (val_extra val [''nodes'', ''loss'', ''delay_ms'', ''jitter_ms'', ''kbps'', ''dup_pct'', ''dir'']
          ''step'') (\<lambda>_.
        req (find_key val ''nodes'') line ''drop needs nodes'' (\<lambda>a.
        bind_lint (val_nodeset a f) (\<lambda>(ix, al).
        bind_lint (fault_loss val (s\<lparr>s_idx := ix, s_all := al\<rparr>)) (\<lambda>s.
        bind_lint (fault_int val ''delay_ms'' kMaxMs ''delay_ms must be 0..3600000''
          (\<lambda>x. s_delay_ns_update (\<lambda>_. of_int x * 1000000)) s) (\<lambda>s.
        bind_lint (fault_int val ''jitter_ms'' kMaxMs ''jitter_ms must be 0..3600000''
          (\<lambda>x. s_jitter_ns_update (\<lambda>_. of_int x * 1000000)) s) (\<lambda>s.
        bind_lint (fault_int val ''kbps'' kMaxKbps ''kbps must be 0..1000000''
          (\<lambda>x. s_kbps_update (\<lambda>_. of_int x)) s) (\<lambda>s.
        bind_lint (fault_int val ''dup_pct'' 100 ''dup_pct must be 0..100''
          (\<lambda>x. s_dup_pct_update (\<lambda>_. x)) s) (\<lambda>s.
        drop_direction val s)))))))))"

definition step_slow :: "suite_node \<Rightarrow> ex_file \<Rightarrow> nat \<Rightarrow> ex_step \<Rightarrow> ex_step lint" where
  "step_slow val f line s =
     need (is_map val) line ''slow needs a mapping'' (
     bind_lint (val_extra val [''nodes'', ''secs''] ''step'') (\<lambda>_.
     req (find_key val ''nodes'') line ''slow needs nodes plus secs'' (\<lambda>a.
     req (find_key val ''secs'') line ''slow needs nodes plus secs'' (\<lambda>b.
     bind_lint (val_nodeset a f) (\<lambda>(ix, al).
     bind_lint (int_in 1 kMaxTimeoutS b ''slow secs must be 1..3600'') (\<lambda>x.
     Accept (s\<lparr>s_idx := ix, s_all := al, s_slow_secs := x\<rparr>)))))))"

section \<open>Node steps\<close>

definition step_kill :: "suite_node \<Rightarrow> ex_file \<Rightarrow> nat \<Rightarrow> ex_step \<Rightarrow> ex_step lint" where
  "step_kill val f line s =
     need (is_map val) line ''kill needs a mapping'' (
     bind_lint (val_extra val [''node'', ''signal''] ''step'') (\<lambda>_.
     req (find_key val ''node'') line ''kill needs node plus signal'' (\<lambda>a.
     req (find_key val ''signal'') line ''kill needs node plus signal'' (\<lambda>b.
     bind_lint (index_in (f_nodes f) a) (\<lambda>x.
     req (suite_scalar_str (Some b)) (node_line b) ''signal must be a string'' (\<lambda>t.
     if t = ''KILL'' then Accept (s\<lparr>s_node := x, s_sig := SIGKILL\<rparr>)
     else if t = ''TERM'' then Accept (s\<lparr>s_node := x, s_sig := SIGTERM\<rparr>)
     else vbad (node_line b) ''signal must be KILL or TERM''))))))"

definition step_restart :: "suite_node \<Rightarrow> ex_file \<Rightarrow> nat \<Rightarrow> ex_step \<Rightarrow> ex_step lint" where
  "step_restart val f line s =
     need (is_map val) line ''restart needs a mapping'' (
     bind_lint (val_extra val [''node'', ''durability''] ''step'') (\<lambda>_.
     req (find_key val ''node'') line ''restart needs node plus durability'' (\<lambda>a.
     req (find_key val ''durability'') line ''restart needs node plus durability'' (\<lambda>b.
     bind_lint (index_in (f_nodes f) a) (\<lambda>x.
     req (suite_scalar_str (Some b)) (node_line b) ''bad durability'' (\<lambda>t.
     req (dur_of t) (node_line b) ''bad durability'' (\<lambda>d.
     need (\<not> (f_sut f = kWeld \<and> d > kDurKeep)) (node_line b) ''durability is concord-only'' (
     Accept (s\<lparr>s_node := x, s_dur := d\<rparr>)))))))))"

definition step_move :: "suite_node \<Rightarrow> ex_file \<Rightarrow> nat \<Rightarrow> ex_step \<Rightarrow> ex_step lint" where
  "step_move val f line s =
     need (is_map val) line ''move needs a mapping'' (
     bind_lint (val_extra val [''node'', ''x_m''] ''step'') (\<lambda>_.
     req (find_key val ''node'') line ''move needs node plus x_m'' (\<lambda>a.
     req (find_key val ''x_m'') line ''move needs node plus x_m'' (\<lambda>b.
     bind_lint (index_in (f_nodes f) a) (\<lambda>x.
     req (float_of (suite_scalar_str (Some b))) (node_line b) ''x_m must be a decimal in -1e6..1e6'' (\<lambda>xm.
     Accept (s\<lparr>s_node := x, s_xm := xm\<rparr>)))))))"

definition step_diskfill :: "suite_node \<Rightarrow> ex_file \<Rightarrow> nat \<Rightarrow> ex_step \<Rightarrow> ex_step lint" where
  "step_diskfill val f line s =
     need (f_sut f = kConcord) line ''diskfill is concord-only'' (
     need (is_map val) line ''diskfill needs a mapping'' (
     bind_lint (val_extra val [''node'', ''mb''] ''step'') (\<lambda>_.
     req (find_key val ''node'') line ''diskfill needs node plus mb'' (\<lambda>a.
     req (find_key val ''mb'') line ''diskfill needs node plus mb'' (\<lambda>b.
     bind_lint (index_in (f_nodes f) a) (\<lambda>x.
     bind_lint (int_in 0 kMaxMb b ''mb must be 0..65536'') (\<lambda>m.
     Accept (s\<lparr>s_node := x, s_mb := of_int m\<rparr>))))))))"

definition step_diskro :: "suite_node \<Rightarrow> ex_file \<Rightarrow> nat \<Rightarrow> ex_step \<Rightarrow> ex_step lint" where
  "step_diskro val f line s =
     need (f_sut f = kConcord) line ''diskreadonly is concord-only'' (
     need (is_map val) line ''diskreadonly needs a mapping'' (
     bind_lint (val_extra val [''node'', ''state''] ''step'') (\<lambda>_.
     req (find_key val ''node'') line ''diskreadonly needs node plus state'' (\<lambda>a.
     req (find_key val ''state'') line ''diskreadonly needs node plus state'' (\<lambda>b.
     bind_lint (index_in (f_nodes f) a) (\<lambda>x.
     req (suite_scalar_str (Some b)) (node_line b) ''state must be a string'' (\<lambda>t.
     if t = ''on'' then Accept (s\<lparr>s_node := x, s_ro := True\<rparr>)
     else if t = ''off'' then Accept (s\<lparr>s_node := x, s_ro := False\<rparr>)
     else vbad (node_line b) ''state must be on or off'')))))))"

definition step_jcorrupt :: "suite_node \<Rightarrow> ex_file \<Rightarrow> nat \<Rightarrow> ex_step \<Rightarrow> ex_step lint" where
  "step_jcorrupt val f line s =
     need (f_sut f = kConcord) line ''journalcorrupt is concord-only'' (
     need (is_map val) line ''journalcorrupt needs a mapping'' (
     bind_lint (val_extra val [''node''] ''step'') (\<lambda>_.
     req (find_key val ''node'') line ''journalcorrupt needs node'' (\<lambda>a.
     bind_lint (index_in (f_nodes f) a) (\<lambda>x.
     Accept (s\<lparr>s_node := x\<rparr>))))))"

section \<open>Workload steps\<close>

definition step_submit :: "suite_node \<Rightarrow> ex_file \<Rightarrow> nat \<Rightarrow> ex_step \<Rightarrow> ex_step lint" where
  "step_submit val f line s =
     need (is_map val) line ''submit needs a mapping'' (
     bind_lint (val_extra val [''node'', ''image'', ''flags'', ''as'', ''count'', ''id'', ''rate''] ''step'') (\<lambda>_.
     req (find_key val ''node'') line ''submit needs node plus image'' (\<lambda>a.
     req (find_key val ''image'') line ''submit needs node plus image'' (\<lambda>b.
     bind_lint (endpoint f a submit ''node index out of range'' '' cannot submit: no submit verb'') (\<lambda>(k, n).
     bind_lint (val_image b (s\<lparr>s_node := n, s_from_kind := k\<rparr>)) (\<lambda>s.
     bind_lint (opt (find_key val ''flags'') s (\<lambda>q. val_flags q s)) (\<lambda>s.
     bind_lint (opt (find_key val ''as'') s (\<lambda>q. val_as q s)) (\<lambda>s.
     bind_lint (opt (find_key val ''count'') s (\<lambda>q.
       bind_lint (int_in 1 kMaxCount q ''count must be 1..100'') (\<lambda>x.
       need (s_has_as s) (node_line q) ''count needs as:'' (
       need (\<not> name_too_long s) (node_line q) ''workload name too long for count'' (
       Accept (s\<lparr>s_count := x, s_has_count := True\<rparr>)))))) (\<lambda>s.
     bind_lint (opt (find_key val ''id'') s (\<lambda>q.
       bind_lint (text_in nonempty kIdLen q ''id must be a string'' ''id too long'') (\<lambda>t.
       Accept (s\<lparr>s_fixed_id := t, s_has_id := True\<rparr>)))) (\<lambda>s.
     opt (find_key val ''rate'') s (\<lambda>q. val_rate q s)))))))))))"

definition step_stop :: "suite_node \<Rightarrow> ex_file \<Rightarrow> nat \<Rightarrow> ex_step \<Rightarrow> ex_step lint" where
  "step_stop val f line s =
     need (f_sut f = kConcord) line ''stop is concord-only'' (
     need (is_map val) line ''stop needs a mapping'' (
     bind_lint (val_extra val [''workload''] ''step'') (\<lambda>_.
     val_wl (find_key val ''workload'') s)))"

definition step_update :: "suite_node \<Rightarrow> ex_file \<Rightarrow> nat \<Rightarrow> ex_step \<Rightarrow> ex_step lint" where
  "step_update val f line s =
     need (f_sut f = kConcord) line ''update is concord-only'' (
     need (is_map val) line ''update needs a mapping'' (
     bind_lint (val_extra val [''workload'', ''image''] ''step'') (\<lambda>_.
     req (find_key val ''image'') line ''update needs image'' (\<lambda>b.
     bind_lint (val_image b s) (\<lambda>s.
     val_wl (find_key val ''workload'') s)))))"

text \<open>A default or the word given, which must pass \<open>push_word\<close>.\<close>

definition push_or :: "suite_node \<Rightarrow> string \<Rightarrow> string \<Rightarrow> nat \<Rightarrow> bool \<Rightarrow> string \<Rightarrow> string lint" where
  "push_or val key dflt m slash msg =
     opt (find_key val key) dflt (\<lambda>a. req (push_word a m slash) (node_line a) msg Accept)"

definition step_push :: "suite_node \<Rightarrow> ex_file \<Rightarrow> nat \<Rightarrow> ex_step \<Rightarrow> ex_step lint" where
  "step_push val f line s =
     need (f_sut f = kConcord) line ''push is concord-only'' (
     need (is_map val) line ''push needs a mapping'' (
     bind_lint (val_extra val [''repo'', ''tag'', ''rootfs'', ''entrypoint''] ''step'') (\<lambda>_.
     bind_lint (push_or val ''repo'' ''concord-test'' 64 False ''repo must be 1..63 of alnum plus _ . -'') (\<lambda>r.
     bind_lint (push_or val ''tag'' ''latest'' 64 False ''tag must be 1..63 of alnum plus _ . -'') (\<lambda>t.
     bind_lint (push_or val ''rootfs'' ''img/rootfs'' kPathLen True ''rootfs must be a path'') (\<lambda>d.
     bind_lint (opt (find_key val ''entrypoint'') ''/probe'' (\<lambda>a.
       req (push_word a 128 True) (node_line a) ''entrypoint must start with /'' (\<lambda>w.
       need (w ! 0 = CHR ''/'') (node_line a) ''entrypoint must start with /'' (Accept w)))) (\<lambda>e.
     Accept (s\<lparr>s_push := \<lparr>push_repo = r, push_tag = t, push_rootfs = d, push_entry = e\<rparr>\<rparr>))))))))"

section \<open>Publishing steps\<close>

definition step_pub :: "suite_node \<Rightarrow> ex_file \<Rightarrow> nat \<Rightarrow> ex_step \<Rightarrow> ex_step lint" where
  "step_pub val f line s =
     need (is_map val) line ''pub needs a mapping'' (
     bind_lint (val_extra val [''from'', ''text'', ''topic'', ''rate''] ''step'') (\<lambda>_.
     req (find_key val ''from'') line ''pub needs from plus text'' (\<lambda>a.
     req (find_key val ''text'') line ''pub needs from plus text'' (\<lambda>b.
     bind_lint (endpoint f a pub_weld ''node index out of range'' '' cannot publish: no pub verb'') (\<lambda>(k, n).
     bind_lint (text_in nonempty kTextLen b ''text must be a string'' ''text too long'') (\<lambda>t.
     bind_lint (opt (find_key val ''topic'') (s\<lparr>s_node := n, s_from_kind := k, s_text := t\<rparr>)
       (\<lambda>q. val_topic q (s\<lparr>s_node := n, s_from_kind := k, s_text := t\<rparr>))) (\<lambda>s.
     opt (find_key val ''rate'') s (\<lambda>q. val_rate q s))))))))"

definition step_rospub :: "suite_node \<Rightarrow> ex_file \<Rightarrow> nat \<Rightarrow> ex_step \<Rightarrow> ex_step lint" where
  "step_rospub val f line s =
     need (is_map val) line ''ros_pub needs a mapping'' (
     bind_lint (ramp_keys False (entries_of val)) (\<lambda>_.
     bind_lint (val_extra val [''from'', ''topic'', ''text'', ''payload_bytes'', ''rate'', ''count'', ''duration_s'']
       ''step'') (\<lambda>_.
     req (find_key val ''from'') line ''ros_pub needs from plus topic'' (\<lambda>a.
     req (find_key val ''topic'') line ''ros_pub needs from plus topic'' (\<lambda>c.
     req (ep_parse_node (f_nodes f) (f_sut f) a) (node_line a) bad_endpoint (\<lambda>(k, n).
     need (k \<noteq> EP_CONCORD) (node_line a) (ep_name k @ '' cannot publish: no pub verb'') (
     need (needs_has f ''ros.pub'') line ''ros_pub needs ros.pub need'' (
     bind_lint (val_topic c (s\<lparr>s_node := n, s_from_kind := EP_ROS\<rparr>)) (\<lambda>s.
     bind_lint (opt (find_key val ''payload_bytes'') s (\<lambda>q. val_payload q s)) (\<lambda>s.
     bind_lint
       (case find_key val ''text'' of
          Some b \<Rightarrow> val_text b ''text must be a string'' ''text too long'' s
        | None \<Rightarrow>
            need (s_has_pay s) line ''ros_pub needs text or payload_bytes'' (
            Accept (s\<lparr>s_text := []\<rparr>))) (\<lambda>s.
     req (find_key val ''rate'') line ''ros_pub needs rate'' (\<lambda>q.
     bind_lint (val_rate q s) (\<lambda>s.
     bind_lint (opt (find_key val ''count'') s (\<lambda>q.
       bind_lint (int_in 1 kBenchWeld q ''ros_pub count out of range'') (\<lambda>x.
       Accept (s\<lparr>s_count := x, s_has_count := True\<rparr>)))) (\<lambda>s.
     bind_lint (opt (find_key val ''duration_s'') s (\<lambda>q.
       bind_lint (int_in 1 kMaxTimeoutS q ''duration_s must be 1..3600'') (\<lambda>x.
       Accept (s\<lparr>s_duration_s := x, s_has_dur := True\<rparr>)))) (\<lambda>s.
     need (s_has_count s \<or> s_has_dur s) line ''ros_pub needs count or duration_s'' (
     need (\<not> (s_has_dur s \<and> (of_int (s_rate s) * of_int (s_duration_s s) :: u64) > of_int kBenchWeld)) line
       ''ros_pub too large'' (
     need (needs_has f ''ros.pub'') line ''ros_pub needs ros.pub need'' (
     Accept s))))))))))))))))))"

definition step_replay :: "suite_node \<Rightarrow> ex_file \<Rightarrow> nat \<Rightarrow> ex_step \<Rightarrow> ex_step lint" where
  "step_replay val f line s =
     need (f_sut f = kWeld) line ''replay is weld-only'' (
     need (is_map val) line ''replay needs a mapping'' (
     bind_lint (val_extra val [''file'', ''topic'', ''from''] ''step'') (\<lambda>_.
     req (find_key val ''file'') line ''replay needs file'' (\<lambda>a.
     bind_lint (text_in nonempty kPathLen a ''file must be a string'' ''file too long'') (\<lambda>t.
     bind_lint (opt (find_key val ''from'') (s\<lparr>s_file := t, s_node := 0\<rparr>) (\<lambda>b.
       bind_lint (index_in (f_nodes f) b) (\<lambda>x. Accept (s\<lparr>s_file := t, s_node := x\<rparr>)))) (\<lambda>s.
     opt (find_key val ''topic'') s (\<lambda>c. val_topic c s)))))))"

section \<open>The step\<close>

type_synonym verb = "suite_node \<Rightarrow> ex_file \<Rightarrow> nat \<Rightarrow> ex_step \<Rightarrow> ex_step lint"

text \<open>The chain of \<open>strcmp (key, ...)\<close>.\<close>

definition verbs :: "(string \<times> step_kind \<times> verb) list" where
  "verbs =
     [(''drop'', ST_DROP, step_drop), (''heal'', ST_HEAL, step_drop), (''kill'', ST_KILL, step_kill),
      (''restart'', ST_RESTART, step_restart), (''move'', ST_MOVE, step_move),
      (''submit'', ST_SUBMIT, step_submit), (''stop'', ST_STOP, step_stop), (''pub'', ST_PUB, step_pub),
      (''benchmark'', ST_BENCH, step_bench), (''ros_pub'', ST_ROSPUB, step_rospub),
      (''slow'', ST_SLOW, step_slow), (''update'', ST_UPDATE, step_update),
      (''replay'', ST_REPLAY, step_replay), (''diskfill'', ST_DISKFILL, step_diskfill),
      (''diskreadonly'', ST_DISKRO, step_diskro), (''journalcorrupt'', ST_JCORRUPT, step_jcorrupt),
      (''push'', ST_PUSH, step_push)]"

definition val_step :: "suite_node \<Rightarrow> ex_file \<Rightarrow> ex_step lint" where
  "val_step m f =
     need (is_map m) (node_line m) ''step must be a mapping'' (
     case entries_of m of
       [(key, line, val)] \<Rightarrow>
         if has_ramp key then ramp_bad line
         else
           (case map_of verbs key of
              None \<Rightarrow> vunknown line ''step'' key
            | Some (kind, verb) \<Rightarrow> verb val f line ((step0 line)\<lparr>s_kind := kind\<rparr>))
     | _ \<Rightarrow> vbad (node_line m) ''step must hold one verb'')"

end
