(* ===== verification/Lint_Top.thy ===== *)
theory Lint_Top
  imports Lint_Step
begin

text \<open>
  The rest of the linter of \<open>suite/exec.c\<close>: phases, the spawn and peer blocks, the whole
  document, the registry of workload names, and \<open>suite_lint_file\<close>, which reads and parses the
  file and reports the first error with its path and line. Allocation is taken to succeed.
\<close>

section \<open>Phases\<close>

fun val_steps :: "suite_node list \<Rightarrow> ex_file \<Rightarrow> ex_step list lint" where
  "val_steps [] f = Accept []"
| "val_steps (n # ns) f =
     bind_lint (val_step n f) (\<lambda>s.
     bind_lint (val_steps ns f) (\<lambda>ss. Accept (s # ss)))"

definition missing :: "string \<Rightarrow> string \<Rightarrow> string" where
  "missing what key = ''missing '' @ what @ '' key '' @ [SQ] @ key @ [SQ]"

definition val_phase :: "suite_node \<Rightarrow> ex_file \<Rightarrow> ex_phase lint" where
  "val_phase m f =
     need (is_map m) (node_line m) ''phase must be a mapping'' (
     bind_lint (ramp_keys False (entries_of m)) (\<lambda>_.
     bind_lint (val_extra m [''name'', ''do'', ''until'', ''sustain'', ''hold_s'', ''timeout_s'', ''multicast'']
       ''phase key'') (\<lambda>_.
     req (find_key m ''name'') (node_line m) (missing ''phase'' ''name'') (\<lambda>nd.
     bind_lint (text_in nonempty kNameLen nd ''phase name must be a string'' ''phase name too long'') (\<lambda>name.
     bind_lint (opt (find_key m ''do'') [] (\<lambda>nd.
       need (is_list nd) (node_line nd) ''do must be a list'' (
       val_steps (items_of nd) f))) (\<lambda>steps.
     let u = find_key m ''until''; t = find_key m ''sustain'' in
     need (\<not> (u \<noteq> None \<and> t \<noteq> None)) (node_line m) ''until plus sustain together'' (
     req (if u \<noteq> None then u else t) (node_line m) ''until or sustain required'' (\<lambda>cn.
     bind_lint (val_cond cn f) (\<lambda>c.
     bind_lint (opt (find_key m ''hold_s'') 0 (\<lambda>nd.
       int_in 0 kMaxTimeoutS nd ''hold_s must be 0..3600'')) (\<lambda>hold.
     need (\<not> (u = None \<and> hold > 0)) (node_line m) ''hold_s needs until'' (
     req (find_key m ''timeout_s'') (node_line m) (missing ''phase'' ''timeout_s'') (\<lambda>nd.
     bind_lint (int_in 1 kMaxTimeoutS nd ''timeout_s must be 1..3600'') (\<lambda>tmo.
     need (\<not> hold > tmo) (node_line m) ''hold_s above timeout_s'' (
     bind_lint (opt (find_key m ''multicast'') False (\<lambda>nd.
       req (suite_scalar_str (Some nd)) (node_line nd) ''multicast must be a string'' (\<lambda>t.
       if t = ''off'' then Accept True
       else if t \<noteq> ''on'' then vbad (node_line nd) ''multicast must be on or off''
       else Accept False))) (\<lambda>quiet.
     Accept \<lparr>ph_name_of = name, ph_line = node_line m, ph_steps = steps, ph_has_until = (u \<noteq> None),
       ph_cond = c, ph_hold_s = hold, ph_timeout_s = tmo, ph_nomcast = quiet\<rparr>)))))))))))))))"

fun val_phases :: "suite_node list \<Rightarrow> ex_file \<Rightarrow> ex_phase list lint" where
  "val_phases [] f = Accept []"
| "val_phases (n # ns) f =
     bind_lint (val_phase n f) (\<lambda>p.
     bind_lint (val_phases ns f) (\<lambda>ps. Accept (p # ps)))"

section \<open>Spawn and peers\<close>

definition kPlain :: int where "kPlain = 0"
definition kSkew :: int where "kSkew = 1"
definition kAnchor :: int where "kAnchor = 2"

definition val_spawn :: "suite_node \<Rightarrow> ex_file \<Rightarrow> ex_file lint" where
  "val_spawn nd f =
     need (is_map nd) (node_line nd) ''spawn must be a mapping'' (
     bind_lint (val_extra nd [''variant'', ''node'', ''offset''] ''spawn key'') (\<lambda>_.
     bind_lint (opt (find_key nd ''variant'') kPlain (\<lambda>a.
       req (suite_scalar_str (Some a)) (node_line a) ''variant must be a string'' (\<lambda>t.
       if t = ''plain'' then Accept kPlain
       else if t = ''anchor'' then Accept kAnchor
       else if t = ''skew'' then Accept kSkew
       else vbad (node_line a) ''bad spawn variant''))) (\<lambda>v.
     let fo = f\<lparr>f_has_spawn := True, f_variant := v\<rparr>;
         b = find_key nd ''node''; c = find_key nd ''offset'' in
     if f_sut f = kWeld then
       need (v = kPlain) (node_line nd) ''spawn variant is concord-only'' (
       bind_lint (opt b () (\<lambda>b. vbad (node_line b) ''spawn node is concord-only'')) (\<lambda>_.
       opt c fo (\<lambda>c. vbad (node_line c) ''spawn offset is concord-only'')))
     else
       bind_lint (opt b fo (\<lambda>b.
         bind_lint (index_in (f_nodes f) b) (\<lambda>x. Accept (fo\<lparr>f_snode := x, f_has_snode := True\<rparr>)))) (\<lambda>fo.
       bind_lint (opt c fo (\<lambda>c.
         bind_lint (text_in nonempty 64 c ''offset must be a string'' ''offset too long'') (\<lambda>t.
         Accept (fo\<lparr>f_offset := t, f_has_offset := True\<rparr>)))) (\<lambda>fo.
       need (\<not> (v = kSkew \<and> \<not> f_has_snode fo)) (node_line nd) ''skew needs node'' (
       need (\<not> (v = kSkew \<and> \<not> f_has_offset fo)) (node_line nd) ''skew needs offset'' (
       need (\<not> (v = kAnchor \<and> \<not> f_has_snode fo)) (node_line nd) ''anchor needs node'' (
       Accept fo))))))))"

definition distros :: "string list" where
  "distros = [''humble'', ''jazzy'', ''rolling'']"

fun val_peers :: "suite_node list \<Rightarrow> ex_file \<Rightarrow> (int \<times> string) list lint" where
  "val_peers [] f = Accept []"
| "val_peers (it # its) f =
     need (is_map it) (node_line it) ''ros peer must be a mapping'' (
     bind_lint (val_extra it [''node'', ''distro''] ''ros peer key'') (\<lambda>_.
     req (find_key it ''node'') (node_line it) ''ros peer needs node plus distro'' (\<lambda>a.
     req (find_key it ''distro'') (node_line it) ''ros peer needs node plus distro'' (\<lambda>b.
     bind_lint (index_in (f_nodes f) a) (\<lambda>x.
     bind_lint (text_in (\<lambda>t. t \<noteq> None \<and> the t \<in> set distros) 16 b ''bad distro'' ''distro too long'') (\<lambda>t.
     bind_lint (val_peers its f) (\<lambda>ps. Accept ((x, t) # ps))))))))"

definition val_ros :: "suite_node \<Rightarrow> ex_file \<Rightarrow> ex_file lint" where
  "val_ros nd f =
     need (f_sut f = kWeld) (node_line nd) ''ros_peers is weld-only'' (
     need (is_list nd) (node_line nd) ''ros_peers must be a list'' (
     need (items_of nd \<noteq> []) (node_line nd) ''empty ros_peers'' (
     need (\<not> length (items_of nd) > nat kMaxNodes) (node_line nd) ''too many ros peers'' (
     bind_lint (val_peers (items_of nd) f) (\<lambda>ps. Accept (f\<lparr>f_ros := ps\<rparr>))))))"

section \<open>Workload names\<close>

fun member_digits :: "int \<Rightarrow> int \<Rightarrow> string \<Rightarrow> bool" where
  "member_digits c v [] = True"
| "member_digits c v (ch # s) =
     (if \<not> digit ch then False
      else let v = v * 10 + the (digit_of ch) in if v \<ge> c then False else member_digits c v s)"

definition reg_member :: "string \<Rightarrow> int \<Rightarrow> string \<Rightarrow> bool" where
  "reg_member b c ref =
     (let n = length b in
      if take n ref \<noteq> b then False
      else if take 1 (drop n ref) \<noteq> [DASH] then False
      else if drop (n + 1) ref = [] then False
      else member_digits c 0 (drop (n + 1) ref))"

text \<open>The names, the counted bases, the entries so far and the submits so far.\<close>

record registry =
  names :: "string list"
  bases :: "(string \<times> int) list"
  nentries :: int
  nsub :: nat

definition reg0 :: registry where
  "reg0 = \<lparr>names = [], bases = [], nentries = 0, nsub = 0\<rparr>"

definition reg_has :: "registry \<Rightarrow> string \<Rightarrow> bool" where
  "reg_has g ref =
     (ref \<in> set (names g) \<or> list_ex (\<lambda>(b, c). b = ref \<or> reg_member b c ref) (bases g))"

definition cond_wl :: "ex_cond \<Rightarrow> bool" where
  "cond_wl c =
     (case c_kind c of
        CD_PRESENT \<Rightarrow> c_workload c
      | CD_ABSENT \<Rightarrow> c_workload c
      | CD_ASSIGNED \<Rightarrow> True
      | CD_AGREE \<Rightarrow> True
      | CD_ASSIGNED_ON \<Rightarrow> True
      | CD_EPOCH \<Rightarrow> True
      | CD_IMAGE \<Rightarrow> True
      | _ \<Rightarrow> False)"

text \<open>A name that mints \<open>add\<close> entries, as the base of a counted set or by itself.\<close>

definition reg_add :: "nat \<Rightarrow> string \<Rightarrow> int \<Rightarrow> bool \<Rightarrow> registry \<Rightarrow> registry lint" where
  "reg_add line eff add counted g =
     need (\<not> reg_has g eff) line ''duplicate workload name'' (
     need (\<not> nentries g + add > int kMaxWl) line ''too many workloads'' (
     Accept \<lparr>names = names g @ [eff], bases = bases g @ (if counted then [(eff, add)] else []),
       nentries = nentries g + add, nsub = nsub g + 1\<rparr>))"

definition reg_submit :: "ex_step \<Rightarrow> registry \<Rightarrow> registry lint" where
  "reg_submit s g =
     (let eff = (if s_has_as s then s_as_name s else ''submitted'') in
      need (\<not> (\<not> s_has_as s \<and> nsub g > 0)) (s_line s) ''second submit needs as: name'' (
      reg_add (s_line s) eff (if s_has_count s then s_count s else 1) (s_has_count s) g))"

definition bench_mints :: "ex_step \<Rightarrow> int" where
  "bench_mints s =
     (if s_has_ramp s
      then ramp_max_steps (s_ramp s) * ramp_max_rate (s_ramp s) * ramp_step_dur (s_ramp s)
      else if s_has_count s \<and> \<not> s_has_dur s then s_count s
      else if s_has_dur s \<and> \<not> s_has_count s then s_rate s * s_duration_s s
      else s_count s)"

definition reg_bench :: "ex_step \<Rightarrow> registry \<Rightarrow> registry lint" where
  "reg_bench s g =
     (if \<not> submit (kEpCap (s_from_kind s)) then Accept g
      else
        reg_add (s_line s) (s_as_name s) (bench_mints s)
          (s_has_ramp s \<or> s_has_dur s \<or> \<not> s_has_count s \<or> s_count s > 1) g)"

definition reg_step :: "ex_step \<Rightarrow> registry \<Rightarrow> registry lint" where
  "reg_step s g =
     (case s_kind s of
        ST_SUBMIT \<Rightarrow> reg_submit s g
      | ST_BENCH \<Rightarrow> reg_bench s g
      | ST_STOP \<Rightarrow> need (reg_has g (s_wl s)) (s_line s) ''stop with no submitted workload'' (Accept g)
      | ST_UPDATE \<Rightarrow> need (reg_has g (s_wl s)) (s_line s) ''update with no submitted workload'' (Accept g)
      | _ \<Rightarrow> Accept g)"

fun reg_steps :: "ex_step list \<Rightarrow> registry \<Rightarrow> registry lint" where
  "reg_steps [] g = Accept g"
| "reg_steps (s # ss) g = bind_lint (reg_step s g) (\<lambda>g. reg_steps ss g)"

text \<open>The steps of a phase run before its condition is polled.\<close>

fun reg_phases :: "ex_phase list \<Rightarrow> registry \<Rightarrow> registry lint" where
  "reg_phases [] g = Accept g"
| "reg_phases (p # ps) g =
     bind_lint (reg_steps (ph_steps p) g) (\<lambda>g.
     need (\<not> (cond_wl (ph_cond p) \<and> \<not> reg_has g (c_wl (ph_cond p)))) (c_line (ph_cond p))
       ''no submitted workload'' (
     reg_phases ps g))"

section \<open>The document\<close>

fun val_needs :: "int \<Rightarrow> suite_node list \<Rightarrow> string list lint" where
  "val_needs sut [] = Accept []"
| "val_needs sut (it # its) =
     bind_lint (text_in (\<lambda>t. True) kNameLen it ''needs entries must be strings'' ''need too long'') (\<lambda>s.
     if \<not> need_ok sut s then vunknown (node_line it) ''need'' s
     else bind_lint (val_needs sut its) (\<lambda>ss. Accept (s # ss)))"

fun val_bins :: "int \<Rightarrow> entries \<Rightarrow> (int \<times> string) list \<Rightarrow> (int \<times> string) list lint" where
  "val_bins nodes [] bs = Accept bs"
| "val_bins nodes ((bk, line, bv) # es) bs =
     req (key_int bk) line ''bins node out of range'' (\<lambda>x.
     need (\<not> (x < 0 \<or> x \<ge> nodes)) line ''bins node out of range'' (
     bind_lint (text_in nonempty kPathLen bv ''bins path must be a string'' ''bins path too long'') (\<lambda>t.
     val_bins nodes es ((x, t) # bs))))"

text \<open>The first earlier phase of the same name decides; the line is that of the later one.\<close>

fun phase_names :: "string list \<Rightarrow> ex_phase list \<Rightarrow> unit lint" where
  "phase_names seen [] = Accept ()"
| "phase_names seen (p # ps) =
     need (ph_name_of p \<notin> set seen) (ph_line p) ''duplicate phase name'' (
     phase_names (seen @ [ph_name_of p]) ps)"

text \<open>Name, version, system under test, nodes and needs.\<close>

definition top_identity :: "suite_node \<Rightarrow> ex_file lint" where
  "top_identity rt =
     req (find_key rt ''name'') (node_line rt) (missing ''top-level'' ''name'') (\<lambda>nd.
     bind_lint (text_in nonempty kNameLen nd ''name must be a string'' ''name too long'') (\<lambda>name.
     req (find_key rt ''version'') (node_line rt) (missing ''top-level'' ''version'') (\<lambda>nd.
     req (need_int nd) (node_line nd) ''version must be an int'' (\<lambda>x.
     need (x = 1) (node_line nd) ''version must equal 1'' (
     req (find_key rt ''sut'') (node_line rt) (missing ''top-level'' ''sut'') (\<lambda>nd.
     req (suite_scalar_str (Some nd)) (node_line nd) ''sut must be a string'' (\<lambda>s.
     need (s = ''concord'' \<or> s = ''weld'') (node_line nd) ''sut must be concord or weld'' (
     let sut = (if s = ''concord'' then kConcord else kWeld) in
     req (find_key rt ''nodes'') (node_line rt) (missing ''top-level'' ''nodes'') (\<lambda>nd.
     bind_lint (int_in 1 kMaxNodes nd ''nodes must be 1..100'') (\<lambda>n.
     bind_lint (opt (find_key rt ''needs'') [] (\<lambda>nd.
       need (is_list nd) (node_line nd) ''needs must be a list'' (val_needs sut (items_of nd)))) (\<lambda>ns.
     Accept (file0\<lparr>f_name := name, f_sut := sut, f_nodes := n, f_needs := ns\<rparr>))))))))))))"

text \<open>Domain, topic, spawn, peers and binaries.\<close>

definition top_setup :: "suite_node \<Rightarrow> ex_file \<Rightarrow> ex_file lint" where
  "top_setup rt f =
     bind_lint
       (case find_key rt ''domain'' of
          Some nd \<Rightarrow>
            need (f_sut f = kWeld) (node_line nd) ''domain is weld-only'' (
            bind_lint (int_in 0 101 nd ''domain must be 0..101'') (\<lambda>x.
            Accept (f\<lparr>f_domain := x, f_has_domain := True\<rparr>)))
        | None \<Rightarrow>
            need (f_sut f \<noteq> kWeld) (node_line rt) (missing ''top-level'' ''domain'') (Accept f)) (\<lambda>f.
     bind_lint (opt (find_key rt ''topic'') f (\<lambda>nd.
       need (f_sut f = kWeld) (node_line nd) ''topic is weld-only'' (
       bind_lint (text_in topic_ok 128 nd ''bad topic'' ''topic too long'') (\<lambda>t.
       Accept (f\<lparr>f_topic := t, f_has_topic := True\<rparr>))))) (\<lambda>f.
     bind_lint (opt (find_key rt ''spawn'') f (\<lambda>nd. val_spawn nd f)) (\<lambda>f.
     bind_lint (opt (find_key rt ''ros_peers'') f (\<lambda>nd. val_ros nd f)) (\<lambda>f.
     opt (find_key rt ''bins'') f (\<lambda>nd.
       need (is_map nd) (node_line nd) ''bins must be a mapping'' (
       need (entries_of nd \<noteq> []) (node_line nd) ''empty bins'' (
       bind_lint (val_bins (f_nodes f) (entries_of nd) []) (\<lambda>bs. Accept (f\<lparr>f_bins := bs\<rparr>)))))))))"

text \<open>Disk cap, isolation and the timeout.\<close>

definition top_limits :: "suite_node \<Rightarrow> ex_file \<Rightarrow> ex_file lint" where
  "top_limits rt f =
     bind_lint (opt (find_key rt ''disk_cap_mb'') f (\<lambda>nd.
       need (f_sut f = kConcord) (node_line nd) ''disk_cap_mb is concord-only'' (
       bind_lint (int_in 0 kMaxMb nd ''disk_cap_mb must be 0..65536'') (\<lambda>x.
       Accept (f\<lparr>f_disk_cap_mb := of_int x\<rparr>))))) (\<lambda>f.
     bind_lint (opt (find_key rt ''isolate'') f (\<lambda>nd.
       need (f_sut f = kConcord) (node_line nd) ''isolate is concord-only'' (
       if scalar_eq nd ''on'' then Accept (f\<lparr>f_isolate := True\<rparr>)
       else if scalar_eq nd ''off'' then Accept (f\<lparr>f_isolate := False\<rparr>)
       else vbad (node_line nd) ''isolate must be on or off''))) (\<lambda>f.
     req (find_key rt ''timeout_s'') (node_line rt) (missing ''top-level'' ''timeout_s'') (\<lambda>nd.
     bind_lint (int_in 1 kMaxTimeoutS nd ''timeout_s must be 1..3600'') (\<lambda>x.
     Accept (f\<lparr>f_timeout_s := x\<rparr>)))))"

definition top_phases :: "suite_node \<Rightarrow> ex_file \<Rightarrow> ex_file lint" where
  "top_phases rt f =
     req (find_key rt ''phases'') (node_line rt) (missing ''top-level'' ''phases'') (\<lambda>nd.
     need (is_list nd \<and> items_of nd \<noteq> []) (node_line nd) ''phases must be a non-empty list'' (
     bind_lint (val_phases (items_of nd) f) (\<lambda>ps.
     bind_lint (phase_names [] ps) (\<lambda>_.
     bind_lint (reg_phases ps reg0) (\<lambda>_.
     Accept (f\<lparr>f_phases := ps\<rparr>))))))"

definition val_top :: "suite_node \<Rightarrow> ex_file lint" where
  "val_top rt =
     need (is_map rt) (node_line rt) ''top level must be a mapping'' (
     bind_lint (ramp_keys False (entries_of rt)) (\<lambda>_.
     bind_lint (val_extra rt [''name'', ''version'', ''sut'', ''needs'', ''nodes'', ''domain'', ''topic'', ''spawn'',
       ''ros_peers'', ''timeout_s'', ''phases'', ''bins'', ''disk_cap_mb'', ''isolate''] ''top-level key'') (\<lambda>_.
     bind_lint (top_identity rt) (\<lambda>f.
     bind_lint (top_setup rt f) (\<lambda>f.
     bind_lint (top_limits rt f) (\<lambda>f.
     top_phases rt f))))))"

section \<open>The file\<close>

text \<open>
  What the calls on the file answer: whether it opens, whether each of the two seeks works,
  what \<open>ftell\<close> says, and the bytes \<open>fread\<close> gets.
\<close>

record file_io =
  io_fopen :: bool
  io_seek_end :: bool
  io_ftell :: int
  io_seek_set :: bool
  io_fread :: string

definition read_file :: "file_io \<Rightarrow> string lint" where
  "read_file io =
     (if \<not> io_fopen io then vbad 0 ''cannot open file''
      else if \<not> io_seek_end io then vbad 0 ''cannot seek file''
      else if io_ftell io < 0 then vbad 0 ''cannot size file''
      else if \<not> io_seek_set io then vbad 0 ''cannot seek file''
      else if io_ftell io > 0 \<and> int (length (io_fread io)) \<noteq> io_ftell io then vbad 0 ''cannot read file''
      else Accept (if io_ftell io = 0 then [] else io_fread io))"

text \<open>\<open>vbad\<close> writes \<open>path:line: message\<close>; what fits the caller's buffer is kept.\<close>

definition why_text :: "string \<Rightarrow> nat \<Rightarrow> nat \<Rightarrow> string \<Rightarrow> string" where
  "why_text path why_n line msg =
     take (why_n - 1) (path @ '':'' @ digits 10 line @ '': '' @ msg)"

text \<open>
  The validated file, or nothing, and the text in \<open>why\<close>. The parser's \<open>Timeout\<close> and
  \<open>Out_of_bounds\<close> do not occur.
\<close>

definition load_validated :: "file_io \<Rightarrow> string ptr \<Rightarrow> nat \<Rightarrow> ex_file option \<times> string" where
  "load_validated io pathp why_n =
     (case pathp of
        None \<Rightarrow> (None, why_text ''(null)'' why_n 0 ''null path'')
      | Some path \<Rightarrow>
          (case read_file io of
             Reject l m \<Rightarrow> (None, why_text path why_n l m)
           | Accept text \<Rightarrow>
               (case suite_parse text of
                  Err l c m \<Rightarrow>
                    (None, take (why_n - 1) (ellipsize 512
                       (path @ '':'' @ digits 10 l @ '':'' @ digits 10 c @ '': '' @ m)))
                | Ok rt \<Rightarrow>
                    (case val_top rt of
                       Reject l m \<Rightarrow> (None, why_text path why_n l m)
                     | Accept f \<Rightarrow> (Some f, []))
                | _ \<Rightarrow> (None, []))))"

definition suite_lint_file :: "file_io \<Rightarrow> string ptr \<Rightarrow> nat \<Rightarrow> bool \<times> string" where
  "suite_lint_file io pathp why_n =
     (case load_validated io pathp why_n of (f, why) \<Rightarrow> (f \<noteq> None, why))"

end
