(* ===== verification/Lint_Sound.thy ===== *)
theory Lint_Sound
  imports Lint_Top
begin

text \<open>
  What an accepted step, condition and phase is: every node index is below the number of nodes,
  every number is in the range the linter states, every text fits its buffer and passes its
  character check. The lemmas follow the linter verb by verb.
\<close>

section \<open>Well-formed steps\<close>

definition in_range :: "'a :: linorder \<Rightarrow> 'a \<Rightarrow> 'a \<Rightarrow> bool" where
  "in_range lo hi x = (lo \<le> x \<and> x \<le> hi)"

definition fits :: "(string ptr \<Rightarrow> bool) \<Rightarrow> nat \<Rightarrow> string \<Rightarrow> bool" where
  "fits ok n t = ((t = [] \<or> ok (Some t)) \<and> length t < n)"

definition load_ok :: "bool \<Rightarrow> int \<Rightarrow> bool \<Rightarrow> int \<Rightarrow> bool \<Rightarrow> int \<Rightarrow> bool" where
  "load_ok counted c rated r timed d =
     (in_range 0 kBenchWeld c \<and> in_range 0 kMaxRate r \<and> in_range 0 kMaxTimeoutS d \<and>
      (counted \<longrightarrow> 1 \<le> c) \<and> (rated \<longrightarrow> 1 \<le> r) \<and>
      (timed \<longrightarrow> 1 \<le> d \<and> r * d \<le> kBenchWeld))"

definition ramp_ok :: "ramp_fields \<Rightarrow> bool" where
  "ramp_ok r =
     (1 \<le> ramp_start r \<and> ramp_start r \<le> ramp_max_rate r \<and> ramp_max_rate r \<le> kMaxRate \<and>
      in_range 1 kMaxRate (ramp_step r) \<and> in_range 1 kMaxTimeoutS (ramp_step_dur r) \<and>
      in_range 1 kRampSteps (ramp_max_steps r) \<and> in_range 1 kMaxTimeoutS (ramp_max_dur r) \<and>
      ramp_max_rate r * ramp_step_dur r \<le> kBenchWeld \<and> (ramp_has_loss r \<or> ramp_has_p99 r))"

definition stops_ok :: "ramp_fields \<Rightarrow> bool" where
  "stops_ok r =
     ((ramp_has_loss r \<longrightarrow> in_range 0 100 (ramp_loss_pct r)) \<and>
      (ramp_has_p99 r \<longrightarrow> in_range 0 kMaxMs (ramp_p99 r)))"

definition generic_ok :: "generic_fields \<Rightarrow> bool" where
  "generic_ok g =
     (fits nonempty 32 (send_via g) \<and> fits nonempty 32 (expect_via g) \<and> fits nonempty 512 (send_tpl g) \<and>
      fits nonempty 256 (exp_match g) \<and> fits nonempty 64 (exp_field g) \<and> fits nonempty 256 (exp_value g) \<and>
      fits scrape_metric_ok 128 (exp_metric g) \<and> fits scrape_op_ok 8 (exp_op g) \<and>
      in_range (-1000000) 1000000 (exp_thresh g) \<and> in_range 0 65535 (exp_port g) \<and>
      fits scrape_path_ok 128 (exp_path g))"

definition push_ok :: "push_fields \<Rightarrow> bool" where
  "push_ok p =
     (fits statedir_ok 64 (push_repo p) \<and> fits statedir_ok 64 (push_tag p) \<and>
      fits statedir_ok kPathLen (push_rootfs p) \<and> fits statedir_ok 128 (push_entry p))"

definition indices_ok :: "int \<Rightarrow> int list \<Rightarrow> bool" where
  "indices_ok n ix = (list_all (in_range 0 (n - 1)) ix \<and> length ix \<le> nat kMaxNodes)"

definition step_ok :: "int \<Rightarrow> ex_step \<Rightarrow> bool" where
  "step_ok n s =
     (indices_ok n (s_idx s) \<and> in_range 0 (n - 1) (s_node s) \<and> in_range 0 (n - 1) (s_obs s) \<and>
      in_range 0 (n - 1) (s_echo_node s) \<and> in_range 0 SIGTERM (s_sig s) \<and>
      in_range kDurFresh kDurZap (s_dur s) \<and> in_range (- 1000000) 1000000 (s_xm s) \<and>
      fits image_ok 128 (s_image s) \<and> fits flags_ok 128 (s_flags s) \<and>
      fits nonempty kTextLen (s_text s) \<and> fits topic_ok 128 (s_topic s) \<and>
      fits wl_name_ok kWlLen (s_as_name s) \<and> fits wl_name_ok kWlLen (s_wl s) \<and>
      fits nonempty kIdLen (s_fixed_id s) \<and> fits nonempty kPathLen (s_file s) \<and>
      load_ok (s_has_count s) (s_count s) (s_has_rate s) (s_rate s) (s_has_dur s) (s_duration_s s) \<and>
      in_range 0 1 (s_loss s) \<and> in_range 0 3600000000000 (s_delay_ns s) \<and>
      in_range 0 3600000000000 (s_jitter_ns s) \<and> in_range 0 1000000 (s_kbps s) \<and>
      in_range 0 100 (s_dup_pct s) \<and> in_range 0 kMaxTimeoutS (s_slow_secs s) \<and>
      in_range 0 65536 (s_mb s) \<and> in_range 0 kBenchWeld (s_warmup s) \<and>
      in_range 0 65536 (s_pay_bytes s) \<and> (s_has_ramp s \<longrightarrow> ramp_ok (s_ramp s)) \<and> stops_ok (s_ramp s) \<and>
      generic_ok (s_gen s) \<and> push_ok (s_push s))"

lemma fits_empty [simp]: "fits ok n [] = (0 < n)"
  by (simp add: fits_def)

lemmas cap_defs = kTextLen_def kIdLen_def kPathLen_def kWlLen_def kBenchWeld_def kMaxRate_def kMaxTimeoutS_def
  kDurZap_def kDurFresh_def SIGTERM_def SIGKILL_def

lemma step0_ok: "0 < n \<Longrightarrow> step_ok n ((step0 line)\<lparr>s_kind := k\<rparr>)"
  by (simp add: step_ok_def step0_def stops_ok_def generic_ok_def push_ok_def indices_ok_def load_ok_def in_range_def cap_defs)

lemma in_rangeI [simp]: "lo \<le> x \<Longrightarrow> x \<le> hi \<Longrightarrow> in_range lo hi x"
  by (simp add: in_range_def)

lemma fitsI [simp]: "ok (Some t) \<Longrightarrow> length t < n \<Longrightarrow> fits ok n t"
  by (simp add: fits_def)

lemma word_small: "0 \<le> x \<Longrightarrow> x < 2 ^ 64 \<Longrightarrow> uint (of_int x :: u64) = x"
  by (simp add: unsigned_of_int take_bit_int_eq_self)

lemma word_range:
  assumes "0 \<le> x" "x \<le> hi" "hi < 2 ^ 64"
  shows "in_range 0 (of_int hi) (of_int x :: u64)"
  using assms word_small [of x] word_small [of hi] by (simp add: in_range_def word_le_def)

lemma submitted_fits: "fits wl_name_ok kWlLen ''submitted''"
  by (simp add: fits_def wl_name_ok_def alnum_def between_def kWlLen_def)

lemma word_product:
  assumes "0 \<le> a" "a \<le> kMaxRate" "0 \<le> b" "b \<le> kMaxTimeoutS" "0 \<le> c" "c < 2 ^ 63"
  shows "(of_int c < (of_int a * of_int b :: u64)) = (c < a * b)"
proof -
  have "a * b \<le> kMaxRate * kMaxTimeoutS" using assms by (intro mult_mono) auto
  then have "uint (of_int (a * b) :: u64) = a * b"
    using assms by (intro word_small) (simp_all add: kMaxRate_def kMaxTimeoutS_def)
  moreover have "uint (of_int c :: u64) = c" using assms by (intro word_small) simp_all
  ultimately show ?thesis by (simp add: word_less_def)
qed

text \<open>What a helper of the linter keeps of a step.\<close>

definition loaded :: "ex_step \<Rightarrow> bool" where
  "loaded s = (s_has_ramp s \<or> s_has_rate s \<and> (s_has_count s \<or> s_has_dur s))"

definition keeps :: "int \<Rightarrow> ex_step \<Rightarrow> ex_step \<Rightarrow> bool" where
  "keeps n s s' =
     ((step_ok n s \<longrightarrow> step_ok n s') \<and> s_has_dur s' = s_has_dur s \<and> (loaded s \<longrightarrow> loaded s') \<and> s_kind s' = s_kind s)"

named_theorems keep_intros

lemma keeps_refl [simp]: "keeps n s s"
  by (simp add: keeps_def)

lemma keeps_trans: "keeps n s t \<Longrightarrow> keeps n t u \<Longrightarrow> keeps n s u"
  by (simp add: keeps_def)

lemma keepsD: "keeps n s s' \<Longrightarrow> step_ok n s \<Longrightarrow> step_ok n s'"
  by (simp add: keeps_def)

lemma opt_keeps: "opt p s k = Accept s' \<Longrightarrow> (\<And>q. p = Some q \<Longrightarrow> k q = Accept s' \<Longrightarrow> keeps n s s') \<Longrightarrow> keeps n s s'"
  by auto

lemma if_keeps:
  "(if b then m else m') = Accept s' \<Longrightarrow> (m = Accept s' \<Longrightarrow> keeps n s s') \<Longrightarrow> (m' = Accept s' \<Longrightarrow> keeps n s s') \<Longrightarrow> keeps n s s'"
  by (cases b) simp_all

lemma opt_pred: "opt p s k = Accept s' \<Longrightarrow> Q s \<Longrightarrow> (\<And>q. Q s \<Longrightarrow> k q = Accept s' \<Longrightarrow> Q s') \<Longrightarrow> Q s'"
  by auto

lemma val_topic_keeps: "val_topic q s = Accept s' \<Longrightarrow> keeps n s s'"
  by (clarsimp simp: val_topic_def step_ok_def keeps_def loaded_def)

lemma val_image_keeps: "val_image q s = Accept s' \<Longrightarrow> keeps n s s'"
  by (clarsimp simp: val_image_def step_ok_def keeps_def loaded_def)

lemma val_as_keeps: "val_as q s = Accept s' \<Longrightarrow> keeps n s s'"
  by (clarsimp simp: val_as_def step_ok_def keeps_def loaded_def)

lemma val_flags_keeps: "val_flags q s = Accept s' \<Longrightarrow> keeps n s s'"
  by (clarsimp simp: val_flags_def step_ok_def keeps_def loaded_def)

lemma val_payload_keeps: "val_payload q s = Accept s' \<Longrightarrow> keeps n s s'"
  by (clarsimp simp: val_payload_def kBenchBytes_def)
    (simp add: step_ok_def keeps_def loaded_def word_range [of _ 65536, simplified] split: if_split)

lemma val_text_keeps: "val_text q bad long s = Accept s' \<Longrightarrow> keeps n s s'"
  by (clarsimp simp: val_text_def step_ok_def keeps_def loaded_def Let_def)

lemma val_wl_keeps: "val_wl p s = Accept s' \<Longrightarrow> keeps n s s'"
  by (clarsimp simp: val_wl_def step_ok_def keeps_def loaded_def submitted_fits split: option.splits)

lemma val_rate_ok: "val_rate q s = Accept s' \<Longrightarrow> step_ok n s \<Longrightarrow> \<not> s_has_dur s \<Longrightarrow> step_ok n s' \<and> \<not> s_has_dur s'"
  by (clarsimp simp: val_rate_def step_ok_def load_ok_def)

text \<open>The duration is checked last: until then it is left out of what is known.\<close>

lemma step_ok_timed:
  "step_ok n s \<longleftrightarrow> step_ok n (s\<lparr>s_has_dur := False\<rparr>) \<and>
     (s_has_dur s \<longrightarrow> 1 \<le> s_duration_s s \<and> s_rate s * s_duration_s s \<le> kBenchWeld)"
  by (simp add: step_ok_def load_ok_def) blast

lemma count_ok:
  "opt p s (\<lambda>q. bind_lint (int_in 1 cap q msg) (\<lambda>x. Accept (s\<lparr>s_count := x, s_has_count := True\<rparr>))) = Accept s' \<Longrightarrow>
   step_ok n s \<Longrightarrow> \<not> s_has_dur s \<Longrightarrow> cap \<le> kBenchWeld \<Longrightarrow> step_ok n s' \<and> \<not> s_has_dur s' \<and> s_rate s' = s_rate s"
  by (simp only: opt_Accept, elim disjE; clarsimp simp: step_ok_def load_ok_def)

lemma duration_ok:
  "opt p s (\<lambda>q. bind_lint (int_in 1 kMaxTimeoutS q msg) (\<lambda>x. Accept (s\<lparr>s_duration_s := x, s_has_dur := True\<rparr>))) = Accept s' \<Longrightarrow>
   step_ok n s \<Longrightarrow> \<not> s_has_dur s \<Longrightarrow>
   step_ok n (s'\<lparr>s_has_dur := False\<rparr>) \<and> (s_has_dur s' \<longrightarrow> 1 \<le> s_duration_s s' \<and> s_duration_s s' \<le> kMaxTimeoutS) \<and> s_rate s' = s_rate s"
  by (simp only: opt_Accept, elim disjE; clarsimp simp: step_ok_def load_ok_def)

lemma warmup_ok:
  "opt p s (\<lambda>q. bind_lint (int_in 0 kBenchWeld q msg) (\<lambda>x. Accept (s\<lparr>s_warmup := x\<rparr>))) = Accept s' \<Longrightarrow>
   step_ok n (s\<lparr>s_has_dur := False\<rparr>) \<Longrightarrow>
   step_ok n (s'\<lparr>s_has_dur := False\<rparr>) \<and> s_has_dur s' = s_has_dur s \<and> s_duration_s s' = s_duration_s s \<and> s_rate s' = s_rate s"
  by (simp only: opt_Accept, elim disjE; clarsimp simp: step_ok_def load_ok_def)

lemma timed_ok:
  assumes "step_ok n (s\<lparr>s_has_dur := False\<rparr>)" "s_has_dur s \<longrightarrow> 1 \<le> s_duration_s s \<and> s_duration_s s \<le> kMaxTimeoutS"
    "\<not> (s_has_dur s \<and> (of_int cap < (of_int (s_rate s) * of_int (s_duration_s s) :: u64)))" "0 \<le> cap" "cap \<le> kBenchWeld"
  shows "step_ok n s"
proof -
  have "in_range 0 kMaxRate (s_rate s)" using assms(1) by (simp add: step_ok_def load_ok_def)
  then have "s_has_dur s \<Longrightarrow> s_rate s * s_duration_s s \<le> cap"
    using assms(2-5) word_product [of "s_rate s" "s_duration_s s" cap] by (simp add: in_range_def kBenchWeld_def)
  then show ?thesis using assms by (subst step_ok_timed) auto
qed

lemma val_load_ok:
  assumes "val_load val line cap s = Accept s'" "step_ok n s" "\<not> s_has_dur s" "0 \<le> cap" "cap \<le> kBenchWeld"
  shows "step_ok n s'"
proof -
  from assms(1) obtain q s1 s2 s3 where
    1: "val_rate q s = Accept s1" and
    2: "opt (find_key val ''count'') s1 (\<lambda>q. bind_lint (int_in 1 cap q ''benchmark count out of range'')
         (\<lambda>x. Accept (s1\<lparr>s_count := x, s_has_count := True\<rparr>))) = Accept s2" and
    3: "opt (find_key val ''duration_s'') s2 (\<lambda>q. bind_lint (int_in 1 kMaxTimeoutS q ''duration_s must be 1..3600'')
         (\<lambda>x. Accept (s2\<lparr>s_duration_s := x, s_has_dur := True\<rparr>))) = Accept s3" and
    4: "opt (find_key val ''warmup'') s3 (\<lambda>q. bind_lint (int_in 0 kBenchWeld q ''warmup must be 0..1000'')
         (\<lambda>x. Accept (s3\<lparr>s_warmup := x\<rparr>))) = Accept s'" and
    5: "\<not> (s_has_dur s' \<and> (of_int cap < (of_int (s_rate s') * of_int (s_duration_s s') :: u64)))"
    unfolding val_load_def bind_Accept req_Accept need_Accept by (metis lint.inject(1))
  note s1 = val_rate_ok [OF 1 assms(2,3)]
  note s2 = count_ok [OF 2 conjunct1 [OF s1] conjunct2 [OF s1] assms(5)]
  then have s3: "step_ok n (s3\<lparr>s_has_dur := False\<rparr>) \<and> (s_has_dur s3 \<longrightarrow> 1 \<le> s_duration_s s3 \<and> s_duration_s s3 \<le> kMaxTimeoutS)"
    using duration_ok [OF 3] by blast
  with warmup_ok [OF 4] have "step_ok n (s'\<lparr>s_has_dur := False\<rparr>)"
    "s_has_dur s' \<longrightarrow> 1 \<le> s_duration_s s' \<and> s_duration_s s' \<le> kMaxTimeoutS" by auto
  from timed_ok [OF this 5 assms(4,5)] show ?thesis .
qed


lemma endpoint_range: "ep_parse_node n sut nd = Some (k, x) \<Longrightarrow> in_range 0 (n - 1) x"
  by (auto simp: ep_parse_node_def ep_prefix_def ros_from_def ep_index_def Let_def in_range_def
      split: option.splits if_splits)

lemma read_indices_ok:
  "read_indices n acc its = Accept ix \<Longrightarrow> indices_ok n acc \<Longrightarrow> indices_ok n ix"
  by (induction n acc its rule: read_indices.induct) (auto simp: indices_ok_def in_range_def split: if_splits)

lemma nodeset_ok: "val_nodeset nd f = Accept (ix, al) \<Longrightarrow> indices_ok (f_nodes f) ix"
  using read_indices_ok [of "f_nodes f" "[]" "items_of nd" ix]
  by (auto simp: val_nodeset_def indices_ok_def split: if_splits)

lemma float_range: "float_of sp = Some x \<Longrightarrow> in_range (- 1000000) 1000000 x"
  by (auto simp: float_of_def in_range_def split: option.splits if_splits)

lemma dur_range: "dur_of t = Some d \<Longrightarrow> in_range kDurFresh kDurZap d"
  by (auto simp: dur_of_def in_range_def kDurFresh_def kDurKeep_def kDurRot_def kDurWipe_def kDurZap_def split: if_splits)

lemma step_kill_ok: "step_kill val f line s = Accept s' \<Longrightarrow> step_ok (f_nodes f) s \<Longrightarrow> step_ok (f_nodes f) s'"
  by (clarsimp simp: step_kill_def step_ok_def SIGKILL_def SIGTERM_def split: if_splits)

lemma step_restart_ok: "step_restart val f line s = Accept s' \<Longrightarrow> step_ok (f_nodes f) s \<Longrightarrow> step_ok (f_nodes f) s'"
  by (clarsimp simp: step_restart_def step_ok_def dur_range)

lemma step_move_ok: "step_move val f line s = Accept s' \<Longrightarrow> step_ok (f_nodes f) s \<Longrightarrow> step_ok (f_nodes f) s'"
  by (clarsimp simp: step_move_def step_ok_def float_range)

lemma step_diskfill_ok: "step_diskfill val f line s = Accept s' \<Longrightarrow> step_ok (f_nodes f) s \<Longrightarrow> step_ok (f_nodes f) s'"
  by (clarsimp simp: step_diskfill_def step_ok_def kMaxMb_def word_range [of _ 65536, simplified])

lemma step_diskro_ok: "step_diskro val f line s = Accept s' \<Longrightarrow> step_ok (f_nodes f) s \<Longrightarrow> step_ok (f_nodes f) s'"
  by (clarsimp simp: step_diskro_def step_ok_def split: if_splits)

lemma step_jcorrupt_ok: "step_jcorrupt val f line s = Accept s' \<Longrightarrow> step_ok (f_nodes f) s \<Longrightarrow> step_ok (f_nodes f) s'"
  by (clarsimp simp: step_jcorrupt_def step_ok_def)

lemma step_slow_ok: "step_slow val f line s = Accept s' \<Longrightarrow> step_ok (f_nodes f) s \<Longrightarrow> step_ok (f_nodes f) s'"
  by (clarsimp simp: step_slow_def step_ok_def nodeset_ok)

lemma step_stop_ok: "step_stop val f line s = Accept s' \<Longrightarrow> step_ok (f_nodes f) s \<Longrightarrow> step_ok (f_nodes f) s'"
  using val_wl_keeps [of "find_key val ''workload''" s s' "f_nodes f"] by (clarsimp simp: step_stop_def keeps_def)

lemma step_update_ok: "step_update val f line s = Accept s' \<Longrightarrow> step_ok (f_nodes f) s \<Longrightarrow> step_ok (f_nodes f) s'"
  unfolding step_update_def by (auto dest!: val_wl_keeps val_image_keeps intro: keepsD)

lemma fault_loss_keeps: "fault_loss val s = Accept s' \<Longrightarrow> keeps n s s'"
  unfolding fault_loss_def by (erule opt_keeps) (clarsimp simp: step_ok_def keeps_def loaded_def)

lemma fault_int_keeps:
  "fault_int val key hi msg upd s = Accept s' \<Longrightarrow>
   (\<And>x. 0 \<le> x \<Longrightarrow> x \<le> hi \<Longrightarrow> keeps n s ((upd x s)\<lparr>s_has_fault := True\<rparr>)) \<Longrightarrow> keeps n s s'"
  by (auto simp: fault_int_def)

lemma drop_direction_keeps: "drop_direction val s = Accept s' \<Longrightarrow> keeps n s s'"
  unfolding drop_direction_def by (erule opt_keeps) (clarsimp simp: step_ok_def keeps_def loaded_def split: if_splits)

lemma push_word_ok: "push_word a m slash = Some t \<Longrightarrow> statedir_ok (Some t) \<and> length t < m"
  by (auto simp: push_word_def statedir_ok_def list_all_iff split: option.splits if_splits)

lemma push_or_ok: "push_or val key d m slash msg = Accept t \<Longrightarrow> fits statedir_ok m d \<Longrightarrow> fits statedir_ok m t"
  unfolding push_or_def opt_Accept using push_word_ok by (auto simp: fits_def)

lemma statedir_words:
  "fits statedir_ok 64 ''concord-test''" "fits statedir_ok 64 ''latest''"
  "fits statedir_ok kPathLen ''img/rootfs''" "fits statedir_ok 128 ''/probe''"
  by (simp_all add: fits_def statedir_ok_def alnum_def digit_def between_def kPathLen_def)

lemma entry_ok:
  "opt p ''/probe'' (\<lambda>a. req (push_word a 128 True) (node_line a) msg (\<lambda>w. need (P w) (node_line a) msg (Accept w))) = Accept t \<Longrightarrow>
   fits statedir_ok 128 t"
  unfolding opt_Accept using push_word_ok statedir_words(4) by (auto simp: fits_def)

lemma step_push_ok: "step_push val f line s = Accept s' \<Longrightarrow> step_ok (f_nodes f) s \<Longrightarrow> step_ok (f_nodes f) s'"
  by (clarsimp simp: step_push_def step_ok_def push_ok_def push_or_ok statedir_words entry_ok simp del: opt_Accept)

lemma keeps_sender: "in_range 0 (n - 1) x \<Longrightarrow> keeps n s (s\<lparr>s_node := x, s_from_kind := k\<rparr>)"
  by (simp add: keeps_def loaded_def step_ok_def)

lemma keeps_text: "nonempty (Some t) \<Longrightarrow> length t < kTextLen \<Longrightarrow> keeps n s (s\<lparr>s_text := t\<rparr>)"
  by (simp add: keeps_def loaded_def step_ok_def)

lemma keeps_no_text: "keeps n s (s\<lparr>s_text := []\<rparr>)"
  by (simp add: keeps_def loaded_def step_ok_def kTextLen_def)

lemma opt_rate_ok:
  "opt p s (\<lambda>q. val_rate q s) = Accept s' \<Longrightarrow> step_ok n s \<Longrightarrow> \<not> s_has_dur s \<Longrightarrow> step_ok n s' \<and> \<not> s_has_dur s'"
  using val_rate_ok by auto

lemma opt_topic: "opt p s (\<lambda>q. val_topic q s) = Accept s' \<Longrightarrow> keeps n s s'"
  using val_topic_keeps by auto

lemma opt_flags: "opt p s (\<lambda>q. val_flags q s) = Accept s' \<Longrightarrow> keeps n s s'"
  using val_flags_keeps by auto

lemma opt_as: "opt p s (\<lambda>q. val_as q s) = Accept s' \<Longrightarrow> keeps n s s'"
  using val_as_keeps by auto

lemma opt_payload: "opt p s (\<lambda>q. val_payload q s) = Accept s' \<Longrightarrow> keeps n s s'"
  using val_payload_keeps by auto

lemma submit_count_ok:
  "opt p s (\<lambda>q. bind_lint (int_in 1 kMaxCount q m1) (\<lambda>x.
     need (s_has_as s) (l1 q) m2 (need (\<not> name_too_long s) (l1 q) m3 (
     Accept (s\<lparr>s_count := x, s_has_count := True\<rparr>))))) = Accept s' \<Longrightarrow>
   step_ok n s \<Longrightarrow> \<not> s_has_dur s \<Longrightarrow> step_ok n s' \<and> \<not> s_has_dur s'"
  by (simp only: opt_Accept, elim disjE; clarsimp simp: step_ok_def load_ok_def kMaxCount_def kBenchWeld_def)

lemma submit_id_ok:
  "opt p s (\<lambda>q. bind_lint (text_in nonempty kIdLen q m1 m2) (\<lambda>t. Accept (s\<lparr>s_fixed_id := t, s_has_id := True\<rparr>))) = Accept s' \<Longrightarrow>
   keeps n s s'"
  by (simp only: opt_Accept, elim disjE; clarsimp simp: step_ok_def keeps_def loaded_def)

lemma step_pub_ok:
  assumes "step_pub val f line s = Accept s'" "step_ok (f_nodes f) s" "\<not> s_has_dur s"
  shows "step_ok (f_nodes f) s'"
proof -
  from assms(1) obtain a k n t s1 where
    e: "ep_parse_node (f_nodes f) (f_sut f) a = Some (k, n)" and
    t: "nonempty (Some t)" "length t < kTextLen" and
    1: "opt (find_key val ''topic'') (s\<lparr>s_node := n, s_from_kind := k, s_text := t\<rparr>)
       (\<lambda>q. val_topic q (s\<lparr>s_node := n, s_from_kind := k, s_text := t\<rparr>)) = Accept s1" and
    2: "opt (find_key val ''rate'') s1 (\<lambda>q. val_rate q s1) = Accept s'"
    unfolding step_pub_def by (auto simp del: opt_Accept)
  have "keeps (f_nodes f) s s1"
    using keeps_trans [OF keeps_sender [OF endpoint_range [OF e]] keeps_trans [OF keeps_text [OF t] opt_topic]] 1 by simp
  then show ?thesis using opt_rate_ok [OF 2] assms(2,3) by (simp add: keeps_def)
qed

lemma step_replay_ok:
  assumes "step_replay val f line s = Accept s'" "step_ok (f_nodes f) s"
  shows "step_ok (f_nodes f) s'"
proof -
  from assms(1) obtain t s1 where
    t: "nonempty (Some t)" "length t < kPathLen" and
    1: "opt (find_key val ''from'') (s\<lparr>s_file := t, s_node := 0\<rparr>) (\<lambda>b.
       bind_lint (index_in (f_nodes f) b) (\<lambda>x. Accept (s\<lparr>s_file := t, s_node := x\<rparr>))) = Accept s1" and
    2: "opt (find_key val ''topic'') s1 (\<lambda>c. val_topic c s1) = Accept s'"
    unfolding step_replay_def by (auto simp del: opt_Accept)
  have "0 < f_nodes f" using assms(2) by (auto simp: step_ok_def in_range_def)
  with t have "keeps (f_nodes f) s (s\<lparr>s_file := t, s_node := 0\<rparr>)" by (simp add: keeps_def loaded_def step_ok_def)
  moreover have "keeps (f_nodes f) (s\<lparr>s_file := t, s_node := 0\<rparr>) s1"
    by (rule opt_keeps [OF 1]) (use t in \<open>clarsimp simp: keeps_def loaded_def step_ok_def\<close>)
  ultimately have "step_ok (f_nodes f) s1" using assms(2) by (meson keepsD)
  then show ?thesis using keepsD [OF opt_topic [OF 2]] by blast
qed

lemma step_submit_ok:
  assumes "step_submit val f line s = Accept s'" "step_ok (f_nodes f) s" "\<not> s_has_dur s"
  shows "step_ok (f_nodes f) s'"
proof -
  from assms(1) obtain a b k n s1 s2 s3 s4 s5 where
    e: "ep_parse_node (f_nodes f) (f_sut f) a = Some (k, n)" and
    1: "val_image b (s\<lparr>s_node := n, s_from_kind := k\<rparr>) = Accept s1" and
    2: "opt (find_key val ''flags'') s1 (\<lambda>q. val_flags q s1) = Accept s2" and
    3: "opt (find_key val ''as'') s2 (\<lambda>q. val_as q s2) = Accept s3" and
    4: "opt (find_key val ''count'') s3 (\<lambda>q.
       bind_lint (int_in 1 kMaxCount q ''count must be 1..100'') (\<lambda>x.
       need (s_has_as s3) (node_line q) ''count needs as:'' (
       need (\<not> name_too_long s3) (node_line q) ''workload name too long for count'' (
       Accept (s3\<lparr>s_count := x, s_has_count := True\<rparr>))))) = Accept s4" and
    5: "opt (find_key val ''id'') s4 (\<lambda>q.
       bind_lint (text_in nonempty kIdLen q ''id must be a string'' ''id too long'') (\<lambda>t.
       Accept (s4\<lparr>s_fixed_id := t, s_has_id := True\<rparr>))) = Accept s5" and
    6: "opt (find_key val ''rate'') s5 (\<lambda>q. val_rate q s5) = Accept s'"
    unfolding step_submit_def by (auto simp del: opt_Accept)
  have s3: "keeps (f_nodes f) s s3"
    by (rule keeps_trans [OF keeps_sender [OF endpoint_range [OF e]]],
        rule keeps_trans [OF val_image_keeps [OF 1]], rule keeps_trans [OF opt_flags [OF 2] opt_as [OF 3]])
  have "step_ok (f_nodes f) s4 \<and> \<not> s_has_dur s4"
    by (rule submit_count_ok [OF 4]) (use s3 assms(2,3) in \<open>simp_all add: keeps_def\<close>)
  then have "step_ok (f_nodes f) s5 \<and> \<not> s_has_dur s5" using submit_id_ok [OF 5, of "f_nodes f"] by (simp add: keeps_def)
  then show ?thesis using opt_rate_ok [OF 6] by blast
qed

lemma step_drop_ok:
  assumes "step_drop val f line s = Accept s'" "step_ok (f_nodes f) s"
  shows "step_ok (f_nodes f) s'"
proof (cases "\<not> is_map val \<or> s_kind s = ST_HEAL")
  case True
  with assms show ?thesis by (clarsimp simp: step_drop_def step_ok_def nodeset_ok)
next
  case False
  with assms(1) obtain a ix al s1 s2 s3 s4 s5 where
    a: "val_nodeset a f = Accept (ix, al)" and
    1: "fault_loss val (s\<lparr>s_idx := ix, s_all := al\<rparr>) = Accept s1" and
    2: "fault_int val ''delay_ms'' kMaxMs ''delay_ms must be 0..3600000''
          (\<lambda>x. s_delay_ns_update (\<lambda>_. of_int x * 1000000)) s1 = Accept s2" and
    3: "fault_int val ''jitter_ms'' kMaxMs ''jitter_ms must be 0..3600000''
          (\<lambda>x. s_jitter_ns_update (\<lambda>_. of_int x * 1000000)) s2 = Accept s3" and
    4: "fault_int val ''kbps'' kMaxKbps ''kbps must be 0..1000000'' (\<lambda>x. s_kbps_update (\<lambda>_. of_int x)) s3 = Accept s4" and
    5: "fault_int val ''dup_pct'' 100 ''dup_pct must be 0..100'' (\<lambda>x. s_dup_pct_update (\<lambda>_. x)) s4 = Accept s5" and
    6: "drop_direction val s5 = Accept s'"
    unfolding step_drop_def by auto
  have ns: "in_range 0 3600000000000 (of_int x * 1000000 :: u64)" if "0 \<le> x" "x \<le> kMaxMs" for x
    using that word_range [of "x * 1000000" 3600000000000] by (simp add: kMaxMs_def)
  have kb: "in_range 0 1000000 (of_int x :: u64)" if "0 \<le> x" "x \<le> kMaxKbps" for x
    using that word_range [of x 1000000] by (simp add: kMaxKbps_def)
  let ?n = "f_nodes f"
  have "step_ok ?n (s\<lparr>s_idx := ix, s_all := al\<rparr>)" using assms(2) nodeset_ok [OF a] by (simp add: step_ok_def)
  moreover have "keeps ?n (s\<lparr>s_idx := ix, s_all := al\<rparr>) s1" by (rule fault_loss_keeps [OF 1])
  moreover have "keeps ?n s1 s2" by (rule fault_int_keeps [OF 2]) (simp add: keeps_def loaded_def step_ok_def ns del: of_int_eq_id)
  moreover have "keeps ?n s2 s3" by (rule fault_int_keeps [OF 3]) (simp add: keeps_def loaded_def step_ok_def ns)
  moreover have "keeps ?n s3 s4" by (rule fault_int_keeps [OF 4]) (simp add: keeps_def loaded_def step_ok_def kb)
  moreover have "keeps ?n s4 s5" by (rule fault_int_keeps [OF 5]) (simp add: keeps_def loaded_def step_ok_def)
  moreover have "keeps ?n s5 s'" by (rule drop_direction_keeps [OF 6])
  ultimately show ?thesis by (meson keepsD)
qed


lemmas lint_steps = bind_Accept need_Accept req_Accept Let_def split_paired_Ex prod.case lint.inject

lemma step_rospub_ok:
  assumes "step_rospub val f line s = Accept s'" "step_ok (f_nodes f) s" "\<not> s_has_dur s"
  shows "step_ok (f_nodes f) s'"
proof -
  from assms(1) obtain a c q k n s1 s2 s3 s4 s5 where
    e: "ep_parse_node (f_nodes f) (f_sut f) a = Some (k, n)" and
    1: "val_topic c (s\<lparr>s_node := n, s_from_kind := EP_ROS\<rparr>) = Accept s1" and
    2: "opt (find_key val ''payload_bytes'') s1 (\<lambda>q. val_payload q s1) = Accept s2" and
    3: "(case find_key val ''text'' of
          Some b \<Rightarrow> val_text b ''text must be a string'' ''text too long'' s2
        | None \<Rightarrow>
            need (s_has_pay s2) line ''ros_pub needs text or payload_bytes'' (
            Accept (s2\<lparr>s_text := []\<rparr>))) = Accept s3" and
    4: "val_rate q s3 = Accept s4" and
    5: "opt (find_key val ''count'') s4 (\<lambda>q.
       bind_lint (int_in 1 kBenchWeld q ''ros_pub count out of range'') (\<lambda>x.
       Accept (s4\<lparr>s_count := x, s_has_count := True\<rparr>))) = Accept s5" and
    6: "opt (find_key val ''duration_s'') s5 (\<lambda>q.
       bind_lint (int_in 1 kMaxTimeoutS q ''duration_s must be 1..3600'') (\<lambda>x.
       Accept (s5\<lparr>s_duration_s := x, s_has_dur := True\<rparr>))) = Accept s'" and
    7: "\<not> (s_has_dur s' \<and> (of_int kBenchWeld < (of_int (s_rate s') * of_int (s_duration_s s') :: u64)))"
    by (simp only: step_rospub_def lint_steps, elim exE conjE, hypsubst) (rule that; assumption)
  have "keeps (f_nodes f) s s2"
    by (rule keeps_trans [OF keeps_sender [OF endpoint_range [OF e]]], rule keeps_trans [OF val_topic_keeps [OF 1] opt_payload [OF 2]])
  moreover have "keeps (f_nodes f) s2 s3"
    using 3 keeps_no_text by (cases "find_key val ''text''") (clarsimp, simp add: val_text_keeps)
  ultimately have s4: "step_ok (f_nodes f) s4 \<and> \<not> s_has_dur s4" using val_rate_ok [OF 4, of "f_nodes f"] assms(2,3) by (simp add: keeps_def)
  have s5: "step_ok (f_nodes f) s5 \<and> \<not> s_has_dur s5" using count_ok [OF 5, of "f_nodes f"] s4 by simp
  have d: "step_ok (f_nodes f) (s'\<lparr>s_has_dur := False\<rparr>)" "s_has_dur s' \<longrightarrow> 1 \<le> s_duration_s s' \<and> s_duration_s s' \<le> kMaxTimeoutS"
    using duration_ok [OF 6 conjunct1 [OF s5] conjunct2 [OF s5]] by blast+
  show ?thesis by (rule timed_ok [OF d 7]) (simp_all add: kBenchWeld_def)
qed

lemma val_ramp_keeps:
  assumes "val_ramp nd s cap = Accept s'" "0 \<le> cap" "cap \<le> kBenchWeld"
  shows "keeps n s s'"
proof -
  from assms(1) obtain start step dur rate steps total r1 r2 where
    b: "1 \<le> start" "start \<le> rate" "1 \<le> step" "step \<le> kMaxRate" "1 \<le> dur" "dur \<le> kMaxTimeoutS" "1 \<le> rate" "rate \<le> kMaxRate"
      "1 \<le> steps" "steps \<le> kRampSteps" "1 \<le> total" "total \<le> kMaxTimeoutS" and
    1: "opt (find_key nd ''loss_pct'') ((s_ramp s)\<lparr>ramp_start := start, ramp_step := step, ramp_step_dur := dur,
               ramp_max_rate := rate, ramp_max_steps := steps, ramp_max_dur := total\<rparr>) (\<lambda>q.
       bind_lint (int_in 0 100 q ''loss_pct must be 0..100'') (\<lambda>x.
       Accept ((s_ramp s)\<lparr>ramp_start := start, ramp_step := step, ramp_step_dur := dur,
               ramp_max_rate := rate, ramp_max_steps := steps, ramp_max_dur := total,
               ramp_loss_pct := x, ramp_has_loss := True\<rparr>))) = Accept r1" and
    2: "opt (find_key nd ''p99_ms'') r1 (\<lambda>q.
       bind_lint (int_in 0 kMaxMs q ''p99_ms must be 0..3600000'') (\<lambda>x.
       Accept (r1\<lparr>ramp_p99 := x, ramp_has_p99 := True\<rparr>))) = Accept r2" and
    h: "ramp_has_loss r2 \<or> ramp_has_p99 r2" and
    p: "of_int rate * of_int dur \<le> (of_int cap :: u64)" and
    s': "s\<lparr>s_ramp := r2, s_has_ramp := True\<rparr> = s'"
    by (simp only: val_ramp_def req_int_def int_in_Accept not_less lint_steps, elim exE conjE) (rule that; assumption)
  have "stops_ok (s_ramp s) \<longrightarrow> stops_ok r1"
    using 1 by (simp only: opt_Accept, elim disjE; clarsimp simp: stops_ok_def)
  moreover have "stops_ok r1 \<longrightarrow> stops_ok r2"
    using 2 by (simp only: opt_Accept, elim disjE; clarsimp simp: stops_ok_def)
  ultimately have st: "stops_ok (s_ramp s) \<longrightarrow> stops_ok r2" by blast
  have "ramp_start r1 = start \<and> ramp_step r1 = step \<and> ramp_step_dur r1 = dur \<and> ramp_max_rate r1 = rate \<and>
      ramp_max_steps r1 = steps \<and> ramp_max_dur r1 = total"
    using 1 by (simp only: opt_Accept, elim disjE; clarsimp)
  moreover have "ramp_start r2 = ramp_start r1 \<and> ramp_step r2 = ramp_step r1 \<and> ramp_step_dur r2 = ramp_step_dur r1 \<and>
      ramp_max_rate r2 = ramp_max_rate r1 \<and> ramp_max_steps r2 = ramp_max_steps r1 \<and> ramp_max_dur r2 = ramp_max_dur r1"
    using 2 by (simp only: opt_Accept, elim disjE; clarsimp)
  ultimately have v: "ramp_start r2 = start" "ramp_step r2 = step" "ramp_step_dur r2 = dur" "ramp_max_rate r2 = rate"
      "ramp_max_steps r2 = steps" "ramp_max_dur r2 = total" by simp_all
  have "rate * dur \<le> cap" using word_product [of rate dur cap] b p assms(2,3) by (simp add: kBenchWeld_def not_less [symmetric] del: not_less)
  with b h v assms(3) have "ramp_ok r2" by (simp add: ramp_ok_def)
  with st show ?thesis by (simp add: s' [symmetric] keeps_def loaded_def step_ok_def)
qed


lemma val_bench_ramp_keeps:
  "val_bench_ramp val line cap s = Accept s' \<Longrightarrow> 0 \<le> cap \<Longrightarrow> cap \<le> kBenchWeld \<Longrightarrow> keeps n s s'"
  unfolding val_bench_ramp_def using val_ramp_keeps by auto

lemma val_echo_keeps:
  assumes "val_echo val f s = Accept s'"
  shows "keeps (f_nodes f) s s'"
  by (rule opt_keeps [OF assms [unfolded val_echo_def]])
    (clarsimp simp: keeps_def loaded_def step_ok_def endpoint_range)

lemma keeps_gen: "generic_ok g \<or> (\<exists>h. g = h (s_gen s) \<and> (generic_ok (s_gen s) \<longrightarrow> generic_ok (h (s_gen s)))) \<Longrightarrow> keeps n s (s\<lparr>s_gen := g\<rparr>)"
  by (auto simp: keeps_def loaded_def step_ok_def)

lemma val_via_fits: "val_via sd t wrong = Accept vs \<Longrightarrow> fits nonempty 32 vs"
  by (clarsimp simp: val_via_def split: option.splits)

lemma val_payload_tpl_keeps:
  "opt p s (\<lambda>pl.
       let ts = suite_scalar_str (Some pl) in
       need (nonempty ts) (l pl) m1 (
       bind_lint (ph_ok (l pl) False (the ts)) (\<lambda>_.
       bind_lint (text_in nonempty 512 pl m1 m2) (\<lambda>t.
       Accept (s\<lparr>s_gen := (s_gen s)\<lparr>send_tpl := t\<rparr>\<rparr>))))) = Accept s' \<Longrightarrow> keeps n s s'"
  by (simp only: opt_Accept, elim disjE; clarsimp simp: keeps_def loaded_def step_ok_def generic_ok_def Let_def)

lemma gen_pub_keeps:
  assumes "gen_pub sn f s = Accept s'"
  shows "keeps n s s'"
proof -
  from assms obtain s1 s2 s3 where
    1: "opt (find_key sn ''body'') (s\<lparr>s_text := []\<rparr>) (\<lambda>b.
       val_text b ''body must be a string'' ''body too long'' s) = Accept s1" and
    2: "opt (find_key sn ''payload_bytes'') s1 (\<lambda>pb. val_payload pb s1) = Accept s2" and
    3: "opt (find_key sn ''payload'') s2 (\<lambda>pl.
       let ts = suite_scalar_str (Some pl) in
       need (nonempty ts) (node_line pl) ''payload must be a string'' (
       bind_lint (ph_ok (node_line pl) False (the ts)) (\<lambda>_.
       bind_lint (text_in nonempty 512 pl ''payload must be a string'' ''payload too long'') (\<lambda>t.
       Accept (s2\<lparr>s_gen := (s_gen s2)\<lparr>send_tpl := t\<rparr>\<rparr>))))) = Accept s3" and
    4: "opt (find_key sn ''topic'') s3 (\<lambda>tp. val_topic tp s3) = Accept s'"
    by (simp only: gen_pub_def bind_Accept need_Accept lint.inject, elim exE conjE, hypsubst) (rule that; assumption)
  have "keeps n s s1" using 1 keeps_no_text val_text_keeps by auto
  from keeps_trans [OF this keeps_trans [OF opt_payload [OF 2] keeps_trans [OF val_payload_tpl_keeps [OF 3] opt_topic [OF 4]]]]
  show ?thesis .
qed

lemma gen_submit_keeps:
  assumes "gen_submit sn s = Accept s'"
  shows "keeps n s s'"
proof -
  from assms obtain b c s1 s2 where
    "val_image b s = Accept s1" "val_as c s1 = Accept s2"
    "opt (find_key sn ''flags'') s2 (\<lambda>fl. val_flags fl s2) = Accept s'"
    by (simp only: gen_submit_def bind_Accept need_Accept req_Accept, elim exE conjE) (rule that; assumption)
  then show ?thesis using keeps_trans val_image_keeps val_as_keeps opt_flags by blast
qed

lemma gen_send_keeps:
  assumes "gen_send sn f s = Accept s'"
  shows "keeps (f_nodes f) s s'"
proof -
  from assms obtain x vs k t where x: "0 \<le> x" "x < f_nodes f" and v: "val_via True t '' is observe-only'' = Accept vs" and
    r: "(if vs = ''workload-submit''
         then gen_submit sn (s\<lparr>s_node := x, s_gen := (s_gen s)\<lparr>send_via := vs\<rparr>, s_from_kind := k\<rparr>)
         else gen_pub sn f (s\<lparr>s_node := x, s_gen := (s_gen s)\<lparr>send_via := vs\<rparr>, s_from_kind := k\<rparr>)) = Accept s'"
    by (simp only: gen_send_def bind_Accept req_Accept index_in_Accept Let_def, elim exE conjE) (rule that; assumption)
  let ?s = "s\<lparr>s_node := x, s_gen := (s_gen s)\<lparr>send_via := vs\<rparr>, s_from_kind := k\<rparr>"
  have "keeps (f_nodes f) s ?s"
    using x val_via_fits [OF v] by (simp add: keeps_def loaded_def step_ok_def generic_ok_def)
  moreover have "keeps (f_nodes f) ?s s'"
    by (rule if_keeps [OF r]) (erule gen_submit_keeps, erule gen_pub_keeps)
  ultimately show ?thesis by (rule keeps_trans)
qed

lemma match_keeps:
  "match_journal m w s = Accept s' \<Longrightarrow> keeps n s s'"
  "match_running m s = Accept s' \<Longrightarrow> keeps n s s'"
  "match_text m w s = Accept s' \<Longrightarrow> keeps n s s'"
  by (clarsimp simp: match_journal_def match_running_def match_text_def Let_def keeps_def loaded_def step_ok_def generic_ok_def)+

lemma match_scrape_keeps: 
  assumes "match_scrape m s = Accept s'"
  shows "keeps n s s'"
proof -
  from assms obtain ps ms os thresh port vv where
    p: "opt (find_key m ''path'') ''/metrics'' (\<lambda>ph.
       text_in scrape_path_ok 128 ph ''bad path: want /metrics style'' ''path too long'') = Accept ps" and
    o: "scrape_metric_ok (Some ms)" "length ms < 128" "scrape_op_ok (Some os)" "length os < 8"
      "float_of vv = Some thresh" "1 \<le> port" "port \<le> 65535" and
    s': "s\<lparr>s_gen := (s_gen s)\<lparr>exp_path := ps, exp_metric := ms, exp_op := os, exp_thresh := thresh, exp_port := port\<rparr>\<rparr> = s'"
    by (simp only: match_scrape_def Let_def bind_Accept need_Accept req_Accept text_in_Accept int_in_Accept lint.inject, elim exE conjE)
      (rule that; assumption)
  have "scrape_path_ok (Some ''/metrics'')" by (simp add: scrape_path_ok_def alnum_def between_def)
  then have "fits scrape_path_ok 128 ps" using p by (auto simp: fits_def)
  with o show ?thesis by (simp add: s' [symmetric] keeps_def loaded_def step_ok_def generic_ok_def float_range)
qed

lemma gen_expect_keeps:
  assumes "gen_expect ex f w s = Accept s'"
  shows "keeps (f_nodes f) s s'"
proof -
  from assms obtain x vs k t m where x: "0 \<le> x" "x < f_nodes f" and v: "val_via False t '' is send-only'' = Accept vs" and
    r: "(if vs = ''journal-has'' then match_journal m w (s\<lparr>s_obs := x, s_gen := (s_gen s)\<lparr>expect_via := vs\<rparr>, s_on_kind := k\<rparr>)
         else if vs = ''workload-running'' then match_running m (s\<lparr>s_obs := x, s_gen := (s_gen s)\<lparr>expect_via := vs\<rparr>, s_on_kind := k\<rparr>)
         else if vs = ''prometheus-scrape'' then match_scrape m (s\<lparr>s_obs := x, s_gen := (s_gen s)\<lparr>expect_via := vs\<rparr>, s_on_kind := k\<rparr>)
         else match_text m w (s\<lparr>s_obs := x, s_gen := (s_gen s)\<lparr>expect_via := vs\<rparr>, s_on_kind := k\<rparr>)) = Accept s'"
    by (simp only: gen_expect_def bind_Accept req_Accept index_in_Accept Let_def, elim exE conjE) (rule that; assumption)
  let ?s = "s\<lparr>s_obs := x, s_gen := (s_gen s)\<lparr>expect_via := vs\<rparr>, s_on_kind := k\<rparr>"
  have "keeps (f_nodes f) s ?s"
    using x val_via_fits [OF v] by (simp add: keeps_def loaded_def step_ok_def generic_ok_def)
  moreover have "keeps (f_nodes f) ?s s'"
    by (rule if_keeps [OF r], erule match_keeps, erule if_keeps, erule match_keeps, erule if_keeps, erule match_scrape_keeps, erule match_keeps)
  ultimately show ?thesis by (rule keeps_trans)
qed


lemma load_or_ramp_ok:
  assumes "(if s_has_ramp s then Accept s else val_load val line cap s) = Accept s'" "step_ok n s" "\<not> s_has_dur s"
    "0 \<le> cap" "cap \<le> kBenchWeld"
  shows "step_ok n s'"
  using assms val_load_ok by (cases "s_has_ramp s") auto

lemma bench_caps: "0 \<le> (if b then kBenchConc else kBenchWeld)" "(if b then kBenchConc else kBenchWeld) \<le> kBenchWeld"
  by (simp_all add: kBenchConc_def kBenchWeld_def)

lemma val_bench_generic_ok:
  assumes "val_bench_generic val f line s = Accept s'" "step_ok (f_nodes f) s" "\<not> s_has_dur s"
  shows "step_ok (f_nodes f) s'"
proof -
  from assms(1) obtain sn ex s1 s2 s3 s4 s5 b where
    1: "gen_send sn f s = Accept s1" and
    2: "gen_expect ex f b s1 = Accept s2" and
    3: "val_bench_ramp val line (if b then kBenchConc else kBenchWeld) s2 = Accept s3" and
    4: "(if s_has_ramp s3 then Accept s3
        else
          bind_lint (val_load val line (if b then kBenchConc else kBenchWeld) s3) (\<lambda>s.
          need (\<not> (s_has_count s \<and> b \<and> name_too_long s)) line ''workload name too long for count'' (
          need (\<not> (s_has_dur s \<and> b \<and> name_too_long s)) line ''workload name too long for count'' (
          need (\<not> (s_has_ramp s \<and> b \<and> name_too_long s)) line ''workload name too long for count'' (
          Accept s))))) = Accept s4" and
    5: "val_echo val f s4 = Accept s5" and s': "s5\<lparr>s_has_generic := True\<rparr> = s'"
    by (simp only: val_bench_generic_def bind_Accept req_Accept need_Accept Let_def lint.inject, elim exE conjE)
      (rule that; assumption)
  note k = keeps_trans [OF gen_send_keeps [OF 1] keeps_trans [OF gen_expect_keeps [OF 2] val_bench_ramp_keeps [OF 3 bench_caps]]]
  have "step_ok (f_nodes f) s3 \<and> \<not> s_has_dur s3" using k assms(2,3) by (simp add: keeps_def)
  moreover have "(if s_has_ramp s3 then Accept s3 else val_load val line (if b then kBenchConc else kBenchWeld) s3) = Accept s4"
    using 4 by (cases "s_has_ramp s3") (simp_all only: if_True if_False simp_thms bind_Accept need_Accept lint.inject, blast)
  ultimately have "step_ok (f_nodes f) s4" using load_or_ramp_ok bench_caps by blast
  then have "step_ok (f_nodes f) s5" using keepsD [OF val_echo_keeps [OF 5]] by blast
  then show ?thesis by (simp add: s' [symmetric] step_ok_def)
qed

lemma bench_weld_keeps:
  assumes "bench_weld val f line s = Accept s'"
  shows "keeps (f_nodes f) s s'"
proof -
  from assms obtain a wi fk x k y s1 s2 where
    e: "ep_parse_node (f_nodes f) (f_sut f) a = Some (fk, x)" and
    1: "opt (find_key val ''text'') (s\<lparr>s_node := x, s_from_kind := fk, s_text := []\<rparr>) (\<lambda>b.
       val_text b ''text must be a string'' ''text too long'' (s\<lparr>s_node := x, s_from_kind := fk\<rparr>)) = Accept s1" and
    2: "opt (find_key val ''topic'') s1 (\<lambda>c. val_topic c s1) = Accept s2" and
    o: "ep_parse_node (f_nodes f) (f_sut f) wi = Some (k, y)" and
    3: "val_echo val f (s2\<lparr>s_obs := y, s_on_kind := k\<rparr>) = Accept s'"
    by (simp only: bench_weld_def bind_Accept req_Accept need_Accept endpoint_Accept Let_def split_paired_Ex prod.case lint.inject, elim exE conjE)
      (rule that; assumption)
  have "keeps (f_nodes f) (s\<lparr>s_node := x, s_from_kind := fk\<rparr>) s1" using 1 keeps_no_text val_text_keeps by auto
  moreover have "keeps (f_nodes f) s2 (s2\<lparr>s_obs := y, s_on_kind := k\<rparr>)"
    using endpoint_range [OF o] by (simp add: keeps_def loaded_def step_ok_def)
  moreover have "keeps (f_nodes f) (s2\<lparr>s_obs := y, s_on_kind := k\<rparr>) s'" by (rule val_echo_keeps [OF 3])
  ultimately show ?thesis
    using keeps_sender [OF endpoint_range [OF e], of s fk] opt_topic [OF 2, of "f_nodes f"]
    by (blast intro: keeps_trans)
qed

lemma bench_conc_keeps:
  assumes "bench_conc val f line s = Accept s'"
  shows "keeps (f_nodes f) s s'"
proof -
  from assms obtain a b c k x s1 s2 where
    e: "ep_parse_node (f_nodes f) (f_sut f) a = Some (k, x)" and
    1: "val_image b (s\<lparr>s_node := x, s_from_kind := k\<rparr>) = Accept s1" and
    2: "val_as c s1 = Accept s2" and 3: "opt (find_key val ''flags'') s2 (\<lambda>q. val_flags q s2) = Accept s'"
    by (simp only: bench_conc_def bind_Accept req_Accept need_Accept endpoint_Accept split_paired_Ex prod.case lint.inject, elim exE conjE)
      (rule that; assumption)
  show ?thesis
    by (rule keeps_trans [OF keeps_sender [OF endpoint_range [OF e]]],
        rule keeps_trans [OF val_image_keeps [OF 1] keeps_trans [OF val_as_keeps [OF 2] opt_flags [OF 3]]])
qed

lemma load_cap_range: "0 \<le> load_cap val" "load_cap val \<le> kBenchWeld"
  by (simp_all add: load_cap_def kBenchConc_def kBenchWeld_def)

lemma step_bench_ok:
  assumes "step_bench val f line s = Accept s'" "step_ok (f_nodes f) s" "\<not> s_has_dur s"
  shows "step_ok (f_nodes f) s'"
proof (cases "has val ''send'' \<or> has val ''expect''")
  case True
  with assms show ?thesis by (auto simp: step_bench_def intro: val_bench_generic_ok)
next
  case False
  with assms(1) obtain s1 s2 s3 where
    1: "val_bench_ramp val line (if conc_keys val then kBenchConc else kBenchWeld) s = Accept s1" and
    2: "(if s_has_ramp s1 then Accept s1 else val_load val line (load_cap val) s1) = Accept s2" and
    3: "opt (find_key val ''payload_bytes'') s2 (\<lambda>q. val_payload q s2) = Accept s3" and
    4: "(if weld_keys val then bench_weld val f line s3 else bench_conc val f line s3) = Accept s'"
    unfolding step_bench_def by (simp only: if_False bind_Accept need_Accept, elim exE conjE) (rule that; assumption)
  have "step_ok (f_nodes f) s1 \<and> \<not> s_has_dur s1"
    using val_bench_ramp_keeps [OF 1 bench_caps, of "f_nodes f"] assms(2,3) by (simp add: keeps_def)
  then have "step_ok (f_nodes f) s2" using load_or_ramp_ok [OF 2] load_cap_range by blast
  moreover have "keeps (f_nodes f) s3 s'" by (rule if_keeps [OF 4]) (erule bench_weld_keeps, erule bench_conc_keeps)
  ultimately show ?thesis using keepsD [OF opt_payload [OF 3]] keepsD by blast
qed

lemmas verb_ok = step_drop_ok step_kill_ok step_restart_ok step_move_ok step_submit_ok step_stop_ok step_pub_ok
  step_bench_ok step_rospub_ok step_slow_ok step_update_ok step_replay_ok step_diskfill_ok step_diskro_ok
  step_jcorrupt_ok step_push_ok

lemma verbs_ok:
  "(key, kind, verb) \<in> set verbs \<Longrightarrow> verb val f line s = Accept s' \<Longrightarrow> step_ok (f_nodes f) s \<Longrightarrow> \<not> s_has_dur s \<Longrightarrow>
   step_ok (f_nodes f) s'"
  by (simp add: verbs_def, elim disjE; simp add: verb_ok)

lemma val_step_ok:
  assumes "val_step m f = Accept s" "0 < f_nodes f"
  shows "step_ok (f_nodes f) s"
proof -
  from assms(1) obtain key line val kind verb where
    "map_of verbs key = Some (kind, verb)" "verb val f line ((step0 line)\<lparr>s_kind := kind\<rparr>) = Accept s"
    by (auto simp: val_step_def split: list.splits if_splits option.splits)
  moreover have "\<not> s_has_dur ((step0 line)\<lparr>s_kind := kind\<rparr>)" by (simp add: step0_def)
  ultimately show ?thesis using verbs_ok [OF map_of_SomeD] step0_ok [OF assms(2)] by blast
qed

section \<open>Conditions, phases and the file\<close>

definition cond_ok :: "int \<Rightarrow> ex_cond \<Rightarrow> bool" where
  "cond_ok n c =
     (in_range 0 n (c_count c) \<and> fits nonempty kTextLen (c_marker c) \<and> indices_ok n (c_on c) \<and>
      fits nonempty kTextLen (c_text c) \<and> in_range 0 (n - 1) (c_obs c) \<and> c_obs_kind c \<noteq> EP_CONCORD \<and>
      fits wl_name_ok kWlLen (c_wl c) \<and> in_range 0 (n - 1) (c_node c) \<and> fits image_ok 128 (c_imgval c))"

lemma cond0_ok: "0 < n \<Longrightarrow> cond_ok n (cond0 l)"
  by (simp add: cond_ok_def cond0_def indices_ok_def in_range_def kTextLen_def kWlLen_def)

lemma on_ok:
  "val_on m f b = Accept on \<Longrightarrow> 0 < f_nodes f \<Longrightarrow> f_nodes f \<le> kMaxNodes \<Longrightarrow> indices_ok (f_nodes f) (expand_on on (f_nodes f))"
  using read_indices_ok [of "f_nodes f" "[]"]
  by (auto simp: val_on_def indices_ok_def list_all_iff in_range_def split: if_splits)

lemma wlref_ok: "val_wlref m = Accept s \<Longrightarrow> fits wl_name_ok kWlLen s"
  using submitted_fits by (auto simp: val_wlref_def Let_def fits_def wl_name_ok_def split: if_splits)

lemma cond_map_ok:
  assumes "cond_map kind hit keep m f k = Accept c" "0 < f_nodes f"
    "\<And>nd c'. cond_ok (f_nodes f) c' \<Longrightarrow> k nd c' = Accept c \<Longrightarrow> cond_ok (f_nodes f) c"
  shows "cond_ok (f_nodes f) c"
proof -
  from assms(1) obtain nd s where s: "val_wlref nd = Accept s" and
    k: "k nd ((cond0 (key_line m hit))\<lparr>c_kind := kind, c_wl := s\<rparr>) = Accept c"
    by (auto simp: cond_map_def Let_def)
  have "cond_ok (f_nodes f) ((cond0 (key_line m hit))\<lparr>c_kind := kind, c_wl := s\<rparr>)"
    using cond0_ok [OF assms(2)] wlref_ok [OF s] by (simp add: cond_ok_def)
  then show ?thesis using k assms(3) by blast
qed

lemma cond_peers_ok: "0 < f_nodes f \<Longrightarrow> f_nodes f \<le> kMaxNodes \<Longrightarrow> cond_peers m f = Accept c \<Longrightarrow> cond_ok (f_nodes f) c"
  using cond0_ok [of "f_nodes f"] by (clarsimp simp: cond_peers_def cond_ok_def on_ok)

lemma cond_marker_ok: "0 < f_nodes f \<Longrightarrow> f_nodes f \<le> kMaxNodes \<Longrightarrow> cond_marker m f = Accept c \<Longrightarrow> cond_ok (f_nodes f) c"
  using cond0_ok [of "f_nodes f"] by (clarsimp simp: cond_marker_def cond_ok_def on_ok)

lemma cond_present_ok:
  assumes n: "0 < f_nodes f" "f_nodes f \<le> kMaxNodes" and "cond_present h m f = Accept c"
  shows "cond_ok (f_nodes f) c"
proof -
  let ?c = "(cond0 (key_line m h))\<lparr>c_kind := (if h = ''present'' then CD_PRESENT else CD_ABSENT)\<rparr>"
  from assms(3) obtain nd c1 on where
    1: "(case (find_key nd ''workload'', find_key nd ''text'') of
          (_, Some t) \<Rightarrow>
            need (f_sut f = kWeld) (node_line nd) ''text present is weld-only'' (
            bind_lint (text_in nonempty kTextLen t ''text must be a string'' ''text too long'') (\<lambda>s.
            Accept (?c\<lparr>c_text := s, c_workload := False\<rparr>)))
        | _ \<Rightarrow>
            need (f_sut f = kConcord) (node_line nd) ''workload present is concord-only'' (
            bind_lint (val_wlref nd) (\<lambda>s. Accept (?c\<lparr>c_wl := s, c_workload := True\<rparr>)))) = Accept c1" and
    2: "val_on nd f False = Accept on" and c: "c1\<lparr>c_on := expand_on on (f_nodes f)\<rparr> = c"
    unfolding cond_present_def Let_def by (simp only: bind_Accept need_Accept req_Accept lint.inject, elim exE conjE) (rule that; assumption)
  have "cond_ok (f_nodes f) ?c" using cond0_ok [OF n(1)] by (simp add: cond_ok_def)
  then have "cond_ok (f_nodes f) c1"
    using 1 wlref_ok by (cases "find_key nd ''text''") (clarsimp simp: cond_ok_def)+
  then show ?thesis using on_ok [OF 2 n] by (simp add: c [symmetric] cond_ok_def)
qed

lemma obs_kind: "obs_weld (kEpCap k) \<or> obs_ros (kEpCap k) \<Longrightarrow> k \<noteq> EP_CONCORD"
  by (cases k) simp_all

lemma cond_observed_ok: "0 < f_nodes f \<Longrightarrow> f_nodes f \<le> kMaxNodes \<Longrightarrow> cond_observed m f = Accept c \<Longrightarrow> cond_ok (f_nodes f) c"
  using cond0_ok [of "f_nodes f"]
  by (clarsimp simp: cond_observed_def cond_ok_def Let_def endpoint_range obs_kind simp del: disj_not1)

lemma cond_mesh_ok: "0 < f_nodes f \<Longrightarrow> f_nodes f \<le> kMaxNodes \<Longrightarrow> cond_mesh m f = Accept c \<Longrightarrow> cond_ok (f_nodes f) c"
  using cond0_ok [of "f_nodes f"] by (clarsimp simp: cond_mesh_def cond_ok_def)

lemma cond_assigned_ok:
  assumes "0 < f_nodes f" "f_nodes f \<le> kMaxNodes" "cond_assigned m f = Accept c"
  shows "cond_ok (f_nodes f) c"
  by (rule cond_map_ok [OF assms(3) [unfolded cond_assigned_def] assms(1)]) (use assms(1,2) in \<open>clarsimp simp: cond_ok_def on_ok Let_def\<close>)

lemma cond_agree_ok:
  assumes "0 < f_nodes f" "f_nodes f \<le> kMaxNodes" "cond_agree m f = Accept c"
  shows "cond_ok (f_nodes f) c"
  by (rule cond_map_ok [OF assms(3) [unfolded cond_agree_def] assms(1)]) (use assms(1,2) in \<open>clarsimp simp: cond_ok_def on_ok Let_def\<close>)

lemma cond_assigned_on_ok:
  assumes "0 < f_nodes f" "f_nodes f \<le> kMaxNodes" "cond_assigned_on m f = Accept c"
  shows "cond_ok (f_nodes f) c"
  by (rule cond_map_ok [OF assms(3) [unfolded cond_assigned_on_def] assms(1)]) (use assms(1,2) in \<open>clarsimp simp: cond_ok_def on_ok Let_def\<close>)

lemma cond_image_ok:
  assumes "0 < f_nodes f" "f_nodes f \<le> kMaxNodes" "cond_image m f = Accept c"
  shows "cond_ok (f_nodes f) c"
  by (rule cond_map_ok [OF assms(3) [unfolded cond_image_def] assms(1)]) (use assms(1,2) in \<open>clarsimp simp: cond_ok_def on_ok Let_def\<close>)

lemma epoch_opt_ok:
  "opt p c (\<lambda>q. bind_lint (int_in 0 LLONG_MAX q m) (\<lambda>x. Accept (c\<lparr>c_cmp := k, c_epoch := of_int x\<rparr>))) = Accept c' \<Longrightarrow>
   cond_ok n c \<Longrightarrow> cond_ok n c'"
  by (simp only: opt_Accept, elim disjE; clarsimp simp: cond_ok_def)

lemma cond_epoch_ok: 
  assumes "0 < f_nodes f" "f_nodes f \<le> kMaxNodes" "cond_epoch m f = Accept c"
  shows "cond_ok (f_nodes f) c"
proof (rule cond_map_ok [OF assms(3) [unfolded cond_epoch_def] assms(1)])
  fix nd c' assume ok: "cond_ok (f_nodes f) c'" and
    a: "req (find_key nd ''node'') (node_line nd) ''epoch needs node'' (\<lambda>a.
     bind_lint (index_in (f_nodes f) a) (\<lambda>x.
     let c = c'\<lparr>c_node := x\<rparr>; q = find_key nd ''eq''; g = find_key nd ''gte'' in
     need (\<not> (q \<noteq> None \<and> g \<noteq> None)) (node_line nd) ''epoch takes eq or gte, not both'' (
     bind_lint (opt q c (\<lambda>q.
       bind_lint (int_in 0 LLONG_MAX q ''epoch eq must be 0 or more'') (\<lambda>x.
       Accept (c\<lparr>c_cmp := CMP_EQ, c_epoch := of_int x\<rparr>)))) (\<lambda>c.
     opt g c (\<lambda>g.
       bind_lint (int_in 0 LLONG_MAX g ''epoch gte must be 0 or more'') (\<lambda>x.
       Accept (c\<lparr>c_cmp := CMP_GTE, c_epoch := of_int x\<rparr>))))))) = Accept c"
  obtain x c1 where x: "0 \<le> x" "x < f_nodes f" and
    1: "opt (find_key nd ''eq'') (c'\<lparr>c_node := x\<rparr>) (\<lambda>q.
       bind_lint (int_in 0 LLONG_MAX q ''epoch eq must be 0 or more'') (\<lambda>y.
       Accept (c'\<lparr>c_node := x, c_cmp := CMP_EQ, c_epoch := of_int y\<rparr>))) = Accept c1" and
    2: "opt (find_key nd ''gte'') c1 (\<lambda>g.
       bind_lint (int_in 0 LLONG_MAX g ''epoch gte must be 0 or more'') (\<lambda>x.
       Accept (c1\<lparr>c_cmp := CMP_GTE, c_epoch := of_int x\<rparr>))) = Accept c"
    using a by (simp only: Let_def bind_Accept need_Accept req_Accept index_in_Accept, elim exE conjE) (rule that; assumption)
  have "cond_ok (f_nodes f) (c'\<lparr>c_node := x\<rparr>)" using ok x by (simp add: cond_ok_def)
  with epoch_opt_ok [OF 1] epoch_opt_ok [OF 2] show "cond_ok (f_nodes f) c" by blast
qed

lemmas conds_ok = cond_peers_ok cond_marker_ok cond_present_ok cond_observed_ok cond_mesh_ok
  cond_assigned_ok cond_agree_ok cond_assigned_on_ok cond_image_ok cond_epoch_ok

lemma if_lint: "(if b then x else y) = Accept c \<Longrightarrow> (b \<Longrightarrow> x = Accept c \<Longrightarrow> P) \<Longrightarrow> (\<not> b \<Longrightarrow> y = Accept c \<Longrightarrow> P) \<Longrightarrow> P"
  by (cases b) simp_all

lemma single_Accept:
  "(case hs of [] \<Rightarrow> vbad l s | [h] \<Rightarrow> F h | _ # _ # _ \<Rightarrow> vbad l' s') = Accept c \<longleftrightarrow> (\<exists>h. hs = [h] \<and> F h = Accept c)"
  by (auto split: list.splits)

lemma val_cond_ok:
  assumes n: "0 < f_nodes f" "f_nodes f \<le> kMaxNodes" and "val_cond m f = Accept c"
  shows "cond_ok (f_nodes f) c"
proof -
  from assms(3) obtain h where
    "(if h = ''peers'' then cond_peers m f
      else if h = ''marker'' then cond_marker m f
      else if h = ''present'' \<or> h = ''absent'' then cond_present h m f
      else if h = ''observed'' then cond_observed m f
      else if h = ''assigned'' then cond_assigned m f
      else if h = ''agree'' then cond_agree m f
      else if h = ''assigned_on'' then cond_assigned_on m f
      else if h = ''epoch'' then cond_epoch m f
      else if h = ''image'' then cond_image m f
      else cond_mesh m f) = Accept c"
    unfolding val_cond_def by (simp only: bind_Accept need_Accept single_Accept, elim exE conjE) (rule that)
  then show ?thesis by (elim if_lint) (erule conds_ok [OF n])+
qed

definition phase_ok :: "int \<Rightarrow> ex_phase \<Rightarrow> bool" where
  "phase_ok n p =
     (ph_name_of p \<noteq> [] \<and> fits nonempty kNameLen (ph_name_of p) \<and> list_all (step_ok n) (ph_steps p) \<and>
      cond_ok n (ph_cond p) \<and> in_range 1 kMaxTimeoutS (ph_timeout_s p) \<and>
      in_range 0 (ph_timeout_s p) (ph_hold_s p) \<and> (\<not> ph_has_until p \<longrightarrow> ph_hold_s p = 0))"

lemma val_steps_ok: "val_steps ns f = Accept ss \<Longrightarrow> 0 < f_nodes f \<Longrightarrow> list_all (step_ok (f_nodes f)) ss"
  by (induction ns f arbitrary: ss rule: val_steps.induct) (auto intro: val_step_ok)

lemma val_phase_ok:
  assumes "val_phase m f = Accept p" "0 < f_nodes f" "f_nodes f \<le> kMaxNodes"
  shows "phase_ok (f_nodes f) p"
proof -
  from assms(1) obtain cn name steps c hold tmo quiet where
    nm: "nonempty (Some name)" "length name < kNameLen" and
    1: "opt (find_key m ''do'') [] (\<lambda>nd. need (is_list nd) (node_line nd) ''do must be a list'' (val_steps (items_of nd) f)) = Accept steps" and
    2: "val_cond cn f = Accept c" and
    3: "opt (find_key m ''hold_s'') 0 (\<lambda>nd. int_in 0 kMaxTimeoutS nd ''hold_s must be 0..3600'') = Accept hold" and
    4: "\<not> (find_key m ''until'' = None \<and> hold > 0)" "1 \<le> tmo" "tmo \<le> kMaxTimeoutS" "\<not> hold > tmo" and
    p: "\<lparr>ph_name_of = name, ph_line = node_line m, ph_steps = steps, ph_has_until = (find_key m ''until'' \<noteq> None),
       ph_cond = c, ph_hold_s = hold, ph_timeout_s = tmo, ph_nomcast = quiet\<rparr> = p"
    by (simp only: val_phase_def Let_def bind_Accept need_Accept req_Accept text_in_Accept int_in_Accept lint.inject, elim exE conjE)
      (rule that; assumption)
  have "list_all (step_ok (f_nodes f)) steps" using 1 val_steps_ok assms(2) by auto
  moreover have "0 \<le> hold" using 3 by auto
  ultimately show ?thesis
    using nm 4 val_cond_ok [OF assms(2,3) 2] by (auto simp: p [symmetric] phase_ok_def nonempty_def)
qed

lemma val_phases_ok:
  "val_phases ns f = Accept ps \<Longrightarrow> 0 < f_nodes f \<Longrightarrow> f_nodes f \<le> kMaxNodes \<Longrightarrow> list_all (phase_ok (f_nodes f)) ps"
  by (induction ns f arbitrary: ps rule: val_phases.induct) (auto intro: val_phase_ok)

end
