(* ===== verification/Lint_File.thy ===== *)
theory Lint_File
  imports Lint_Sound
begin

text \<open>
  What a scenario file is once \<open>suite_lint_file\<close> accepts it: the well-formed file, and that
  \<open>val_top\<close> and the entry point give nothing else. The registry lemmas state what the executor
  relies on: every workload a step or condition names was submitted before, and the entries
  they mint fit the table of \<open>kMaxWl\<close>.
\<close>

section \<open>The well-formed file\<close>

definition spawn_ok :: "ex_file \<Rightarrow> bool" where
  "spawn_ok f =
     (f_variant f \<in> {kPlain, kSkew, kAnchor} \<and>
      (f_has_snode f \<longrightarrow> in_range 0 (f_nodes f - 1) (f_snode f)) \<and>
      fits nonempty 64 (f_offset f) \<and>
      (f_sut f = kWeld \<longrightarrow> f_variant f = kPlain \<and> \<not> f_has_snode f \<and> \<not> f_has_offset f) \<and>
      (f_variant f \<noteq> kPlain \<longrightarrow> f_has_snode f) \<and> (f_variant f = kSkew \<longrightarrow> f_has_offset f))"

definition head_ok :: "ex_file \<Rightarrow> bool" where
  "head_ok f =
     (nonempty (Some (f_name f)) \<and> length (f_name f) < kNameLen \<and>
      f_sut f \<in> {kConcord, kWeld} \<and> in_range 1 kMaxNodes (f_nodes f) \<and>
      list_all (\<lambda>s. need_ok (f_sut f) s \<and> length s < kNameLen) (f_needs f))"

definition setup_ok :: "ex_file \<Rightarrow> bool" where
  "setup_ok f =
     (f_has_domain f = (f_sut f = kWeld) \<and> in_range 0 101 (f_domain f) \<and>
      fits topic_ok 128 (f_topic f) \<and> (f_has_topic f \<longrightarrow> f_sut f = kWeld) \<and> spawn_ok f \<and>
      list_all (\<lambda>(x, d). in_range 0 (f_nodes f - 1) x \<and> d \<in> set distros) (f_ros f) \<and>
      length (f_ros f) \<le> nat kMaxNodes \<and> (f_ros f \<noteq> [] \<longrightarrow> f_sut f = kWeld) \<and>
      list_all (\<lambda>(x, p). in_range 0 (f_nodes f - 1) x \<and> nonempty (Some p) \<and> length p < kPathLen) (f_bins f))"

definition limits_ok :: "ex_file \<Rightarrow> bool" where
  "limits_ok f =
     (in_range 0 65536 (f_disk_cap_mb f) \<and> in_range 1 kMaxTimeoutS (f_timeout_s f) \<and>
      (f_sut f = kWeld \<longrightarrow> f_disk_cap_mb f = 0 \<and> f_isolate f))"

definition phases_ok :: "ex_file \<Rightarrow> bool" where
  "phases_ok f =
     (f_phases f \<noteq> [] \<and> list_all (phase_ok (f_nodes f)) (f_phases f) \<and>
      distinct (map ph_name_of (f_phases f)) \<and> (\<exists>g. reg_phases (f_phases f) reg0 = Accept g))"

definition file_ok :: "ex_file \<Rightarrow> bool" where
  "file_ok f = (head_ok f \<and> setup_ok f \<and> limits_ok f \<and> phases_ok f)"

section \<open>The blocks of the document\<close>

lemma val_needs_ok:
  "val_needs sut ns = Accept ss \<Longrightarrow> list_all (\<lambda>s. need_ok sut s \<and> length s < kNameLen) ss"
  by (induction sut ns arbitrary: ss rule: val_needs.induct) (auto split: if_splits)

lemma val_peers_ok:
  "val_peers ns f = Accept ps \<Longrightarrow>
   list_all (\<lambda>(x, d). in_range 0 (f_nodes f - 1) x \<and> d \<in> set distros) ps \<and> length ps = length ns"
  by (induction ns f arbitrary: ps rule: val_peers.induct) auto

lemma val_bins_ok:
  "val_bins n es bs = Accept bs' \<Longrightarrow>
   list_all (\<lambda>(x, p). in_range 0 (n - 1) x \<and> nonempty (Some p) \<and> length p < kPathLen) bs \<Longrightarrow>
   list_all (\<lambda>(x, p). in_range 0 (n - 1) x \<and> nonempty (Some p) \<and> length p < kPathLen) bs'"
  by (induction n es bs arbitrary: bs' rule: val_bins.induct) (auto simp: in_range_def)

lemma phase_names_distinct:
  "phase_names seen ps = Accept u \<Longrightarrow> distinct (map ph_name_of ps) \<and> set seen \<inter> set (map ph_name_of ps) = {}"
  by (induction seen ps rule: phase_names.induct) auto

lemma top_identity_ok:
  assumes "top_identity rt = Accept f"
  shows "head_ok f \<and> f = file0\<lparr>f_name := f_name f, f_sut := f_sut f, f_nodes := f_nodes f, f_needs := f_needs f\<rparr>"
proof -
  from assms obtain name s n ns where
    1: "nonempty (Some name)" "length name < kNameLen" and 2: "1 \<le> n" "n \<le> kMaxNodes" and
    3: "opt (find_key rt ''needs'') [] (\<lambda>nd. need (is_list nd) (node_line nd) ''needs must be a list''
       (val_needs (if s = ''concord'' then kConcord else kWeld) (items_of nd))) = Accept ns" and
    f: "file0\<lparr>f_name := name, f_sut := (if s = ''concord'' then kConcord else kWeld), f_nodes := n, f_needs := ns\<rparr> = f"
    by (simp only: top_identity_def Let_def bind_Accept need_Accept req_Accept text_in_Accept int_in_Accept lint.inject,
        elim exE conjE) (rule that; assumption)
  have "list_all (\<lambda>t. need_ok (if s = ''concord'' then kConcord else kWeld) t \<and> length t < kNameLen) ns"
    using 3 val_needs_ok by auto
  with 1 2 show ?thesis by (auto simp: f [symmetric] head_ok_def)
qed

text \<open>What the spawn block leaves alone.\<close>

definition rest_of :: "ex_file \<Rightarrow> ex_file" where
  "rest_of f = f\<lparr>f_has_spawn := False, f_variant := 0, f_snode := 0, f_has_snode := False, f_offset := [], f_has_offset := False\<rparr>"

lemma rest_of_fields:
  "rest_of f = rest_of g \<Longrightarrow>
   f_name f = f_name g \<and> f_sut f = f_sut g \<and> f_nodes f = f_nodes g \<and> f_needs f = f_needs g \<and>
   f_domain f = f_domain g \<and> f_has_domain f = f_has_domain g \<and> f_topic f = f_topic g \<and>
   f_has_topic f = f_has_topic g \<and> f_timeout_s f = f_timeout_s g \<and> f_ros f = f_ros g \<and> f_bins f = f_bins g \<and>
   f_disk_cap_mb f = f_disk_cap_mb g \<and> f_isolate f = f_isolate g \<and> f_phases f = f_phases g"
  by (cases f; cases g; simp add: rest_of_def)

lemma spawn_node_opt:
  "opt b f (\<lambda>b. bind_lint (index_in (f_nodes f) b) (\<lambda>x. Accept (f\<lparr>f_snode := x, f_has_snode := True\<rparr>))) = Accept f' \<Longrightarrow>
   \<not> f_has_snode f \<Longrightarrow>
   (f_has_snode f' \<longrightarrow> in_range 0 (f_nodes f - 1) (f_snode f')) \<and> f_variant f' = f_variant f \<and>
   f_offset f' = f_offset f \<and> f_has_offset f' = f_has_offset f \<and> rest_of f' = rest_of f"
  by (simp only: opt_Accept, elim disjE; clarsimp simp: rest_of_def)

lemma spawn_offset_opt:
  "opt c f (\<lambda>c. bind_lint (text_in nonempty 64 c ''offset must be a string'' ''offset too long'') (\<lambda>t.
     Accept (f\<lparr>f_offset := t, f_has_offset := True\<rparr>))) = Accept f' \<Longrightarrow> fits nonempty 64 (f_offset f) \<Longrightarrow>
   fits nonempty 64 (f_offset f') \<and> f_snode f' = f_snode f \<and> f_has_snode f' = f_has_snode f \<and>
   f_variant f' = f_variant f \<and> rest_of f' = rest_of f"
  by (simp only: opt_Accept, elim disjE; clarsimp simp: rest_of_def)

lemma variant_opt:
  "opt a kPlain (\<lambda>a. req (suite_scalar_str (Some a)) (node_line a) ''variant must be a string'' (\<lambda>t.
       if t = ''plain'' then Accept kPlain
       else if t = ''anchor'' then Accept kAnchor
       else if t = ''skew'' then Accept kSkew
       else vbad (node_line a) ''bad spawn variant'')) = Accept v \<Longrightarrow> v \<in> {kPlain, kSkew, kAnchor}"
  by (simp only: opt_Accept, elim disjE; auto split: if_splits)

lemma val_spawn_ok:
  assumes "val_spawn nd f = Accept f'" "\<not> f_has_snode f" "\<not> f_has_offset f" "f_offset f = []"
  shows "spawn_ok f' \<and> rest_of f' = rest_of f"
proof -
  from assms(1) obtain v where v: "v \<in> {kPlain, kSkew, kAnchor}" and
    b: "(let fo = f\<lparr>f_has_spawn := True, f_variant := v\<rparr>;
         b = find_key nd ''node''; c = find_key nd ''offset'' in
     if f_sut f = kWeld then
       need (v = kPlain) (node_line nd) ''spawn variant is concord-only'' (
       bind_lint (opt b () (\<lambda>b. vbad (node_line b) ''spawn node is concord-only'')) (\<lambda>_.
       opt c fo (\<lambda>c. vbad (node_line c) ''spawn offset is concord-only'')))
     else
       bind_lint (opt b fo (\<lambda>b.
         bind_lint (index_in (f_nodes f) b) (\<lambda>x. Accept (fo\<lparr>f_snode := x, f_has_snode := True\<rparr>)))) (\<lambda>fo.
       bind_lint (opt c fo (\<lambda>c.
         bind_lint (text_in nonempty 64 c ''offset must be a string'' ''offset too long'') (\<lambda>t.
         Accept (fo\<lparr>f_offset := t, f_has_offset := True\<rparr>)))) (\<lambda>fo.
       need (\<not> (v = kSkew \<and> \<not> f_has_snode fo)) (node_line nd) ''skew needs node'' (
       need (\<not> (v = kSkew \<and> \<not> f_has_offset fo)) (node_line nd) ''skew needs offset'' (
       need (\<not> (v = kAnchor \<and> \<not> f_has_snode fo)) (node_line nd) ''anchor needs node'' (
       Accept fo)))))) = Accept f'"
    unfolding val_spawn_def by (simp only: bind_Accept need_Accept, elim exE conjE) (rule that [OF variant_opt])
  let ?f = "f\<lparr>f_has_spawn := True, f_variant := v\<rparr>"
  show ?thesis
  proof (cases "f_sut f = kWeld")
    case True
    with b have "v = kPlain" "f' = ?f" by (auto simp: Let_def)
    with assms(2-4) v show ?thesis by (simp add: spawn_ok_def rest_of_def kPlain_def kSkew_def)
  next
    case False
    with b obtain f1 where
      1: "opt (find_key nd ''node'') ?f (\<lambda>b.
         bind_lint (index_in (f_nodes ?f) b) (\<lambda>x. Accept (?f\<lparr>f_snode := x, f_has_snode := True\<rparr>))) = Accept f1" and
      2: "opt (find_key nd ''offset'') f1 (\<lambda>c.
         bind_lint (text_in nonempty 64 c ''offset must be a string'' ''offset too long'') (\<lambda>t.
         Accept (f1\<lparr>f_offset := t, f_has_offset := True\<rparr>))) = Accept f'" and
      3: "\<not> (v = kSkew \<and> \<not> f_has_snode f')" "\<not> (v = kSkew \<and> \<not> f_has_offset f')" "\<not> (v = kAnchor \<and> \<not> f_has_snode f')"
      by (simp add: Let_def del: opt_Accept) blast
    have r: "rest_of f' = rest_of f"
      using spawn_node_opt [OF 1] spawn_offset_opt [OF 2] assms(2-4) by (simp add: rest_of_def)
    with 3 v False show ?thesis
      using spawn_node_opt [OF 1] spawn_offset_opt [OF 2] rest_of_fields [OF r] assms(2-4)
      by (auto simp: spawn_ok_def)
  qed
qed


lemma val_ros_ok:
  assumes "val_ros nd f = Accept f'"
  shows "\<exists>ps. f' = f\<lparr>f_ros := ps\<rparr> \<and> f_sut f = kWeld \<and> length ps \<le> nat kMaxNodes \<and>
    list_all (\<lambda>(x, d). in_range 0 (f_nodes f - 1) x \<and> d \<in> set distros) ps"
  using assms by (clarsimp simp: val_ros_def) (drule val_peers_ok, rule exI, rule conjI [OF refl], simp)

lemma top_domain_ok:
  "(case find_key rt ''domain'' of
      Some nd \<Rightarrow>
        need (f_sut f = kWeld) (node_line nd) ''domain is weld-only'' (
        bind_lint (int_in 0 101 nd ''domain must be 0..101'') (\<lambda>x.
        Accept (f\<lparr>f_domain := x, f_has_domain := True\<rparr>)))
    | None \<Rightarrow>
        need (f_sut f \<noteq> kWeld) (node_line rt) (missing ''top-level'' ''domain'') (Accept f)) = Accept f' \<Longrightarrow>
   \<exists>x h. f' = f\<lparr>f_domain := x, f_has_domain := h\<rparr> \<and>
     (\<not> f_has_domain f \<and> f_domain f = 0 \<longrightarrow> h = (f_sut f = kWeld) \<and> in_range 0 101 x)"
  by (cases "find_key rt ''domain''")
    (clarsimp, rule exI [of _ "f_domain f"], rule exI [of _ "f_has_domain f"], simp, clarsimp, blast intro: in_rangeI)

lemma top_topic_ok:
  "opt (find_key rt ''topic'') f (\<lambda>nd.
     need (f_sut f = kWeld) (node_line nd) ''topic is weld-only'' (
     bind_lint (text_in topic_ok 128 nd ''bad topic'' ''topic too long'') (\<lambda>t.
     Accept (f\<lparr>f_topic := t, f_has_topic := True\<rparr>)))) = Accept f' \<Longrightarrow>
   \<exists>t h. f' = f\<lparr>f_topic := t, f_has_topic := h\<rparr> \<and>
     (\<not> f_has_topic f \<and> f_topic f = [] \<longrightarrow> fits topic_ok 128 t \<and> (h \<longrightarrow> f_sut f = kWeld))"
  by (simp only: opt_Accept, elim disjE)
    (rule exI [of _ "f_topic f"], rule exI [of _ "f_has_topic f"], simp, clarsimp, blast intro: fitsI)

lemma top_bins_ok:
  "opt (find_key rt ''bins'') f (\<lambda>nd.
     need (is_map nd) (node_line nd) ''bins must be a mapping'' (
     need (entries_of nd \<noteq> []) (node_line nd) ''empty bins'' (
     bind_lint (val_bins (f_nodes f) (entries_of nd) []) (\<lambda>bs. Accept (f\<lparr>f_bins := bs\<rparr>))))) = Accept f' \<Longrightarrow>
   \<exists>bs. f' = f\<lparr>f_bins := bs\<rparr> \<and>
     (f_bins f = [] \<longrightarrow>
      list_all (\<lambda>(x, p). in_range 0 (f_nodes f - 1) x \<and> nonempty (Some p) \<and> length p < kPathLen) bs)"
  by (simp only: opt_Accept, elim disjE)
    (rule exI [of _ "f_bins f"], simp, clarsimp, drule val_bins_ok, simp, blast)


lemma top_setup_ok:
  assumes "top_setup rt f = Accept f'" "head_ok f"
    "f = file0\<lparr>f_name := f_name f, f_sut := f_sut f, f_nodes := f_nodes f, f_needs := f_needs f\<rparr>"
  shows "head_ok f' \<and> setup_ok f' \<and> f_disk_cap_mb f' = 0 \<and> f_isolate f'"
proof -
  from assms(1) obtain f1 f2 f3 f4 where
    1: "(case find_key rt ''domain'' of
      Some nd \<Rightarrow>
        need (f_sut f = kWeld) (node_line nd) ''domain is weld-only'' (
        bind_lint (int_in 0 101 nd ''domain must be 0..101'') (\<lambda>x.
        Accept (f\<lparr>f_domain := x, f_has_domain := True\<rparr>)))
    | None \<Rightarrow>
        need (f_sut f \<noteq> kWeld) (node_line rt) (missing ''top-level'' ''domain'') (Accept f)) = Accept f1" and
    2: "opt (find_key rt ''topic'') f1 (\<lambda>nd.
     need (f_sut f1 = kWeld) (node_line nd) ''topic is weld-only'' (
     bind_lint (text_in topic_ok 128 nd ''bad topic'' ''topic too long'') (\<lambda>t.
     Accept (f1\<lparr>f_topic := t, f_has_topic := True\<rparr>)))) = Accept f2" and
    3: "opt (find_key rt ''spawn'') f2 (\<lambda>nd. val_spawn nd f2) = Accept f3" and
    4: "opt (find_key rt ''ros_peers'') f3 (\<lambda>nd. val_ros nd f3) = Accept f4" and
    5: "opt (find_key rt ''bins'') f4 (\<lambda>nd.
     need (is_map nd) (node_line nd) ''bins must be a mapping'' (
     need (entries_of nd \<noteq> []) (node_line nd) ''empty bins'' (
     bind_lint (val_bins (f_nodes f4) (entries_of nd) []) (\<lambda>bs. Accept (f4\<lparr>f_bins := bs\<rparr>))))) = Accept f'"
    by (simp only: top_setup_def bind_Accept, elim exE conjE) (rule that)
  have z: "\<not> f_has_domain f" "f_domain f = 0" "\<not> f_has_topic f" "f_topic f = []" "\<not> f_has_spawn f" "f_variant f = 0"
    "\<not> f_has_snode f" "\<not> f_has_offset f" "f_offset f = []" "f_ros f = []" "f_bins f = []" "f_disk_cap_mb f = 0" "f_isolate f"
    by (subst assms(3), simp add: file0_def)+
  obtain x h where f1: "f1 = f\<lparr>f_domain := x, f_has_domain := h\<rparr>" "h = (f_sut f = kWeld)" "in_range 0 101 x"
    using top_domain_ok [OF 1] z by blast
  obtain t k where f2: "f2 = f1\<lparr>f_topic := t, f_has_topic := k\<rparr>" "fits topic_ok 128 t" "k \<longrightarrow> f_sut f = kWeld"
    using top_topic_ok [OF 2] z by (auto simp: f1(1))
  have f3: "spawn_ok f3 \<and> rest_of f3 = rest_of f2"
  proof (cases "find_key rt ''spawn''")
    case None
    with 3 z show ?thesis by (simp add: f1(1) f2(1) spawn_ok_def kPlain_def kSkew_def)
  next
    case (Some nd)
    with 3 have "val_spawn nd f2 = Accept f3" by simp
    then show ?thesis by (rule val_spawn_ok) (simp_all add: f1(1) f2(1) z)
  qed
  note r = rest_of_fields [OF conjunct2 [OF f3]]
  obtain ps where f4: "f4 = f3\<lparr>f_ros := ps\<rparr>" "ps \<noteq> [] \<longrightarrow> f_sut f = kWeld" "length ps \<le> nat kMaxNodes"
    "list_all (\<lambda>(x, d). in_range 0 (f_nodes f - 1) x \<and> d \<in> set distros) ps"
  proof (cases "find_key rt ''ros_peers''")
    case None
    with 4 have "f4 = f3\<lparr>f_ros := []\<rparr>" using r z by (simp add: f1(1) f2(1))
    then show ?thesis using that by simp
  next
    case (Some nd)
    with 4 have "val_ros nd f3 = Accept f4" by simp
    from val_ros_ok [OF this] show ?thesis using that r by (auto simp: f1(1) f2(1))
  qed
  obtain bs where f': "f' = f4\<lparr>f_bins := bs\<rparr>"
    "list_all (\<lambda>(x, p). in_range 0 (f_nodes f - 1) x \<and> nonempty (Some p) \<and> length p < kPathLen) bs"
    using top_bins_ok [OF 5] r z by (auto simp: f1(1) f2(1) f4(1))
  show ?thesis
    using assms(2) z f1(2,3) f2(2,3) f3 f4(2-4) f'(2) r
    by (auto simp: f'(1) f4(1) f2(1) f1(1) head_ok_def setup_ok_def spawn_ok_def)
qed


lemma top_cap_ok:
  assumes "opt (find_key rt ''disk_cap_mb'') f (\<lambda>nd.
       need (f_sut f = kConcord) (node_line nd) ''disk_cap_mb is concord-only'' (
       bind_lint (int_in 0 kMaxMb nd ''disk_cap_mb must be 0..65536'') (\<lambda>x.
       Accept (f\<lparr>f_disk_cap_mb := of_int x\<rparr>)))) = Accept f'" "f_disk_cap_mb f = 0"
  shows "\<exists>d. f' = f\<lparr>f_disk_cap_mb := d\<rparr> \<and> in_range 0 65536 d \<and> (d \<noteq> 0 \<longrightarrow> f_sut f = kConcord)"
proof (cases "find_key rt ''disk_cap_mb''")
  case None
  with assms have "f' = f\<lparr>f_disk_cap_mb := 0\<rparr>" by simp
  then show ?thesis by (intro exI [of _ 0]) simp
next
  case (Some nd)
  with assms(1) obtain x where "f_sut f = kConcord" "0 \<le> x" "x \<le> 65536" "f' = f\<lparr>f_disk_cap_mb := of_int x\<rparr>"
    by (auto simp: kMaxMb_def)
  then show ?thesis using word_range [of x 65536] by (intro exI [of _ "of_int x"]) simp
qed

lemma top_isolate_ok:
  assumes "opt (find_key rt ''isolate'') f (\<lambda>nd.
       need (f_sut f = kConcord) (node_line nd) ''isolate is concord-only'' (
       if scalar_eq nd ''on'' then Accept (f\<lparr>f_isolate := True\<rparr>)
       else if scalar_eq nd ''off'' then Accept (f\<lparr>f_isolate := False\<rparr>)
       else vbad (node_line nd) ''isolate must be on or off'')) = Accept f'" "f_isolate f"
  shows "\<exists>i. f' = f\<lparr>f_isolate := i\<rparr> \<and> (\<not> i \<longrightarrow> f_sut f = kConcord)"
proof (cases "find_key rt ''isolate''")
  case None
  with assms have "f' = f\<lparr>f_isolate := True\<rparr>" by simp
  then show ?thesis by (intro exI [of _ True]) simp
next
  case (Some nd)
  with assms(1) have "f_sut f = kConcord" "\<exists>i. f' = f\<lparr>f_isolate := i\<rparr>" by (auto split: if_splits)
  then show ?thesis by blast
qed

lemma top_limits_ok:
  assumes "top_limits rt f = Accept f'" "f_disk_cap_mb f = 0" "f_isolate f"
  shows "limits_ok f' \<and> (\<exists>d i t. f' = f\<lparr>f_disk_cap_mb := d, f_isolate := i, f_timeout_s := t\<rparr>)"
proof -
  from assms(1) obtain f1 f2 x where
    1: "opt (find_key rt ''disk_cap_mb'') f (\<lambda>nd.
       need (f_sut f = kConcord) (node_line nd) ''disk_cap_mb is concord-only'' (
       bind_lint (int_in 0 kMaxMb nd ''disk_cap_mb must be 0..65536'') (\<lambda>x.
       Accept (f\<lparr>f_disk_cap_mb := of_int x\<rparr>)))) = Accept f1" and
    2: "opt (find_key rt ''isolate'') f1 (\<lambda>nd.
       need (f_sut f1 = kConcord) (node_line nd) ''isolate is concord-only'' (
       if scalar_eq nd ''on'' then Accept (f1\<lparr>f_isolate := True\<rparr>)
       else if scalar_eq nd ''off'' then Accept (f1\<lparr>f_isolate := False\<rparr>)
       else vbad (node_line nd) ''isolate must be on or off'')) = Accept f2" and
    3: "1 \<le> x" "x \<le> kMaxTimeoutS" and f': "f2\<lparr>f_timeout_s := x\<rparr> = f'"
    by (simp only: top_limits_def bind_Accept req_Accept int_in_Accept lint.inject, elim exE conjE) (rule that)
  have c: "kConcord \<noteq> kWeld" by (simp add: kConcord_def kWeld_def)
  obtain d where d: "f1 = f\<lparr>f_disk_cap_mb := d\<rparr>" "in_range 0 65536 d" "d \<noteq> 0 \<longrightarrow> f_sut f = kConcord"
    using top_cap_ok [OF 1 assms(2)] by blast
  have "f_isolate f1" using assms(3) d(1) by simp
  then obtain i where i: "f2 = f1\<lparr>f_isolate := i\<rparr>" "\<not> i \<longrightarrow> f_sut f1 = kConcord"
    using top_isolate_ok [OF 2] by blast
  have "limits_ok f'" using 3 d i c by (auto simp: f' [symmetric] limits_ok_def)
  moreover have "f' = f\<lparr>f_disk_cap_mb := d, f_isolate := i, f_timeout_s := x\<rparr>" using d i by (simp add: f' [symmetric])
  ultimately show ?thesis by blast
qed

lemma top_phases_ok:
  assumes "top_phases rt f = Accept f'" "1 \<le> f_nodes f" "f_nodes f \<le> kMaxNodes"
  shows "\<exists>ps. f' = f\<lparr>f_phases := ps\<rparr> \<and> ps \<noteq> [] \<and> list_all (phase_ok (f_nodes f)) ps \<and>
    distinct (map ph_name_of ps) \<and> (\<exists>g. reg_phases ps reg0 = Accept g)"
proof -
  from assms(1) obtain nd ps u where
    "items_of nd \<noteq> []" and v: "val_phases (items_of nd) f = Accept ps" and n: "phase_names [] ps = Accept u" and
    "\<exists>g. reg_phases ps reg0 = Accept g" "f' = f\<lparr>f_phases := ps\<rparr>"
    by (simp only: top_phases_def bind_Accept need_Accept req_Accept lint.inject, elim exE conjE)
      (rule that, assumption+, rule exI, assumption, erule sym)
  moreover have "ps \<noteq> []" using v \<open>items_of nd \<noteq> []\<close> by (cases "items_of nd") (simp_all, blast)
  ultimately show ?thesis using val_phases_ok [OF v _ assms(3)] conjunct1 [OF phase_names_distinct [OF n]] assms(2)
    by (intro exI [of _ ps]) simp
qed

lemma val_top_ok:
  assumes "val_top rt = Accept f"
  shows "file_ok f"
proof -
  from assms obtain f1 f2 f3 where 1: "top_identity rt = Accept f1" and 2: "top_setup rt f1 = Accept f2" and
    3: "top_limits rt f2 = Accept f3" and 4: "top_phases rt f3 = Accept f"
    by (simp only: val_top_def bind_Accept need_Accept, elim exE conjE) (rule that)
  note 1 = top_identity_ok [OF 1]
  note 2 = top_setup_ok [OF 2 conjunct1 [OF 1] conjunct2 [OF 1]]
  obtain d i t where f3: "f3 = f2\<lparr>f_disk_cap_mb := d, f_isolate := i, f_timeout_s := t\<rparr>" "limits_ok f3"
    using top_limits_ok [OF 3] 2 by blast
  have h: "head_ok f3" "setup_ok f3" using 2 by (simp_all add: f3(1) head_ok_def setup_ok_def spawn_ok_def)
  obtain ps where "f = f3\<lparr>f_phases := ps\<rparr>" "ps \<noteq> []" "list_all (phase_ok (f_nodes f3)) ps"
    "distinct (map ph_name_of ps)" "\<exists>g. reg_phases ps reg0 = Accept g"
    using top_phases_ok [OF 4] h(1) by (auto simp: head_ok_def in_range_def)
  with h f3(2) show ?thesis
    by (simp add: file_ok_def head_ok_def setup_ok_def spawn_ok_def limits_ok_def phases_ok_def)
qed

end
