(* ===== verification/Lint_Names.thy ===== *)
theory Lint_Names
  imports Lint_File
begin

text \<open>
  The registry of workload names of \<open>suite/exec.c\<close>: which names an accepted file mints, that the
  tables of names and of bases hold them, and what a reference may be. A benchmark always
  carries a count, a duration or a ramp, so that it mints at least one name.
\<close>


section \<open>Benchmarks carry a load\<close>

text \<open>A linter of a step leaves the kind of the step alone; the rules follow the syntax.\<close>

definition same_kind :: "step_kind \<Rightarrow> ex_step lint \<Rightarrow> bool" where
  "same_kind k m = (\<forall>s. m = Accept s \<longrightarrow> s_kind s = k)"

named_theorems kind_intros

lemma kind_rules [kind_intros]:
  "s_kind s = k \<Longrightarrow> same_kind k (Accept s)"
  "same_kind k (vbad l t)" "same_kind k (vunknown l w t)" "same_kind k (ramp_bad l)" "same_kind k (via_bad l w)"
  "same_kind k m \<Longrightarrow> same_kind k (need ok l t m)"
  "(\<And>q. same_kind k (f q)) \<Longrightarrow> same_kind k (req p l t f)"
  "s_kind s = k \<Longrightarrow> (\<And>q. same_kind k (g q)) \<Longrightarrow> same_kind k (opt p s g)"
  "same_kind k m1 \<Longrightarrow> same_kind k m2 \<Longrightarrow> same_kind k (if b then m1 else m2)"
  "(\<And>x y. z = (x, y) \<Longrightarrow> same_kind k (h x y)) \<Longrightarrow> same_kind k (case z of (x, y) \<Rightarrow> h x y)"
  "same_kind k m1 \<Longrightarrow> (\<And>q. same_kind k (g q)) \<Longrightarrow> same_kind k (case p of None \<Rightarrow> m1 | Some q \<Rightarrow> g q)"
  by (auto simp: same_kind_def vbad_def split: prod.splits option.splits)

lemma kind_let [kind_intros]: "same_kind k (f v) \<Longrightarrow> same_kind k (let x = v in f x)"
  by simp

lemma kind_bind [kind_intros]:
  "same_kind k m \<Longrightarrow> (\<And>s. s_kind s = k \<Longrightarrow> same_kind k (f s)) \<Longrightarrow> same_kind k (bind_lint m f)"
  by (auto simp: same_kind_def)

lemma kind_bind_other: "(\<And>x. same_kind k (f x)) \<Longrightarrow> same_kind k (bind_lint m f)"
  by (auto simp: same_kind_def)

lemmas lint_pieces = val_topic_def val_image_def val_as_def val_flags_def val_rate_def val_payload_def val_text_def
  val_wl_def val_ramp_def val_bench_ramp_def val_load_def val_echo_def fault_int_def fault_loss_def drop_direction_def

lemmas lint_generic = gen_pub_def gen_submit_def gen_send_def match_journal_def match_running_def match_scrape_def
  match_text_def gen_expect_def val_bench_generic_def bench_weld_def bench_conc_def

lemmas lint_verbs = step_bench_def step_drop_def step_slow_def step_kill_def step_restart_def step_move_def
  step_diskfill_def step_diskro_def step_jcorrupt_def step_submit_def step_stop_def step_update_def step_push_def
  step_pub_def step_rospub_def step_replay_def

lemma piece_kinds [kind_intros]:
  assumes "s_kind s = k"
  shows "same_kind k (val_topic q s)" "same_kind k (val_image q s)" "same_kind k (val_as q s)"
    "same_kind k (val_flags q s)" "same_kind k (val_rate q s)" "same_kind k (val_payload q s)"
    "same_kind k (val_text q m1 m2 s)" "same_kind k (val_wl p s)"
  unfolding lint_pieces
  by ((rule kind_intros kind_bind_other | simp add: assms)+)

lemma load_kinds [kind_intros]:
  assumes "s_kind s = k"
  shows "same_kind k (val_ramp q s c)" "same_kind k (val_bench_ramp q l c s)"
     "same_kind k (val_load q l c s)" "same_kind k (val_echo q f s)"
  unfolding val_ramp_def val_bench_ramp_def val_load_def val_echo_def
  by ((rule kind_intros kind_bind_other | simp add: assms)+)

lemma generic_kinds [kind_intros]:
  assumes "s_kind s = k"
  shows "same_kind k (gen_pub q f s)" "same_kind k (gen_submit q s)" "same_kind k (match_journal q b s)"
    "same_kind k (match_running q s)" "same_kind k (match_scrape q s)" "same_kind k (match_text q b s)"
  unfolding lint_generic
  by ((rule kind_intros kind_bind_other | simp add: assms)+)

lemma ends_kinds [kind_intros]:
  assumes "s_kind s = k"
  shows "same_kind k (gen_send q f s)" "same_kind k (gen_expect q f b s)"
    "same_kind k (bench_weld q f l s)" "same_kind k (bench_conc q f l s)"
  unfolding gen_send_def gen_expect_def bench_weld_def bench_conc_def
  by ((rule kind_intros kind_bind_other | simp add: assms)+)

lemma fault_kinds [kind_intros]:
  assumes "s_kind s = k"
  shows "(\<And>x s. s_kind (upd x s) = s_kind s) \<Longrightarrow> same_kind k (fault_int q key hi msg upd s)"
    "same_kind k (fault_loss q s)" "same_kind k (drop_direction q s)"
  unfolding fault_int_def fault_loss_def drop_direction_def
  by ((rule kind_intros kind_bind_other | simp add: assms)+)

lemma generic_bench_kind [kind_intros]: "s_kind s = k \<Longrightarrow> same_kind k (val_bench_generic q f l s)"
  unfolding val_bench_generic_def by ((rule kind_intros kind_bind_other | simp)+)

lemma verb_kinds [kind_intros]:
  assumes "s_kind s = k"
  shows "same_kind k (step_bench q f l s)" "same_kind k (step_drop q f l s)" "same_kind k (step_slow q f l s)"
    "same_kind k (step_kill q f l s)" "same_kind k (step_restart q f l s)" "same_kind k (step_move q f l s)"
    "same_kind k (step_diskfill q f l s)" "same_kind k (step_diskro q f l s)" "same_kind k (step_jcorrupt q f l s)"
    "same_kind k (step_submit q f l s)" "same_kind k (step_stop q f l s)" "same_kind k (step_update q f l s)"
    "same_kind k (step_push q f l s)" "same_kind k (step_pub q f l s)" "same_kind k (step_rospub q f l s)"
    "same_kind k (step_replay q f l s)"
  unfolding lint_verbs
  by ((rule kind_intros kind_bind_other | simp add: assms)+)

lemma verbs_kind:
  "(key, kind, verb) \<in> set verbs \<Longrightarrow> s_kind s = k \<Longrightarrow> same_kind k (verb val f line s)"
  by (simp add: verbs_def, elim disjE; simp add: verb_kinds)

lemma val_load_loaded:
  assumes "val_load val line cap s = Accept s'"
  shows "loaded s'"
proof -
  from assms obtain s1 q s2 s3 where 1: "val_rate q s = Accept s1" and
    2: "opt (find_key val ''count'') s1 (\<lambda>q.
       bind_lint (int_in 1 cap q ''benchmark count out of range'') (\<lambda>x.
       Accept (s1\<lparr>s_count := x, s_has_count := True\<rparr>))) = Accept s2" and
    3: "opt (find_key val ''duration_s'') s2 (\<lambda>q.
       bind_lint (int_in 1 kMaxTimeoutS q ''duration_s must be 1..3600'') (\<lambda>x.
       Accept (s2\<lparr>s_duration_s := x, s_has_dur := True\<rparr>))) = Accept s3" and
    4: "s_has_count s3 \<or> s_has_dur s3" and
    5: "opt (find_key val ''warmup'') s3 (\<lambda>q. bind_lint (int_in 0 kBenchWeld q ''warmup must be 0..1000'') (\<lambda>x.
       Accept (s3\<lparr>s_warmup := x\<rparr>))) = Accept s'"
    by (simp only: val_load_def lint_steps, elim exE conjE, hypsubst) (rule that; assumption)
  have "s_has_rate s1" using 1 by (auto simp: val_rate_def)
  then have "s_has_rate s3" using 2 3 by (simp only: opt_Accept) (elim disjE; clarsimp)
  with 4 have "loaded s3" by (simp add: loaded_def)
  with 5 show ?thesis by (simp only: opt_Accept) (elim disjE; clarsimp simp: loaded_def)
qed

lemma load_or_ramp_loaded: "(if s_has_ramp s then Accept s else val_load val line cap s) = Accept s' \<Longrightarrow> loaded s'"
  using val_load_loaded by (auto simp: loaded_def split: if_splits)

lemma step_bench_loaded:
  assumes "step_bench val f line s = Accept s'"
  shows "loaded s'"
proof (cases "has val ''send'' \<or> has val ''expect''")
  case True
  with assms have "val_bench_generic val f line s = Accept s'" by (simp only: step_bench_def need_Accept if_True)
  then obtain c b s1 s2 s3 where
    1: "(if s_has_ramp s1 then Accept s1
        else
         bind_lint (val_load val line c s1) (\<lambda>s.
         need (\<not> (s_has_count s \<and> b \<and> name_too_long s)) line ''workload name too long for count'' (
         need (\<not> (s_has_dur s \<and> b \<and> name_too_long s)) line ''workload name too long for count'' (
         need (\<not> (s_has_ramp s \<and> b \<and> name_too_long s)) line ''workload name too long for count'' (
         Accept s))))) = Accept s2" and
    2: "val_echo val f s2 = Accept s3" and 3: "s' = s3\<lparr>s_has_generic := True\<rparr>"
    by (simp only: val_bench_generic_def lint_steps, elim exE conjE) (rule that, assumption, assumption, erule sym)
  have "loaded s2"
  proof (cases "s_has_ramp s1")
    case True
    with 1 show ?thesis by (simp add: loaded_def)
  next
    case False
    with 1 have "val_load val line c s1 = Accept s2" by simp
    then show ?thesis by (rule val_load_loaded)
  qed
  then have "loaded s3" using val_echo_keeps [OF 2] by (simp add: keeps_def)
  then show ?thesis by (simp add: 3 loaded_def)
next
  case False
  with assms obtain s1 s2 s3 where
    2: "(if s_has_ramp s1 then Accept s1 else val_load val line (load_cap val) s1) = Accept s2" and
    3: "opt (find_key val ''payload_bytes'') s2 (\<lambda>q. val_payload q s2) = Accept s3" and
    4: "(if weld_keys val then bench_weld val f line s3 else bench_conc val f line s3) = Accept s'"
    unfolding step_bench_def by (simp only: if_False bind_Accept need_Accept, elim exE conjE) (rule that; assumption)
  have "keeps (f_nodes f) s3 s'" by (rule if_keeps [OF 4]) (erule bench_weld_keeps, erule bench_conc_keeps)
  with load_or_ramp_loaded [OF 2] opt_payload [OF 3, of "f_nodes f"] show ?thesis by (simp add: keeps_def)
qed

lemma val_step_loaded:
  assumes "val_step m f = Accept s" "s_kind s = ST_BENCH"
  shows "loaded s"
proof -
  obtain key line val kind verb where
    m: "(key, kind, verb) \<in> set verbs" and v: "verb val f line ((step0 line)\<lparr>s_kind := kind\<rparr>) = Accept s"
    using assms(1) by (auto simp: val_step_def split: list.splits if_splits option.splits dest!: map_of_SomeD intro: that)
  have "s_kind s = kind" using verbs_kind [OF m, of "(step0 line)\<lparr>s_kind := kind\<rparr>"] v by (simp add: same_kind_def)
  with assms(2) m have "verb = step_bench" by (simp add: verbs_def)
  then show ?thesis using v step_bench_loaded by blast
qed


section \<open>Counted submits\<close>

text \<open>What the linter leaves of a \<open>submit\<close> step.\<close>

definition submit_ok :: "ex_step \<Rightarrow> bool" where
  "submit_ok s =
     (s_has_count s \<longrightarrow> s_has_as s \<and> \<not> name_too_long s \<and> 1 \<le> s_count s \<and> s_count s \<le> kMaxCount)"

lemma step_submit_count:
  assumes "step_submit val f line s = Accept s'" "\<not> s_has_count s"
  shows "submit_ok s'"
proof -
  from assms(1) obtain a b k n s1 s2 s3 s4 s5 where
    1: "val_image b (s\<lparr>s_node := n, s_from_kind := k\<rparr>) = Accept s1" and
    2: "opt (find_key val ''flags'') s1 (\<lambda>q. val_flags q s1) = Accept s2" and
    3: "opt (find_key val ''as'') s2 (\<lambda>q. val_as q s2) = Accept s3" and
    4: "opt (find_key val ''count'') s3 (\<lambda>q.
       bind_lint (int_in 1 kMaxCount q ''count must be 1..100'') (\<lambda>x.
       need (s_has_as s3) (node_line q) ''count needs as:'' (
       need (\<not> name_too_long s3) (node_line q) ''workload name too long for count'' (
       Accept (s3\<lparr>s_count := x, s_has_count := True\<rparr>))))) = Accept s4" and
    5: "opt (find_key val ''id'') s4 (\<lambda>q.
       bind_lint (text_in nonempty kIdLen q ''id must be a string'' ''id too long'') (\<lambda>t.
       Accept (s4\<lparr>s_fixed_id := t, s_has_id := True\<rparr>))) = Accept s5" and
    6: "opt (find_key val ''rate'') s5 (\<lambda>q. val_rate q s5) = Accept s'"
    unfolding step_submit_def by (auto simp del: opt_Accept)
  have "\<not> s_has_count s1" using 1 assms(2) by (auto simp: val_image_def)
  then have "\<not> s_has_count s2" using 2 by (auto simp: val_flags_def)
  then have "\<not> s_has_count s3" using 3 by (auto simp: val_as_def)
  then have "submit_ok s4" using 4 by (simp only: opt_Accept) (elim disjE; clarsimp simp: submit_ok_def name_too_long_def)
  then have "submit_ok s5" using 5 by (simp only: opt_Accept) (elim disjE; clarsimp simp: submit_ok_def name_too_long_def)
  then show ?thesis using 6 by (simp only: opt_Accept) (elim disjE; clarsimp simp: submit_ok_def name_too_long_def val_rate_def)
qed

definition mint_ok :: "int \<Rightarrow> ex_step \<Rightarrow> bool" where
  "mint_ok sut s =
     ((s_kind s = ST_SUBMIT \<longrightarrow> submit_ok s) \<and> (s_kind s = ST_BENCH \<longrightarrow> loaded s) \<and>
      (s_kind s = ST_UPDATE \<longrightarrow> sut \<noteq> kWeld))"

lemma val_step_mint:
  assumes "val_step m f = Accept s"
  shows "mint_ok (f_sut f) s"
proof -
  obtain key line val kind verb where
    m: "(key, kind, verb) \<in> set verbs" and v: "verb val f line ((step0 line)\<lparr>s_kind := kind\<rparr>) = Accept s"
    using assms by (auto simp: val_step_def split: list.splits if_splits option.splits dest!: map_of_SomeD intro: that)
  have k: "s_kind s = kind" using verbs_kind [OF m, of "(step0 line)\<lparr>s_kind := kind\<rparr>"] v by (simp add: same_kind_def)
  have "submit_ok s" if "kind = ST_SUBMIT"
  proof -
    from that m have "verb = step_submit" by (simp add: verbs_def)
    with v show ?thesis by (auto intro: step_submit_count simp: step0_def)
  qed
  moreover have "f_sut f \<noteq> kWeld" if "kind = ST_UPDATE"
  proof -
    from that m have "verb = step_update" by (simp add: verbs_def)
    with v show ?thesis by (auto simp: step_update_def kConcord_def kWeld_def)
  qed
  ultimately show ?thesis using k val_step_loaded [OF assms] by (simp add: mint_ok_def)
qed

lemma val_steps_mint: "val_steps ns f = Accept ss \<Longrightarrow> list_all (mint_ok (f_sut f)) ss"
  by (induction ns f arbitrary: ss rule: val_steps.induct) (auto intro: val_step_mint)

lemma val_phase_mint: "val_phase m f = Accept p \<Longrightarrow> list_all (mint_ok (f_sut f)) (ph_steps p)"
  unfolding val_phase_def by (simp only: lint_steps, elim exE conjE) (auto dest: val_steps_mint)

lemma val_phases_mint: "val_phases ns f = Accept ps \<Longrightarrow> list_all (\<lambda>p. list_all (mint_ok (f_sut f)) (ph_steps p)) ps"
  by (induction ns f arbitrary: ps rule: val_phases.induct) (auto intro: val_phase_mint)

lemma val_top_mint: "val_top rt = Accept f \<Longrightarrow> list_all (\<lambda>p. list_all (mint_ok (f_sut f)) (ph_steps p)) (f_phases f)"
  unfolding val_top_def top_phases_def by (simp only: lint_steps, elim exE conjE) (auto dest: val_phases_mint)

section \<open>Members of a counted base\<close>

definition member_name :: "string \<Rightarrow> int \<Rightarrow> string" where
  "member_name b k = b @ [DASH] @ fmt_d k"

lemma digits_val_ge: "0 \<le> acc \<Longrightarrow> list_all (\<lambda>c. digit_of c \<noteq> None) s \<Longrightarrow> acc \<le> digits_val acc s"
proof (induction s arbitrary: acc)
  case (Cons c s)
  then obtain d where d: "digit_of c = Some d" by auto
  then have "0 \<le> d" by (simp add: digit_of_def Let_def split: if_splits)
  then show ?case using Cons.IH [of "10 * acc + d"] Cons.prems d by simp
qed simp

lemma digit_digit_of: "digit c \<longleftrightarrow> digit_of c \<noteq> None"
  using of_nat_of_char [of c, where 'a = int] by (auto simp: digit_def digit_of_def between_def Let_def)

lemma member_digits_iff:
  "0 \<le> v \<Longrightarrow> v < c \<Longrightarrow> member_digits c v s \<longleftrightarrow> list_all digit s \<and> digits_val v s < c"
proof (induction s arbitrary: v)
  case (Cons ch s)
  show ?case
  proof (cases "digit ch")
    case True
    then obtain d where d: "digit_of ch = Some d" by (auto simp: digit_digit_of)
    then have "0 \<le> d" by (simp add: digit_of_def Let_def split: if_splits)
    then show ?thesis
      using Cons.IH [of "v * 10 + d"] Cons.prems d True digits_val_ge [of "10 * v + d" s]
      by (auto simp: Let_def mult.commute digit_digit_of)
  qed simp
qed simp

lemma reg_member_iff:
  assumes "1 \<le> c"
  shows "reg_member b c ref \<longleftrightarrow> (\<exists>ds. ref = b @ [DASH] @ ds \<and> ds \<noteq> [] \<and> list_all digit ds \<and> digits_val 0 ds < c)"
proof
  assume r: "reg_member b c ref"
  let ?d = "drop (length b + 1) ref"
  have h: "take (length b) ref = b" "take 1 (drop (length b) ref) = [DASH]" "?d \<noteq> []" "member_digits c 0 ?d"
    using r by (auto simp: reg_member_def Let_def split: if_splits)
  have "ref = b @ drop (length b) ref" using append_take_drop_id [of "length b" ref] by (simp add: h(1))
  moreover have "drop (length b) ref = [DASH] @ ?d"
    using append_take_drop_id [of 1 "drop (length b) ref"] by (simp only: h(2) drop_drop add.commute)
  ultimately have "ref = b @ [DASH] @ ?d" by metis
  then show "\<exists>ds. ref = b @ [DASH] @ ds \<and> ds \<noteq> [] \<and> list_all digit ds \<and> digits_val 0 ds < c"
    using h(3,4) assms by (auto simp: member_digits_iff intro: exI [of _ ?d])
next
  assume "\<exists>ds. ref = b @ [DASH] @ ds \<and> ds \<noteq> [] \<and> list_all digit ds \<and> digits_val 0 ds < c"
  then obtain ds where "ref = b @ [DASH] @ ds" "ds \<noteq> []" "list_all digit ds" "digits_val 0 ds < c" by blast
  then show "reg_member b c ref" using assms by (simp add: reg_member_def Let_def member_digits_iff)
qed

lemma member_name_member: "0 \<le> k \<Longrightarrow> k < c \<Longrightarrow> reg_member b c (member_name b k)"
  using digits_chars [of 10 "nat k"] digits_digits [of "nat k"]
  by (auto simp: reg_member_iff member_name_def fmt_d_def digits_value list_all_iff list_ex_iff digit_digit_of)

text \<open>Digits without a zero in front are those that \<open>printf\<close> writes.\<close>

lemma digit_char_of:
  assumes "digit_of c = Some d"
  shows "digit_char (nat d) = c"
proof -
  have "0 \<le> d" "d \<le> 9" "(of_char c :: int) = d + 48" using assms by (auto simp: digit_of_def Let_def split: if_splits)
  moreover from this have "digit_of (digit_char (nat d)) = Some d" using digit_of_char [of "nat d"] by simp
  then have "(of_char (digit_char (nat d)) :: int) = d + 48" by (auto simp: digit_of_def Let_def split: if_splits)
  ultimately show ?thesis by (simp flip: of_char_eq_iff [where 'a = int])
qed

lemma canonical_digits:
  "ds \<noteq> [] \<Longrightarrow> list_all digit ds \<Longrightarrow> (2 \<le> length ds \<longrightarrow> hd ds \<noteq> CHR ''0'') \<Longrightarrow> digits 10 (nat (digits_val 0 ds)) = ds"
proof (induction ds rule: rev_induct)
  case (snoc c ds)
  then obtain d where d: "digit_of c = Some d" by (auto simp: digit_digit_of)
  then have d': "0 \<le> d" "d \<le> 9" by (simp_all add: digit_of_def Let_def split: if_splits)
  show ?case
  proof (cases "ds = []")
    case True
    moreover have "nat d < 10" using d' by simp
    ultimately show ?thesis using d by (subst digits.simps) (simp add: digit_char_of)
  next
    case False
    let ?v = "digits_val 0 ds"
    have h: "hd ds \<noteq> CHR ''0''" using snoc.prems(3) False by (cases ds) auto
    have ih: "digits 10 (nat ?v) = ds" using snoc False h by (simp add: list_all_iff)
    have "0 \<le> ?v" using digits_val_ge [of 0 ds] snoc.prems(2) by (auto simp: list_all_iff digit_digit_of)
    moreover have "?v \<noteq> 0"
    proof
      assume "?v = 0"
      with ih have "ds = [digit_char 0]" by (simp add: digits.simps)
      with h show False by (simp add: digit_char_def)
    qed
    ultimately have v: "1 \<le> ?v" by simp
    then have "nat (10 * ?v + d) div 10 = nat ?v" "nat (10 * ?v + d) mod 10 = nat d" "\<not> nat (10 * ?v + d) < 10"
      using d' by (simp_all add: nat_add_distrib nat_mult_distrib)
    with ih d show ?thesis by (subst digits.simps) (simp add: digits_val_snoc digit_char_of)
  qed
qed simp

section \<open>The registry\<close>

text \<open>The entries a registry stands for: a name alone, or the members of a counted base.\<close>

definition expand_name :: "(string \<times> int) list \<Rightarrow> string \<Rightarrow> string list" where
  "expand_name bs nm =
     (case map_of bs nm of
        None \<Rightarrow> [nm]
      | Some c \<Rightarrow> if c > 1 then map (member_name nm) [0..c - 1] else [nm])"

definition minted :: "registry \<Rightarrow> string list" where
  "minted g = concat (map (expand_name (bases g)) (names g))"

definition reg_inv :: "registry \<Rightarrow> bool" where
  "reg_inv g =
     (distinct (names g) \<and> distinct (map fst (bases g)) \<and> fst ` set (bases g) \<subseteq> set (names g) \<and>
      (\<forall>(b, c) \<in> set (bases g). 1 \<le> c) \<and> nsub g = length (names g) \<and>
      int (length (names g)) \<le> nentries g \<and> nentries g \<le> int kMaxWl \<and>
      int (length (minted g)) = nentries g)"

lemma reg0_inv: "reg_inv reg0"
  by (simp add: reg_inv_def reg0_def minted_def kMaxWl_def)

lemma expand_name_other: "nm \<noteq> b \<Longrightarrow> expand_name (bs @ [(b, c)]) nm = expand_name bs nm"
  by (simp add: expand_name_def map_add_def split: option.splits)

lemma length_expand: "length (expand_name bs nm) = (case map_of bs nm of Some c \<Rightarrow> if c > 1 then nat c else 1 | None \<Rightarrow> 1)"
  by (simp add: expand_name_def split: option.split)

lemma reg_has_names: "reg_inv g \<Longrightarrow> nm \<in> set (names g) \<Longrightarrow> reg_has g nm"
  by (simp add: reg_has_def)

lemma reg_add_inv:
  assumes "reg_add l eff add counted g = Accept g'" "reg_inv g" "1 \<le> add" "counted \<or> add = 1"
  shows "reg_inv g' \<and> minted g' = minted g @ (if counted \<and> add > 1 then map (member_name eff) [0..add - 1] else [eff])"
proof -
  from assms(1) have new: "eff \<notin> set (names g)" and room: "nentries g + add \<le> int kMaxWl" and
    g': "g' = \<lparr>names = names g @ [eff], bases = bases g @ (if counted then [(eff, add)] else []),
       nentries = nentries g + add, nsub = nsub g + 1\<rparr>"
    by (auto simp: reg_add_def reg_has_def)
  have fresh: "eff \<notin> fst ` set (bases g)" using new assms(2) by (auto simp: reg_inv_def)
  then have none: "map_of (bases g) eff = None" by (simp add: map_of_eq_None_iff)
  have old: "map (expand_name (bases g')) (names g) = map (expand_name (bases g)) (names g)"
    using new by (auto simp: g' intro!: expand_name_other)
  have m: "minted g' = minted g @ (if counted \<and> add > 1 then map (member_name eff) [0..add - 1] else [eff])"
  proof -
    have "minted g' = concat (map (expand_name (bases g')) (names g)) @ expand_name (bases g') eff"
      by (simp add: minted_def g')
    also have "concat (map (expand_name (bases g')) (names g)) = minted g" by (simp only: old minted_def)
    finally show ?thesis using none assms(4) by (auto simp: g' expand_name_def map_add_def)
  qed
  then show ?thesis
    using assms(2-4) new room fresh by (auto simp: reg_inv_def g')
qed

lemma reg_step_inv:
  assumes "reg_step s g = Accept g'" "reg_inv g" "mint_ok sut s" "step_ok n s"
  shows "reg_inv g'"
proof -
  have ld: "load_ok (s_has_count s) (s_count s) (s_has_rate s) (s_rate s) (s_has_dur s) (s_duration_s s)"
    "s_has_ramp s \<longrightarrow> ramp_ok (s_ramp s)" using assms(4) by (simp_all add: step_ok_def)
  have pos: "1 \<le> bench_mints s" if l: "loaded s"
  proof (cases "s_has_ramp s")
    case True
    with ld(2) have r: "1 \<le> ramp_max_steps (s_ramp s)" "1 \<le> ramp_max_rate (s_ramp s)" "1 \<le> ramp_step_dur (s_ramp s)"
      by (auto simp: ramp_ok_def in_range_def)
    then have "1 * 1 * 1 \<le> ramp_max_steps (s_ramp s) * ramp_max_rate (s_ramp s) * ramp_step_dur (s_ramp s)"
      by (intro mult_mono) auto
    with True show ?thesis by (simp add: bench_mints_def)
  next
    case False
    have "1 * 1 \<le> s_rate s * s_duration_s s" if "s_has_rate s" "s_has_dur s"
      using ld(1) that by (intro mult_mono) (auto simp: load_ok_def)
    with False l ld(1) show ?thesis by (auto simp: loaded_def bench_mints_def load_ok_def)
  qed
  show ?thesis
  proof (cases "s_kind s")
    case ST_SUBMIT
    with assms(1) have "reg_submit s g = Accept g'" by (simp add: reg_step_def)
    then have a: "reg_add (s_line s) (if s_has_as s then s_as_name s else ''submitted'')
       (if s_has_count s then s_count s else 1) (s_has_count s) g = Accept g'"
      by (simp add: reg_submit_def Let_def)
    show ?thesis using reg_add_inv [OF a assms(2)] assms(3) ST_SUBMIT by (auto simp: mint_ok_def submit_ok_def)
  next
    case ST_BENCH
    with assms(1) have "reg_bench s g = Accept g'" by (simp add: reg_step_def)
    moreover have p: "1 \<le> bench_mints s" using pos assms(3) ST_BENCH by (simp add: mint_ok_def)
    moreover have "bench_mints s = 1" if "\<not> (s_has_ramp s \<or> s_has_dur s \<or> \<not> s_has_count s \<or> s_count s > 1)"
      using that p by (simp add: bench_mints_def)
    ultimately show ?thesis
      using reg_add_inv [OF _ assms(2), of "s_line s" "s_as_name s" "bench_mints s"] assms(2)
      by (auto simp: reg_bench_def split: if_splits)
  qed (use assms(1,2) in \<open>auto simp: reg_step_def\<close>)
qed

end
