(* ===== verification/Exec_Table.thy ===== *)
theory Exec_Table
  imports Lint_Names
begin

text \<open>
  The workload table of the executor (\<open>suite/exec.c\<close>): the entries a run has submitted, the
  counted bases, \<open>wl_resolve\<close>, and the \<open>submit\<close>, \<open>stop\<close> and \<open>update\<close> steps of
  \<open>apply_step\<close>. What the driver answers is an argument: for the k-th submission the workload
  id and the clock, for the k-th stop or update whether it worked.
\<close>

section \<open>The table\<close>

record wl_ent =
  e_name :: string
  e_wid :: string
  e_node :: int
  e_sub_ms :: u64
  e_present_ms :: u64
  e_metric_done :: bool

record wl_tab =
  ents :: "wl_ent list"
  tbases :: "(string \<times> int) list"

definition tab0 :: wl_tab where
  "tab0 = \<lparr>ents = [], tbases = []\<rparr>"

text \<open>Entry numbers for a name: the exact hits, or else the members of the counted base.\<close>

definition wl_resolve :: "wl_tab ptr \<Rightarrow> string ptr \<Rightarrow> int \<Rightarrow> nat list" where
  "wl_resolve tp np cap =
     (case (tp, np) of
        (Some t, Some nm) \<Rightarrow>
          if cap \<le> 0 then []
          else
            let js = [0..<length (ents t)];
                hits = take (nat cap) (filter (\<lambda>i. e_name (ents t ! i) = nm) js) in
            if hits \<noteq> [] then hits
            else
              take (nat cap) (concat (map (\<lambda>(b, c).
                if b \<noteq> nm then [] else filter (\<lambda>j. reg_member b c (e_name (ents t ! j))) js) (tbases t)))
      | _ \<Rightarrow> [])"

section \<open>Submit, stop and update\<close>

datatype step_end = Passed | Fixed_id | Failed string

definition entry_name :: "int \<Rightarrow> int \<Rightarrow> string \<Rightarrow> string" where
  "entry_name cnt k eff = take (kWlLen - 1) (if cnt > 1 then eff @ ''-'' @ fmt_d k else eff)"

text \<open>The loop of a submit: \<open>ans k\<close> is the k-th answer of the driver.\<close>

function submit_loop ::
  "(int \<Rightarrow> (string \<times> u64) option) \<Rightarrow> int \<Rightarrow> string \<Rightarrow> int \<Rightarrow> int \<Rightarrow> wl_tab \<Rightarrow> step_end \<times> wl_tab" where
  "submit_loop ans node eff cnt k t =
     (if k \<ge> cnt then (Passed, t)
      else
        (case ans k of
           None \<Rightarrow> (Failed (''submit on node '' @ fmt_d node @ '' failed''), t)
         | Some (wid, now) \<Rightarrow>
             submit_loop ans node eff cnt (k + 1)
               (t\<lparr>ents := ents t @
                  [\<lparr>e_name = entry_name cnt k eff, e_wid = wid, e_node = node, e_sub_ms = now,
                    e_present_ms = 0, e_metric_done = False\<rparr>]\<rparr>)))"
  by pat_completeness auto
termination by (relation "measure (\<lambda>(ans, node, eff, cnt, k, t). nat (cnt - k))") auto

declare submit_loop.simps [simp del]

definition apply_submit :: "(int \<Rightarrow> (string \<times> u64) option) \<Rightarrow> ex_step \<Rightarrow> wl_tab \<Rightarrow> step_end \<times> wl_tab" where
  "apply_submit ans s t =
     (if s_has_id s then (Fixed_id, t)
      else
        let eff = (if s_has_as s then s_as_name s else ''submitted'') in
        if \<not> s_has_as s \<and> length (ents t) > 0 then (Failed ''second submit needs as: name'', t)
        else if wl_resolve (Some t) (Some eff) (int kMaxWl) \<noteq> [] then (Failed (''duplicate workload '' @ eff), t)
        else
          let cnt = (if s_has_count s then s_count s else 1) in
          if (of_int cnt :: u64) + of_nat (length (ents t)) > of_nat kMaxWl then (Failed ''too many workloads'', t)
          else if s_has_count s \<and> length eff + 4 > kWlLen then (Failed ''workload name too long for count'', t)
          else
            (case submit_loop ans (s_node s) eff cnt 0 t of
               (Passed, t) \<Rightarrow> (Passed, if cnt > 1 then t\<lparr>tbases := tbases t @ [(eff, cnt)]\<rparr> else t)
             | r \<Rightarrow> r))"

text \<open>The driver is asked for each entry the name stands for, until it fails.\<close>

fun each_entry :: "(nat \<Rightarrow> bool) \<Rightarrow> string \<Rightarrow> wl_tab \<Rightarrow> nat \<Rightarrow> nat list \<Rightarrow> step_end" where
  "each_entry ans what t h [] = Passed"
| "each_entry ans what t h (i # is) =
     (if \<not> ans h then Failed (what @ '' '' @ e_wid (ents t ! i) @ '' failed'')
      else each_entry ans what t (h + 1) is)"

definition apply_stop :: "(nat \<Rightarrow> bool) \<Rightarrow> ex_step \<Rightarrow> wl_tab \<Rightarrow> step_end" where
  "apply_stop ans s t =
     (let hits = wl_resolve (Some t) (Some (s_wl s)) (int kMaxWl) in
      if hits = [] then Failed ''stop with no submitted workload''
      else each_entry ans ''stop'' t 0 hits)"

definition apply_update :: "(nat \<Rightarrow> bool) \<Rightarrow> int \<Rightarrow> ex_step \<Rightarrow> wl_tab \<Rightarrow> step_end" where
  "apply_update ans sut s t =
     (if sut = kWeld then Failed ''update is concord-only''
      else
        let hits = wl_resolve (Some t) (Some (s_wl s)) (int kMaxWl) in
        if hits = [] then Failed ''update with no submitted workload''
        else each_entry ans ''update'' t 0 hits)"

section \<open>The registry describes the table\<close>

definition describes :: "registry \<Rightarrow> wl_tab \<Rightarrow> bool" where
  "describes g t =
     (reg_inv g \<and> map e_name (ents t) = minted g \<and> tbases t = filter (\<lambda>(b, c). c > 1) (bases g))"

lemma describes_0: "describes reg0 tab0"
  by (simp add: describes_def reg0_inv tab0_def) (simp add: reg0_def minted_def)

lemma filter_upt_empty: "filter (\<lambda>i. P (xs ! i)) [0..<length xs] = [] \<longleftrightarrow> \<not> (\<exists>x \<in> set xs. P x)"
  by (simp add: filter_empty_conv Ball_def) (metis in_set_conv_nth)

lemma resolve_iff:
  "wl_resolve (Some t) (Some nm) (int kMaxWl) \<noteq> [] \<longleftrightarrow>
     nm \<in> e_name ` set (ents t) \<or>
     (\<exists>c. (nm, c) \<in> set (tbases t) \<and> (\<exists>x \<in> e_name ` set (ents t). reg_member nm c x))"
proof -
  let ?js = "[0..<length (ents t)]"
  have k: "nat (int kMaxWl) = 128" "\<not> int kMaxWl \<le> 0" by (simp_all add: kMaxWl_def)
  have 1: "filter (\<lambda>i. e_name (ents t ! i) = nm) ?js = [] \<longleftrightarrow> nm \<notin> e_name ` set (ents t)"
    using filter_upt_empty [of "\<lambda>e. e_name e = nm" "ents t"] by auto
  have 2: "concat (map (\<lambda>(b, c). if b \<noteq> nm then [] else filter (\<lambda>j. reg_member b c (e_name (ents t ! j))) ?js) (tbases t)) = []
    \<longleftrightarrow> \<not> (\<exists>c. (nm, c) \<in> set (tbases t) \<and> (\<exists>x \<in> e_name ` set (ents t). reg_member nm c x))"
    using filter_upt_empty [of "\<lambda>e. reg_member nm c (e_name e)" "ents t" for c]
    by (simp only: concat_eq_Nil_conv) fastforce
  show ?thesis
    by (simp only: wl_resolve_def prod.case option.case k if_False Let_def) (simp add: 1 2 del: concat_eq_Nil_conv)
qed

lemma bases_names: "reg_inv g \<Longrightarrow> (b, c) \<in> set (bases g) \<Longrightarrow> b \<in> set (names g)"
  by (force simp: reg_inv_def)

lemma bases_map_of: "reg_inv g \<Longrightarrow> map_of (bases g) b = Some c \<longleftrightarrow> (b, c) \<in> set (bases g)"
  by (simp add: reg_inv_def)

lemma minted_plain: "nm \<in> set (names g) \<Longrightarrow> map_of (bases g) nm = None \<Longrightarrow> nm \<in> set (minted g)"
  by (auto simp: minted_def expand_name_def intro!: bexI [of _ nm])

lemma minted_member:
  "reg_inv g \<Longrightarrow> (b, c) \<in> set (bases g) \<Longrightarrow> 1 < c \<Longrightarrow> 0 \<le> k \<Longrightarrow> k < c \<Longrightarrow> member_name b k \<in> set (minted g)"
  using bases_names [of g b c] bases_map_of [of g b c]
  by (auto simp: minted_def expand_name_def intro!: bexI [of _ b])

lemma minted_has:
  assumes "reg_inv g" "x \<in> set (minted g)"
  shows "reg_has g x"
proof -
  from assms(2) obtain nm where nm: "nm \<in> set (names g)" "x \<in> set (expand_name (bases g) nm)" by (auto simp: minted_def)
  show ?thesis
  proof (cases "x = nm")
    case False
    with nm(2) obtain c k where "map_of (bases g) nm = Some c" "0 \<le> k" "k < c" "x = member_name nm k"
      by (auto simp: expand_name_def split: option.splits if_splits)
    then show ?thesis using member_name_member [of k c nm] assms(1)
      by (auto simp: reg_has_def list_ex_iff bases_map_of)
  qed (use nm in \<open>simp add: reg_has_def\<close>)
qed

lemma fresh_unresolved:
  assumes "describes g t" "\<not> reg_has g nm"
  shows "wl_resolve (Some t) (Some nm) (int kMaxWl) = []"
proof -
  have "nm \<notin> set (minted g)" using assms minted_has by (auto simp: describes_def)
  then have "nm \<notin> e_name ` set (ents t)" using assms(1) by (metis describes_def set_map)
  moreover have "(nm, c) \<notin> set (tbases t)" for c using assms by (force simp: describes_def reg_has_def list_ex_iff)
  ultimately show ?thesis using resolve_iff [of t nm] by blast
qed

text \<open>References the executor knows: no number with a zero in front, no member of a set of one.\<close>

definition zero_padded :: "string \<Rightarrow> bool" where
  "zero_padded r =
     (let d = rev (takeWhile (\<lambda>c. c \<noteq> DASH) (rev r)) in
      length d \<ge> 2 \<and> hd d = CHR ''0'')"

lemma zero_padded_member:
  "list_all digit ds \<Longrightarrow> zero_padded (b @ [DASH] @ ds) \<longleftrightarrow> 2 \<le> length ds \<and> hd ds = CHR ''0''"
proof -
  assume "list_all digit ds"
  then have "\<forall>c \<in> set (rev ds). c \<noteq> DASH" by (auto simp: list_all_iff digit_def between_def)
  then have "takeWhile (\<lambda>c. c \<noteq> DASH) (rev ds @ [DASH] @ rev b) = rev ds"
    by (subst takeWhile_append2) auto
  then show ?thesis by (simp add: zero_padded_def)
qed

lemma known_resolved:
  assumes "describes g t" "reg_has g ref" "\<not> zero_padded ref" "\<forall>(b, c) \<in> set (bases g). 1 < c"
  shows "wl_resolve (Some t) (Some ref) (int kMaxWl) \<noteq> []"
proof -
  have inv: "reg_inv g" and ents: "e_name ` set (ents t) = set (minted g)" and tb: "tbases t = bases g"
    using assms(1,4) by (auto simp: describes_def filter_id_conv case_prod_beta simp flip: set_map)
  from assms(2) consider "ref \<in> set (names g)" | b c where "(b, c) \<in> set (bases g)" "b \<noteq> ref" "reg_member b c ref"
    using inv by (force simp: reg_has_def list_ex_iff reg_inv_def)
  then show ?thesis
  proof cases
    case 1
    show ?thesis
    proof (cases "\<exists>c. (ref, c) \<in> set (bases g)")
      case True
      then obtain c where c: "(ref, c) \<in> set (bases g)" "1 < c" using assms(4) by auto
      then have "member_name ref 0 \<in> set (minted g)" using minted_member [OF inv, of ref c 0] by simp
      with c show ?thesis unfolding resolve_iff ents tb using member_name_member [of 0 c] by auto
    next
      case False
      then have "map_of (bases g) ref = None" by (force simp: map_of_eq_None_iff)
      with 1 have "ref \<in> set (minted g)" by (rule minted_plain)
      then show ?thesis unfolding resolve_iff ents by simp
    qed
  next
    case 2
    then have c: "1 < c" using assms(4) by auto
    with 2 obtain ds where ds: "ref = b @ [DASH] @ ds" "ds \<noteq> []" "list_all digit ds" "digits_val 0 ds < c"
      by (auto simp: reg_member_iff)
    have "2 \<le> length ds \<longrightarrow> hd ds \<noteq> CHR ''0''" using assms(3) zero_padded_member [OF ds(3), of b] ds(1) by simp
    then have "digits 10 (nat (digits_val 0 ds)) = ds" using canonical_digits ds by blast
    moreover have v: "0 \<le> digits_val 0 ds" using digits_val_ge [of 0 ds] ds(3) by (simp add: list_all_iff digit_digit_of)
    ultimately have "ref = member_name b (digits_val 0 ds)" by (simp add: ds(1) member_name_def fmt_d_def)
    then have "ref \<in> set (minted g)" using minted_member [OF inv 2(1) c v ds(4)] by simp
    then show ?thesis unfolding resolve_iff ents by simp
  qed
qed

section \<open>A run of the steps of a file\<close>

text \<open>
  The steps of \<open>apply_step\<close> that touch the table, in file order, and after the steps of a phase
  the name of its condition, which \<open>eval_cond\<close> resolves first. A fixed id ends the file.
\<close>

record world =
  w_submit :: "nat \<Rightarrow> int \<Rightarrow> (string \<times> u64) option"
  w_other :: "nat \<Rightarrow> nat \<Rightarrow> bool"

definition table_step :: "world \<Rightarrow> int \<Rightarrow> nat \<Rightarrow> ex_step \<Rightarrow> wl_tab \<Rightarrow> step_end \<times> wl_tab" where
  "table_step w sut i s t =
     (case s_kind s of
        ST_SUBMIT \<Rightarrow> apply_submit (w_submit w i) s t
      | ST_STOP \<Rightarrow> (apply_stop (w_other w i) s t, t)
      | ST_UPDATE \<Rightarrow> (apply_update (w_other w i) sut s t, t)
      | _ \<Rightarrow> (Passed, t))"

fun table_steps :: "world \<Rightarrow> int \<Rightarrow> nat \<Rightarrow> ex_step list \<Rightarrow> wl_tab \<Rightarrow> step_end \<times> wl_tab" where
  "table_steps w sut i [] t = (Passed, t)"
| "table_steps w sut i (s # ss) t =
     (case table_step w sut i s t of
        (Passed, t) \<Rightarrow> table_steps w sut (i + 1) ss t
      | r \<Rightarrow> r)"

fun table_phases :: "world \<Rightarrow> int \<Rightarrow> nat \<Rightarrow> ex_phase list \<Rightarrow> wl_tab \<Rightarrow> step_end \<times> wl_tab" where
  "table_phases w sut i [] t = (Passed, t)"
| "table_phases w sut i (p # ps) t =
     (case table_steps w sut i (ph_steps p) t of
        (Passed, t) \<Rightarrow>
          if cond_wl (ph_cond p) \<and> wl_resolve (Some t) (Some (c_wl (ph_cond p))) (int kMaxWl) = []
          then (Failed ''no submitted workload'', t)
          else table_phases w sut (i + length (ph_steps p)) ps t
      | r \<Rightarrow> r)"

text \<open>
  The ways such a run may end: all done, a fixed id, or a driver that failed, which one that
  always says yes (\<open>yes\<close>) does not.
\<close>

definition driver_failed :: "string \<Rightarrow> bool" where
  "driver_failed m =
     ((\<exists>n. m = ''submit on node '' @ fmt_d n @ '' failed'') \<or>
      (\<exists>what wid. what \<in> {''stop'', ''update''} \<and> m = what @ '' '' @ wid @ '' failed''))"

definition no_table_error :: "bool \<Rightarrow> step_end \<Rightarrow> bool" where
  "no_table_error yes e = (case e of Failed m \<Rightarrow> \<not> yes \<and> driver_failed m | _ \<Rightarrow> True)"

text \<open>A driver that does what it is asked.\<close>

definition obliging :: "world \<Rightarrow> bool" where
  "obliging w = ((\<forall>i k. w_submit w i k \<noteq> None) \<and> (\<forall>i h. w_other w i h))"

lemma submit_loop_end:
  "submit_loop ans node eff cnt k t = (e, t') \<Longrightarrow>
   (e = Passed \<longrightarrow>
      map e_name (ents t') = map e_name (ents t) @ map (\<lambda>k. entry_name cnt k eff) [k..cnt - 1] \<and> tbases t' = tbases t) \<and>
   (e \<noteq> Passed \<longrightarrow> (\<exists>m. e = Failed m \<and> driver_failed m))"
proof (induction ans node eff cnt k t rule: submit_loop.induct)
  case (1 ans node eff cnt k t)
  show ?case
  proof (cases "k \<ge> cnt")
    case True
    with 1(2) show ?thesis by (auto simp: submit_loop.simps)
  next
    case False
    show ?thesis
    proof (cases "ans k")
      case None
      with 1(2) False have "e = Failed (''submit on node '' @ fmt_d node @ '' failed'')" by (simp add: submit_loop.simps)
      then show ?thesis by (auto simp: driver_failed_def)
    next
      case (Some a)
      obtain wid now where a: "a = (wid, now)" by (cases a)
      have "[k..cnt - 1] = k # [k + 1..cnt - 1]" using False by (simp add: upto.simps)
      with 1(1) [OF False Some a [symmetric]] 1(2) False Some a show ?thesis by (subst (asm) submit_loop.simps) auto
    qed
  qed
qed

lemma submit_loop_yes: "\<forall>k. ans k \<noteq> None \<Longrightarrow> fst (submit_loop ans node eff cnt k t) = Passed"
proof (induction ans node eff cnt k t rule: submit_loop.induct)
  case (1 ans node eff cnt k t)
  obtain wid now where "ans k = Some (wid, now)" using 1(2) by (metis option.exhaust surj_pair)
  with 1 show ?case by (subst submit_loop.simps) auto
qed

lemma each_entry_end:
  "what \<in> {''stop'', ''update''} \<Longrightarrow> (yes \<Longrightarrow> \<forall>h. ans h) \<Longrightarrow> no_table_error yes (each_entry ans what t h is)"
  by (induction h "is" rule: each_entry.induct [where ?a0.0 = ans and ?a1.0 = what and ?a2.0 = t])
    (auto simp: no_table_error_def driver_failed_def)

text \<open>What the theorem asks of a step beyond the linter: no set of one, no number with a zero in front.\<close>

definition clear_ref :: "ex_step \<Rightarrow> bool" where
  "clear_ref s =
     ((s_kind s = ST_SUBMIT \<longrightarrow> \<not> (s_has_count s \<and> s_count s = 1)) \<and>
      (s_kind s \<in> {ST_STOP, ST_UPDATE} \<longrightarrow> \<not> zero_padded (s_wl s)) \<and>
      (s_kind s = ST_BENCH \<longrightarrow> \<not> submit (kEpCap (s_from_kind s))))"

definition real_sets :: "registry \<Rightarrow> bool" where
  "real_sets g = (\<forall>(b, c) \<in> set (bases g). 1 < c)"

lemma entry_name_member:
  assumes "1 < cnt" "cnt \<le> kMaxCount" "\<not> length eff + 4 > kWlLen" "0 \<le> k" "k < cnt"
  shows "entry_name cnt k eff = member_name eff k"
proof -
  have "length (digits 10 (nat k)) \<le> 2" using assms by (intro digits_length) (simp_all add: kMaxCount_def)
  with assms show ?thesis by (simp add: entry_name_def member_name_def fmt_d_def kWlLen_def)
qed

lemma entry_name_one: "length eff < kWlLen \<Longrightarrow> entry_name 1 k eff = eff"
  by (simp add: entry_name_def)


lemma apply_submit_end:
  assumes d: "describes g t" and r: "reg_submit s g = Accept g'" and ok: "submit_ok s" "clear_ref s" "s_kind s = ST_SUBMIT"
    and nm: "length (s_as_name s) < kWlLen" and a: "apply_submit ans s t = (e, t')"
    and yes: "yes \<Longrightarrow> \<forall>k. ans k \<noteq> None"
  shows "no_table_error yes e \<and> (e = Passed \<longrightarrow> describes g' t')"
proof (cases "s_has_id s")
  case True
  with a show ?thesis by (auto simp: apply_submit_def no_table_error_def)
next
  case False
  let ?eff = "if s_has_as s then s_as_name s else ''submitted''"
  let ?c = "if s_has_count s then s_count s else 1"
  from r have first: "\<not> (\<not> s_has_as s \<and> nsub g > 0)" and
    add: "reg_add (s_line s) ?eff ?c (s_has_count s) g = Accept g'"
    by (auto simp: reg_submit_def Let_def)
  have new: "\<not> reg_has g ?eff" and room: "nentries g + ?c \<le> int kMaxWl" using add by (simp_all add: reg_add_def)
  have inv: "reg_inv g" and names: "map e_name (ents t) = minted g" using d by (simp_all add: describes_def)
  have c: "1 \<le> ?c" "?c \<le> kMaxCount" "s_has_count s \<longrightarrow> 1 < ?c" "s_has_count s \<longrightarrow> \<not> length ?eff + 4 > kWlLen"
    using ok by (auto simp: submit_ok_def clear_ref_def name_too_long_def kMaxCount_def)
  have len: "int (length (ents t)) = nentries g"
    using names inv by (simp add: reg_inv_def flip: length_map [of e_name])
  have g1: "\<not> (\<not> s_has_as s \<and> length (ents t) > 0)"
    using first names inv by (auto simp: reg_inv_def minted_def simp flip: length_map [of e_name])
  have g2: "wl_resolve (Some t) (Some ?eff) (int kMaxWl) = []" by (rule fresh_unresolved [OF d new])
  have "of_int ?c + of_nat (length (ents t)) = (of_int (?c + nentries g) :: u64)" by (simp flip: len)
  moreover have "uint (of_int (?c + nentries g) :: u64) = ?c + nentries g"
    using room c(1) len by (intro word_small) (simp_all add: kMaxWl_def)
  ultimately have g3: "\<not> (of_int ?c :: u64) + of_nat (length (ents t)) > of_nat kMaxWl"
    using room by (simp add: word_less_def kMaxWl_def)
  obtain e1 t1 where lp: "submit_loop ans (s_node s) ?eff ?c 0 t = (e1, t1)" by (cases "submit_loop ans (s_node s) ?eff ?c 0 t")
  have "apply_submit ans s t = (case (e1, t1) of
     (Passed, t) \<Rightarrow> (Passed, if ?c > 1 then t\<lparr>tbases := tbases t @ [(?eff, ?c)]\<rparr> else t) | r \<Rightarrow> r)"
    using False g1 g2 g3 c(4) unfolding apply_submit_def Let_def lp by (simp only: if_False if_True simp_thms) auto
  then have at: "(e, t') = (case (e1, t1) of
     (Passed, t) \<Rightarrow> (Passed, if ?c > 1 then t\<lparr>tbases := tbases t @ [(?eff, ?c)]\<rparr> else t) | r \<Rightarrow> r)"
    using a by simp
  note loop = submit_loop_end [OF lp]
  show ?thesis
  proof (cases "e1 = Passed")
    case True
    have e: "e = Passed" and t': "t' = (if ?c > 1 then t1\<lparr>tbases := tbases t1 @ [(?eff, ?c)]\<rparr> else t1)"
      using at True by auto
    have names1: "map e_name (ents t1) = minted g @ map (\<lambda>k. entry_name ?c k ?eff) [0..?c - 1]" and tb1: "tbases t1 = tbases t"
      using loop True names by auto
    have g': "reg_inv g'" "minted g' = minted g @ (if s_has_count s \<and> ?c > 1 then map (member_name ?eff) [0..?c - 1] else [?eff])"
      using reg_add_inv [OF add inv c(1)] by auto
    have b: "bases g' = bases g @ (if s_has_count s then [(?eff, ?c)] else [])" using add by (simp add: reg_add_def) auto
    have "describes g' t'"
    proof (cases "s_has_count s")
      case True
      then have "?c > 1" using c(3) by simp
      moreover have "map (\<lambda>k. entry_name ?c k ?eff) [0..?c - 1] = map (member_name ?eff) [0..?c - 1]"
        using \<open>?c > 1\<close> c(2,4) True by (intro map_cong refl entry_name_member) auto
      ultimately show ?thesis
        using True g' b tb1 names1 d by (simp add: describes_def t' del: map_map)
    next
      case False
      then have one: "?c = 1" "map (\<lambda>k. entry_name ?c k ?eff) [0..?c - 1] = [entry_name 1 0 ?eff]" by simp_all
      have "length ?eff < kWlLen" using nm by (simp add: kWlLen_def)
      then show ?thesis using one False g' b tb1 names1 d entry_name_one [of ?eff 0] by (simp add: describes_def t')
    qed
    with e show ?thesis by (simp add: no_table_error_def)
  next
    case False
    with loop at obtain m where "e = Failed m" "driver_failed m" by auto
    moreover have "\<not> yes" using submit_loop_yes yes lp False by (metis fst_conv)
    ultimately show ?thesis by (simp add: no_table_error_def)
  qed
qed


lemma reg_step_other:
  "reg_step s g = Accept g' \<Longrightarrow> s_kind s \<noteq> ST_SUBMIT \<Longrightarrow> clear_ref s \<Longrightarrow>
   g' = g \<and> (s_kind s \<in> {ST_STOP, ST_UPDATE} \<longrightarrow> reg_has g (s_wl s))"
  by (cases "s_kind s") (auto simp: reg_step_def reg_bench_def clear_ref_def)

lemma reg_step_sets:
  assumes "reg_step s g = Accept g'" "mint_ok sut s" "clear_ref s" "real_sets g"
  shows "real_sets g'"
proof (cases "s_kind s = ST_SUBMIT")
  case True
  with assms show ?thesis
    by (auto simp: reg_step_def reg_submit_def Let_def reg_add_def real_sets_def clear_ref_def mint_ok_def submit_ok_def
        split: if_splits)
next
  case False
  with assms reg_step_other [OF assms(1) False assms(3)] show ?thesis by (simp add: clear_ref_def)
qed

lemma table_step_end:
  assumes d: "describes g t" "real_sets g" and r: "reg_step s g = Accept g'" and ok: "mint_ok sut s" "clear_ref s"
    and f: "length (s_as_name s) < kWlLen" and a: "table_step w sut i s t = (e, t')"
  shows "no_table_error (obliging w) e \<and> (e = Passed \<longrightarrow> describes g' t')"
proof (cases "s_kind s = ST_SUBMIT")
  case True
  then show ?thesis
    using apply_submit_end [OF d(1) _ _ ok(2) True f, of g' "w_submit w i" e t' "obliging w"] r a ok(1)
    by (simp add: table_step_def reg_step_def mint_ok_def obliging_def)
next
  case False
  note o = reg_step_other [OF r False ok(2)]
  have known: "wl_resolve (Some t) (Some (s_wl s)) (int kMaxWl) \<noteq> []" if "s_kind s \<in> {ST_STOP, ST_UPDATE}"
    using that o ok(2) d by (intro known_resolved [OF d(1)]) (auto simp: clear_ref_def real_sets_def)
  have "no_table_error (obliging w) e \<and> t' = t"
    using a False known ok(1) each_entry_end [of "''stop''" "obliging w" "w_other w i"] each_entry_end [of "''update''" "obliging w" "w_other w i"]
    by (cases "s_kind s") (auto simp: table_step_def apply_stop_def apply_update_def Let_def no_table_error_def mint_ok_def obliging_def)
  with o d(1) show ?thesis by simp
qed

definition steps_clear :: "int \<Rightarrow> ex_step list \<Rightarrow> bool" where
  "steps_clear sut ss =
     list_all (\<lambda>s. mint_ok sut s \<and> clear_ref s \<and> length (s_as_name s) < kWlLen) ss"

lemma table_steps_end:
  "describes g t \<Longrightarrow> real_sets g \<Longrightarrow> reg_steps ss g = Accept g' \<Longrightarrow> steps_clear sut ss \<Longrightarrow>
   table_steps w sut i ss t = (e, t') \<Longrightarrow>
   no_table_error (obliging w) e \<and> (e = Passed \<longrightarrow> describes g' t' \<and> real_sets g')"
proof (induction w sut i ss t arbitrary: g rule: table_steps.induct)
  case (1 w sut i t)
  then show ?case by (simp add: no_table_error_def)
next
  case (2 w sut i s ss t)
  from 2(4) obtain g1 where g1: "reg_step s g = Accept g1" "reg_steps ss g1 = Accept g'" by auto
  have ok: "mint_ok sut s" "clear_ref s" "length (s_as_name s) < kWlLen" "steps_clear sut ss"
    using 2(5) by (simp_all add: steps_clear_def)
  obtain e1 t1 where a: "table_step w sut i s t = (e1, t1)" by (cases "table_step w sut i s t")
  note st = table_step_end [OF 2(2,3) g1(1) ok(1-3) a]
  show ?case
  proof (cases "e1 = Passed")
    case True
    with 2(6) a have "table_steps w sut (i + 1) ss t1 = (e, t')" by simp
    then show ?thesis
      using 2(1) [OF a [symmetric] True] st True reg_step_sets [OF g1(1) ok(1,2) 2(3)] g1(2) ok(4) by blast
  next
    case False
    with 2(6) a have "e = e1" by (auto split: step_end.splits)
    with st False show ?thesis by auto
  qed
qed


definition phase_clear :: "ex_phase \<Rightarrow> bool" where
  "phase_clear p =
     (list_all clear_ref (ph_steps p) \<and> (cond_wl (ph_cond p) \<longrightarrow> \<not> zero_padded (c_wl (ph_cond p))))"

lemma table_phases_end:
  "describes g t \<Longrightarrow> real_sets g \<Longrightarrow> reg_phases ps g = Accept g' \<Longrightarrow>
   list_all (\<lambda>p. steps_clear sut (ph_steps p) \<and> phase_clear p) ps \<Longrightarrow>
   table_phases w sut i ps t = (e, t') \<Longrightarrow>
   no_table_error (obliging w) e \<and> (e = Passed \<longrightarrow> describes g' t')"
proof (induction w sut i ps t arbitrary: g rule: table_phases.induct)
  case (1 w sut i t)
  then show ?case by (simp add: no_table_error_def)
next
  case (2 w sut i p ps t)
  from 2(4) obtain g1 where g1: "reg_steps (ph_steps p) g = Accept g1" "reg_phases ps g1 = Accept g'"
    and c: "cond_wl (ph_cond p) \<longrightarrow> reg_has g1 (c_wl (ph_cond p))" by auto
  have ok: "steps_clear sut (ph_steps p)" "phase_clear p" "list_all (\<lambda>p. steps_clear sut (ph_steps p) \<and> phase_clear p) ps"
    using 2(5) by simp_all
  obtain e1 t1 where a: "table_steps w sut i (ph_steps p) t = (e1, t1)" by (cases "table_steps w sut i (ph_steps p) t")
  note st = table_steps_end [OF 2(2,3) g1(1) ok(1) a]
  show ?case
  proof (cases "e1 = Passed")
    case True
    with st have d: "describes g1 t1" "real_sets g1" by auto
    have known: "\<not> (cond_wl (ph_cond p) \<and> wl_resolve (Some t1) (Some (c_wl (ph_cond p))) (int kMaxWl) = [])"
      using known_resolved [OF d(1)] c ok(2) d(2) by (auto simp: phase_clear_def real_sets_def)
    with 2(6) a True have "table_phases w sut (i + length (ph_steps p)) ps t1 = (e, t')" by simp
    then show ?thesis using 2(1) [OF a [symmetric] True known d g1(2) ok(3)] by blast
  next
    case False
    with 2(6) a have "e = e1" by (auto split: step_end.splits)
    with st False show ?thesis by auto
  qed
qed

lemma load_val_top: "load_validated io path n = (Some f, why) \<Longrightarrow> \<exists>rt. val_top rt = Accept f"
  by (auto simp: load_validated_def split: option.splits lint.splits res.splits)

lemma accepted_names:
  assumes "load_validated io path n = (Some f, why)" "list_all phase_clear (f_phases f)"
    "table_phases w (f_sut f) 0 (f_phases f) tab0 = (e, t)"
  shows "no_table_error (obliging w) e \<and> (e = Passed \<longrightarrow> length (ents t) \<le> kMaxWl)"
proof -
  obtain rt where v: "val_top rt = Accept f" using load_val_top [OF assms(1)] by blast
  obtain g where g: "reg_phases (f_phases f) reg0 = Accept g" using val_top_ok [OF v] by (auto simp: file_ok_def phases_ok_def)
  have "list_all (\<lambda>p. steps_clear (f_sut f) (ph_steps p) \<and> phase_clear p) (f_phases f)"
    using val_top_mint [OF v] val_top_ok [OF v] assms(2)
    by (auto simp: file_ok_def phases_ok_def phase_ok_def list_all_iff steps_clear_def phase_clear_def step_ok_def fits_def)
  from table_phases_end [OF describes_0 _ g this assms(3)]
  have "no_table_error (obliging w) e \<and> (e = Passed \<longrightarrow> describes g t)" by (simp add: real_sets_def reg0_def)
  then show ?thesis by (auto simp: describes_def reg_inv_def simp flip: length_map [of e_name])
qed


section \<open>Where the two disagree\<close>

text \<open>
  Three files the linter accepts: a reference to the only member of a set of one, a reference with
  a zero in front, and a name that a later set mints again. The run fails on the first two at the
  \<open>stop\<close>; the third leaves two entries of one name in the table.
\<close>

definition sub_step :: "string \<Rightarrow> int option \<Rightarrow> ex_step" where
  "sub_step nm c =
     (step0 1)\<lparr>s_kind := ST_SUBMIT, s_as_name := nm, s_has_as := True, s_count := (case c of Some x \<Rightarrow> x | None \<Rightarrow> 0),
       s_has_count := (c \<noteq> None)\<rparr>"

definition stop_step :: "string \<Rightarrow> ex_step" where
  "stop_step nm = (step0 2)\<lparr>s_kind := ST_STOP, s_wl := nm\<rparr>"

definition calm :: world where
  "calm = \<lparr>w_submit = \<lambda>i k. Some (''w'', 0), w_other = \<lambda>i k. True\<rparr>"

definition accepts :: "ex_step list \<Rightarrow> bool" where
  "accepts ss = (case reg_steps ss reg0 of Accept g \<Rightarrow> True | _ \<Rightarrow> False)"

lemma set_of_one_unresolved:
  "accepts [sub_step ''a'' (Some 1), stop_step ''a-0''] \<and>
   fst (table_steps calm kConcord 0 [sub_step ''a'' (Some 1), stop_step ''a-0''] tab0) =
     Failed ''stop with no submitted workload''"
  by code_simp

lemma zero_padded_unresolved:
  "accepts [sub_step ''a'' (Some 2), stop_step ''a-00''] \<and>
   fst (table_steps calm kConcord 0 [sub_step ''a'' (Some 2), stop_step ''a-00''] tab0) =
     Failed ''stop with no submitted workload''"
  by code_simp

lemma member_minted_twice:
  "accepts [sub_step ''a-0'' None, sub_step ''a'' (Some 2)] \<and>
   map e_name (ents (snd (table_steps calm kConcord 0 [sub_step ''a-0'' None, sub_step ''a'' (Some 2)] tab0))) =
     [''a-0'', ''a-0'', ''a-1'']"
  by code_simp

end
