(* ===== verification/Exec_Fault.thy ===== *)
theory Exec_Fault
  imports Run_Own Exec_Table
begin

text \<open>
  The fault steps of \<open>apply_step\<close> in \<open>suite/exec.c\<close> on the run they act on: \<open>drop\<close> in its two
  shapes, \<open>slow\<close>, \<open>heal\<close> and \<open>move\<close>, over the pump map of \<open>tun/tun.c\<close> and the marks \<open>poll_drop\<close>
  reads. The lemmas say which slots and edges a step arms, and that a heal leaves none.
\<close>

section \<open>Marks\<close>

text \<open>\<open>PollCtx.drop\<close>, one mark per node.\<close>

definition poll_drop :: "int list ptr \<Rightarrow> int \<Rightarrow> bool" where
  "poll_drop c i =
     (case c of
        None \<Rightarrow> False
      | Some d \<Rightarrow> if i < 0 \<or> i \<ge> kMaxNodes then False else d ! nat i \<noteq> 0)"

section \<open>The steps\<close>

text \<open>The loop \<open>for (k = 0; k < c->r->n; k++)\<close>.\<close>

definition over_nodes :: "run \<Rightarrow> (int \<Rightarrow> 'a \<Rightarrow> 'a) \<Rightarrow> 'a \<Rightarrow> 'a" where
  "over_nodes r f a = fold f [0..r_n r - 1] a"

abbreviation fd_of :: "run \<Rightarrow> int \<Rightarrow> int" where
  "fd_of r k \<equiv> r_fds r ! nat k"

definition fault_qos :: "ex_step \<Rightarrow> int \<Rightarrow> tun_qos" where
  "fault_qos s k =
     \<lparr>loss01 = s_loss s, base_delay_ns = s_delay_ns s, jitter_ns = s_jitter_ns s, kbps = s_kbps s,
      dup_pct = s_dup_pct s, slow_secs = 0, seed = of_int (k + 1)\<rparr>"

definition fault_hit :: "ex_step \<Rightarrow> int \<Rightarrow> bool" where
  "fault_hit s k =
     (if s_dir s = DIR_BOTH then True
      else
        let listed = s_all s \<or> k \<in> set (s_idx s) in
        if s_dir s = DIR_OUT then listed else \<not> listed)"

definition arm_qos :: "run \<Rightarrow> ex_step \<Rightarrow> tun_map \<Rightarrow> tun_map" where
  "arm_qos r s m =
     over_nodes r (\<lambda>k m. if \<not> fault_hit s k then m else the (tun_qos_set (Some m) (fd_of r k) (Some (fault_qos s k)))) m"

definition set_marks :: "run \<Rightarrow> ex_step \<Rightarrow> int list \<Rightarrow> int list" where
  "set_marks r s d = over_nodes r (\<lambda>k d. if \<not> is_listed s k then d else d[nat k := 1]) d"

definition arm_edges :: "run \<Rightarrow> ex_step \<Rightarrow> tun_map \<Rightarrow> tun_map" where
  "arm_edges r s m =
     over_nodes r (\<lambda>k m.
       if \<not> is_listed s k then m
       else
         over_nodes r (\<lambda>j m.
           if j = k then m else the (tun_drop_set (Some m) (fd_of r j) (fd_of r k) True)) m) m"

definition apply_drop :: "ex_step \<Rightarrow> run \<times> int list \<Rightarrow> run \<times> int list" where
  "apply_drop s st =
     (case st of (r, d) \<Rightarrow>
        if s_has_fault s then (r\<lparr>r_map := arm_qos r s (r_map r)\<rparr>, d)
        else
          let d = (if s_dir s \<noteq> DIR_IN then set_marks r s d else d) in
          (if s_dir s \<noteq> DIR_OUT then (r\<lparr>r_map := arm_edges r s (r_map r)\<rparr>, d) else (r, d)))"

definition clear_marks :: "run \<Rightarrow> ex_step \<Rightarrow> int list \<Rightarrow> int list" where
  "clear_marks r s d =
     (if s_all s then over_nodes r (\<lambda>k d. d[nat k := 0]) d
      else fold (\<lambda>k d. d[nat k := 0]) (s_idx s) d)"

definition clear_qos :: "run \<Rightarrow> tun_map \<Rightarrow> tun_map" where
  "clear_qos r m = over_nodes r (\<lambda>k m. the (tun_qos_clear (Some m) (fd_of r k))) m"

definition clear_edges :: "run \<Rightarrow> tun_map \<Rightarrow> tun_map" where
  "clear_edges r m =
     over_nodes r (\<lambda>k m.
       over_nodes r (\<lambda>j m. if j = k then m else the (tun_drop_clear (Some m) (fd_of r k) (fd_of r j) False)) m) m"

definition apply_heal :: "ex_step \<Rightarrow> run \<times> int list \<Rightarrow> run \<times> int list" where
  "apply_heal s st =
     (case st of (r, d) \<Rightarrow>
        (r\<lparr>r_map := clear_edges r (clear_qos r (r_map r))\<rparr>, clear_marks r s d))"

definition slow_qos :: "ex_step \<Rightarrow> tun_qos" where
  "slow_qos s =
     \<lparr>loss01 = 0, base_delay_ns = 0, jitter_ns = 0, kbps = 0, dup_pct = 0, slow_secs = s_slow_secs s, seed = 0\<rparr>"

definition apply_slow :: "ex_step \<Rightarrow> run \<times> int list \<Rightarrow> run \<times> int list" where
  "apply_slow s st =
     (case st of (r, d) \<Rightarrow>
        (r\<lparr>r_map := over_nodes r (\<lambda>k m.
             if \<not> (s_all s \<or> k \<in> set (s_idx s)) then m
             else the (tun_qos_set (Some m) (fd_of r k) (Some (slow_qos s)))) (r_map r)\<rparr>, d))"


text \<open>The first slot with the file descriptor of the node decides.\<close>

definition move_node :: "run ptr \<Rightarrow> int \<Rightarrow> i64 \<Rightarrow> bool \<times> run ptr" where
  "move_node rp idx x =
     (case rp of
        None \<Rightarrow> (False, None)
      | Some r \<Rightarrow>
          if idx < 0 \<or> idx \<ge> r_n r then (False, rp)
          else
            (case first_at (\<lambda>sl. s_fd sl = fd_of r idx) (slots (r_map r)) of
               None \<Rightarrow> (False, rp)
             | Some k \<Rightarrow>
                 let l = node_tab (r_ctx r) in
                 (case nodelist_find (Some l) (s_node_id (slots (r_map r) ! k)) of
                    None \<Rightarrow> (False, rp)
                  | Some i \<Rightarrow>
                      (True, Some (r\<lparr>r_ctx := (r_ctx r)\<lparr>node_tab := l\<lparr>nodes := (nodes l)[i := (nodes l ! i)\<lparr>x_nm := x\<rparr>]\<rparr>\<rparr>\<rparr>)))))"

text \<open>\<open>(int64_t)(s->xm * 1000000000.0)\<close>: the product is rounded, the conversion truncates.\<close>

definition metres_nm :: "rat \<Rightarrow> i64" where
  "metres_nm xm =
     (if xm < 0 then - of_int \<lfloor>fl64 (- xm * 1000000000)\<rfloor> else of_int \<lfloor>fl64 (xm * 1000000000)\<rfloor>)"

definition apply_move :: "ex_step \<Rightarrow> run \<Rightarrow> step_end \<times> run" where
  "apply_move s r =
     (case move_node (Some r) (s_node s) (metres_nm (s_xm s)) of
        (True, Some r) \<Rightarrow> (Passed, r)
      | _ \<Rightarrow> (Failed (''move node '' @ fmt_d (s_node s) @ '' failed''), r))"


section \<open>What the steps arm\<close>

text \<open>A run with its file descriptors, and faults that are all on them.\<close>

definition fds_of :: "run \<Rightarrow> int set" where
  "fds_of r = (\<lambda>k. fd_of r k) ` {0..<r_n r}"

definition run_ready :: "run \<Rightarrow> int list \<Rightarrow> bool" where
  "run_ready r d =
     (0 \<le> r_n r \<and> r_n r \<le> kMaxNodes \<and> length d = nat kMaxNodes \<and> (\<forall>fd \<in> fds_of r. 0 \<le> fd))"

definition faults_on :: "run \<Rightarrow> int list \<Rightarrow> bool" where
  "faults_on r d =
     (tun_inv (r_map r) \<and> (\<forall>fd. qos_at (r_map r) fd \<noteq> None \<longrightarrow> fd \<in> fds_of r) \<and>
      (\<forall>a b. dhas (r_map r) a b \<longrightarrow> (\<exists>j k. 0 \<le> j \<and> j < r_n r \<and> 0 \<le> k \<and> k < r_n r \<and> j \<noteq> k \<and> a = fd_of r j \<and> b = fd_of r k)) \<and>
      (\<forall>i < length d. d ! i \<noteq> 0 \<longrightarrow> int i < r_n r))"

text \<open>An invariant of the map that each round of the loop keeps.\<close>

lemma fold_inv: "P a \<Longrightarrow> (\<And>x a. x \<in> set xs \<Longrightarrow> P a \<Longrightarrow> P (f x a)) \<Longrightarrow> P (fold f xs a)"
  by (induction xs arbitrary: a) auto

lemma over_nodes_inv:
  "P a \<Longrightarrow> (\<And>k a. 0 \<le> k \<Longrightarrow> k < r_n r \<Longrightarrow> P a \<Longrightarrow> P (f k a)) \<Longrightarrow> P (over_nodes r f a)"
  unfolding over_nodes_def by (rule fold_inv) auto

lemma qos_set_at: "tun_inv m \<Longrightarrow> 0 \<le> fd \<Longrightarrow>
  tun_inv (the (tun_qos_set (Some m) fd (Some q))) \<and>
  (\<forall>x. qos_at (the (tun_qos_set (Some m) fd (Some q))) x \<noteq> None \<longrightarrow> x = fd \<or> qos_at m x \<noteq> None) \<and>
  drops (the (tun_qos_set (Some m) fd (Some q))) = drops m"
  using qos_put_at [of m fd q] tun_qos_set_valid [of fd m q]
  by (auto simp: qos_put_def split: option.splits if_splits)

lemma qos_clear_at:
  assumes "tun_inv m" "0 \<le> fd"
  shows "tun_inv (the (tun_qos_clear (Some m) fd)) \<and>
    qos_at (the (tun_qos_clear (Some m) fd)) = (qos_at m)(fd := None) \<and>
    drops (the (tun_qos_clear (Some m) fd)) = drops m"
  using qos_del_at [OF assms] assms(2) by (auto simp: qos_del_def tun_qos_clear_def split: option.splits)

lemma edge_set_at:
  assumes "tun_inv m" "0 \<le> a" "0 \<le> b"
  shows "tun_inv (the (tun_drop_set (Some m) a b True)) \<and>
    (\<forall>x y. dhas (the (tun_drop_set (Some m) a b True)) x y \<longrightarrow> (x, y) = (a, b) \<or> dhas m x y) \<and>
    qos (the (tun_drop_set (Some m) a b True)) = qos m"
proof -
  let ?m = "the (tun_drop_set (Some m) a b True)"
  have m: "?m = edge_put m (a, b) ()" by (simp add: edge_put_def)
  have e: "tun_inv ?m" "edge_at ?m = (if edge_at m (a, b) = None \<and> length (drops m) \<ge> TUN_MAP_MAX then edge_at m else (edge_at m)((a, b) \<mapsto> ()))"
    using edge_put_at [of m "(a, b)" "()"] assms by (simp_all add: m)
  have "dhas ?m x y \<longrightarrow> (x, y) = (a, b) \<or> dhas m x y" for x y
    using fun_cong [OF e(2), of "(x, y)"] by (auto simp: edge_at_def split: if_splits)
  moreover have "qos ?m = qos m" using assms by (auto simp: tun_drop_set_valid split: option.split)
  ultimately show ?thesis using e(1) by blast
qed

lemma drop_clear_set: "tun_drop_clear (Some m) a b arm = tun_drop_set (Some m) a b False"
  by (auto simp: tun_drop_clear_def tun_drop_set_def split: option.split)

lemma edge_clear_at:
  assumes "tun_inv m" "0 \<le> a" "0 \<le> b"
  shows "tun_inv (the (tun_drop_clear (Some m) a b arm)) \<and>
    (\<forall>x y. dhas (the (tun_drop_clear (Some m) a b arm)) x y \<longleftrightarrow> (x, y) \<noteq> (a, b) \<and> dhas m x y) \<and>
    qos (the (tun_drop_clear (Some m) a b arm)) = qos m"
proof -
  let ?m = "the (tun_drop_clear (Some m) a b arm)"
  have m: "?m = edge_del m (a, b)" by (simp add: edge_del_def drop_clear_set)
  have e: "tun_inv ?m" "edge_at ?m = (edge_at m)((a, b) := None)"
    using edge_del_at [of m "(a, b)"] assms by (simp_all add: m)
  have "dhas ?m x y \<longleftrightarrow> (x, y) \<noteq> (a, b) \<and> dhas m x y" for x y
    using fun_cong [OF e(2), of "(x, y)"] by (auto simp: edge_at_def split: if_splits)
  moreover have "qos ?m = qos m" using assms by (auto simp: drop_clear_set tun_drop_set_valid split: option.split)
  ultimately show ?thesis using e(1) by blast
qed

lemma fd_nonneg: "run_ready r d \<Longrightarrow> 0 \<le> k \<Longrightarrow> k < r_n r \<Longrightarrow> 0 \<le> fd_of r k \<and> fd_of r k \<in> fds_of r"
  by (auto simp: run_ready_def fds_of_def)

text \<open>What a loop over the nodes clears, stays clear.\<close>

lemma fold_clears:
  assumes "I a" "\<And>x a. x \<in> set xs \<Longrightarrow> I a \<Longrightarrow> I (f x a) \<and> gone x (f x a)"
    "\<And>x y a. x \<in> set xs \<Longrightarrow> I a \<Longrightarrow> gone y a \<Longrightarrow> gone y (f x a)"
  shows "I (fold f xs a) \<and> (\<forall>x \<in> set xs. gone x (fold f xs a))"
  using assms
proof (induction xs arbitrary: a)
  case (Cons x xs)
  have keep: "gone x (fold f ys b)" if "gone x b" "I b" "set ys \<subseteq> set xs" for ys b
    using that by (induction ys arbitrary: b) (auto simp: Cons.prems)
  have "I (f x a)" "gone x (f x a)" using Cons.prems by auto
  with Cons.IH [of "f x a"] Cons.prems keep [of "f x a" xs] show ?case by auto
qed simp

lemma clear_qos_clears:
  assumes "run_ready r d" "tun_inv m"
  shows "tun_inv (clear_qos r m) \<and> drops (clear_qos r m) = drops m \<and>
    (\<forall>fd. qos_at (clear_qos r m) fd = (if fd \<in> fds_of r then None else qos_at m fd))"
proof -
  let ?I = "\<lambda>m'. tun_inv m' \<and> drops m' = drops m \<and> (\<forall>fd. fd \<notin> fds_of r \<longrightarrow> qos_at m' fd = qos_at m fd)"
  have step: "?I (the (tun_qos_clear (Some m') (fd_of r k))) \<and>
      qos_at (the (tun_qos_clear (Some m') (fd_of r k))) = (qos_at m')(fd_of r k := None)"
    if "k \<in> set [0..r_n r - 1]" "?I m'" for k m'
    using that qos_clear_at [of m' "fd_of r k"] fd_nonneg [OF assms(1), of k] by auto
  have "?I (clear_qos r m) \<and> (\<forall>k \<in> set [0..r_n r - 1]. qos_at (clear_qos r m) (fd_of r k) = None)"
    unfolding clear_qos_def over_nodes_def
  proof (rule fold_clears)
    show "?I m" using assms(2) by simp
  next
    fix k m' assume k: "k \<in> set [0..r_n r - 1]" "?I m'"
    show "?I (the (tun_qos_clear (Some m') (fd_of r k))) \<and> qos_at (the (tun_qos_clear (Some m') (fd_of r k))) (fd_of r k) = None"
      using step [OF k] by (metis fun_upd_same)
  next
    fix k j m' assume k: "k \<in> set [0..r_n r - 1]" "?I m'" "qos_at m' (fd_of r j) = None"
    show "qos_at (the (tun_qos_clear (Some m') (fd_of r k))) (fd_of r j) = None"
      using step [OF k(1,2)] k(3) by (metis fun_upd_apply)
  qed
  then show ?thesis by (auto simp: fds_of_def)
qed


lemma clear_edges_clears:
  assumes "run_ready r d" "tun_inv m"
  shows "tun_inv (clear_edges r m) \<and> qos (clear_edges r m) = qos m \<and>
    (\<forall>x y. dhas (clear_edges r m) x y \<longrightarrow> dhas m x y) \<and>
    (\<forall>j k. 0 \<le> j \<and> j < r_n r \<and> 0 \<le> k \<and> k < r_n r \<and> j \<noteq> k \<longrightarrow> \<not> dhas (clear_edges r m) (fd_of r k) (fd_of r j))"
proof -
  let ?I = "\<lambda>m'. tun_inv m' \<and> qos m' = qos m \<and> (\<forall>x y. dhas m' x y \<longrightarrow> dhas m x y)"
  let ?gone = "\<lambda>k m'. \<forall>j \<in> set [0..r_n r - 1]. j \<noteq> k \<longrightarrow> \<not> dhas m' (fd_of r k) (fd_of r j)"
  let ?one = "\<lambda>k j m. if j = k then m else the (tun_drop_clear (Some m) (fd_of r k) (fd_of r j) False)"
  have one: "?I (?one k j m') \<and> (\<forall>x y. dhas (?one k j m') x y \<longrightarrow> dhas m' x y) \<and> (j \<noteq> k \<longrightarrow> \<not> dhas (?one k j m') (fd_of r k) (fd_of r j))"
    if "k \<in> set [0..r_n r - 1]" "j \<in> set [0..r_n r - 1]" "?I m'" for k j m'
    using that edge_clear_at [of m' "fd_of r k" "fd_of r j" False] fd_nonneg [OF assms(1), of k] fd_nonneg [OF assms(1), of j]
    by auto
  have row: "(?I (over_nodes r (?one k) m') \<and> (\<forall>x y. dhas (over_nodes r (?one k) m') x y \<longrightarrow> dhas m' x y)) \<and> ?gone k (over_nodes r (?one k) m')"
    if k: "k \<in> set [0..r_n r - 1]" "?I m'" for k m'
    unfolding over_nodes_def
  proof (rule fold_clears)
    show "?I m' \<and> (\<forall>x y. dhas m' x y \<longrightarrow> dhas m' x y)" using k(2) by blast
  next
    fix j m2 assume "j \<in> set [0..r_n r - 1]" "?I m2 \<and> (\<forall>x y. dhas m2 x y \<longrightarrow> dhas m' x y)"
    with one [OF k(1) this(1), of m2]
    show "(?I (?one k j m2) \<and> (\<forall>x y. dhas (?one k j m2) x y \<longrightarrow> dhas m' x y)) \<and> (j \<noteq> k \<longrightarrow> \<not> dhas (?one k j m2) (fd_of r k) (fd_of r j))"
      by blast
  next
    fix j i m2 assume "j \<in> set [0..r_n r - 1]" "?I m2 \<and> (\<forall>x y. dhas m2 x y \<longrightarrow> dhas m' x y)"
      "i \<noteq> k \<longrightarrow> \<not> dhas m2 (fd_of r k) (fd_of r i)"
    with one [OF k(1) this(1), of m2] show "i \<noteq> k \<longrightarrow> \<not> dhas (?one k j m2) (fd_of r k) (fd_of r i)" by blast
  qed
  have "?I (clear_edges r m) \<and> (\<forall>k \<in> set [0..r_n r - 1]. ?gone k (clear_edges r m))"
    unfolding clear_edges_def
    unfolding over_nodes_def [of r "\<lambda>k. over_nodes r (?one k)"]
  proof (rule fold_clears)
    show "?I m" using assms(2) by blast
  next
    fix k m' assume "k \<in> set [0..r_n r - 1]" "?I m'"
    from row [OF this] show "?I (over_nodes r (?one k) m') \<and> ?gone k (over_nodes r (?one k) m')" by blast
  next
    fix k i m' assume "k \<in> set [0..r_n r - 1]" "?I m'" "?gone i m'"
    with row [OF this(1,2)] show "?gone i (over_nodes r (?one k) m')" by blast
  qed
  then show ?thesis by auto
qed

text \<open>A map without an armed slot or an edge is the map without faults.\<close>

lemma no_faults:
  assumes "\<forall>fd. qos_at m fd = None" "\<forall>x y. \<not> dhas m x y"
  shows "qos m = [] \<and> drops m = []"
proof
  show "qos m = []"
  proof (cases "qos m")
    case (Cons q qs)
    with assms(1) have "qos_at m (q_fd q) = None" by blast
    with Cons show ?thesis by (simp add: qos_at_def)
  qed
  show "drops m = []"
  proof (cases "drops m")
    case (Cons e es)
    with assms(2) have "\<not> dhas m (from_fd e) (to_fd e)" by blast
    with Cons show ?thesis by (simp add: dhas_def)
  qed
qed

section \<open>Heal undoes every fault\<close>

definition shell :: "tun_map \<Rightarrow> tun_map" where
  "shell m = m\<lparr>qos := [], drops := []\<rparr>"

lemma shell_ops [simp]:
  "shell (the (tun_qos_set (Some m) fd (Some q))) = shell m"
  "shell (the (tun_qos_clear (Some m) fd)) = shell m"
  "shell (the (tun_drop_set (Some m) a b arm)) = shell m"
  "shell (the (tun_drop_clear (Some m) a b arm)) = shell m"
  by (auto simp: shell_def tun_qos_set_def tun_qos_clear_def tun_drop_set_def tun_drop_clear_def Let_def split: option.split)

lemma shell_loops:
  "shell (arm_qos r s m) = shell m" "shell (arm_edges r s m) = shell m"
  "shell (clear_qos r m) = shell m" "shell (clear_edges r m) = shell m"
  unfolding arm_qos_def arm_edges_def clear_qos_def clear_edges_def
  by (rule over_nodes_inv, simp, simp,
      rule over_nodes_inv, simp, simp, rule impI, rule over_nodes_inv, simp, simp,
      rule over_nodes_inv, simp, simp,
      rule over_nodes_inv, simp, rule over_nodes_inv, simp, simp)

text \<open>The steps between two heals: anything that drops, slows or heals.\<close>

definition apply_fault :: "ex_step \<Rightarrow> run \<times> int list \<Rightarrow> run \<times> int list" where
  "apply_fault s st =
     (case s_kind s of
        ST_DROP \<Rightarrow> apply_drop s st
      | ST_SLOW \<Rightarrow> apply_slow s st
      | ST_HEAL \<Rightarrow> apply_heal s st
      | _ \<Rightarrow> st)"

text \<open>What stays of a run under faults.\<close>

definition kept :: "run \<Rightarrow> run \<times> int list \<Rightarrow> bool" where
  "kept r0 st =
     (case st of (r, d) \<Rightarrow> r = r0\<lparr>r_map := r_map r\<rparr> \<and> shell (r_map r) = shell (r_map r0) \<and> run_ready r d \<and> faults_on r d)"

lemma dhas_drops: "drops m' = drops m \<Longrightarrow> dhas m' = dhas m"
  by (simp add: dhas_def fun_eq_iff)

lemma qos_at_qos: "qos m' = qos m \<Longrightarrow> qos_at m' = qos_at m"
  by (simp add: qos_at_def fun_eq_iff)

lemma arming_keeps:
  assumes "run_ready r d" "faults_on r d"
  shows "faults_on (r\<lparr>r_map := over_nodes r (\<lambda>k m. if \<not> hit k then m else the (tun_qos_set (Some m) (fd_of r k) (Some (q k)))) (r_map r)\<rparr>) d"
proof -
  let ?P = "\<lambda>m. tun_inv m \<and> (\<forall>fd. qos_at m fd \<noteq> None \<longrightarrow> fd \<in> fds_of r) \<and> drops m = drops (r_map r)"
  let ?f = "\<lambda>k m. if \<not> hit k then m else the (tun_qos_set (Some m) (fd_of r k) (Some (q k)))"
  have "?P (over_nodes r ?f (r_map r))"
  proof (rule over_nodes_inv)
    show "?P (r_map r)" using assms(2) by (simp add: faults_on_def)
  next
    fix k m assume k: "0 \<le> k" "k < r_n r" "?P m"
    with qos_set_at [of m "fd_of r k" "q k"] fd_nonneg [OF assms(1) k(1,2)]
    show "?P (?f k m)" by (cases "hit k") auto
  qed
  then show ?thesis
    using assms(2) dhas_drops [of "over_nodes r ?f (r_map r)" "r_map r"] by (simp add: faults_on_def fds_of_def)
qed

lemma edges_keep:
  assumes "run_ready r d" "faults_on r d"
  shows "faults_on (r\<lparr>r_map := arm_edges r s (r_map r)\<rparr>) d"
proof -
  let ?on = "\<lambda>x y. \<exists>j k. 0 \<le> j \<and> j < r_n r \<and> 0 \<le> k \<and> k < r_n r \<and> j \<noteq> k \<and> x = fd_of r j \<and> y = fd_of r k"
  let ?P = "\<lambda>m. tun_inv m \<and> (\<forall>x y. dhas m x y \<longrightarrow> ?on x y) \<and> qos m = qos (r_map r)"
  let ?f = "\<lambda>k j m. if j = k then m else the (tun_drop_set (Some m) (fd_of r j) (fd_of r k) True)"
  have row: "?P (over_nodes r (?f k) m)" if k: "0 \<le> k" "k < r_n r" "?P m" for k m
  proof (rule over_nodes_inv)
    show "?P m" by (rule k(3))
  next
    fix j m assume j: "0 \<le> j" "j < r_n r" "?P m"
    show "?P (?f k j m)"
    proof (cases "j = k")
      case False
      have on: "?on (fd_of r j) (fd_of r k)" using j(1,2) k(1,2) False by blast
      let ?m = "the (tun_drop_set (Some m) (fd_of r j) (fd_of r k) True)"
      have e: "tun_inv ?m" "qos ?m = qos m" "\<forall>x y. dhas ?m x y \<longrightarrow> (x, y) = (fd_of r j, fd_of r k) \<or> dhas m x y"
        using edge_set_at [of m "fd_of r j" "fd_of r k"] fd_nonneg [OF assms(1) j(1,2)] fd_nonneg [OF assms(1) k(1,2)] j(3)
        by blast+
      have "?on x y" if "dhas ?m x y" for x y
      proof (cases "(x, y) = (fd_of r j, fd_of r k)")
        case True
        with on show ?thesis by (simp only: prod.inject)
      next
        case False
        with e(3) j(3) that show ?thesis by blast
      qed
      with e(1,2) j(3) False show ?thesis by (simp only: if_False) blast
    qed (use j(3) in simp)
  qed
  have "?P (arm_edges r s (r_map r))"
    unfolding arm_edges_def
  proof (rule over_nodes_inv)
    show "?P (r_map r)" using assms(2) by (simp add: faults_on_def)
  next
    fix k m assume k: "0 \<le> k" "k < r_n r" "?P m"
    then show "?P (if \<not> is_listed s k then m else over_nodes r (?f k) m)" using row by simp
  qed
  then show ?thesis
    using assms(2) qos_at_qos [of "arm_edges r s (r_map r)" "r_map r"] by (simp add: faults_on_def fds_of_def)
qed

lemma marks_keep:
  assumes "run_ready r d" "faults_on r d"
  shows "run_ready r (set_marks r s d) \<and> faults_on r (set_marks r s d)"
proof -
  let ?P = "\<lambda>d'. length d' = length d \<and> (\<forall>i < length d'. d' ! i \<noteq> 0 \<longrightarrow> int i < r_n r)"
  have "?P (set_marks r s d)"
    unfolding set_marks_def
    by (rule over_nodes_inv) (use assms(2) in \<open>auto simp: faults_on_def nth_list_update\<close>)
  then show ?thesis using assms by (simp add: run_ready_def faults_on_def)
qed

lemma zero_stays: "a ! i = (0::int) \<Longrightarrow> a[k := 0] ! i = 0"
  by (cases "k < length a") (auto simp: nth_list_update list_update_beyond)

lemma clear_marks_keep:
  assumes "run_ready r d" "faults_on r d"
  shows "run_ready r (clear_marks r s d) \<and> (\<forall>i < length (clear_marks r s d). clear_marks r s d ! i \<noteq> 0 \<longrightarrow> int i < r_n r \<and> \<not> s_all s)"
proof -
  let ?P = "\<lambda>d'. length d' = length d \<and> (\<forall>i < length d'. d' ! i \<noteq> (0::int) \<longrightarrow> int i < r_n r)"
  have zero: "?P (d'[nat k := 0])" if "?P d'" for k :: int and d' :: "int list"
    using that by (cases "nat k < length d'") (auto simp: nth_list_update)
  have p: "?P (clear_marks r s d)"
    unfolding clear_marks_def over_nodes_def
    by (cases "s_all s"; simp only: if_True if_False; rule fold_inv; (rule zero, assumption)?)
      (use assms(2) in \<open>simp add: faults_on_def\<close>)+
  have "clear_marks r s d ! i = 0" if "s_all s" "i < length d" for i
  proof (cases "int i < r_n r")
    case True
    have "length d' = length d \<and> (\<forall>k \<in> set [0..r_n r - 1]. d' ! nat k = 0)"
      if "d' = fold (\<lambda>k d. d[nat k := 0]) [0..r_n r - 1] d" for d'
      unfolding that
    proof (rule fold_clears)
      fix k and d' :: "int list" assume "k \<in> set [0..r_n r - 1]" "length d' = length d"
      with assms(1) show "length (d'[nat k := 0]) = length d \<and> d'[nat k := 0] ! nat k = 0"
        by (auto simp: run_ready_def)
    qed (auto simp: zero_stays)
    then show ?thesis using True \<open>s_all s\<close> by (auto simp: clear_marks_def over_nodes_def dest!: bspec [of _ _ "int i"])
  next
    case False
    with p that show ?thesis by auto
  qed
  with p assms(1) show ?thesis by (auto simp: run_ready_def)
qed

lemma faults_onI:
  assumes "tun_inv m" "\<And>fd. qos_at m fd \<noteq> None \<Longrightarrow> fd \<in> fds_of r"
    "\<And>a b. dhas m a b \<Longrightarrow> (\<exists>j k. 0 \<le> j \<and> j < r_n r \<and> 0 \<le> k \<and> k < r_n r \<and> j \<noteq> k \<and> a = fd_of r j \<and> b = fd_of r k)"
    "\<And>i. i < length d \<Longrightarrow> d ! i \<noteq> 0 \<Longrightarrow> int i < r_n r"
  shows "faults_on (r\<lparr>r_map := m\<rparr>) d"
  using assms by (simp add: faults_on_def fds_of_def)

lemma fault_keeps:
  assumes "kept r0 st"
  shows "kept r0 (apply_fault s st)"
proof -
  obtain r d where st: "st = (r, d)" by (cases st)
  have k: "r = r0\<lparr>r_map := r_map r\<rparr>" "shell (r_map r) = shell (r_map r0)" "run_ready r d" "faults_on r d"
    using assms by (simp_all add: kept_def st)
  have sub: "kept r0 (r\<lparr>r_map := m\<rparr>, d')"
    if "shell m = shell (r_map r)" "run_ready r d'" "faults_on (r\<lparr>r_map := m\<rparr>) d'" for m d'
  proof -
    have "r\<lparr>r_map := m\<rparr> = r0\<lparr>r_map := m\<rparr>" by (subst k(1)) simp
    moreover have "run_ready (r\<lparr>r_map := m\<rparr>) d'" using that(2) by (simp add: run_ready_def fds_of_def)
    ultimately show ?thesis using that k(2) by (simp add: kept_def)
  qed
  have arm: "kept r0 (r\<lparr>r_map := over_nodes r (\<lambda>k m. if \<not> hit k then m else the (tun_qos_set (Some m) (fd_of r k) (Some (q k)))) (r_map r)\<rparr>, d)" for hit q
    by (rule sub [OF _ k(3) arming_keeps [OF k(3,4)]]) (rule over_nodes_inv; simp)
  have heal: "kept r0 (apply_heal s st)"
  proof -
    let ?m = "clear_edges r (clear_qos r (r_map r))"
    have inv: "tun_inv (r_map r)" using k(4) by (simp add: faults_on_def)
    note q = clear_qos_clears [OF k(3) inv]
    note e = clear_edges_clears [OF k(3) conjunct1 [OF q]]
    let ?q = "clear_qos r (r_map r)"
    have dq: "dhas ?q = dhas (r_map r)" using q dhas_drops by blast
    have qe: "qos_at ?m = qos_at ?q" using e qos_at_qos by blast
    have 1: "tun_inv ?m" using e by blast
    have 2: "\<forall>fd. qos_at ?m fd \<noteq> None \<longrightarrow> fd \<in> fds_of r"
    proof (intro allI impI)
      fix fd assume a: "qos_at ?m fd \<noteq> None"
      have "qos_at ?q fd = (if fd \<in> fds_of r then None else qos_at (r_map r) fd)" using q by blast
      with a have "qos_at (r_map r) fd \<noteq> None" by (simp add: qe split: if_splits)
      with k(4) show "fd \<in> fds_of r" unfolding faults_on_def by blast
    qed
    have 3: "\<forall>x y. dhas ?m x y \<longrightarrow> dhas (r_map r) x y" using e by (simp add: dq)
    have 4: "\<forall>i < length (clear_marks r s d). clear_marks r s d ! i \<noteq> 0 \<longrightarrow> int i < r_n r"
      using clear_marks_keep [OF k(3,4), of s] by blast
    have "faults_on (r\<lparr>r_map := ?m\<rparr>) (clear_marks r s d)"
    proof (rule faults_onI)
      show "\<And>a b. dhas ?m a b \<Longrightarrow> (\<exists>j k. 0 \<le> j \<and> j < r_n r \<and> 0 \<le> k \<and> k < r_n r \<and> j \<noteq> k \<and> a = fd_of r j \<and> b = fd_of r k)"
        using 3 k(4) unfolding faults_on_def by blast
    qed (use 1 2 4 in blast)+
    then show ?thesis
      using sub [OF _ conjunct1 [OF clear_marks_keep [OF k(3,4), of s]], of ?m] by (simp add: apply_heal_def st shell_loops)
  qed
  have drop: "kept r0 (apply_drop s st)"
  proof (cases "s_has_fault s")
    case True
    then show ?thesis using arm [of "fault_hit s" "fault_qos s"] by (simp add: apply_drop_def st arm_qos_def)
  next
    case False
    define d' where "d' = (if s_dir s \<noteq> DIR_IN then set_marks r s d else d)"
    have d': "run_ready r d'" "faults_on r d'" using k(3,4) marks_keep [OF k(3,4)] by (simp_all add: d'_def)
    have "kept r0 (r, d')" using sub [of "r_map r" d'] d' by simp
    moreover have "kept r0 (r\<lparr>r_map := arm_edges r s (r_map r)\<rparr>, d')"
      using sub [OF _ d'(1) edges_keep [OF d']] by (simp add: shell_loops)
    ultimately show ?thesis using False by (cases "s_dir s") (simp_all add: apply_drop_def st d'_def Let_def)
  qed
  have slow: "kept r0 (apply_slow s st)"
    using arm [of "\<lambda>k. s_all s \<or> k \<in> set (s_idx s)" "\<lambda>k. slow_qos s"] by (simp add: apply_slow_def st)
  show ?thesis using heal drop slow assms by (simp add: apply_fault_def split: step_kind.split)
qed

lemma faults_keep: "kept r0 st \<Longrightarrow> kept r0 (fold apply_fault ss st)"
  by (rule fold_inv) (auto intro: fault_keeps)

text \<open>A heal of all nodes leaves no mark, no slot and no edge.\<close>

lemma heal_all_clears:
  assumes "run_ready r d" "faults_on r d" "s_all s"
  shows "apply_heal s (r, d) = (r\<lparr>r_map := shell (r_map r)\<rparr>, replicate (nat kMaxNodes) 0)"
proof -
  have inv: "tun_inv (r_map r)" using assms(2) by (simp add: faults_on_def)
  let ?q = "clear_qos r (r_map r)"
  let ?m = "clear_edges r ?q"
  note q = clear_qos_clears [OF assms(1) inv]
  note e = clear_edges_clears [OF assms(1) conjunct1 [OF q]]
  have "qos ?m = [] \<and> drops ?m = []"
  proof (rule no_faults)
    show "\<forall>fd. qos_at ?m fd = None"
      using q e assms(2) qos_at_qos [of ?m ?q] by (auto simp: faults_on_def)
    have "\<not> dhas ?m x y" for x y
    proof
      assume h: "dhas ?m x y"
      with e q dhas_drops [of ?q "r_map r"] have "dhas (r_map r) x y" by auto
      with assms(2) obtain j k where "0 \<le> j" "j < r_n r" "0 \<le> k" "k < r_n r" "j \<noteq> k" "x = fd_of r j" "y = fd_of r k"
        unfolding faults_on_def by blast
      with e h show False by metis
    qed
    then show "\<forall>x y. \<not> dhas ?m x y" by blast
  qed
  then have "?m = shell ?m" by (simp add: shell_def)
  then have m: "?m = shell (r_map r)" by (simp add: shell_loops)
  have "clear_marks r s d = replicate (nat kMaxNodes) 0"
    using clear_marks_keep [OF assms(1,2), of s] assms(3)
    by (intro nth_equalityI) (auto simp: run_ready_def)
  with m show ?thesis by (simp add: apply_heal_def)
qed

definition unfaulted :: "run \<Rightarrow> int list \<Rightarrow> bool" where
  "unfaulted r d = (tun_inv (r_map r) \<and> qos (r_map r) = [] \<and> drops (r_map r) = [] \<and> d = replicate (nat kMaxNodes) 0)"

text \<open>
  C40. Whatever \<open>drop\<close>, \<open>slow\<close> and partial \<open>heal\<close> steps ran on an unfaulted run, in any order and on
  any nodes, a \<open>heal\<close> of all nodes gives the run and the marks back exactly as they were: no
  slot, edge or mark is left behind.
\<close>

theorem heal_restores:
  assumes "run_ready r d" "unfaulted r d" "s_kind h = ST_HEAL" "s_all h"
  shows "fold apply_fault (ss @ [h]) (r, d) = (r, d)"
proof -
  have "faults_on r d" using assms(2) by (auto simp: faults_on_def unfaulted_def qos_at_def dhas_def)
  with assms(1) have "kept r (r, d)" by (simp add: kept_def)
  from faults_keep [OF this] obtain r' d' where f: "fold apply_fault ss (r, d) = (r', d')"
      and k: "kept r (r', d')" by (metis surj_pair)
  from k have "apply_fault h (r', d') = (r'\<lparr>r_map := shell (r_map r')\<rparr>, replicate (nat kMaxNodes) 0)"
    using heal_all_clears assms(3,4) by (simp add: kept_def apply_fault_def)
  moreover have "r'\<lparr>r_map := shell (r_map r')\<rparr> = r"
  proof -
    have k': "r' = r\<lparr>r_map := r_map r'\<rparr>" "shell (r_map r') = shell (r_map r)" using k by (simp_all add: kept_def)
    have "shell (r_map r) = r_map r" using assms(2) by (simp add: shell_def unfaulted_def)
    then show ?thesis by (subst k'(1)) (simp add: k'(2))
  qed
  ultimately show ?thesis using assms(2) f by (simp add: unfaulted_def)
qed

definition some_run :: "nat \<Rightarrow> run" where
  "some_run n = new_run\<lparr>r_fds := map (\<lambda>k. 3 + int k) [0..<n], r_n := int n\<rparr>"

definition no_marks :: "int list" where
  "no_marks = replicate (nat kMaxNodes) 0"

definition drop_in :: ex_step where
  "drop_in = (step0 1)\<lparr>s_kind := ST_DROP, s_all := True, s_dir := DIR_IN\<rparr>"

definition drop_loss :: ex_step where
  "drop_loss = (step0 2)\<lparr>s_kind := ST_DROP, s_idx := [1], s_has_fault := True, s_loss := 1/2, s_dir := DIR_OUT\<rparr>"

definition drop_marks :: ex_step where
  "drop_marks = (step0 3)\<lparr>s_kind := ST_DROP, s_idx := [0, 1], s_dir := DIR_OUT\<rparr>"

definition heal_all :: ex_step where
  "heal_all = (step0 4)\<lparr>s_kind := ST_HEAL, s_all := True\<rparr>"

lemma some_run_ready: "n \<le> nat kMaxNodes \<Longrightarrow> run_ready (some_run n) no_marks \<and> unfaulted (some_run n) no_marks"
  by (auto simp: run_ready_def unfaulted_def some_run_def no_marks_def fds_of_def new_run_def no_slots_def tun_inv_def kMaxNodes_def)

theorem heal_restores_witness:
  "fold apply_fault ([drop_in, drop_loss, drop_marks] @ [heal_all]) (some_run 3, no_marks) = (some_run 3, no_marks) \<and>
   (let (r, d) = fold apply_fault [drop_in, drop_loss, drop_marks] (some_run 3, no_marks) in
      length (qos (r_map r)) = 1 \<and> length (drops (r_map r)) = 6 \<and> take 3 d = [1, 1, 0])"
proof (rule conjI)
  show "fold apply_fault ([drop_in, drop_loss, drop_marks] @ [heal_all]) (some_run 3, no_marks) = (some_run 3, no_marks)"
    by (rule heal_restores) (use some_run_ready [of 3] in \<open>simp_all add: heal_all_def kMaxNodes_def\<close>)
qed code_simp

text \<open>
  The table of directed edges holds 100, and a full table takes no more and says nothing: on 11
  nodes or more, a \<open>drop\<close> with direction \<open>in\<close> on all of them leaves some edge open.
\<close>

lemma dhas_pairs: "dhas m a b = ((a, b) \<in> set (map (\<lambda>e. (from_fd e, to_fd e)) (drops m)))"
  by (auto simp: dhas_def list_ex_iff image_iff)

lemma drop_in_leaves_edges:
  assumes "run_ready r d" "faults_on r d" "inj_on (\<lambda>k. fd_of r k) {0..<r_n r}" "11 \<le> r_n r" "\<not> s_has_fault s"
  shows "\<exists>j k. 0 \<le> j \<and> j < r_n r \<and> 0 \<le> k \<and> k < r_n r \<and> j \<noteq> k \<and>
    \<not> dhas (r_map (fst (apply_drop s (r, d)))) (fd_of r j) (fd_of r k)"
proof (rule ccontr)
  let ?m = "r_map (fst (apply_drop s (r, d)))"
  let ?N = "{0..<r_n r}"
  let ?pairs = "?N \<times> ?N - (\<lambda>k. (k, k)) ` ?N"
  let ?edge = "\<lambda>(j, k). (fd_of r j, fd_of r k)"
  assume none: "\<not> ?thesis"
  have all: "dhas ?m (fd_of r j) (fd_of r k)" if "(j, k) \<in> ?pairs" for j k
  proof -
    have "0 \<le> j" "j < r_n r" "0 \<le> k" "k < r_n r" "j \<noteq> k" using that by (auto simp: image_iff)
    with none show ?thesis by blast
  qed
  have "tun_inv ?m"
    using assms(2,5) edges_keep [OF assms(1,2), of s] by (simp add: apply_drop_def faults_on_def Let_def)
  then have full: "length (drops ?m) \<le> 100" by (simp add: tun_inv_def TUN_MAP_MAX_def)
  have sub: "?edge ` ?pairs \<subseteq> set (map (\<lambda>e. (from_fd e, to_fd e)) (drops ?m))"
  proof (intro subsetI, elim imageE)
    fix x p assume p: "p \<in> ?pairs" "x = ?edge p"
    obtain j k where jk: "p = (j, k)" by (cases p)
    with p all have "dhas ?m (fd_of r j) (fd_of r k)" by blast
    with p jk show "x \<in> set (map (\<lambda>e. (from_fd e, to_fd e)) (drops ?m))" by (simp add: dhas_pairs)
  qed
  have le: "card (?edge ` ?pairs) \<le> length (drops ?m)"
    using order_trans [OF card_mono [OF finite_set sub] card_length] by (simp only: length_map)
  have "card (?edge ` ?pairs) = card ?pairs"
  proof (rule card_image, rule inj_onI)
    fix a b assume ab: "a \<in> ?pairs" "b \<in> ?pairs" "?edge a = ?edge b"
    obtain i j k l where s: "a = (i, j)" "b = (k, l)" by (cases a, cases b)
    with ab have "i \<in> ?N" "j \<in> ?N" "k \<in> ?N" "l \<in> ?N" "fd_of r i = fd_of r k" "fd_of r j = fd_of r l" by auto
    then show "a = b" using inj_onD [OF assms(3), of i k] inj_onD [OF assms(3), of j l] s by simp
  qed
  moreover have "card ?pairs = nat (r_n r) * nat (r_n r) - nat (r_n r)"
  proof -
    have "card ?pairs = card (?N \<times> ?N) - card ((\<lambda>k. (k, k)) ` ?N)" by (rule card_Diff_subset) auto
    also have "card ((\<lambda>k. (k, k)) ` ?N) = nat (r_n r)" by (subst card_image) (simp_all add: inj_on_def)
    finally show ?thesis by (simp add: card_cartesian_product)
  qed
  moreover have "nat (r_n r) * nat (r_n r) - nat (r_n r) \<ge> 110"
  proof -
    have "11 \<le> nat (r_n r)" using assms(4) by simp
    then obtain c where c: "nat (r_n r) = 11 + c" using le_Suc_ex by blast
    show ?thesis by (simp add: c algebra_simps)
  qed
  ultimately show False using le full by linarith
qed

end
