(* ===== verification/Nemesis.thy ===== *)
theory Nemesis
  imports Yaml_Parse
begin

text \<open>
  The fault schedule generator and the failure shrinker of \<open>suite/nemesis.c\<close>.

  A generator function that writes to a \<open>FILE\<close> is a function that returns its chunks, one
  for each call of \<open>fprintf\<close> or \<open>fputs\<close>, in order; \<open>nemesis_gen\<close> writes them one by one and
  stops at the first call that fails, as every \<open>if (... < 0) return false\<close> does. The random
  state is passed along and returned.

  The shrinker's oracle runs the whole system and is code of its caller: it is a function of
  the number of the call and of the text, so it may answer differently each time. Reading
  and writing files, which may fail, are arguments too. Allocation is taken to succeed.
\<close>

section \<open>Profiles and random choices\<close>

record nem_profile =
  p_seed :: u64
  p_nodes :: int
  p_nphases :: int
  p_max_drop :: int
  p_max_kill :: int
  p_max_restart :: int
  p_allow_submit :: int
  p_allow_stop :: int
  p_sut :: string

definition kMinNd :: int where "kMinNd = 2"
definition kMaxNd :: int where "kMaxNd = 5"
definition kMinPh :: int where "kMinPh = 2"
definition kMaxPh :: int where "kMaxPh = 12"
definition kMaxTo :: int where "kMaxTo = 3600"
definition kFileTo :: int where "kFileTo = 60"
definition kMinTo :: int where "kMinTo = 10"
definition kMaxPTo :: int where "kMaxPTo = 40"
definition kMeshTo :: int where "kMeshTo = 30"
definition kMaxPass :: nat where "kMaxPass = 4"
definition kMaxTry :: nat where "kMaxTry = 512"

definition nem_rng_seed :: "u64 \<Rightarrow> u64" where
  "nem_rng_seed x = x + 1"

definition rng_next :: "u64 \<Rightarrow> u64 \<times> u64" where
  "rng_next r =
     (let r = r + 0x9e3779b97f4a7c15;
          z = r;
          z = (z XOR drop_bit 30 z) * 0x9e3779b97f4a7c15;
          z = (z XOR drop_bit 27 z) * 0x94d049bb133111eb
      in (z XOR drop_bit 31 z, r))"

definition rng_range :: "u64 \<Rightarrow> u64 \<Rightarrow> u64 \<times> u64" where
  "rng_range r n =
     (if n = 0 then (0, r) else let (v, r) = rng_next r in (v mod n, r))"

text \<open>The cast of the drawn value to \<open>int\<close> keeps its low 32 bits.\<close>

definition rng_int :: "u64 \<Rightarrow> int \<Rightarrow> int \<Rightarrow> int \<times> u64" where
  "rng_int r lo hi =
     (let (v, r) = rng_range r (of_int (hi - lo + 1)) in (lo + sint (ucast v :: 32 word), r))"

definition sut_conc :: "string \<Rightarrow> bool" where
  "sut_conc s = (s = ''concord'')"

definition sut_weld :: "string \<Rightarrow> bool" where
  "sut_weld s = (s = ''weld'')"

definition sut_copy :: "nem_profile \<Rightarrow> string option" where
  "sut_copy p =
     (case first_at (\<lambda>c. c = NUL) (take 16 (p_sut p)) of
        None \<Rightarrow> None
      | Some i \<Rightarrow> Some (take i (p_sut p)))"

definition profile_ok :: "nem_profile ptr \<Rightarrow> bool" where
  "profile_ok pp =
     (case pp of
        None \<Rightarrow> False
      | Some p \<Rightarrow>
          (case sut_copy p of
             None \<Rightarrow> False
           | Some sut \<Rightarrow>
               if \<not> sut_conc sut \<and> \<not> sut_weld sut then False
               else if p_nodes p < kMinNd \<or> p_nodes p > kMaxNd then False
               else if p_nphases p < kMinPh \<or> p_nphases p > kMaxPh then False
               else if p_max_drop p < 0 \<or> p_max_kill p < 0 \<or> p_max_restart p < 0 then False
               else True))"

definition pick_node :: "u64 \<Rightarrow> int \<Rightarrow> int \<times> u64" where
  "pick_node r nodes = rng_int r 0 (nodes - 1)"

definition pick_pto :: "u64 \<Rightarrow> int \<times> u64" where
  "pick_pto r = rng_int r kMinTo kMaxPTo"

section \<open>The file\<close>

definition emit_head :: "nem_profile \<Rightarrow> bool \<Rightarrow> string list option" where
  "emit_head p conc =
     (case sut_copy p of
        None \<Rightarrow> None
      | Some _ \<Rightarrow>
          let sh = p_seed p AND 0xffffffff;
              fto = p_nphases p * kFileTo in
          if fto < 1 \<or> fto > kMaxTo then None
          else Some (
            [if conc then ''name: nemesis-c-'' @ fmt_x 8 sh @ [NL]
             else ''name: nemesis-w-'' @ fmt_x 8 sh @ [NL],
             ''version: 1'' @ [NL],
             ''sut: '' @ (if conc then ''concord'' else ''weld'') @ [NL],
             ''nodes: '' @ fmt_d (p_nodes p) @ [NL]] @
            (if conc then [] else [''domain: 64'' @ [NL]]) @
            [''timeout_s: '' @ fmt_d fto @ [NL] @ ''phases:'' @ [NL]]))"

definition emit_mesh :: "int \<Rightarrow> bool \<Rightarrow> string list" where
  "emit_mesh nodes conc =
     [''  - name: mesh'' @ [NL],
      if conc
      then ''    until:'' @ [NL] @ ''      peers: '' @ fmt_d nodes @ [NL] @ ''      on: all'' @ [NL]
      else ''    until:'' @ [NL] @ ''      mesh_count: '' @ fmt_d nodes @ [NL],
      ''    timeout_s: '' @ fmt_d kMeshTo @ [NL]]"

definition emit_dwell :: "string \<Rightarrow> int \<Rightarrow> bool \<Rightarrow> u64 \<Rightarrow> string list \<times> u64" where
  "emit_dwell nm nodes conc r =
     (let (tmo, r) = pick_pto r in
      ([''  - name: '' @ nm @ [NL],
        if conc
        then ''    until:'' @ [NL] @ ''      peers: '' @ fmt_d nodes @ [NL] @ ''      on: all'' @ [NL]
        else ''    until:'' @ [NL] @ ''      mesh_count: '' @ fmt_d nodes @ [NL],
        ''    timeout_s: '' @ fmt_d tmo @ [NL]], r))"

definition emit_drop :: "string \<Rightarrow> int \<Rightarrow> int \<Rightarrow> u64 \<Rightarrow> string list \<times> u64" where
  "emit_drop nm nodes nd r =
     (let (tmo, r) = pick_pto r in
      ([''  - name: '' @ nm @ [NL],
        ''    do:'' @ [NL] @ ''      - drop:'' @ [NL],
        ''          - '' @ fmt_d nd @ [NL],
        ''    until:'' @ [NL] @ ''      mesh_count: '' @ fmt_d nodes @ [NL],
        ''    timeout_s: '' @ fmt_d tmo @ [NL]], r))"

definition emit_heal :: "string \<Rightarrow> int \<Rightarrow> int \<Rightarrow> u64 \<Rightarrow> string list \<times> u64" where
  "emit_heal nm nodes nd r =
     (let (tmo, r) = pick_pto r in
      ([''  - name: '' @ nm @ [NL],
        ''    do:'' @ [NL] @ ''      - heal:'' @ [NL],
        ''          - '' @ fmt_d nd @ [NL],
        ''    until:'' @ [NL] @ ''      mesh_count: '' @ fmt_d nodes @ [NL],
        ''    timeout_s: '' @ fmt_d tmo @ [NL]], r))"

definition emit_kill :: "string \<Rightarrow> int \<Rightarrow> u64 \<Rightarrow> string list \<times> u64" where
  "emit_kill nm nodes r =
     (let (nd, r) = pick_node r nodes;
          (tmo, r) = pick_pto r;
          (term, r) = rng_range r 2 in
      ([''  - name: '' @ nm @ [NL],
        ''    do:'' @ [NL] @ ''      - kill:'' @ [NL],
        ''          node: '' @ fmt_d nd @ [NL],
        ''          signal: '' @ (if term = 0 then ''KILL'' else ''TERM'') @ [NL],
        ''      - restart:'' @ [NL],
        ''          node: '' @ fmt_d nd @ [NL],
        ''          durability: fresh'' @ [NL],
        ''    until:'' @ [NL] @ ''      mesh_count: '' @ fmt_d nodes @ [NL],
        ''    timeout_s: '' @ fmt_d tmo @ [NL]], r))"

definition emit_submit :: "string \<Rightarrow> u64 \<Rightarrow> int \<Rightarrow> string list \<times> u64" where
  "emit_submit nm r nodes =
     (let (nd, r) = pick_node r nodes;
          (tmo, r) = pick_pto r in
      ([''  - name: '' @ nm @ [NL],
        ''    do:'' @ [NL] @ ''      - submit:'' @ [NL],
        ''          node: '' @ fmt_d nd @ [NL],
        ''          image: probe'' @ [NL],
        ''    until:'' @ [NL] @ ''      assigned:'' @ [NL] @ ''        workload: submitted'' @ [NL],
        ''    timeout_s: '' @ fmt_d tmo @ [NL]], r))"

definition emit_substop :: "string \<Rightarrow> u64 \<Rightarrow> string list \<times> u64" where
  "emit_substop nm r =
     (let (tmo, r) = pick_pto r in
      ([''  - name: '' @ nm @ [NL],
        ''    do:'' @ [NL] @ ''      - submit:'' @ [NL] @ ''          node: 0'' @ [NL] @
        ''          image: probe'' @ [NL] @ ''      - stop:'' @ [NL] @
        ''          workload: submitted'' @ [NL],
        ''    until:'' @ [NL] @ ''      mesh_count: 1'' @ [NL],
        ''    timeout_s: '' @ fmt_d tmo @ [NL]], r))"

definition emit_stop :: "string \<Rightarrow> int \<Rightarrow> u64 \<Rightarrow> string list \<times> u64" where
  "emit_stop nm nodes r =
     (let (tmo, r) = pick_pto r in
      ([''  - name: '' @ nm @ [NL],
        ''    do:'' @ [NL] @ ''      - stop:'' @ [NL] @ ''          workload: submitted'' @ [NL],
        ''    until:'' @ [NL] @ ''      absent:'' @ [NL] @ ''        workload: submitted'' @ [NL] @
        ''        on: all'' @ [NL],
        ''    timeout_s: '' @ fmt_d tmo @ [NL]], r))"

definition pub_text :: "u64 \<Rightarrow> string \<times> u64" where
  "pub_text r = (let (v, r) = rng_next r in (''wmsg'' @ fmt_x 4 (v AND 0xffff), r))"

definition emit_pub :: "string \<Rightarrow> int \<Rightarrow> u64 \<Rightarrow> string list \<times> u64" where
  "emit_pub nm nodes r =
     (let (tx, r) = pub_text r;
          (frm, r) = pick_node r nodes;
          (on, r) = pick_node r nodes;
          (tmo, r) = pick_pto r in
      ([''  - name: '' @ nm @ [NL],
        ''    do:'' @ [NL] @ ''      - pub:'' @ [NL],
        ''          from: '' @ fmt_d frm @ [NL],
        ''          text: '' @ tx @ [NL],
        ''    until:'' @ [NL] @ ''      observed:'' @ [NL],
        ''        on: '' @ fmt_d on @ [NL],
        ''        text: '' @ tx @ [NL],
        ''    timeout_s: '' @ fmt_d tmo @ [NL]], r))"

definition emit_wdrop :: "string \<Rightarrow> int \<Rightarrow> int \<Rightarrow> u64 \<Rightarrow> string list \<times> u64" where
  "emit_wdrop nm nodes nd r =
     (let (tx, r) = pub_text r;
          (frm, r) = pick_node r nodes;
          (on, r) = pick_node r nodes;
          (tmo, r) = pick_pto r in
      ([''  - name: '' @ nm @ [NL],
        ''    do:'' @ [NL] @ ''      - drop:'' @ [NL],
        ''          - '' @ fmt_d nd @ [NL],
        ''      - pub:'' @ [NL],
        ''          from: '' @ fmt_d frm @ [NL],
        ''          text: '' @ tx @ [NL],
        ''    until:'' @ [NL] @ ''      observed:'' @ [NL],
        ''        on: '' @ fmt_d on @ [NL],
        ''        text: '' @ tx @ [NL],
        ''    timeout_s: '' @ fmt_d tmo @ [NL]], r))"

definition emit_wheal :: "string \<Rightarrow> int \<Rightarrow> int \<Rightarrow> u64 \<Rightarrow> string list \<times> u64" where
  "emit_wheal nm nodes nd r =
     (let (tx, r) = pub_text r;
          (frm, r) = pick_node r nodes;
          (on, r) = pick_node r nodes;
          (tmo, r) = pick_pto r in
      ([''  - name: '' @ nm @ [NL],
        ''    do:'' @ [NL] @ ''      - heal:'' @ [NL],
        ''          - '' @ fmt_d nd @ [NL],
        ''      - pub:'' @ [NL],
        ''          from: '' @ fmt_d frm @ [NL],
        ''          text: '' @ tx @ [NL],
        ''    until:'' @ [NL] @ ''      observed:'' @ [NL],
        ''        on: '' @ fmt_d on @ [NL],
        ''        text: '' @ tx @ [NL],
        ''    timeout_s: '' @ fmt_d tmo @ [NL]], r))"

definition emit_wkill :: "string \<Rightarrow> int \<Rightarrow> u64 \<Rightarrow> string list \<times> u64" where
  "emit_wkill nm nodes r =
     (let (tx, r) = pub_text r;
          (nd, r) = pick_node r nodes;
          (frm, r) = pick_node r nodes;
          (on, r) = pick_node r nodes;
          (tmo, r) = pick_pto r in
      ([''  - name: '' @ nm @ [NL],
        ''    do:'' @ [NL] @ ''      - kill:'' @ [NL],
        ''          node: '' @ fmt_d nd @ [NL],
        ''          signal: KILL'' @ [NL],
        ''      - restart:'' @ [NL],
        ''          node: '' @ fmt_d nd @ [NL],
        ''          durability: fresh'' @ [NL],
        ''      - pub:'' @ [NL],
        ''          from: '' @ fmt_d frm @ [NL],
        ''          text: '' @ tx @ [NL],
        ''    until:'' @ [NL] @ ''      observed:'' @ [NL],
        ''        on: '' @ fmt_d on @ [NL],
        ''        text: '' @ tx @ [NL],
        ''    timeout_s: '' @ fmt_d tmo @ [NL]], r))"

definition phase_nm :: "int \<Rightarrow> string" where
  "phase_nm idx = CHR ''p'' # pad0 2 (fmt_d idx)"

section \<open>Schedules\<close>

text \<open>The locals \<open>drop\<close>, \<open>kill\<close>, \<open>rest\<close> and \<open>pend\<close> that the loops carry from phase to phase.\<close>

record budget =
  b_drop :: int
  b_kill :: int
  b_rest :: int
  b_pend :: int

text \<open>The body of the loop of \<open>gen_conc\<close>, at phase \<open>i\<close>.\<close>

definition conc_phase ::
  "nem_profile \<Rightarrow> int \<Rightarrow> int \<Rightarrow> int \<Rightarrow> budget \<Rightarrow> u64 \<Rightarrow> string list \<times> budget \<times> u64" where
  "conc_phase p sub_at stop_at i b r =
     (let nm = phase_nm i in
      if i = sub_at then let (cs, r) = emit_submit nm r (p_nodes p) in (cs, b, r)
      else if i = stop_at then let (cs, r) = emit_stop nm (p_nodes p) r in (cs, b, r)
      else if b_pend b \<ge> 0 then
        let (cs, r) = emit_heal nm (p_nodes p) (b_pend b) r in (cs, b\<lparr>b_pend := - 1\<rparr>, r)
      else
        let (pick, r) = rng_range r 4 in
        if pick = 0 \<and> b_drop b > 0 then
          let (nd, r) = pick_node r (p_nodes p);
              (cs, r) = emit_drop nm (p_nodes p) nd r in
          (cs, b\<lparr>b_drop := b_drop b - 1, b_pend := nd\<rparr>, r)
        else if pick = 1 \<and> b_kill b > 0 \<and> b_rest b > 0 then
          let (cs, r) = emit_kill nm (p_nodes p) r in
          (cs, b\<lparr>b_kill := b_kill b - 1, b_rest := b_rest b - 1\<rparr>, r)
        else let (cs, r) = emit_dwell nm (p_nodes p) True r in (cs, b, r))"

text \<open>The body of the loop of \<open>gen_weld\<close>.\<close>

definition weld_phase ::
  "nem_profile \<Rightarrow> int \<Rightarrow> budget \<Rightarrow> u64 \<Rightarrow> string list \<times> budget \<times> u64" where
  "weld_phase p i b r =
     (let nm = phase_nm i in
      if b_pend b \<ge> 0 then
        let (cs, r) = emit_wheal nm (p_nodes p) (b_pend b) r in (cs, b\<lparr>b_pend := - 1\<rparr>, r)
      else
        let (pick, r) = rng_range r 4 in
        if pick = 0 \<and> b_drop b > 0 then
          let (nd, r) = pick_node r (p_nodes p);
              (cs, r) = emit_wdrop nm (p_nodes p) nd r in
          (cs, b\<lparr>b_drop := b_drop b - 1, b_pend := nd\<rparr>, r)
        else if pick = 1 \<and> b_kill b > 0 \<and> b_rest b > 0 then
          let (cs, r) = emit_wkill nm (p_nodes p) r in
          (cs, b\<lparr>b_kill := b_kill b - 1, b_rest := b_rest b - 1\<rparr>, r)
        else let (cs, r) = emit_pub nm (p_nodes p) r in (cs, b, r))"

text \<open>\<open>for (i = 1; i < nphases; i++)\<close>: \<open>n\<close> rounds are left at phase \<open>i\<close>.\<close>

fun phase_loop ::
  "(int \<Rightarrow> budget \<Rightarrow> u64 \<Rightarrow> string list \<times> budget \<times> u64) \<Rightarrow> nat \<Rightarrow> int \<Rightarrow> budget \<Rightarrow> u64 \<Rightarrow>
   string list \<times> u64" where
  "phase_loop f 0 i b r = ([], r)"
| "phase_loop f (Suc n) i b r =
     (let (cs, b, r) = f i b r;
          (ds, r) = phase_loop f n (i + 1) b r in
      (cs @ ds, r))"

definition start_budget :: "nem_profile \<Rightarrow> budget" where
  "start_budget p =
     \<lparr>b_drop = p_max_drop p, b_kill = p_max_kill p, b_rest = p_max_restart p, b_pend = - 1\<rparr>"

definition gen_conc :: "nem_profile \<Rightarrow> u64 \<Rightarrow> string list \<times> u64" where
  "gen_conc p r =
     (let want_sub = p_allow_submit p \<noteq> 0;
          want_stop = want_sub \<and> p_allow_stop p \<noteq> 0;
          sub_at = (if want_sub then 1 else - 1);
          stop_at = (if want_stop then if p_nphases p = 2 then 1 else p_nphases p - 1 else - 1) in
      if sub_at = 1 \<and> stop_at = 1 then emit_substop (phase_nm 1) r
      else phase_loop (conc_phase p sub_at stop_at) (nat (p_nphases p - 1)) 1 (start_budget p) r)"

definition gen_weld :: "nem_profile \<Rightarrow> u64 \<Rightarrow> string list \<times> u64" where
  "gen_weld p r = phase_loop (weld_phase p) (nat (p_nphases p - 1)) 1 (start_budget p) r"

text \<open>
  What the file system answers: whether \<open>fopen\<close> succeeds, whether the \<open>k\<close>th write does, and
  whether \<open>fclose\<close> does.
\<close>

record gen_io =
  io_open :: bool
  io_put :: "nat \<Rightarrow> bool"
  io_close :: bool

fun write_chunks :: "(nat \<Rightarrow> bool) \<Rightarrow> nat \<Rightarrow> string list \<Rightarrow> string \<Rightarrow> bool \<times> string" where
  "write_chunks put k [] acc = (True, acc)"
| "write_chunks put k (c # cs) acc =
     (if put k then write_chunks put (k + 1) cs (acc @ c) else (False, acc))"

text \<open>
  The value returned, and the text handed to the file at \<open>outpath\<close>, if it was opened.
\<close>

definition nemesis_gen :: "gen_io \<Rightarrow> nem_profile ptr \<Rightarrow> string ptr \<Rightarrow> bool \<times> string option" where
  "nemesis_gen io pp outpath =
     (if \<not> profile_ok pp then (False, None)
      else if outpath = None then (False, None)
      else
        let p = the pp in
        (case sut_copy p of
           None \<Rightarrow> (False, None)
         | Some sut \<Rightarrow>
             let conc = sut_conc sut in
             if \<not> io_open io then (False, None)
             else
               let r = nem_rng_seed (p_seed p) in
               (case emit_head p conc of
                  None \<Rightarrow> (False, Some [])
                | Some header \<Rightarrow>
                    let body = fst (if conc then gen_conc p r else gen_weld p r);
                        (ok, tx) = write_chunks (io_put io) 0
                                     (header @ emit_mesh (p_nodes p) conc @ body) [] in
                    if \<not> ok then (False, Some tx)
                    else if \<not> io_close io then (False, Some tx)
                    else (True, Some tx))))"

end
