(* ===== verification/Nemesis_Shrink.thy ===== *)
theory Nemesis_Shrink
  imports Nemesis "HOL-Library.Sublist"
begin

text \<open>
  The shrinker of \<open>suite/nemesis.c\<close>: \<open>nemesis_minimize\<close> deletes phases, then single steps,
  from a failing scenario as long as the oracle still fails on what is left.
\<close>

section \<open>Lines of a text\<close>

text \<open>The offset at which each line starts; a newline that ends the text starts none.\<close>

fun starts_from :: "string \<Rightarrow> nat \<Rightarrow> nat list" where
  "starts_from [] i = []"
| "starts_from (c # cs) i =
     (if c = NL \<and> cs \<noteq> [] then (i + 1) # starts_from cs (i + 1) else starts_from cs (i + 1))"

definition line_starts :: "string \<Rightarrow> nat list" where
  "line_starts tx = (if tx = [] then [0] else 0 # starts_from tx 0)"

definition line_off :: "nat list \<Rightarrow> nat \<Rightarrow> nat \<Rightarrow> nat" where
  "line_off tab len line =
     (if line < 1 then 0 else if line > length tab then len else tab ! (line - 1))"

fun node_line :: "suite_node \<Rightarrow> nat" where
  "node_line (Suite_Map l es) = l"
| "node_line (Suite_List l ns) = l"
| "node_line (Suite_Scalar l s) = l"

section \<open>Structural validity\<close>

definition step_is :: "suite_node ptr \<Rightarrow> string ptr \<Rightarrow> bool" where
  "step_is st verb =
     (case (st, verb) of
        (Some (Suite_Map _ es), Some v) \<Rightarrow>
          if length es \<noteq> 1 then False else fst (es ! 0) = v
      | _ \<Rightarrow> False)"

definition cond_needs :: "suite_node ptr \<Rightarrow> bool" where
  "cond_needs ph =
     (if ph = None then False
      else
        let u = suite_map_find ph (Some ''until'');
            t = suite_map_find ph (Some ''sustain'');
            c = (if u \<noteq> None then u else t) in
        (case c of
           Some (Suite_Map _ _) \<Rightarrow>
             if suite_map_find c (Some ''assigned'') \<noteq> None then True
             else
               let inn = suite_map_find c (Some ''present'');
                   inn = (if inn = None then suite_map_find c (Some ''absent'') else inn) in
               (case inn of
                  Some (Suite_Map _ _) \<Rightarrow>
                    (case suite_map_find inn (Some ''workload'') of
                       None \<Rightarrow> False
                     | Some w \<Rightarrow>
                         (case suite_scalar_str (Some w) of
                            None \<Rightarrow> False
                          | Some s \<Rightarrow> s = ''submit'' \<or> s = ''submitted''))
                | _ \<Rightarrow> False)
         | _ \<Rightarrow> False))"

text \<open>The loop over the steps of a phase: the new value of \<open>saw\<close>, or \<open>None\<close> for invalid.\<close>

fun steps_valid :: "suite_node list \<Rightarrow> bool \<Rightarrow> bool option" where
  "steps_valid [] saw = Some saw"
| "steps_valid (st # sts) saw =
     (case st of
        Suite_Map _ es \<Rightarrow>
          if length es \<noteq> 1 then None
          else if step_is (Some st) (Some ''submit'') then steps_valid sts True
          else if step_is (Some st) (Some ''stop'') \<and> \<not> saw then None
          else steps_valid sts saw
      | _ \<Rightarrow> None)"

text \<open>One round of the loop over the phases, after the phases \<open>earlier\<close>.\<close>

definition phase_valid :: "suite_node list \<Rightarrow> suite_node \<Rightarrow> bool \<Rightarrow> bool option" where
  "phase_valid earlier ph saw =
     (case ph of
        Suite_Map _ _ \<Rightarrow>
          (case suite_scalar_str (suite_map_find (Some ph) (Some ''name'')) of
             None \<Rightarrow> None
           | Some s \<Rightarrow>
               if s = [] then None
               else if list_ex (\<lambda>q. suite_scalar_str (suite_map_find (Some q) (Some ''name'')) = Some s) earlier
               then None
               else if (suite_map_find (Some ph) (Some ''until'') = None) =
                       (suite_map_find (Some ph) (Some ''sustain'') = None)
               then None
               else if suite_map_find (Some ph) (Some ''timeout_s'') = None then None
               else
                 (case (case suite_map_find (Some ph) (Some ''do'') of
                          None \<Rightarrow> Some saw
                        | Some (Suite_List _ sts) \<Rightarrow> steps_valid sts saw
                        | Some _ \<Rightarrow> None) of
                    None \<Rightarrow> None
                  | Some saw \<Rightarrow> if cond_needs (Some ph) \<and> \<not> saw then None else Some saw))
      | _ \<Rightarrow> None)"

fun phases_valid :: "suite_node list \<Rightarrow> suite_node list \<Rightarrow> bool \<Rightarrow> bool" where
  "phases_valid earlier [] saw = True"
| "phases_valid earlier (ph # phs) saw =
     (case phase_valid earlier ph saw of
        None \<Rightarrow> False
      | Some saw \<Rightarrow> phases_valid (earlier @ [ph]) phs saw)"

definition doc_valid :: "suite_node \<Rightarrow> bool" where
  "doc_valid root =
     (case root of
        Suite_Map _ _ \<Rightarrow>
          if suite_map_find (Some root) (Some ''name'') = None then False
          else if suite_map_find (Some root) (Some ''version'') = None then False
          else if suite_map_find (Some root) (Some ''sut'') = None then False
          else if suite_map_find (Some root) (Some ''nodes'') = None then False
          else if suite_map_find (Some root) (Some ''timeout_s'') = None then False
          else
            (case suite_map_find (Some root) (Some ''phases'') of
               Some (Suite_List _ phs) \<Rightarrow>
                 if phs = [] then False else phases_valid [] phs False
             | _ \<Rightarrow> False)
      | _ \<Rightarrow> False)"

definition trial_valid :: "string \<Rightarrow> bool" where
  "trial_valid tx = (case suite_parse tx of Ok root \<Rightarrow> doc_valid root | _ \<Rightarrow> False)"

section \<open>Trials\<close>

text \<open>The least key line of the phase beyond \<open>ln\<close>, or zero.\<close>

fun next_key_loop :: "entries \<Rightarrow> nat \<Rightarrow> nat \<Rightarrow> nat" where
  "next_key_loop [] ln best = best"
| "next_key_loop ((_, kl, _) # es) ln best =
     (if kl \<le> ln then next_key_loop es ln best
      else if best = 0 \<or> kl < best then next_key_loop es ln kl
      else next_key_loop es ln best)"

definition next_key_after :: "suite_node ptr \<Rightarrow> nat \<Rightarrow> nat" where
  "next_key_after ph ln = (case ph of Some (Suite_Map _ es) \<Rightarrow> next_key_loop es ln 0 | _ \<Rightarrow> 0)"

definition do_key_line :: "suite_node ptr \<Rightarrow> nat" where
  "do_key_line ph =
     (case ph of
        Some (Suite_Map _ es) \<Rightarrow>
          (case find (\<lambda>e. fst e = ''do'') es of None \<Rightarrow> 0 | Some (_, kl, _) \<Rightarrow> kl)
      | _ \<Rightarrow> 0)"

text \<open>The text without the bytes from \<open>a\<close> to \<open>b\<close>.\<close>

definition cut :: "string \<Rightarrow> nat \<Rightarrow> nat \<Rightarrow> string option" where
  "cut tx a b = (if a > b \<or> b > length tx then None else Some (take a tx @ drop b tx))"

definition trial_no_phase :: "string \<Rightarrow> nat list \<Rightarrow> suite_node ptr \<Rightarrow> nat \<Rightarrow> string option" where
  "trial_no_phase tx tab phs j =
     (let n = length tx; np = suite_list_len phs in
      (case suite_list_at phs j of
         None \<Rightarrow> None
       | Some me \<Rightarrow>
           let a = line_off tab n (node_line me) in
           if j + 1 < np then
             (case suite_list_at phs (j + 1) of
                None \<Rightarrow> None
              | Some nx \<Rightarrow> cut tx a (line_off tab n (node_line nx)))
           else cut tx a n))"

text \<open>Where the text of step \<open>k\<close>, the last of phase \<open>j\<close>, ends.\<close>

definition last_step_end ::
  "string \<Rightarrow> nat list \<Rightarrow> suite_node ptr \<Rightarrow> nat \<Rightarrow> suite_node ptr \<Rightarrow> suite_node \<Rightarrow> nat option" where
  "last_step_end tx tab phs j ph me =
     (let n = length tx; post = next_key_after ph (node_line me) in
      if post \<noteq> 0 then Some (line_off tab n post)
      else if j + 1 < suite_list_len phs then
        map_option (\<lambda>jp. line_off tab n (node_line jp)) (suite_list_at phs (j + 1))
      else Some n)"

definition trial_no_step ::
  "string \<Rightarrow> nat list \<Rightarrow> suite_node ptr \<Rightarrow> nat \<Rightarrow> nat \<Rightarrow> string option" where
  "trial_no_step tx tab phs j k =
     (let n = length tx; ph = suite_list_at phs j in
      if ph = None then None
      else
        (case suite_map_find ph (Some ''do'') of
           None \<Rightarrow> None
         | Some d \<Rightarrow>
             let ns = suite_list_len (Some d) in
             (case suite_list_at (Some d) k of
                None \<Rightarrow> None
              | Some me \<Rightarrow>
                  let a = line_off tab n (node_line me) in
                  (case (if k + 1 < ns
                         then map_option (\<lambda>nx. line_off tab n (node_line nx))
                                (suite_list_at (Some d) (k + 1))
                         else last_step_end tx tab phs j ph me) of
                     None \<Rightarrow> None
                   | Some b \<Rightarrow>
                       if ns = 1 then
                         let dk = do_key_line ph in
                         if dk = 0 then None else cut tx (line_off tab n dk) b
                       else cut tx a b))))"

section \<open>The search\<close>

text \<open>
  The world of the shrinker: the input file, the oracle's answer on it, whether the \<open>k\<close>th
  temporary file can be written, the oracle's answer on the \<open>k\<close>th trial, and whether the
  result can be written.
\<close>

record world_io =
  w_input :: "string option"
  w_first :: "string \<Rightarrow> int"
  w_temp :: "nat \<Rightarrow> bool"
  w_oracle :: "nat \<Rightarrow> string \<Rightarrow> int"
  w_output :: bool

text \<open>The verdict, or \<open>None\<close> where \<open>call_oracle\<close> sets \<open>bad\<close>.\<close>

definition call_oracle :: "world_io \<Rightarrow> nat \<Rightarrow> string \<Rightarrow> int option" where
  "call_oracle w k tx =
     (if \<not> w_temp w k then None
      else let v = w_oracle w k tx in if v < 0 \<or> v > 2 then None else Some v)"

text \<open>
  A sweep ends with an accepted trial, with none, or with an oracle error. It carries the
  counters \<open>tries\<close> and the number of oracle calls made.
\<close>

datatype sweep = Moved string | Still | Bad

text \<open>What every trial goes through, once built: validity, then the oracle.\<close>

definition judge :: "world_io \<Rightarrow> nat \<Rightarrow> string option \<Rightarrow> sweep \<times> nat" where
  "judge w k trial =
     (case trial of
        None \<Rightarrow> (Still, k)
      | Some tt \<Rightarrow>
          if \<not> trial_valid tt then (Still, k)
          else
            (case call_oracle w k tt of
               None \<Rightarrow> (Bad, k + 1)
             | Some v \<Rightarrow> if v = 1 then (Moved tt, k + 1) else (Still, k + 1)))"

text \<open>\<open>for (j = np; j > 1; j--)\<close> over the phases.\<close>

fun phase_sweep ::
  "world_io \<Rightarrow> string \<Rightarrow> suite_node ptr \<Rightarrow> nat \<Rightarrow> nat \<Rightarrow> nat \<Rightarrow> sweep \<times> nat \<times> nat" where
  "phase_sweep w cur phs 0 tries k = (Still, tries, k)"
| "phase_sweep w cur phs (Suc idx) tries k =
     (if idx = 0 then (Still, tries, k)
      else if tries \<ge> kMaxTry then (Still, tries, k)
      else
        (case judge w k (trial_no_phase cur (line_starts cur) phs idx) of
           (Still, k) \<Rightarrow> phase_sweep w cur phs idx (tries + 1) k
         | (s, k) \<Rightarrow> (s, tries + 1, k)))"

text \<open>\<open>for (k = ns; k > 0; k--)\<close> over the steps of phase \<open>idx\<close>.\<close>

fun step_sweep ::
  "world_io \<Rightarrow> string \<Rightarrow> suite_node ptr \<Rightarrow> nat \<Rightarrow> nat \<Rightarrow> nat \<Rightarrow> nat \<Rightarrow> sweep \<times> nat \<times> nat" where
  "step_sweep w cur phs idx 0 tries k = (Still, tries, k)"
| "step_sweep w cur phs idx (Suc sk) tries k =
     (if tries \<ge> kMaxTry then (Still, tries, k)
      else
        (case judge w k (trial_no_step cur (line_starts cur) phs idx sk) of
           (Still, k) \<Rightarrow> step_sweep w cur phs idx sk (tries + 1) k
         | (s, k) \<Rightarrow> (s, tries + 1, k)))"

text \<open>\<open>for (j = np; j > 0; j--)\<close> over the phases, for their steps.\<close>

fun steps_sweep ::
  "world_io \<Rightarrow> string \<Rightarrow> suite_node ptr \<Rightarrow> nat \<Rightarrow> nat \<Rightarrow> nat \<Rightarrow> sweep \<times> nat \<times> nat" where
  "steps_sweep w cur phs 0 tries k = (Still, tries, k)"
| "steps_sweep w cur phs (Suc idx) tries k =
     (case suite_map_find (suite_list_at phs idx) (Some ''do'') of
        None \<Rightarrow> steps_sweep w cur phs idx tries k
      | Some d \<Rightarrow>
          (case step_sweep w cur phs idx (suite_list_len (Some d)) tries k of
             (Still, tries, k) \<Rightarrow> steps_sweep w cur phs idx tries k
           | r \<Rightarrow> r))"

text \<open>The list of phases of the current text, where it still parses.\<close>

definition phases_of :: "string \<Rightarrow> suite_node ptr" where
  "phases_of cur =
     (case suite_parse cur of Ok root \<Rightarrow> suite_map_find (Some root) (Some ''phases'') | _ \<Rightarrow> None)"

lemma phase_sweep_tries:
  "phase_sweep w cur phs j tries k = (s, tries', k') \<Longrightarrow>
   tries \<le> tries' \<and> (s \<noteq> Still \<longrightarrow> tries < tries' \<and> tries < kMaxTry)"
proof (induction j arbitrary: tries k)
  case (Suc idx)
  show ?case
  proof (cases "idx = 0 \<or> tries \<ge> kMaxTry")
    case False
    obtain s0 k0 where j: "judge w k (trial_no_phase cur (line_starts cur) phs idx) = (s0, k0)"
      by (cases "judge w k (trial_no_phase cur (line_starts cur) phs idx)")
    show ?thesis
    proof (cases s0)
      case Still
      with Suc.prems False j have "phase_sweep w cur phs idx (Suc tries) k0 = (s, tries', k')" by simp
      from Suc.IH [OF this] False show ?thesis by auto
    qed (use Suc.prems False j in auto)
  qed (use Suc.prems in \<open>auto split: if_splits\<close>)
qed simp

text \<open>
  The loop that drops phases. An accepted trial sets \<open>pass\<close> back, so the loop runs until a
  sweep accepts nothing; each accepted trial has used up one of the \<open>kMaxTry\<close> tries.
\<close>

function drop_phases :: "world_io \<Rightarrow> string \<Rightarrow> nat \<Rightarrow> nat \<Rightarrow> (string \<times> nat \<times> nat) option" where
  "drop_phases w cur tries k =
     (if tries \<ge> kMaxTry then Some (cur, tries, k)
      else
        (case phases_of cur of
           None \<Rightarrow> None
         | Some phs \<Rightarrow>
             (case phase_sweep w cur (Some phs) (suite_list_len (Some phs)) tries k of
                (Bad, _, _) \<Rightarrow> None
              | (Moved tt, tries, k) \<Rightarrow> drop_phases w tt tries k
              | (Still, tries, k) \<Rightarrow> Some (cur, tries, k))))"
  by pat_completeness auto
termination
proof (relation "measure (\<lambda>(w, cur, tries, k). kMaxTry - tries)", goal_cases)
  case (2 w cur tries k phs x1 r s tries' k')
  then have "tries < tries' \<and> tries < kMaxTry"
    using phase_sweep_tries [of w cur "Some phs" "suite_list_len (Some phs)" tries k "Moved s" tries' k']
    by auto
  then show ?case by (auto intro: diff_less_mono2)
qed simp

declare drop_phases.simps [simp del]

text \<open>\<open>for (pass = 0; pass < kMaxPass; pass++)\<close> over single steps; \<open>n\<close> passes are left.\<close>

fun drop_steps :: "nat \<Rightarrow> world_io \<Rightarrow> string \<Rightarrow> nat \<Rightarrow> nat \<Rightarrow> (string \<times> nat \<times> nat) option" where
  "drop_steps 0 w cur tries k = Some (cur, tries, k)"
| "drop_steps (Suc n) w cur tries k =
     (if tries \<ge> kMaxTry then Some (cur, tries, k)
      else
        (case phases_of cur of
           None \<Rightarrow> None
         | Some phs \<Rightarrow>
             (case steps_sweep w cur (Some phs) (suite_list_len (Some phs)) tries k of
                (Bad, _, _) \<Rightarrow> None
              | (Moved tt, tries, k) \<Rightarrow> drop_steps n w tt tries k
              | (Still, tries, k) \<Rightarrow> Some (cur, tries, k))))"

text \<open>
  The text written to \<open>outpath\<close> where \<open>nemesis_minimize\<close> returns true, with the number of
  trials the oracle judged; \<open>None\<close> where it returns false.
\<close>

definition nemesis_minimize ::
  "world_io \<Rightarrow> string ptr \<Rightarrow> bool \<Rightarrow> string ptr \<Rightarrow> (string \<times> nat) option" where
  "nemesis_minimize w yamlpath has_oracle outpath =
     (if yamlpath = None \<or> \<not> has_oracle \<or> outpath = None then None
      else
        (case w_input w of
           None \<Rightarrow> None
         | Some cur \<Rightarrow>
             if \<not> trial_valid cur then None
             else
               let v = w_first w cur in
               if v < 0 \<or> v > 2 then None
               else if v \<noteq> 1 then None
               else
                 (case drop_phases w cur 0 0 of
                    None \<Rightarrow> None
                  | Some (cur, tries, k) \<Rightarrow>
                      (case drop_steps kMaxPass w cur tries k of
                         None \<Rightarrow> None
                       | Some (cur, tries, k) \<Rightarrow> if w_output w then Some (cur, k) else None))))"

section \<open>Sweeps are honest\<close>

text \<open>One deletion: of a phase after the first, of a step.\<close>

definition phase_cut :: "string \<Rightarrow> string \<Rightarrow> bool" where
  "phase_cut cur tt = (\<exists>idx > 0. trial_no_phase cur (line_starts cur) (phases_of cur) idx = Some tt)"

definition step_cut :: "string \<Rightarrow> string \<Rightarrow> bool" where
  "step_cut cur tt = (\<exists>idx sk. trial_no_step cur (line_starts cur) (phases_of cur) idx sk = Some tt)"

text \<open>
  The contract of a sweep started with the given counters: it moves only to a valid trial
  that it has the right to build and on which the oracle answered fail, it fails only on an
  oracle error, and the counters record what it did.
\<close>

definition honest ::
  "world_io \<Rightarrow> (string \<Rightarrow> bool) \<Rightarrow> nat \<Rightarrow> nat \<Rightarrow> sweep \<times> nat \<times> nat \<Rightarrow> bool" where
  "honest w allowed tries k r =
     (case r of (s, tries', k') \<Rightarrow>
        tries \<le> tries' \<and> (tries \<le> kMaxTry \<longrightarrow> tries' \<le> kMaxTry) \<and> k \<le> k' \<and> k' + tries \<le> tries' + k \<and>
        (case s of
           Moved tt \<Rightarrow>
             allowed tt \<and> trial_valid tt \<and> (\<exists>i < k'. w_temp w i \<and> w_oracle w i tt = 1)
         | Still \<Rightarrow> True
         | Bad \<Rightarrow> (\<exists>i tt. call_oracle w i tt = None)))"

lemma honest_mono: "honest w P t k r \<Longrightarrow> (\<And>tt. P tt \<Longrightarrow> Q tt) \<Longrightarrow> honest w Q t k r"
  by (auto simp: honest_def split: prod.splits sweep.splits)

lemma honest_still: "honest w P t k (Still, t, k)"
  by (simp add: honest_def)

lemma honest_chain:
  "honest w P t k (Still, t1, k1) \<Longrightarrow> honest w P t1 k1 r \<Longrightarrow> honest w P t k r"
  by (auto simp: honest_def split: prod.splits sweep.splits)

lemma judge_honest:
  assumes "t < kMaxTry" "\<And>tt. trial = Some tt \<Longrightarrow> P tt" "judge w k trial = (s, k')"
  shows "honest w P t k (s, Suc t, k')"
  using assms
  by (auto simp: honest_def judge_def call_oracle_def Let_def split: option.splits if_splits sweep.splits)

lemma phase_sweep_honest:
  "honest w (phase_cut cur) t k (phase_sweep w cur (phases_of cur) j t k)"
proof (induction j arbitrary: t k)
  case (Suc idx)
  obtain s k' where j: "judge w k (trial_no_phase cur (line_starts cur) (phases_of cur) idx) = (s, k')"
    by (cases "judge w k (trial_no_phase cur (line_starts cur) (phases_of cur) idx)")
  show ?case
  proof (cases "idx = 0 \<or> t \<ge> kMaxTry")
    case False
    then have "honest w (phase_cut cur) t k (s, Suc t, k')"
      by (intro judge_honest [OF _ _ j]) (auto simp: phase_cut_def)
    with False j Suc.IH show ?thesis by (cases s) (auto intro: honest_chain)
  qed (auto simp: honest_still)
qed (simp add: honest_still)

lemma step_sweep_honest:
  "honest w (step_cut cur) t k (step_sweep w cur (phases_of cur) idx sk t k)"
proof (induction sk arbitrary: t k)
  case (Suc sk)
  obtain s k' where j: "judge w k (trial_no_step cur (line_starts cur) (phases_of cur) idx sk) = (s, k')"
    by (cases "judge w k (trial_no_step cur (line_starts cur) (phases_of cur) idx sk)")
  show ?case
  proof (cases "t \<ge> kMaxTry")
    case False
    then have "honest w (step_cut cur) t k (s, Suc t, k')"
      by (intro judge_honest [OF _ _ j]) (auto simp: step_cut_def)
    with False j Suc.IH show ?thesis by (cases s) (auto intro: honest_chain)
  qed (auto simp: honest_still)
qed (simp add: honest_still)

lemma steps_sweep_honest:
  "honest w (step_cut cur) t k (steps_sweep w cur (phases_of cur) j t k)"
proof (induction j arbitrary: t k)
  case (Suc idx)
  let ?d = "suite_map_find (suite_list_at (phases_of cur) idx) (Some ''do'')"
  show ?case
  proof (cases ?d)
    case (Some d)
    obtain s t' k' where r: "step_sweep w cur (phases_of cur) idx (suite_list_len (Some d)) t k = (s, t', k')"
      by (cases "step_sweep w cur (phases_of cur) idx (suite_list_len (Some d)) t k")
    have "honest w (step_cut cur) t k (s, t', k')" using step_sweep_honest [of w cur t k idx] r by metis
    with Some r Suc.IH show ?thesis by (cases s) (auto intro: honest_chain)
  qed (use Suc.IH in simp)
qed (simp add: honest_still)

section \<open>The loops over sweeps\<close>

lemma doc_valid_phases:
  "doc_valid root \<Longrightarrow> \<exists>l phs. suite_map_find (Some root) (Some ''phases'') = Some (Suite_List l phs)"
  by (cases "the (suite_map_find (Some root) (Some ''phases''))")
    (auto simp: doc_valid_def split: suite_node.split_asm option.split_asm if_split_asm)

lemma trial_valid_phases: "trial_valid tx \<Longrightarrow> \<exists>phs. phases_of tx = Some phs"
  using doc_valid_phases by (fastforce simp: trial_valid_def phases_of_def split: res.splits)

text \<open>What the shrinker knows of its current text after \<open>tries\<close> trials, \<open>k\<close> of them judged.\<close>

definition kept :: "world_io \<Rightarrow> string \<Rightarrow> string \<times> nat \<times> nat \<Rightarrow> bool" where
  "kept w start c =
     (case c of (cur, tries, k) \<Rightarrow>
        trial_valid cur \<and> k \<le> tries \<and> tries \<le> kMaxTry \<and>
        (cur = start \<and> w_first w cur = 1 \<or> (\<exists>i < k. w_temp w i \<and> w_oracle w i cur = 1)))"

locale sweeper =
  fixes w :: world_io
    and sw :: "string \<Rightarrow> nat \<Rightarrow> nat \<Rightarrow> sweep \<times> nat \<times> nat"
    and cuts :: "string \<Rightarrow> string \<Rightarrow> bool"
  assumes sw_honest: "honest w (cuts cur) t k (sw cur t k)"
begin

lemma moved:
  assumes "kept w start (cur, t, k)" "sw cur t k = (Moved tt, t', k')"
  shows "cuts cur tt" "kept w start (tt, t', k')"
  using sw_honest [of cur t k] assms by (auto simp: honest_def kept_def)

lemma still:
  assumes "kept w start (cur, t, k)" "sw cur t k = (Still, t', k')"
  shows "kept w start (cur, t', k')"
  using sw_honest [of cur t k] assms by (auto simp: honest_def kept_def)

lemma bad: "sw cur t k = (Bad, t', k') \<Longrightarrow> \<exists>i tt. call_oracle w i tt = None"
  using sw_honest [of cur t k] by (auto simp: honest_def)

end

interpretation phase_sweeps: sweeper w
  "\<lambda>cur. phase_sweep w cur (phases_of cur) (suite_list_len (phases_of cur))" phase_cut for w
  by unfold_locales (rule phase_sweep_honest)

interpretation steps_sweeps: sweeper w
  "\<lambda>cur. steps_sweep w cur (phases_of cur) (suite_list_len (phases_of cur))" step_cut for w
  by unfold_locales (rule steps_sweep_honest)

lemma drop_phases_kept:
  "drop_phases w cur t k = Some (cur', t', k') \<Longrightarrow> kept w start (cur, t, k) \<Longrightarrow>
   kept w start (cur', t', k') \<and> phase_cut\<^sup>*\<^sup>* cur cur'"
proof (induction w cur t k rule: drop_phases.induct)
  case (1 w cur t k)
  show ?case
  proof (cases "t \<ge> kMaxTry")
    case True
    with "1.prems" show ?thesis by (simp add: drop_phases.simps)
  next
    case False
    from "1.prems"(2) obtain phs where phs: "phases_of cur = Some phs"
      using trial_valid_phases [of cur] by (auto simp: kept_def)
    obtain s t1 k1 where r: "phase_sweep w cur (Some phs) (suite_list_len (Some phs)) t k = (s, t1, k1)"
      by (cases "phase_sweep w cur (Some phs) (suite_list_len (Some phs)) t k")
    note sw = r [folded phs]
    show ?thesis
    proof (cases s)
      case (Moved tt)
      with "1.prems"(1) False phs r have "drop_phases w tt t1 k1 = Some (cur', t', k')"
        by (subst (asm) drop_phases.simps) simp
      moreover note phase_sweeps.moved [OF "1.prems"(2) sw [unfolded Moved]]
      ultimately show ?thesis
        using "1.IH" [OF False phs r [unfolded Moved, symmetric] refl refl] by (auto intro: converse_rtranclp_into_rtranclp)
    next
      case Still
      with "1.prems"(1) False phs r have "cur' = cur" "t' = t1" "k' = k1"
        by (subst (asm) drop_phases.simps; simp)+
      with phase_sweeps.still [OF "1.prems"(2) sw [unfolded Still]] show ?thesis by simp
    next
      case Bad
      with "1.prems"(1) False phs r show ?thesis by (subst (asm) drop_phases.simps) simp
    qed
  qed
qed

lemma drop_steps_kept:
  "drop_steps n w cur t k = Some (cur', t', k') \<Longrightarrow> kept w start (cur, t, k) \<Longrightarrow>
   kept w start (cur', t', k') \<and> (\<exists>m \<le> n. (step_cut ^^ m) cur cur')"
proof (induction n arbitrary: cur t k)
  case (Suc n)
  show ?case
  proof (cases "t \<ge> kMaxTry")
    case True
    with Suc.prems show ?thesis by (auto intro!: exI [of _ 0])
  next
    case False
    from Suc.prems(2) obtain phs where phs: "phases_of cur = Some phs"
      using trial_valid_phases [of cur] by (auto simp: kept_def)
    obtain s t1 k1 where r: "steps_sweep w cur (Some phs) (suite_list_len (Some phs)) t k = (s, t1, k1)"
      by (cases "steps_sweep w cur (Some phs) (suite_list_len (Some phs)) t k")
    note sw = r [folded phs]
    show ?thesis
    proof (cases s)
      case (Moved tt)
      with Suc.prems(1) False phs r have "drop_steps n w tt t1 k1 = Some (cur', t', k')" by simp
      moreover note m = steps_sweeps.moved [OF Suc.prems(2) sw [unfolded Moved]]
      ultimately obtain i where "kept w start (cur', t', k')" "i \<le> n" "(step_cut ^^ i) tt cur'"
        using Suc.IH by blast
      then show ?thesis using m(1) by (auto intro!: exI [of _ "Suc i"] relpowp_Suc_I2)
    next
      case Still
      with Suc.prems(1) False phs r have "cur' = cur" "t' = t1" "k' = k1" by auto
      with steps_sweeps.still [OF Suc.prems(2) sw [unfolded Still]] show ?thesis
        by (auto intro!: exI [of _ 0])
    next
      case Bad
      with Suc.prems(1) False phs r show ?thesis by simp
    qed
  qed
qed (auto intro!: exI [of _ 0])

section \<open>Lines fit the text\<close>

lemma cut_subseq: "cut tx a b = Some tt \<Longrightarrow> subseq tt tx"
proof -
  assume c: "cut tx a b = Some tt"
  then have tt: "tt = take a tx @ drop b tx" and "a \<le> b" by (auto simp: cut_def split: if_splits)
  then have "suffix (drop b tx) (drop a tx)" by (metis drop_drop le_add_diff_inverse2 suffix_drop)
  then have "subseq (take a tx @ drop b tx) (take a tx @ drop a tx)"
    by (intro list_emb_append_mono subseq_order.refl) (rule suffix_imp_subseq)
  with tt show ?thesis by simp
qed

lemma phase_cut_subseq: "phase_cut cur tt \<Longrightarrow> subseq tt cur"
  by (auto simp: phase_cut_def trial_no_phase_def Let_def dest: cut_subseq split: option.split_asm if_split_asm)

lemma trial_no_step_cuts: "trial_no_step tx tab phs j k = Some tt \<Longrightarrow> \<exists>a b. cut tx a b = Some tt"
  unfolding trial_no_step_def Let_def
  by (simp only: split: if_split_asm option.split_asm) (blast | simp)+

lemma step_cut_subseq: "step_cut cur tt \<Longrightarrow> subseq tt cur"
  by (auto simp: step_cut_def dest!: trial_no_step_cuts dest: cut_subseq)

lemma cuts_subseq: "(\<And>a b. R a b \<Longrightarrow> subseq b a) \<Longrightarrow> R\<^sup>*\<^sup>* cur tt \<Longrightarrow> subseq tt cur"
  by (rotate_tac, induction rule: rtranclp_induct) (auto intro: subseq_order.order_trans)

section \<open>What a sweep that moves nothing has seen\<close>

lemma judge_still:
  "judge w k (Some tt) = (Still, k') \<Longrightarrow> trial_valid tt \<Longrightarrow> w_oracle w k tt \<noteq> 1"
  by (auto simp: judge_def call_oracle_def Let_def split: if_splits)

lemma phase_sweep_still:
  assumes "phase_sweep w cur phs j t k = (Still, t', k')" "t' < kMaxTry" "0 < idx" "idx < j"
  shows "\<exists>i i'. judge w i (trial_no_phase cur (line_starts cur) phs idx) = (Still, i')"
  using assms(1,4)
proof (induction j arbitrary: t k)
  case (Suc n)
  obtain s k1 where j: "judge w k (trial_no_phase cur (line_starts cur) phs n) = (s, k1)"
    by (cases "judge w k (trial_no_phase cur (line_starts cur) phs n)")
  show ?case
  proof (cases "t \<ge> kMaxTry")
    case True
    with Suc.prems assms(2,3) show ?thesis by (auto split: if_splits)
  next
    case False
    with Suc.prems assms(3) j have s: "s = Still" "phase_sweep w cur phs n (Suc t) k1 = (Still, t', k')"
      by (auto split: sweep.splits)
    with j Suc.IH Suc.prems(2) show ?thesis by (cases "idx = n") auto
  qed
qed simp

lemma phases_swept:
  assumes "phases_of cur = Some phs"
    and "phase_sweep w cur (Some phs) (suite_list_len (Some phs)) t k = (Still, t', k')"
    and "t' < kMaxTry" "phase_cut cur tt" "trial_valid tt"
  shows "\<exists>i. w_oracle w i tt \<noteq> 1"
proof -
  from assms obtain idx where i: "0 < idx" "trial_no_phase cur (line_starts cur) (Some phs) idx = Some tt"
    by (auto simp: phase_cut_def)
  then have "idx < suite_list_len (Some phs)"
    by (auto simp: trial_no_phase_def suite_list_at_def suite_list_len_def
        split: option.split_asm suite_node.split_asm if_split_asm)
  from phase_sweep_still [OF assms(2,3) i(1) this] i(2) judge_still assms(5) show ?thesis by metis
qed

lemma drop_phases_swept:
  "drop_phases w cur t k = Some (res, t', k') \<Longrightarrow> t' < kMaxTry \<Longrightarrow> phase_cut res tt \<Longrightarrow> trial_valid tt \<Longrightarrow>
   \<exists>i. w_oracle w i tt \<noteq> 1"
proof (induction w cur t k rule: drop_phases.induct)
  case (1 w cur t k)
  then have t: "\<not> t \<ge> kMaxTry" by (subst (asm) (2) drop_phases.simps) (auto split: if_splits)
  with "1.prems"(1) obtain phs where phs: "phases_of cur = Some phs"
    by (subst (asm) drop_phases.simps) (auto split: option.splits)
  obtain s t1 k1 where r: "phase_sweep w cur (Some phs) (suite_list_len (Some phs)) t k = (s, t1, k1)"
    by (cases "phase_sweep w cur (Some phs) (suite_list_len (Some phs)) t k")
  show ?case
  proof (cases s)
    case (Moved x)
    with "1.prems"(1) t phs r have "drop_phases w x t1 k1 = Some (res, t', k')"
      by (subst (asm) drop_phases.simps) simp
    with "1.IH" [OF t phs r [unfolded Moved, symmetric] refl refl] "1.prems" show ?thesis by blast
  next
    case Still
    with "1.prems"(1) t phs r have "res = cur" "t' = t1"
      by (subst (asm) drop_phases.simps; simp)+
    with phases_swept [OF phs r [unfolded Still]] "1.prems" show ?thesis by blast
  next
    case Bad
    with "1.prems"(1) t phs r show ?thesis by (subst (asm) drop_phases.simps) simp
  qed
qed

section \<open>The search comes to an end with a result\<close>

lemma drop_phases_returns:
  assumes ok: "\<And>i tt. call_oracle w i tt \<noteq> None"
  shows "kept w start (cur, t, k) \<Longrightarrow> drop_phases w cur t k \<noteq> None"
proof (induction "kMaxTry - t" arbitrary: cur t k rule: less_induct)
  case less
  then obtain phs where phs: "phases_of cur = Some phs"
    using trial_valid_phases [of cur] by (auto simp: kept_def)
  obtain s t1 k1 where r: "phase_sweep w cur (Some phs) (suite_list_len (Some phs)) t k = (s, t1, k1)"
    by (cases "phase_sweep w cur (Some phs) (suite_list_len (Some phs)) t k")
  note sw = r [folded phs]
  show ?case
  proof (cases s)
    case (Moved x)
    from phase_sweep_tries [OF r] Moved have "kMaxTry - t1 < kMaxTry - t" by (auto intro: diff_less_mono2)
    from less.hyps [OF this phase_sweeps.moved(2) [OF less.prems sw [unfolded Moved]]] Moved phs r
    show ?thesis by (subst drop_phases.simps) simp
  next
    case Bad
    with phase_sweeps.bad sw ok show ?thesis by blast
  qed (use phs r in \<open>subst drop_phases.simps, simp\<close>)
qed

lemma drop_steps_returns:
  assumes ok: "\<And>i tt. call_oracle w i tt \<noteq> None"
  shows "kept w start (cur, t, k) \<Longrightarrow> drop_steps n w cur t k \<noteq> None"
proof (induction n arbitrary: cur t k)
  case (Suc n)
  then obtain phs where phs: "phases_of cur = Some phs"
    using trial_valid_phases [of cur] by (auto simp: kept_def)
  obtain s t1 k1 where r: "steps_sweep w cur (Some phs) (suite_list_len (Some phs)) t k = (s, t1, k1)"
    by (cases "steps_sweep w cur (Some phs) (suite_list_len (Some phs)) t k")
  note sw = r [folded phs]
  show ?case
  proof (cases s)
    case (Moved x)
    from Suc.IH [OF steps_sweeps.moved(2) [OF Suc.prems sw [unfolded Moved]]] Moved phs r
    show ?thesis by simp
  next
    case Bad
    with steps_sweeps.bad sw ok show ?thesis by blast
  qed (use phs r in simp)
qed simp

end
