(* ===== verification/Yaml_Render.thy ===== *)
theory Yaml_Render
  imports Yaml_Parse
begin

text \<open>
  What the scenario parser means: an abstract document, its block-style rendering, and the
  theorem that \<open>suite_parse\<close> reads the rendering back, with the line of every node. Nested
  blocks are two columns to the right; a map in a list starts on the line of its dash; a
  scalar or key is plain where that is safe and double quoted, with escapes, elsewhere.
\<close>

section \<open>Documents\<close>

datatype doc =
    D_map "(string \<times> doc) list"
  | D_list "doc list"
  | D_text string

lemma doc_induct [case_names D_map D_list D_text, induct type: doc]:
  assumes "\<And>es. (\<And>e. e \<in> set es \<Longrightarrow> P (snd e)) \<Longrightarrow> P (D_map es)"
    "\<And>vs. (\<And>v. v \<in> set vs \<Longrightarrow> P v) \<Longrightarrow> P (D_list vs)" "\<And>s. P (D_text s)"
  shows "P t"
proof (induction t rule: doc.induct)
  case (D_map es)
  have "P (snd e)" if "e \<in> set es" for e using D_map [OF that] by (cases e) auto
  then show ?case by (rule assms(1))
qed (use assms in auto)

text \<open>A value that is written on lines of its own.\<close>

fun is_block :: "doc \<Rightarrow> bool" where
  "is_block (D_map es) = True"
| "is_block (D_list vs) = (vs \<noteq> [])"
| "is_block (D_text s) = False"

fun height :: "doc \<Rightarrow> nat" where
  "height (D_map es) = Suc (Max (set (0 # map (\<lambda>e. height (snd e)) es)))"
| "height (D_list vs) = Suc (Max (set (0 # map height vs)))"
| "height (D_text s) = 0"

definition plain_char :: "char \<Rightarrow> bool" where
  "plain_char c =
     (let n = (of_char c :: nat) in
      48 \<le> n \<and> n \<le> 57 \<or> 65 \<le> n \<and> n \<le> 90 \<or> 97 \<le> n \<and> n \<le> 122 \<or> n = 95 \<or> n = 45 \<or> n = 46)"

definition plain_text :: "string \<Rightarrow> bool" where
  "plain_text s = (s \<noteq> [] \<and> hd s \<noteq> DASH \<and> list_all plain_char s)"

text \<open>The characters a scalar can hold: the printable ones and those with an escape.\<close>

definition text_char :: "char \<Rightarrow> bool" where
  "text_char c = ((of_char c :: nat) \<ge> 0x20 \<or> c = NL \<or> c = TAB \<or> c = CR)"

fun escaped :: "string \<Rightarrow> string" where
  "escaped [] = []"
| "escaped (c # cs) =
     (if c = NL then [BS, CHR ''n'']
      else if c = TAB then [BS, CHR ''t'']
      else if c = CR then [BS, CHR ''r'']
      else if c = BS then [BS, BS]
      else if c = DQ then [BS, DQ]
      else [c]) @ escaped cs"

definition token :: "string \<Rightarrow> string" where
  "token s = (if plain_text s then s else DQ # escaped s @ [DQ])"

fun doc_ok :: "doc \<Rightarrow> bool" where
  "doc_ok (D_map es) =
     (es \<noteq> [] \<and> distinct (map fst es) \<and>
      (\<forall>e \<in> set es. fst e \<noteq> [] \<and> list_all text_char (fst e) \<and> doc_ok (snd e)))"
| "doc_ok (D_list vs) = (\<forall>v \<in> set vs. doc_ok v)"
| "doc_ok (D_text s) = list_all text_char s"

section \<open>Rendering\<close>

type_synonym rows = "(nat \<times> string) list"

text \<open>
  A row is its indentation and the rest. \<open>value_rows\<close> writes the value of the key \<open>k\<close>, and
  \<open>item_rows\<close> a list item, given the rows \<open>rs\<close> of its block two columns to the right.
\<close>

definition value_rows :: "nat \<Rightarrow> string \<Rightarrow> doc \<Rightarrow> rows \<Rightarrow> rows" where
  "value_rows i k v rs =
     (case v of
        D_text s \<Rightarrow> [(i, k @ '': '' @ token s)]
      | _ \<Rightarrow> if is_block v then (i, k @ '':'') # rs else [(i, k @ '': []'')])"

definition item_rows :: "nat \<Rightarrow> doc \<Rightarrow> rows \<Rightarrow> rows" where
  "item_rows i v rs =
     (case v of
        D_text s \<Rightarrow> [(i, ''- '' @ token s)]
      | D_list vs \<Rightarrow> if vs = [] then [(i, ''- []'')] else (i, ''-'') # rs
      | D_map es \<Rightarrow> (case rs of [] \<Rightarrow> [] | (_, b) # rs \<Rightarrow> (i, ''- '' @ b) # rs))"

fun rows_of :: "nat \<Rightarrow> doc \<Rightarrow> rows" where
  "rows_of i (D_map es) =
     concat (map (\<lambda>e. value_rows i (token (fst e)) (snd e) (rows_of (i + 2) (snd e))) es)"
| "rows_of i (D_list vs) = concat (map (\<lambda>v. item_rows i v (rows_of (i + 2) v)) vs)"
| "rows_of i (D_text s) = []"

definition row_text :: "nat \<times> string \<Rightarrow> string" where
  "row_text r = replicate (fst r) SP @ snd r"

definition render :: "doc \<Rightarrow> string" where
  "render t = concat (map (\<lambda>r. row_text r @ [NL]) (rows_of 0 t))"

text \<open>
  The tree with its lines: the document whose first row is line \<open>l\<close>. \<open>place\<close> puts things of
  height \<open>h\<close> one below the other.
\<close>

fun place :: "(nat \<Rightarrow> 'a \<Rightarrow> 'b) \<Rightarrow> ('a \<Rightarrow> nat) \<Rightarrow> nat \<Rightarrow> 'a list \<Rightarrow> 'b list" where
  "place f h l [] = []"
| "place f h l (x # xs) = f l x # place f h (l + h x) xs"

lemma place_cong [fundef_cong]:
  "xs = ys \<Longrightarrow> l = m \<Longrightarrow> (\<And>x i. x \<in> set ys \<Longrightarrow> f i x = g i x) \<Longrightarrow> (\<And>x. x \<in> set ys \<Longrightarrow> h x = k x) \<Longrightarrow>
   place f h l xs = place g k m ys"
  by (induction xs arbitrary: ys l m) auto

definition value_height :: "string \<times> doc \<Rightarrow> nat" where
  "value_height e = length (value_rows 0 (token (fst e)) (snd e) (rows_of 2 (snd e)))"

definition item_height :: "doc \<Rightarrow> nat" where
  "item_height v = length (item_rows 0 v (rows_of 2 v))"

text \<open>The line of a value, and of an item, that starts in the row of line \<open>l\<close>.\<close>

definition value_line :: "nat \<Rightarrow> doc \<Rightarrow> nat" where
  "value_line l v = (if is_block v then l + 1 else l)"

definition item_line :: "nat \<Rightarrow> doc \<Rightarrow> nat" where
  "item_line l v = (case v of D_list (_ # _) \<Rightarrow> l + 1 | _ \<Rightarrow> l)"

fun node_of :: "nat \<Rightarrow> doc \<Rightarrow> suite_node" where
  "node_of l (D_map es) =
     Suite_Map l (place (\<lambda>l e. (fst e, l, node_of (value_line l (snd e)) (snd e))) value_height l es)"
| "node_of l (D_list vs) = Suite_List l (place (\<lambda>l v. node_of (item_line l v) v) item_height l vs)"
| "node_of l (D_text s) = Suite_Scalar l s"

section \<open>Tokens\<close>

lemma skip_dq_simps [simp]:
  "skip_dq (DQ # cs) j = Some (j + 1)"
  "c \<noteq> BS \<Longrightarrow> c \<noteq> DQ \<Longrightarrow> skip_dq (c # cs) j = skip_dq cs (j + 1)"
  by (cases cs; simp)+

lemma dq_body_simps [simp]:
  "dq_body line col (DQ # cs) j buf = Ok (buf, j + 1)"
  "c \<noteq> BS \<Longrightarrow> c \<noteq> DQ \<Longrightarrow> dq_body line col (c # cs) j buf = dq_body line col cs (j + 1) (buf @ [c])"
  by (cases cs; simp)+

lemma skip_dq_escaped: "skip_dq (escaped s @ DQ # q) j = Some (j + length (escaped s) + 1)"
  by (induction s arbitrary: j) simp_all

lemma dq_body_escaped:
  "dq_body line col (escaped s @ DQ # q) j buf = Ok (buf @ s, j + length (escaped s) + 1)"
  by (induction s arbitrary: j buf) simp_all

lemma skip_quoted_token:
  "skip_quoted (p @ DQ # escaped s @ DQ # q) (length p) = Some (length (p @ DQ # escaped s @ [DQ]))"
  by (simp add: skip_quoted_def nth_append skip_dq_escaped)

lemma quoted_body_token:
  "quoted_body (DQ # escaped s @ DQ # q) line col = Ok (s, length (DQ # escaped s @ [DQ]))"
  by (simp add: quoted_body_def dq_body_escaped)

text \<open>A plain character is none of those with a meaning of their own.\<close>

lemma plain_char_special:
  "list_all (\<lambda>c. \<not> plain_char c)
     [DQ, SQ, CHR ''#'', SP, TAB, COLON, NL, CR, NUL, CHR ''%'', CHR ''?'', CHR ''|'', CHR ''>'', CHR ''@'',
      CHR 0x60, CHR ''{'', CHR ''}'', CHR ''['', CHR '']'', CHR ''&'', CHR ''*'', CHR ''!'']"
  by (simp add: plain_char_def)

lemma plain_charD:
  assumes "plain_char c"
  shows "\<not> is_quote c" "c \<noteq> CHR ''#''" "c \<noteq> SP" "c \<noteq> TAB" "c \<noteq> COLON" "c \<noteq> NL" "c \<noteq> CR" "c \<noteq> NUL"
    "c \<noteq> CHR ''%''" "c \<noteq> CHR ''?''" "c \<noteq> CHR ''|''" "c \<noteq> CHR ''>''" "c \<noteq> CHR ''@''" "c \<noteq> CHR 0x60"
    "c \<noteq> CHR ''{''" "c \<noteq> CHR ''}''" "c \<noteq> CHR ''[''" "c \<noteq> CHR '']''" "c \<noteq> CHR ''&''"
    "c \<noteq> CHR ''*''" "c \<noteq> CHR ''!''" "(of_char c :: nat) \<ge> 0x20"
proof -
  note sp = plain_char_special [simplified]
  show "\<not> is_quote c" "c \<noteq> CHR ''#''" "c \<noteq> SP" "c \<noteq> TAB" "c \<noteq> COLON" "c \<noteq> NL" "c \<noteq> CR" "c \<noteq> NUL"
    "c \<noteq> CHR ''%''" "c \<noteq> CHR ''?''" "c \<noteq> CHR ''|''" "c \<noteq> CHR ''>''" "c \<noteq> CHR ''@''" "c \<noteq> CHR 0x60"
    "c \<noteq> CHR ''{''" "c \<noteq> CHR ''}''" "c \<noteq> CHR ''[''" "c \<noteq> CHR '']''" "c \<noteq> CHR ''&''"
    "c \<noteq> CHR ''*''" "c \<noteq> CHR ''!''"
    using assms sp by (auto simp only: is_quote_def)
  show "(of_char c :: nat) \<ge> 0x20" using assms by (auto simp: plain_char_def Let_def)
qed

lemma plain_check_plain: "list_all plain_char s \<Longrightarrow> plain_check line col s i = Ok ()"
  by (induction s arbitrary: i) (simp_all add: plain_charD)

lemma key_end_plain: "list_all plain_char s \<Longrightarrow> key_end (s @ q) i = key_end q (i + length s)"
  by (induction s arbitrary: i) (simp_all add: plain_charD)

lemma token_ne [simp]: "token s \<noteq> []"
  by (auto simp: token_def plain_text_def)

lemma hd_token:
  "hd (token s) = DQ \<or> plain_char (hd (token s)) \<and> hd (token s) \<noteq> DASH"
  by (cases s) (auto simp: token_def plain_text_def)

lemma token_first:
  "token s ! 0 \<noteq> CHR ''|''" "token s ! 0 \<noteq> CHR ''>''" "token s ! 0 \<noteq> CHR ''%''"
  "token s ! 0 \<noteq> CHR ''?''" "token s ! 0 \<noteq> DASH" "token s ! 0 \<noteq> CHR ''@''"
  "token s ! 0 \<noteq> CHR 0x60" "token s ! 0 \<noteq> CHR ''[''" "token s ! 0 \<noteq> SP" "token s ! 0 \<noteq> TAB"
  "token s ! 0 \<noteq> CHR ''#''"
  using hd_token [of s] by (auto simp: hd_conv_nth plain_charD)

lemma rstrip_plain: "list_all plain_char s \<Longrightarrow> rstrip s = s"
proof (cases s rule: rev_cases)
  case (snoc t c)
  assume "list_all plain_char s"
  with snoc show ?thesis by (simp add: rstrip_def plain_charD)
qed (simp add: rstrip_def)

lemma parse_key_token:
  assumes "k \<noteq> []" "q = [] \<or> hd q = SP"
  shows "parse_key (token k @ COLON # q) line col nocol = Ok (k, length (token k) + 1)"
proof (cases "plain_text k")
  case True
  then have p: "list_all plain_char k" by (simp add: plain_text_def)
  then have "\<not> is_quote (k ! 0)" using assms(1) by (cases k) (simp_all add: plain_charD)
  moreover have "key_end (k @ COLON # q) 0 = Some (length k)"
    using assms(2) by (cases q) (auto simp: key_end_plain [OF p])
  ultimately show ?thesis using True assms(1) p
    by (simp add: parse_key_def token_def nth_append rstrip_plain plain_def plain_check_plain)
next
  case False
  have "spaces_from (DQ # escaped k @ DQ # COLON # q) (length (DQ # escaped k @ [DQ])) = 0"
    by (simp add: spaces_from_def)
  with False assms(1) show ?thesis
    by (simp add: parse_key_def token_def is_quote_def quoted_body_token nth_append)
qed

lemma parse_scalar_token: "parse_scalar (token s) line col = Ok (Suite_Scalar line s)"
proof (cases "plain_text s")
  case True
  then have "list_all plain_char s" "s \<noteq> []" by (auto simp: plain_text_def)
  moreover from this have "\<not> is_quote (s ! 0)" by (cases s) (simp_all add: plain_charD)
  ultimately show ?thesis using True
    by (simp add: parse_scalar_def token_def plain_def plain_check_plain)
next
  case False
  then show ?thesis
    using quoted_body_token [of s "[]" line col]
    by (simp add: parse_scalar_def token_def is_quote_def unquote_def)
qed

section \<open>Rows and lines\<close>

fun number :: "nat \<Rightarrow> rows \<Rightarrow> sline list" where
  "number l [] = []"
| "number l ((i, b) # rs) = \<lparr>body = b, lno = l, indent = i\<rparr> # number (l + 1) rs"

lemma number_append: "number l (rs @ ss) = number l rs @ number (l + length rs) ss"
  by (induction l rs rule: number.induct) simp_all

lemma length_number [simp]: "length (number l rs) = length rs"
  by (induction l rs rule: number.induct) simp_all

text \<open>The rows that follow a block at column \<open>i\<close> lie to its left.\<close>

definition below :: "nat \<Rightarrow> sline list \<Rightarrow> bool" where
  "below i rest = (rest = [] \<or> indent (hd rest) < i)"

lemma below_mono: "below i rest \<Longrightarrow> i \<le> j \<Longrightarrow> below j rest"
  by (auto simp: below_def)

lemma value_rows_length: "length rs = length rs' \<Longrightarrow> length (value_rows i k v rs) = length (value_rows i' k' v rs')"
  by (auto simp: value_rows_def split: doc.split)

lemma item_rows_length: "length rs = length rs' \<Longrightarrow> length (item_rows i v rs) = length (item_rows i' v rs')"
  by (auto simp: item_rows_def split: doc.split list.split)

lemma rows_of_length: "length (rows_of i t) = length (rows_of j t)"
proof (induction t arbitrary: i j)
  case (D_map es)
  have "length (value_rows i (token (fst e)) (snd e) (rows_of (i + 2) (snd e))) =
      length (value_rows j (token (fst e)) (snd e) (rows_of (j + 2) (snd e)))" if "e \<in> set es" for e
    using D_map that by (intro value_rows_length) auto
  then show ?case by (simp add: length_concat comp_def cong: map_cong)
next
  case (D_list vs)
  have "length (item_rows i v (rows_of (i + 2) v)) = length (item_rows j v (rows_of (j + 2) v))" if "v \<in> set vs" for v
    using D_list that by (intro item_rows_length) auto
  then show ?case by (simp add: length_concat comp_def cong: map_cong)
qed simp

lemma value_height: "length (value_rows i k (snd e) (rows_of j (snd e))) = value_height e"
  unfolding value_height_def by (intro value_rows_length rows_of_length)

lemma item_height: "length (item_rows i v (rows_of j v)) = item_height v"
  unfolding item_height_def by (intro item_rows_length rows_of_length)

lemma value_rows_split:
  "\<exists>q rs'. value_rows i k v rs = (i, k @ COLON # q) # rs' \<and> (q = [] \<or> hd q = SP) \<and>
     (if is_block v then q = [] \<and> rs' = rs else rs' = [])"
  by (cases v) (auto simp: value_rows_def)

lemma rows_of_hd: "is_block t \<Longrightarrow> doc_ok t \<Longrightarrow> \<exists>b rs. rows_of i t = (i, b) # rs"
proof (cases t)
  case (D_map es)
  assume "doc_ok t"
  with D_map obtain e es' where "es = e # es'" by (cases es) auto
  with D_map value_rows_split [of i "token (fst e)" "snd e" "rows_of (i + 2) (snd e)"] show ?thesis by auto
next
  case (D_list vs)
  assume "is_block t" "doc_ok t"
  with D_list obtain v vs' where v: "vs = v # vs'" "doc_ok v" by (cases vs) auto
  have "\<exists>b rs. item_rows i v (rows_of (i + 2) v) = (i, b) # rs"
  proof (cases v)
    case (D_map es)
    with v obtain e es' where "es = e # es'" by (cases es) auto
    with D_map value_rows_split [of "i + 2" "token (fst e)" "snd e" "rows_of (i + 2 + 2) (snd e)"] show ?thesis
      by (auto simp: item_rows_def)
  qed (auto simp: item_rows_def)
  with D_list v show ?thesis by auto
qed simp

section \<open>The parser on rows\<close>

text \<open>\<open>pb\<close> reads the block \<open>t\<close> at column \<open>i\<close>, whatever follows it.\<close>

definition reads :: "block_parser \<Rightarrow> nat \<Rightarrow> doc \<Rightarrow> bool" where
  "reads pb i t =
     (is_block t \<longrightarrow>
      (\<forall>l rest. below i rest \<longrightarrow> pb i (number l (rows_of i t) @ rest) = Ok (node_of l t, rest)))"

lemma spaces_from_simps [simp]:
  "spaces_from s (length s) = 0"
  "spaces_from (p @ SP # q) (length p) = Suc (spaces_from (p @ SP # q) (Suc (length p)))"
  by (simp_all add: spaces_from_def)

lemma parse_value_rows:
  assumes ok: "doc_ok v" "reads pb j v" "ind < j" "below j rest"
    and ln: "body ln = p @ COLON # q" "value_rows i k v (rows_of j v) = (i, k @ COLON # q) # rs"
  shows "parse_value pb ln (Suc (length p)) ind same (number (lno ln + 1) rs @ rest) =
    Ok (node_of (value_line (lno ln) v) v, rest)"
proof (cases "is_block v")
  case True
  with ln(2) have q: "q = []" "rs = rows_of j v"
    by (auto simp: value_rows_def split: doc.splits if_splits)
  from True ok(1) obtain b rs' where r: "rows_of j v = (j, b) # rs'" using rows_of_hd by blast
  have "spaces_from (body ln) (Suc (length p)) = 0" "drop (Suc (length p)) (body ln) = []"
    using ln(1) q by (simp_all add: spaces_from_def)
  then have "parse_value pb ln (Suc (length p)) ind same (number (lno ln + 1) rs @ rest) =
      pb j (number (lno ln + 1) rs @ rest)"
    using q r ok(3) by (simp add: parse_value_def Let_def)
  also have "\<dots> = Ok (node_of (lno ln + 1) v, rest)" using True ok(2,4) q by (simp add: reads_def)
  finally show ?thesis using True by (simp add: value_line_def)
next
  case False
  then consider (scalar) s where "v = D_text s" | (empty) "v = D_list []" by (cases v) auto
  then show ?thesis
  proof cases
    case scalar
    with ln(2) have q: "q = SP # token s" "rs = []" by (auto simp: value_rows_def)
    have sp: "spaces_from (body ln) (Suc (length p)) = 1"
      using ln(1) q token_first(9) [of s] by (cases "token s") (auto simp: spaces_from_def)
    have dr: "drop (Suc (Suc (length p))) (body ln) = token s" using ln(1) q by simp
    have "\<not> is_empty_list (token s)" using token_first [of s] by (simp add: is_empty_list_def)
    with sp dr q scalar token_first [of s] show ?thesis
      by (simp add: parse_value_def Let_def value_line_def parse_scalar_token del: drop_eq_Nil drop_eq_Nil2)
  next
    case empty
    with ln(2) have q: "q = '' []''" "rs = []" by (auto simp: value_rows_def)
    have sp: "spaces_from (body ln) (Suc (length p)) = 1" using ln(1) q by (simp add: spaces_from_def)
    have dr: "drop (Suc (Suc (length p))) (body ln) = ''[]''" using ln(1) q by simp
    have "is_empty_list ''[]''" by (simp add: is_empty_list_def)
    with sp dr q empty show ?thesis
      by (simp add: parse_value_def Let_def value_line_def del: drop_eq_Nil drop_eq_Nil2)
  qed
qed

lemma below_rows: "below i rest \<Longrightarrow> below (i + 2) (number l (rows_of i (D_map es)) @ rest)"
proof (cases es)
  case (Cons e es')
  show ?thesis
    using value_rows_split [of i "token (fst e)" "snd e" "rows_of (i + 2) (snd e)"] Cons
    by (auto simp: below_def)
qed (auto simp: below_def)

lemma token_nth_0 [simp]: "(token k @ q) ! 0 = token k ! 0"
  by (simp add: nth_append)

lemma not_dash_token: "\<not> is_dash (token k @ q)"
  using token_first(5) [of k] by (simp add: is_dash_def)

text \<open>The entries of a map, and what the parser needs to read them.\<close>

definition entries_ok :: "block_parser \<Rightarrow> nat \<Rightarrow> (string \<times> doc) list \<Rightarrow> bool" where
  "entries_ok pb i es = (\<forall>e \<in> set es. fst e \<noteq> [] \<and> doc_ok (snd e) \<and> reads pb i (snd e))"

abbreviation entry_node :: "nat \<Rightarrow> string \<times> doc \<Rightarrow> string \<times> nat \<times> suite_node" where
  "entry_node l e \<equiv> (fst e, l, node_of (value_line l (snd e)) (snd e))"

lemma map_has_eq: "map_has es key = (key \<in> fst ` set es)"
  by (auto simp: map_has_def list_ex_iff)

lemma parse_entry_rows:
  assumes "fst e \<noteq> []" "doc_ok (snd e)" "reads pb (i + 2) (snd e)" "below (i + 2) rest" "fst e \<notin> fst ` set acc"
    and b: "value_rows i (token (fst e)) (snd e) (rows_of (i + 2) (snd e)) = (i, b) # rs"
  shows "parse_entry pb acc i \<lparr>body = b, lno = l, indent = i\<rparr> (number (l + 1) rs @ rest) =
    Ok (acc @ [entry_node l e], rest)"
proof -
  obtain q where q: "b = token (fst e) @ COLON # q" "q = [] \<or> hd q = SP"
    using value_rows_split [of i "token (fst e)" "snd e" "rows_of (i + 2) (snd e)"] b by auto
  let ?ln = "\<lparr>body = b, lno = l, indent = i\<rparr>"
  have "parse_value pb ?ln (Suc (length (token (fst e)))) i True (number (lno ?ln + 1) rs @ rest) =
      Ok (node_of (value_line (lno ?ln) (snd e)) (snd e), rest)"
    using assms(2-4) b q(1) by (intro parse_value_rows [where j = "i + 2" and q = q and k = "token (fst e)" and i = i]) auto
  with assms(1,5) q token_first(4) [of "fst e"] show ?thesis
    by (simp add: parse_entry_def parse_key_token map_has_eq)
qed

lemma parse_map_rows:
  assumes "entries_ok pb (i + 2) es" "distinct (map fst acc @ map fst es)" "below i rest"
    "length (rows_of i (D_map es)) < fuel"
  shows "parse_map_body fuel pb acc i (number l (rows_of i (D_map es)) @ rest) =
    Ok (acc @ place entry_node value_height l es, rest)"
  using assms
proof (induction es arbitrary: acc l fuel)
  case Nil
  then show ?case by (cases fuel; cases rest) (auto simp: below_def)
next
  case (Cons e es)
  let ?R = "rows_of (i + 2) (snd e)"
  obtain q rs where r: "value_rows i (token (fst e)) (snd e) ?R = (i, token (fst e) @ COLON # q) # rs"
    using value_rows_split [of i "token (fst e)" "snd e" ?R] by auto
  have h: "Suc (length rs) = value_height e" using r value_height [of i _ e "i + 2"] by (metis length_Cons)
  obtain f where f: "fuel = Suc f" using Cons.prems(4) by (cases fuel) auto
  let ?rest = "number (l + value_height e) (rows_of i (D_map es)) @ rest"
  have "parse_entry pb acc i \<lparr>body = token (fst e) @ COLON # q, lno = l, indent = i\<rparr> (number (l + 1) rs @ ?rest) =
      Ok (acc @ [entry_node l e], ?rest)"
    using Cons.prems r below_rows [of i rest] by (intro parse_entry_rows) (auto simp: entries_ok_def)
  moreover have "parse_map_body f pb (acc @ [entry_node l e]) i ?rest =
      Ok ((acc @ [entry_node l e]) @ place entry_node value_height (l + value_height e) es, rest)"
    using Cons.prems f r by (intro Cons.IH) (auto simp: entries_ok_def)
  ultimately show ?case using f r h [symmetric]
    by (simp add: number_append not_dash_token)
qed

lemma parse_inline_rows:
  assumes ok: "entries_ok pb (i + 4) (e # es)" "distinct (map fst (e # es))" "below (i + 1) rest"
    and r: "value_rows (i + 2) (token (fst e)) (snd e) (rows_of (i + 4) (snd e)) = (i + 2, b) # rs"
    and fuel: "length (rows_of (i + 2) (D_map es)) < fuel"
  shows "parse_inline fuel pb \<lparr>body = ''- '' @ b, lno = l, indent = i\<rparr> 2 i
      (number (l + 1) (rs @ rows_of (i + 2) (D_map es)) @ rest) = Ok (node_of l (D_map (e # es)), rest)"
proof -
  let ?ln = "\<lparr>body = ''- '' @ b, lno = l, indent = i\<rparr>"
  let ?k = "token (fst e)"
  let ?rest = "number (l + value_height e) (rows_of (i + 2) (D_map es)) @ rest"
  obtain q where q: "b = ?k @ COLON # q" "q = [] \<or> hd q = SP"
    using value_rows_split [of "i + 2" ?k "snd e" "rows_of (i + 4) (snd e)"] r by auto
  have h: "Suc (length rs) = value_height e"
    using r value_height [of "i + 2" ?k e "i + 4"] by (metis length_Cons)
  then have ls: "number (l + 1) (rs @ rows_of (i + 2) (D_map es)) @ rest = number (lno ?ln + 1) rs @ ?rest"
    by (simp add: number_append add.assoc [symmetric] flip: h)
  have key: "parse_key (drop 2 (body ?ln)) l (i + 2 + 1) (i + 2 + 1) = Ok (fst e, length ?k + 1)"
    using q ok(1) by (simp add: parse_key_token entries_ok_def)
  have "below (i + 2) rest" using ok(3) by (rule below_mono) simp
  then have "below (i + 4) ?rest" using below_rows [of "i + 2" rest "l + value_height e" es]
    by (simp add: numeral_eq_Suc del: rows_of.simps)
  then have "parse_value pb ?ln (Suc (length (''- '' @ ?k))) i False (number (lno ?ln + 1) rs @ ?rest) =
      Ok (node_of (value_line (lno ?ln) (snd e)) (snd e), ?rest)"
    using ok(1) r q(1)
    by (intro parse_value_rows [where j = "i + 4" and q = q and k = ?k and i = "i + 2"]) (auto simp: entries_ok_def)
  then have v: "parse_value pb ?ln (2 + (length ?k + 1)) i False (number (l + 1) (rs @ rows_of (i + 2) (D_map es)) @ rest) =
      Ok (node_of (value_line l (snd e)) (snd e), ?rest)"
    unfolding ls by simp
  show ?thesis
  proof (cases es)
    case Nil
    with key v ok(3) show ?thesis
      by (cases rest) (auto simp: parse_inline_def below_def simp del: append_Cons)
  next
    case (Cons e2 es2)
    then obtain b2 rs2 where r2: "rows_of (i + 2) (D_map es) = (i + 2, b2) # rs2"
      using value_rows_split [of "i + 2" "token (fst e2)" "snd e2" "rows_of (i + 2 + 2) (snd e2)"] by auto
    have "entries_ok pb (i + 2 + 2) es" using ok(1) by (simp add: entries_ok_def numeral_eq_Suc)
    from parse_map_rows [OF this _ \<open>below (i + 2) rest\<close> fuel, of "[entry_node l e]"]
    have "parse_map_body fuel pb [entry_node l e] (i + 2) ?rest =
        Ok ([entry_node l e] @ place entry_node value_height (l + value_height e) es, rest)"
      using ok(2) by simp
    with key v r2 show ?thesis
      by (simp add: parse_inline_def del: rows_of.simps)
  qed
qed

text \<open>The items of a list, and what the parser needs to read them.\<close>

definition item_ok :: "block_parser \<Rightarrow> nat \<Rightarrow> doc \<Rightarrow> bool" where
  "item_ok pb i v =
     (doc_ok v \<and> (case v of D_map es \<Rightarrow> entries_ok pb (i + 4) es | _ \<Rightarrow> reads pb (i + 2) v))"

abbreviation item_node :: "nat \<Rightarrow> doc \<Rightarrow> suite_node" where
  "item_node l v \<equiv> node_of (item_line l v) v"

lemma dash_body:
  assumes "b \<noteq> []" "b ! 0 \<noteq> SP"
  shows "is_dash (''- '' @ b)" "1 + spaces_from (''- '' @ b) 1 = 2"
  using assms by (cases b; simp add: is_dash_def spaces_from_def)+

lemma key_end_token:
  "key_end (token k @ COLON # q) 0 \<noteq> None \<or> \<not> plain_text k" if "q = [] \<or> hd q = SP"
  using that by (auto simp: token_def key_end_plain plain_text_def)

lemma parse_item_rows:
  assumes ok: "item_ok pb i v" "below (i + 1) rest" "length rs < fuel"
    and r: "item_rows i v (rows_of (i + 2) v) = (i, b) # rs"
  shows "is_dash b"
    "parse_item fuel pb i \<lparr>body = b, lno = l, indent = i\<rparr> (number (l + 1) rs @ rest) = Ok (item_node l v, rest)"
proof -
  have "is_dash b \<and>
    parse_item fuel pb i \<lparr>body = b, lno = l, indent = i\<rparr> (number (l + 1) rs @ rest) = Ok (item_node l v, rest)"
  proof (cases v)
    case (D_text s)
    with r have b: "b = ''- '' @ token s" "rs = []" by (auto simp: item_rows_def)
    note d = dash_body [of "token s"]
    have "\<not> is_empty_list (token s)" using token_first [of s] by (simp add: is_empty_list_def)
    moreover have "\<not> starts_key (token s)"
    proof (cases "plain_text s")
      case True
      then have p: "list_all plain_char s" "s \<noteq> []" by (auto simp: plain_text_def)
      then have "\<not> is_quote (s ! 0)" by (cases s) (simp_all add: plain_charD)
      with True key_end_plain [OF p(1), of "[]" 0] show ?thesis by (simp add: token_def starts_key_def)
    next
      case False
      with skip_quoted_token [of "[]" s "[]"] show ?thesis by (simp add: token_def is_quote_def starts_key_def)
    qed
    ultimately show ?thesis using b d D_text token_first(9)
      by (simp add: parse_item_def parse_scalar_token item_line_def del: append_Cons)
  next
    case (D_list vs)
    show ?thesis
    proof (cases "vs = []")
      case True
      with D_list r have "b = ''- '' @ ''[]''" "rs = []" by (auto simp: item_rows_def)
      with dash_body [of "''[]''"] D_list True show ?thesis
        by (simp add: parse_item_def is_empty_list_def item_line_def del: append_Cons)
    next
      case False
      with D_list r have b: "b = ''-''" "rs = rows_of (i + 2) v" by (auto simp: item_rows_def)
      from False D_list ok(1) have v: "is_block v" "doc_ok v" "reads pb (i + 2) v" by (auto simp: item_ok_def)
      from rows_of_hd [OF v(1,2)] obtain c rs' where c: "rows_of (i + 2) v = (i + 2, c) # rs'" by blast
      have "below (i + 2) rest" using ok(2) by (rule below_mono) simp
      with v have "pb (i + 2) (number (l + 1) rs @ rest) = Ok (node_of (l + 1) v, rest)"
        using b by (simp add: reads_def)
      moreover have "item_line l v = l + 1" using D_list False by (cases vs) (auto simp: item_line_def)
      ultimately show ?thesis using b c by (simp add: parse_item_def is_dash_def spaces_from_def)
    qed
  next
    case (D_map es)
    with ok(1) obtain e es' where es: "es = e # es'" by (cases es) (auto simp: item_ok_def)
    obtain q rs1 where q: "value_rows (i + 2) (token (fst e)) (snd e) (rows_of (i + 4) (snd e)) =
        (i + 2, token (fst e) @ COLON # q) # rs1" "q = [] \<or> hd q = SP"
      using value_rows_split [of "i + 2" "token (fst e)" "snd e" "rows_of (i + 4) (snd e)"] by auto
    let ?b = "token (fst e) @ COLON # q"
    have b: "b = ''- '' @ ?b" "rs = rs1 @ rows_of (i + 2) (D_map es')"
      using r q D_map es by (auto simp: item_rows_def numeral_eq_Suc)
    have "parse_inline fuel pb \<lparr>body = b, lno = l, indent = i\<rparr> 2 i (number (l + 1) rs @ rest) = Ok (node_of l v, rest)"
      unfolding b D_map es
      using ok D_map es b(2) q by (intro parse_inline_rows) (auto simp: item_ok_def)
    moreover have "\<not> is_empty_list ?b" using token_first [of "fst e"] by (simp add: is_empty_list_def)
    moreover have "starts_key ?b"
    proof (cases "plain_text (fst e)")
      case True
      then have "list_all plain_char (fst e)" "fst e \<noteq> []" by (auto simp: plain_text_def)
      moreover from this have "\<not> is_quote (fst e ! 0)" by (cases "fst e") (simp_all add: plain_charD)
      ultimately show ?thesis using True q(2) by (cases q) (auto simp: token_def nth_append key_end_plain starts_key_def)
    next
      case False
      have "spaces_from (DQ # escaped (fst e) @ DQ # COLON # q) (length (DQ # escaped (fst e) @ [DQ])) = 0"
        by (simp add: spaces_from_def)
      with False skip_quoted_token [of "[]" "fst e" "COLON # q"] show ?thesis
        by (simp add: token_def is_quote_def nth_append starts_key_def)
    qed
    ultimately show ?thesis using b(1) dash_body [of ?b] D_map token_first(9) [of "fst e"]
      by (simp add: parse_item_def item_line_def numeral_2_eq_2 del: append_Cons)
  qed
  then show "is_dash b"
    "parse_item fuel pb i \<lparr>body = b, lno = l, indent = i\<rparr> (number (l + 1) rs @ rest) = Ok (item_node l v, rest)"
    by auto
qed

lemma item_rows_Cons:
  assumes "doc_ok v"
  shows "\<exists>b rs. item_rows i v (rows_of (i + 2) v) = (i, b) # rs"
proof -
  have "is_block (D_list [v])" "doc_ok (D_list [v])" using assms by auto
  from rows_of_hd [OF this, of i] show ?thesis by simp
qed

lemma list_below:
  assumes "\<forall>v \<in> set vs. doc_ok v" "below i rest"
  shows "below (i + 1) (number l (rows_of i (D_list vs)) @ rest)"
proof (cases vs)
  case (Cons v vs')
  with assms item_rows_Cons [of v i] show ?thesis by (auto simp: below_def)
qed (use assms in \<open>auto simp: below_def\<close>)

lemma parse_list_rows:
  assumes "\<forall>v \<in> set vs. item_ok pb i v" "below i rest" "length (rows_of i (D_list vs)) < fuel"
  shows "parse_list fuel pb acc i (number l (rows_of i (D_list vs)) @ rest) =
    Ok (acc @ place item_node item_height l vs, rest)"
  using assms
proof (induction vs arbitrary: acc l fuel)
  case Nil
  then show ?case by (cases fuel; cases rest) (auto simp: below_def)
next
  case (Cons v vs)
  then have ok: "doc_ok v" "\<forall>v \<in> set vs. doc_ok v" by (auto simp: item_ok_def)
  obtain b rs where r: "item_rows i v (rows_of (i + 2) v) = (i, b) # rs" using item_rows_Cons ok(1) by blast
  have h: "Suc (length rs) = item_height v" using r item_height [of i v "i + 2"] by (metis length_Cons)
  obtain f where f: "fuel = Suc f" using Cons.prems(3) by (cases fuel) auto
  let ?rest = "number (l + item_height v) (rows_of i (D_list vs)) @ rest"
  have "below (i + 1) ?rest" using ok(2) Cons.prems(2) by (rule list_below)
  then have "is_dash b"
    "parse_item f pb i \<lparr>body = b, lno = l, indent = i\<rparr> (number (l + 1) rs @ ?rest) = Ok (item_node l v, ?rest)"
    using parse_item_rows(1) [of pb i v ?rest rs f b] parse_item_rows(2) [of pb i v ?rest rs f b l]
      Cons.prems r f by simp_all
  moreover have "parse_list f pb (acc @ [item_node l v]) i ?rest =
      Ok ((acc @ [item_node l v]) @ place item_node item_height (l + item_height v) vs, rest)"
    using Cons.prems f r by (intro Cons.IH) auto
  ultimately show ?case using f r h [symmetric] by (simp add: number_append)
qed

section \<open>Blocks\<close>

lemma height_map: "e \<in> set es \<Longrightarrow> height (snd e) < height (D_map es)"
  by (simp add: less_Suc_eq_le)

lemma height_list: "v \<in> set vs \<Longrightarrow> height v < height (D_list vs)"
  by (simp add: less_Suc_eq_le)

lemma length_concat_member: "x \<in> set xs \<Longrightarrow> length (f x) \<le> length (concat (map f xs))"
  by (induction xs) auto

lemma rows_map_member:
  assumes "e \<in> set es" "is_block (snd e)"
  shows "length (rows_of (i + 2) (snd e)) < length (rows_of i (D_map es))"
proof -
  have "length (value_rows i (token (fst e)) (snd e) (rows_of (i + 2) (snd e))) \<le> length (rows_of i (D_map es))"
    using length_concat_member [OF assms(1), of "\<lambda>e. value_rows i (token (fst e)) (snd e) (rows_of (i + 2) (snd e))"]
    by simp
  with assms(2) show ?thesis by (cases "snd e") (auto simp: value_rows_def)
qed

lemma rows_list_member:
  assumes "v \<in> set vs" "is_block v"
  shows "(case v of D_map es \<Rightarrow> length (rows_of (i + 2) v) | _ \<Rightarrow> Suc (length (rows_of (i + 2) v)))
    \<le> length (rows_of i (D_list vs))"
proof -
  have "length (item_rows i v (rows_of (i + 2) v)) \<le> length (rows_of i (D_list vs))"
    using length_concat_member [OF assms(1), of "\<lambda>v. item_rows i v (rows_of (i + 2) v)"] by simp
  with assms(2) show ?thesis
    by (cases v; cases "rows_of (i + 2) v") (auto simp: item_rows_def simp del: rows_of.simps)
qed

lemma parse_block_reads:
  assumes "doc_ok t" "d + height t \<le> kMaxDepth" "length (rows_of i t) + 2 \<le> f"
  shows "reads (parse_block f d) i t"
  using assms
proof (induction "height t" arbitrary: t d f i rule: less_induct)
  case less
  show ?case unfolding reads_def
  proof (intro impI allI)
    fix l rest
    assume blk: "is_block t" and rest: "below i rest"
    obtain f' where f: "f = Suc f'" "length (rows_of i t) < f'" using less.prems(3) by (cases f) auto
    from less.prems(2) have d: "\<not> kMaxDepth \<le> d" using blk by (cases t) auto
    obtain b rs where r: "rows_of i t = (i, b) # rs" using rows_of_hd blk less.prems(1) by blast
    show "parse_block f d i (number l (rows_of i t) @ rest) = Ok (node_of l t, rest)"
    proof (cases t)
      case (D_map es)
      have "reads (parse_block f' (d + 1)) (i + 2) (snd e)" if "e \<in> set es" for e
      proof (cases "is_block (snd e)")
        case True
        with that D_map less.prems f rows_map_member [OF that True, of i] height_map [OF that] show ?thesis
          by (intro less.hyps) auto
      qed (simp add: reads_def)
      then have "entries_ok (parse_block f' (d + 1)) (i + 2) es"
        using less.prems(1) D_map by (auto simp: entries_ok_def)
      from parse_map_rows [OF this, of "[]" rest f' l] rest f D_map less.prems(1)
      have p: "parse_map_body f' (parse_block f' (d + 1)) [] i (number l (rows_of i t) @ rest) =
          Ok (place entry_node value_height l es, rest)"
        by simp
      from D_map less.prems(1) obtain e es' where es: "es = e # es'" by (cases es) auto
      with value_rows_split [of i "token (fst e)" "snd e" "rows_of (i + 2) (snd e)"] r D_map
      obtain q where "b = token (fst e) @ COLON # q" by auto
      then have "\<not> is_dash b" by (simp add: not_dash_token)
      with p r f d D_map show ?thesis by simp
    next
      case (D_list vs)
      have item: "item_ok (parse_block f' (d + 1)) i v" if v: "v \<in> set vs" for v
      proof (cases v)
        case (D_map es)
        note m = D_map
        have "reads (parse_block f' (d + 1)) (i + 4) (snd e)" if e: "e \<in> set es" for e
        proof (cases "is_block (snd e)")
          case True
          have "length (rows_of (i + 2 + 2) (snd e)) < length (rows_of i t)"
            using rows_map_member [OF e True, of "i + 2"] rows_list_member [OF v, of i] m D_list by simp
          then show ?thesis using True less.prems D_list f e v m height_map [OF e] height_list [OF v]
            by (intro less.hyps) (auto simp: numeral_eq_Suc)
        qed (simp add: reads_def)
        moreover have "doc_ok v" using less.prems(1) D_list v by simp
        ultimately show ?thesis using m by (auto simp: item_ok_def entries_ok_def)
      next
        case (D_list us)
        have "reads (parse_block f' (d + 1)) (i + 2) v"
        proof (cases "is_block v")
          case True
          have "length (rows_of (i + 2) v) < length (rows_of i t)"
            using rows_list_member [OF v True, of i] D_list \<open>t = D_list vs\<close> by simp
          then show ?thesis using True less.prems \<open>t = D_list vs\<close> f v height_list [OF v]
            by (intro less.hyps) auto
        qed (simp add: reads_def)
        then show ?thesis using D_list less.prems(1) \<open>t = D_list vs\<close> v by (auto simp: item_ok_def)
      next
        case (D_text s)
        then show ?thesis using less.prems(1) D_list v by (auto simp: item_ok_def reads_def)
      qed
      have p: "parse_list f' (parse_block f' (d + 1)) [] i (number l (rows_of i t) @ rest) =
          Ok (place item_node item_height l vs, rest)"
        using parse_list_rows [of vs "parse_block f' (d + 1)" i rest f' "[]" l] item rest f D_list by simp
      from D_list blk obtain v vs' where vs: "vs = v # vs'" by (cases vs) auto
      with less.prems(1) D_list have "doc_ok v" by auto
      then obtain b' rs' where b: "item_rows i v (rows_of (i + 2) v) = (i, b') # rs'"
        using item_rows_Cons by blast
      with r D_list vs have "b' = b" by simp
      have "is_dash b"
        using b parse_item_rows(1) [OF item _ _ b, of "[]" "Suc (length rs')"] vs by (simp add: below_def \<open>b' = b\<close>)
      with p r f d D_list show ?thesis by simp
    qed (use blk in simp)
  qed
qed

section \<open>From text to rows\<close>

text \<open>What the comment scan passes over without stopping.\<close>

definition scrubs :: "string \<Rightarrow> bool" where
  "scrubs x =
     (\<forall>line ind p q. scrub_from line ind (p @ x @ q) (length p) = scrub_from line ind (p @ x @ q) (length (p @ x)))"

lemma scrubs_append: "scrubs x \<Longrightarrow> scrubs y \<Longrightarrow> scrubs (x @ y)"
  unfolding scrubs_def by (metis append.assoc length_append)

text \<open>Characters that mean nothing to the scan.\<close>

definition calm :: "char \<Rightarrow> bool" where
  "calm c = (\<not> is_quote c \<and> c \<noteq> CHR ''#'' \<and> c \<noteq> TAB \<and> (of_char c :: nat) \<ge> 0x20)"

lemma scrubs_calm: "list_all calm x \<Longrightarrow> scrubs x"
proof (induction x)
  case (Cons c x)
  then have x: "scrubs x" and c: "calm c" by auto
  have "scrubs [c]"
    using c unfolding scrubs_def by (subst scrub_from.simps) (simp add: calm_def nth_append)
  from scrubs_append [OF this x] show ?case by simp
qed (simp add: scrubs_def)

lemma scrubs_quoted: "scrubs (DQ # escaped s @ [DQ])"
  unfolding scrubs_def
proof (intro allI)
  fix line ind and p q :: string
  let ?t = "p @ (DQ # escaped s @ [DQ]) @ q"
  have "skip_quoted ?t (length p) = Some (length (p @ DQ # escaped s @ [DQ]))"
    using skip_quoted_token [of p s q] by simp
  then show "scrub_from line ind ?t (length p) = scrub_from line ind ?t (length (p @ (DQ # escaped s @ [DQ])))"
    by (subst scrub_from.simps) (simp add: is_quote_def nth_append Let_def)
qed

lemma plain_calm: "plain_char c \<Longrightarrow> calm c"
  by (simp add: calm_def plain_charD)

lemma scrubs_token: "scrubs (token s)"
  using scrubs_quoted scrubs_calm plain_calm
  by (auto simp: token_def plain_text_def list_all_iff)

lemma escaped_chars: "list_all text_char s \<Longrightarrow> \<forall>c \<in> set (escaped s). (of_char c :: nat) \<ge> 0x20"
  by (induction s) (auto simp: text_char_def)

lemma token_chars: "list_all text_char s \<Longrightarrow> \<forall>c \<in> set (token s). (of_char c :: nat) \<ge> 0x20"
  using escaped_chars [of s] by (auto simp: token_def plain_text_def list_all_iff plain_charD)

lemma last_token: "last (token s) \<noteq> SP \<and> last (token s) \<noteq> TAB"
proof (cases "plain_text s")
  case True
  then have "plain_char (last s)" by (auto simp: plain_text_def list_all_iff)
  with True show ?thesis by (simp add: token_def plain_charD)
qed (simp add: token_def)

text \<open>The rest of a line that \<open>take_line\<close> keeps as it is.\<close>

definition good_body :: "string \<Rightarrow> bool" where
  "good_body b =
     (b \<noteq> [] \<and> scrubs b \<and> b ! 0 \<noteq> SP \<and> b ! 0 \<noteq> TAB \<and> b ! 0 \<noteq> CHR ''#'' \<and> b ! 0 \<noteq> CHR ''%'' \<and>
      last b \<noteq> SP \<and> last b \<noteq> TAB \<and> (\<forall>c \<in> set b. (of_char c :: nat) \<ge> 0x20))"

lemma calm_marks: "list_all calm '': ''" "list_all calm '': []''" "list_all calm '':''"
  "list_all calm ''- ''" "list_all calm ''- []''" "list_all calm ''-''"
  by (simp_all add: calm_def is_quote_def)

lemma good_value:
  assumes "list_all text_char k" "doc_ok v" "\<forall>r \<in> set rs. good_body (snd r)"
  shows "\<forall>r \<in> set (value_rows i (token k) v rs). good_body (snd r)"
proof -
  note k = token_first [of k] token_chars [OF assms(1)] scrubs_token [of k]
  have "good_body (token k @ '': '' @ token s)" if "list_all text_char s" for s
    using k token_chars [OF that] last_token [of s] scrubs_token [of s] scrubs_calm [OF calm_marks(1)]
    by (auto simp: good_body_def intro!: scrubs_append simp del: append_Cons)
  moreover have "good_body (token k @ '': []'')"
    using k scrubs_calm [OF calm_marks(2)] by (auto simp: good_body_def intro!: scrubs_append)
  moreover have "good_body (token k @ '':'')"
    using k scrubs_calm [OF calm_marks(3)] by (auto simp: good_body_def intro!: scrubs_append)
  ultimately show ?thesis using assms(2,3) by (cases v) (auto simp: value_rows_def)
qed

lemma good_item:
  assumes "doc_ok v" "\<forall>r \<in> set rs. good_body (snd r)"
  shows "\<forall>r \<in> set (item_rows i v rs). good_body (snd r)"
proof -
  have "good_body (''- '' @ b)" if b: "scrubs b" "b \<noteq> []" "last b \<noteq> SP" "last b \<noteq> TAB" "\<forall>c \<in> set b. (of_char c :: nat) \<ge> 0x20" for b
    using b scrubs_append [OF scrubs_calm [OF calm_marks(4)] b(1)] by (auto simp: good_body_def)
  note pre = this
  have "good_body (''- '' @ token s)" if "list_all text_char s" for s
    using token_chars [OF that] last_token [of s] scrubs_token [of s] by (intro pre) auto
  moreover have "good_body (''- '' @ b)" if "good_body b" for b
    using that by (intro pre) (auto simp: good_body_def)
  moreover have "good_body ''- []''" "good_body ''-''"
    using scrubs_calm calm_marks(5,6) by (auto simp: good_body_def)
  ultimately show ?thesis using assms
    by (cases v; cases rs) (auto simp: item_rows_def)
qed

lemma good_rows: "doc_ok t \<Longrightarrow> \<forall>r \<in> set (rows_of i t). good_body (snd r)"
proof (induction t arbitrary: i)
  case (D_map es)
  have "\<forall>r \<in> set (value_rows i (token (fst e)) (snd e) (rows_of (i + 2) (snd e))). good_body (snd r)"
    if "e \<in> set es" for e
    using D_map that by (intro good_value) auto
  then show ?case by auto
next
  case (D_list vs)
  have "\<forall>r \<in> set (item_rows i v (rows_of (i + 2) v)). good_body (snd r)" if "v \<in> set vs" for v
    using D_list that by (intro good_item) auto
  then show ?case by auto
qed simp

lemma no_control:
  assumes "\<forall>c \<in> set b. (of_char c :: nat) \<ge> 0x20"
  shows "NL \<notin> set (replicate i SP @ b)" "CR \<notin> set (replicate i SP @ b)" "NUL \<notin> set (replicate i SP @ b)"
  using assms by force+

lemma scrub_good: "good_body b \<Longrightarrow> scrub_line line ind b = Ok b"
proof -
  assume g: "good_body b"
  then have "scrubs b" by (simp add: good_body_def)
  from this [unfolded scrubs_def, rule_format, of line ind "[]" "[]"]
  have "scrub_from line ind b 0 = scrub_from line ind b (length b)" by simp
  also have "\<dots> = Ok (length b)" by (subst scrub_from.simps) simp
  finally have s: "scrub_from line ind b 0 = Ok (length b)" .
  from g obtain c b' where "b = b' @ [c]" "\<not> blank_char c"
    by (cases b rule: rev_cases) (auto simp: good_body_def blank_char_def)
  with s show ?thesis by (simp add: scrub_line_def)
qed

lemma take_line_row:
  assumes g: "good_body b" and n: "i + length b \<le> kMaxLine"
  shows "take_line (row_text (i, b)) line = Ok (Some \<lparr>body = b, lno = line, indent = i\<rparr>)"
proof -
  let ?raw = "replicate i SP @ b"
  have b: "b \<noteq> []" "b ! 0 \<noteq> SP" "b ! 0 \<noteq> TAB" "b ! 0 \<noteq> CHR ''#''" "b ! 0 \<noteq> CHR ''%''"
    using g by (auto simp: good_body_def)
  have cr: "CR \<notin> set ?raw" using g no_control(2) unfolding good_body_def by blast
  then have l: "last ?raw \<noteq> CR" using b(1) by (metis append_is_Nil_conv last_in_set)
  have f: "first_at (\<lambda>c. c = CR) ?raw = None" using cr by (auto simp: first_at_None)
  have tw: "takeWhile (\<lambda>c. c = SP) ?raw = replicate i SP"
    using b(1,2) by (cases b) (auto simp: takeWhile_append)
  have nb: "\<not> list_all blank_char b" using b by (cases b) (auto simp: blank_char_def)
  show ?thesis
    using b n l f tw nb scrub_good [OF g]
    by (simp add: take_line_def row_text_def Let_def)
qed

lemma split_nl_row: "NL \<notin> set x \<Longrightarrow> split_nl acc (x @ NL # y) = (acc @ x) # split_nl [] y"
  by (induction x arbitrary: acc) auto

lemma split_nl_rows:
  "\<forall>r \<in> set rs. NL \<notin> set (row_text r) \<Longrightarrow>
   split_nl [] (concat (map (\<lambda>r. row_text r @ [NL]) rs)) = map row_text rs @ [[]]"
  by (induction rs) (auto simp: split_nl_row)

lemma take_lines_rows:
  "\<forall>r \<in> set rs. good_body (snd r) \<and> fst r + length (snd r) \<le> kMaxLine \<Longrightarrow>
   take_lines l (map row_text rs @ [[]]) = Ok (number l rs)"
proof (induction l rs rule: number.induct)
  case (1 l)
  show ?case by (simp add: take_line_def)
next
  case (2 l i b rs)
  then show ?case using take_line_row [of b i l] by simp
qed

section \<open>Round trip\<close>

text \<open>The tree without its lines.\<close>

fun doc_of :: "suite_node \<Rightarrow> doc" where
  "doc_of (Suite_Map l es) = D_map (map (\<lambda>e. (fst e, doc_of (snd (snd e)))) es)"
| "doc_of (Suite_List l ns) = D_list (map doc_of ns)"
| "doc_of (Suite_Scalar l s) = D_text s"

lemma map_place:
  "(\<And>l x. x \<in> set xs \<Longrightarrow> g (f l x) = k x) \<Longrightarrow> map g (place f h l xs) = map k xs"
  by (induction xs arbitrary: l) auto

lemma doc_of_node: "doc_of (node_of l t) = t"
proof (induction t arbitrary: l)
  case (D_map es)
  then show ?case by (simp add: map_place [where k = "\<lambda>e. e"])
next
  case (D_list vs)
  then show ?case by (simp add: map_place [where k = "\<lambda>v. v"])
qed simp

definition lines_fit :: "doc \<Rightarrow> bool" where
  "lines_fit t = list_all (\<lambda>r. fst r + length (snd r) \<le> kMaxLine) (rows_of 0 t)"

lemma parse_rows:
  assumes "doc_ok t" "is_block t" "height t \<le> kMaxDepth" "lines_fit t"
  shows "suite_parse (render t) = Ok (node_of 1 t)"
proof -
  let ?rs = "rows_of 0 t"
  have good: "\<forall>r \<in> set ?rs. good_body (snd r)" using good_rows assms(1) .
  then have ctl: "\<forall>r \<in> set ?rs. NL \<notin> set (row_text r) \<and> NUL \<notin> set (row_text r)"
    using no_control unfolding good_body_def row_text_def by metis
  then have "NUL \<notin> set (render t)" by (auto simp: render_def)
  then have nul: "first_at (\<lambda>c. c = NUL) (render t) = None" by (auto simp: first_at_None)
  have sp: "split_nl [] (render t) = map row_text ?rs @ [[]]"
    unfolding render_def using ctl by (intro split_nl_rows) blast
  have ls: "take_lines 1 (split_nl [] (render t)) = Ok (number 1 ?rs)"
    unfolding sp using good assms(4) by (intro take_lines_rows) (auto simp: lines_fit_def list_all_iff)
  obtain b rs where r: "?rs = (0, b) # rs" using rows_of_hd assms(1,2) by blast
  have "reads (parse_block (length ?rs + 2) 0) 0 t"
    using assms by (intro parse_block_reads) auto
  then have "parse_block (length ?rs + 2) 0 0 (number 1 ?rs @ []) = Ok (node_of 1 t, [])"
    using assms(2) unfolding reads_def by (simp add: below_def)
  with nul ls r show ?thesis by (simp add: suite_parse_def)
qed

section \<open>Lines of a narrow document fit\<close>

fun narrow :: "nat \<Rightarrow> doc \<Rightarrow> bool" where
  "narrow m (D_map es) = (\<forall>e \<in> set es. length (fst e) \<le> m \<and> narrow m (snd e))"
| "narrow m (D_list vs) = (\<forall>v \<in> set vs. narrow m v)"
| "narrow m (D_text s) = (length s \<le> m)"

lemma token_length: "length (token s) \<le> 2 * length s + 2"
proof -
  have "length (escaped s) \<le> 2 * length s" by (induction s) auto
  then show ?thesis by (simp add: token_def)
qed

lemma rows_width:
  "narrow m t \<Longrightarrow> \<forall>r \<in> set (rows_of i t). fst r + length (snd r) \<le> i + 2 * height t + 4 * m + 8"
proof (induction t arbitrary: i)
  case (D_map es)
  have "fst r + length (snd r) \<le> i + 2 * height (D_map es) + 4 * m + 8"
    if e: "e \<in> set es" and r: "r \<in> set (value_rows i (token (fst e)) (snd e) (rows_of (i + 2) (snd e)))" for e r
  proof -
    have k: "length (token (fst e)) \<le> 2 * m + 2" "narrow m (snd e)"
      using token_length [of "fst e"] D_map.prems e by fastforce+
    have s: "length (token s) \<le> 2 * m + 2" if "snd e = D_text s" for s
      using token_length [of s] k(2) that by simp
    have "fst r' + length (snd r') \<le> i + 2 * height (D_map es) + 4 * m + 8"
      if "r' \<in> set (rows_of (i + 2) (snd e))" for r'
      using D_map.IH [OF e k(2), of "i + 2"] height_map [OF e] that by fastforce
    with r k s show ?thesis
      by (cases "snd e") (auto simp: value_rows_def split: if_splits simp del: rows_of.simps height.simps narrow.simps)
  qed
  then show ?case by auto
next
  case (D_list vs)
  have "fst r + length (snd r) \<le> i + 2 * height (D_list vs) + 4 * m + 8"
    if v: "v \<in> set vs" and r: "r \<in> set (item_rows i v (rows_of (i + 2) v))" for v r
  proof -
    have n: "narrow m v" using D_list.prems v by simp
    have s: "length (token s) \<le> 2 * m + 2" if "v = D_text s" for s
      using token_length [of s] n that by simp
    have b: "fst r' + length (snd r') \<le> i + 2 * height (D_list vs) + 4 * m + 8"
      if "r' \<in> set (rows_of (i + 2) v)" for r'
      using D_list.IH [OF v n, of "i + 2"] height_list [OF v] that by fastforce
    show ?thesis
    proof (cases v)
      case (D_map es)
      with r obtain j c rs where "rows_of (i + 2) v = (j, c) # rs" "r = (i, ''- '' @ c) \<or> r \<in> set rs"
        by (cases "rows_of (i + 2) v") (auto simp: item_rows_def simp del: rows_of.simps)
      moreover have "j = i + 2"
      proof -
        obtain e es' where "es = e # es'" using calculation(1) D_map by (cases es) auto
        with calculation(1) D_map value_rows_split [of "i + 2" "token (fst e)" "snd e" "rows_of (i + 2 + 2) (snd e)"]
        show ?thesis by auto
      qed
      ultimately show ?thesis using b [of "(j, c)"] b [of r] by auto
    qed (use r s b in \<open>auto simp: item_rows_def split: if_splits simp del: rows_of.simps height.simps narrow.simps\<close>)
  qed
  then show ?case by auto
qed simp

lemma narrow_fits: "narrow m t \<Longrightarrow> 2 * height t + 4 * m + 8 \<le> kMaxLine \<Longrightarrow> lines_fit t"
  using rows_width [of m t 0] by (fastforce simp: lines_fit_def list_all_iff)

text \<open>
  C14. The parser reads every document back from its rendering: maps with distinct keys, lists
  and scalars, nested to the depth the parser allows, with any text in keys and scalars that
  has no control characters other than newline, tab and carriage return (those and quotes and
  backslashes are escaped). The tree has the document's shape and texts, and each node the line
  on which it starts.
\<close>

theorem parse_render:
  assumes "doc_ok t" "is_block t" "height t \<le> kMaxDepth" "lines_fit t"
  shows "suite_parse (render t) = Ok (node_of 1 t) \<and> doc_of (node_of 1 t) = t"
  using parse_rows [OF assms] doc_of_node by simp

theorem parse_render_witness:
  "suite_parse (''name: '' @ [DQ] @ ''a b'' @ [DQ, NL] @ ''list:'' @ [NL] @ ''  - k: 1'' @ [NL] @ ''    m: []'' @ [NL] @ ''  - x'' @ [NL]) =
     Ok (Suite_Map 1
       [(''name'', 1, Suite_Scalar 1 ''a b''),
        (''list'', 2, Suite_List 3
          [Suite_Map 3 [(''k'', 3, Suite_Scalar 3 ''1''), (''m'', 4, Suite_List 4 [])], Suite_Scalar 5 ''x''])])"
proof -
  let ?t = "D_map [(''name'', D_text ''a b''),
      (''list'', D_list [D_map [(''k'', D_text ''1''), (''m'', D_list [])], D_text ''x''])]"
  have r: "render ?t = ''name: '' @ [DQ] @ ''a b'' @ [DQ, NL] @ ''list:'' @ [NL] @ ''  - k: 1'' @ [NL] @ ''    m: []'' @ [NL] @ ''  - x'' @ [NL]"
    by (simp add: render_def row_text_def value_rows_def item_rows_def token_def plain_text_def plain_char_def
        numeral_eq_Suc)
  have h: "doc_ok ?t" "is_block ?t" "height ?t \<le> kMaxDepth" "lines_fit ?t"
    by (simp_all add: text_char_def kMaxDepth_def kMaxLine_def lines_fit_def value_rows_def item_rows_def
        token_def plain_text_def plain_char_def)
  have n: "node_of 1 ?t = Suite_Map 1
       [(''name'', 1, Suite_Scalar 1 ''a b''),
        (''list'', 2, Suite_List 3
          [Suite_Map 3 [(''k'', 3, Suite_Scalar 3 ''1''), (''m'', 4, Suite_List 4 [])], Suite_Scalar 5 ''x''])]"
    by (simp add: value_line_def item_line_def value_height_def item_height_def value_rows_def item_rows_def)
  show ?thesis using parse_render [OF h] unfolding r n by blast
qed

end
