(* ===== verification/Nemesis_Gen.thy ===== *)
theory Nemesis_Gen
  imports Nemesis_Shrink Yaml_Render
begin

text \<open>
  What the generator of \<open>suite/nemesis.c\<close> promises. A schedule is a list of phases, an
  abstract document; the text that \<open>nemesis_gen\<close> writes is the rendering of a legal schedule,
  so the parser reads it back, and it passes the structural checks of the shrinker. Legal
  schedules are given by a step relation on the fault budget.
\<close>

section \<open>Numbers as text\<close>

lemma digit_char_facts:
  assumes "d < 16"
  shows "plain_char (digit_char d)" "digit_char d \<noteq> DASH" "digit_char d \<noteq> CHR ''+''"
proof -
  have "list_all (\<lambda>d. plain_char (digit_char d) \<and> digit_char d \<noteq> DASH \<and> digit_char d \<noteq> CHR ''+'') [0..<16]"
    by (simp add: upt_rec digit_char_def plain_char_def numeral_eq_Suc)
  then have "\<forall>d \<in> set [0..<16]. plain_char (digit_char d) \<and> digit_char d \<noteq> DASH \<and> digit_char d \<noteq> CHR ''+''"
    by (simp only: list_all_iff)
  with assms show "plain_char (digit_char d)" "digit_char d \<noteq> DASH" "digit_char d \<noteq> CHR ''+''" by auto
qed

lemma hd_digits: "2 \<le> b \<Longrightarrow> b \<le> 16 \<Longrightarrow> hd (digits b n) \<noteq> DASH \<and> hd (digits b n) \<noteq> CHR ''+''"
  using digits_chars [of b n] digit_char_facts by (metis hd_in_set order_less_le_trans)

lemma plain_digits: "2 \<le> b \<Longrightarrow> b \<le> 16 \<Longrightarrow> list_all plain_char (digits b n)"
  using digits_chars [of b n] digit_char_facts by (metis list_all_iff order_less_le_trans)

lemma plain_fmt_d: "0 \<le> n \<Longrightarrow> plain_text (fmt_d n)"
  using digits_chars [of 10] hd_digits [of 10] plain_digits [of 10] by (simp add: fmt_d_def plain_text_def)

lemma plain_zeros: "list_all plain_char (replicate k (CHR ''0''))"
  by (simp add: list_all_iff plain_char_def)

lemma plain_fmt_x: "list_all plain_char (fmt_x w v)"
  using plain_digits [of 16] plain_zeros by (simp add: fmt_x_def pad0_def)

lemma plain_phase_nm: "0 \<le> i \<Longrightarrow> plain_text (phase_nm i)"
  using plain_fmt_d [of i] plain_zeros by (simp add: phase_nm_def pad0_def plain_text_def plain_char_def)

lemma phase_nm_inj:
  assumes "0 \<le> i" "0 \<le> j" "phase_nm i = phase_nm j"
  shows "i = j"
proof -
  have "digits_val 0 (pad0 2 (fmt_d k)) = k" if "0 \<le> k" for k
    using that by (simp add: pad0_def digits_val_zeros fmt_d_def digits_value)
  with assms show ?thesis by (metis list.inject phase_nm_def)
qed

text \<open>
  Numbers survive the trip through a file: what \<open>printf\<close> writes with \<open>%d\<close>, read from a
  scalar by \<open>suite_scalar_int\<close>, is the number written, for every \<open>long long\<close>.
\<close>

theorem scalar_int_fmt_d:
  assumes "- LLONG_MAX - 1 \<le> n" "n \<le> LLONG_MAX"
  shows "suite_scalar_int (Some (Suite_Scalar l (fmt_d n))) = Some n"
proof -
  have d: "digits 10 m \<noteq> []" "digits 10 m ! 0 \<noteq> DASH" "digits 10 m ! 0 \<noteq> CHR ''+''" for m
    using digits_chars [of 10 m] hd_digits [of 10 m] by (auto simp: hd_conv_nth)
  show ?thesis
  proof (cases "n < 0")
    case True
    with assms d show ?thesis
      by (simp add: suite_scalar_int_def fmt_d_def digits_digits strtoll10_def digits_value)
  next
    case False
    with assms d show ?thesis
      by (simp add: suite_scalar_int_def fmt_d_def digits_digits strtoll10_def digits_value)
  qed
qed

theorem scalar_int_fmt_d_witness:
  "suite_scalar_int (Some (Suite_Scalar 3 (fmt_d (- LLONG_MAX - 1)))) = Some (- LLONG_MAX - 1)"
  by (rule scalar_int_fmt_d) (simp_all add: LLONG_MAX_def)

section \<open>Random choices are in range\<close>

lemma sint_word_small: "uint (v :: u64) < 2 ^ 31 \<Longrightarrow> sint (ucast v :: 32 word) = uint v"
  using signed_take_bit_int_eq_self [of 31 "uint v"] uint_ge_0 [of v]
  by (simp add: sint_uint unsigned_ucast_eq take_bit_int_eq_self)

lemma rng_range_less: "0 < n \<Longrightarrow> uint (fst (rng_range r n)) < uint n"
  by (cases "rng_next r") (auto simp: rng_range_def uint_mod word_less_def)

lemma rng_int_range:
  assumes "lo \<le> hi" "hi - lo < 2 ^ 31 - 1" "rng_int r lo hi = (v, r')"
  shows "lo \<le> v \<and> v \<le> hi"
proof -
  let ?n = "of_int (hi - lo + 1) :: u64"
  have u: "uint ?n = hi - lo + 1" using assms(1,2) by (simp only: unsigned_of_int) (simp add: take_bit_int_eq_self)
  then have "0 < ?n" using assms(1) by (simp add: word_less_def)
  from rng_range_less [OF this, of r] have b: "uint (fst (rng_range r ?n)) < hi - lo + 1" by (simp only: u)
  then have "sint (ucast (fst (rng_range r ?n)) :: 32 word) = uint (fst (rng_range r ?n))"
    using assms(2) by (intro sint_word_small) linarith
  moreover have "v = lo + sint (ucast (fst (rng_range r ?n)) :: 32 word)"
    using assms(3) by (simp add: rng_int_def split: prod.splits)
  ultimately show ?thesis using b by simp
qed

lemma pick_node_range: "pick_node r nodes = (v, r') \<Longrightarrow> 1 \<le> nodes \<Longrightarrow> nodes < 2 ^ 31 \<Longrightarrow> 0 \<le> v \<and> v < nodes"
  using rng_int_range [of 0 "nodes - 1" r v r'] by (simp add: pick_node_def)

lemma pick_pto_range: "pick_pto r = (v, r') \<Longrightarrow> kMinTo \<le> v \<and> v \<le> kMaxPTo"
  using rng_int_range [of kMinTo kMaxPTo r v r'] by (simp add: pick_pto_def kMinTo_def kMaxPTo_def)

section \<open>Schedules as documents\<close>

datatype step =
    S_drop int
  | S_heal int
  | S_kill int string
  | S_restart int
  | S_submit int
  | S_stop
  | S_pub int string

datatype cond =
    C_peers int
  | C_mesh int
  | C_assigned
  | C_absent
  | C_observed int string

record phase =
  ph_name :: string
  ph_steps :: "step list"
  ph_cond :: cond
  ph_timeout :: int

abbreviation D_int :: "int \<Rightarrow> doc" where
  "D_int n \<equiv> D_text (fmt_d n)"

fun step_doc :: "step \<Rightarrow> doc" where
  "step_doc (S_drop n) = D_map [(''drop'', D_list [D_int n])]"
| "step_doc (S_heal n) = D_map [(''heal'', D_list [D_int n])]"
| "step_doc (S_kill n sig) = D_map [(''kill'', D_map [(''node'', D_int n), (''signal'', D_text sig)])]"
| "step_doc (S_restart n) =
     D_map [(''restart'', D_map [(''node'', D_int n), (''durability'', D_text ''fresh'')])]"
| "step_doc (S_submit n) = D_map [(''submit'', D_map [(''node'', D_int n), (''image'', D_text ''probe'')])]"
| "step_doc S_stop = D_map [(''stop'', D_map [(''workload'', D_text ''submitted'')])]"
| "step_doc (S_pub n tx) = D_map [(''pub'', D_map [(''from'', D_int n), (''text'', D_text tx)])]"

fun cond_doc :: "cond \<Rightarrow> doc" where
  "cond_doc (C_peers n) = D_map [(''peers'', D_int n), (''on'', D_text ''all'')]"
| "cond_doc (C_mesh n) = D_map [(''mesh_count'', D_int n)]"
| "cond_doc C_assigned = D_map [(''assigned'', D_map [(''workload'', D_text ''submitted'')])]"
| "cond_doc C_absent = D_map [(''absent'', D_map [(''workload'', D_text ''submitted''), (''on'', D_text ''all'')])]"
| "cond_doc (C_observed n tx) = D_map [(''observed'', D_map [(''on'', D_int n), (''text'', D_text tx)])]"

definition phase_doc :: "phase \<Rightarrow> doc" where
  "phase_doc ph =
     D_map ([(''name'', D_text (ph_name ph))] @
            (if ph_steps ph = [] then [] else [(''do'', D_list (map step_doc (ph_steps ph)))]) @
            [(''until'', cond_doc (ph_cond ph)), (''timeout_s'', D_int (ph_timeout ph))])"

definition suite_doc :: "nem_profile \<Rightarrow> bool \<Rightarrow> phase list \<Rightarrow> doc" where
  "suite_doc p conc phs =
     D_map ([(''name'', D_text ((if conc then ''nemesis-c-'' else ''nemesis-w-'') @ fmt_x 8 (p_seed p AND 0xffffffff))),
             (''version'', D_text ''1''),
             (''sut'', D_text (if conc then ''concord'' else ''weld'')),
             (''nodes'', D_int (p_nodes p))] @
            (if conc then [] else [(''domain'', D_text ''64'')]) @
            [(''timeout_s'', D_int (p_nphases p * kFileTo)), (''phases'', D_list (map phase_doc phs))])"

text \<open>The text of some rows, and of a phase in the list at column 2.\<close>

definition rows_text :: "rows \<Rightarrow> string" where
  "rows_text rs = concat (map (\<lambda>r. row_text r @ [NL]) rs)"

definition phase_text :: "phase \<Rightarrow> string" where
  "phase_text ph = rows_text (item_rows 2 (phase_doc ph) (rows_of 4 (phase_doc ph)))"

lemma rows_text_simps [simp]:
  "rows_text [] = []"
  "rows_text ((i, b) # rs) = replicate i SP @ b @ NL # rows_text rs"
  "rows_text (rs @ ss) = rows_text rs @ rows_text ss"
  by (simp_all add: rows_text_def row_text_def)

text \<open>Words the generator writes as they are.\<close>

lemma token_plain [simp]: "plain_text s \<Longrightarrow> token s = s"
  by (simp add: token_def)

lemma plain_words:
  "list_all plain_text
    [''name'', ''version'', ''sut'', ''nodes'', ''domain'', ''timeout_s'', ''phases'', ''do'', ''until'',
     ''drop'', ''heal'', ''kill'', ''restart'', ''submit'', ''stop'', ''pub'', ''node'', ''signal'', ''durability'',
     ''fresh'', ''image'', ''probe'', ''workload'', ''submitted'', ''from'', ''text'', ''peers'', ''on'', ''all'',
     ''mesh_count'', ''assigned'', ''absent'', ''observed'', ''mesh'', ''KILL'', ''TERM'', ''concord'', ''weld'', ''1'', ''64'']"
  by (simp add: plain_text_def plain_char_def)

lemmas plain_word [simp] = plain_words [simplified]

section \<open>Every phase writer writes a phase\<close>

lemma fmt_d_0: "fmt_d 0 = ''0''" and fmt_d_1: "fmt_d 1 = ''1''"
  by (simp_all add: fmt_d_def digits.simps digit_char_def)

lemmas phase_text_simps = phase_text_def phase_doc_def item_rows_def value_rows_def numeral_eq_Suc

text \<open>The waiting part of a weld phase with a publication.\<close>

definition pub_ok :: "int \<Rightarrow> step list \<Rightarrow> cond \<Rightarrow> bool" where
  "pub_ok n sts c =
     (\<exists>frm tx on. sts = [S_pub frm tx] \<and> c = C_observed on tx \<and> 0 \<le> frm \<and> frm < n \<and> 0 \<le> on \<and> on < n \<and>
       (\<exists>v. tx = ''wmsg'' @ fmt_x 4 v))"

definition settle_ok :: "bool \<Rightarrow> int \<Rightarrow> step list \<Rightarrow> cond \<Rightarrow> bool" where
  "settle_ok cc n sts c = (if cc then sts = [] \<and> c = C_mesh n else pub_ok n sts c)"

text \<open>
  A legal phase takes the fault budget, and whether something was submitted before, to the
  next. \<open>n\<close> is the number of nodes, \<open>cc\<close> tells a concord schedule from a weld one.
\<close>

inductive sched_step :: "bool \<Rightarrow> int \<Rightarrow> budget \<times> bool \<Rightarrow> phase \<Rightarrow> budget \<times> bool \<Rightarrow> bool" for cc n where
  dwell: "cc \<Longrightarrow> ph_steps ph = [] \<Longrightarrow> ph_cond ph = C_peers n \<Longrightarrow> sched_step cc n (b, saw) ph (b, saw)"
| pub: "\<not> cc \<Longrightarrow> pub_ok n (ph_steps ph) (ph_cond ph) \<Longrightarrow> sched_step cc n (b, saw) ph (b, saw)"
| submit: "cc \<Longrightarrow> ph_steps ph = [S_submit nd] \<Longrightarrow> 0 \<le> nd \<Longrightarrow> nd < n \<Longrightarrow> ph_cond ph = C_assigned \<Longrightarrow>
    sched_step cc n (b, False) ph (b, True)"
| stop: "cc \<Longrightarrow> ph_steps ph = [S_stop] \<Longrightarrow> ph_cond ph = C_absent \<Longrightarrow> sched_step cc n (b, True) ph (b, True)"
| substop: "cc \<Longrightarrow> ph_steps ph = [S_submit 0, S_stop] \<Longrightarrow> ph_cond ph = C_mesh 1 \<Longrightarrow> 0 < n \<Longrightarrow>
    sched_step cc n (b, False) ph (b, True)"
| fault: "ph_steps ph = S_drop nd # sts \<Longrightarrow> settle_ok cc n sts (ph_cond ph) \<Longrightarrow> 0 \<le> nd \<Longrightarrow> nd < n \<Longrightarrow>
    b_pend b < 0 \<Longrightarrow> 0 < b_drop b \<Longrightarrow>
    sched_step cc n (b, saw) ph (b\<lparr>b_drop := b_drop b - 1, b_pend := nd\<rparr>, saw)"
| heal: "ph_steps ph = S_heal (b_pend b) # sts \<Longrightarrow> settle_ok cc n sts (ph_cond ph) \<Longrightarrow> 0 \<le> b_pend b \<Longrightarrow>
    sched_step cc n (b, saw) ph (b\<lparr>b_pend := - 1\<rparr>, saw)"
| crash: "ph_steps ph = S_kill nd sig # S_restart nd # sts \<Longrightarrow> settle_ok cc n sts (ph_cond ph) \<Longrightarrow>
    0 \<le> nd \<Longrightarrow> nd < n \<Longrightarrow> sig = ''KILL'' \<or> sig = ''TERM'' \<Longrightarrow>
    b_pend b < 0 \<Longrightarrow> 0 < b_kill b \<Longrightarrow> 0 < b_rest b \<Longrightarrow>
    sched_step cc n (b, saw) ph (b\<lparr>b_kill := b_kill b - 1, b_rest := b_rest b - 1\<rparr>, saw)"

inductive sched :: "bool \<Rightarrow> int \<Rightarrow> int \<Rightarrow> budget \<times> bool \<Rightarrow> phase list \<Rightarrow> budget \<times> bool \<Rightarrow> bool" for cc n where
  finished: "sched cc n i s [] s"
| next_phase: "sched_step cc n s ph s' \<Longrightarrow> ph_name ph = phase_nm i \<Longrightarrow> kMinTo \<le> ph_timeout ph \<Longrightarrow> ph_timeout ph \<le> kMaxPTo \<Longrightarrow>
    sched cc n (i + 1) s' phs s'' \<Longrightarrow> sched cc n i s (ph # phs) s''"

text \<open>What a phase writer returns: the chunks of one phase, of the given kind.\<close>

definition writes :: "string \<Rightarrow> (step list \<Rightarrow> cond \<Rightarrow> bool) \<Rightarrow> string list \<times> u64 \<Rightarrow> bool" where
  "writes nm kind w =
     (\<exists>ph. concat (fst w) = phase_text ph \<and> ph_name ph = nm \<and> kMinTo \<le> ph_timeout ph \<and>
        ph_timeout ph \<le> kMaxPTo \<and> kind (ph_steps ph) (ph_cond ph))"

lemma writesI:
  "concat (fst w) = phase_text \<lparr>ph_name = nm, ph_steps = sts, ph_cond = c, ph_timeout = tmo\<rparr> \<Longrightarrow>
   kMinTo \<le> tmo \<and> tmo \<le> kMaxPTo \<Longrightarrow> kind sts c \<Longrightarrow> writes nm kind w"
  unfolding writes_def by (metis phase.select_convs)

lemma pto_facts: "pick_pto r = (v, r') \<Longrightarrow> kMinTo \<le> v \<and> v \<le> kMaxPTo \<and> plain_text (fmt_d v)"
  using pick_pto_range [of r v r'] plain_fmt_d [of v] by (simp add: kMinTo_def)

lemma emit_dwell_writes:
  assumes "plain_text nm" "0 < n"
  shows "writes nm (\<lambda>sts c. sts = [] \<and> c = C_peers n) (emit_dwell nm n True r)"
proof -
  obtain tmo r1 where p: "pick_pto r = (tmo, r1)" by (cases "pick_pto r")
  with assms pto_facts [OF p] plain_fmt_d [of n] show ?thesis
    by (intro writesI [of _ _ "[]" "C_peers n" tmo]) (auto simp: emit_dwell_def phase_text_simps)
qed

lemma emit_drop_writes:
  assumes "plain_text nm" "0 \<le> nd" "0 < n"
  shows "writes nm (\<lambda>sts c. sts = [S_drop nd] \<and> c = C_mesh n) (emit_drop nm n nd r)"
proof -
  obtain tmo r1 where p: "pick_pto r = (tmo, r1)" by (cases "pick_pto r")
  with assms pto_facts [OF p] plain_fmt_d [of n] plain_fmt_d [of nd] show ?thesis
    by (intro writesI [of _ _ "[S_drop nd]" "C_mesh n" tmo]) (auto simp: emit_drop_def phase_text_simps)
qed

lemma emit_heal_writes:
  assumes "plain_text nm" "0 \<le> nd" "0 < n"
  shows "writes nm (\<lambda>sts c. sts = [S_heal nd] \<and> c = C_mesh n) (emit_heal nm n nd r)"
proof -
  obtain tmo r1 where p: "pick_pto r = (tmo, r1)" by (cases "pick_pto r")
  with assms pto_facts [OF p] plain_fmt_d [of n] plain_fmt_d [of nd] show ?thesis
    by (intro writesI [of _ _ "[S_heal nd]" "C_mesh n" tmo]) (auto simp: emit_heal_def phase_text_simps)
qed

lemma node_facts:
  "pick_node r n = (v, r') \<Longrightarrow> 1 \<le> n \<Longrightarrow> n \<le> kMaxNd \<Longrightarrow> 0 \<le> v \<and> v < n \<and> plain_text (fmt_d v)"
  using pick_node_range [of r n v r'] plain_fmt_d [of v] by (simp add: kMaxNd_def)

lemma pub_text_plain: "pub_text r = (tx, r') \<Longrightarrow> plain_text tx \<and> (\<exists>v. tx = ''wmsg'' @ fmt_x 4 v)"
  using plain_fmt_x [of 4] by (auto simp: pub_text_def plain_text_def plain_char_def split: prod.splits)

lemma emit_kill_writes:
  assumes "plain_text nm" "1 \<le> n" "n \<le> kMaxNd"
  shows "writes nm (\<lambda>sts c. \<exists>nd sig. sts = [S_kill nd sig, S_restart nd] \<and> 0 \<le> nd \<and> nd < n \<and>
    (sig = ''KILL'' \<or> sig = ''TERM'') \<and> c = C_mesh n) (emit_kill nm n r)"
proof -
  obtain nd r1 where nd: "pick_node r n = (nd, r1)" by (cases "pick_node r n")
  obtain tmo r2 where tmo: "pick_pto r1 = (tmo, r2)" by (cases "pick_pto r1")
  obtain sg r3 where te: "rng_range r2 2 = (sg, r3)" by (cases "rng_range r2 2")
  from assms node_facts [OF nd] pto_facts [OF tmo] plain_fmt_d [of n] nd tmo te show ?thesis
    by (intro writesI [of _ _ "[S_kill nd (if sg = 0 then ''KILL'' else ''TERM''), S_restart nd]" "C_mesh n" tmo])
      (auto simp: emit_kill_def phase_text_simps)
qed

lemma emit_submit_writes:
  assumes "plain_text nm" "1 \<le> n" "n \<le> kMaxNd"
  shows "writes nm (\<lambda>sts c. \<exists>nd. sts = [S_submit nd] \<and> 0 \<le> nd \<and> nd < n \<and> c = C_assigned) (emit_submit nm r n)"
proof -
  obtain nd r1 where nd: "pick_node r n = (nd, r1)" by (cases "pick_node r n")
  obtain tmo r2 where tmo: "pick_pto r1 = (tmo, r2)" by (cases "pick_pto r1")
  from assms node_facts [OF nd] pto_facts [OF tmo] nd tmo show ?thesis
    by (intro writesI [of _ _ "[S_submit nd]" C_assigned tmo]) (auto simp: emit_submit_def phase_text_simps)
qed

lemma emit_substop_writes:
  assumes "plain_text nm"
  shows "writes nm (\<lambda>sts c. sts = [S_submit 0, S_stop] \<and> c = C_mesh 1) (emit_substop nm r)"
proof -
  obtain tmo r1 where tmo: "pick_pto r = (tmo, r1)" by (cases "pick_pto r")
  from assms pto_facts [OF tmo] tmo plain_fmt_d [of 0] plain_fmt_d [of 1] show ?thesis
    by (intro writesI [of _ _ "[S_submit 0, S_stop]" "C_mesh 1" tmo])
      (auto simp: emit_substop_def phase_text_simps fmt_d_0 fmt_d_1)
qed

lemma emit_stop_writes:
  assumes "plain_text nm"
  shows "writes nm (\<lambda>sts c. sts = [S_stop] \<and> c = C_absent) (emit_stop nm n r)"
proof -
  obtain tmo r1 where tmo: "pick_pto r = (tmo, r1)" by (cases "pick_pto r")
  from assms pto_facts [OF tmo] tmo show ?thesis
    by (intro writesI [of _ _ "[S_stop]" C_absent tmo]) (auto simp: emit_stop_def phase_text_simps)
qed

text \<open>The draws of a weld phase after its publication text.\<close>

lemma emit_pub_writes:
  assumes "plain_text nm" "1 \<le> n" "n \<le> kMaxNd"
  shows "writes nm (pub_ok n) (emit_pub nm n r)"
proof -
  obtain tx r0 where tx: "pub_text r = (tx, r0)" by (cases "pub_text r")
  obtain frm r1 where frm: "pick_node r0 n = (frm, r1)" by (cases "pick_node r0 n")
  obtain on r2 where on: "pick_node r1 n = (on, r2)" by (cases "pick_node r1 n")
  obtain tmo r3 where tmo: "pick_pto r2 = (tmo, r3)" by (cases "pick_pto r2")
  note f = pub_text_plain [OF tx] node_facts [OF frm] node_facts [OF on] pto_facts [OF tmo]
  from assms f tx frm on tmo show ?thesis
    by (intro writesI [of _ _ "[S_pub frm tx]" "C_observed on tx" tmo])
      (auto simp: emit_pub_def phase_text_simps pub_ok_def)
qed

lemma emit_wdrop_writes:
  assumes "plain_text nm" "1 \<le> n" "n \<le> kMaxNd" "0 \<le> nd"
  shows "writes nm (\<lambda>sts c. \<exists>ps. sts = S_drop nd # ps \<and> pub_ok n ps c) (emit_wdrop nm n nd r)"
proof -
  obtain tx r0 where tx: "pub_text r = (tx, r0)" by (cases "pub_text r")
  obtain frm r1 where frm: "pick_node r0 n = (frm, r1)" by (cases "pick_node r0 n")
  obtain on r2 where on: "pick_node r1 n = (on, r2)" by (cases "pick_node r1 n")
  obtain tmo r3 where tmo: "pick_pto r2 = (tmo, r3)" by (cases "pick_pto r2")
  note f = pub_text_plain [OF tx] node_facts [OF frm] node_facts [OF on] pto_facts [OF tmo] plain_fmt_d [of nd]
  from assms f tx frm on tmo show ?thesis
    by (intro writesI [of _ _ "[S_drop nd, S_pub frm tx]" "C_observed on tx" tmo])
      (auto simp: emit_wdrop_def phase_text_simps pub_ok_def)
qed

lemma emit_wheal_writes:
  assumes "plain_text nm" "1 \<le> n" "n \<le> kMaxNd" "0 \<le> nd"
  shows "writes nm (\<lambda>sts c. \<exists>ps. sts = S_heal nd # ps \<and> pub_ok n ps c) (emit_wheal nm n nd r)"
proof -
  obtain tx r0 where tx: "pub_text r = (tx, r0)" by (cases "pub_text r")
  obtain frm r1 where frm: "pick_node r0 n = (frm, r1)" by (cases "pick_node r0 n")
  obtain on r2 where on: "pick_node r1 n = (on, r2)" by (cases "pick_node r1 n")
  obtain tmo r3 where tmo: "pick_pto r2 = (tmo, r3)" by (cases "pick_pto r2")
  note f = pub_text_plain [OF tx] node_facts [OF frm] node_facts [OF on] pto_facts [OF tmo] plain_fmt_d [of nd]
  from assms f tx frm on tmo show ?thesis
    by (intro writesI [of _ _ "[S_heal nd, S_pub frm tx]" "C_observed on tx" tmo])
      (auto simp: emit_wheal_def phase_text_simps pub_ok_def)
qed

lemma emit_wkill_writes:
  assumes "plain_text nm" "1 \<le> n" "n \<le> kMaxNd"
  shows "writes nm (\<lambda>sts c. \<exists>nd ps. sts = S_kill nd ''KILL'' # S_restart nd # ps \<and> 0 \<le> nd \<and> nd < n \<and> pub_ok n ps c)
    (emit_wkill nm n r)"
proof -
  obtain tx r0 where tx: "pub_text r = (tx, r0)" by (cases "pub_text r")
  obtain nd r1 where nd: "pick_node r0 n = (nd, r1)" by (cases "pick_node r0 n")
  obtain frm r2 where frm: "pick_node r1 n = (frm, r2)" by (cases "pick_node r1 n")
  obtain on r3 where on: "pick_node r2 n = (on, r3)" by (cases "pick_node r2 n")
  obtain tmo r4 where tmo: "pick_pto r3 = (tmo, r4)" by (cases "pick_pto r3")
  note f = pub_text_plain [OF tx] node_facts [OF nd] node_facts [OF frm] node_facts [OF on] pto_facts [OF tmo]
  from assms f tx nd frm on tmo show ?thesis
    by (intro writesI [of _ _ "[S_kill nd ''KILL'', S_restart nd, S_pub frm tx]" "C_observed on tx" tmo])
      (auto simp: emit_wkill_def phase_text_simps pub_ok_def)
qed

section \<open>Schedules\<close>

lemma writes_sched:
  assumes "writes (phase_nm i) kind w"
    and "\<And>ph. kind (ph_steps ph) (ph_cond ph) \<Longrightarrow> sched_step cc n s ph s'"
  shows "\<exists>ph. concat (fst w) = phase_text ph \<and> ph_name ph = phase_nm i \<and> kMinTo \<le> ph_timeout ph \<and>
    ph_timeout ph \<le> kMaxPTo \<and> sched_step cc n s ph s'"
  using assms unfolding writes_def by blast

text \<open>
  The body of a generator loop: started at phase \<open>i\<close>, where it is ready, it writes one legal
  phase, and it is ready for the next one.
\<close>

locale phase_writer =
  fixes f :: "int \<Rightarrow> budget \<Rightarrow> u64 \<Rightarrow> string list \<times> budget \<times> u64"
    and conc :: bool
    and nodes :: int
    and sees :: "int \<Rightarrow> bool \<Rightarrow> bool"
    and ready :: "int \<Rightarrow> bool \<Rightarrow> bool"
  assumes writes_one: "ready i saw \<Longrightarrow> f i b r = (cs, b', r') \<Longrightarrow>
      \<exists>ph. concat cs = phase_text ph \<and> ph_name ph = phase_nm i \<and> kMinTo \<le> ph_timeout ph \<and>
        ph_timeout ph \<le> kMaxPTo \<and> sched_step conc nodes (b, saw) ph (b', sees i saw)"
    and ready_next: "ready i saw \<Longrightarrow> ready (i + 1) (sees i saw)"
begin

lemma loop_writes:
  "ready i saw \<Longrightarrow> phase_loop f k i b r = (cs, r') \<Longrightarrow>
   \<exists>phs s'. concat cs = concat (map phase_text phs) \<and> length phs = k \<and> sched conc nodes i (b, saw) phs s'"
proof (induction k arbitrary: i saw b r cs r')
  case 0
  then show ?case by (auto intro!: exI [of _ "[]"] sched.finished)
next
  case (Suc k)
  obtain c1 b1 r1 where f: "f i b r = (c1, b1, r1)" by (cases "f i b r")
  obtain c2 r2 where l: "phase_loop f k (i + 1) b1 r1 = (c2, r2)" by (cases "phase_loop f k (i + 1) b1 r1")
  from Suc.prems f l have cs: "cs = c1 @ c2" by simp
  from writes_one [OF Suc.prems(1) f] obtain ph where ph: "concat c1 = phase_text ph" "ph_name ph = phase_nm i"
      "kMinTo \<le> ph_timeout ph" "ph_timeout ph \<le> kMaxPTo" "sched_step conc nodes (b, saw) ph (b1, sees i saw)"
    by blast
  from Suc.IH [OF ready_next [OF Suc.prems(1)] l] obtain phs s' where
    phs: "concat c2 = concat (map phase_text phs)" "length phs = k" "sched conc nodes (i + 1) (b1, sees i saw) phs s'"
    by blast
  from ph phs cs show ?case by (intro exI [of _ "ph # phs"] exI [of _ s']) (auto intro: sched.next_phase)
qed

end

definition conc_ready :: "nem_profile \<Rightarrow> int \<Rightarrow> int \<Rightarrow> int \<Rightarrow> bool \<Rightarrow> bool" where
  "conc_ready p sub_at stop_at i saw =
     (1 \<le> p_nodes p \<and> p_nodes p \<le> kMaxNd \<and> 1 \<le> i \<and> (0 < sub_at \<and> sub_at < i) = saw \<and>
      (0 < stop_at \<longrightarrow> 0 < sub_at \<and> sub_at < stop_at))"

definition weld_ready :: "nem_profile \<Rightarrow> int \<Rightarrow> bool \<Rightarrow> bool" where
  "weld_ready p i saw = (1 \<le> p_nodes p \<and> p_nodes p \<le> kMaxNd \<and> 1 \<le> i)"

lemma conc_phase_writes:
  assumes rd: "conc_ready p sub_at stop_at i saw" and c: "conc_phase p sub_at stop_at i b r = (cs, b', r')"
  shows "\<exists>ph. concat cs = phase_text ph \<and> ph_name ph = phase_nm i \<and> kMinTo \<le> ph_timeout ph \<and>
    ph_timeout ph \<le> kMaxPTo \<and> sched_step True (p_nodes p) (b, saw) ph (b', saw \<or> i = sub_at)"
proof -
  let ?n = "p_nodes p" and ?nm = "phase_nm i"
  have n: "1 \<le> ?n" "?n \<le> kMaxNd" and nm: "plain_text ?nm"
    using rd plain_phase_nm [of i] by (auto simp: conc_ready_def)
  obtain pick r1 where pick: "rng_range r 4 = (pick, r1)" by (cases "rng_range r 4")
  obtain nd r2 where nd: "pick_node r1 ?n = (nd, r2)" by (cases "pick_node r1 ?n")
  note ndr = node_facts [OF nd n]
  consider (sub) "i = sub_at" | (stp) "i \<noteq> sub_at" "i = stop_at" | (heal) "i \<noteq> sub_at" "i \<noteq> stop_at" "0 \<le> b_pend b"
    | (drp) "i \<noteq> sub_at" "i \<noteq> stop_at" "b_pend b < 0" "pick = 0" "0 < b_drop b"
    | (kil) "i \<noteq> sub_at" "i \<noteq> stop_at" "b_pend b < 0" "\<not> (pick = 0 \<and> 0 < b_drop b)"
        "pick = 1" "0 < b_kill b" "0 < b_rest b"
    | (dwl) "i \<noteq> sub_at" "i \<noteq> stop_at" "b_pend b < 0" "\<not> (pick = 0 \<and> 0 < b_drop b)"
        "\<not> (pick = 1 \<and> 0 < b_kill b \<and> 0 < b_rest b)"
    by linarith
  then show ?thesis
  proof cases
    case sub
    with c have e: "cs = fst (emit_submit ?nm r ?n)" "b' = b" by (auto simp: conc_phase_def split: prod.splits)
    have s: "saw = False" using sub rd by (simp add: conc_ready_def)
    show ?thesis unfolding e s using sub
      by (intro writes_sched [OF emit_submit_writes [OF nm n]]) (auto intro: sched_step.submit)
  next
    case stp
    with c have e: "cs = fst (emit_stop ?nm ?n r)" "b' = b" by (auto simp: conc_phase_def split: prod.splits)
    from stp rd have saw by (auto simp: conc_ready_def)
    then show ?thesis unfolding e
      by (intro writes_sched [OF emit_stop_writes [OF nm]]) (auto intro: sched_step.stop)
  next
    case heal
    with c have e: "cs = fst (emit_heal ?nm ?n (b_pend b) r)" "b' = b\<lparr>b_pend := - 1\<rparr>"
      by (auto simp: conc_phase_def split: prod.splits)
    show ?thesis unfolding e using heal n
      by (intro writes_sched [OF emit_heal_writes [OF nm]]) (auto intro: sched_step.heal simp: settle_ok_def)
  next
    case drp
    with c pick nd have e: "cs = fst (emit_drop ?nm ?n nd r2)" "b' = b\<lparr>b_drop := b_drop b - 1, b_pend := nd\<rparr>"
      by (auto simp: conc_phase_def split: prod.splits)
    show ?thesis unfolding e using drp n ndr
      by (intro writes_sched [OF emit_drop_writes [OF nm]]) (auto intro: sched_step.fault simp: settle_ok_def)
  next
    case kil
    with c pick have e: "cs = fst (emit_kill ?nm ?n r1)"
        "b' = b\<lparr>b_kill := b_kill b - 1, b_rest := b_rest b - 1\<rparr>"
      by (auto simp: conc_phase_def split: prod.splits if_splits)
    have sw: "(saw \<or> i = sub_at) = saw" using kil(1) by simp
    show ?thesis unfolding e sw using kil
      by (intro writes_sched [OF emit_kill_writes [OF nm n]])
        (elim exE conjE, rule sched_step.crash, auto simp: settle_ok_def)
  next
    case dwl
    with c pick have e: "cs = fst (emit_dwell ?nm ?n True r1)" "b' = b"
      by (auto simp: conc_phase_def split: prod.splits if_splits)
    show ?thesis unfolding e using dwl n
      by (intro writes_sched [OF emit_dwell_writes [OF nm]]) (auto intro: sched_step.dwell)
  qed
qed

lemma weld_phase_writes:
  assumes rd: "weld_ready p i saw" and c: "weld_phase p i b r = (cs, b', r')"
  shows "\<exists>ph. concat cs = phase_text ph \<and> ph_name ph = phase_nm i \<and> kMinTo \<le> ph_timeout ph \<and>
    ph_timeout ph \<le> kMaxPTo \<and> sched_step False (p_nodes p) (b, saw) ph (b', saw)"
proof -
  let ?n = "p_nodes p" and ?nm = "phase_nm i"
  have n: "1 \<le> ?n" "?n \<le> kMaxNd" and nm: "plain_text ?nm"
    using rd plain_phase_nm [of i] by (auto simp: weld_ready_def)
  obtain pick r1 where pick: "rng_range r 4 = (pick, r1)" by (cases "rng_range r 4")
  obtain nd r2 where nd: "pick_node r1 ?n = (nd, r2)" by (cases "pick_node r1 ?n")
  note ndr = node_facts [OF nd n]
  consider (heal) "0 \<le> b_pend b"
    | (drp) "b_pend b < 0" "pick = 0" "0 < b_drop b"
    | (kil) "b_pend b < 0" "\<not> (pick = 0 \<and> 0 < b_drop b)" "pick = 1" "0 < b_kill b" "0 < b_rest b"
    | (pub) "b_pend b < 0" "\<not> (pick = 0 \<and> 0 < b_drop b)" "\<not> (pick = 1 \<and> 0 < b_kill b \<and> 0 < b_rest b)"
    by linarith
  then show ?thesis
  proof cases
    case heal
    with c have e: "cs = fst (emit_wheal ?nm ?n (b_pend b) r)" "b' = b\<lparr>b_pend := - 1\<rparr>"
      by (auto simp: weld_phase_def split: prod.splits)
    show ?thesis unfolding e using heal
      by (intro writes_sched [OF emit_wheal_writes [OF nm n]]) (auto intro: sched_step.heal simp: settle_ok_def)
  next
    case drp
    with c pick nd have e: "cs = fst (emit_wdrop ?nm ?n nd r2)" "b' = b\<lparr>b_drop := b_drop b - 1, b_pend := nd\<rparr>"
      by (auto simp: weld_phase_def split: prod.splits)
    show ?thesis unfolding e using drp ndr
      by (intro writes_sched [OF emit_wdrop_writes [OF nm n]]) (auto intro: sched_step.fault simp: settle_ok_def)
  next
    case kil
    with c pick have e: "cs = fst (emit_wkill ?nm ?n r1)"
        "b' = b\<lparr>b_kill := b_kill b - 1, b_rest := b_rest b - 1\<rparr>"
      by (auto simp: weld_phase_def split: prod.splits if_splits)
    show ?thesis unfolding e using kil
      by (intro writes_sched [OF emit_wkill_writes [OF nm n]])
        (elim exE conjE, rule sched_step.crash, auto simp: settle_ok_def)
  next
    case pub
    with c pick have e: "cs = fst (emit_pub ?nm ?n r1)" "b' = b"
      by (auto simp: weld_phase_def split: prod.splits if_splits)
    show ?thesis unfolding e
      by (intro writes_sched [OF emit_pub_writes [OF nm n]]) (auto intro: sched_step.pub)
  qed
qed

interpretation conc: phase_writer "conc_phase p sub_at stop_at" True "p_nodes p"
  "\<lambda>i saw. saw \<or> i = sub_at" "conc_ready p sub_at stop_at" for p sub_at stop_at
proof
  show "\<exists>ph. concat cs = phase_text ph \<and> ph_name ph = phase_nm i \<and> kMinTo \<le> ph_timeout ph \<and>
        ph_timeout ph \<le> kMaxPTo \<and> sched_step True (p_nodes p) (b, saw) ph (b', saw \<or> i = sub_at)"
    if "conc_ready p sub_at stop_at i saw" "conc_phase p sub_at stop_at i b r = (cs, b', r')" for i saw b r cs b' r'
    using that by (rule conc_phase_writes)
  show "conc_ready p sub_at stop_at (i + 1) (saw \<or> i = sub_at)" if "conc_ready p sub_at stop_at i saw" for i saw
    using that by (auto simp: conc_ready_def)
qed

interpretation weld: phase_writer "weld_phase p" False "p_nodes p" "\<lambda>i saw. saw" "weld_ready p" for p
  by unfold_locales (fact weld_phase_writes, auto simp: weld_ready_def)

section \<open>The whole file\<close>

definition mesh_phase :: "int \<Rightarrow> bool \<Rightarrow> phase" where
  "mesh_phase n conc =
     \<lparr>ph_name = ''mesh'', ph_steps = [], ph_cond = (if conc then C_peers n else C_mesh n), ph_timeout = kMeshTo\<rparr>"

lemma emit_mesh_text: "0 < n \<Longrightarrow> concat (emit_mesh n conc) = phase_text (mesh_phase n conc)"
  using plain_fmt_d [of n] plain_fmt_d [of kMeshTo]
  by (simp add: emit_mesh_def mesh_phase_def phase_text_simps kMeshTo_def)

lemma render_rows: "render t = rows_text (rows_of 0 t)"
  by (simp add: render_def rows_text_def)

lemma rows_text_concat: "rows_text (concat (map f xs)) = concat (map (\<lambda>x. rows_text (f x)) xs)"
  by (induction xs) simp_all

lemma phases_text: "rows_text (rows_of 2 (D_list (map phase_doc phs))) = concat (map phase_text phs)"
  by (simp add: rows_text_concat phase_text_def [abs_def] comp_def numeral_eq_Suc)

lemma plain_name: "plain_text ((if conc then ''nemesis-c-'' else ''nemesis-w-'') @ fmt_x w v)"
  using plain_fmt_x [of w v] by (simp add: plain_text_def plain_char_def)

lemma emit_head_text:
  assumes "emit_head p conc = Some hs" "0 \<le> p_nodes p" "phs \<noteq> []"
  shows "concat hs @ concat (map phase_text phs) = render (suite_doc p conc phs)"
proof -
  let ?f = "p_nphases p * kFileTo"
  from assms(1) have f: "1 \<le> ?f" by (auto simp: emit_head_def Let_def split: option.splits if_splits)
  note pl = plain_fmt_d [of "p_nodes p"] plain_fmt_d [of ?f] plain_name [of True 8] plain_name [of False 8]
  have b: "is_block (D_list (map phase_doc phs))" using assms(3) by simp
  have "rows_text (value_rows 0 ''phases'' (D_list (map phase_doc phs)) (rows_of 2 (D_list (map phase_doc phs)))) =
      ''phases:'' @ NL # concat (map phase_text phs)"
    using b phases_text [of phs] by (simp add: value_rows_def del: rows_of.simps)
  then show ?thesis
    using assms(1,2) f pl unfolding render_rows
    by (cases conc) (auto simp: emit_head_def suite_doc_def Let_def value_rows_def [of _ _ "D_text _"] numeral_eq_Suc
        split: option.splits if_splits simp del: rows_of.simps(2))
qed

section \<open>Generated documents are within the parser's limits\<close>

lemma fmt_d_length: "0 \<le> n \<Longrightarrow> n < 10 ^ 9 \<Longrightarrow> length (fmt_d n) \<le> 9"
  using digits_length [of 10 "nat n" 9] by (simp add: fmt_d_def nat_less_iff)

lemma fmt_x_length: "w \<le> 16 \<Longrightarrow> length (fmt_x w v) \<le> 16"
  using digits_length [of 16 "unat v" 16] by (simp add: fmt_x_def pad0_def)

lemma phase_nm_length: "0 \<le> i \<Longrightarrow> i < 10 ^ 9 \<Longrightarrow> length (phase_nm i) \<le> 10"
  using fmt_d_length [of i] by (simp add: phase_nm_def pad0_def)

lemma plain_text_char: "list_all plain_char s \<Longrightarrow> list_all text_char s"
  by (auto simp: list_all_iff text_char_def plain_charD)

definition sane :: "string \<Rightarrow> bool" where
  "sane s = (list_all text_char s \<and> length s \<le> 30)"

lemma sane_plain: "plain_text s \<Longrightarrow> length s \<le> 30 \<Longrightarrow> sane s"
  using plain_text_char by (simp add: sane_def plain_text_def)

lemma sane_int: "0 \<le> n \<Longrightarrow> n < 10 ^ 9 \<Longrightarrow> sane (fmt_d n)"
  using sane_plain plain_fmt_d fmt_d_length [of n] by simp

definition doc_sane :: "nat \<Rightarrow> doc \<Rightarrow> bool" where
  "doc_sane h t = (doc_ok t \<and> narrow 30 t \<and> height t \<le> h)"

lemma doc_sane_text: "doc_sane h (D_text s) = sane s"
  by (auto simp: doc_sane_def sane_def)

lemma doc_sane_list: "doc_sane (Suc h) (D_list vs) = (\<forall>v \<in> set vs. doc_sane h v)"
  by (auto simp: doc_sane_def)

lemma doc_sane_map:
  "doc_sane (Suc h) (D_map es) =
     (es \<noteq> [] \<and> distinct (map fst es) \<and> (\<forall>e \<in> set es. fst e \<noteq> [] \<and> sane (fst e) \<and> doc_sane h (snd e)))"
  by (auto simp: doc_sane_def sane_def)

lemma sane_words:
  "list_all sane
    [''name'', ''version'', ''sut'', ''nodes'', ''domain'', ''timeout_s'', ''phases'', ''do'', ''until'',
     ''drop'', ''heal'', ''kill'', ''restart'', ''submit'', ''stop'', ''pub'', ''node'', ''signal'', ''durability'',
     ''fresh'', ''image'', ''probe'', ''workload'', ''submitted'', ''from'', ''text'', ''peers'', ''on'', ''all'',
     ''mesh_count'', ''assigned'', ''absent'', ''observed'', ''mesh'', ''KILL'', ''TERM'', ''concord'', ''weld'', ''1'', ''64'']"
  by (simp add: sane_plain)

lemmas sane_word [simp] = sane_words [simplified]

lemmas doc_sane_simps = doc_sane_text doc_sane_list doc_sane_map numeral_eq_Suc

text \<open>The numbers and words a legal step may hold.\<close>

fun step_sane :: "step \<Rightarrow> bool" where
  "step_sane (S_drop n) = sane (fmt_d n)"
| "step_sane (S_heal n) = sane (fmt_d n)"
| "step_sane (S_kill n sig) = (sane (fmt_d n) \<and> sane sig)"
| "step_sane (S_restart n) = sane (fmt_d n)"
| "step_sane (S_submit n) = sane (fmt_d n)"
| "step_sane S_stop = True"
| "step_sane (S_pub n tx) = (sane (fmt_d n) \<and> sane tx)"

fun cond_sane :: "cond \<Rightarrow> bool" where
  "cond_sane (C_peers n) = sane (fmt_d n)"
| "cond_sane (C_mesh n) = sane (fmt_d n)"
| "cond_sane C_assigned = True"
| "cond_sane C_absent = True"
| "cond_sane (C_observed n tx) = (sane (fmt_d n) \<and> sane tx)"

definition phase_sane :: "phase \<Rightarrow> bool" where
  "phase_sane ph =
     (sane (ph_name ph) \<and> list_all step_sane (ph_steps ph) \<and> cond_sane (ph_cond ph) \<and> sane (fmt_d (ph_timeout ph)))"

lemma step_doc_sane: "step_sane st \<Longrightarrow> doc_sane 3 (step_doc st)"
  by (cases st) (simp_all add: doc_sane_simps)

lemma cond_doc_sane: "cond_sane c \<Longrightarrow> doc_sane 4 (cond_doc c)"
  by (cases c) (simp_all add: doc_sane_simps)

lemma phase_doc_sane: "phase_sane ph \<Longrightarrow> doc_sane 5 (phase_doc ph)"
  using cond_doc_sane [of "ph_cond ph"] step_doc_sane
  by (auto simp: phase_doc_def phase_sane_def doc_sane_simps list_all_iff)

lemma suite_doc_sane:
  assumes "0 \<le> p_nodes p" "p_nodes p \<le> kMaxNd" "0 \<le> p_nphases p" "p_nphases p \<le> kMaxPh" "\<forall>ph \<in> set phs. phase_sane ph"
  shows "doc_sane 7 (suite_doc p conc phs)"
proof -
  have "sane ((if conc then ''nemesis-c-'' else ''nemesis-w-'') @ fmt_x 8 v)" for v
    using plain_name [of conc 8 v] fmt_x_length [of 8 v] by (intro sane_plain) auto
  moreover have "sane (fmt_d (p_nodes p))" "sane (fmt_d (p_nphases p * kFileTo))"
    using assms by (auto intro!: sane_int simp: kMaxNd_def kMaxPh_def kFileTo_def)
  ultimately show ?thesis
    using assms(5) phase_doc_sane by (auto simp: suite_doc_def doc_sane_simps)
qed

lemma sane_render:
  "doc_sane 64 t \<Longrightarrow> is_block t \<Longrightarrow> suite_parse (render t) = Ok (node_of 1 t)"
  by (intro parse_rows narrow_fits [of 30])
    (auto simp: doc_sane_def kMaxDepth_def kMaxLine_def)

lemma doc_sane_mono: "doc_sane h t \<Longrightarrow> h \<le> k \<Longrightarrow> doc_sane k t"
  by (simp add: doc_sane_def)

section \<open>Generated documents pass the structural checks\<close>

lemma doc_of_D_text [simp]: "doc_of n = D_text s \<longleftrightarrow> (\<exists>l. n = Suite_Scalar l s)"
  by (cases n) auto

lemma doc_of_D_map: "doc_of n = D_map es \<longleftrightarrow> (\<exists>l xs. n = Suite_Map l xs \<and> es = map (\<lambda>e. (fst e, doc_of (snd (snd e)))) xs)"
  by (cases n) auto

lemma doc_of_D_list: "doc_of n = D_list ds \<longleftrightarrow> (\<exists>l ns. n = Suite_List l ns \<and> ds = map doc_of ns)"
  by (cases n) auto

lemma find_map_of:
  "map_of (map (\<lambda>e. (fst e, doc_of (snd (snd e)))) xs) k = map_option (\<lambda>e. doc_of (snd (snd e))) (find (\<lambda>e. fst e = k) xs)"
  by (induction xs) auto

lemma find_doc:
  assumes "doc_of nd = D_map es"
  shows "map_option doc_of (suite_map_find (Some nd) (Some k)) = map_of es k"
proof -
  obtain l xs where "nd = Suite_Map l xs" "es = map (\<lambda>e. (fst e, doc_of (snd (snd e)))) xs"
    using assms by (auto simp: doc_of_D_map)
  then show ?thesis by (simp add: find_map_of suite_map_find_def option.map_comp comp_def)
qed

lemma find_doc_Some:
  "doc_of nd = D_map es \<Longrightarrow> map_of es k = Some d \<Longrightarrow> \<exists>n. suite_map_find (Some nd) (Some k) = Some n \<and> doc_of n = d"
  using find_doc [of nd es k] by auto

lemma find_doc_None:
  "doc_of nd = D_map es \<Longrightarrow> map_of es k = None \<Longrightarrow> suite_map_find (Some nd) (Some k) = None"
  using find_doc [of nd es k] by auto

fun steps_saw :: "step list \<Rightarrow> bool \<Rightarrow> bool option" where
  "steps_saw [] saw = Some saw"
| "steps_saw (S_submit n # sts) saw = steps_saw sts True"
| "steps_saw (S_stop # sts) saw = (if saw then steps_saw sts saw else None)"
| "steps_saw (_ # sts) saw = steps_saw sts saw"

lemma steps_valid_doc: "map doc_of ns = map step_doc sts \<Longrightarrow> steps_valid ns saw = steps_saw sts saw"
proof (induction sts saw arbitrary: ns rule: steps_saw.induct)
  case (1 saw)
  then show ?case by simp
qed (auto simp: map_eq_Cons_conv doc_of_D_map step_is_def)

lemma phase_find:
  assumes "doc_of nd = phase_doc ph"
  shows "map_option doc_of (suite_map_find (Some nd) (Some ''name'')) = Some (D_text (ph_name ph))"
    "map_option doc_of (suite_map_find (Some nd) (Some ''until'')) = Some (cond_doc (ph_cond ph))"
    "map_option doc_of (suite_map_find (Some nd) (Some ''timeout_s'')) = Some (D_int (ph_timeout ph))"
    "map_option doc_of (suite_map_find (Some nd) (Some ''sustain'')) = None"
    "map_option doc_of (suite_map_find (Some nd) (Some ''do'')) =
      (if ph_steps ph = [] then None else Some (D_list (map step_doc (ph_steps ph))))"
  using find_doc [OF assms [unfolded phase_doc_def]] by (simp_all add: map_add_def)

lemma cond_needs_doc:
  assumes "doc_of nd = phase_doc ph"
  shows "cond_needs (Some nd) = (ph_cond ph = C_assigned \<or> ph_cond ph = C_absent)"
proof -
  obtain u where u: "suite_map_find (Some nd) (Some ''until'') = Some u" "doc_of u = cond_doc (ph_cond ph)"
    using phase_find(2) [OF assms] by auto
  obtain es where es: "cond_doc (ph_cond ph) = D_map es" by (cases "ph_cond ph") auto
  with u obtain l xs where us: "u = Suite_Map l xs" by (auto simp: doc_of_D_map)
  note f = find_doc [OF u(2) [unfolded es]]
  show ?thesis
  proof (cases "ph_cond ph")
    case C_absent
    with es have "es = [(''absent'', D_map [(''workload'', D_text ''submitted''), (''on'', D_text ''all'')])]" by simp
    with f [of "''assigned''"] f [of "''present''"] f [of "''absent''"] obtain a where
      a: "suite_map_find (Some u) (Some ''assigned'') = None" "suite_map_find (Some u) (Some ''present'') = None"
        "suite_map_find (Some u) (Some ''absent'') = Some a"
        "doc_of a = D_map [(''workload'', D_text ''submitted''), (''on'', D_text ''all'')]" by auto
    from find_doc [OF a(4), of "''workload''"] obtain l' where
      "suite_map_find (Some a) (Some ''workload'') = Some (Suite_Scalar l' ''submitted'')" by auto
    moreover obtain m ys where "a = Suite_Map m ys" using a(4) by (auto simp: doc_of_D_map)
    ultimately show ?thesis using u(1) a us C_absent by (simp add: cond_needs_def suite_scalar_str_def)
  qed (use u(1) us es f [of "''assigned''"] f [of "''present''"] f [of "''absent''"] in
      \<open>auto simp: cond_needs_def\<close>)
qed

lemma phase_valid_doc:
  assumes d: "doc_of nd = phase_doc ph" and nm: "ph_name ph \<noteq> []"
    and fresh: "\<forall>q \<in> set earlier. \<exists>x. doc_of q = phase_doc x \<and> ph_name x \<noteq> ph_name ph"
    and st: "steps_saw (ph_steps ph) saw = Some saw'"
    and cn: "ph_cond ph = C_assigned \<or> ph_cond ph = C_absent \<Longrightarrow> saw'"
  shows "phase_valid earlier nd saw = Some saw'"
proof -
  note f = phase_find [OF d]
  have name: "suite_scalar_str (suite_map_find (Some q) (Some ''name'')) = Some (ph_name x)" if "doc_of q = phase_doc x" for q x
    using phase_find(1) [OF that] by (auto simp: suite_scalar_str_def)
  obtain l xs where m: "nd = Suite_Map l xs" using d by (auto simp: phase_doc_def doc_of_D_map)
  have e: "\<not> list_ex (\<lambda>q. suite_scalar_str (suite_map_find (Some q) (Some ''name'')) = Some (ph_name ph)) earlier"
    using fresh name by (fastforce simp: list_ex_iff)
  obtain u where u: "suite_map_find (Some nd) (Some ''until'') = Some u" using f(2) by auto
  have s: "suite_map_find (Some nd) (Some ''sustain'') = None" using f(4) by simp
  obtain t where t: "suite_map_find (Some nd) (Some ''timeout_s'') = Some t" using f(3) by auto
  have "(case suite_map_find (Some nd) (Some ''do'') of
          None \<Rightarrow> Some saw | Some (Suite_List _ sts) \<Rightarrow> steps_valid sts saw | Some _ \<Rightarrow> None) = Some saw'"
  proof (cases "ph_steps ph = []")
    case True
    then have "suite_map_find (Some nd) (Some ''do'') = None" using f(5) by simp
    with True st show ?thesis by simp
  next
    case False
    then obtain n where "suite_map_find (Some nd) (Some ''do'') = Some n" "doc_of n = D_list (map step_doc (ph_steps ph))"
      using f(5) by auto
    then obtain l ns where "suite_map_find (Some nd) (Some ''do'') = Some (Suite_List l ns)"
        "map doc_of ns = map step_doc (ph_steps ph)"
      by (auto simp: doc_of_D_list)
    with st show ?thesis by (simp add: steps_valid_doc)
  qed
  moreover have "\<not> (cond_needs (Some nd) \<and> \<not> saw')" using cond_needs_doc [OF d] cn by blast
  ultimately show ?thesis
    using m e u s t nm name [OF d] by (simp add: phase_valid_def)
qed

lemma pub_steps_saw: "pub_ok n sts c \<Longrightarrow> steps_saw sts saw = Some saw \<and> (\<exists>on tx. c = C_observed on tx)"
  by (auto simp: pub_ok_def)

lemma settle_steps_saw:
  "settle_ok cc n sts c \<Longrightarrow> steps_saw sts saw = Some saw \<and> c \<noteq> C_assigned \<and> c \<noteq> C_absent"
  using pub_steps_saw [of n sts c saw] by (auto simp: settle_ok_def split: if_splits)

lemma sched_step_saw:
  "sched_step cc n s ph s' \<Longrightarrow>
   steps_saw (ph_steps ph) (snd s) = Some (snd s') \<and> (ph_cond ph = C_assigned \<or> ph_cond ph = C_absent \<longrightarrow> snd s')"
  by (induction rule: sched_step.induct) (auto dest: pub_steps_saw settle_steps_saw)

definition earlier_ok :: "int \<Rightarrow> suite_node list \<Rightarrow> bool" where
  "earlier_ok i ns =
     (\<forall>q \<in> set ns. \<exists>x. doc_of q = phase_doc x \<and> (ph_name x = ''mesh'' \<or> (\<exists>j. 0 \<le> j \<and> j < i \<and> ph_name x = phase_nm j)))"

lemma phases_valid_sched:
  "sched cc n i s phs s' \<Longrightarrow> 0 \<le> i \<Longrightarrow> map doc_of nds = map phase_doc phs \<Longrightarrow> earlier_ok i earlier \<Longrightarrow>
   phases_valid earlier nds (snd s)"
proof (induction i s phs s' arbitrary: earlier nds rule: sched.induct)
  case (next_phase s ph s1 i phs s2)
  then obtain nd nds' where nds: "nds = nd # nds'" "doc_of nd = phase_doc ph" "map doc_of nds' = map phase_doc phs"
    by (auto simp: map_eq_Cons_conv)
  have "''mesh'' \<noteq> phase_nm i" by (simp add: phase_nm_def)
  then have fresh: "\<exists>x. doc_of q = phase_doc x \<and> ph_name x \<noteq> ph_name ph" if "q \<in> set earlier" for q
    using that next_phase.prems(1,3) next_phase.hyps(2) phase_nm_inj [of i] unfolding earlier_ok_def
    by (metis order_less_irrefl)
  have "phase_valid earlier nd (snd s) = Some (snd s1)"
    using nds(2) next_phase.hyps(2) fresh sched_step_saw [OF next_phase.hyps(1)]
    by (intro phase_valid_doc) (auto simp: phase_nm_def)
  moreover have "earlier_ok (i + 1) (earlier @ [nd])"
    unfolding earlier_ok_def
  proof
    fix q assume "q \<in> set (earlier @ [nd])"
    then consider "q \<in> set earlier" | "q = nd" by auto
    then show "\<exists>x. doc_of q = phase_doc x \<and> (ph_name x = ''mesh'' \<or> (\<exists>j. 0 \<le> j \<and> j < i + 1 \<and> ph_name x = phase_nm j))"
    proof cases
      case 1
      then show ?thesis using next_phase.prems(3) unfolding earlier_ok_def by (meson zless_add1_eq)
    next
      case 2
      then show ?thesis using next_phase.prems(1) next_phase.hyps(2) nds(2) by (intro exI [of _ ph]) auto
    qed
  qed
  ultimately show ?case using next_phase.IH next_phase.prems(1) nds by simp
qed simp

section \<open>The generator writes a legal schedule\<close>

lemma gen_conc_sched:
  assumes "1 \<le> p_nodes p" "p_nodes p \<le> kMaxNd" "2 \<le> p_nphases p"
  shows "\<exists>phs s'. concat (fst (gen_conc p r)) = concat (map phase_text phs) \<and>
    length phs = nat (p_nphases p - 1) \<and> sched True (p_nodes p) 1 (start_budget p, False) phs s'"
proof -
  let ?sub = "p_allow_submit p \<noteq> 0"
  let ?stop = "?sub \<and> p_allow_stop p \<noteq> 0"
  let ?sub_at = "if ?sub then 1 else - 1 :: int"
  let ?stop_at = "if ?stop then if p_nphases p = 2 then 1 else p_nphases p - 1 else - 1"
  show ?thesis
  proof (cases "?sub_at = 1 \<and> ?stop_at = 1")
    case True
    then have n: "p_nphases p = 2" by (auto split: if_splits)
    have w: "writes (phase_nm 1) (\<lambda>sts c. sts = [S_submit 0, S_stop] \<and> c = C_mesh 1) (emit_substop (phase_nm 1) r)"
      using emit_substop_writes plain_phase_nm by simp
    have "sched_step True (p_nodes p) (start_budget p, False) ph (start_budget p, True)"
      if "ph_steps ph = [S_submit 0, S_stop] \<and> ph_cond ph = C_mesh 1" for ph
      using that assms(1) by (auto intro: sched_step.substop)
    from writes_sched [OF w this] obtain ph where ph: "concat (fst (emit_substop (phase_nm 1) r)) = phase_text ph" "ph_name ph = phase_nm 1"
        "kMinTo \<le> ph_timeout ph" "ph_timeout ph \<le> kMaxPTo"
        "sched_step True (p_nodes p) (start_budget p, False) ph (start_budget p, True)"
      by blast
    have "sched True (p_nodes p) 1 (start_budget p, False) [ph] (start_budget p, True)"
      using ph by (auto intro: sched.intros)
    moreover have "gen_conc p r = emit_substop (phase_nm 1) r"
      using True by (simp add: gen_conc_def Let_def split: if_splits)
    ultimately show ?thesis using n ph(1) by (auto intro!: exI [of _ "[ph]"])
  next
    case False
    obtain cs r' where l: "phase_loop (conc_phase p ?sub_at ?stop_at) (nat (p_nphases p - 1)) 1 (start_budget p) r = (cs, r')"
      by (cases "phase_loop (conc_phase p ?sub_at ?stop_at) (nat (p_nphases p - 1)) 1 (start_budget p) r")
    have "conc_ready p ?sub_at ?stop_at 1 False"
      using assms False by (cases "p_allow_submit p = 0") (auto simp: conc_ready_def)
    from conc.loop_writes [OF this l] obtain phs s' where
      "concat cs = concat (map phase_text phs)" "length phs = nat (p_nphases p - 1)"
      "sched True (p_nodes p) 1 (start_budget p, False) phs s'" by blast
    moreover have "fst (gen_conc p r) = cs" using False l by (simp add: gen_conc_def Let_def split: if_splits)
    ultimately show ?thesis by blast
  qed
qed

lemma gen_weld_sched:
  assumes "1 \<le> p_nodes p" "p_nodes p \<le> kMaxNd"
  shows "\<exists>phs s'. concat (fst (gen_weld p r)) = concat (map phase_text phs) \<and>
    length phs = nat (p_nphases p - 1) \<and> sched False (p_nodes p) 1 (start_budget p, False) phs s'"
proof -
  obtain cs r' where l: "gen_weld p r = (cs, r')" by (cases "gen_weld p r")
  have "weld_ready p 1 False" using assms by (simp add: weld_ready_def)
  from weld.loop_writes [OF this, of "nat (p_nphases p - 1)" "start_budget p" r cs r'] l
  show ?thesis by (auto simp: gen_weld_def)
qed

lemma write_chunks_facts:
  "write_chunks put k cs acc = (ok, tx) \<Longrightarrow>
   prefix tx (acc @ concat cs) \<and> (ok \<longrightarrow> tx = acc @ concat cs) \<and>
   (ok = (\<forall>j < length cs. put (k + j)))"
proof (induction put k cs acc rule: write_chunks.induct)
  case (2 put k c cs acc)
  show ?case
  proof (cases "put k")
    case True
    with 2 have "prefix tx (acc @ concat (c # cs))" "ok \<longrightarrow> tx = acc @ concat (c # cs)"
      "ok = (\<forall>j < length cs. put (Suc k + j))" by auto
    with True show ?thesis by (simp add: All_less_Suc2)
  qed (use 2 in auto)
qed simp

text \<open>What is written under a valid profile, and where a failed write cuts it off.\<close>

definition gen_schedule :: "nem_profile \<Rightarrow> string \<Rightarrow> phase list \<Rightarrow> bool" where
  "gen_schedule p tx phs =
     (tx = render (suite_doc p (sut_copy p = Some ''concord'')
                   (mesh_phase (p_nodes p) (sut_copy p = Some ''concord'') # phs)) \<and>
      length phs = nat (p_nphases p - 1) \<and>
      (\<exists>s'. sched (sut_copy p = Some ''concord'') (p_nodes p) 1 (start_budget p, False) phs s'))"

lemma profile_okD:
  assumes "profile_ok (Some p)"
  shows "1 \<le> p_nodes p" "p_nodes p \<le> kMaxNd" "2 \<le> p_nphases p" "p_nphases p \<le> kMaxPh"
    "0 \<le> p_max_drop p" "0 \<le> p_max_kill p" "0 \<le> p_max_restart p" "\<exists>s. sut_copy p = Some s"
  using assms
  by (auto simp: profile_ok_def kMinNd_def kMinPh_def split: option.splits if_splits)

lemma emit_head_Some: "profile_ok (Some p) \<Longrightarrow> \<exists>hs. emit_head p conc = Some hs"
  using profile_okD [of p]
  by (auto simp: emit_head_def Let_def kFileTo_def kMaxTo_def kMaxPh_def)

lemma gen_text:
  assumes "profile_ok (Some p)"
  shows "\<exists>cs phs. gen_schedule p (concat cs) phs \<and>
    (\<forall>io path. nemesis_gen io (Some p) (Some path) =
      (if \<not> io_open io then (False, None)
       else let (ok, tx) = write_chunks (io_put io) 0 cs [] in (ok \<and> io_close io, Some tx)))"
proof -
  note pr = profile_okD [OF assms]
  obtain sut where sut: "sut_copy p = Some sut" using pr(8) by blast
  define conc where "conc = sut_conc sut"
  have cc: "(sut_copy p = Some ''concord'') = conc" by (simp add: sut conc_def sut_conc_def)
  obtain hs where hs: "emit_head p conc = Some hs" using emit_head_Some [OF assms] by blast
  define bd where "bd = fst (if conc then gen_conc p (nem_rng_seed (p_seed p)) else gen_weld p (nem_rng_seed (p_seed p)))"
  obtain phs s' where phs: "concat bd = concat (map phase_text phs)" "length phs = nat (p_nphases p - 1)"
      "sched conc (p_nodes p) 1 (start_budget p, False) phs s'"
    using gen_conc_sched [OF pr(1-3), of "nem_rng_seed (p_seed p)"]
      gen_weld_sched [OF pr(1,2), of "nem_rng_seed (p_seed p)"]
    unfolding bd_def by (cases conc) (simp_all only: if_True if_False, blast+)
  let ?cs = "hs @ emit_mesh (p_nodes p) conc @ bd"
  have "concat ?cs = concat hs @ concat (map phase_text (mesh_phase (p_nodes p) conc # phs))"
    using emit_mesh_text [of "p_nodes p" conc] pr(1) phs(1) by simp
  also have "\<dots> = render (suite_doc p conc (mesh_phase (p_nodes p) conc # phs))"
    using hs pr(1) by (intro emit_head_text) auto
  finally have "gen_schedule p (concat ?cs) phs" using phs unfolding gen_schedule_def cc by blast
  moreover have "nemesis_gen io (Some p) (Some path) =
      (if \<not> io_open io then (False, None)
       else let (ok, tx) = write_chunks (io_put io) 0 ?cs [] in (ok \<and> io_close io, Some tx))" for io path
    using assms sut hs by (auto simp: nemesis_gen_def Let_def conc_def [symmetric] bd_def split: prod.splits)
  ultimately show ?thesis by blast
qed

lemma phase_sane_intros:
  assumes "sane (ph_name ph)" "kMinTo \<le> ph_timeout ph" "ph_timeout ph \<le> kMaxPTo"
    "list_all step_sane (ph_steps ph)" "cond_sane (ph_cond ph)"
  shows "phase_sane ph"
  using assms by (auto simp: phase_sane_def kMinTo_def kMaxPTo_def intro: sane_int)

lemma node_sane: "0 \<le> k \<Longrightarrow> k < n \<Longrightarrow> n \<le> kMaxNd \<Longrightarrow> sane (fmt_d k)"
  by (intro sane_int) (auto simp: kMaxNd_def)

lemma pub_sane: "pub_ok n sts c \<Longrightarrow> n \<le> kMaxNd \<Longrightarrow> list_all step_sane sts \<and> cond_sane c"
proof -
  assume p: "pub_ok n sts c" and n: "n \<le> kMaxNd"
  have "sane (''wmsg'' @ fmt_x 4 v)" for v
    using plain_fmt_x [of 4 v] fmt_x_length [of 4 v]
    by (intro sane_plain) (auto simp: plain_text_def plain_char_def)
  with p n show ?thesis by (auto simp: pub_ok_def intro: node_sane)
qed

lemma settle_sane: "settle_ok cc n sts c \<Longrightarrow> 0 \<le> n \<Longrightarrow> n \<le> kMaxNd \<Longrightarrow> list_all step_sane sts \<and> cond_sane c"
  using pub_sane [of n sts c] sane_int [of n] by (auto simp: settle_ok_def kMaxNd_def split: if_splits)

lemma sched_step_sane:
  "sched_step cc n s ph s' \<Longrightarrow> 0 \<le> n \<Longrightarrow> n \<le> kMaxNd \<Longrightarrow> b_pend (fst s) < n \<Longrightarrow>
   list_all step_sane (ph_steps ph) \<and> cond_sane (ph_cond ph) \<and> b_pend (fst s') < n"
  by (induction rule: sched_step.induct)
    (auto dest: pub_sane settle_sane intro: node_sane sane_int simp: kMaxNd_def)

lemma sched_sane:
  "sched cc n i s phs s' \<Longrightarrow> 0 \<le> n \<Longrightarrow> n \<le> kMaxNd \<Longrightarrow> b_pend (fst s) < n \<Longrightarrow> 0 \<le> i \<Longrightarrow> i + int (length phs) < 10 ^ 9 \<Longrightarrow>
   \<forall>ph \<in> set phs. phase_sane ph"
proof (induction i s phs s' rule: sched.induct)
  case (next_phase s ph s1 i phs s2)
  have "sane (phase_nm i)"
    using next_phase.prems phase_nm_length [of i] plain_phase_nm [of i] by (intro sane_plain) auto
  with next_phase sched_step_sane [OF next_phase.hyps(1) next_phase.prems(1-3)] show ?case
    by (auto intro!: phase_sane_intros)
qed simp

lemma gen_schedule_parses:
  assumes "profile_ok (Some p)" "gen_schedule p tx phs"
  shows "\<exists>nd. suite_parse tx = Ok nd \<and>
    doc_of nd = suite_doc p (sut_copy p = Some ''concord'')
      (mesh_phase (p_nodes p) (sut_copy p = Some ''concord'') # phs)"
proof -
  let ?conc = "sut_copy p = Some ''concord''"
  let ?mesh = "mesh_phase (p_nodes p) ?conc"
  let ?t = "suite_doc p ?conc (?mesh # phs)"
  note pr = profile_okD [OF assms(1)]
  from assms(2) obtain s' where g: "tx = render ?t" "length phs = nat (p_nphases p - 1)"
      "sched ?conc (p_nodes p) 1 (start_budget p, False) phs s'" by (auto simp: gen_schedule_def)
  have "\<forall>ph \<in> set phs. phase_sane ph"
    using g(2) pr by (intro sched_sane [OF g(3)]) (auto simp: start_budget_def kMaxPh_def)
  moreover have "phase_sane ?mesh"
    using pr by (auto simp: mesh_phase_def phase_sane_def kMeshTo_def kMaxNd_def intro!: sane_int)
  ultimately have "doc_sane 7 ?t" using pr by (intro suite_doc_sane) auto
  then have "doc_sane 64 ?t" by (rule doc_sane_mono) simp
  moreover have "is_block ?t" by (simp add: suite_doc_def)
  ultimately have "suite_parse tx = Ok (node_of 1 ?t)" using sane_render g(1) by simp
  then show ?thesis using doc_of_node by blast
qed

lemma suite_find:
  assumes "doc_of nd = suite_doc p conc phs"
  shows "suite_map_find (Some nd) (Some ''name'') \<noteq> None" "suite_map_find (Some nd) (Some ''version'') \<noteq> None"
    "suite_map_find (Some nd) (Some ''sut'') \<noteq> None" "suite_map_find (Some nd) (Some ''nodes'') \<noteq> None"
    "suite_map_find (Some nd) (Some ''timeout_s'') \<noteq> None"
    "map_option doc_of (suite_map_find (Some nd) (Some ''phases'')) = Some (D_list (map phase_doc phs))"
proof -
  note f = find_doc [OF assms [unfolded suite_doc_def]]
  show "suite_map_find (Some nd) (Some ''name'') \<noteq> None" using f [of "''name''"] by auto
  show "suite_map_find (Some nd) (Some ''version'') \<noteq> None" using f [of "''version''"] by auto
  show "suite_map_find (Some nd) (Some ''sut'') \<noteq> None" using f [of "''sut''"] by auto
  show "suite_map_find (Some nd) (Some ''nodes'') \<noteq> None" using f [of "''nodes''"] by auto
  show "suite_map_find (Some nd) (Some ''timeout_s'') \<noteq> None"
    using f [of "''timeout_s''"] by (cases conc) auto
  show "map_option doc_of (suite_map_find (Some nd) (Some ''phases'')) = Some (D_list (map phase_doc phs))"
    using f [of "''phases''"] by (cases conc) auto
qed

lemma mesh_valid:
  assumes "doc_of nd = phase_doc (mesh_phase n conc)"
  shows "phase_valid [] nd False = Some False"
  by (rule phase_valid_doc [OF assms]) (simp_all add: mesh_phase_def split: if_splits)

lemma suite_doc_valid:
  assumes d: "doc_of nd = suite_doc p conc phs" and ne: "phs \<noteq> []"
    and v: "\<And>ns. map doc_of ns = map phase_doc phs \<Longrightarrow> phases_valid [] ns False"
  shows "doc_valid nd"
proof -
  obtain l xs where m: "nd = Suite_Map l xs" using d by (auto simp: suite_doc_def doc_of_D_map)
  from suite_find(6) [OF d] obtain l' ns where
    ns: "suite_map_find (Some nd) (Some ''phases'') = Some (Suite_List l' ns)" "map doc_of ns = map phase_doc phs"
    by (auto simp: doc_of_D_list)
  moreover from ns(2) ne have "ns \<noteq> []" by auto
  ultimately show ?thesis using suite_find(1-5) [OF d] v m by (simp add: doc_valid_def)
qed

lemma gen_doc_valid:
  assumes d: "doc_of nd = suite_doc p conc (mesh_phase n conc # phs)" and s: "sched cc m 1 (b, False) phs s'"
  shows "doc_valid nd"
proof (rule suite_doc_valid [OF d])
  fix ns assume "map doc_of ns = map phase_doc (mesh_phase n conc # phs)"
  then obtain mesh ns' where c: "ns = mesh # ns'" "doc_of mesh = phase_doc (mesh_phase n conc)"
      "map doc_of ns' = map phase_doc phs"
    by (auto simp: map_eq_Cons_conv)
  have "earlier_ok 1 [mesh]" using c(2) by (auto simp: earlier_ok_def mesh_phase_def)
  with phases_valid_sched [OF s _ c(3)] have "phases_valid [mesh] ns' False" by simp
  with mesh_valid [OF c(2)] c(1) show "phases_valid [] ns False" by simp
qed simp

end
