(* ===== verification/Nemesis_Cut.thy ===== *)
theory Nemesis_Cut
  imports Nemesis_Gen
begin

text \<open>
  The shrinker's deletions, which cut bytes out of the text, are deletions in the document:
  on the rendering of a scenario, \<open>trial_no_phase\<close> gives the rendering of the scenario
  without that phase, and \<open>trial_no_step\<close> the one without that step.
\<close>

section \<open>Lines and offsets\<close>

lemma starts_from_row:
  "NL \<notin> set x \<Longrightarrow> starts_from (x @ NL # y) i =
     (if y = [] then [] else (i + length x + 1) # starts_from y (i + length x + 1))"
  by (induction x arbitrary: i) auto

definition plain_rows :: "rows \<Rightarrow> bool" where
  "plain_rows rs = (\<forall>r \<in> set rs. NL \<notin> set (row_text r))"

lemma rows_text_Cons: "rows_text (r # rs) = row_text r @ NL # rows_text rs"
  by (simp add: rows_text_def)

lemma rows_text_empty: "rows_text rs = [] \<longleftrightarrow> rs = []"
  by (cases rs) (simp_all add: rows_text_Cons)

lemma starts_from_rows:
  "plain_rows rs \<Longrightarrow> starts_from (rows_text rs) i = map (\<lambda>k. i + length (rows_text (take k rs))) [1..<length rs]"
proof (induction rs arbitrary: i)
  case (Cons r rs)
  then have r: "NL \<notin> set (row_text r)" "plain_rows rs" by (auto simp: plain_rows_def)
  show ?case
  proof (cases "rs = []")
    case False
    let ?m = "length (row_text r) + 1"
    have "[1..<length (r # rs)] = 1 # map Suc [1..<length rs]"
      using False by (subst upt_conv_Cons) (auto simp: map_Suc_upt simp del: upt_Suc)
    then show ?thesis
      using Cons.IH [OF r(2), of "i + ?m"] False r(1)
      by (simp add: rows_text_Cons starts_from_row rows_text_empty comp_def add.assoc)
  qed (use r in \<open>simp add: rows_text_Cons starts_from_row\<close>)
qed simp

lemma line_off_rows:
  assumes "plain_rows rs" "rs \<noteq> []" "1 \<le> l"
  shows "line_off (line_starts (rows_text rs)) (length (rows_text rs)) l = length (rows_text (take (l - 1) rs))"
proof -
  have "line_starts (rows_text rs) = 0 # map (\<lambda>k. length (rows_text (take k rs))) [1..<length rs]"
    using starts_from_rows [OF assms(1), of 0] assms(2) by (simp add: line_starts_def rows_text_empty)
  also have "\<dots> = map (\<lambda>k. length (rows_text (take k rs))) [0..<length rs]"
    using assms(2) by (simp add: upt_conv_Cons)
  finally have t: "line_starts (rows_text rs) = map (\<lambda>k. length (rows_text (take k rs))) [0..<length rs]" .
  with assms(3) show ?thesis by (auto simp: line_off_def)
qed

lemma cut_rows:
  "cut (rows_text (P @ I @ Q)) (length (rows_text P)) (length (rows_text (P @ I))) = Some (rows_text (P @ Q))"
  by (simp add: cut_def)

text \<open>Cutting from one line to another cuts the rows between them.\<close>

lemma cut_lines:
  assumes "plain_rows (P @ I @ Q)" "P @ I @ Q \<noteq> []"
  defines "tx \<equiv> rows_text (P @ I @ Q)"
  shows "cut tx (line_off (line_starts tx) (length tx) (Suc (length P)))
      (line_off (line_starts tx) (length tx) (Suc (length P + length I))) = Some (rows_text (P @ Q))"
    and "Q = [] \<Longrightarrow> cut tx (line_off (line_starts tx) (length tx) (Suc (length P))) (length tx) = Some (rows_text P)"
proof -
  have l: "line_off (line_starts tx) (length tx) (Suc (length P)) = length (rows_text P)"
    "line_off (line_starts tx) (length tx) (Suc (length P + length I)) = length (rows_text (P @ I))"
    unfolding tx_def using line_off_rows [OF assms(1,2), of "Suc (length P)"]
      line_off_rows [OF assms(1,2), of "Suc (length P + length I)"] by simp_all
  then show "cut tx (line_off (line_starts tx) (length tx) (Suc (length P)))
      (line_off (line_starts tx) (length tx) (Suc (length P + length I))) = Some (rows_text (P @ Q))"
    using cut_rows unfolding tx_def by metis
  show "cut tx (line_off (line_starts tx) (length tx) (Suc (length P))) (length tx) = Some (rows_text P)" if "Q = []"
    using cut_rows [of P I "[]"] l(1) that unfolding tx_def by simp
qed

lemma cut_at_lines:
  assumes "rs = P @ I @ Q" "plain_rows rs" "rs \<noteq> []" "tx = rows_text rs"
    "a = Suc (length P)" "b = Suc (length P + length I)"
  shows "cut tx (line_off (line_starts tx) (length tx) a) (line_off (line_starts tx) (length tx) b) =
    Some (rows_text (P @ Q))"
  using cut_lines(1) [of P I Q] assms by simp

section \<open>Places of entries and items\<close>

lemma length_place [simp]: "length (place f h l xs) = length xs"
  by (induction xs arbitrary: l) auto

lemma place_append: "place f h l (xs @ ys) = place f h l xs @ place f h (l + sum_list (map h xs)) ys"
  by (induction xs arbitrary: l) (auto simp: add.assoc)

lemma map_height_rows:
  "length (concat (map (\<lambda>e. value_rows i (token (fst e)) (snd e) (rows_of (i + 2) (snd e))) es)) =
   sum_list (map value_height es)"
proof -
  have "length (value_rows i (token (fst e)) (snd e) (rows_of (i + 2) (snd e))) = value_height e" for e
    by (rule value_height)
  then show ?thesis by (simp add: length_concat comp_def)
qed

lemma list_height_rows:
  "length (concat (map (\<lambda>v. item_rows i v (rows_of (i + 2) v)) vs)) = sum_list (map item_height vs)"
proof -
  have "length (item_rows i v (rows_of (i + 2) v)) = item_height v" for v by (rule item_height)
  then show ?thesis by (simp add: length_concat comp_def)
qed

lemma good_plain: "doc_ok t \<Longrightarrow> plain_rows (rows_of i t)"
  unfolding plain_rows_def
proof
  fix r assume "doc_ok t" "r \<in> set (rows_of i t)"
  then have "good_body (snd r)" using good_rows by blast
  then show "NL \<notin> set (row_text r)" using no_control(1) unfolding good_body_def row_text_def by blast
qed

section \<open>Deleting a phase\<close>

definition readable :: "doc \<Rightarrow> bool" where
  "readable t = (doc_ok t \<and> is_block t \<and> height t \<le> kMaxDepth \<and> lines_fit t)"

definition scenario :: "(string \<times> doc) list \<Rightarrow> doc list \<Rightarrow> doc" where
  "scenario es vs = D_map (es @ [(''phases'', D_list vs)])"

definition is_D_map :: "doc \<Rightarrow> bool" where
  "is_D_map t = (\<exists>es. t = D_map es)"

text \<open>The line of the first phase.\<close>

definition first_line :: "(string \<times> doc) list \<Rightarrow> nat" where
  "first_line es = Suc (Suc (sum_list (map value_height es)))"

lemma find_place:
  "k \<notin> fst ` set es \<Longrightarrow> find (\<lambda>e. fst e = k) (place entry_node h l es) = None"
  by (induction es arbitrary: l) auto

lemma scenario_phases:
  assumes "readable (scenario es vs)" "vs \<noteq> []"
  shows "phases_of (render (scenario es vs)) = Some (node_of (first_line es) (D_list vs))"
proof -
  have "suite_parse (render (scenario es vs)) = Ok (node_of 1 (scenario es vs))"
    using assms(1) by (intro parse_rows) (auto simp: readable_def)
  moreover have "''phases'' \<notin> fst ` set es"
    using assms(1) by (auto simp: readable_def scenario_def)
  moreover have "value_line (Suc (sum_list (map value_height es))) (D_list vs) = first_line es"
    using assms(2) by (simp add: value_line_def first_line_def)
  ultimately show ?thesis
    by (simp add: phases_of_def scenario_def suite_map_find_def place_append find_append_case find_place)
qed

lemma node_line_map: "is_D_map v \<Longrightarrow> node_line (item_node l v) = l"
  by (auto simp: is_D_map_def item_line_def)

lemma list_at_item:
  "suite_list_at (Some (node_of l (D_list (us @ v # ws)))) (length us) =
     Some (item_node (l + sum_list (map item_height us)) v)"
  by (simp add: suite_list_at_def place_append nth_append)

lemma list_at_next:
  "suite_list_at (Some (node_of l (D_list (us @ v # w # ws)))) (Suc (length us)) =
     Some (item_node (l + sum_list (map item_height us) + item_height v) w)"
  using list_at_item [of l "us @ [v]" w ws] by (simp add: add.assoc)

lemma list_len_node: "suite_list_len (Some (node_of l (D_list vs))) = length vs"
  by (simp add: suite_list_len_def)

text \<open>The rows of a list of items in a block at column \<open>i\<close>.\<close>

abbreviation list_rows :: "nat \<Rightarrow> doc list \<Rightarrow> rows" where
  "list_rows i vs \<equiv> concat (map (\<lambda>v. item_rows i v (rows_of (i + 2) v)) vs)"

abbreviation map_rows :: "nat \<Rightarrow> (string \<times> doc) list \<Rightarrow> rows" where
  "map_rows i es \<equiv> concat (map (\<lambda>e. value_rows i (token (fst e)) (snd e) (rows_of (i + 2) (snd e))) es)"

lemma scenario_rows:
  "vs \<noteq> [] \<Longrightarrow> rows_of 0 (scenario es vs) = (map_rows 0 es @ [(0, ''phases:'')]) @ list_rows 2 vs"
  by (simp add: scenario_def value_rows_def numeral_eq_Suc plain_text_def plain_char_def token_def)

lemma head_rows_length: "Suc (length (map_rows 0 es @ [(0, ''phases:'')])) = first_line es"
  using map_height_rows [of 0 es] by (simp add: first_line_def)

lemma delete_phase:
  assumes "readable (scenario es (us @ v # ws))" "us \<noteq> []" "is_D_map v" "\<forall>w \<in> set ws. is_D_map w"
  defines "tx \<equiv> render (scenario es (us @ v # ws))"
  shows "trial_no_phase tx (line_starts tx) (phases_of tx) (length us) = Some (render (scenario es (us @ ws)))"
proof -
  let ?P = "(map_rows 0 es @ [(0, ''phases:'')]) @ list_rows 2 us"
  let ?I = "item_rows 2 v (rows_of (2 + 2) v)"
  let ?Q = "list_rows 2 ws"
  have rows: "rows_of 0 (scenario es (us @ v # ws)) = ?P @ ?I @ ?Q"
    using scenario_rows [of "us @ v # ws" es] by simp
  have tx: "tx = rows_text (?P @ ?I @ ?Q)" unfolding tx_def render_rows rows ..
  have out: "render (scenario es (us @ ws)) = rows_text (?P @ ?Q)"
    unfolding render_rows using scenario_rows [of "us @ ws" es] assms(2) by simp
  have pl: "plain_rows (?P @ ?I @ ?Q)" "?P @ ?I @ ?Q \<noteq> []"
    using good_plain [of "scenario es (us @ v # ws)" 0] assms(1) rows by (auto simp: readable_def)
  let ?a = "first_line es + sum_list (map item_height us)"
  have la: "?a = Suc (length ?P)"
    using head_rows_length [of es] list_height_rows [of 2 us] by simp
  have lb: "?a + item_height v = Suc (length ?P + length ?I)"
    using la item_height [of 2 v "2 + 2"] by simp
  have ph: "phases_of tx = Some (node_of (first_line es) (D_list (us @ v # ws)))"
    unfolding tx_def using assms(1) by (intro scenario_phases) auto
  show ?thesis
  proof (cases ws)
    case Nil
    have "trial_no_phase tx (line_starts tx) (phases_of tx) (length us) =
        cut tx (line_off (line_starts tx) (length tx) ?a) (length tx)"
      unfolding trial_no_phase_def Let_def ph using Nil
      by (simp only: list_at_item list_len_node node_line_map [OF assms(3)] option.simps) simp
    also have "\<dots> = Some (rows_text ?P)"
      unfolding la using cut_lines(2) [OF pl] Nil unfolding tx by simp
    finally show ?thesis using out Nil by simp
  next
    case (Cons w ws')
    have w: "is_D_map w" using assms(4) Cons by simp
    have "trial_no_phase tx (line_starts tx) (phases_of tx) (length us) =
        cut tx (line_off (line_starts tx) (length tx) ?a) (line_off (line_starts tx) (length tx) (?a + item_height v))"
      unfolding trial_no_phase_def Let_def ph Cons
      by (simp only: list_at_item list_at_next list_len_node node_line_map [OF assms(3)] node_line_map [OF w]
          option.simps Suc_eq_plus1 [symmetric]) simp
    also have "\<dots> = Some (rows_text (?P @ ?Q))"
      unfolding lb unfolding la using cut_lines(1) [OF pl] unfolding tx .
    finally show ?thesis using out by simp
  qed
qed

section \<open>Deleting a step\<close>

definition do_entry :: "doc list \<Rightarrow> (string \<times> doc) list" where
  "do_entry sts = (if sts = [] then [] else [(''do'', D_list sts)])"

text \<open>The rows of a map as an item: the first row moves left and gets the dash.\<close>

fun dash :: "nat \<Rightarrow> rows \<Rightarrow> rows" where
  "dash i [] = []"
| "dash i ((j, b) # rs) = (i, ''- '' @ b) # rs"

lemma dash_append: "rs \<noteq> [] \<Longrightarrow> dash i (rs @ ss) = dash i rs @ ss"
  by (cases rs) auto

lemma length_dash [simp]: "length (dash i rs) = length rs"
  by (cases rs) auto

lemma item_rows_map: "item_rows i (D_map es) (rows_of (i + 2) (D_map es)) = dash i (map_rows (i + 2) es)"
proof -
  have "item_rows i (D_map es) rs = dash i rs" for rs by (cases rs) (auto simp: item_rows_def)
  then show ?thesis by (simp only: rows_of.simps)
qed

lemma map_rows_ne: "es \<noteq> [] \<Longrightarrow> map_rows i es \<noteq> []"
proof (cases es)
  case (Cons e es')
  then show ?thesis
    using value_rows_split [of i "token (fst e)" "snd e" "rows_of (i + 2) (snd e)"] by auto
qed simp

lemma item_height_map: "item_height (D_map es) = sum_list (map value_height es)"
  using item_height [of 2 "D_map es" "2 + 2"] map_height_rows [of "2 + 2" es]
  unfolding item_rows_map by simp

lemma item_height_pos: "doc_ok v \<Longrightarrow> 0 < item_height v"
  using item_rows_Cons [of v 0] item_height [of 0 v "0 + 2"] by (metis length_Cons zero_less_Suc)

lemma value_height_pos: "0 < value_height e"
  using value_rows_split [of 0 "token (fst e)" "snd e" "rows_of 2 (snd e)"] by (auto simp: value_height_def)

lemma value_height_list: "sts \<noteq> [] \<Longrightarrow> value_height (k, D_list sts) = Suc (sum_list (map item_height sts))"
  using list_height_rows [of 2 sts] value_height [of 0 "[]" "(k, D_list sts)" 2]
  by (simp add: value_rows_def)

subsection \<open>Key lines\<close>

lemma key_lines:
  "(k, kl, nd) \<in> set (place entry_node value_height l es) \<Longrightarrow> l \<le> kl \<and> kl < l + sum_list (map value_height es)"
proof (induction es arbitrary: l)
  case (Cons e es)
  with value_height_pos [of e] show ?case by fastforce
qed simp

lemma next_key_skip:
  "\<forall>e \<in> set xs. fst (snd e) \<le> ln \<Longrightarrow> next_key_loop (xs @ ys) ln best = next_key_loop ys ln best"
  by (induction xs) auto

lemma next_key_keep:
  "best \<noteq> 0 \<Longrightarrow> \<forall>e \<in> set ys. best \<le> fst (snd e) \<Longrightarrow> next_key_loop ys ln best = best"
  by (induction ys) auto

text \<open>The key after the value of an entry is the first of the entries that follow.\<close>

lemma next_key_place:
  assumes "l + sum_list (map value_height pre) \<le> ln" "ln < l + sum_list (map value_height (pre @ [e]))"
  shows "next_key_loop (place entry_node value_height l (pre @ e # post)) ln 0 =
    (if post = [] then 0 else l + sum_list (map value_height (pre @ [e])))"
proof -
  let ?q = "l + sum_list (map value_height (pre @ [e]))"
  have s: "place entry_node value_height l (pre @ e # post) =
      place entry_node value_height l (pre @ [e]) @ place entry_node value_height ?q post"
    using place_append [of entry_node value_height l "pre @ [e]" post] by simp
  have "\<forall>x \<in> set (place entry_node value_height l (pre @ [e])). fst (snd x) \<le> ln"
    using assms key_lines [of _ _ _ l pre] by (fastforce simp: place_append)
  then have "next_key_loop (place entry_node value_height l (pre @ e # post)) ln 0 =
      next_key_loop (place entry_node value_height ?q post) ln 0"
    unfolding s by (rule next_key_skip)
  also have "\<dots> = (if post = [] then 0 else ?q)"
  proof (cases post)
    case (Cons f post')
    have "\<forall>x \<in> set (place entry_node value_height (?q + value_height f) post'). ?q \<le> fst (snd x)"
      using key_lines [of _ _ _ "?q + value_height f" post'] by fastforce
    then have "next_key_loop (place entry_node value_height (?q + value_height f) post') ln ?q = ?q"
      using assms by (intro next_key_keep) auto
    with Cons assms(2) show ?thesis by simp
  qed simp
  finally show ?thesis .
qed

subsection \<open>The phase that loses a step\<close>

lemma find_do:
  assumes "''do'' \<notin> fst ` set pre" "sts \<noteq> []"
  shows "suite_map_find (Some (node_of l (D_map (pre @ (''do'', D_list sts) # post)))) (Some ''do'') =
      Some (node_of (Suc (l + sum_list (map value_height pre))) (D_list sts))"
    "do_key_line (Some (node_of l (D_map (pre @ (''do'', D_list sts) # post)))) = l + sum_list (map value_height pre)"
proof -
  have "value_line x (D_list sts) = Suc x" for x using assms(2) by (simp add: value_line_def)
  with assms(1) show "suite_map_find (Some (node_of l (D_map (pre @ (''do'', D_list sts) # post)))) (Some ''do'') =
      Some (node_of (Suc (l + sum_list (map value_height pre))) (D_list sts))"
    "do_key_line (Some (node_of l (D_map (pre @ (''do'', D_list sts) # post)))) = l + sum_list (map value_height pre)"
    unfolding suite_map_find_def do_key_line_def
    by (simp_all add: place_append find_append_case find_place)
qed

text \<open>Where the last step of the phase ends.\<close>

lemma last_end:
  fixes l :: nat and us :: "doc list"
  assumes v: "v = D_map (pre @ (''do'', D_list sts) # post)" and sts: "sts = sus @ [s]" "is_D_map s" "doc_ok s"
    and ws: "\<forall>w \<in> set ws. is_D_map w"
    and tx: "tx = rows_text rs" "plain_rows rs" "rs \<noteq> []"
  defines "lp \<equiv> l + sum_list (map item_height us)"
  defines "ld \<equiv> lp + sum_list (map value_height pre)"
  assumes all: "length rs = l - 1 + sum_list (map item_height (us @ v # ws))" "1 \<le> l"
  shows "last_step_end tx (line_starts tx) (Some (node_of l (D_list (us @ v # ws)))) (length us)
      (Some (node_of lp v)) (item_node (Suc ld + sum_list (map item_height sus)) s) =
    Some (line_off (line_starts tx) (length tx) (Suc ld + sum_list (map item_height sts)))"
proof -
  let ?ls = "Suc ld + sum_list (map item_height sus)"
  let ?lq = "Suc ld + sum_list (map item_height sts)"
  have h: "value_height (''do'', D_list sts) = Suc (sum_list (map item_height sts))"
    using sts by (intro value_height_list) simp
  have "next_key_after (Some (node_of lp v)) (node_line (item_node ?ls s)) =
      next_key_loop (place entry_node value_height lp (pre @ (''do'', D_list sts) # post)) ?ls 0"
    unfolding v by (simp add: next_key_after_def node_line_map [OF sts(2)])
  also have "\<dots> = (if post = [] then 0 else lp + sum_list (map value_height (pre @ [(''do'', D_list sts)])))"
    using h sts item_height_pos [OF sts(3)] by (intro next_key_place) (auto simp: ld_def)
  also have "lp + sum_list (map value_height (pre @ [(''do'', D_list sts)])) = ?lq"
    using h by (simp add: ld_def)
  finally have nk: "next_key_after (Some (node_of lp v)) (node_line (item_node ?ls s)) = (if post = [] then 0 else ?lq)" .
  show ?thesis
  proof (cases "post = []")
    case False
    with nk show ?thesis by (simp add: last_step_end_def)
  next
    case True
    have iv: "lp + item_height v = ?lq" unfolding v item_height_map using True h by (simp add: ld_def)
    show ?thesis
    proof (cases ws)
      case (Cons w ws')
      then have w: "is_D_map w" using ws by simp
      have "suite_list_at (Some (node_of l (D_list (us @ v # ws)))) (Suc (length us)) = Some (item_node ?lq w)"
        unfolding Cons list_at_next lp_def [symmetric] iv ..
      then show ?thesis
        using nk True Cons node_line_map [OF w]
        by (simp add: last_step_end_def list_len_node Let_def del: node_of.simps)
    next
      case Nil
      have "?lq - 1 = length rs" using all iv Nil by (simp add: lp_def)
      then have "line_off (line_starts tx) (length tx) ?lq = length tx"
        using line_off_rows [OF tx(2,3), of ?lq] tx(1) by simp
      then show ?thesis using nk True Nil
        by (simp add: last_step_end_def list_len_node Let_def del: node_of.simps)
    qed
  qed
qed

lemma phase_rows:
  assumes "pre \<noteq> []" "sts \<noteq> []"
  shows "item_rows 2 (D_map (pre @ (''do'', D_list sts) # post)) (rows_of (2 + 2) (D_map (pre @ (''do'', D_list sts) # post))) =
    dash 2 (map_rows 4 pre) @ (4, ''do:'') # list_rows 6 sts @ map_rows 4 post"
proof -
  have r: "value_rows 4 (token ''do'') (D_list sts) (rows_of 6 (D_list sts)) = (4, ''do:'') # list_rows 6 sts"
    using assms(2) by (simp add: value_rows_def numeral_eq_Suc)
  have "map_rows 4 (pre @ (''do'', D_list sts) # post) = map_rows 4 pre @ (4, ''do:'') # list_rows 6 sts @ map_rows 4 post"
    using r by (simp del: rows_of.simps(2) token_plain)
  then show ?thesis unfolding item_rows_map
    using map_rows_ne [OF assms(1), of 4] by (simp add: dash_append)
qed

lemma phase_rows_without:
  assumes "pre \<noteq> []"
  shows "item_rows 2 (D_map (pre @ do_entry sts @ post)) (rows_of (2 + 2) (D_map (pre @ do_entry sts @ post))) =
    dash 2 (map_rows 4 pre) @ (if sts = [] then [] else (4, ''do:'') # list_rows 6 sts) @ map_rows 4 post"
proof (cases "sts = []")
  case True
  then show ?thesis unfolding item_rows_map
    using map_rows_ne [OF assms, of 4] by (simp add: dash_append do_entry_def)
qed (use phase_rows [OF assms, of sts post] in \<open>simp add: do_entry_def\<close>)

lemma delete_step:
  assumes ok: "readable (scenario es (us @ D_map (pre @ (''do'', D_list (sus @ s # sws)) # post) # ws))"
    and pre: "pre \<noteq> []" and maps: "is_D_map s" "\<forall>t \<in> set sws. is_D_map t" "\<forall>w \<in> set ws. is_D_map w"
  defines "tx \<equiv> render (scenario es (us @ D_map (pre @ (''do'', D_list (sus @ s # sws)) # post) # ws))"
  shows "trial_no_step tx (line_starts tx) (phases_of tx) (length us) (length sus) =
    Some (render (scenario es (us @ D_map (pre @ do_entry (sus @ sws) @ post) # ws)))"
proof -
  let ?sts = "sus @ s # sws"
  let ?v = "D_map (pre @ (''do'', D_list ?sts) # post)"
  let ?v' = "D_map (pre @ do_entry (sus @ sws) @ post)"
  let ?H = "(map_rows 0 es @ [(0, ''phases:'')]) @ list_rows 2 us @ dash 2 (map_rows 4 pre)"
  let ?I = "item_rows 6 s (rows_of (6 + 2) s)"
  let ?Q = "list_rows 6 sws @ map_rows 4 post @ list_rows 2 ws"
  let ?rs = "rows_of 0 (scenario es (us @ ?v # ws))"
  let ?l = "first_line es"
  define lp where "lp = ?l + sum_list (map item_height us)"
  define ld where "ld = lp + sum_list (map value_height pre)"
  let ?ls = "Suc ld + sum_list (map item_height sus)"
  let ?ph = "node_of lp ?v"
  have rows: "?rs = ?H @ (4, ''do:'') # list_rows 6 sus @ ?I @ ?Q"
    using scenario_rows [of "us @ ?v # ws" es] phase_rows [OF pre, of ?sts post] by simp
  have tx: "tx = rows_text ?rs" unfolding tx_def render_rows ..
  have doc: "doc_ok (scenario es (us @ ?v # ws))" using ok by (simp add: readable_def)
  then have dv: "doc_ok ?v" by (simp add: scenario_def)
  then have dsts: "''do'' \<notin> fst ` set pre" "doc_ok s" "\<forall>t \<in> set sws. doc_ok t" by auto
  have pl: "plain_rows ?rs" by (rule good_plain [OF doc])
  have ne: "?rs \<noteq> []" unfolding rows by simp
  have lH: "Suc (length ?H) = ld"
    using head_rows_length [of es] list_height_rows [of 2 us] map_height_rows [of "2 + 2" pre]
    by (simp add: ld_def lp_def)
  have lI: "length ?I = item_height s" by (rule item_height)
  have lS: "length (list_rows 6 sus) = sum_list (map item_height sus)" using list_height_rows [of 6 sus] by simp
  have phs: "phases_of tx = Some (node_of ?l (D_list (us @ ?v # ws)))"
    unfolding tx_def using ok by (intro scenario_phases) auto
  have at_ph: "suite_list_at (phases_of tx) (length us) = Some ?ph"
    unfolding phs list_at_item lp_def [symmetric] by (simp add: item_line_def)
  have find: "suite_map_find (Some ?ph) (Some ''do'') = Some (node_of (Suc ld) (D_list ?sts))"
    "do_key_line (Some ?ph) = ld"
    using find_do [OF dsts(1), of ?sts lp post] by (simp_all add: ld_def)
  have at_s: "suite_list_at (Some (node_of (Suc ld) (D_list ?sts))) (length sus) = Some (item_node ?ls s)"
    by (rule list_at_item)
  let ?b = "line_off (line_starts tx) (length tx) (?ls + item_height s)"
  have end_: "(if length sus + 1 < length ?sts
      then map_option (\<lambda>nx. line_off (line_starts tx) (length tx) (node_line nx))
             (suite_list_at (Some (node_of (Suc ld) (D_list ?sts))) (length sus + 1))
      else last_step_end tx (line_starts tx) (phases_of tx) (length us) (Some ?ph) (item_node ?ls s)) = Some ?b"
  proof (cases sws)
    case Nil
    have "length ?rs = ?l - 1 + sum_list (map item_height (us @ ?v # ws))"
      using scenario_rows [of "us @ ?v # ws" es] head_rows_length [of es] list_height_rows [of 2 "us @ ?v # ws"]
      by simp
    from last_end [OF refl _ maps(1) dsts(2) maps(3) tx pl ne this, of sus, folded lp_def, folded ld_def] Nil
    have "last_step_end tx (line_starts tx) (phases_of tx) (length us) (Some ?ph) (item_node ?ls s) = Some ?b"
      unfolding phs by (simp add: first_line_def add.assoc del: node_of.simps)
    with Nil show ?thesis by simp
  next
    case (Cons t sws')
    then have "is_D_map t" using maps(2) by simp
    with Cons list_at_next [of "Suc ld" sus s t sws'] show ?thesis
      by (simp add: node_line_map)
  qed
  have out: "render (scenario es (us @ ?v' # ws)) =
      rows_text (?H @ (if sus @ sws = [] then [] else (4, ''do:'') # list_rows 6 (sus @ sws)) @ map_rows 4 post @ list_rows 2 ws)"
    unfolding render_rows
    using scenario_rows [of "us @ ?v' # ws" es] phase_rows_without [OF pre, of "sus @ sws" post] by simp
  show ?thesis
  proof (cases "sus @ sws = []")
    case True
    have "trial_no_step tx (line_starts tx) (phases_of tx) (length us) (length sus) =
        cut tx (line_off (line_starts tx) (length tx) ld) ?b"
      unfolding trial_no_step_def Let_def at_ph find(1) using at_s end_ find(2) True lH
      by (simp add: list_len_node del: node_of.simps)
    also have "\<dots> = Some (rows_text (?H @ ?Q))"
    proof (rule cut_at_lines [OF _ pl ne tx])
      show "?rs = ?H @ ((4, ''do:'') # ?I) @ ?Q" unfolding rows using True by simp
      show "ld = Suc (length ?H)" using lH by (rule sym)
      show "?ls + item_height s = Suc (length ?H + length ((4, ''do:'') # ?I))" using lH lI True by simp
    qed
    finally show ?thesis using out True by simp
  next
    case False
    then have n1: "length ?sts \<noteq> 1" by auto
    have "trial_no_step tx (line_starts tx) (phases_of tx) (length us) (length sus) =
        cut tx (line_off (line_starts tx) (length tx) ?ls) ?b"
      unfolding trial_no_step_def Let_def at_ph find(1)
      by (simp only: list_len_node at_s end_ n1 option.simps node_line_map [OF maps(1)] if_False)
    also have "\<dots> = Some (rows_text ((?H @ (4, ''do:'') # list_rows 6 sus) @ ?Q))"
    proof (rule cut_at_lines [OF _ pl ne tx])
      let ?P = "?H @ (4, ''do:'') # list_rows 6 sus"
      show "?rs = ?P @ ?I @ ?Q" unfolding rows by simp
      show "?ls = Suc (length ?P)" using lH lS by simp
      show "?ls + item_height s = Suc (length ?P + length ?I)" using lH lI lS by simp
    qed
    finally show ?thesis using out False by auto
  qed
qed

end
