(* ===== verification/Nemesis_Props.thy ===== *)
theory Nemesis_Props
  imports Nemesis_Cut
begin

text \<open>
  The properties of the generator and of the shrinker, with example scenarios for them.
\<close>

section \<open>The generator\<close>

definition all_ok :: gen_io where
  "all_ok = \<lparr>io_open = True, io_put = (\<lambda>_. True), io_close = True\<rparr>"

definition demo :: nem_profile where
  "demo =
     \<lparr>p_seed = 7, p_nodes = 3, p_nphases = 6, p_max_drop = 1, p_max_kill = 1, p_max_restart = 1,
      p_allow_submit = 1, p_allow_stop = 1, p_sut = ''concord'' @ replicate 9 NUL\<rparr>"

lemma demo_ok: "profile_ok (Some demo)"
  by (simp add: profile_ok_def demo_def sut_copy_def sut_conc_def kMinNd_def kMaxNd_def kMinPh_def kMaxPh_def
      numeral_eq_Suc)

lemma gen_True:
  assumes "nemesis_gen io pp path = (True, f)"
  shows "\<exists>p tx phs. pp = Some p \<and> profile_ok pp \<and> f = Some tx \<and> gen_schedule p tx phs"
proof -
  have ok: "profile_ok pp" "path \<noteq> None" using assms by (auto simp: nemesis_gen_def split: if_splits)
  then obtain p o' where p: "pp = Some p" "path = Some o'" by (auto simp: profile_ok_def split: option.splits)
  obtain cs phs where g: "gen_schedule p (concat cs) phs"
    "\<forall>io path. nemesis_gen io (Some p) (Some path) =
      (if \<not> io_open io then (False, None)
       else let (ok, tx) = write_chunks (io_put io) 0 cs [] in (ok \<and> io_close io, Some tx))"
    using gen_text ok(1) unfolding p by blast
  obtain b tx where w: "write_chunks (io_put io) 0 cs [] = (b, tx)" by (cases "write_chunks (io_put io) 0 cs []")
  with assms g(2) p have "b" "f = Some tx" by (auto split: if_splits)
  with write_chunks_facts [OF w] g(1) p ok(1) show ?thesis by auto
qed

lemma demo_gen: "\<exists>tx. nemesis_gen all_ok (Some demo) (Some ''out.yaml'') = (True, Some tx)"
proof -
  obtain cs where g: "\<forall>io path. nemesis_gen io (Some demo) (Some path) =
      (if \<not> io_open io then (False, None)
       else let (ok, tx) = write_chunks (io_put io) 0 cs [] in (ok \<and> io_close io, Some tx))"
    using gen_text [OF demo_ok] by blast
  obtain b tx where w: "write_chunks (io_put all_ok) 0 cs [] = (b, tx)" by (cases "write_chunks (io_put all_ok) 0 cs []")
  with write_chunks_facts [OF w] have b by (simp add: all_ok_def)
  with g w show ?thesis by (simp add: all_ok_def)
qed

text \<open>
  C15. Where \<open>nemesis_gen\<close> succeeds, the file it has written is a valid scenario: it parses to
  the document of a schedule (a mesh phase, then \<open>nphases - 1\<close> phases, each with the commands,
  the condition and the timeout the profile allows), and it passes every check of
  \<open>trial_valid\<close>: unique phase names, one condition per phase, no stop and no wait for a workload
  before something was submitted.
\<close>

theorem nemesis_gen_valid:
  assumes "nemesis_gen io pp path = (True, f)"
  shows "\<exists>p tx phs nd s'. pp = Some p \<and> f = Some tx \<and> suite_parse tx = Ok nd \<and>
    doc_of nd = suite_doc p (sut_copy p = Some ''concord'')
      (mesh_phase (p_nodes p) (sut_copy p = Some ''concord'') # phs) \<and>
    int (length phs) = p_nphases p - 1 \<and> sched (sut_copy p = Some ''concord'') (p_nodes p) 1 (start_budget p, False) phs s' \<and>
    trial_valid tx"
proof -
  from gen_True [OF assms] obtain p tx phs where g: "pp = Some p" "profile_ok (Some p)" "f = Some tx" "gen_schedule p tx phs"
    by blast
  from gen_schedule_parses [OF g(2,4)] obtain nd where nd: "suite_parse tx = Ok nd"
    "doc_of nd = suite_doc p (sut_copy p = Some ''concord'')
      (mesh_phase (p_nodes p) (sut_copy p = Some ''concord'') # phs)" by blast
  from g(4) obtain s' where s: "sched (sut_copy p = Some ''concord'') (p_nodes p) 1 (start_budget p, False) phs s'" "length phs = nat (p_nphases p - 1)"
    by (auto simp: gen_schedule_def)
  have "trial_valid tx" using gen_doc_valid [OF nd(2) s(1)] nd(1) by (simp add: trial_valid_def)
  moreover have "int (length phs) = p_nphases p - 1" using s(2) profile_okD(3) [OF g(2)] by simp
  ultimately show ?thesis using g(1,3) nd s(1) by blast
qed

theorem nemesis_gen_valid_witness:
  "\<exists>tx. nemesis_gen all_ok (Some demo) (Some ''out.yaml'') = (True, Some tx) \<and> trial_valid tx"
proof -
  obtain tx where t: "nemesis_gen all_ok (Some demo) (Some ''out.yaml'') = (True, Some tx)" using demo_gen by blast
  from nemesis_gen_valid [OF t] t show ?thesis by auto
qed

text \<open>The fault commands of a schedule in order, and what it means that cuts are healed one by one.\<close>

definition commands :: "phase list \<Rightarrow> step list" where
  "commands phs = concat (map ph_steps phs)"

fun one_cut :: "int option \<Rightarrow> step list \<Rightarrow> bool" where
  "one_cut pend [] = True"
| "one_cut pend (S_drop n # sts) = (pend = None \<and> one_cut (Some n) sts)"
| "one_cut pend (S_heal n # sts) = (pend = Some n \<and> one_cut None sts)"
| "one_cut pend (S_kill n sig # sts) = (pend = None \<and> one_cut pend sts)"
| "one_cut pend (_ # sts) = one_cut pend sts"

fun drops :: "step list \<Rightarrow> nat" where
  "drops [] = 0"
| "drops (S_drop n # sts) = Suc (drops sts)"
| "drops (_ # sts) = drops sts"

fun kills :: "step list \<Rightarrow> nat" where
  "kills [] = 0"
| "kills (S_kill n sig # sts) = Suc (kills sts)"
| "kills (_ # sts) = kills sts"

lemma drops_append: "drops (xs @ ys) = drops xs + drops ys"
  by (induction xs rule: drops.induct) auto

lemma kills_append: "kills (xs @ ys) = kills xs + kills ys"
  by (induction xs rule: kills.induct) auto

definition pend_of :: "budget \<Rightarrow> int option" where
  "pend_of b = (if b_pend b < 0 then None else Some (b_pend b))"

text \<open>What one phase does to the budget, in terms of its commands.\<close>

lemma sched_step_budget:
  assumes "sched_step cc n s ph s'" "0 \<le> b_drop (fst s)" "0 \<le> b_kill (fst s)" "0 \<le> b_rest (fst s)"
  shows "int (drops (ph_steps ph)) + b_drop (fst s') = b_drop (fst s) \<and> 0 \<le> b_drop (fst s') \<and>
    int (kills (ph_steps ph)) + b_kill (fst s') = b_kill (fst s) \<and> 0 \<le> b_kill (fst s') \<and>
    int (kills (ph_steps ph)) + b_rest (fst s') = b_rest (fst s) \<and> 0 \<le> b_rest (fst s') \<and>
    (\<forall>sts. one_cut (pend_of (fst s')) sts \<longrightarrow> one_cut (pend_of (fst s)) (ph_steps ph @ sts))"
  using assms
  by (induction rule: sched_step.induct) (auto simp: pub_ok_def settle_ok_def pend_of_def split: if_splits)

lemma sched_budget:
  "sched cc n i s phs s' \<Longrightarrow> 0 \<le> b_drop (fst s) \<Longrightarrow> 0 \<le> b_kill (fst s) \<Longrightarrow> 0 \<le> b_rest (fst s) \<Longrightarrow>
   int (drops (commands phs)) \<le> b_drop (fst s) \<and> int (kills (commands phs)) \<le> b_kill (fst s) \<and>
   int (kills (commands phs)) \<le> b_rest (fst s) \<and> one_cut (pend_of (fst s)) (commands phs)"
proof (induction i s phs s' rule: sched.induct)
  case (next_phase s ph s1 i phs s2)
  from sched_step_budget [OF next_phase.hyps(1) next_phase.prems] next_phase.IH show ?case
    by (auto simp: commands_def drops_append kills_append)
qed (simp add: commands_def)

text \<open>
  C16. Fault discipline. In the commands of a generated scenario, in order, there are at most
  \<open>max_drop\<close> drops, at most \<open>max_kill\<close> kills and at most \<open>max_restart\<close> of them; never are two
  nodes cut off at once, a heal is always of the node that is cut off, and nothing is killed
  while a node is cut off.
\<close>

theorem nemesis_gen_faults:
  assumes "nemesis_gen io (Some p) path = (True, Some tx)"
  shows "\<exists>nd phs. suite_parse tx = Ok nd \<and>
    doc_of nd = suite_doc p (sut_copy p = Some ''concord'')
      (mesh_phase (p_nodes p) (sut_copy p = Some ''concord'') # phs) \<and>
    int (drops (commands phs)) \<le> p_max_drop p \<and> int (kills (commands phs)) \<le> p_max_kill p \<and>
    int (kills (commands phs)) \<le> p_max_restart p \<and> one_cut None (commands phs)"
proof -
  from gen_True [OF assms] obtain phs where g: "profile_ok (Some p)" "gen_schedule p tx phs" by blast
  from g(2) obtain s' where "sched (sut_copy p = Some ''concord'') (p_nodes p) 1 (start_budget p, False) phs s'" by (auto simp: gen_schedule_def)
  from sched_budget [OF this] profile_okD(5-7) [OF g(1)]
  have "int (drops (commands phs)) \<le> p_max_drop p \<and> int (kills (commands phs)) \<le> p_max_kill p \<and>
    int (kills (commands phs)) \<le> p_max_restart p \<and> one_cut None (commands phs)"
    by (simp add: start_budget_def pend_of_def)
  with gen_schedule_parses [OF g] show ?thesis by blast
qed

theorem nemesis_gen_faults_witness:
  "\<exists>tx nd phs. nemesis_gen all_ok (Some demo) (Some ''out.yaml'') = (True, Some tx) \<and> suite_parse tx = Ok nd \<and>
    drops (commands phs) \<le> 1 \<and> one_cut None (commands phs)"
proof -
  obtain tx where t: "nemesis_gen all_ok (Some demo) (Some ''out.yaml'') = (True, Some tx)" using demo_gen by blast
  from nemesis_gen_faults [OF t] obtain nd phs where "suite_parse tx = Ok nd"
    "int (drops (commands phs)) \<le> p_max_drop demo" "one_cut None (commands phs)" by blast
  with t show ?thesis by (intro exI [of _ tx] exI [of _ nd] exI [of _ phs]) (simp add: demo_def)
qed

text \<open>
  \<open>nemesis_gen\<close> refuses a bad profile or a null path without touching the file system. For a
  good profile there is one text, fixed by the profile alone, that it writes in pieces: it
  returns true exactly when the file opens, every write and the close succeed; and whatever
  fails, the file holds an initial part of that text.
\<close>

theorem nemesis_gen_outcomes:
  "(\<not> profile_ok pp \<or> path = None \<longrightarrow> nemesis_gen io pp path = (False, None)) \<and>
   (profile_ok (Some p) \<longrightarrow>
     (\<exists>cs. \<forall>io path. \<exists>ok f. nemesis_gen io (Some p) (Some path) = (ok, f) \<and>
        ok = (io_open io \<and> (\<forall>j < length cs. io_put io j) \<and> io_close io) \<and>
        (f = None \<longleftrightarrow> \<not> io_open io) \<and> (\<forall>tx. f = Some tx \<longrightarrow> prefix tx (concat cs) \<and> (ok \<longrightarrow> tx = concat cs))))"
proof (intro conjI impI)
  assume "\<not> profile_ok pp \<or> path = None"
  then show "nemesis_gen io pp path = (False, None)" by (auto simp: nemesis_gen_def)
next
  assume "profile_ok (Some p)"
  from gen_text [OF this] obtain cs where g: "\<forall>io path. nemesis_gen io (Some p) (Some path) =
      (if \<not> io_open io then (False, None)
       else let (ok, tx) = write_chunks (io_put io) 0 cs [] in (ok \<and> io_close io, Some tx))" by blast
  have "\<exists>ok f. nemesis_gen io (Some p) (Some path) = (ok, f) \<and>
        ok = (io_open io \<and> (\<forall>j < length cs. io_put io j) \<and> io_close io) \<and>
        (f = None \<longleftrightarrow> \<not> io_open io) \<and> (\<forall>tx. f = Some tx \<longrightarrow> prefix tx (concat cs) \<and> (ok \<longrightarrow> tx = concat cs))" for io path
  proof -
    obtain b tx where w: "write_chunks (io_put io) 0 cs [] = (b, tx)" by (cases "write_chunks (io_put io) 0 cs []")
    from write_chunks_facts [OF w] g w show ?thesis by (cases "io_open io") auto
  qed
  then show "\<exists>cs. \<forall>io path. \<exists>ok f. nemesis_gen io (Some p) (Some path) = (ok, f) \<and>
        ok = (io_open io \<and> (\<forall>j < length cs. io_put io j) \<and> io_close io) \<and>
        (f = None \<longleftrightarrow> \<not> io_open io) \<and> (\<forall>tx. f = Some tx \<longrightarrow> prefix tx (concat cs) \<and> (ok \<longrightarrow> tx = concat cs))"
    by blast
qed

theorem nemesis_gen_outcomes_witness:
  "nemesis_gen all_ok None (Some ''out.yaml'') = (False, None) \<and>
   (\<exists>cs. \<forall>path. \<exists>f. nemesis_gen (all_ok\<lparr>io_close := False\<rparr>) (Some demo) (Some path) = (False, Some f) \<and> prefix f (concat cs))"
proof
  show "nemesis_gen all_ok None (Some ''out.yaml'') = (False, None)"
    using nemesis_gen_outcomes [of None "Some ''out.yaml''" all_ok demo] by (simp add: profile_ok_def)
  show "\<exists>cs. \<forall>path. \<exists>f. nemesis_gen (all_ok\<lparr>io_close := False\<rparr>) (Some demo) (Some path) = (False, Some f) \<and> prefix f (concat cs)"
  proof -
    let ?io = "all_ok\<lparr>io_close := False\<rparr>"
    from mp [OF conjunct2 [OF nemesis_gen_outcomes [of None "Some ''out.yaml''" all_ok demo]] demo_ok]
    obtain cs where c: "\<forall>path. \<exists>ok f. nemesis_gen ?io (Some demo) (Some path) = (ok, f) \<and>
        ok = (io_open ?io \<and> (\<forall>j < length cs. io_put ?io j) \<and> io_close ?io) \<and>
        (f = None \<longleftrightarrow> \<not> io_open ?io) \<and> (\<forall>tx. f = Some tx \<longrightarrow> prefix tx (concat cs) \<and> (ok \<longrightarrow> tx = concat cs))"
      by blast
    have "\<exists>f. nemesis_gen ?io (Some demo) (Some path) = (False, Some f) \<and> prefix f (concat cs)" for path
      using spec [OF c, of path] by (auto simp: all_ok_def)
    then show ?thesis by blast
  qed
qed

section \<open>Example scenarios\<close>

definition demo_weld :: nem_profile where
  "demo_weld = demo\<lparr>p_sut := ''weld'' @ replicate 12 NUL\<rparr>"

text \<open>A mesh phase with \<open>k\<close> drops, and a phase that waits.\<close>

definition x_phase :: "nat \<Rightarrow> phase" where
  "x_phase k = \<lparr>ph_name = ''mesh'', ph_steps = replicate k (S_drop 0), ph_cond = C_mesh 2, ph_timeout = 30\<rparr>"

definition wait_phase :: phase where
  "wait_phase = \<lparr>ph_name = ''p01'', ph_steps = [], ph_cond = C_mesh 2, ph_timeout = 30\<rparr>"

definition x_text :: "phase list \<Rightarrow> string" where
  "x_text phs = render (suite_doc demo_weld False phs)"

definition oracle_world :: "int \<Rightarrow> string \<Rightarrow> world_io" where
  "oracle_world v tx =
     \<lparr>w_input = Some tx, w_first = (\<lambda>_. 1), w_temp = (\<lambda>_. True), w_oracle = (\<lambda>_ _. v), w_output = True\<rparr>"

definition fields :: "(string \<times> doc) list" where
  "fields =
     [(''name'', D_text (''nemesis-w-'' @ fmt_x 8 (p_seed demo_weld AND 0xffffffff))), (''version'', D_text ''1''),
      (''sut'', D_text ''weld''), (''nodes'', D_int (p_nodes demo_weld)), (''domain'', D_text ''64''),
      (''timeout_s'', D_int (p_nphases demo_weld * kFileTo))]"

lemma suite_scenario: "suite_doc demo_weld False phs = scenario fields (map phase_doc phs)"
  by (simp add: suite_doc_def scenario_def fields_def)

lemma example_sane: "phase_sane (x_phase k)" "phase_sane wait_phase"
proof -
  have "sane ''p01''" by (intro sane_plain) (simp_all add: plain_text_def plain_char_def)
  then show "phase_sane (x_phase k)" "phase_sane wait_phase"
    using sane_int [of 0] sane_int [of 2] sane_int [of 30]
    by (auto simp: phase_sane_def x_phase_def wait_phase_def list_all_iff)
qed

lemma example_readable:
  assumes "\<forall>ph \<in> set phs. phase_sane ph"
  shows "readable (suite_doc demo_weld False phs)"
proof -
  have "doc_sane 7 (suite_doc demo_weld False phs)"
    using assms by (intro suite_doc_sane) (auto simp: demo_weld_def demo_def kMaxNd_def kMaxPh_def)
  then have "doc_ok (suite_doc demo_weld False phs)" "height (suite_doc demo_weld False phs) \<le> kMaxDepth"
    "lines_fit (suite_doc demo_weld False phs)"
    using narrow_fits [of 30 "suite_doc demo_weld False phs"] by (auto simp: doc_sane_def kMaxDepth_def kMaxLine_def)
  then show ?thesis by (simp add: readable_def suite_doc_def)
qed

lemma example_parse:
  "\<forall>ph \<in> set phs. phase_sane ph \<Longrightarrow> suite_parse (x_text phs) = Ok (node_of 1 (suite_doc demo_weld False phs))"
  using example_readable unfolding x_text_def readable_def by (intro parse_rows) auto

lemma steps_saw_drops: "steps_saw (replicate k (S_drop n)) saw = Some saw"
  by (induction k) auto

lemma example_valid: "trial_valid (x_text [x_phase k])" "trial_valid (x_text [x_phase k, wait_phase])"
proof -
  have x: "phase_valid [] m False = Some False" if "doc_of m = phase_doc (x_phase k)" for m
    by (rule phase_valid_doc [OF that]) (simp_all add: x_phase_def steps_saw_drops)
  have w: "phase_valid [m] m' False = Some False"
    if "doc_of m = phase_doc (x_phase k)" "doc_of m' = phase_doc wait_phase" for m m'
    by (rule phase_valid_doc [OF that(2)]) (use that(1) in \<open>auto simp: x_phase_def wait_phase_def\<close>)
  have "doc_valid (node_of 1 (suite_doc demo_weld False [x_phase k]))"
    by (rule suite_doc_valid [OF doc_of_node]) (auto simp: map_eq_Cons_conv x)
  then show "trial_valid (x_text [x_phase k])"
    using example_parse [of "[x_phase k]"] example_sane by (simp add: trial_valid_def)
  have "doc_valid (node_of 1 (suite_doc demo_weld False [x_phase k, wait_phase]))"
    by (rule suite_doc_valid [OF doc_of_node]) (auto simp: map_eq_Cons_conv x w)
  then show "trial_valid (x_text [x_phase k, wait_phase])"
    using example_parse [of "[x_phase k, wait_phase]"] example_sane by (simp add: trial_valid_def)
qed

lemma example_phases:
  assumes "\<forall>ph \<in> set phs. phase_sane ph" "phs \<noteq> []"
  shows "phases_of (x_text phs) = Some (node_of (first_line fields) (D_list (map phase_doc phs)))"
  using scenario_phases [of fields "map phase_doc phs"] example_readable [OF assms(1)] assms(2)
  by (simp add: x_text_def suite_scenario)

lemma drop_entry: "phase_doc (x_phase (Suc k)) =
    D_map ([(''name'', D_text ''mesh'')] @ (''do'', D_list (replicate k (step_doc (S_drop 0)) @ step_doc (S_drop 0) # [])) #
      [(''until'', cond_doc (C_mesh 2)), (''timeout_s'', D_int 30)])"
  by (simp add: phase_doc_def x_phase_def replicate_append_same)

lemma drop_entry': "phase_doc (x_phase k) =
    D_map ([(''name'', D_text ''mesh'')] @ do_entry (replicate k (step_doc (S_drop 0)) @ []) @
      [(''until'', cond_doc (C_mesh 2)), (''timeout_s'', D_int 30)])"
  by (simp add: phase_doc_def x_phase_def do_entry_def)

text \<open>Deletions in these texts.\<close>

lemma example_step:
  "trial_no_step (x_text [x_phase (Suc k)]) (line_starts (x_text [x_phase (Suc k)])) (phases_of (x_text [x_phase (Suc k)])) 0 k =
     Some (x_text [x_phase k])"
proof -
  have "readable (scenario fields ([] @ phase_doc (x_phase (Suc k)) # []))"
    using example_readable [of "[x_phase (Suc k)]"] example_sane by (simp add: suite_scenario)
  from delete_step [OF this [unfolded drop_entry]] show ?thesis
    unfolding x_text_def suite_scenario list.map drop_entry drop_entry' [of k] by (simp add: is_D_map_def)
qed

lemma example_phase:
  "trial_no_phase (x_text [x_phase k, wait_phase]) (line_starts (x_text [x_phase k, wait_phase]))
     (phases_of (x_text [x_phase k, wait_phase])) 1 = Some (x_text [x_phase k])"
proof -
  have "readable (scenario fields ([phase_doc (x_phase k)] @ phase_doc wait_phase # []))"
    using example_readable [of "[x_phase k, wait_phase]"] example_sane by (simp add: suite_scenario)
  from delete_phase [OF this] show ?thesis
    unfolding x_text_def suite_scenario by (simp add: phase_doc_def is_D_map_def)
qed

lemma example_do:
  "suite_map_find (suite_list_at (phases_of (x_text [x_phase k])) 0) (Some ''do'') =
     (if k = 0 then None else Some (Suite_List
        (node_line (the (suite_map_find (suite_list_at (phases_of (x_text [x_phase k])) 0) (Some ''do''))))
        (case the (suite_map_find (suite_list_at (phases_of (x_text [x_phase k])) 0) (Some ''do'')) of
           Suite_List _ ns \<Rightarrow> ns | _ \<Rightarrow> []))) \<and>
   suite_list_len (suite_map_find (suite_list_at (phases_of (x_text [x_phase k])) 0) (Some ''do'')) = k"
proof -
  have "phases_of (x_text [x_phase k]) = Some (node_of (first_line fields) (D_list ([] @ phase_doc (x_phase k) # [])))"
    using example_phases [of "[x_phase k]"] example_sane by simp
  then obtain nd where n: "suite_list_at (phases_of (x_text [x_phase k])) 0 = Some nd" "doc_of nd = phase_doc (x_phase k)"
    using list_at_item [of "first_line fields" "[]" "phase_doc (x_phase k)" "[]"] doc_of_node by auto
  from phase_find(5) [OF n(2)] have
    "map_option doc_of (suite_map_find (Some nd) (Some ''do'')) =
      (if k = 0 then None else Some (D_list (map step_doc (replicate k (S_drop 0)))))"
    by (simp add: x_phase_def)
  then show ?thesis unfolding n(1)
    by (auto simp: doc_of_D_list suite_list_len_def split: if_splits) (metis length_map length_replicate)
qed

lemma example_sweep:
  assumes "t < kMaxTry"
  shows "steps_sweep (oracle_world 1 tx) (x_text [x_phase (Suc k)]) (phases_of (x_text [x_phase (Suc k)]))
      (suite_list_len (phases_of (x_text [x_phase (Suc k)]))) t c = (Moved (x_text [x_phase k]), Suc t, Suc c)"
proof -
  have "suite_list_len (phases_of (x_text [x_phase (Suc k)])) = Suc 0"
    using example_phases [of "[x_phase (Suc k)]"] example_sane by (simp add: list_len_node del: node_of.simps)
  moreover obtain d where "suite_map_find (suite_list_at (phases_of (x_text [x_phase (Suc k)])) 0) (Some ''do'') = Some d"
      "suite_list_len (Some d) = Suc k"
    using example_do [of "Suc k"] by auto
  moreover have "judge (oracle_world 1 tx) c (Some (x_text [x_phase k])) = (Moved (x_text [x_phase k]), Suc c)"
    using example_valid(1) by (simp add: judge_def call_oracle_def oracle_world_def)
  ultimately show ?thesis using assms example_step [of k] by simp
qed

lemma shrink_six:
  "nemesis_minimize (oracle_world 1 (x_text [x_phase 6])) (Some ''in'') True (Some ''out'') = Some (x_text [x_phase 2], 4)"
proof -
  let ?w = "oracle_world 1 (x_text [x_phase 6])"
  have ph: "\<exists>p. phases_of (x_text [x_phase k]) = Some p" for k
    using example_phases [of "[x_phase k]"] example_sane by simp
  have len: "suite_list_len (phases_of (x_text [x_phase k])) = Suc 0" for k
    using example_phases [of "[x_phase k]"] example_sane by (simp add: list_len_node del: node_of.simps)
  have "drop_phases ?w (x_text [x_phase 6]) 0 0 = Some (x_text [x_phase 6], 0, 0)"
    using ph [of 6] len [of 6] by (subst drop_phases.simps) auto
  moreover have "drop_steps (Suc n) ?w (x_text [x_phase (Suc k)]) t c = drop_steps n ?w (x_text [x_phase k]) (Suc t) (Suc c)"
    if "t < kMaxTry" for n k t c
    using example_sweep [OF that, of "x_text [x_phase 6]" k c] ph [of "Suc k"] that by auto
  then have "drop_steps kMaxPass ?w (x_text [x_phase 6]) 0 0 = Some (x_text [x_phase 2], 4, 4)"
    by (simp add: kMaxPass_def kMaxTry_def numeral_eq_Suc)
  ultimately show ?thesis
    using example_valid(1) by (simp add: nemesis_minimize_def oracle_world_def)
qed

lemma keep_two:
  "drop_phases (oracle_world 0 (x_text [x_phase 0, wait_phase])) (x_text [x_phase 0, wait_phase]) 0 0 =
     Some (x_text [x_phase 0, wait_phase], 1, 1)"
proof -
  let ?tx = "x_text [x_phase 0, wait_phase]" and ?w = "oracle_world 0 (x_text [x_phase 0, wait_phase])"
  have ph: "phases_of ?tx = Some (node_of (first_line fields) (D_list (map phase_doc [x_phase 0, wait_phase])))"
    using example_sane by (intro example_phases) auto
  have len: "suite_list_len (phases_of ?tx) = Suc (Suc 0)" unfolding ph list_len_node by simp
  have "judge ?w 0 (Some (x_text [x_phase 0])) = (Still, 1)"
    using example_valid(1) by (simp add: judge_def call_oracle_def oracle_world_def)
  then have "phase_sweep ?w ?tx (phases_of ?tx) (suite_list_len (phases_of ?tx)) 0 0 = (Still, 1, 1)"
    using example_phase [of 0] by (simp add: len kMaxTry_def)
  with ph show ?thesis by (subst drop_phases.simps) (simp add: kMaxTry_def)
qed

section \<open>The shrinker\<close>

text \<open>
  C17. What \<open>nemesis_minimize\<close> writes was obtained from the input by deleting phases, never
  the first, and then at most \<open>kMaxPass\<close> single steps; it is a structurally valid scenario,
  and the oracle answered that it fails: either it is the input itself, which the first call
  judged, or one of the trials it judged. It judges at most \<open>kMaxTry\<close> trials, and the result
  is a subsequence of the input.
\<close>

theorem minimize_sound:
  assumes "nemesis_minimize w yamlpath has_oracle outpath = Some (res, k)"
  shows "\<exists>input mid m. w_input w = Some input \<and> trial_valid input \<and> w_first w input = 1 \<and>
    phase_cut\<^sup>*\<^sup>* input mid \<and> m \<le> kMaxPass \<and> (step_cut ^^ m) mid res \<and>
    subseq res input \<and> trial_valid res \<and> k \<le> kMaxTry \<and>
    (res = input \<or> (\<exists>i < k. w_temp w i \<and> w_oracle w i res = 1))"
proof -
  from assms obtain input where i: "w_input w = Some input" "trial_valid input" "w_first w input = 1"
    by (auto simp: nemesis_minimize_def Let_def split: option.split_asm if_split_asm)
  from assms i obtain mid t1 k1 t2 where d: "drop_phases w input 0 0 = Some (mid, t1, k1)"
      "drop_steps kMaxPass w mid t1 k1 = Some (res, t2, k)"
    by (auto simp: nemesis_minimize_def Let_def split: option.split_asm if_split_asm)
  have "kept w input (input, 0, 0)" using i by (simp add: kept_def)
  note p = drop_phases_kept [OF d(1) this]
  then obtain m where m: "kept w input (res, t2, k)" "m \<le> kMaxPass" "(step_cut ^^ m) mid res"
    using drop_steps_kept [OF d(2)] by blast
  from p have s1: "subseq mid input" using cuts_subseq phase_cut_subseq by blast
  have "subseq res mid" using cuts_subseq step_cut_subseq relpowp_imp_rtranclp [OF m(3)] by blast
  then have "subseq res input" using s1 by (rule subseq_order.order_trans)
  moreover have "trial_valid res" "k \<le> kMaxTry" "res = input \<or> (\<exists>i < k. w_temp w i \<and> w_oracle w i res = 1)"
    using m(1) by (auto simp: kept_def)
  ultimately show ?thesis using i p m(2,3) by blast
qed

theorem minimize_sound_witness:
  "nemesis_minimize (oracle_world 1 (x_text [x_phase 6])) (Some ''in'') True (Some ''out'') = Some (x_text [x_phase 2], 4) \<and>
   trial_valid (x_text [x_phase 2]) \<and> subseq (x_text [x_phase 2]) (x_text [x_phase 6])"
  using shrink_six minimize_sound [OF shrink_six] by (auto simp: oracle_world_def)

text \<open>
  A deletion of a phase in the text is a deletion in the document: on the rendering of a
  scenario whose phases are maps, \<open>trial_no_phase\<close>, which works with line offsets and cuts
  bytes, gives the rendering of the scenario without that phase (for every phase but the first,
  the only ones the shrinker tries).
\<close>

theorem trial_no_phase_deletes:
  assumes "readable (scenario es (us @ v # ws))" "us \<noteq> []" "is_D_map v" "\<forall>w \<in> set ws. is_D_map w"
    and "tx = render (scenario es (us @ v # ws))"
  shows "trial_no_phase tx (line_starts tx) (phases_of tx) (length us) = Some (render (scenario es (us @ ws)))"
  using delete_phase [OF assms(1-4)] assms(5) by simp

theorem trial_no_phase_deletes_witness:
  "trial_no_phase (x_text [x_phase 1, wait_phase]) (line_starts (x_text [x_phase 1, wait_phase]))
     (phases_of (x_text [x_phase 1, wait_phase])) 1 = Some (x_text [x_phase 1])"
proof -
  have "readable (scenario fields ([phase_doc (x_phase 1)] @ phase_doc wait_phase # []))"
    using example_readable [of "[x_phase 1, wait_phase]"] example_sane by (simp add: suite_scenario)
  from trial_no_phase_deletes [OF this _ _ _ refl] show ?thesis
    unfolding x_text_def suite_scenario by (simp add: phase_doc_def is_D_map_def)
qed

text \<open>
  C20. The same for a step: \<open>trial_no_step\<close> gives the rendering of the scenario without the step,
  and without the whole \<open>do\<close> entry when the step was the only one, whatever keys, steps and
  phases come before and after (a phase starts with another key than \<open>do\<close>, as the generator's
  do).
\<close>

theorem trial_no_step_deletes:
  assumes "readable (scenario es (us @ D_map (pre @ (''do'', D_list (sus @ s # sws)) # post) # ws))"
    and "pre \<noteq> []" "is_D_map s" "\<forall>t \<in> set sws. is_D_map t" "\<forall>w \<in> set ws. is_D_map w"
    and "tx = render (scenario es (us @ D_map (pre @ (''do'', D_list (sus @ s # sws)) # post) # ws))"
  shows "trial_no_step tx (line_starts tx) (phases_of tx) (length us) (length sus) =
    Some (render (scenario es (us @ D_map (pre @ do_entry (sus @ sws) @ post) # ws)))"
  using delete_step [OF assms(1-5)] assms(6) by simp

theorem trial_no_step_deletes_witness:
  "trial_no_step (x_text [x_phase 1]) (line_starts (x_text [x_phase 1])) (phases_of (x_text [x_phase 1])) 0 0 =
     Some (x_text [x_phase 0])"
proof -
  have "readable (scenario fields ([] @ phase_doc (x_phase (Suc 0)) # []))"
    using example_readable [of "[x_phase (Suc 0)]"] example_sane by (simp add: suite_scenario)
  from trial_no_step_deletes [OF this [unfolded drop_entry] _ _ _ _ refl] show ?thesis
    unfolding x_text_def suite_scenario list.map One_nat_def drop_entry drop_entry' [of 0] by (simp add: is_D_map_def)
qed

text \<open>
  C18. What the phase loop leaves is minimal: for an oracle that answers by the text alone, when
  the tries are not used up, no valid scenario with one phase fewer (the first always stays)
  still fails.
\<close>

theorem phases_minimal:
  assumes "drop_phases w cur 0 0 = Some (res, tries, k)" "tries < kMaxTry" "\<And>i. w_oracle w i = f"
    and "phase_cut res tt" "trial_valid tt"
  shows "f tt \<noteq> 1"
  using drop_phases_swept [OF assms(1,2,4,5)] assms(3) by auto

theorem phases_minimal_witness:
  "drop_phases (oracle_world 0 (x_text [x_phase 0, wait_phase])) (x_text [x_phase 0, wait_phase]) 0 0 =
     Some (x_text [x_phase 0, wait_phase], 1, 1) \<and>
   phase_cut (x_text [x_phase 0, wait_phase]) (x_text [x_phase 0]) \<and> trial_valid (x_text [x_phase 0]) \<and>
   w_oracle (oracle_world 0 (x_text [x_phase 0, wait_phase])) 0 (x_text [x_phase 0]) \<noteq> 1"
proof -
  let ?w = "oracle_world 0 (x_text [x_phase 0, wait_phase])"
  have c: "phase_cut (x_text [x_phase 0, wait_phase]) (x_text [x_phase 0])"
    using example_phase [of 0] by (auto simp: phase_cut_def)
  have "w_oracle ?w i = w_oracle ?w 0" for i by (simp add: oracle_world_def)
  from phases_minimal [OF keep_two _ this c example_valid(1)] c keep_two example_valid(1)
  show ?thesis by (simp add: kMaxTry_def)
qed

text \<open>
  C19. The shrinker always comes to an end, and with a result when its surroundings do their
  part: the input can be read, is valid and fails, every temporary file can be written and the
  oracle answers with a verdict, and the output can be written.
\<close>

theorem minimize_returns:
  assumes "w_input w = Some input" "trial_valid input" "w_first w input = 1" "w_output w"
    and "\<And>i tx. w_temp w i \<and> 0 \<le> w_oracle w i tx \<and> w_oracle w i tx \<le> 2"
  shows "\<exists>res k. nemesis_minimize w (Some inpath) True (Some outpath) = Some (res, k)"
proof -
  have ok: "call_oracle w i tx \<noteq> None" for i tx using assms(5) [of i tx] by (simp add: call_oracle_def)
  have k0: "kept w input (input, 0, 0)" using assms by (simp add: kept_def)
  from drop_phases_returns [OF ok k0] obtain mid t k where d: "drop_phases w input 0 0 = Some (mid, t, k)" by auto
  from drop_phases_kept [OF d k0] have "kept w input (mid, t, k)" by blast
  from drop_steps_returns [OF ok this, of kMaxPass] obtain res t' k' where
    "drop_steps kMaxPass w mid t k = Some (res, t', k')" by auto
  with assms d show ?thesis by (simp add: nemesis_minimize_def)
qed

theorem minimize_returns_witness:
  "\<exists>res k. nemesis_minimize (oracle_world 2 (x_text [x_phase 1])) (Some ''in'') True (Some ''out'') = Some (res, k)"
  by (rule minimize_returns [of _ "x_text [x_phase 1]"]) (simp_all add: oracle_world_def example_valid [unfolded One_nat_def])

text \<open>
  The step loop stops early: its passes are counted, unlike those of the phase loop, which
  start over after every success, so at most \<open>kMaxPass\<close> steps are ever removed. Of six steps,
  none of which matters, two are left, although removing one more still gives a valid scenario
  that fails.
\<close>

theorem minimize_leaves_steps:
  "nemesis_minimize (oracle_world 1 (x_text [x_phase 6])) (Some ''in'') True (Some ''out'') = Some (x_text [x_phase 2], 4) \<and>
   step_cut (x_text [x_phase 2]) (x_text [x_phase 1]) \<and> trial_valid (x_text [x_phase 1]) \<and>
   (\<forall>i. w_oracle (oracle_world 1 (x_text [x_phase 6])) i (x_text [x_phase 1]) = 1)"
  using shrink_six example_step [of 1] example_valid(1)
  by (auto simp: step_cut_def oracle_world_def numeral_2_eq_2)

end
