(* ===== verification/Nemesis_Lint.thy ===== *)
theory Nemesis_Lint
  imports Nemesis_Props Exec_Table
begin

text \<open>
  The scenarios \<open>nemesis_gen\<close> writes are scenarios \<open>suite_lint_file\<close> accepts: the linter is
  followed through the document of a schedule, phase by phase, with the registry of workload
  names beside it.
\<close>

section \<open>Scalars\<close>

lemma need_int_fmt [simp]: "0 \<le> n \<Longrightarrow> n \<le> LLONG_MAX \<Longrightarrow> need_int (Suite_Scalar l (fmt_d n)) = Some n"
  using scalar_int_fmt_d [of n l] by (simp add: need_int_def)

lemma scalar_text [simp]: "suite_scalar_str (Some (Suite_Scalar l s)) = Some s"
  by (simp add: suite_scalar_str_def)

lemma hd_fmt_d: "0 \<le> n \<Longrightarrow> \<exists>d < 10. \<exists>cs. fmt_d n = digit_char d # cs"
  using digits_chars [of 10 "nat n"] by (cases "digits 10 (nat n)") (auto simp: fmt_d_def)

lemma digit_not_letter: "d < 10 \<Longrightarrow> digit_char d \<noteq> CHR ''w'' \<and> digit_char d \<noteq> CHR ''r'' \<and> digit_char d \<noteq> CHR ''c''"
proof -
  have "list_all (\<lambda>d. digit_char d \<noteq> CHR ''w'' \<and> digit_char d \<noteq> CHR ''r'' \<and> digit_char d \<noteq> CHR ''c'') [0..<10]"
    by (simp add: upt_rec digit_char_def numeral_eq_Suc)
  then show "d < 10 \<Longrightarrow> ?thesis" by (simp add: list_all_iff)
qed

lemma ep_parse_fmt [simp]:
  assumes "0 \<le> k" "k < nodes" "nodes \<le> LLONG_MAX"
  shows "ep_parse_node nodes sut (Suite_Scalar l (fmt_d k)) = Some (sut_def_ep sut, k)"
proof -
  obtain d cs where d: "d < 10" "fmt_d k = digit_char d # cs" using hd_fmt_d [OF assms(1)] by blast
  have "ep_prefix nodes (fmt_d k) = None" "ros_from nodes (fmt_d k) = None"
    using digit_not_letter [OF d(1)] by (simp_all add: ep_prefix_def ros_from_def d(2) numeral_eq_Suc)
  with assms show ?thesis by (simp add: ep_parse_node_def Let_def)
qed

lemma digit_char_alnum: "d < 16 \<Longrightarrow> alnum (digit_char d)"
proof -
  have "list_all (\<lambda>d. alnum (digit_char d)) [0..<16]"
    by (simp add: upt_rec digit_char_def numeral_eq_Suc alnum_def digit_def between_def)
  then show "d < 16 \<Longrightarrow> ?thesis" by (simp add: list_all_iff)
qed

section \<open>Steps\<close>

text \<open>The file of a schedule, as far as the linter has read it when it comes to the phases.\<close>

definition sched_file :: "bool \<Rightarrow> int \<Rightarrow> ex_file \<Rightarrow> bool" where
  "sched_file cc n f = (f_nodes f = n \<and> f_sut f = (if cc then kConcord else kWeld) \<and> 1 \<le> n \<and> n \<le> kMaxNd)"

fun step_legal :: "bool \<Rightarrow> int \<Rightarrow> step \<Rightarrow> bool" where
  "step_legal cc n (S_drop k) = (0 \<le> k \<and> k < n)"
| "step_legal cc n (S_heal k) = (0 \<le> k \<and> k < n)"
| "step_legal cc n (S_kill k sig) = (0 \<le> k \<and> k < n \<and> sig \<in> {''KILL'', ''TERM''})"
| "step_legal cc n (S_restart k) = (0 \<le> k \<and> k < n)"
| "step_legal cc n (S_submit k) = (cc \<and> 0 \<le> k \<and> k < n)"
| "step_legal cc n S_stop = cc"
| "step_legal cc n (S_pub k tx) = (\<not> cc \<and> 0 \<le> k \<and> k < n \<and> tx \<noteq> [] \<and> length tx < 30)"

text \<open>What the registry sees of the step.\<close>

definition step_seen :: "step \<Rightarrow> ex_step \<Rightarrow> bool" where
  "step_seen st s =
     (case st of
        S_submit k \<Rightarrow> s_kind s = ST_SUBMIT \<and> \<not> s_has_as s \<and> \<not> s_has_count s
      | S_stop \<Rightarrow> s_kind s = ST_STOP \<and> s_wl s = ''submitted''
      | _ \<Rightarrow> s_kind s \<notin> {ST_SUBMIT, ST_STOP, ST_UPDATE, ST_BENCH})"

lemma small_nodes: "sched_file cc n f \<Longrightarrow> k < n \<Longrightarrow> k \<le> LLONG_MAX \<and> n \<le> LLONG_MAX \<and> f_nodes f = n"
  by (simp add: sched_file_def kMaxNd_def LLONG_MAX_def)

lemma has_ramp_verbs: "\<not> has_ramp ''drop''" "\<not> has_ramp ''heal''" "\<not> has_ramp ''kill''" "\<not> has_ramp ''restart''"
  "\<not> has_ramp ''submit''" "\<not> has_ramp ''stop''" "\<not> has_ramp ''pub''"
  by (simp_all add: has_ramp_def)

lemmas lint_verb_simps = val_step_def verbs_def has_ramp_verbs suite_map_find_def val_extra_def step_seen_def

lemma doc_shapes:
  "D_text t = doc_of n \<longleftrightarrow> (\<exists>l. n = Suite_Scalar l t)"
  "D_list ds = doc_of n \<longleftrightarrow> (\<exists>l ns. n = Suite_List l ns \<and> ds = map doc_of ns)"
  "D_map es = doc_of n \<longleftrightarrow> (\<exists>l xs. n = Suite_Map l xs \<and> es = map (\<lambda>e. (fst e, doc_of (snd (snd e)))) xs)"
  "doc_of n = D_list ds \<longleftrightarrow> (\<exists>l ns. n = Suite_List l ns \<and> ds = map doc_of ns)"
  "doc_of n = D_map es \<longleftrightarrow> (\<exists>l xs. n = Suite_Map l xs \<and> es = map (\<lambda>e. (fst e, doc_of (snd (snd e)))) xs)"
  by (cases n; auto)+

lemma image_probe: "image_ok (Some ''probe'')"
  by (simp add: image_ok_def alnum_def between_def)

lemma name_submitted: "wl_name_ok (Some ''submitted'')"
  by (simp add: wl_name_ok_def alnum_def between_def kWlLen_def)

lemma step_lints:
  assumes "doc_of nd = step_doc st" "step_legal cc n st" "sched_file cc n f"
  shows "\<exists>s. val_step nd f = Accept s \<and> step_seen st s"
proof (cases st)
  case (S_drop k)
  with assms(1) obtain l1 l2 l3 l4 where "nd = Suite_Map l1 [(''drop'', l2, Suite_List l3 [Suite_Scalar l4 (fmt_d k)])]"
    by (auto simp: doc_shapes)
  then show ?thesis using assms(2,3) S_drop small_nodes [OF assms(3), of k]
    by (auto simp: lint_verb_simps step_drop_def val_nodeset_def step0_def kMaxNodes_def)
next
  case (S_heal k)
  with assms(1) obtain l1 l2 l3 l4 where "nd = Suite_Map l1 [(''heal'', l2, Suite_List l3 [Suite_Scalar l4 (fmt_d k)])]"
    by (auto simp: doc_shapes)
  then show ?thesis using assms(2,3) S_heal small_nodes [OF assms(3), of k]
    by (auto simp: lint_verb_simps step_drop_def val_nodeset_def step0_def kMaxNodes_def)
next
  case (S_kill k sig)
  with assms(1) obtain l1 l2 l3 l4 l5 l6 l7 where
    "nd = Suite_Map l1 [(''kill'', l2, Suite_Map l3 [(''node'', l4, Suite_Scalar l5 (fmt_d k)), (''signal'', l6, Suite_Scalar l7 sig)])]"
    by (auto simp: doc_shapes)
  then show ?thesis using assms(2,3) S_kill small_nodes [OF assms(3), of k]
    by (auto simp: lint_verb_simps step_kill_def step0_def)
next
  case (S_restart k)
  with assms(1) obtain l1 l2 l3 l4 l5 l6 l7 where
    "nd = Suite_Map l1 [(''restart'', l2, Suite_Map l3 [(''node'', l4, Suite_Scalar l5 (fmt_d k)),
       (''durability'', l6, Suite_Scalar l7 ''fresh'')])]"
    by (auto simp: doc_shapes)
  then show ?thesis using assms(2,3) S_restart small_nodes [OF assms(3), of k]
    by (auto simp: lint_verb_simps step_restart_def step0_def dur_of_def kDurFresh_def kDurKeep_def)
next
  case (S_submit k)
  with assms(1) obtain l1 l2 l3 l4 l5 l6 l7 where
    "nd = Suite_Map l1 [(''submit'', l2, Suite_Map l3 [(''node'', l4, Suite_Scalar l5 (fmt_d k)),
       (''image'', l6, Suite_Scalar l7 ''probe'')])]"
    by (auto simp: doc_shapes)
  then show ?thesis using assms(2,3) S_submit small_nodes [OF assms(3), of k]
    by (auto simp: lint_verb_simps step_submit_def step0_def val_image_def image_probe sched_file_def sut_def_ep_def kConcord_def)
next
  case S_stop
  with assms(1) obtain l1 l2 l3 l4 l5 where
    "nd = Suite_Map l1 [(''stop'', l2, Suite_Map l3 [(''workload'', l4, Suite_Scalar l5 ''submitted'')])]"
    by (auto simp: doc_shapes)
  then show ?thesis using assms(2,3) S_stop
    by (auto simp: lint_verb_simps step_stop_def step0_def val_wl_def name_submitted sched_file_def kWlLen_def)
next
  case (S_pub k tx)
  with assms(1) obtain l1 l2 l3 l4 l5 l6 l7 where
    "nd = Suite_Map l1 [(''pub'', l2, Suite_Map l3 [(''from'', l4, Suite_Scalar l5 (fmt_d k)), (''text'', l6, Suite_Scalar l7 tx)])]"
    by (auto simp: doc_shapes)
  then show ?thesis using assms(2,3) S_pub small_nodes [OF assms(3), of k]
    by (auto simp: lint_verb_simps step_pub_def step0_def sched_file_def sut_def_ep_def kWeld_def kTextLen_def nonempty_def)
qed

lemma steps_lint:
  "map doc_of ns = map step_doc sts \<Longrightarrow> list_all (step_legal cc n) sts \<Longrightarrow> sched_file cc n f \<Longrightarrow>
   \<exists>ss. val_steps ns f = Accept ss \<and> list_all2 step_seen sts ss"
proof (induction sts arbitrary: ns)
  case (Cons st sts)
  then obtain nd ns' where ns: "ns = nd # ns'" "doc_of nd = step_doc st" "map doc_of ns' = map step_doc sts"
    by (auto simp: map_eq_Cons_conv)
  from Cons.IH [OF ns(3)] Cons.prems obtain ss where "val_steps ns' f = Accept ss" "list_all2 step_seen sts ss" by auto
  moreover from step_lints [OF ns(2) _ Cons.prems(3)] Cons.prems(2) obtain s where "val_step nd f = Accept s" "step_seen st s" by auto
  ultimately show ?case by (auto simp: ns(1))
qed simp

section \<open>Conditions\<close>

fun cond_legal :: "bool \<Rightarrow> int \<Rightarrow> cond \<Rightarrow> bool" where
  "cond_legal cc n (C_peers k) = (cc \<and> 1 \<le> k \<and> k \<le> n)"
| "cond_legal cc n (C_mesh k) = (1 \<le> k \<and> k \<le> n)"
| "cond_legal cc n C_assigned = cc"
| "cond_legal cc n C_absent = cc"
| "cond_legal cc n (C_observed k tx) = (\<not> cc \<and> 0 \<le> k \<and> k < n \<and> tx \<noteq> [] \<and> length tx < 30)"

definition cond_seen :: "cond \<Rightarrow> ex_cond \<Rightarrow> bool" where
  "cond_seen c x = (cond_wl x = (c \<in> {C_assigned, C_absent}) \<and> (cond_wl x \<longrightarrow> c_wl x = ''submitted''))"

lemma has_ramp_conds: "\<not> has_ramp ''peers''" "\<not> has_ramp ''mesh_count''" "\<not> has_ramp ''assigned''"
  "\<not> has_ramp ''absent''" "\<not> has_ramp ''observed''"
  by (simp_all add: has_ramp_def)

lemmas lint_cond_simps = val_cond_def known_conds_def has_ramp_conds suite_map_find_def val_extra_def cond_seen_def
  cond_wl_def cond0_def val_on_def scalar_eq_def

lemma nodes_small: "sched_file cc n f \<Longrightarrow> k \<le> n \<Longrightarrow> k \<le> kMaxNodes \<and> k \<le> LLONG_MAX \<and> n \<le> LLONG_MAX \<and> f_nodes f = n"
  by (simp add: sched_file_def kMaxNd_def LLONG_MAX_def kMaxNodes_def)

lemma cond_lints:
  assumes "doc_of nd = cond_doc c" "cond_legal cc n c" "sched_file cc n f"
  shows "\<exists>x. val_cond nd f = Accept x \<and> cond_seen c x"
proof (cases c)
  case (C_peers k)
  with assms(1) obtain l1 l2 l3 l4 l5 where
    "nd = Suite_Map l1 [(''peers'', l2, Suite_Scalar l3 (fmt_d k)), (''on'', l4, Suite_Scalar l5 ''all'')]"
    by (auto simp: doc_shapes)
  then show ?thesis using assms(2,3) C_peers nodes_small [OF assms(3), of k]
    by (auto simp: lint_cond_simps cond_peers_def sched_file_def)
next
  case (C_mesh k)
  with assms(1) obtain l1 l2 l3 where "nd = Suite_Map l1 [(''mesh_count'', l2, Suite_Scalar l3 (fmt_d k))]"
    by (auto simp: doc_shapes)
  then show ?thesis using assms(2,3) C_mesh nodes_small [OF assms(3), of k]
    by (auto simp: lint_cond_simps cond_mesh_def)
next
  case C_assigned
  with assms(1) obtain l1 l2 l3 l4 l5 where
    "nd = Suite_Map l1 [(''assigned'', l2, Suite_Map l3 [(''workload'', l4, Suite_Scalar l5 ''submitted'')])]"
    by (auto simp: doc_shapes)
  then show ?thesis using assms(2,3) C_assigned
    by (auto simp: lint_cond_simps cond_assigned_def cond_map_def val_wlref_def name_submitted sched_file_def Let_def)
next
  case C_absent
  with assms(1) obtain l1 l2 l3 l4 l5 l6 l7 where
    "nd = Suite_Map l1 [(''absent'', l2, Suite_Map l3 [(''workload'', l4, Suite_Scalar l5 ''submitted''),
       (''on'', l6, Suite_Scalar l7 ''all'')])]"
    by (auto simp: doc_shapes)
  then show ?thesis using assms(2,3) C_absent
    by (auto simp: lint_cond_simps cond_present_def val_wlref_def name_submitted sched_file_def Let_def)
next
  case (C_observed k tx)
  with assms(1) obtain l1 l2 l3 l4 l5 l6 l7 where
    "nd = Suite_Map l1 [(''observed'', l2, Suite_Map l3 [(''on'', l4, Suite_Scalar l5 (fmt_d k)),
       (''text'', l6, Suite_Scalar l7 tx)])]"
    by (auto simp: doc_shapes)
  then show ?thesis using assms(2,3) C_observed nodes_small [OF assms(3), of k]
    by (auto simp: lint_cond_simps cond_observed_def lone_def sched_file_def sut_def_ep_def kWeld_def Let_def
        kTextLen_def nonempty_def)
qed

section \<open>Phases\<close>

definition phase_seen :: "phase \<Rightarrow> ex_phase \<Rightarrow> bool" where
  "phase_seen ph p =
     (ph_name_of p = phase.ph_name ph \<and> list_all2 step_seen (phase.ph_steps ph) (ex_phase.ph_steps p) \<and>
      cond_seen (phase.ph_cond ph) (ex_phase.ph_cond p))"

lemma has_ramp_keys: "\<not> has_ramp ''name''" "\<not> has_ramp ''do''" "\<not> has_ramp ''until''" "\<not> has_ramp ''timeout_s''"
  "\<not> has_ramp ''version''" "\<not> has_ramp ''sut''" "\<not> has_ramp ''nodes''" "\<not> has_ramp ''domain''" "\<not> has_ramp ''phases''"
  by (simp_all add: has_ramp_def)

definition phase_legal :: "bool \<Rightarrow> int \<Rightarrow> phase \<Rightarrow> bool" where
  "phase_legal cc n ph =
     (list_all (step_legal cc n) (phase.ph_steps ph) \<and> cond_legal cc n (phase.ph_cond ph) \<and>
      phase.ph_name ph \<noteq> [] \<and> length (phase.ph_name ph) < kNameLen \<and> 1 \<le> ph_timeout ph \<and> ph_timeout ph \<le> kMaxTimeoutS)"

lemma phase_lints:
  assumes d: "doc_of nd = phase_doc ph" and ok: "phase_legal cc n ph" and f: "sched_file cc n f"
  shows "\<exists>p. val_phase nd f = Accept p \<and> phase_seen ph p"
proof -
  have t: "1 \<le> ph_timeout ph" "ph_timeout ph \<le> 3600" "0 \<le> ph_timeout ph" "ph_timeout ph \<le> LLONG_MAX"
    using ok by (simp_all add: phase_legal_def kMaxTimeoutS_def LLONG_MAX_def)
  note ok = ok [unfolded phase_legal_def]
  show ?thesis
  proof (cases "phase.ph_steps ph = []")
    case True
    with d obtain l l1 l2 l3 l4 l5 u where
      nd: "nd = Suite_Map l [(''name'', l1, Suite_Scalar l2 (phase.ph_name ph)), (''until'', l3, u),
         (''timeout_s'', l4, Suite_Scalar l5 (fmt_d (ph_timeout ph)))]" and u: "doc_of u = cond_doc (phase.ph_cond ph)"
      by (auto simp: phase_doc_def doc_shapes)
    obtain x where x: "val_cond u f = Accept x" "cond_seen (phase.ph_cond ph) x" using cond_lints [OF u _ f] ok by blast
    show ?thesis
      using ok t x True
      by (simp add: nd val_phase_def has_ramp_keys suite_map_find_def val_extra_def Let_def phase_seen_def
          nonempty_def kMaxTimeoutS_def ex_bool_eq)
  next
    case False
    with d obtain l l1 l2 l3 l4 l5 l6 l7 ns u where
      nd: "nd = Suite_Map l [(''name'', l1, Suite_Scalar l2 (phase.ph_name ph)), (''do'', l6, Suite_List l7 ns), (''until'', l3, u),
         (''timeout_s'', l4, Suite_Scalar l5 (fmt_d (ph_timeout ph)))]" and u: "doc_of u = cond_doc (phase.ph_cond ph)"
      and ns: "map doc_of ns = map step_doc (phase.ph_steps ph)"
      by (auto simp: phase_doc_def doc_shapes)
    obtain x where x: "val_cond u f = Accept x" "cond_seen (phase.ph_cond ph) x" using cond_lints [OF u _ f] ok by blast
    obtain ss where ss: "val_steps ns f = Accept ss" "list_all2 step_seen (phase.ph_steps ph) ss"
      using steps_lint [OF ns _ f] ok by blast
    show ?thesis
      using ok t x ss
      by (simp add: nd val_phase_def has_ramp_keys suite_map_find_def val_extra_def Let_def phase_seen_def
          nonempty_def kMaxTimeoutS_def ex_bool_eq)
  qed
qed

lemma phases_lint:
  "map doc_of nds = map phase_doc phs \<Longrightarrow> list_all (phase_legal cc n) phs \<Longrightarrow> sched_file cc n f \<Longrightarrow>
   \<exists>ps. val_phases nds f = Accept ps \<and> list_all2 phase_seen phs ps"
proof (induction phs arbitrary: nds)
  case (Cons ph phs)
  then obtain nd nds' where ns: "nds = nd # nds'" "doc_of nd = phase_doc ph" "map doc_of nds' = map phase_doc phs"
    by (auto simp: map_eq_Cons_conv)
  from Cons.IH [OF ns(3)] Cons.prems obtain ps where "val_phases nds' f = Accept ps" "list_all2 phase_seen phs ps" by auto
  moreover from phase_lints [OF ns(2) _ Cons.prems(3)] Cons.prems(2) obtain p where "val_phase nd f = Accept p" "phase_seen ph p" by auto
  ultimately show ?case by (auto simp: ns(1))
qed simp

section \<open>Names and workloads\<close>

lemma phase_names_accepts:
  "distinct (map ph_name_of ps) \<Longrightarrow> set seen \<inter> set (map ph_name_of ps) = {} \<Longrightarrow> phase_names seen ps = Accept ()"
  by (induction ps arbitrary: seen) auto

text \<open>Steps that submit at most once, and stop only what was submitted.\<close>

fun steps_once :: "step list \<Rightarrow> bool \<Rightarrow> bool option" where
  "steps_once [] saw = Some saw"
| "steps_once (S_submit n # sts) saw = (if saw then None else steps_once sts True)"
| "steps_once (S_stop # sts) saw = (if saw then steps_once sts saw else None)"
| "steps_once (_ # sts) saw = steps_once sts saw"

definition reg_of :: "bool \<Rightarrow> registry" where
  "reg_of saw = (if saw then \<lparr>names = [''submitted''], bases = [], nentries = 1, nsub = 1\<rparr> else reg0)"

lemma reg_of_has: "reg_has (reg_of saw) ''submitted'' = saw"
  by (simp add: reg_of_def reg_has_def reg0_def)

lemma reg_step_seen:
  "step_seen st s \<Longrightarrow> steps_once [st] saw = Some saw' \<Longrightarrow> reg_step s (reg_of saw) = Accept (reg_of saw')"
proof (cases st)
  case (S_submit k)
  assume "step_seen st s" "steps_once [st] saw = Some saw'"
  with S_submit have s: "s_kind s = ST_SUBMIT" "\<not> s_has_as s" "\<not> s_has_count s" "\<not> saw" "saw'"
    by (auto simp: step_seen_def split: if_splits)
  show ?thesis
    by (simp add: s reg_step_def reg_submit_def reg_add_def reg_of_def reg0_def reg_has_def kMaxWl_def)
next
  case S_stop
  assume "step_seen st s" "steps_once [st] saw = Some saw'"
  with S_stop show ?thesis by (auto simp: step_seen_def reg_step_def reg_of_has split: if_splits)
qed (auto simp: step_seen_def reg_step_def split: step_kind.split)

lemma steps_once_Cons: "steps_once (st # sts) saw = (case steps_once [st] saw of None \<Rightarrow> None | Some saw \<Rightarrow> steps_once sts saw)"
  by (cases st) simp_all

lemma reg_steps_seen:
  "list_all2 step_seen sts ss \<Longrightarrow> steps_once sts saw = Some saw' \<Longrightarrow> reg_steps ss (reg_of saw) = Accept (reg_of saw')"
proof (induction sts ss arbitrary: saw rule: list_all2_induct)
  case (Cons st sts s ss)
  from Cons.prems obtain saw1 where 1: "steps_once [st] saw = Some saw1" and 2: "steps_once sts saw1 = Some saw'"
    by (auto simp: steps_once_Cons [of st sts] split: option.splits)
  from reg_step_seen [OF Cons.hyps(1) 1] Cons.IH [OF 2] show ?case by simp
qed simp


definition cond_ready :: "cond \<Rightarrow> bool \<Rightarrow> bool" where
  "cond_ready c saw = (c \<in> {C_assigned, C_absent} \<longrightarrow> saw)"

lemma pub_once: "pub_ok n sts c \<Longrightarrow> steps_once sts saw = Some saw \<and> cond_ready c saw"
  by (auto simp: pub_ok_def cond_ready_def)

lemma settle_once: "settle_ok cc n sts c \<Longrightarrow> steps_once sts saw = Some saw \<and> cond_ready c saw"
  using pub_once [of n sts c saw] by (auto simp: settle_ok_def cond_ready_def split: if_splits)

lemma sched_step_once:
  "sched_step cc n s ph s' \<Longrightarrow>
   steps_once (phase.ph_steps ph) (snd s) = Some (snd s') \<and> cond_ready (phase.ph_cond ph) (snd s')"
proof (induction rule: sched_step.induct)
  case (fault ph nd sts b saw)
  then show ?case using settle_once [OF fault(2), of saw] by simp
next
  case (heal ph b sts saw)
  then show ?case using settle_once [OF heal(2), of saw] by simp
next
  case (crash ph nd sig sts b saw)
  then show ?case using settle_once [OF crash(2), of saw] by simp
next
  case (pub ph b saw)
  then show ?case using pub_once by auto
qed (auto simp: cond_ready_def)

lemma pub_legal: "pub_ok n sts c \<Longrightarrow> list_all (step_legal False n) sts \<and> cond_legal False n c"
proof -
  assume "pub_ok n sts c"
  moreover have "length (fmt_x 4 v) < 26" for v using fmt_x_length [of 4 v] by simp
  ultimately show ?thesis by (auto simp: pub_ok_def)
qed

lemma settle_legal: "settle_ok cc n sts c \<Longrightarrow> 1 \<le> n \<Longrightarrow> list_all (step_legal cc n) sts \<and> cond_legal cc n c"
  using pub_legal [of n sts c] by (auto simp: settle_ok_def split: if_splits)

lemma sched_step_legal:
  "sched_step cc n s ph s' \<Longrightarrow> 1 \<le> n \<Longrightarrow> b_pend (fst s) < n \<Longrightarrow>
   list_all (step_legal cc n) (phase.ph_steps ph) \<and> cond_legal cc n (phase.ph_cond ph) \<and> b_pend (fst s') < n"
proof (induction rule: sched_step.induct)
  case (fault ph nd sts b saw)
  then show ?case using settle_legal [OF fault(2)] by simp
next
  case (heal ph b sts saw)
  then show ?case using settle_legal [OF heal(2)] by simp
next
  case (crash ph nd sig sts b saw)
  then show ?case using settle_legal [OF crash(2)] by simp
next
  case (pub ph b saw)
  then show ?case using pub_legal [OF pub(2)] by simp
qed auto

lemma phase_nm_short: "0 \<le> i \<Longrightarrow> i < 10 ^ 9 \<Longrightarrow> phase_nm i \<noteq> [] \<and> length (phase_nm i) < kNameLen"
  using phase_nm_length [of i] by (auto simp: phase_nm_def kNameLen_def)

lemma sched_legal:
  "sched cc n i s phs s' \<Longrightarrow> 1 \<le> n \<Longrightarrow> b_pend (fst s) < n \<Longrightarrow> 0 \<le> i \<Longrightarrow> i + int (length phs) < 10 ^ 9 \<Longrightarrow>
   list_all (phase_legal cc n) phs \<and> (\<forall>ph \<in> set phs. \<exists>j \<ge> i. phase.ph_name ph = phase_nm j) \<and>
   distinct (map phase.ph_name phs)"
proof (induction i s phs s' rule: sched.induct)
  case (next_phase s ph s1 i phs s2)
  note st = sched_step_legal [OF next_phase.hyps(1) next_phase.prems(1,2)]
  have "0 \<le> i + 1" "i + 1 + int (length phs) < 10 ^ 9" using next_phase.prems(3,4) by simp_all
  note ih = next_phase.IH [OF next_phase.prems(1) conjunct2 [OF conjunct2 [OF st]] this]
  have "phase.ph_name ph \<noteq> phase.ph_name p" if p: "p \<in> set phs" for p
  proof -
    obtain j where j: "i + 1 \<le> j" "phase.ph_name p = phase_nm j" using bspec [OF conjunct1 [OF conjunct2 [OF ih]] p] by (elim exE conjE)
    have "phase_nm i \<noteq> phase_nm j"
    proof
      assume eq: "phase_nm i = phase_nm j"
      have "0 \<le> j" using j(1) next_phase.prems(3) by linarith
      from phase_nm_inj [OF next_phase.prems(3) this eq] j(1) show False by linarith
    qed
    then show ?thesis by (simp only: next_phase.hyps(2) j(2)) simp
  qed
  moreover have "phase_legal cc n ph"
    using st phase_nm_short [of i] next_phase.prems next_phase.hyps(2-4)
    by (simp add: phase_legal_def kMinTo_def kMaxPTo_def kMaxTimeoutS_def)
  moreover have "\<forall>p \<in> set phs. \<exists>j \<ge> i. phase.ph_name p = phase_nm j" 
  proof
    fix p assume "p \<in> set phs"
    from bspec [OF conjunct1 [OF conjunct2 [OF ih]] this] obtain j where "i + 1 \<le> j" "phase.ph_name p = phase_nm j"
      by (elim exE conjE)
    then show "\<exists>j \<ge> i. phase.ph_name p = phase_nm j" by (intro exI [of _ j]) simp
  qed
  ultimately show ?case using ih next_phase.hyps(2) by (simp, blast)
qed simp

lemma sched_reg:
  "sched cc n i s phs s' \<Longrightarrow> list_all2 phase_seen phs ps \<Longrightarrow>
   reg_phases ps (reg_of (snd s)) = Accept (reg_of (snd s'))"
proof (induction i s phs s' arbitrary: ps rule: sched.induct)
  case (next_phase s ph s1 i phs s2)
  from next_phase.prems obtain p ps' where ps: "ps = p # ps'" "phase_seen ph p" "list_all2 phase_seen phs ps'"
    by (auto simp: list_all2_Cons1)
  note o = sched_step_once [OF next_phase.hyps(1)]
  have "reg_steps (ex_phase.ph_steps p) (reg_of (snd s)) = Accept (reg_of (snd s1))"
    using reg_steps_seen o ps(2) by (auto simp: phase_seen_def)
  moreover have "\<not> (cond_wl (ex_phase.ph_cond p) \<and> \<not> reg_has (reg_of (snd s1)) (c_wl (ex_phase.ph_cond p)))"
    using o ps(2) reg_of_has [of "snd s1"] by (auto simp: phase_seen_def cond_seen_def cond_ready_def)
  ultimately show ?case using next_phase.IH [OF ps(3)] by (simp add: ps(1))
qed simp


section \<open>The whole file\<close>

lemma suite_doc_shape:
  assumes "doc_of nd = suite_doc p cc phs"
  shows "\<exists>l l1 l2 l3 l4 l5 l6 l7 l8 l9 l10 l11 l12 l13 l14 nds.
    map doc_of nds = map phase_doc phs \<and>
    nd = Suite_Map l ([(''name'', l1, Suite_Scalar l2 ((if cc then ''nemesis-c-'' else ''nemesis-w-'') @ fmt_x 8 (p_seed p AND 0xffffffff))),
      (''version'', l3, Suite_Scalar l4 ''1''), (''sut'', l5, Suite_Scalar l6 (if cc then ''concord'' else ''weld'')),
      (''nodes'', l7, Suite_Scalar l8 (fmt_d (p_nodes p)))] @
      (if cc then [] else [(''domain'', l9, Suite_Scalar l10 ''64'')]) @
      [(''timeout_s'', l11, Suite_Scalar l12 (fmt_d (p_nphases p * kFileTo))), (''phases'', l13, Suite_List l14 nds)])"
  using assms by (cases cc) (auto simp: suite_doc_def doc_shapes)

lemma need_int_words: "need_int (Suite_Scalar l ''1'') = Some 1" "need_int (Suite_Scalar l ''64'') = Some 64"
  using need_int_fmt [of 1 l] need_int_fmt [of 64 l]
  by (simp_all add: fmt_d_def digits.simps digit_char_def LLONG_MAX_def)

lemma suite_doc_lints:
  assumes d: "doc_of nd = suite_doc p cc phs" and n: "1 \<le> p_nodes p" "p_nodes p \<le> kMaxNd"
    and t: "2 \<le> p_nphases p" "p_nphases p \<le> kMaxPh" and ne: "phs \<noteq> []"
    and ok: "list_all (phase_legal cc (p_nodes p)) phs" "distinct (map phase.ph_name phs)"
    and reg: "\<And>ps. list_all2 phase_seen phs ps \<Longrightarrow> \<exists>g. reg_phases ps reg0 = Accept g"
  shows "\<exists>f. val_top nd = Accept f \<and> list_all2 phase_seen phs (f_phases f)"
proof -
  obtain l l1 l2 l3 l4 l5 l6 l7 l8 l9 l10 l11 l12 l13 l14 nds where nds: "map doc_of nds = map phase_doc phs" and
    nd: "nd = Suite_Map l ([(''name'', l1, Suite_Scalar l2 ((if cc then ''nemesis-c-'' else ''nemesis-w-'') @ fmt_x 8 (p_seed p AND 0xffffffff))),
      (''version'', l3, Suite_Scalar l4 ''1''), (''sut'', l5, Suite_Scalar l6 (if cc then ''concord'' else ''weld'')),
      (''nodes'', l7, Suite_Scalar l8 (fmt_d (p_nodes p)))] @
      (if cc then [] else [(''domain'', l9, Suite_Scalar l10 ''64'')]) @
      [(''timeout_s'', l11, Suite_Scalar l12 (fmt_d (p_nphases p * kFileTo))), (''phases'', l13, Suite_List l14 nds)])"
    using suite_doc_shape [OF d] by blast
  have ints: "p_nodes p \<le> LLONG_MAX" "p_nodes p \<le> 100" "0 \<le> p_nphases p * kFileTo" "p_nphases p * kFileTo \<le> LLONG_MAX"
    "1 \<le> p_nphases p * kFileTo" "p_nphases p * kFileTo \<le> 3600"
    using n t by (auto simp: kMaxNd_def LLONG_MAX_def kFileTo_def kMaxPh_def)
  let ?name = "(if cc then ''nemesis-c-'' else ''nemesis-w-'') @ fmt_x 8 (p_seed p AND 0xffffffff)"
  let ?f = "file0\<lparr>f_name := ?name, f_sut := (if cc then kConcord else kWeld), f_nodes := p_nodes p, f_needs := []\<rparr>"
  have name: "nonempty (Some ?name)" "length ?name < kNameLen"
    using fmt_x_length [of 8 "p_seed p AND 0xffffffff"] by (auto simp: nonempty_def kNameLen_def)
  have 1: "top_identity nd = Accept ?f"
    using name n ints by (cases cc) (simp_all add: nd top_identity_def suite_map_find_def need_int_words Let_def kMaxNodes_def)
  obtain f2 where 2: "top_setup nd ?f = Accept f2" "sched_file cc (p_nodes p) f2"
    using n by (cases cc)
      (simp_all add: nd top_setup_def suite_map_find_def need_int_words kWeld_def kConcord_def sched_file_def)
  obtain f3 where 3: "top_limits nd f2 = Accept f3" "sched_file cc (p_nodes p) f3"
    using 2(2) ints by (cases cc) (auto simp: nd top_limits_def suite_map_find_def sched_file_def kMaxTimeoutS_def)
  obtain ps where ps: "val_phases nds f3 = Accept ps" "list_all2 phase_seen phs ps"
    using phases_lint [OF nds ok(1) 3(2)] by blast
  have "map ph_name_of ps = map phase.ph_name phs"
    using ps(2) by (induction rule: list_all2_induct) (auto simp: phase_seen_def)
  then have "phase_names [] ps = Accept ()" using ok(2) by (intro phase_names_accepts) simp_all
  moreover obtain g where "reg_phases ps reg0 = Accept g" using reg [OF ps(2)] by blast
  moreover have "nds \<noteq> []" using nds ne by auto
  ultimately have "top_phases nd f3 = Accept (f3\<lparr>f_phases := ps\<rparr>)"
    using ps(1) by (cases cc) (simp_all add: nd top_phases_def suite_map_find_def)
  moreover have "is_map nd" "ramp_keys False (entries_of nd) = Accept ()"
    "val_extra nd [''name'', ''version'', ''sut'', ''needs'', ''nodes'', ''domain'', ''topic'', ''spawn'',
       ''ros_peers'', ''timeout_s'', ''phases'', ''bins'', ''disk_cap_mb'', ''isolate''] ''top-level key'' = Accept ()"
    by (cases cc; simp add: nd has_ramp_keys val_extra_def)+
  ultimately have "val_top nd = Accept (f3\<lparr>f_phases := ps\<rparr>)"
    using 1 2(1) 3(1) unfolding val_top_def by (simp only: need_Accept bind_Accept) blast
  with ps(2) show ?thesis by simp
qed


lemma mesh_legal: "1 \<le> n \<Longrightarrow> n \<le> kMaxNd \<Longrightarrow> phase_legal cc n (mesh_phase n cc)"
  by (cases cc) (simp_all add: phase_legal_def mesh_phase_def kNameLen_def kMeshTo_def kMaxTimeoutS_def)

lemma gen_schedule_lints:
  assumes p: "profile_ok (Some p)" and g: "gen_schedule p tx phs"
  shows "\<exists>nd f. suite_parse tx = Ok nd \<and> val_top nd = Accept f \<and>
    list_all2 phase_seen (mesh_phase (p_nodes p) (sut_copy p = Some ''concord'') # phs) (f_phases f)"
proof -
  let ?cc = "sut_copy p = Some ''concord''"
  let ?mesh = "mesh_phase (p_nodes p) ?cc"
  note pr = profile_okD [OF p]
  obtain nd where nd: "suite_parse tx = Ok nd" "doc_of nd = suite_doc p ?cc (?mesh # phs)"
    using gen_schedule_parses [OF p g] by blast
  obtain s' where s: "sched ?cc (p_nodes p) 1 (start_budget p, False) phs s'" "length phs = nat (p_nphases p - 1)"
    using g by (auto simp: gen_schedule_def)
  have legal: "list_all (phase_legal ?cc (p_nodes p)) phs" "\<forall>ph \<in> set phs. \<exists>j \<ge> 1. phase.ph_name ph = phase_nm j"
    "distinct (map phase.ph_name phs)"
    using sched_legal [OF s(1)] pr s(2) by (simp_all add: start_budget_def kMaxPh_def)
  have "\<exists>f. val_top nd = Accept f \<and> list_all2 phase_seen (?mesh # phs) (f_phases f)"
  proof (rule suite_doc_lints [OF nd(2) pr(1-4)])
    show "list_all (phase_legal ?cc (p_nodes p)) (?mesh # phs)" using legal(1) mesh_legal [OF pr(1,2)] by simp
    have "phase_nm j \<noteq> ''mesh''" for j by (simp add: phase_nm_def)
    then have "''mesh'' \<notin> phase.ph_name ` set phs" using legal(2) by (metis imageE)
    then show "distinct (map phase.ph_name (?mesh # phs))" using legal(3) by (simp add: mesh_phase_def)
    fix ps assume "list_all2 phase_seen (?mesh # phs) ps"
    then obtain q ps' where ps: "ps = q # ps'" "phase_seen ?mesh q" "list_all2 phase_seen phs ps'"
      by (auto simp: list_all2_Cons1)
    have "reg_phases ps reg0 = reg_phases ps' reg0"
      using ps(2) by (cases ?cc) (simp_all add: ps(1) phase_seen_def mesh_phase_def cond_seen_def need_def)
    moreover have "reg_phases ps' (reg_of False) = Accept (reg_of (snd s'))" using sched_reg [OF s(1) ps(3)] by simp
    ultimately show "\<exists>g. reg_phases ps reg0 = Accept g" by (simp add: reg_of_def)
  qed simp
  with nd(1) show ?thesis by blast
qed

text \<open>A file that opens, seeks and gives its text.\<close>

definition reads :: "string \<Rightarrow> file_io" where
  "reads tx = \<lparr>io_fopen = True, io_seek_end = True, io_ftell = int (length tx), io_seek_set = True, io_fread = tx\<rparr>"

lemma read_reads: "read_file (reads tx) = Accept tx"
  by (simp add: read_file_def reads_def)

lemma gen_loads:
  assumes "nemesis_gen io (Some p) path = (True, Some tx)"
  shows "\<exists>f phs. load_validated (reads tx) (Some name) n = (Some f, []) \<and> list_all2 phase_seen phs (f_phases f)"
proof -
  from gen_True [OF assms] obtain phs where g: "profile_ok (Some p)" "gen_schedule p tx phs" by auto
  from gen_schedule_lints [OF g] show ?thesis by (auto simp: load_validated_def read_reads)
qed

text \<open>
  C37. A scenario the fuzzer generates is a scenario the executor accepts: whenever
  \<open>nemesis_gen\<close> reports success, \<open>suite_lint_file\<close> accepts the file it has written, and
  writes nothing to \<open>why\<close>.
\<close>

theorem generated_scenarios_lint:
  assumes "nemesis_gen io pp path = (True, Some tx)"
  shows "suite_lint_file (reads tx) (Some name) n = (True, [])"
proof -
  obtain p where "pp = Some p" using gen_True [OF assms] by blast
  with assms gen_loads [of io p path tx name n] show ?thesis by (auto simp: suite_lint_file_def)
qed

theorem generated_scenarios_lint_witness:
  "\<exists>tx. nemesis_gen all_ok (Some demo) (Some ''out.yaml'') = (True, Some tx) \<and>
     suite_lint_file (reads tx) (Some ''out.yaml'') 160 = (True, [])"
proof -
  obtain tx where t: "nemesis_gen all_ok (Some demo) (Some ''out.yaml'') = (True, Some tx)" using demo_gen by blast
  from generated_scenarios_lint [OF t] t show ?thesis by blast
qed



text \<open>
  C0. The workload names of an accepted file are good for the run: when no reference names a
  member with a zero in front, no set has one member and no benchmark submits, the \<open>submit\<close>, \<open>stop\<close> and \<open>update\<close>
  steps and the conditions, run in order over the executor's table, never fail with a duplicate
  or an unknown workload, too many workloads or a name too long, whatever the driver answers; the
  run ends when all is done, at a fixed id, or where the driver fails, so with a driver that does what
  it is asked no step fails. All entries fit the table.
\<close>

theorem accepted_names_resolve:
  assumes "load_validated io path n = (Some f, why)" "list_all phase_clear (f_phases f)"
    "table_phases w (f_sut f) 0 (f_phases f) tab0 = (e, t)"
  shows "no_table_error (obliging w) e \<and> (e = Passed \<longrightarrow> length (ents t) \<le> kMaxWl)"
  using assms by (rule accepted_names)

lemma seen_clear: "phase_seen ph p \<Longrightarrow> phase_clear p"
proof -
  assume s: "phase_seen ph p"
  have z: "\<not> zero_padded ''submitted''" by (simp add: zero_padded_def)
  have "clear_ref x" if "step_seen st x" for st x
    using that z by (cases st) (auto simp: step_seen_def clear_ref_def)
  then have "list_all clear_ref (ex_phase.ph_steps p)"
    using s by (auto simp: phase_seen_def list_all2_conv_all_nth list_all_length)
  with s z show ?thesis by (auto simp: phase_seen_def cond_seen_def phase_clear_def)
qed

theorem accepted_names_resolve_witness:
  "\<exists>tx f e t. load_validated (reads tx) (Some ''out.yaml'') 160 = (Some f, []) \<and>
     table_phases \<lparr>w_submit = \<lambda>i k. Some (''w1'', 5), w_other = \<lambda>i k. True\<rparr> (f_sut f) 0 (f_phases f) tab0 = (e, t) \<and>
     (e = Passed \<or> e = Fixed_id)"
proof -
  obtain tx where t: "nemesis_gen all_ok (Some demo) (Some ''out.yaml'') = (True, Some tx)" using demo_gen by blast
  obtain f phs where f: "load_validated (reads tx) (Some ''out.yaml'') 160 = (Some f, [])"
      "list_all2 phase_seen phs (f_phases f)" using gen_loads [OF t] by blast
  have "list_all phase_clear (f_phases f)"
    using f(2) seen_clear by (auto simp: list_all2_conv_all_nth list_all_length)
  moreover obtain e t where r: "table_phases \<lparr>w_submit = \<lambda>i k. Some (''w1'', 5), w_other = \<lambda>i k. True\<rparr> (f_sut f) 0 (f_phases f) tab0 = (e, t)"
    by (cases "table_phases \<lparr>w_submit = \<lambda>i k. Some (''w1'', 5), w_other = \<lambda>i k. True\<rparr> (f_sut f) 0 (f_phases f) tab0")
  ultimately have "no_table_error True e"
    using accepted_names_resolve [OF f(1) _ r] by (simp add: obliging_def)
  then have "e = Passed \<or> e = Fixed_id" by (cases e) (simp_all add: no_table_error_def)
  with f(1) r show ?thesis by blast
qed

end
