(* ===== verification/Spec2Isabelle.thy ===== *)
theory Spec2Isabelle
  imports Event_Loop Yaml_Sound Sim_Lock Exec_Fault Nemesis_Lint
begin

text \<open>
  Resonance, a simulator and test runner for mesh radio networks, as Isabelle definitions
  translated from the C sources under \<open>src/\<close>, with the theorems that make its parts correct.

  \<^bold>\<open>The program.\<close> It has two halves. The simulation core keeps a world of nodes on a map
  (\<open>node/\<close>, \<open>world/\<close>), a queue of events in time order (\<open>heap/\<close>), and a context that ties them
  (\<open>shared/context.c\<close>): \<open>context_send\<close> and \<open>udp/\<close> schedule deliveries along radio links, and
  \<open>context_run\<close> executes the events. The test runner starts one process per node on the host, in
  network namespaces of their own (\<open>sim/\<close>, \<open>run/\<close>), pumps real packets between their TUN devices
  according to the simulated radio and to injected faults (\<open>tun/\<close>), and drives them through a
  scenario: a file in a small YAML dialect (\<open>suite/parse.c\<close>), checked by a linter before anything
  starts and then executed step by step (\<open>suite/exec.c\<close>). A fuzzer writes random scenarios and
  shrinks those that fail (\<open>suite/nemesis.c\<close>).

  \<^bold>\<open>Theories and what they model.\<close>
  \<^item> \<open>Prelude\<close>: machine types, pointers that may be null (\<open>ptr\<close> is \<open>option\<close>), the allocator (an
    argument, so that every failure of it is covered), lemmas on arrays as lists. \<open>Binary64\<close>: the
    double arithmetic the sources use, rounding to nearest even on rationals. \<open>Text_Format\<close>: the
    conversions of \<open>printf\<close>. \<open>Os\<close>: system calls as a trace; the kernel is an argument that answers
    each call from the calls before it, and what it is relied on for is a named hypothesis.
  \<^item> \<open>Event_Heap\<close> (\<open>heap/heap.c\<close>, \<open>shared/events.h\<close>), \<open>Rng\<close> (\<open>rng/\<close>, \<open>math/\<close>), \<open>Node_List\<close>
    (\<open>node/\<close>), \<open>Radio_World\<close> (\<open>world/\<close>), \<open>Sim_Context\<close> and \<open>Event_Loop\<close> (\<open>shared/context.c\<close>),
    \<open>Udp\<close> (\<open>udp/\<close>): the simulation core. Callbacks of the user are an argument of the event loop.
  \<^item> \<open>Tun\<close> (\<open>tun/\<close>): the packet pump, its shaping (loss, delay, jitter, rate, duplication), the
    directed drops and the flow counters.
  \<^item> \<open>Yaml_Parse\<close>, \<open>Yaml_Sound\<close>, \<open>Yaml_Render\<close> (\<open>suite/parse.c\<close>): the scenario parser, what it
    promises on every text, and a rendering of documents that it reads back.
  \<^item> \<open>Nemesis\<close>, \<open>Nemesis_Gen\<close> (the generator), \<open>Nemesis_Shrink\<close>, \<open>Nemesis_Cut\<close> (the shrinker) and
    \<open>Nemesis_Props\<close> (\<open>suite/nemesis.c\<close>).
  \<^item> \<open>Sim_Net\<close> (names of a run), \<open>Sim_Lock\<close> (run ids of concurrent processes), \<open>Sim_Host\<close> (namespaces,
    devices, addresses), \<open>Sim_Nodes\<close> (the simulated nodes), \<open>Sim_Spawn\<close> (child processes): \<open>sim/sim.c\<close>.
  \<^item> \<open>Run_Sampler\<close> (the run and its resource samples), \<open>Run_Life\<close> (setup, polling, teardown) and
    \<open>Run_Own\<close> (what a run owns of the process): \<open>run/run.c\<close>.
  \<^item> \<open>Lint_Text\<close>, \<open>Lint_Cond\<close>, \<open>Lint_Step\<close>, \<open>Lint_Top\<close>: the linter of \<open>suite/exec.c\<close>, from the
    characters of a name to \<open>suite_lint_file\<close>; a refusal carries the line and the message.
    \<open>Lint_Sound\<close> and \<open>Lint_File\<close> say what an accepted file is, \<open>Lint_Names\<close> what its registry of
    workload names holds.
  \<^item> \<open>Exec_Table\<close>: the executor's table of workloads, with the \<open>submit\<close>, \<open>stop\<close> and \<open>update\<close>
    steps; \<open>Exec_Fault\<close>: the \<open>drop\<close>, \<open>slow\<close>, \<open>heal\<close> and \<open>move\<close> steps on the run and its pump.
  \<^item> \<open>Nemesis_Lint\<close>: where generator, parser, linter and executor meet.

  \<^bold>\<open>How state and operations correspond.\<close> A struct is a record with the fields of the source, an
  enum a datatype, an operation a function that returns its result with the changed state; a
  pointer argument that may be null is an option, and its guard a branch. Integers are words of
  the width of the source, or \<open>int\<close> where the source has an \<open>int\<close> that its checks keep small. An
  array with a count is the list of its live entries. Output to the terminal is left out.

  \<^bold>\<open>What the lemmas show.\<close>
  \<^item> Core: the invariant \<open>ctx_inv\<close> and that every operation keeps it; events are executed in the order
    of time and insertion, none is lost, and the loop returns; the node list refines a map; the
    integer walk of a radio path visits the cells of the rounded line; a send or multicast
    delivers along radio links and nowhere else.
  \<^item> Pump: what is written to whom; counters agree with the writes; the token bucket keeps its rate.
  \<^item> Parser: it returns on every text, accepted trees are well formed, errors name a line of the
    text, and it inverts the rendering.
  \<^item> Fuzzer: generated scenarios are legal, within their fault budget, and accepted by the linter;
    a shrunk scenario is valid, fails, comes from the input by deletions, and is minimal in its phases.
  \<^item> Host: runs share no name; a run id has one holder; namespaces are undone by the teardown; no child
    and no descriptor is left by a start that fails; a child runs a program only inside its namespace;
    a setup that fails leaves nothing; a teardown ends and releases everything.
  \<^item> Linter and executor: an accepted file is within every bound and its names resolve at run time;
    a heal of all nodes undoes every drop and slow.

  \<^bold>\<open>Interfaces.\<close> The contracts between parts are locales, each interpreted on the definitions that
  provide it: \<open>event_queue\<close> (the heap, for the context), \<open>node_directory\<close> (the node list),
  \<open>keyed_table\<close> (shaping slots and directed drops of the pump), \<open>blocks\<close> (the parser's recursion),
  \<open>phase_writer\<close> (the two generators), \<open>sweeper\<close> (the two loops of the shrinker) and \<open>setup_calls\<close>
  (the two ways to set up a run).

  \<^bold>\<open>Bounds and fuel.\<close> The parser's loops carry the number of lines plus two as fuel and each round takes
  a line, so it is never used up; the depth is limited to 64 as in the source. The
  shrinker's phase loop is measured by the tries left of \<open>kMaxTry\<close>, its step loop by \<open>kMaxPass\<close>. A
  submit loops up to its count. Waits for a child, a lock or the clock are partial functions, and
  that they return is proved from what the kernel and the clock are documented to do. The event
  loop is a partial function too, returning when the handlers keep to a stated discipline.

  \<^bold>\<open>Not modelled.\<close> The executor's run of benchmarks and conditions, its metrics and forensics, and the
  drivers \<open>driver/concord.c\<close> and \<open>driver/weld.c\<close> are commands to foreign programs and readings of
  their output; \<open>cmd/\<close> is argument reading, help and display; \<open>img/\<close> calls image tools; \<open>check/\<close> and
  the \<open>*_test.c\<close> files are tests. In modelled files: failure of allocation in the parser and the
  linter, messages to the terminal, and the \<open>errno\<close> a skipped setup keeps for its message.
\<close>

end
